(* ===== verification/Prelude.thy ===== *)
theory Prelude
  imports Main "HOL-Library.Word" "HOL-Library.List_Lexorder" "HOL-Library.Extended_Nat"
    "HOL-Library.Multiset"
begin

text \<open>
  Shared vocabulary of the development: bytes and Python strings, the exceptions the modelled code
  raises and the result type that carries them, key-ordered table operations, and the generic list
  lemmas the components use. Nothing here models a particular source file.
\<close>

section \<open>Bytes and strings\<close>

type_synonym byte = "8 word"
type_synonym bytes = "byte list"

text \<open>A Python \<open>str\<close> is its list of Unicode code points; \<open>str\<close> turns an ASCII literal into one.\<close>

type_synonym pystr = "nat list"

definition str :: "string \<Rightarrow> pystr" where
  "str s = map of_char s"

lemma str_Nil [simp]: "str [] = []"
  by (simp add: str_def)

lemma str_Cons [simp]: "str (c # s) = of_char c # str s"
  by (simp add: str_def)

section \<open>Exceptions and results\<close>

datatype py_error =
    ValueError | IndexError | KeyError | TypeError | AttributeError
  | SyntaxError | NameError | ZeroDivisionError | OSError
  | IntegrityError | OperationalError | CheckerTimeout | OtherError pystr

type_synonym 'a res = "py_error + 'a"

definition and_then :: "'a res \<Rightarrow> ('a \<Rightarrow> 'b res) \<Rightarrow> 'b res" where
  "and_then r f = (case r of Inl e \<Rightarrow> Inl e | Inr a \<Rightarrow> f a)"

fun map_res :: "('a \<Rightarrow> 'b res) \<Rightarrow> 'a list \<Rightarrow> 'b list res" where
  "map_res f [] = Inr []"
| "map_res f (x # xs) = and_then (f x) (\<lambda>y. and_then (map_res f xs) (\<lambda>ys. Inr (y # ys)))"

fun option_of_res :: "'a res \<Rightarrow> 'a option" where
  "option_of_res (Inl _) = None"
| "option_of_res (Inr a) = Some a"

named_theorems res_simps \<open>rewriting of results and of the computations that return them\<close>

lemma and_then_simps [simp, res_simps]:
  "and_then (Inl e) f = Inl e"
  "and_then (Inr a) f = f a"
  by (simp_all add: and_then_def)

lemma and_then_eq_Inr [res_simps]:
  "and_then r f = Inr b \<longleftrightarrow> (\<exists>a. r = Inr a \<and> f a = Inr b)"
  by (cases r) auto

lemma map_res_Inr: "(\<And>x. x \<in> set xs \<Longrightarrow> f x = Inr (g x)) \<Longrightarrow> map_res f xs = Inr (map g xs)"
  by (induction xs) auto

lemma map_res_eq_Inr_iff:
  "map_res f xs = Inr ys \<longleftrightarrow> list_all2 (\<lambda>x y. f x = Inr y) xs ys"
  by (induction xs arbitrary: ys) (auto simp: res_simps list_all2_Cons1)

lemma map_res_eq_InrD: "map_res f xs = Inr ys \<Longrightarrow> length ys = length xs"
  by (auto simp: map_res_eq_Inr_iff dest: list_all2_lengthD)

section \<open>Keyed tables\<close>

text \<open>
  A relational table is the list of its rows in insertion order. \<open>INSERT OR IGNORE\<close> adds a row
  unless a row with the same primary key is present.
\<close>

definition insert_or_ignore :: "('r \<Rightarrow> 'k) \<Rightarrow> 'r \<Rightarrow> 'r list \<Rightarrow> 'r list" where
  "insert_or_ignore key r t = (if List.member (map key t) (key r) then t else t @ [r])"

lemma set_insert_or_ignore_subset: "set (insert_or_ignore key r t) \<subseteq> insert r (set t)"
  by (auto simp: insert_or_ignore_def)

lemma set_insert_or_ignore_mono: "set t \<subseteq> set (insert_or_ignore key r t)"
  by (auto simp: insert_or_ignore_def)

lemma keys_insert_or_ignore:
  "key ` set (insert_or_ignore key r t) = insert (key r) (key ` set t)"
  by (auto simp: insert_or_ignore_def)

lemma distinct_keys_insert_or_ignore:
  "distinct (map key t) \<Longrightarrow> distinct (map key (insert_or_ignore key r t))"
  by (simp add: insert_or_ignore_def)

lemma insert_or_ignore_present:
  "key r \<in> key ` set t \<Longrightarrow> insert_or_ignore key r t = t"
  by (simp add: insert_or_ignore_def)

lemma insert_or_ignore_fresh:
  "key r \<notin> key ` set t \<Longrightarrow> insert_or_ignore key r t = t @ [r]"
  by (simp add: insert_or_ignore_def)

lemma insert_or_ignore_id: "set (insert_or_ignore id r t) = insert r (set t)"
  by (auto simp: insert_or_ignore_def)

lemma distinct_insert_or_ignore_id: "distinct t \<Longrightarrow> distinct (insert_or_ignore id r t)"
  by (simp add: insert_or_ignore_def)

section \<open>Lists\<close>

lemma append_eq_append_lengthD:
  "xs @ ys = us @ vs \<Longrightarrow> length xs = length us \<Longrightarrow> xs = us \<and> ys = vs"
  by simp

lemma count_list_sort_key [simp]: "count_list (sort_key f xs) x = count_list xs x"
  by (metis count_mset mset_sort)

lemma count_list_map_filter:
  "count_list (map f (filter P xs)) y = length (filter (\<lambda>x. P x \<and> f x = y) xs)"
  by (induction xs) auto

lemma sorted_distinct_map_filter:
  "distinct (map f xs) \<Longrightarrow> distinct (sort (map f (filter P xs)))"
  by (simp add: distinct_map_filter)

lemma list_all2_eq_map: "list_all2 (\<lambda>x y. y = f x) xs ys \<longleftrightarrow> ys = map f xs"
  by (induction xs arbitrary: ys) (auto simp: list_all2_Cons1)

end
