(* ===== verification/World.thy ===== *)
theory World
  imports Prelude
begin

text \<open>
  The libraries the code calls and whose code is not in the repository: the BLAKE3 digest, the
  CBOR codec \<open>cbor2\<close> and the Ed25519 primitives of \<open>cryptography\<close>. They are parameters of the
  model, the fields of the record \<open>env\<close>. What the code relies on is stated as the named hypotheses
  \<open>blake3_spec\<close>, \<open>cbor_spec\<close> and \<open>ed25519_spec\<close>, each documented behaviour of the library.
\<close>

section \<open>Python values that are serialized\<close>

text \<open>
  A float is its IEEE bit pattern; a set is listed in its iteration order; a dict is its items in
  insertion order.
\<close>

datatype pyval =
    PNone
  | PBool bool
  | PInt int
  | PFloat "64 word"
  | PStr pystr
  | PBytes bytes
  | PList "pyval list"
  | PTuple "pyval list"
  | PSet "pyval list"
  | PDict "(pyval \<times> pyval) list"

text \<open>Structural equality of decoded values: dicts are equal whatever the order of their items.\<close>

lemma size_map_of_pair: "(k, v) \<in> set d \<Longrightarrow> size v < size_list (size_prod size size) d"
  by (induction d) auto

function py_eq :: "pyval \<Rightarrow> pyval \<Rightarrow> bool" where
  "py_eq (PList xs) w =
     (case w of PList ys \<Rightarrow> length xs = length ys \<and> (\<forall>(x, y) \<in> set (zip xs ys). py_eq x y)
      | _ \<Rightarrow> False)"
| "py_eq (PDict d) w =
     (case w of PDict d' \<Rightarrow>
        length d = length d' \<and> fst ` set d = fst ` set d' \<and>
        (\<forall>(k, v) \<in> set d. case map_of d' k of None \<Rightarrow> False | Some v' \<Rightarrow> py_eq v v')
      | _ \<Rightarrow> False)"
| "py_eq PNone w = (w = PNone)"
| "py_eq (PBool b) w = (w = PBool b)"
| "py_eq (PInt i) w = (w = PInt i)"
| "py_eq (PFloat f) w = (w = PFloat f)"
| "py_eq (PStr s) w = (w = PStr s)"
| "py_eq (PBytes b) w = (w = PBytes b)"
| "py_eq (PTuple xs) w = (w = PTuple xs)"
| "py_eq (PSet xs) w = (w = PSet xs)"
  by pat_completeness auto
termination
proof (relation "measure (\<lambda>(v, w). size v)", goal_cases)
  case 1
  show ?case by simp
next
  case (2 xs w ys p x y)
  then have "x \<in> set xs" by (auto dest: set_zip_leftD)
  then show ?case by (simp add: size_list_estimation' less_Suc_eq_le)
next
  case (3 d w d' p k v v')
  then have "(k, v) \<in> set d" by simp
  from size_map_of_pair [OF this] show ?case by simp
qed

text \<open>
  What \<open>_canonicalize\<close> produces and the codec is asked to encode: no tuple and no set, dict keys
  scalar and distinct.
\<close>

fun scalar :: "pyval \<Rightarrow> bool" where
  "scalar (PList _) = False"
| "scalar (PTuple _) = False"
| "scalar (PSet _) = False"
| "scalar (PDict _) = False"
| "scalar _ = True"

fun encodable :: "pyval \<Rightarrow> bool" where
  "encodable (PList xs) = list_all encodable xs"
| "encodable (PTuple _) = False"
| "encodable (PSet _) = False"
| "encodable (PDict d) =
     (distinct (map fst d) \<and> list_all (\<lambda>p. scalar (fst p) \<and> encodable (snd p)) d)"
| "encodable _ = True"

section \<open>The environment\<close>

record env =
  blake3 :: "bytes \<Rightarrow> bytes"
  cbor_dumps :: "pyval \<Rightarrow> bytes"
  cbor_loads :: "bytes \<Rightarrow> pyval res"
  ed_public :: "bytes \<Rightarrow> bytes"
  ed_sign :: "bytes \<Rightarrow> bytes \<Rightarrow> bytes"
  ed_verify :: "bytes \<Rightarrow> bytes \<Rightarrow> bytes \<Rightarrow> bool"

text \<open>BLAKE3's \<open>digest()\<close> returns 32 bytes.\<close>

definition blake3_spec :: "env \<Rightarrow> bool" where
  "blake3_spec E \<longleftrightarrow> (\<forall>d. length (blake3 E d) = 32)"

text \<open>Decoding an encoding gives a structurally equal value back.\<close>

definition cbor_spec :: "env \<Rightarrow> bool" where
  "cbor_spec E \<longleftrightarrow>
     (\<forall>v. encodable v \<longrightarrow> (\<exists>w. cbor_loads E (cbor_dumps E v) = Inr w \<and> py_eq v w))"

text \<open>A signature is 64 bytes, a public key 32, and a signature verifies under its own key.\<close>

definition ed25519_spec :: "env \<Rightarrow> bool" where
  "ed25519_spec E \<longleftrightarrow>
     (\<forall>priv msg. length priv = 32 \<longrightarrow>
        length (ed_public E priv) = 32 \<and> length (ed_sign E priv msg) = 64 \<and>
        ed_verify E (ed_public E priv) msg (ed_sign E priv msg))"

lemma blake3_length [simp]: "blake3_spec E \<Longrightarrow> length (blake3 E d) = 32"
  by (simp add: blake3_spec_def)

lemma cbor_specD:
  "cbor_spec E \<Longrightarrow> encodable v \<Longrightarrow> \<exists>w. cbor_loads E (cbor_dumps E v) = Inr w \<and> py_eq v w"
  by (simp add: cbor_spec_def)

lemma ed25519_specD:
  assumes "ed25519_spec E" and "length priv = 32"
  shows "length (ed_public E priv) = 32"
    and "length (ed_sign E priv msg) = 64"
    and "ed_verify E (ed_public E priv) msg (ed_sign E priv msg)"
  using assms by (simp_all add: ed25519_spec_def)

section \<open>Structural equality\<close>

lemma py_eq_scalar: "scalar v \<Longrightarrow> py_eq v w \<longleftrightarrow> w = v"
  by (cases v) auto

lemma py_eq_refl: "encodable v \<Longrightarrow> py_eq v v"
proof (induction v)
  case (PList xs)
  then show ?case by (auto simp: list_all_iff zip_same_conv_map)
next
  case (PDict d)
  then have d: "distinct (map fst d)"
    and enc: "\<And>k v. (k, v) \<in> set d \<Longrightarrow> encodable v"
    by (auto simp: list_all_iff)
  have "py_eq v v" if "(k, v) \<in> set d" for k v
    using PDict.IH [of "(k, v)" v] that enc by auto
  with d show ?case by auto
qed auto

lemma py_eq_dict_lookup:
  assumes "py_eq (PDict d) w" and "map_of d k = Some v"
  obtains d' v' where "w = PDict d'" and "map_of d' k = Some v'" and "py_eq v v'"
proof -
  from assms(2) have "(k, v) \<in> set d" by (rule map_of_SomeD)
  with assms(1) show ?thesis
    by (auto split: pyval.splits option.splits intro: that dest!: bspec)
qed

lemma py_eq_dict_keys:
  assumes "py_eq (PDict d) (PDict d')"
  shows "fst ` set d' = fst ` set d"
  using assms by simp

lemma py_eq_scalars:
  "list_all scalar xs \<Longrightarrow> py_eq (PList xs) w \<longleftrightarrow> w = PList xs"
proof
  assume xs: "list_all scalar xs" and eq: "py_eq (PList xs) w"
  then obtain ys where w: "w = PList ys" and len: "length xs = length ys"
    and all: "\<forall>(x, y) \<in> set (zip xs ys). py_eq x y"
    by (auto split: pyval.splits)
  have "xs ! i = ys ! i" if "i < length xs" for i
  proof -
    from that len have "(xs ! i, ys ! i) \<in> set (zip xs ys)" by (auto simp: in_set_zip)
    with all have "py_eq (xs ! i) (ys ! i)" by auto
    moreover from xs that have "scalar (xs ! i)" by (simp add: list_all_length)
    ultimately show ?thesis by (simp add: py_eq_scalar)
  qed
  with len w show "w = PList xs" by (simp add: list_eq_iff_nth_eq)
next
  assume "list_all scalar xs" and "w = PList xs"
  then show "py_eq (PList xs) w"
    by (auto simp: zip_same_conv_map list_all_iff py_eq_scalar)
qed

end
