(* ===== verification/Reference_World.thy ===== *)
theory Reference_World
  imports World
begin

text \<open>
  A concrete environment. It is used by the witnesses only: it shows that the hypotheses on the
  libraries can hold together, and makes the definitions evaluable on concrete inputs. The codec is
  a tagged, length-prefixed encoding of every Python value, proved to round-trip; the digest keeps
  32 bytes of its input and the signature scheme carries the key and the digest of the message.
\<close>

section \<open>Numbers and sequences\<close>

fun enc_nat :: "nat \<Rightarrow> bytes" where
  "enc_nat n = (if n < 128 then [of_nat n] else of_nat (128 + n mod 128) # enc_nat (n div 128))"

declare enc_nat.simps [simp del]

fun dec_nat :: "bytes \<Rightarrow> (nat \<times> bytes) option" where
  "dec_nat [] = None"
| "dec_nat (b # bs) =
     (if unat b < 128 then Some (unat b, bs)
      else case dec_nat bs of None \<Rightarrow> None
           | Some (n, r) \<Rightarrow> Some (unat b - 128 + 128 * n, r))"

lemma unat_byte: "n < 256 \<Longrightarrow> unat (of_nat n :: byte) = n"
  by (simp add: unat_of_nat)

lemma dec_enc_nat: "dec_nat (enc_nat n @ r) = Some (n, r)"
proof (induction n rule: enc_nat.induct)
  case (1 n)
  show ?case
  proof (cases "n < 128")
    case True
    then show ?thesis by (simp add: enc_nat.simps [of n] unat_byte)
  next
    case False
    have "128 + n mod 128 < 256" by simp
    then have "unat (of_nat (128 + n mod 128) :: byte) = 128 + n mod 128"
      by (rule unat_byte)
    with False 1 show ?thesis
      by (simp add: enc_nat.simps [of n] del: of_nat_add of_nat_numeral)
  qed
qed

lemma enc_nat_nonempty: "0 < length (enc_nat n)"
  by (subst enc_nat.simps) simp

definition enc_seq :: "('a \<Rightarrow> bytes) \<Rightarrow> 'a list \<Rightarrow> bytes" where
  "enc_seq f xs = enc_nat (length xs) @ concat (map f xs)"

fun dec_many :: "(bytes \<Rightarrow> ('a \<times> bytes) option) \<Rightarrow> nat \<Rightarrow> bytes \<Rightarrow> ('a list \<times> bytes) option" where
  "dec_many p 0 bs = Some ([], bs)"
| "dec_many p (Suc n) bs =
     (case p bs of None \<Rightarrow> None
      | Some (x, r) \<Rightarrow>
          (case dec_many p n r of None \<Rightarrow> None | Some (xs, r') \<Rightarrow> Some (x # xs, r')))"

definition dec_seq :: "(bytes \<Rightarrow> ('a \<times> bytes) option) \<Rightarrow> bytes \<Rightarrow> ('a list \<times> bytes) option" where
  "dec_seq p bs = (case dec_nat bs of None \<Rightarrow> None | Some (n, r) \<Rightarrow> dec_many p n r)"

lemma dec_many_concat:
  assumes "\<And>x r. x \<in> set xs \<Longrightarrow> p (f x @ r) = Some (x, r)"
  shows "dec_many p (length xs) (concat (map f xs) @ r) = Some (xs, r)"
  using assms by (induction xs) auto

lemma dec_enc_seq:
  assumes "\<And>x r. x \<in> set xs \<Longrightarrow> p (f x @ r) = Some (x, r)"
  shows "dec_seq p (enc_seq f xs @ r) = Some (xs, r)"
  using dec_many_concat [of xs p f r, OF assms] by (simp add: dec_seq_def enc_seq_def dec_enc_nat)

section \<open>The codec\<close>

definition dec_byte :: "bytes \<Rightarrow> (byte \<times> bytes) option" where
  "dec_byte bs = (case bs of [] \<Rightarrow> None | b # r \<Rightarrow> Some (b, r))"

definition int_code :: "int \<Rightarrow> nat" where
  "int_code i = (if i < 0 then 2 * nat (- i) + 1 else 2 * nat i)"

definition int_decode :: "nat \<Rightarrow> int" where
  "int_decode n = (if odd n then - int (n div 2) else int (n div 2))"

lemma int_decode_code [simp]: "int_decode (int_code i) = i"
  by (simp add: int_decode_def int_code_def)

fun enc :: "pyval \<Rightarrow> bytes" where
  "enc PNone = [0]"
| "enc (PBool b) = [1, of_bool b]"
| "enc (PInt i) = 2 # enc_nat (int_code i)"
| "enc (PFloat w) = 3 # enc_nat (unat w)"
| "enc (PStr s) = 4 # enc_seq enc_nat s"
| "enc (PBytes b) = 5 # enc_seq (\<lambda>x. [x]) b"
| "enc (PList xs) = 6 # enc_nat (length xs) @ concat (map enc xs)"
| "enc (PTuple xs) = 7 # enc_nat (length xs) @ concat (map enc xs)"
| "enc (PSet xs) = 8 # enc_nat (length xs) @ concat (map enc xs)"
| "enc (PDict d) = 9 # enc_nat (length d) @ concat (map (\<lambda>(k, v). enc k @ enc v) d)"

definition dec_pair :: "(bytes \<Rightarrow> ('a \<times> bytes) option) \<Rightarrow> bytes \<Rightarrow> (('a \<times> 'a) \<times> bytes) option" where
  "dec_pair p bs =
     (case p bs of None \<Rightarrow> None
      | Some (k, r) \<Rightarrow> (case p r of None \<Rightarrow> None | Some (v, r') \<Rightarrow> Some ((k, v), r')))"

definition wrap :: "('a \<Rightarrow> 'b) \<Rightarrow> ('a \<times> bytes) option \<Rightarrow> ('b \<times> bytes) option" where
  "wrap c = map_option (\<lambda>(x, r). (c x, r))"

fun dec :: "nat \<Rightarrow> bytes \<Rightarrow> (pyval \<times> bytes) option" where
  "dec 0 bs = None"
| "dec (Suc f) [] = None"
| "dec (Suc f) (t # bs) =
     (if t = 0 then Some (PNone, bs)
      else if t = 1 then wrap (\<lambda>b. PBool (b = 1)) (dec_byte bs)
      else if t = 2 then wrap (\<lambda>n. PInt (int_decode n)) (dec_nat bs)
      else if t = 3 then wrap (\<lambda>n. PFloat (of_nat n)) (dec_nat bs)
      else if t = 4 then wrap PStr (dec_seq dec_nat bs)
      else if t = 5 then wrap PBytes (dec_seq dec_byte bs)
      else if t = 6 then wrap PList (dec_seq (dec f) bs)
      else if t = 7 then wrap PTuple (dec_seq (dec f) bs)
      else if t = 8 then wrap PSet (dec_seq (dec f) bs)
      else if t = 9 then wrap PDict (dec_seq (dec_pair (dec f)) bs)
      else None)"

lemma length_le_concat: "x \<in> set xs \<Longrightarrow> length (f x) \<le> length (concat (map f xs))"
  by (induction xs) auto

lemma enc_nonempty: "0 < length (enc v)"
  by (cases v) auto

lemmas enc_seq_unfold = enc_seq_def [symmetric]

lemma dec_enc: "length (enc v) \<le> f \<Longrightarrow> dec f (enc v @ r) = Some (v, r)"
proof (induction v arbitrary: f r)
  case PNone
  then show ?case by (cases f) auto
next
  case (PBool b)
  then show ?case by (cases f) (auto simp: wrap_def dec_byte_def)
next
  case (PInt i)
  then show ?case by (cases f) (auto simp: wrap_def dec_enc_nat)
next
  case (PFloat w)
  then show ?case by (cases f) (auto simp: wrap_def dec_enc_nat)
next
  case (PStr s)
  then show ?case by (cases f) (auto simp: wrap_def dec_enc_nat dec_enc_seq)
next
  case (PBytes b)
  then show ?case by (cases f) (auto simp: wrap_def dec_byte_def dec_enc_seq)
next
  case (PList xs)
  then obtain g where f: "f = Suc g" by (cases f) auto
  have "dec_seq (dec g) (enc_seq enc xs @ r) = Some (xs, r)"
    using PList f length_le_concat [of _ xs enc] by (intro dec_enc_seq) force
  then show ?case by (simp add: f wrap_def enc_seq_def)
next
  case (PTuple xs)
  then obtain g where f: "f = Suc g" by (cases f) auto
  have "dec_seq (dec g) (enc_seq enc xs @ r) = Some (xs, r)"
    using PTuple f length_le_concat [of _ xs enc] by (intro dec_enc_seq) force
  then show ?case by (simp add: f wrap_def enc_seq_def)
next
  case (PSet xs)
  then obtain g where f: "f = Suc g" by (cases f) auto
  have "dec_seq (dec g) (enc_seq enc xs @ r) = Some (xs, r)"
    using PSet f length_le_concat [of _ xs enc] by (intro dec_enc_seq) force
  then show ?case by (simp add: f wrap_def enc_seq_def)
next
  case (PDict d)
  then obtain g where f: "f = Suc g" by (cases f) auto
  have "dec_pair (dec g) ((\<lambda>(k, v). enc k @ enc v) p @ r) = Some (p, r)" if "p \<in> set d" for p r
  proof (cases p)
    case (Pair k v)
    with that length_le_concat [of p d "\<lambda>(k, v). enc k @ enc v"] PDict.prems f
    have "length (enc k) \<le> g" and "length (enc v) \<le> g" by auto
    with PDict.IH(1) [OF that] PDict.IH(2) [OF that] Pair
    show ?thesis by (simp add: dec_pair_def)
  qed
  from dec_enc_seq [of d, OF this]
  have "dec_seq (dec_pair (dec g)) (enc_seq (\<lambda>(k, v). enc k @ enc v) d @ r) = Some (d, r)" .
  then show ?case by (simp add: f wrap_def enc_seq_def)
qed

definition ref_loads :: "bytes \<Rightarrow> pyval res" where
  "ref_loads bs =
     (case dec (length bs) bs of Some (v, []) \<Rightarrow> Inr v | _ \<Rightarrow> Inl ValueError)"

lemma ref_loads_enc [simp]: "ref_loads (enc v) = Inr v"
  using dec_enc [of v "length (enc v)" "[]"] by (simp add: ref_loads_def)

section \<open>Digest and signatures\<close>

text \<open>Short inputs are padded; of a long one two windows of sixteen bytes are kept.\<close>

definition ref_digest :: "bytes \<Rightarrow> bytes" where
  "ref_digest d =
     (if length d \<le> 32 then d @ replicate (32 - length d) 0
      else take 16 (drop 3 d) @ take 16 (drop 37 d @ replicate 16 0))"

lemma length_ref_digest [simp]: "length (ref_digest d) = 32"
  by (auto simp: ref_digest_def min_def)

definition ref_env :: env where
  "ref_env =
     \<lparr> blake3 = ref_digest, cbor_dumps = enc, cbor_loads = ref_loads,
       ed_public = (\<lambda>priv. priv),
       ed_sign = (\<lambda>priv msg. priv @ ref_digest msg),
       ed_verify = (\<lambda>pub msg sig. sig = pub @ ref_digest msg) \<rparr>"

lemma ref_env_blake3: "blake3_spec ref_env"
  by (simp add: blake3_spec_def ref_env_def)

lemma ref_env_cbor: "cbor_spec ref_env"
  by (simp add: cbor_spec_def ref_env_def py_eq_refl)

lemma ref_env_ed25519: "ed25519_spec ref_env"
  by (simp add: ed25519_spec_def ref_env_def)

lemmas ref_env_ok = ref_env_blake3 ref_env_cbor ref_env_ed25519

lemma ref_env_simps [simp]:
  "blake3 ref_env = ref_digest" "cbor_dumps ref_env = enc" "cbor_loads ref_env = ref_loads"
  "ed_public ref_env priv = priv" "ed_sign ref_env priv msg = priv @ ref_digest msg"
  "ed_verify ref_env pub msg sig = (sig = pub @ ref_digest msg)"
  by (simp_all add: ref_env_def)

end
