(* ===== verification/Hashing.thy ===== *)
theory Hashing
  imports Reference_World
begin

text \<open>
  \<^verbatim>\<open>storage/hashing.py\<close>: the 34-byte BLAKE3 multihash, its constructor check, its hexadecimal text
  form, and the predicate that recognises a well-formed multihash.
\<close>

section \<open>Definitions\<close>

type_synonym hash = bytes

definition BLAKE3_CODE :: byte where "BLAKE3_CODE = 0x1E"
definition BLAKE3_LEN :: byte where "BLAKE3_LEN = 0x20"
definition HASH_SIZE :: nat where "HASH_SIZE = 34"

text \<open>The constructor \<open>Hash.__new__\<close>: a bytes object of any other length is refused.\<close>

definition Hash :: "bytes \<Rightarrow> hash res" where
  "Hash raw = (if length raw \<noteq> HASH_SIZE then Inl ValueError else Inr raw)"

text \<open>
  The digest behind the two prefix bytes. The source passes it through the constructor, whose check
  succeeds for a 32-byte digest (lemma \<open>Hash_hash_bytes\<close>).
\<close>

definition hash_bytes :: "env \<Rightarrow> bytes \<Rightarrow> hash" where
  "hash_bytes E data = [BLAKE3_CODE, BLAKE3_LEN] @ blake3 E data"

definition hex_digit :: "nat \<Rightarrow> nat" where
  "hex_digit n = (if n < 10 then 48 + n else 87 + n)"

definition hex_byte :: "byte \<Rightarrow> pystr" where
  "hex_byte b = [hex_digit (unat b div 16), hex_digit (unat b mod 16)]"

definition hex :: "bytes \<Rightarrow> pystr" where
  "hex bs = concat (map hex_byte bs)"

definition hash_hex :: "env \<Rightarrow> bytes \<Rightarrow> pystr" where
  "hash_hex E data = hex (hash_bytes E data)"

text \<open>Python's \<open>bytes.fromhex\<close>: pairs of hexadecimal digits, ASCII white space between the pairs.\<close>

definition ascii_space :: "nat \<Rightarrow> bool" where
  "ascii_space c \<longleftrightarrow> c = 32 \<or> (9 \<le> c \<and> c \<le> 13)"

definition hex_val :: "nat \<Rightarrow> nat option" where
  "hex_val c =
     (if 48 \<le> c \<and> c \<le> 57 then Some (c - 48)
      else if 97 \<le> c \<and> c \<le> 102 then Some (c - 87)
      else if 65 \<le> c \<and> c \<le> 70 then Some (c - 55)
      else None)"

fun fromhex :: "pystr \<Rightarrow> bytes res" where
  "fromhex [] = Inr []"
| "fromhex [c] = (if ascii_space c then Inr [] else Inl ValueError)"
| "fromhex (c # d # cs) =
     (if ascii_space c then fromhex (d # cs)
      else case (hex_val c, hex_val d) of
             (Some x, Some y) \<Rightarrow> and_then (fromhex cs) (\<lambda>r. Inr (of_nat (16 * x + y) # r))
           | _ \<Rightarrow> Inl ValueError)"

definition from_hex :: "pystr \<Rightarrow> hash res" where
  "from_hex hexstr = and_then (fromhex hexstr) Hash"

definition is_valid_hash :: "bytes \<Rightarrow> bool" where
  "is_valid_hash h \<longleftrightarrow> length h = HASH_SIZE \<and> h ! 0 = BLAKE3_CODE \<and> h ! 1 = BLAKE3_LEN"

section \<open>Well-formed hashes\<close>

named_theorems hash_simps \<open>lengths and shapes of multihashes\<close>

lemma length_hash_bytes [hash_simps]: "blake3_spec E \<Longrightarrow> length (hash_bytes E d) = 34"
  by (simp add: hash_bytes_def)

lemma Hash_hash_bytes: "blake3_spec E \<Longrightarrow> Hash (hash_bytes E d) = Inr (hash_bytes E d)"
  by (simp add: Hash_def HASH_SIZE_def length_hash_bytes)

lemma Hash_eq_Inr: "Hash raw = Inr h \<longleftrightarrow> h = raw \<and> length raw = 34"
  by (auto simp: Hash_def HASH_SIZE_def)

lemma is_valid_hash_bytes: "blake3_spec E \<Longrightarrow> is_valid_hash (hash_bytes E d)"
  by (simp add: is_valid_hash_def HASH_SIZE_def hash_bytes_def)

section \<open>Hexadecimal text\<close>

lemma hex_Nil [simp]: "hex [] = []"
  by (simp add: hex_def)

lemma hex_Cons [simp]: "hex (b # bs) = hex_byte b @ hex bs"
  by (simp add: hex_def)

lemma length_hex: "length (hex bs) = 2 * length bs"
  by (induction bs) (simp_all add: hex_byte_def)

lemma hex_digit_not_space: "n < 16 \<Longrightarrow> \<not> ascii_space (hex_digit n)"
  by (auto simp: hex_digit_def ascii_space_def)

lemma hex_val_digit: "n < 16 \<Longrightarrow> hex_val (hex_digit n) = Some n"
  by (auto simp: hex_val_def hex_digit_def)

lemma byte_parts: "unat (b :: byte) div 16 < 16" "unat b mod 16 < 16"
proof -
  have "unat b < 2 ^ 8" using unsigned_less [of b, where ?'a = nat] by simp
  then show "unat b div 16 < 16" by auto
qed simp

lemma byte_of_parts: "of_nat (16 * (unat (b :: byte) div 16) + unat b mod 16) = b"
  by (simp only: mult_div_mod_eq) simp

lemma fromhex_hex: "fromhex (hex bs) = Inr bs"
proof (induction bs)
  case Nil
  then show ?case by simp
next
  case (Cons b bs)
  then show ?case
    using byte_parts [of b] byte_of_parts [of b]
    by (simp add: hex_byte_def hex_digit_not_space hex_val_digit)
qed

lemma hex_inject: "hex xs = hex ys \<longleftrightarrow> xs = ys"
  by (metis fromhex_hex sum.inject(2))

lemma from_hex_hex: "from_hex (hex h) = Hash h"
  by (simp add: from_hex_def fromhex_hex)

section \<open>Collision freedom\<close>

text \<open>
  Collision resistance is used on the finitely many inputs a statement is about, never as injectivity
  of the whole digest, which no 32-byte digest can have.
\<close>

definition collision_free :: "env \<Rightarrow> bytes set \<Rightarrow> bool" where
  "collision_free E A \<longleftrightarrow> inj_on (hash_bytes E) A"

lemma collision_freeD:
  "collision_free E A \<Longrightarrow> hash_bytes E x = hash_bytes E y \<Longrightarrow> x \<in> A \<Longrightarrow> y \<in> A \<Longrightarrow> x = y"
  by (simp add: collision_free_def inj_on_eq_iff)

lemma collision_free_listI:
  "distinct (map (hash_bytes E) (remdups xs)) \<Longrightarrow> collision_free E (set xs)"
  by (simp add: collision_free_def distinct_map)

lemma collision_free_subset: "collision_free E B \<Longrightarrow> A \<subseteq> B \<Longrightarrow> collision_free E A"
  by (auto simp: collision_free_def intro: inj_on_subset)

end
