(* ===== verification/Keys.thy ===== *)
theory Keys
  imports Hashing
begin

text \<open>
  \<^verbatim>\<open>storage/keys.py\<close>: Ed25519 key generation, signing and verification with the size checks the
  module makes around the primitives of the \<open>cryptography\<close> package.
\<close>

section \<open>Definitions\<close>

definition PUBLIC_KEY_SIZE :: nat where "PUBLIC_KEY_SIZE = 32"
definition PRIVATE_KEY_SIZE :: nat where "PRIVATE_KEY_SIZE = 32"
definition SIGNATURE_SIZE :: nat where "SIGNATURE_SIZE = 64"

text \<open>The random seed the generator draws is an argument: it is the raw private key.\<close>

definition generate_keypair :: "env \<Rightarrow> bytes \<Rightarrow> bytes \<times> bytes" where
  "generate_keypair E seed = (seed, ed_public E seed)"

definition sign :: "env \<Rightarrow> bytes \<Rightarrow> bytes \<Rightarrow> bytes res" where
  "sign E priv message =
     (if length priv \<noteq> PRIVATE_KEY_SIZE then Inl ValueError else Inr (ed_sign E priv message))"

definition verify_sig :: "env \<Rightarrow> bytes \<Rightarrow> bytes \<Rightarrow> bytes \<Rightarrow> bool res" where
  "verify_sig E pub message sig =
     (if length pub \<noteq> PUBLIC_KEY_SIZE then Inl ValueError
      else if length sig \<noteq> SIGNATURE_SIZE then Inl ValueError
      else Inr (ed_verify E pub message sig))"

lemmas key_sizes = PUBLIC_KEY_SIZE_def PRIVATE_KEY_SIZE_def SIGNATURE_SIZE_def

section \<open>Signing and verifying\<close>

lemma sign_ok_iff: "sign E priv m = Inr s \<longleftrightarrow> length priv = 32 \<and> s = ed_sign E priv m"
  by (auto simp: sign_def key_sizes)

lemma verify_sig_True_iff:
  "verify_sig E pub m s = Inr True \<longleftrightarrow> length pub = 32 \<and> length s = 64 \<and> ed_verify E pub m s"
  by (auto simp: verify_sig_def key_sizes)

lemma verify_sig_raises_iff:
  "verify_sig E pub m s = Inl e \<longleftrightarrow> e = ValueError \<and> (length pub \<noteq> 32 \<or> length s \<noteq> 64)"
  by (auto simp: verify_sig_def key_sizes)

lemma verify_sign:
  assumes "ed25519_spec E" and "length seed = 32" and "generate_keypair E seed = (priv, pub)"
    and "sign E priv m = Inr s"
  shows "verify_sig E pub m s = Inr True"
  using assms ed25519_specD [OF assms(1,2)]
  by (auto simp: generate_keypair_def sign_ok_iff verify_sig_True_iff)

end
