(* ===== verification/Merkle.thy ===== *)
theory Merkle
  imports Keys
begin

text \<open>
  \<^verbatim>\<open>storage/merkle.py\<close>: the domain-separated Merkle tree over the entry hashes of the log, its
  inclusion proofs and their verification. The level-by-level loops of the source are the recursive
  functions \<open>root_of_level\<close> and \<open>proof_path\<close> over \<open>next_level\<close>, the pairing of one level.
\<close>

section \<open>Definitions\<close>

record inclusion =
  ip_leaf_hash :: hash
  ip_index :: int
  ip_path :: "hash list"

definition leaf_node :: "env \<Rightarrow> hash \<Rightarrow> hash" where
  "leaf_node E leaf = hash_bytes E (0x00 # leaf)"

definition internal_node :: "env \<Rightarrow> hash \<Rightarrow> hash \<Rightarrow> hash" where
  "internal_node E left right = hash_bytes E (0x01 # left @ right)"

definition empty_root :: "env \<Rightarrow> hash" where
  "empty_root E = hash_bytes E [0x02]"

text \<open>One iteration of the \<open>while len(level) > 1\<close> loop: pair the nodes, the odd last one with itself.\<close>

fun next_level :: "env \<Rightarrow> hash list \<Rightarrow> hash list" where
  "next_level E [] = []"
| "next_level E [left] = [internal_node E left left]"
| "next_level E (left # right # rest) = internal_node E left right # next_level E rest"

lemma length_next_level: "length (next_level E level) = (length level + 1) div 2"
  by (induction E level rule: next_level.induct) auto

function root_of_level :: "env \<Rightarrow> hash list \<Rightarrow> hash" where
  "root_of_level E level =
     (if 1 < length level then root_of_level E (next_level E level) else level ! 0)"
  by pat_completeness auto
termination
  by (relation "measure (\<lambda>(E, level). length level)") (auto simp: length_next_level)

definition root_hash :: "env \<Rightarrow> hash list \<Rightarrow> hash" where
  "root_hash E leaf_hashes =
     (if leaf_hashes = [] then empty_root E
      else root_of_level E (map (leaf_node E) leaf_hashes))"

definition sibling_idx :: "hash list \<Rightarrow> nat \<Rightarrow> nat" where
  "sibling_idx level idx =
     (if idx mod 2 = 0 then (if length level \<le> idx + 1 then idx else idx + 1) else idx - 1)"

function proof_path :: "env \<Rightarrow> hash list \<Rightarrow> nat \<Rightarrow> hash list" where
  "proof_path E level idx =
     (if 1 < length level
      then level ! sibling_idx level idx # proof_path E (next_level E level) (idx div 2)
      else [])"
  by pat_completeness auto
termination
  by (relation "measure (\<lambda>(E, level, idx). length level)") (auto simp: length_next_level)

definition inclusion_proof :: "env \<Rightarrow> hash list \<Rightarrow> int \<Rightarrow> inclusion res" where
  "inclusion_proof E leaf_hashes index =
     (if leaf_hashes = [] then Inl IndexError
      else if index < 0 \<or> int (length leaf_hashes) \<le> index then Inl IndexError
      else Inr \<lparr> ip_leaf_hash = leaf_hashes ! nat index, ip_index = index,
                 ip_path = proof_path E (map (leaf_node E) leaf_hashes) (nat index) \<rparr>)"

fun climb :: "env \<Rightarrow> hash \<Rightarrow> int \<Rightarrow> hash list \<Rightarrow> hash" where
  "climb E current idx [] = current"
| "climb E current idx (sibling # path) =
     climb E (if idx mod 2 = 0 then internal_node E current sibling
              else internal_node E sibling current) (idx div 2) path"

definition verify_inclusion :: "env \<Rightarrow> inclusion \<Rightarrow> hash \<Rightarrow> bool" where
  "verify_inclusion E p expected \<longleftrightarrow>
     climb E (leaf_node E (ip_leaf_hash p)) (ip_index p) (ip_path p) = expected"

declare root_of_level.simps [simp del] proof_path.simps [simp del]

lemma root_of_level_step:
  "1 < length level \<Longrightarrow> root_of_level E level = root_of_level E (next_level E level)"
  by (simp add: root_of_level.simps)

lemma root_of_level_single: "length level \<le> 1 \<Longrightarrow> root_of_level E level = level ! 0"
  by (simp add: root_of_level.simps)

section \<open>Completeness of inclusion proofs\<close>

lemma nth_next_level:
  "i < length (next_level E level) \<Longrightarrow>
   next_level E level ! i =
     internal_node E (level ! (2 * i))
       (if 2 * i + 1 < length level then level ! (2 * i + 1) else level ! (2 * i))"
proof (induction E level arbitrary: i rule: next_level.induct)
  case (3 E left right rest)
  then show ?case by (cases i) auto
qed auto

lemma climb_proof_path:
  "idx < length level \<Longrightarrow>
   climb E (level ! idx) (int idx) (proof_path E level idx) = root_of_level E level"
proof (induction E level arbitrary: idx rule: root_of_level.induct)
  case (1 E level)
  show ?case
  proof (cases "1 < length level")
    case False
    with "1.prems" have "idx = 0" by simp
    with False show ?thesis by (simp add: proof_path.simps root_of_level_single)
  next
    case True
    define up where "up = next_level E level"
    have len: "idx div 2 < length up"
      using "1.prems" by (auto simp: up_def length_next_level)
    have node: "(if int idx mod 2 = 0 then internal_node E (level ! idx) (level ! sibling_idx level idx)
                 else internal_node E (level ! sibling_idx level idx) (level ! idx)) = up ! (idx div 2)"
    proof (cases "even idx")
      case True
      then obtain b where b: "idx = 2 * b" by (elim evenE)
      from "1.prems" nth_next_level [OF len [unfolded up_def]] show ?thesis
        by (auto simp: b up_def sibling_idx_def)
    next
      case False
      then obtain b where b: "idx = 2 * b + 1" by (elim oddE)
      from "1.prems" nth_next_level [OF len [unfolded up_def]] show ?thesis
        by (auto simp: b up_def sibling_idx_def)
    qed
    from "1.IH" [OF True, folded up_def, OF len] show ?thesis
      using node True
      by (simp add: proof_path.simps [of E level] root_of_level_step up_def [symmetric] of_nat_div)
  qed
qed

lemma length_proof_path:
  "idx < length level \<Longrightarrow> length level \<le> 2 ^ k \<Longrightarrow> length (proof_path E level idx) \<le> k"
proof (induction k arbitrary: level idx)
  case 0
  then show ?case by (simp add: proof_path.simps)
next
  case (Suc k)
  have "length (next_level E level) \<le> 2 ^ k" and "idx div 2 < length (next_level E level)"
    using Suc.prems by (auto simp: length_next_level)
  from Suc.IH [OF this(2,1)] show ?case by (simp add: proof_path.simps [of E level])
qed

lemma inclusion_proof_correct:
  assumes "0 \<le> index" and "index < int (length xs)"
  shows "\<exists>p. inclusion_proof E xs index = Inr p \<and> ip_leaf_hash p = xs ! nat index \<and>
             verify_inclusion E p (root_hash E xs)"
proof -
  have i: "nat index < length (map (leaf_node E) xs)" and ne: "xs \<noteq> []"
    using assms by auto
  from climb_proof_path [OF i, of E] assms ne show ?thesis
    by (auto simp: inclusion_proof_def verify_inclusion_def root_hash_def)
qed

text \<open>C39: every inclusion proof built for an index of the log verifies against the root of the log,
  and its path has at most \<open>k\<close> siblings when the log has at most \<open>2^k\<close> entries.\<close>

theorem inclusion_proof_verifies:
  assumes "0 \<le> index" and "index < int (length xs)" and "length xs \<le> 2 ^ k"
  shows "\<exists>p. inclusion_proof E xs index = Inr p \<and> ip_leaf_hash p = xs ! nat index \<and>
             verify_inclusion E p (root_hash E xs) \<and> length (ip_path p) \<le> k"
proof -
  have i: "nat index < length (map (leaf_node E) xs)" using assms by auto
  from inclusion_proof_correct [OF assms(1,2), of E] length_proof_path [OF i, of k E] assms
  show ?thesis by (auto simp: inclusion_proof_def split: if_splits)
qed

theorem inclusion_proof_verifies_witness:
  "\<exists>p. inclusion_proof ref_env [[1], [2], [3]] 2 = Inr p \<and> ip_leaf_hash p = [3] \<and>
       verify_inclusion ref_env p (root_hash ref_env [[1], [2], [3]]) \<and> length (ip_path p) \<le> 2"
  using inclusion_proof_verifies [of 2 "[[1], [2], [3]]" 2 ref_env] by simp

lemma inclusion_proof_error:
  "inclusion_proof E xs index = Inl e \<longleftrightarrow>
     e = IndexError \<and> \<not> (0 \<le> index \<and> index < int (length xs))"
  by (auto simp: inclusion_proof_def)

section \<open>What is hashed\<close>

text \<open>The byte strings fed to the digest while a tree is built and while a proof is checked.\<close>

fun pair_inputs :: "hash list \<Rightarrow> bytes list" where
  "pair_inputs [] = []"
| "pair_inputs [left] = [0x01 # left @ left]"
| "pair_inputs (left # right # rest) = (0x01 # left @ right) # pair_inputs rest"

lemma next_level_eq: "next_level E level = map (hash_bytes E) (pair_inputs level)"
  by (induction E level rule: next_level.induct) (auto simp: internal_node_def)

lemma next_level_length34: "blake3_spec E \<Longrightarrow> h \<in> set (next_level E level) \<Longrightarrow> length h = 34"
  by (auto simp: next_level_eq length_hash_bytes)

lemma pair_inputsD:
  "q \<in> set (pair_inputs level) \<Longrightarrow>
   \<exists>l r. q = 0x01 # l @ r \<and> l \<in> set level \<and> r \<in> set level"
  by (induction level rule: pair_inputs.induct) auto

function inner_inputs :: "env \<Rightarrow> hash list \<Rightarrow> bytes list" where
  "inner_inputs E level =
     (if 1 < length level then pair_inputs level @ inner_inputs E (next_level E level) else [])"
  by pat_completeness auto
termination
  by (relation "measure (\<lambda>(E, level). length level)") (auto simp: length_next_level)

declare inner_inputs.simps [simp del]

definition tree_inputs :: "env \<Rightarrow> hash list \<Rightarrow> bytes set" where
  "tree_inputs E xs = (\<lambda>x. 0x00 # x) ` set xs \<union> set (inner_inputs E (map (leaf_node E) xs))"

fun climb_inputs :: "env \<Rightarrow> hash \<Rightarrow> int \<Rightarrow> hash list \<Rightarrow> bytes list" where
  "climb_inputs E current idx [] = []"
| "climb_inputs E current idx (sibling # path) =
     (if idx mod 2 = 0 then 0x01 # current @ sibling else 0x01 # sibling @ current) #
     climb_inputs E (if idx mod 2 = 0 then internal_node E current sibling
                     else internal_node E sibling current) (idx div 2) path"

definition proof_inputs :: "env \<Rightarrow> inclusion \<Rightarrow> bytes set" where
  "proof_inputs E p =
     insert (0x00 # ip_leaf_hash p)
       (set (climb_inputs E (leaf_node E (ip_leaf_hash p)) (ip_index p) (ip_path p)))"

section \<open>Levels of a tree\<close>

fun tree_height :: "nat \<Rightarrow> nat" where
  "tree_height n = (if n \<le> 1 then 0 else Suc (tree_height ((n + 1) div 2)))"

declare tree_height.simps [simp del]

definition level_at :: "env \<Rightarrow> hash list \<Rightarrow> nat \<Rightarrow> hash list" where
  "level_at E level j = (next_level E ^^ j) level"

lemma level_at_0 [simp]: "level_at E level 0 = level"
  by (simp add: level_at_def)

lemma level_at_Suc: "level_at E level (Suc j) = next_level E (level_at E level j)"
  by (simp add: level_at_def)

lemma level_at_Suc2: "level_at E level (Suc j) = level_at E (next_level E level) j"
  by (simp add: level_at_def funpow_swap1)

lemma root_in_top_level:
  "level \<noteq> [] \<Longrightarrow> root_of_level E level \<in> set (level_at E level (tree_height (length level)))"
proof (induction E level rule: root_of_level.induct)
  case (1 E level)
  show ?case
  proof (cases "1 < length level")
    case True
    with length_next_level [of E level] have "next_level E level \<noteq> []" by force
    with True "1.IH" show ?thesis
      by (simp add: root_of_level_step tree_height.simps [of "length level"] level_at_Suc2
          length_next_level)
  next
    case False
    with "1.prems" show ?thesis by (simp add: root_of_level_single tree_height.simps)
  qed
qed

lemma inner_inputs_level:
  "j < tree_height (length level) \<Longrightarrow>
   set (pair_inputs (level_at E level j)) \<subseteq> set (inner_inputs E level)"
proof (induction j arbitrary: level)
  case 0
  then have "1 < length level" by (simp add: tree_height.simps [of "length level"] split: if_splits)
  then show ?case by (simp add: inner_inputs.simps [of E level])
next
  case (Suc j)
  then have len: "1 < length level" and "j < tree_height (length (next_level E level))"
    by (simp_all add: tree_height.simps [of "length level"] length_next_level split: if_splits)
  from Suc.IH [OF this(2)] len show ?case
    by (auto simp: level_at_Suc2 inner_inputs.simps [of E level])
qed

lemma level_at_length34:
  assumes "blake3_spec E" and "\<forall>h \<in> set level. length h = 34" and "h \<in> set (level_at E level j)"
  shows "length h = 34"
  using assms by (cases j) (auto simp: level_at_Suc next_level_eq length_hash_bytes)

section \<open>Soundness of inclusion proofs\<close>

lemma climb_snoc:
  "climb E c idx (path @ [s]) =
     (if idx div 2 ^ length path mod 2 = 0 then internal_node E (climb E c idx path) s
      else internal_node E s (climb E c idx path))"
  by (induction path arbitrary: c idx)
    (simp_all add: zdiv_zmult2_eq [symmetric] mult.commute)

lemma climb_inputs_append:
  "climb_inputs E c idx (p @ q) =
     climb_inputs E c idx p @ climb_inputs E (climb E c idx p) (idx div 2 ^ length p) q"
  by (induction p arbitrary: c idx) (simp_all add: zdiv_zmult2_eq [symmetric] mult.commute)

text \<open>Each step up the path hashes one of the recorded inputs, made of the value below and a sibling.\<close>

lemma climb_step_input:
  fixes E :: env and c :: hash and idx :: int
  assumes k: "k < length path"
  defines "v \<equiv> climb E c idx (take k path)"
  obtains q where "q \<in> set (climb_inputs E c idx path)"
    and "climb E c idx (take (Suc k) path) = hash_bytes E q"
    and "q = 0x01 # v @ path ! k \<or> q = 0x01 # path ! k @ v"
proof -
  define q where "q = (if idx div 2 ^ k mod 2 = 0 then 0x01 # v @ path ! k else 0x01 # path ! k @ v)"
  have len: "length (take k path) = k" using k by simp
  have "climb E c idx (take (Suc k) path) = hash_bytes E q"
    using k by (simp add: take_Suc_conv_app_nth climb_snoc internal_node_def q_def v_def len
        del: length_take)
  moreover have "q \<in> set (climb_inputs E c idx path)"
    using climb_inputs_append [of E c idx "take k path" "path ! k # drop (Suc k) path"]
      id_take_nth_drop [OF k] len by (simp add: q_def v_def del: length_take)
  ultimately show ?thesis using that by (simp add: q_def split: if_splits)
qed

lemma climb_length34:
  "blake3_spec E \<Longrightarrow> length c = 34 \<Longrightarrow> length (climb E c idx path) = 34"
  by (induction path arbitrary: c idx) (auto simp: internal_node_def length_hash_bytes)

lemma internal_in_next_level:
  assumes cf: "collision_free E I" and sub: "set (pair_inputs level) \<subseteq> I"
    and len: "\<forall>h \<in> set level. length h = 34"
    and mem: "hash_bytes E (0x01 # a @ b) \<in> set (next_level E level)"
    and inp: "0x01 # a @ b \<in> I" and ab: "length a = 34 \<or> length b = 34"
  shows "a \<in> set level \<and> b \<in> set level"
proof -
  from mem obtain q where q: "q \<in> set (pair_inputs level)"
    and eq: "hash_bytes E (0x01 # a @ b) = hash_bytes E q"
    by (auto simp: next_level_eq)
  from q obtain l r where lr: "q = 0x01 # l @ r" "l \<in> set level" "r \<in> set level"
    using pair_inputsD by blast
  from collision_freeD [OF cf eq inp] q sub lr have "a @ b = l @ r" by auto
  moreover from lr len have "length l = 34" "length r = 34" by auto
  ultimately have "a = l \<and> b = r" using ab by (auto simp: append_eq_append_conv)
  with lr show ?thesis by simp
qed

lemma climb_descends:
  assumes E: "blake3_spec E" and cf: "collision_free E I"
    and tree: "set (inner_inputs E level) \<subseteq> I" and path: "set (climb_inputs E c idx path) \<subseteq> I"
    and len: "\<forall>h \<in> set level. length h = 34" and c: "length c = 34"
    and top: "climb E c idx path = root_of_level E level" and ne: "level \<noteq> []"
    and t: "t \<le> tree_height (length level)" "t \<le> length path"
  shows "climb E c idx (take (length path - t) path) \<in>
           set (level_at E level (tree_height (length level) - t))"
  using t
proof (induction t)
  case 0
  from root_in_top_level [OF ne] top show ?case by simp
next
  case (Suc t)
  define H m where "H = tree_height (length level)" and "m = length path - Suc t"
  from Suc.prems have m: "length path - t = Suc m" "m < length path" by (auto simp: m_def)
  define lv v where "lv = level_at E level (H - Suc t)" and "v = climb E c idx (take m path)"
  from Suc.prems have "Suc (H - Suc t) = H - t" by (auto simp: H_def)
  then have up: "level_at E level (H - t) = next_level E lv"
    by (metis level_at_Suc lv_def)
  obtain q where q_in: "q \<in> set (climb_inputs E c idx path)"
    and val: "climb E c idx (take (Suc m) path) = hash_bytes E q"
    and q: "q = 0x01 # v @ path ! m \<or> q = 0x01 # path ! m @ v"
    using climb_step_input [OF m(2)] unfolding v_def by blast
  have mem: "hash_bytes E q \<in> set (next_level E lv)"
    using Suc val up by (simp add: H_def m(1))
  have lv_in: "set (pair_inputs lv) \<subseteq> I"
    using inner_inputs_level [of "H - Suc t" level E] tree Suc.prems by (auto simp: lv_def H_def)
  have lv34: "\<forall>h \<in> set lv. length h = 34"
    using level_at_length34 [OF E len] by (auto simp: lv_def)
  have v34: "length v = 34" using climb_length34 [OF E c] by (simp add: v_def)
  have "v \<in> set lv"
    using internal_in_next_level [OF cf lv_in lv34, of v "path ! m"]
      internal_in_next_level [OF cf lv_in lv34, of "path ! m" v] mem q q_in path v34
    by auto
  then show ?case by (simp add: v_def lv_def H_def m_def)
qed

lemma leaf_not_internal:
  assumes "collision_free E I" and "0x00 # x \<in> I" and "q \<in> I" and "hd q = 0x01"
  shows "hash_bytes E (0x00 # x) \<noteq> hash_bytes E q"
  using collision_freeD [OF assms(1) _ assms(2,3)] assms(4) by auto

lemma in_upper_level:
  assumes "0 < j" and "j \<le> tree_height (length level)" and "h \<in> set (level_at E level j)"
  shows "\<exists>q \<in> set (inner_inputs E level). h = hash_bytes E q \<and> hd q = 0x01"
proof -
  from assms(1) obtain i where j: "j = Suc i" by (cases j) auto
  from assms(3) obtain q where "q \<in> set (pair_inputs (level_at E level i))" "h = hash_bytes E q"
    by (auto simp: j level_at_Suc next_level_eq)
  with inner_inputs_level [of i level E] assms(2) j show ?thesis
    by (fastforce dest: pair_inputsD)
qed

lemma proof_path_is_height:
  assumes E: "blake3_spec E" and cf: "collision_free E I"
    and tree: "tree_inputs E xs \<subseteq> I" and pins: "proof_inputs E p \<subseteq> I"
    and ver: "verify_inclusion E p (root_hash E xs)" and ne: "xs \<noteq> []"
  shows "length (ip_path p) = tree_height (length xs) \<and> ip_leaf_hash p \<in> set xs"
proof -
  define level c path where "level = map (leaf_node E) xs"
    and "c = leaf_node E (ip_leaf_hash p)" and "path = ip_path p"
  define H where "H = tree_height (length level)"
  have len: "\<forall>h \<in> set level. length h = 34" and c34: "length c = 34"
    using E by (auto simp: level_def c_def leaf_node_def length_hash_bytes)
  have inner: "set (inner_inputs E level) \<subseteq> I" and leaf: "0x00 # ip_leaf_hash p \<in> I"
    and cin: "set (climb_inputs E c (ip_index p) path) \<subseteq> I"
    and leaves: "\<And>x. x \<in> set xs \<Longrightarrow> 0x00 # x \<in> I"
    using tree pins by (auto simp: tree_inputs_def proof_inputs_def level_def c_def path_def)
  have top: "climb E c (ip_index p) path = root_of_level E level" and lne: "level \<noteq> []"
    using ver ne by (auto simp: verify_inclusion_def root_hash_def c_def path_def level_def)
  note down = climb_descends [OF E cf inner cin len c34 top lne, folded H_def]
  have "\<not> length path < H"
  proof
    assume less: "length path < H"
    with down [of "length path"] have "c \<in> set (level_at E level (H - length path))" by simp
    from in_upper_level [OF _ _ this] less obtain q
      where "q \<in> set (inner_inputs E level)" "c = hash_bytes E q" "hd q = 0x01"
      by (auto simp: H_def)
    with leaf_not_internal [OF cf leaf, of q] inner show False by (auto simp: c_def leaf_node_def)
  qed
  moreover have "\<not> H < length path"
  proof
    assume less: "H < length path"
    define k where "k = length path - Suc H"
    have k: "length path - H = Suc k" "k < length path" using less by (auto simp: k_def)
    from down [of H] less have "climb E c (ip_index p) (take (Suc k) path) \<in> set level"
      by (simp add: k)
    then obtain x where x: "x \<in> set xs"
      and "climb E c (ip_index p) (take (Suc k) path) = leaf_node E x"
      by (auto simp: level_def)
    with climb_step_input [OF k(2), of E c "ip_index p"] obtain q
      where "leaf_node E x = hash_bytes E q" and "hd q = 0x01" and "q \<in> I"
      using cin by (metis list.sel(1) subsetD)
    with leaf_not_internal [OF cf leaves [OF x], of q] show False
      by (auto simp: leaf_node_def)
  qed
  ultimately have eq: "length path = H" by simp
  with down [of H] have "c \<in> set level" by simp
  then obtain x where "x \<in> set xs" "leaf_node E (ip_leaf_hash p) = leaf_node E x"
    by (auto simp: level_def c_def)
  with collision_freeD [OF cf _ leaf leaves] have "ip_leaf_hash p \<in> set xs"
    by (auto simp: leaf_node_def)
  with eq show ?thesis by (simp add: H_def path_def level_def)
qed

lemma nth_pair_inputs:
  "i < length (pair_inputs level) \<Longrightarrow>
   pair_inputs level ! i =
     0x01 # level ! (2 * i) @
       (if 2 * i + 1 < length level then level ! (2 * i + 1) else level ! (2 * i))"
proof (induction level arbitrary: i rule: pair_inputs.induct)
  case (3 left right rest)
  then show ?case by (cases i) auto
qed auto

lemma length_pair_inputs: "length (pair_inputs level) = (length level + 1) div 2"
  by (induction level rule: pair_inputs.induct) auto

lemma climb_position:
  assumes E: "blake3_spec E" and cf: "collision_free E I"
  shows "set (inner_inputs E level) \<subseteq> I \<Longrightarrow> set (climb_inputs E c (int i) path) \<subseteq> I \<Longrightarrow>
     \<forall>h \<in> set level. length h = 34 \<Longrightarrow> length c = 34 \<Longrightarrow> i < length level \<Longrightarrow>
     length path = tree_height (length level) \<Longrightarrow>
     climb E c (int i) path = root_of_level E level \<Longrightarrow> c = level ! i"
proof (induction path arbitrary: level c i)
  case Nil
  then have "length level \<le> 1" by (simp add: tree_height.simps [of "length level"] split: if_splits)
  with Nil.prems(5) have "i = 0" by simp
  with Nil \<open>length level \<le> 1\<close> show ?case by (simp add: root_of_level_single)
next
  case (Cons s path)
  from Cons.prems(6) have len: "1 < length level"
    by (simp add: tree_height.simps [of "length level"] split: if_splits)
  define up where "up = next_level E level"
  define q where "q = (if int i mod 2 = 0 then 0x01 # c @ s else 0x01 # s @ c)"
  have k: "i div 2 < length up" "i div 2 < length (pair_inputs level)"
    using Cons.prems(5) by (auto simp: up_def length_next_level length_pair_inputs)
  have inner: "set (pair_inputs level) \<subseteq> I" "set (inner_inputs E up) \<subseteq> I"
    using Cons.prems(1) len by (auto simp: inner_inputs.simps [of E level] up_def)
  have "hash_bytes E q = up ! (i div 2)"
  proof (rule Cons.IH [OF inner(2)])
    show "set (climb_inputs E (hash_bytes E q) (int (i div 2)) path) \<subseteq> I"
      using Cons.prems(2) by (auto simp: q_def internal_node_def of_nat_div split: if_splits)
    show "\<forall>h \<in> set up. length h = 34" and "length (hash_bytes E q) = 34"
      using E by (auto simp: up_def next_level_eq length_hash_bytes)
    show "i div 2 < length up" by (rule k(1))
    show "length path = tree_height (length up)"
      using Cons.prems(6) len
      by (simp add: tree_height.simps [of "length level"] up_def length_next_level)
    show "climb E (hash_bytes E q) (int (i div 2)) path = root_of_level E up"
      using Cons.prems(7) len
      by (auto simp: q_def internal_node_def of_nat_div root_of_level_step up_def split: if_splits)
  qed
  then have "hash_bytes E q = hash_bytes E (pair_inputs level ! (i div 2))"
    using k(2) by (simp add: up_def next_level_eq)
  moreover have "q \<in> I" and "pair_inputs level ! (i div 2) \<in> I"
    using Cons.prems(2) inner(1) k(2) by (auto simp: q_def)
  ultimately have q: "q = pair_inputs level ! (i div 2)" by (rule collision_freeD [OF cf])
  note pair = nth_pair_inputs [OF k(2)]
  show ?case
  proof (cases "even i")
    case True
    then obtain b where b: "i = 2 * b" by (elim evenE)
    with Cons.prems(3,5) have "length (level ! i) = 34" by simp
    with q pair Cons.prems(4) b show ?thesis by (auto simp: q_def)
  next
    case False
    then obtain b where b: "i = 2 * b + 1" by (elim oddE)
    with Cons.prems(3,5) have "length (level ! i) = 34" by simp
    with q pair Cons.prems(4,5) b show ?thesis by (auto simp: q_def append_eq_append_conv)
  qed
qed

text \<open>C7: an inclusion proof that verifies against the root of a non-empty log proves membership: as
  long as the digest has no collision among the byte strings hashed for this tree and this proof, its
  leaf is an entry of the log, its path is as long as the tree is high (so an internal node cannot pose
  as a leaf), and when its index is inside the log its leaf is the entry at that index.\<close>

theorem verify_inclusion_sound:
  assumes "blake3_spec E" and "collision_free E (tree_inputs E xs \<union> proof_inputs E p)"
    and "xs \<noteq> []" and "verify_inclusion E p (root_hash E xs)"
  shows "ip_leaf_hash p \<in> set xs \<and> length (ip_path p) = tree_height (length xs) \<and>
         (0 \<le> ip_index p \<and> ip_index p < int (length xs) \<longrightarrow>
            ip_leaf_hash p = xs ! nat (ip_index p))"
proof -
  note height = proof_path_is_height [OF assms(1,2) _ _ assms(4,3)]
  have "ip_leaf_hash p = xs ! nat (ip_index p)"
    if "0 \<le> ip_index p" "ip_index p < int (length xs)"
  proof -
    define i where "i = nat (ip_index p)"
    have i: "ip_index p = int i" "i < length xs" using that by (auto simp: i_def)
    have "leaf_node E (ip_leaf_hash p) = map (leaf_node E) xs ! i"
      by (rule climb_position [OF assms(1,2), where i = i and path = "ip_path p"])
        (use assms height i in \<open>auto simp: tree_inputs_def proof_inputs_def leaf_node_def
           length_hash_bytes verify_inclusion_def root_hash_def\<close>)
    then have "hash_bytes E (0x00 # ip_leaf_hash p) = hash_bytes E (0x00 # xs ! i)"
      using i(2) by (simp add: leaf_node_def)
    from collision_freeD [OF assms(2) this] i(2) show ?thesis
      by (auto simp: tree_inputs_def proof_inputs_def i_def)
  qed
  with height show ?thesis by auto
qed

lemma tree_inputs_list:
  "tree_inputs E xs = set (map ((#) 0x00) xs @ inner_inputs E (map (leaf_node E) xs))"
  by (auto simp: tree_inputs_def)

lemma proof_inputs_list:
  "proof_inputs E p =
     set ((0x00 # ip_leaf_hash p) #
          climb_inputs E (leaf_node E (ip_leaf_hash p)) (ip_index p) (ip_path p))"
  by (simp add: proof_inputs_def)

definition sample_log :: "hash list" where
  "sample_log = [[1], [2], [3]]"

definition sample_proof :: inclusion where
  "sample_proof =
     \<lparr> ip_leaf_hash = [2], ip_index = 1,
       ip_path = proof_path ref_env (map (leaf_node ref_env) sample_log) 1 \<rparr>"

theorem verify_inclusion_sound_witness:
  "ip_leaf_hash sample_proof \<in> set sample_log \<and>
   length (ip_path sample_proof) = tree_height (length sample_log) \<and>
   ip_leaf_hash sample_proof = sample_log ! nat (ip_index sample_proof)"
proof -
  have "collision_free ref_env (tree_inputs ref_env sample_log \<union> proof_inputs ref_env sample_proof)"
    unfolding tree_inputs_list proof_inputs_list set_append [symmetric]
    by (rule collision_free_listI) code_simp
  moreover have "sample_log \<noteq> []" and "verify_inclusion ref_env sample_proof (root_hash ref_env sample_log)"
    and "0 \<le> ip_index sample_proof" and "ip_index sample_proof < int (length sample_log)"
    by code_simp+
  ultimately show ?thesis
    using verify_inclusion_sound [OF ref_env_blake3, of sample_log sample_proof] by blast
qed

section \<open>What the root commits to\<close>

lemma pair_inputs_inj:
  "pair_inputs xs = pair_inputs ys \<Longrightarrow> length xs = length ys \<Longrightarrow>
   \<forall>h \<in> set xs \<union> set ys. length h = 34 \<Longrightarrow> xs = ys"
proof (induction xs arbitrary: ys rule: pair_inputs.induct)
  case (2 left)
  then obtain l where "ys = [l]" by (cases ys) auto
  with 2 show ?case by auto
next
  case (3 left right rest)
  then obtain l r rest' where ys: "ys = l # r # rest'"
    by (metis Suc_length_conv length_Cons)
  from 3 have "left @ right = l @ r" "length left = length l" by (auto simp: ys)
  with 3 ys show ?case by auto
qed (auto simp: length_Suc_conv)

lemma root_of_level_inj:
  assumes cf: "collision_free E I" and E: "blake3_spec E"
  shows "root_of_level E xs = root_of_level E ys \<Longrightarrow> length xs = length ys \<Longrightarrow>
     set (inner_inputs E xs) \<subseteq> I \<Longrightarrow> set (inner_inputs E ys) \<subseteq> I \<Longrightarrow>
     \<forall>h \<in> set xs \<union> set ys. length h = 34 \<Longrightarrow> xs = ys"
proof (induction "length xs" arbitrary: xs ys rule: less_induct)
  case less
  show ?case
  proof (cases "1 < length xs")
    case False
    with less.prems show ?thesis
      by (cases xs; cases ys) (auto simp: root_of_level_single)
  next
    case True
    with less.prems have up: "next_level E xs = next_level E ys"
      by (intro less.hyps)
        (auto simp: length_next_level root_of_level_step inner_inputs.simps [of E xs]
          inner_inputs.simps [of E ys] next_level_length34 [OF E])
    have "set (pair_inputs xs) \<subseteq> I" "set (pair_inputs ys) \<subseteq> I"
      using True less.prems by (auto simp: inner_inputs.simps [of E xs] inner_inputs.simps [of E ys])
    with cf have "inj_on (hash_bytes E) (set (pair_inputs xs) \<union> set (pair_inputs ys))"
      unfolding collision_free_def by (auto intro: inj_on_subset)
    moreover have "map (hash_bytes E) (pair_inputs xs) = map (hash_bytes E) (pair_inputs ys)"
      using up by (simp add: next_level_eq)
    ultimately have "pair_inputs xs = pair_inputs ys" by (rule map_inj_on [rotated])
    from pair_inputs_inj [OF this] less.prems show ?thesis by blast
  qed
qed

text \<open>The root binds the whole log: two logs of the same length with the same root are equal, unless
  two different byte strings hashed in their trees collide.\<close>

theorem root_hash_binding:
  assumes "blake3_spec E" and "collision_free E (tree_inputs E xs \<union> tree_inputs E ys)"
    and "length xs = length ys" and "root_hash E xs = root_hash E ys"
  shows "xs = ys"
proof (cases "xs = []")
  case True
  with assms(3) show ?thesis by simp
next
  case False
  have "map (leaf_node E) xs = map (leaf_node E) ys"
    by (rule root_of_level_inj [OF assms(2,1)])
      (use False assms in \<open>auto simp: root_hash_def tree_inputs_def leaf_node_def length_hash_bytes\<close>)
  moreover have "inj_on (leaf_node E) (set xs \<union> set ys)"
    using collision_freeD [OF assms(2)]
    by (auto simp: inj_on_def leaf_node_def tree_inputs_def)
  ultimately show ?thesis by (rule map_inj_on)
qed

theorem root_hash_binding_witness: "sample_log = [[1], [2], [3]]"
proof (rule root_hash_binding [OF ref_env_blake3])
  show "collision_free ref_env (tree_inputs ref_env sample_log \<union> tree_inputs ref_env [[1], [2], [3]])"
    unfolding tree_inputs_list set_append [symmetric]
    by (rule collision_free_listI) code_simp
  show "length sample_log = length [[1], [2], [3 :: byte]]"
    and "root_hash ref_env sample_log = root_hash ref_env [[1], [2], [3]]"
    by code_simp+
qed

lemma next_level_duplicate:
  "odd (length level) \<Longrightarrow> next_level E (level @ [last level]) = next_level E level"
  by (induction E level rule: next_level.induct) auto

text \<open>The root does not commit to the number of entries: a log of odd length (three or more) and the
  same log with its last entry repeated have the same root, because the odd node is paired with itself.
  RFC 6962 trees do not have this ambiguity.\<close>

theorem root_hash_duplicate_last:
  assumes "odd (length xs)" and "1 < length xs"
  shows "root_hash E (xs @ [last xs]) = root_hash E xs"
proof -
  let ?level = "map (leaf_node E) xs"
  have "next_level E (?level @ [last ?level]) = next_level E ?level"
    by (rule next_level_duplicate) (use assms(1) in simp)
  moreover have "last ?level = leaf_node E (last xs)" using assms(2) by (intro last_map) auto
  ultimately show ?thesis
    using assms root_of_level_step [of ?level E] root_of_level_step [of "?level @ [last ?level]" E]
    by (auto simp: root_hash_def)
qed

theorem root_hash_duplicate_last_witness:
  "root_hash ref_env ([[1], [2], [3]] @ [[3]]) = root_hash ref_env [[1], [2], [3]]"
  using root_hash_duplicate_last [of "[[1], [2], [3]]" ref_env] by simp

end
