(* ===== verification/Sqlite.thy ===== *)
theory Sqlite
  imports Merkle
begin

text \<open>
  The part of Python's \<open>sqlite3\<close> the storage layer relies on: a connection with committed and pending
  contents, statements that run inside the open transaction or commit by themselves, explicit
  \<open>BEGIN IMMEDIATE\<close> / \<open>COMMIT\<close> / \<open>ROLLBACK\<close>, and recovery after a crash, which keeps the committed
  contents only. The tables of \<^verbatim>\<open>index.db\<close>, shared by \<^verbatim>\<open>graph_index.py\<close> and \<^verbatim>\<open>append_log.py\<close>, are the
  record \<open>db\<close>.
\<close>

section \<open>Connections\<close>

text \<open>
  \<open>autocommit\<close> is \<open>isolation_level=None\<close>; otherwise a data-modifying statement opens a transaction
  that stays open until \<open>commit()\<close>.
\<close>

record 'db conn =
  committed :: 'db
  pending :: "'db option"
  autocommit :: bool

definition view :: "'db conn \<Rightarrow> 'db" where
  "view c = (case pending c of None \<Rightarrow> committed c | Some w \<Rightarrow> w)"

definition exec_dml :: "('db \<Rightarrow> 'db) \<Rightarrow> 'db conn \<Rightarrow> 'db conn" where
  "exec_dml f c =
     (case pending c of
        Some w \<Rightarrow> c\<lparr>pending := Some (f w)\<rparr>
      | None \<Rightarrow>
          if autocommit c then c\<lparr>committed := f (committed c)\<rparr>
          else c\<lparr>pending := Some (f (committed c))\<rparr>)"

fun exec_all :: "('db \<Rightarrow> 'db) list \<Rightarrow> 'db conn \<Rightarrow> 'db conn" where
  "exec_all [] c = c"
| "exec_all (f # fs) c = exec_all fs (exec_dml f c)"

definition begin_immediate :: "'db conn \<Rightarrow> 'db conn res" where
  "begin_immediate c =
     (case pending c of Some _ \<Rightarrow> Inl OperationalError
      | None \<Rightarrow> Inr (c\<lparr>pending := Some (committed c)\<rparr>))"

definition commit_conn :: "'db conn \<Rightarrow> 'db conn" where
  "commit_conn c = c\<lparr>committed := view c, pending := None\<rparr>"

definition rollback_conn :: "'db conn \<Rightarrow> 'db conn" where
  "rollback_conn c = c\<lparr>pending := None\<rparr>"

definition recover :: "'db conn \<Rightarrow> 'db" where
  "recover c = committed c"

named_theorems conn_simps \<open>contents of a connection after a statement\<close>

lemma view_exec_dml [conn_simps]: "view (exec_dml f c) = f (view c)"
  by (simp add: view_def exec_dml_def split: option.splits)

lemma view_exec_all [conn_simps]: "view (exec_all fs c) = fold (\<lambda>f. f) fs (view c)"
  by (induction fs arbitrary: c) (simp_all add: view_exec_dml)

lemma view_commit [conn_simps]: "view (commit_conn c) = view c"
  by (simp add: view_def commit_conn_def)

lemma exec_all_append: "exec_all (fs @ gs) c = exec_all gs (exec_all fs c)"
  by (induction fs arbitrary: c) auto

lemma exec_dml_in_tx [conn_simps]:
  "pending c = Some w \<Longrightarrow> exec_dml f c = c\<lparr>pending := Some (f w)\<rparr>"
  by (simp add: exec_dml_def)

lemma exec_all_in_tx [conn_simps]:
  "pending c = Some w \<Longrightarrow> exec_all fs c = c\<lparr>pending := Some (fold (\<lambda>f. f) fs w)\<rparr>"
  by (induction fs arbitrary: c w) (auto simp: exec_dml_in_tx)

lemma autocommit_exec_all [conn_simps]: "autocommit (exec_all fs c) = autocommit c"
  by (induction fs arbitrary: c) (auto simp: exec_dml_def split: option.splits)

lemma pending_exec_all_autocommit [conn_simps]:
  "autocommit c \<Longrightarrow> pending c = None \<Longrightarrow> pending (exec_all fs c) = None"
  by (induction fs arbitrary: c) (auto simp: exec_dml_def)

lemma committed_exec_all_legacy:
  "\<not> autocommit c \<Longrightarrow> committed (exec_all fs c) = committed c"
proof (induction fs arbitrary: c)
  case (Cons f fs)
  from Cons.prems have "\<not> autocommit (exec_dml f c)" "committed (exec_dml f c) = committed c"
    by (auto simp: exec_dml_def split: option.splits)
  with Cons.IH show ?case by simp
qed simp

section \<open>The tables\<close>

record log_entry =
  le_seq :: int
  le_timestamp_ns :: int
  le_signer_pubkey :: bytes
  le_entry_hash :: hash
  le_prev_log_hash :: hash
  le_signature :: bytes
  le_payload :: bytes

text \<open>
  \<open>t_edges\<close>: edge hash and conclusion. \<open>t_premises\<close>: edge hash, premise hash and position.
\<close>

record db =
  t_nodes :: "hash list"
  t_edges :: "(hash \<times> hash) list"
  t_premises :: "(hash \<times> hash \<times> nat) list"
  t_log :: "log_entry list"

definition empty_db :: db where
  "empty_db = \<lparr> t_nodes = [], t_edges = [], t_premises = [], t_log = [] \<rparr>"

text \<open>Opening a database file: an existing one is left as it is, a new one gets empty tables.\<close>

definition open_db :: "db option \<Rightarrow> db" where
  "open_db file = (case file of None \<Rightarrow> empty_db | Some d \<Rightarrow> d)"

definition connect :: "bool \<Rightarrow> db option \<Rightarrow> db conn" where
  "connect auto file = \<lparr> committed = open_db file, pending = None, autocommit = auto \<rparr>"

end
