(* ===== verification/Graph_Index.thy ===== *)
theory Graph_Index
  imports Sqlite
begin

text \<open>
  \<^verbatim>\<open>storage/graph_index.py\<close>: the structural adjacency index. Each operation is the list of SQL
  statements it executes; the queries read the tables in the order their \<open>ORDER BY\<close> asks for. The
  invariant \<open>graph_ok\<close> says when the tables represent a hypergraph, \<open>connectivity\<close> is the map they
  represent, and the contract the query and attestation layers use is the locale \<open>hypergraph_index\<close>.
\<close>

section \<open>Statements and operations\<close>

definition ins_node :: "hash \<Rightarrow> db \<Rightarrow> db" where
  "ins_node h d = d\<lparr>t_nodes := insert_or_ignore id h (t_nodes d)\<rparr>"

definition ins_edge :: "hash \<Rightarrow> hash \<Rightarrow> db \<Rightarrow> db" where
  "ins_edge eh conclusion d = d\<lparr>t_edges := insert_or_ignore fst (eh, conclusion) (t_edges d)\<rparr>"

definition premise_key :: "hash \<times> hash \<times> nat \<Rightarrow> hash \<times> nat" where
  "premise_key r = (case r of (eh, p, position) \<Rightarrow> (eh, position))"

definition ins_premise :: "hash \<Rightarrow> hash \<Rightarrow> nat \<Rightarrow> db \<Rightarrow> db" where
  "ins_premise eh p position d =
     d\<lparr>t_premises := insert_or_ignore premise_key (eh, p, position) (t_premises d)\<rparr>"

text \<open>Commit only if the instance owns its connection.\<close>

definition commit_if_owned :: "bool \<Rightarrow> 'db conn \<Rightarrow> 'db conn" where
  "commit_if_owned owns c = (if owns then commit_conn c else c)"

definition register_node :: "bool \<Rightarrow> hash \<Rightarrow> db conn \<Rightarrow> db conn" where
  "register_node owns node_hash c = commit_if_owned owns (exec_dml (ins_node node_hash) c)"

definition register_edge_stmts :: "hash \<Rightarrow> hash list \<Rightarrow> hash \<Rightarrow> (db \<Rightarrow> db) list" where
  "register_edge_stmts eh premises conclusion =
     [ins_node conclusion] @ map ins_node premises @ [ins_edge eh conclusion] @
     map (\<lambda>(position, p). ins_premise eh p position) (List.enumerate 0 premises)"

definition register_edge :: "bool \<Rightarrow> hash \<Rightarrow> hash list \<Rightarrow> hash \<Rightarrow> db conn \<Rightarrow> db conn" where
  "register_edge owns eh premises conclusion c =
     commit_if_owned owns (exec_all (register_edge_stmts eh premises conclusion) c)"

text \<open>The queries; every hash read back goes through the \<open>Hash\<close> constructor.\<close>

definition incoming_edges :: "db conn \<Rightarrow> hash \<Rightarrow> hash list res" where
  "incoming_edges c node_hash =
     map_res Hash (sort (map fst (filter (\<lambda>r. snd r = node_hash) (t_edges (view c)))))"

definition outgoing_edges :: "db conn \<Rightarrow> hash \<Rightarrow> hash list res" where
  "outgoing_edges c node_hash =
     map_res Hash (sort (map fst (filter (\<lambda>r. fst (snd r) = node_hash) (t_premises (view c)))))"

definition get_connectivity :: "db conn \<Rightarrow> hash \<Rightarrow> (hash list \<times> hash) option res" where
  "get_connectivity c eh =
     (case map_of (t_edges (view c)) eh of
        None \<Rightarrow> Inr None
      | Some row \<Rightarrow>
          and_then (Hash row) (\<lambda>conclusion.
          and_then
            (map_res (\<lambda>r. Hash (fst (snd r)))
               (sort_key (\<lambda>r. snd (snd r)) (filter (\<lambda>r. fst r = eh) (t_premises (view c)))))
            (\<lambda>premises. Inr (Some (premises, conclusion)))))"

definition all_nodes :: "db conn \<Rightarrow> hash list res" where
  "all_nodes c = map_res Hash (sort (t_nodes (view c)))"

definition all_edges :: "db conn \<Rightarrow> hash list res" where
  "all_edges c = map_res Hash (sort (map fst (t_edges (view c))))"

section \<open>What the tables represent\<close>

definition rows_of :: "db \<Rightarrow> hash \<Rightarrow> (hash \<times> hash \<times> nat) list" where
  "rows_of d eh = sort_key (\<lambda>r. snd (snd r)) (filter (\<lambda>r. fst r = eh) (t_premises d))"

definition connectivity :: "db \<Rightarrow> hash \<Rightarrow> (hash list \<times> hash) option" where
  "connectivity d eh =
     map_option (\<lambda>conclusion. (map (\<lambda>r. fst (snd r)) (rows_of d eh), conclusion))
       (map_of (t_edges d) eh)"

definition hash34 :: "hash \<Rightarrow> bool" where
  "hash34 h \<longleftrightarrow> length h = 34"

definition graph_ok :: "db \<Rightarrow> bool" where
  "graph_ok d \<longleftrightarrow>
     distinct (t_nodes d) \<and> distinct (map fst (t_edges d)) \<and>
     list_all hash34 (t_nodes d) \<and>
     list_all (\<lambda>r. hash34 (fst r) \<and> snd r \<in> set (t_nodes d)) (t_edges d) \<and>
     list_all (\<lambda>r. fst r \<in> fst ` set (t_edges d) \<and> fst (snd r) \<in> set (t_nodes d)) (t_premises d) \<and>
     (\<forall>eh \<in> fst ` set (t_edges d).
        map (\<lambda>r. snd (snd r)) (rows_of d eh) = [0..<length (rows_of d eh)])"

text \<open>An edge hash is only ever registered with one connectivity: it is a content address.\<close>

definition consistent_with :: "db \<Rightarrow> hash \<Rightarrow> hash list \<Rightarrow> hash \<Rightarrow> bool" where
  "consistent_with d eh premises conclusion \<longleftrightarrow>
     connectivity d eh = None \<or> connectivity d eh = Some (premises, conclusion)"

definition register_edge_db :: "hash \<Rightarrow> hash list \<Rightarrow> hash \<Rightarrow> db \<Rightarrow> db" where
  "register_edge_db eh premises conclusion d =
     fold (\<lambda>f. f) (register_edge_stmts eh premises conclusion) d"

lemma view_register_edge [conn_simps]:
  "view (register_edge owns eh ps c x) = register_edge_db eh ps c (view x)"
  by (simp add: register_edge_def commit_if_owned_def register_edge_db_def conn_simps)

lemma view_register_node [conn_simps]:
  "view (register_node owns h c) = ins_node h (view c)"
  by (simp add: register_node_def commit_if_owned_def conn_simps)

section \<open>Effect of the statements\<close>

lemma fold_ins_node:
  "fold (\<lambda>f. f) (map ins_node hs) d =
     d\<lparr>t_nodes := fold (insert_or_ignore id) hs (t_nodes d)\<rparr>"
  by (induction hs arbitrary: d) (simp_all add: ins_node_def)

lemma set_fold_ins_nodes: "set (fold (insert_or_ignore id) hs ns) = set hs \<union> set ns"
  by (induction hs arbitrary: ns) (auto simp: insert_or_ignore_id)

lemma distinct_fold_ins_nodes: "distinct ns \<Longrightarrow> distinct (fold (insert_or_ignore id) hs ns)"
  by (induction hs arbitrary: ns) (simp_all add: distinct_insert_or_ignore_id)

definition ins_premises :: "hash \<Rightarrow> nat \<Rightarrow> hash list \<Rightarrow>
    (hash \<times> hash \<times> nat) list \<Rightarrow> (hash \<times> hash \<times> nat) list" where
  "ins_premises eh n ps t =
     fold (\<lambda>(i, p). insert_or_ignore premise_key (eh, p, i)) (List.enumerate n ps) t"

lemma fold_ins_premise:
  "fold (\<lambda>f. f) (map (\<lambda>(i, p). ins_premise eh p i) (List.enumerate n ps)) d =
     d\<lparr>t_premises := ins_premises eh n ps (t_premises d)\<rparr>"
  by (induction ps arbitrary: n d) (simp_all add: ins_premises_def ins_premise_def)

lemma register_edge_db_eq:
  "register_edge_db eh ps c d =
     d\<lparr>t_nodes := fold (insert_or_ignore id) (c # ps) (t_nodes d),
       t_edges := insert_or_ignore fst (eh, c) (t_edges d),
       t_premises := ins_premises eh 0 ps (t_premises d)\<rparr>"
  by (simp add: register_edge_db_def register_edge_stmts_def fold_ins_node fold_ins_premise
      ins_edge_def ins_node_def)

fun new_rows :: "hash \<Rightarrow> nat \<Rightarrow> hash list \<Rightarrow> (hash \<times> hash \<times> nat) list" where
  "new_rows eh n [] = []"
| "new_rows eh n (p # ps) = (eh, p, n) # new_rows eh (Suc n) ps"

lemma ins_premises_fresh:
  "(\<And>r. r \<in> set t \<Longrightarrow> fst r = eh \<Longrightarrow> snd (snd r) < n) \<Longrightarrow>
   ins_premises eh n ps t = t @ new_rows eh n ps"
proof (induction ps arbitrary: n t)
  case (Cons p ps)
  have "premise_key (eh, p, n) \<notin> premise_key ` set t"
    using Cons.prems by (fastforce simp: premise_key_def)
  then have "insert_or_ignore premise_key (eh, p, n) t = t @ [(eh, p, n)]"
    by (rule insert_or_ignore_fresh)
  moreover have "ins_premises eh (Suc n) ps (t @ [(eh, p, n)]) =
      (t @ [(eh, p, n)]) @ new_rows eh (Suc n) ps"
    by (rule Cons.IH) (use Cons.prems in \<open>auto intro: less_SucI\<close>)
  ultimately show ?case by (simp add: ins_premises_def)
qed (simp add: ins_premises_def)

lemma premises_of_new_rows: "map (\<lambda>r. fst (snd r)) (new_rows eh n ps) = ps"
  by (induction ps arbitrary: n) auto

lemma positions_of_new_rows: "map (\<lambda>r. snd (snd r)) (new_rows eh n ps) = [n..<n + length ps]"
  by (induction ps arbitrary: n) (auto simp: upt_conv_Cons simp del: upt_Suc)

lemma length_new_rows [simp]: "length (new_rows eh n ps) = length ps"
  by (induction ps arbitrary: n) auto

lemma in_new_rows: "r \<in> set (new_rows eh n ps) \<Longrightarrow> fst r = eh \<and> fst (snd r) \<in> set ps"
  by (induction ps arbitrary: n) auto

lemma filter_new_rows:
  "filter (\<lambda>r. fst r = e) (new_rows eh n ps) = (if e = eh then new_rows eh n ps else [])"
  by (induction ps arbitrary: n) auto

lemma sort_new_rows: "sort_key (\<lambda>r. snd (snd r)) (new_rows eh n ps) = new_rows eh n ps"
  by (rule sort_key_id_if_sorted) (simp add: positions_of_new_rows)

lemma ins_premises_present:
  "(\<And>i. n \<le> i \<Longrightarrow> i < n + length ps \<Longrightarrow> (eh, i) \<in> premise_key ` set t) \<Longrightarrow>
   ins_premises eh n ps t = t"
proof (induction ps arbitrary: n)
  case (Cons p ps)
  have "(eh, n) \<in> premise_key ` set t" using Cons.prems [of n] by simp
  then have "insert_or_ignore premise_key (eh, p, n) t = t"
    by (intro insert_or_ignore_present) (simp add: premise_key_def)
  moreover have "ins_premises eh (Suc n) ps t = t"
    by (rule Cons.IH) (use Cons.prems in auto)
  ultimately show ?case by (simp add: ins_premises_def)
qed (simp add: ins_premises_def)

section \<open>Registering an edge\<close>

lemma connectivity_None_iff: "connectivity d eh = None \<longleftrightarrow> eh \<notin> fst ` set (t_edges d)"
  by (simp add: connectivity_def map_of_eq_None_iff)

lemma graph_ok_rows_of_absent:
  assumes "graph_ok d" and "eh \<notin> fst ` set (t_edges d)"
  shows "filter (\<lambda>r. fst r = eh) (t_premises d) = []"
  using assms by (auto simp: graph_ok_def list_all_iff filter_empty_conv)

lemma register_fresh:
  assumes ok: "graph_ok d" and new: "connectivity d eh = None"
  shows "t_edges (register_edge_db eh ps c d) = t_edges d @ [(eh, c)]"
    and "t_premises (register_edge_db eh ps c d) =
           t_premises d @ new_rows eh 0 ps"
proof -
  from new have eh: "eh \<notin> fst ` set (t_edges d)" by (simp add: connectivity_None_iff)
  then show "t_edges (register_edge_db eh ps c d) = t_edges d @ [(eh, c)]"
    by (simp add: register_edge_db_eq insert_or_ignore_fresh)
  have "r \<notin> set (t_premises d)" if "fst r = eh" for r
    using graph_ok_rows_of_absent [OF ok eh] that by (auto simp: filter_empty_conv)
  then have "ins_premises eh 0 ps (t_premises d) =
      t_premises d @ new_rows eh 0 ps"
    by (intro ins_premises_fresh) auto
  then show "t_premises (register_edge_db eh ps c d) =
      t_premises d @ new_rows eh 0 ps"
    by (simp add: register_edge_db_eq)
qed

lemma rows_of_register_fresh:
  assumes "graph_ok d" and "connectivity d eh = None"
  shows "rows_of (register_edge_db eh ps c d) e =
     (if e = eh then new_rows eh 0 ps else rows_of d e)"
  using graph_ok_rows_of_absent [OF assms(1), of eh] assms(2)
  by (simp add: rows_of_def register_fresh [OF assms] filter_new_rows sort_new_rows
      connectivity_None_iff)

lemma connectivity_register_fresh:
  assumes "graph_ok d" and "connectivity d eh = None"
  shows "connectivity (register_edge_db eh ps c d) = (connectivity d)(eh \<mapsto> (ps, c))"
proof
  fix e
  show "connectivity (register_edge_db eh ps c d) e = ((connectivity d)(eh \<mapsto> (ps, c))) e"
    using assms(2) premises_of_new_rows [of eh 0 ps]
    by (auto simp: connectivity_def rows_of_register_fresh [OF assms] register_fresh [OF assms]
        map_add_def map_of_eq_None_iff [symmetric] split: option.splits)
qed

text \<open>Registering the same edge with the same connectivity again adds no row.\<close>

lemma register_present:
  assumes ok: "graph_ok d" and old: "connectivity d eh = Some (ps, c)"
  shows "t_edges (register_edge_db eh ps c d) = t_edges d"
    and "t_premises (register_edge_db eh ps c d) = t_premises d"
    and "set (t_nodes (register_edge_db eh ps c d)) = set (t_nodes d)"
proof -
  from old have edge: "map_of (t_edges d) eh = Some c"
    and ps: "ps = map (\<lambda>r. fst (snd r)) (rows_of d eh)"
    by (auto simp: connectivity_def)
  have mem: "(eh, c) \<in> set (t_edges d)" using edge by (rule map_of_SomeD)
  have eh: "eh \<in> fst ` set (t_edges d)" using mem by force
  then show "t_edges (register_edge_db eh ps c d) = t_edges d"
    by (simp add: register_edge_db_eq insert_or_ignore_present)
  have pos: "map (\<lambda>r. snd (snd r)) (rows_of d eh) = [0..<length ps]"
    using ok eh ps by (auto simp: graph_ok_def)
  have rows: "set (rows_of d eh) = {r \<in> set (t_premises d). fst r = eh}"
    by (auto simp: rows_of_def)
  have key: "(eh, i) \<in> premise_key ` set (t_premises d)" if "i < length ps" for i
  proof -
    from that pos have "i \<in> set (map (\<lambda>r. snd (snd r)) (rows_of d eh))" by simp
    then obtain r where "r \<in> set (t_premises d)" "fst r = eh" "snd (snd r) = i"
      by (auto simp: rows)
    then show ?thesis by (intro image_eqI [where x = r]) (auto simp: premise_key_def split_beta)
  qed
  then have "ins_premises eh 0 ps (t_premises d) = t_premises d"
    by (intro ins_premises_present) auto
  then show "t_premises (register_edge_db eh ps c d) = t_premises d"
    by (simp add: register_edge_db_eq)
  have "c \<in> set (t_nodes d)" and "set ps \<subseteq> set (t_nodes d)"
    using ok mem by (auto simp: graph_ok_def list_all_iff ps rows)
  then show "set (t_nodes (register_edge_db eh ps c d)) = set (t_nodes d)"
    by (auto simp: register_edge_db_eq set_fold_ins_nodes insert_or_ignore_id)
qed

lemma connectivity_register_present:
  assumes "graph_ok d" and "connectivity d eh = Some (ps, c)"
  shows "connectivity (register_edge_db eh ps c d) = connectivity d"
  by (simp add: fun_eq_iff connectivity_def rows_of_def register_present [OF assms])

lemma set_nodes_register:
  "set (t_nodes (register_edge_db eh ps c d)) = insert c (set ps) \<union> set (t_nodes d)"
  by (auto simp: register_edge_db_eq set_fold_ins_nodes insert_or_ignore_id)

lemma distinct_nodes_register:
  "graph_ok d \<Longrightarrow> distinct (t_nodes (register_edge_db eh ps c d))"
  by (simp add: register_edge_db_eq distinct_fold_ins_nodes distinct_insert_or_ignore_id graph_ok_def)

lemma graph_ok_register:
  assumes ok: "graph_ok d" and con: "consistent_with d eh ps c"
    and len: "hash34 eh" "hash34 c" "list_all hash34 ps"
  shows "graph_ok (register_edge_db eh ps c d)"
proof -
  have nodes: "list_all hash34 (t_nodes (register_edge_db eh ps c d))"
    using ok len by (auto simp: list_all_iff set_nodes_register graph_ok_def)
  consider "connectivity d eh = None" | "connectivity d eh = Some (ps, c)"
    using con by (auto simp: consistent_with_def)
  then show ?thesis
  proof cases
    case 1
    then have eh: "eh \<notin> fst ` set (t_edges d)" by (simp add: connectivity_None_iff)
    note rows = rows_of_register_fresh [OF ok 1]
    have "map (\<lambda>r. snd (snd r)) (rows_of (register_edge_db eh ps c d) e) =
        [0..<length (rows_of (register_edge_db eh ps c d) e)]"
      if "e = eh \<or> e \<in> fst ` set (t_edges d)" for e
      using ok that positions_of_new_rows [of eh 0 ps] by (auto simp: rows graph_ok_def)
    then show ?thesis
      using ok len eh nodes distinct_nodes_register [OF ok, of eh ps c] in_new_rows [of _ eh 0 ps]
      unfolding graph_ok_def
      by (auto simp: list_all_iff set_nodes_register register_fresh [OF ok 1])
  next
    case 2
    with ok len nodes distinct_nodes_register [OF ok, of eh ps c] show ?thesis
      unfolding graph_ok_def
      by (auto simp: list_all_iff rows_of_def register_present [OF ok 2])
  qed
qed

section \<open>The queries read the represented hypergraph\<close>

lemma map_res_Hash: "list_all hash34 xs \<Longrightarrow> map_res Hash xs = Inr xs"
  using map_res_Inr [of xs Hash id] by (simp add: list_all_iff hash34_def Hash_def HASH_SIZE_def)

lemma get_connectivity_eq:
  assumes "graph_ok (view c)"
  shows "get_connectivity c eh = Inr (connectivity (view c) eh)"
proof (cases "map_of (t_edges (view c)) eh")
  case None
  then show ?thesis by (simp add: get_connectivity_def connectivity_def)
next
  case (Some concl)
  then have "(eh, concl) \<in> set (t_edges (view c))" by (rule map_of_SomeD)
  with assms have "hash34 concl"
    by (auto simp: graph_ok_def list_all_iff)
  moreover have "hash34 (fst (snd r))" if "r \<in> set (rows_of (view c) eh)" for r
    using assms that by (auto simp: graph_ok_def list_all_iff rows_of_def)
  then have "map_res (\<lambda>r. Hash (fst (snd r))) (rows_of (view c) eh) =
      Inr (map (\<lambda>r. fst (snd r)) (rows_of (view c) eh))"
    by (intro map_res_Inr) (simp add: Hash_def HASH_SIZE_def hash34_def)
  ultimately show ?thesis
    using Some
    by (simp add: get_connectivity_def connectivity_def rows_of_def Hash_def HASH_SIZE_def hash34_def)
qed

lemma map_of_edges_iff:
  "graph_ok d \<Longrightarrow> map_of (t_edges d) e = Some n \<longleftrightarrow> (e, n) \<in> set (t_edges d)"
  by (auto simp: graph_ok_def)

lemma incoming_edges_eq:
  assumes "graph_ok (view c)"
  shows "\<exists>es. incoming_edges c n = Inr es \<and> sorted es \<and> distinct es \<and>
           set es = {e. \<exists>ps. connectivity (view c) e = Some (ps, n)}"
proof -
  let ?es = "sort (map fst (filter (\<lambda>r. snd r = n) (t_edges (view c))))"
  have "list_all hash34 ?es" and "distinct ?es"
    using assms sorted_distinct_map_filter [of fst "t_edges (view c)"]
    by (auto simp: graph_ok_def list_all_iff)
  moreover have "set ?es = {e. \<exists>ps. connectivity (view c) e = Some (ps, n)}"
    using map_of_edges_iff [OF assms] by (force simp: connectivity_def)
  ultimately show ?thesis by (auto simp: incoming_edges_def map_res_Hash)
qed

lemma all_edges_eq:
  assumes "graph_ok (view c)"
  shows "\<exists>es. all_edges c = Inr es \<and> sorted es \<and> distinct es \<and>
           set es = dom (connectivity (view c))"
proof -
  let ?es = "sort (map fst (t_edges (view c)))"
  have "list_all hash34 ?es" and "distinct ?es"
    using assms by (auto simp: graph_ok_def list_all_iff)
  moreover have "set ?es = dom (connectivity (view c))"
    by (simp add: connectivity_def dom_def map_of_eq_None_iff set_eq_iff flip: not_None_eq)
  ultimately show ?thesis by (auto simp: all_edges_def map_res_Hash)
qed

lemma all_nodes_eq:
  "graph_ok (view c) \<Longrightarrow> all_nodes c = Inr (sort (t_nodes (view c)))"
  by (simp add: all_nodes_def map_res_Hash graph_ok_def list_all_iff)

section \<open>The contract\<close>

locale hypergraph_index =
  fixes reg :: "'h::linorder \<Rightarrow> 'h list \<Rightarrow> 'h \<Rightarrow> 's \<Rightarrow> 's"
    and conn :: "'s \<Rightarrow> 'h \<Rightarrow> ('h list \<times> 'h) option"
    and incoming :: "'s \<Rightarrow> 'h \<Rightarrow> 'h list res"
    and every :: "'s \<Rightarrow> 'h list res"
    and good :: "'h \<Rightarrow> bool"
    and inv :: "'s \<Rightarrow> bool"
  assumes conn_reg: "inv s \<Longrightarrow> conn s e = None \<or> conn s e = Some (ps, c) \<Longrightarrow>
            conn (reg e ps c s) = (conn s)(e \<mapsto> (ps, c))"
    and inv_reg: "inv s \<Longrightarrow> conn s e = None \<or> conn s e = Some (ps, c) \<Longrightarrow>
            good e \<Longrightarrow> good c \<Longrightarrow> list_all good ps \<Longrightarrow> inv (reg e ps c s)"
    and incoming_of: "inv s \<Longrightarrow> \<exists>es. incoming s n = Inr es \<and> sorted es \<and> distinct es \<and>
            set es = {e. \<exists>ps. conn s e = Some (ps, n)}"
    and every_of: "inv s \<Longrightarrow> \<exists>es. every s = Inr es \<and> sorted es \<and> distinct es \<and>
            set es = dom (conn s)"
begin

lemma in_incoming:
  "inv s \<Longrightarrow> \<exists>es. incoming s n = Inr es \<and> (\<forall>e. e \<in> set es \<longleftrightarrow> (\<exists>ps. conn s e = Some (ps, n)))"
  using incoming_of [of s n] by auto

lemma reg_incoming:
  assumes "inv s" and "conn s e = None \<or> conn s e = Some (ps, c)"
    and "good e" and "good c" and "list_all good ps"
  shows "\<exists>es es'. incoming s n = Inr es \<and> incoming (reg e ps c s) n = Inr es' \<and>
           set es' = (if n = c then insert e (set es) else set es)"
proof -
  obtain es where es: "incoming s n = Inr es"
    "\<And>e. e \<in> set es \<longleftrightarrow> (\<exists>ps. conn s e = Some (ps, n))"
    using in_incoming [OF assms(1)] by blast
  obtain es' where es': "incoming (reg e ps c s) n = Inr es'"
    "\<And>e'. e' \<in> set es' \<longleftrightarrow> (\<exists>ps'. conn (reg e ps c s) e' = Some (ps', n))"
    using in_incoming [OF inv_reg [OF assms]] by blast
  have "set es' = (if n = c then insert e (set es) else set es)"
    using assms(2) by (auto simp: es(2) es'(2) conn_reg [OF assms(1,2)] split: if_splits)
  with es(1) es'(1) show ?thesis by blast
qed

lemma reg_every:
  assumes "inv s" and "conn s e = None \<or> conn s e = Some (ps, c)"
    and "good e" and "good c" and "list_all good ps"
  shows "\<exists>es es'. every s = Inr es \<and> every (reg e ps c s) = Inr es' \<and>
           sorted es' \<and> distinct es' \<and> set es' = insert e (set es)"
proof -
  obtain es where es: "every s = Inr es" "set es = dom (conn s)"
    using every_of [OF assms(1)] by blast
  obtain es' where es': "every (reg e ps c s) = Inr es'" "sorted es'" "distinct es'"
    "set es' = dom (conn (reg e ps c s))"
    using every_of [OF inv_reg [OF assms]] by blast
  have "set es' = insert e (set es)" by (simp add: es(2) es'(4) conn_reg [OF assms(1,2)])
  with es(1) es'(1-3) show ?thesis by blast
qed

end

lemma connectivity_register:
  assumes "graph_ok d" and "connectivity d eh = None \<or> connectivity d eh = Some (ps, c)"
  shows "connectivity (register_edge_db eh ps c d) = (connectivity d)(eh \<mapsto> (ps, c))"
  using assms connectivity_register_fresh [of d eh ps c] connectivity_register_present [of d eh ps c]
  by (auto simp: fun_upd_idem)

interpretation index: hypergraph_index
  "register_edge owns" "\<lambda>c. connectivity (view c)" incoming_edges all_edges hash34
  "\<lambda>c. graph_ok (view c)" for owns
proof (unfold_locales, goal_cases)
  case 1
  then show ?case by (simp add: view_register_edge connectivity_register)
next
  case 2
  then show ?case by (simp add: view_register_edge graph_ok_register consistent_with_def)
next
  case 3
  then show ?case by (rule incoming_edges_eq)
next
  case 4
  then show ?case by (rule all_edges_eq)
qed

section \<open>Properties\<close>

text \<open>C38: registering an edge implements the update of the abstract hypergraph: afterwards the edge has
  exactly the given premises, in order, and conclusion, every other edge is untouched, the tables stay
  well formed, and the incoming edges of a node gain exactly this edge if it is the conclusion.\<close>

theorem register_edge_refines:
  assumes "graph_ok (view c)" and "consistent_with (view c) eh ps concl"
    and "hash34 eh" and "hash34 concl" and "list_all hash34 ps"
  shows "graph_ok (view (register_edge owns eh ps concl c)) \<and>
    (\<forall>e. get_connectivity (register_edge owns eh ps concl c) e =
           Inr (((connectivity (view c))(eh \<mapsto> (ps, concl))) e)) \<and>
    (\<forall>n. \<exists>es es'. incoming_edges c n = Inr es \<and>
           incoming_edges (register_edge owns eh ps concl c) n = Inr es' \<and>
           set es' = (if n = concl then insert eh (set es) else set es))"
proof -
  have old: "connectivity (view c) eh = None \<or> connectivity (view c) eh = Some (ps, concl)"
    using assms(2) by (simp add: consistent_with_def)
  note ok = index.inv_reg [OF assms(1) old assms(3-5), of owns]
  show ?thesis
    using ok index.reg_incoming [OF assms(1) old assms(3-5), of _ owns]
      index.conn_reg [OF assms(1) old, of owns]
    by (simp add: get_connectivity_eq)
qed

definition sample_hash :: "byte \<Rightarrow> hash" where
  "sample_hash b = [BLAKE3_CODE, BLAKE3_LEN] @ replicate 31 0 @ [b]"

lemma hash34_sample [simp]: "hash34 (sample_hash b)"
  by (simp add: hash34_def sample_hash_def)

lemma graph_ok_empty [simp]: "graph_ok empty_db"
  by (simp add: graph_ok_def empty_db_def)

lemma view_connect [simp]: "view (connect auto None) = empty_db"
  by (simp add: view_def connect_def open_db_def)

theorem register_edge_refines_witness:
  "graph_ok (view (register_edge True (sample_hash 9) [sample_hash 1, sample_hash 2] (sample_hash 3)
      (connect False None))) \<and>
   (\<forall>e. get_connectivity (register_edge True (sample_hash 9) [sample_hash 1, sample_hash 2]
            (sample_hash 3) (connect False None)) e =
          Inr (((connectivity empty_db)(sample_hash 9 \<mapsto>
            ([sample_hash 1, sample_hash 2], sample_hash 3))) e)) \<and>
   (\<forall>n. \<exists>es es'. incoming_edges (connect False None) n = Inr es \<and>
          incoming_edges (register_edge True (sample_hash 9) [sample_hash 1, sample_hash 2]
            (sample_hash 3) (connect False None)) n = Inr es' \<and>
          set es' = (if n = sample_hash 3 then insert (sample_hash 9) (set es) else set es))"
proof -
  have ok: "graph_ok (view (connect False None))" by simp
  have con: "consistent_with (view (connect False None)) (sample_hash 9)
      [sample_hash 1, sample_hash 2] (sample_hash 3)"
    by (simp add: consistent_with_def connectivity_def empty_db_def)
  show ?thesis
    using register_edge_refines [OF ok con, of True] unfolding view_connect by simp
qed

text \<open>The outgoing edges of a node come back in order, and an edge is listed once for every position
  at which the node is one of its premises, so a repeated premise repeats the edge.\<close>

theorem outgoing_edges_multiplicity:
  assumes "graph_ok (view c)"
  shows "\<exists>es. outgoing_edges c n = Inr es \<and> sorted es \<and>
           (\<forall>e. count_list es e =
              (case connectivity (view c) e of None \<Rightarrow> 0 | Some (ps, _) \<Rightarrow> count_list ps n))"
proof -
  let ?d = "view c"
  let ?es = "sort (map fst (filter (\<lambda>r. fst (snd r) = n) (t_premises ?d)))"
  have "list_all hash34 ?es" using assms by (force simp: graph_ok_def list_all_iff)
  then have "outgoing_edges c n = Inr ?es" by (simp add: outgoing_edges_def map_res_Hash)
  moreover have "count_list ?es e =
      (case connectivity ?d e of None \<Rightarrow> 0 | Some (ps, _) \<Rightarrow> count_list ps n)" for e
  proof (cases "connectivity ?d e")
    case None
    with graph_ok_rows_of_absent [OF assms] have "e \<notin> set ?es"
      by (auto simp: connectivity_None_iff filter_empty_conv)
    with None show ?thesis by simp
  next
    case (Some a)
    then obtain concl where a: "a = (map (\<lambda>r. fst (snd r)) (rows_of ?d e), concl)"
      by (auto simp: connectivity_def)
    have "count_list (map (\<lambda>r. fst (snd r)) (rows_of ?d e)) n =
        length (filter (\<lambda>r. fst (snd r) = n) (rows_of ?d e))"
      using count_list_map_filter [of "\<lambda>r. fst (snd r)" "\<lambda>r. True" "rows_of ?d e" n] by simp
    also have "\<dots> = length (filter (\<lambda>r. fst (snd r) = n \<and> fst r = e) (t_premises ?d))"
      by (simp add: rows_of_def filter_sort conj_commute)
    finally show ?thesis using Some a by (simp add: count_list_map_filter)
  qed
  ultimately show ?thesis by auto
qed

theorem outgoing_edges_multiplicity_witness:
  "\<exists>es. outgoing_edges (connect False None) (sample_hash 1) = Inr es \<and> sorted es \<and>
     (\<forall>e. count_list es e =
        (case connectivity empty_db e of None \<Rightarrow> 0
         | Some (ps, _) \<Rightarrow> count_list ps (sample_hash 1)))"
  using outgoing_edges_multiplicity [of "connect False None" "sample_hash 1"] by simp

end
