(* ===== verification/Serialization.thy ===== *)
theory Serialization
  imports Hashing "HOL-Library.AList"
begin

text \<open>
  \<^verbatim>\<open>storage/serialization.py\<close>: the canonical form of a Python value (tuples become lists, sets become
  lists sorted by the encoding of their elements) and the canonical encoder and decoder around the
  CBOR codec.
\<close>

section \<open>Definitions\<close>

definition sort_key_of :: "env \<Rightarrow> pyval \<Rightarrow> bytes" where
  "sort_key_of E x = cbor_dumps E x"

text \<open>
  A list or a dict cannot be a dict key: Python raises \<open>TypeError\<close> (unhashable type). A set in such
  a place is a frozenset, which can.
\<close>

fun hashable :: "pyval \<Rightarrow> bool" where
  "hashable (PList _) = False"
| "hashable (PDict _) = False"
| "hashable (PSet _) = True"
| "hashable (PTuple xs) = list_all hashable xs"
| "hashable _ = True"

text \<open>Building a dict from its items: a later item with the same key replaces the value in place.\<close>

definition dict_of_items :: "(pyval \<times> pyval) list \<Rightarrow> (pyval \<times> pyval) list" where
  "dict_of_items items = fold (\<lambda>(k, v). AList.update k v) items []"

lemma map_res_cong [fundef_cong]:
  "xs = ys \<Longrightarrow> (\<And>x. x \<in> set ys \<Longrightarrow> f x = g x) \<Longrightarrow> map_res f xs = map_res g ys"
  by (induction xs arbitrary: ys) auto

lemma and_then_cong [fundef_cong]:
  "r = s \<Longrightarrow> (\<And>a. s = Inr a \<Longrightarrow> f a = g a) \<Longrightarrow> and_then r f = and_then s g"
  by (cases s) auto

function canonicalize :: "env \<Rightarrow> pyval \<Rightarrow> pyval res" where
  "canonicalize E (PDict d) =
     and_then
       (map_res (\<lambda>(k, v).
          and_then (canonicalize E k) (\<lambda>k'.
          and_then (canonicalize E v) (\<lambda>v'.
            if hashable k' then Inr (k', v') else Inl TypeError))) d)
       (\<lambda>items. Inr (PDict (dict_of_items items)))"
| "canonicalize E (PList xs) = and_then (map_res (canonicalize E) xs) (\<lambda>ys. Inr (PList ys))"
| "canonicalize E (PTuple xs) = and_then (map_res (canonicalize E) xs) (\<lambda>ys. Inr (PList ys))"
| "canonicalize E (PSet xs) =
     and_then (map_res (canonicalize E) xs) (\<lambda>ys. Inr (PList (sort_key (sort_key_of E) ys)))"
| "canonicalize E (PBytes b) = Inr (PBytes b)"
| "canonicalize E PNone = Inr PNone"
| "canonicalize E (PBool b) = Inr (PBool b)"
| "canonicalize E (PInt i) = Inr (PInt i)"
| "canonicalize E (PFloat f) = Inr (PFloat f)"
| "canonicalize E (PStr s) = Inr (PStr s)"
  by pat_completeness auto
termination
proof (relation "measure (\<lambda>(E, v). size v)", goal_cases)
  case (2 E d p k v)
  then show ?case by (induction d) auto
next
  case (3 E d p k v k')
  then have "(k, v) \<in> set d" by simp
  from size_map_of_pair [OF this] show ?case by simp
qed (auto simp: less_Suc_eq_le size_list_estimation')

definition canonical_encode :: "env \<Rightarrow> pyval \<Rightarrow> bytes res" where
  "canonical_encode E obj = and_then (canonicalize E obj) (\<lambda>w. Inr (cbor_dumps E w))"

definition canonical_decode :: "env \<Rightarrow> bytes \<Rightarrow> pyval res" where
  "canonical_decode E data = cbor_loads E data"

section \<open>Values in canonical form\<close>

text \<open>The Python values that can occur: dict keys and set elements are hashable, keys distinct.\<close>

fun wf_pyval :: "pyval \<Rightarrow> bool" where
  "wf_pyval (PList xs) = list_all wf_pyval xs"
| "wf_pyval (PTuple xs) = list_all wf_pyval xs"
| "wf_pyval (PSet xs) = (list_all hashable xs \<and> list_all wf_pyval xs)"
| "wf_pyval (PDict d) =
     (distinct (map fst d) \<and> list_all (\<lambda>p. hashable (fst p) \<and> wf_pyval (fst p) \<and> wf_pyval (snd p)) d)"
| "wf_pyval _ = True"

lemma distinct_update: "distinct (map fst d) \<Longrightarrow> distinct (map fst (AList.update k v d))"
  by (rule distinct_update)

lemma fold_update_distinct:
  "distinct (map fst d) \<Longrightarrow> distinct (map fst (fold (\<lambda>(k, v). AList.update k v) items d))"
  by (induction items arbitrary: d) (auto simp: distinct_update)

lemma distinct_dict_of_items: "distinct (map fst (dict_of_items items))"
  by (simp add: dict_of_items_def fold_update_distinct)

lemma set_update_subset: "set (AList.update k v d) \<subseteq> insert (k, v) (set d)"
  by (induction d) auto

lemma set_fold_update_subset:
  "set (fold (\<lambda>(k, v). AList.update k v) items d) \<subseteq> set items \<union> set d"
proof (induction items arbitrary: d)
  case (Cons p items)
  obtain k v where p: "p = (k, v)" by (cases p)
  from Cons.IH [of "AList.update k v d"] set_update_subset [of k v d]
  show ?case unfolding p by auto
qed simp

lemma set_dict_of_items: "set (dict_of_items items) \<subseteq> set items"
  using set_fold_update_subset [of items "[]"] by (simp add: dict_of_items_def)

lemma fold_update_append:
  "distinct (map fst items) \<Longrightarrow> fst ` set items \<inter> fst ` set d = {} \<Longrightarrow>
   fold (\<lambda>(k, v). AList.update k v) items d = d @ items"
proof (induction items arbitrary: d)
  case (Cons p items)
  obtain k v where p: "p = (k, v)" by (cases p)
  have "AList.update k v d = d @ [(k, v)]"
    using Cons.prems(2) unfolding p
    by (induction d) (auto simp: image_iff)
  with Cons show ?case unfolding p by auto
qed simp

lemma dict_of_items_distinct: "distinct (map fst items) \<Longrightarrow> dict_of_items items = items"
  using fold_update_append [of items "[]"] by (simp add: dict_of_items_def)

lemma canonicalize_scalar: "scalar v \<Longrightarrow> canonicalize E v = Inr v"
  by (cases v) auto

lemma canonicalize_scalars:
  "list_all scalar xs \<Longrightarrow> canonicalize E (PList xs) = Inr (PList xs)"
  using map_res_Inr [of xs "canonicalize E" id]
  by (simp add: canonicalize_scalar list_all_iff)

text \<open>Whatever \<open>_canonicalize\<close> returns can be encoded: no tuple or set is left, keys are scalar.\<close>

lemma hashable_encodable_scalar: "hashable v \<Longrightarrow> encodable v \<Longrightarrow> scalar v"
  by (cases v) auto

lemma canonicalize_encodable: "canonicalize E v = Inr w \<Longrightarrow> encodable w"
proof (induction E v arbitrary: w rule: canonicalize.induct)
  case (1 E d)
  then obtain items where w: "w = PDict (dict_of_items items)"
    and items: "list_all2 (\<lambda>x y. (case x of (k, v) \<Rightarrow>
          and_then (canonicalize E k) (\<lambda>k'. and_then (canonicalize E v) (\<lambda>v'.
            if hashable k' then Inr (k', v') else Inl TypeError))) = Inr y) d items"
    by (auto simp: and_then_eq_Inr map_res_eq_Inr_iff)
  have "scalar (fst q) \<and> encodable (snd q)" if q: "q \<in> set items" for q
  proof -
    from q obtain i where i: "i < length items" "q = items ! i" by (auto simp: in_set_conv_nth)
    with items have len: "i < length d" by (simp add: list_all2_lengthD)
    obtain k v where kv: "d ! i = (k, v)" by (cases "d ! i")
    with len have mem: "(k, v) \<in> set d" by (metis nth_mem)
    from list_all2_nthD [OF items len] kv i
    obtain k' v' where "canonicalize E k = Inr k'" "canonicalize E v = Inr v'"
      "hashable k'" "q = (k', v')"
      by (auto simp: and_then_eq_Inr split: if_splits)
    with "1.IH"(1) [OF mem refl] "1.IH"(2) [OF mem refl] show ?thesis
      by (auto intro: hashable_encodable_scalar)
  qed
  then show ?case
    using set_dict_of_items [of items]
    by (auto simp: w list_all_iff distinct_dict_of_items)
next
  case (2 E xs)
  then show ?case
    by (fastforce simp: and_then_eq_Inr map_res_eq_Inr_iff list_all_iff list_all2_conv_all_nth
        in_set_conv_nth)
next
  case (3 E xs)
  then show ?case
    by (fastforce simp: and_then_eq_Inr map_res_eq_Inr_iff list_all_iff list_all2_conv_all_nth
        in_set_conv_nth)
next
  case (4 E xs)
  then show ?case
    by (fastforce simp: and_then_eq_Inr map_res_eq_Inr_iff list_all_iff list_all2_conv_all_nth
        in_set_conv_nth)
qed auto

section \<open>Properties of the encoder\<close>

text \<open>Decoding a canonical encoding gives back the canonical form of the encoded value, up to the
  order in which a dict lists its items.\<close>

theorem canonical_roundtrip:
  assumes "cbor_spec E" and "canonical_encode E v = Inr bs"
  shows "\<exists>w u. canonicalize E v = Inr w \<and> canonical_decode E bs = Inr u \<and> py_eq w u"
proof -
  from assms(2) obtain w where w: "canonicalize E v = Inr w" and bs: "bs = cbor_dumps E w"
    by (auto simp: canonical_encode_def and_then_eq_Inr)
  from cbor_specD [OF assms(1) canonicalize_encodable [OF w]] w bs show ?thesis
    by (auto simp: canonical_decode_def)
qed

lemma sort_key_mset_inj:
  assumes "inj_on f (set ys)" and "mset xs = mset ys"
  shows "sort_key f ys = sort_key f xs"
proof (rule properties_for_sort_key)
  fix k
  assume "k \<in> set (sort_key f xs)"
  then have k: "k \<in> set ys" using mset_eq_setD [OF assms(2)] by simp
  have eq: "filter (\<lambda>x. f k = f x) zs = filter (HOL.eq k) zs" if "set zs = set ys" for zs
    by (rule filter_cong [OF refl]) (use k that inj_on_eq_iff [OF assms(1), of k] in blast)
  have "filter (HOL.eq k) (sort_key f xs) = filter (HOL.eq k) ys"
    by (metis assms(2) mset_sort replicate_count_mset_eq_filter_eq)
  moreover have "set (sort_key f xs) = set ys" using mset_eq_setD [OF assms(2)] by simp
  ultimately show "filter (\<lambda>x. f k = f x) (sort_key f xs) = filter (\<lambda>x. f k = f x) ys"
    by (simp add: eq)
qed (use assms(2) in simp_all)

lemma cbor_dumps_scalar_inj:
  assumes "cbor_spec E" and "scalar v" and "scalar w" and "cbor_dumps E v = cbor_dumps E w"
  shows "v = w"
proof -
  have "encodable v" "encodable w" using assms(2,3) by (cases v; simp; cases w; simp)+
  with assms(1,4) obtain u where "py_eq v u" "py_eq w u"
    by (metis cbor_specD sum.inject(2))
  with assms(2,3) show ?thesis by (simp add: py_eq_scalar)
qed

theorem canonical_roundtrip_witness:
  "\<exists>w u. canonicalize ref_env (PDict [(PStr (str ''k''), PTuple [PInt 1, PNone])]) = Inr w \<and>
         canonical_decode ref_env
           (enc (PDict [(PStr (str ''k''), PList [PInt 1, PNone])])) = Inr u \<and> py_eq w u"
  by (rule canonical_roundtrip [OF ref_env_cbor])
    (simp add: canonical_encode_def dict_of_items_def)

text \<open>A set of scalars is encoded to the same bytes whatever order its elements are iterated in.\<close>

theorem canonical_encode_set_order:
  assumes "cbor_spec E" and "list_all scalar xs" and "mset xs = mset ys"
  shows "canonical_encode E (PSet xs) = canonical_encode E (PSet ys)"
proof -
  have ys: "list_all scalar ys" and set: "set xs = set ys"
    using assms(2,3) by (auto simp: list_all_iff dest: mset_eq_setD)
  have inj: "inj_on (sort_key_of E) (set ys)"
    using cbor_dumps_scalar_inj [OF assms(1)] ys
    by (auto simp: inj_on_def sort_key_of_def list_all_iff)
  have "sort_key (sort_key_of E) ys = sort_key (sort_key_of E) xs"
    by (rule sort_key_mset_inj [OF inj]) (simp add: assms(3))
  moreover have "map_res (canonicalize E) zs = Inr zs" if "list_all scalar zs" for zs
    using that by (induction zs) (auto simp: canonicalize_scalar)
  ultimately show ?thesis using assms(2) ys by (simp add: canonical_encode_def)
qed

theorem canonical_encode_set_order_witness:
  "canonical_encode ref_env (PSet [PInt 1, PStr (str ''b''), PInt 3]) =
     canonical_encode ref_env (PSet [PInt 3, PInt 1, PStr (str ''b'')])"
  by (rule canonical_encode_set_order [OF ref_env_cbor]) simp_all

end
