(* ===== verification/Append_Log.thy ===== *)
theory Append_Log
  imports Graph_Index Serialization
begin

text \<open>
  \<^verbatim>\<open>storage/append_log.py\<close>: the signed, hash-chained log table. \<open>log_append\<close> reads the row count and
  the previous entry hash, signs the canonical encoding of the entry's metadata and inserts the row;
  \<open>chain\<close> is the invariant of the table and \<open>signed_log\<close> the contract of the append operation.
\<close>

section \<open>Definitions\<close>

definition GENESIS_PREV_HASH :: bytes where
  "GENESIS_PREV_HASH = replicate 34 0"

definition signature_message :: "env \<Rightarrow> int \<Rightarrow> int \<Rightarrow> bytes \<Rightarrow> hash \<Rightarrow> hash \<Rightarrow> bytes res" where
  "signature_message E seq timestamp_ns signer_pubkey entry_hash prev_log_hash =
     canonical_encode E
       (PList [PInt seq, PInt timestamp_ns, PBytes signer_pubkey, PBytes entry_hash,
               PBytes prev_log_hash])"

definition select_row :: "db \<Rightarrow> int \<Rightarrow> log_entry option" where
  "select_row d seq = find (\<lambda>r. le_seq r = seq) (t_log d)"

definition prev_hash :: "db \<Rightarrow> int \<Rightarrow> hash res" where
  "prev_hash d seq =
     (if seq = 0 then Hash GENESIS_PREV_HASH
      else case select_row d (seq - 1) of
             None \<Rightarrow> Inl TypeError
           | Some row \<Rightarrow> Hash (le_entry_hash row))"

definition log_len :: "db conn \<Rightarrow> int" where
  "log_len c = int (length (t_log (view c)))"

text \<open>The entry \<open>append\<close> is about to insert, or the exception raised while computing it.\<close>

definition new_entry :: "env \<Rightarrow> bytes \<Rightarrow> bytes \<Rightarrow> int \<Rightarrow> bytes \<Rightarrow> db \<Rightarrow> log_entry res" where
  "new_entry E priv_key pub_key now entry d =
     (let seq = int (length (t_log d)); entry_hash = hash_bytes E entry in
      and_then (prev_hash d seq) (\<lambda>prev_log_hash.
      and_then (signature_message E seq now pub_key entry_hash prev_log_hash) (\<lambda>message.
      and_then (sign E priv_key message) (\<lambda>signature.
        Inr \<lparr> le_seq = seq, le_timestamp_ns = now, le_signer_pubkey = pub_key,
              le_entry_hash = entry_hash, le_prev_log_hash = prev_log_hash,
              le_signature = signature, le_payload = entry \<rparr>))))"

definition ins_log :: "log_entry \<Rightarrow> db \<Rightarrow> db" where
  "ins_log r d = d\<lparr>t_log := t_log d @ [r]\<rparr>"

definition log_append ::
    "bool \<Rightarrow> env \<Rightarrow> bytes \<Rightarrow> bytes \<Rightarrow> int \<Rightarrow> bytes \<Rightarrow> db conn \<Rightarrow> db conn \<times> log_entry res" where
  "log_append owns E priv_key pub_key now entry c =
     (case new_entry E priv_key pub_key now entry (view c) of
        Inl e \<Rightarrow> (c, Inl e)
      | Inr r \<Rightarrow>
          if select_row (view c) (le_seq r) \<noteq> None then (exec_dml id c, Inl IntegrityError)
          else (commit_if_owned owns (exec_dml (ins_log r) c), Inr r))"

definition log_get :: "db conn \<Rightarrow> int \<Rightarrow> log_entry option res" where
  "log_get c seq =
     (case select_row (view c) seq of
        None \<Rightarrow> Inr None
      | Some row \<Rightarrow>
          and_then (Hash (le_entry_hash row)) (\<lambda>eh.
          and_then (Hash (le_prev_log_hash row)) (\<lambda>ph.
            Inr (Some (row\<lparr>le_entry_hash := eh, le_prev_log_hash := ph\<rparr>)))))"

definition entry_hashes :: "db conn \<Rightarrow> hash list res" where
  "entry_hashes c = map_res (\<lambda>r. Hash (le_entry_hash r)) (sort_key le_seq (t_log (view c)))"

definition log_root_hash :: "env \<Rightarrow> db conn \<Rightarrow> hash res" where
  "log_root_hash E c = and_then (entry_hashes c) (\<lambda>hs. Inr (root_hash E hs))"

definition get_inclusion_proof :: "env \<Rightarrow> db conn \<Rightarrow> int \<Rightarrow> inclusion res" where
  "get_inclusion_proof E c seq =
     and_then (entry_hashes c) (\<lambda>hashes.
       if seq < 0 \<or> int (length hashes) \<le> seq then Inl IndexError
       else inclusion_proof E hashes seq)"

definition verify_entry :: "env \<Rightarrow> log_entry \<Rightarrow> bool res" where
  "verify_entry E entry =
     (if hash_bytes E (le_payload entry) \<noteq> le_entry_hash entry then Inr False
      else
        and_then
          (signature_message E (le_seq entry) (le_timestamp_ns entry) (le_signer_pubkey entry)
             (le_entry_hash entry) (le_prev_log_hash entry))
          (\<lambda>message. verify_sig E (le_signer_pubkey entry) message (le_signature entry)))"

section \<open>The chain invariant\<close>

fun chain :: "env \<Rightarrow> int \<Rightarrow> hash \<Rightarrow> log_entry list \<Rightarrow> bool" where
  "chain E n prev [] = True"
| "chain E n prev (r # rs) =
     (le_seq r = n \<and> le_prev_log_hash r = prev \<and> verify_entry E r = Inr True \<and>
      chain E (n + 1) (le_entry_hash r) rs)"

definition log_ok :: "env \<Rightarrow> db \<Rightarrow> bool" where
  "log_ok E d \<longleftrightarrow> chain E 0 GENESIS_PREV_HASH (t_log d)"

definition last_hash :: "log_entry list \<Rightarrow> hash" where
  "last_hash rs = (if rs = [] then GENESIS_PREV_HASH else le_entry_hash (last rs))"

lemma signature_message_ok:
  "signature_message E s t pk eh ph =
     Inr (cbor_dumps E (PList [PInt s, PInt t, PBytes pk, PBytes eh, PBytes ph]))"
  by (simp add: signature_message_def canonical_encode_def)

lemma verify_entry_hash: "verify_entry E r = Inr True \<Longrightarrow> le_entry_hash r = hash_bytes E (le_payload r)"
  by (simp add: verify_entry_def split: if_splits)

lemma chain_append:
  "chain E n prev (xs @ ys) \<longleftrightarrow>
     chain E n prev xs \<and>
     chain E (n + int (length xs)) (if xs = [] then prev else le_entry_hash (last xs)) ys"
  by (induction xs arbitrary: n prev) (auto simp: algebra_simps)

lemma chain_nth:
  "chain E n prev rs \<Longrightarrow> i < length rs \<Longrightarrow>
     le_seq (rs ! i) = n + int i \<and> verify_entry E (rs ! i) = Inr True \<and>
     le_prev_log_hash (rs ! i) = (if i = 0 then prev else le_entry_hash (rs ! (i - 1)))"
proof (induction rs arbitrary: n prev i)
  case (Cons r rs)
  show ?case
  proof (cases i)
    case 0
    with Cons.prems show ?thesis by simp
  next
    case (Suc j)
    with Cons.IH [of "n + 1" "le_entry_hash r" j] Cons.prems show ?thesis
      by (cases j) auto
  qed
qed simp

lemma log_ok_entry:
  "log_ok E d \<Longrightarrow> r \<in> set (t_log d) \<Longrightarrow> verify_entry E r = Inr True"
  unfolding log_ok_def by (metis chain_nth in_set_conv_nth)

lemma log_ok_seq: "log_ok E d \<Longrightarrow> i < length (t_log d) \<Longrightarrow> le_seq (t_log d ! i) = int i"
  unfolding log_ok_def using chain_nth [of E 0 GENESIS_PREV_HASH "t_log d" i] by simp

lemma log_ok_hash34:
  assumes "blake3_spec E" and "log_ok E d" and "i < length (t_log d)"
  shows "length (le_entry_hash (t_log d ! i)) = 34" and "length (le_prev_log_hash (t_log d ! i)) = 34"
proof -
  have eh: "length (le_entry_hash (t_log d ! j)) = 34" if "j < length (t_log d)" for j
    using log_ok_entry [OF assms(2) nth_mem [OF that]] assms(1)
    by (simp add: verify_entry_hash length_hash_bytes)
  from eh assms(3) show "length (le_entry_hash (t_log d ! i)) = 34" .
  from chain_nth [OF assms(2) [unfolded log_ok_def] assms(3)] eh assms(3)
  show "length (le_prev_log_hash (t_log d ! i)) = 34"
    by (auto simp: GENESIS_PREV_HASH_def split: if_splits)
qed

lemma select_row_nth:
  assumes "log_ok E d"
  shows "select_row d seq =
           (if 0 \<le> seq \<and> seq < int (length (t_log d)) then Some (t_log d ! nat seq) else None)"
proof (cases "0 \<le> seq \<and> seq < int (length (t_log d))")
  case True
  then have i: "nat seq < length (t_log d)" by auto
  have "find (\<lambda>r. le_seq r = seq) (t_log d) = Some (t_log d ! nat seq)"
    unfolding find_Some_iff
    using i True log_ok_seq [OF assms] by (intro exI [of _ "nat seq"]) auto
  with True show ?thesis by (simp add: select_row_def)
next
  case False
  have "\<not> (\<exists>r. r \<in> set (t_log d) \<and> le_seq r = seq)"
    using False log_ok_seq [OF assms] by (auto simp: in_set_conv_nth)
  with False show ?thesis by (auto simp: select_row_def find_None_iff)
qed

lemma sort_log: "log_ok E d \<Longrightarrow> sort_key le_seq (t_log d) = t_log d"
  by (rule sort_key_id_if_sorted) (auto simp: sorted_iff_nth_mono log_ok_seq)

lemma entry_hashes_eq:
  assumes "blake3_spec E" and "log_ok E (view c)"
  shows "entry_hashes c = Inr (map (\<lambda>r. hash_bytes E (le_payload r)) (t_log (view c)))"
proof -
  have "map_res (\<lambda>r. Hash (le_entry_hash r)) (t_log (view c)) =
      Inr (map (\<lambda>r. hash_bytes E (le_payload r)) (t_log (view c)))"
    by (rule map_res_Inr)
      (use log_ok_entry [OF assms(2)] Hash_hash_bytes [OF assms(1)] verify_entry_hash in metis)
  then show ?thesis by (simp add: entry_hashes_def sort_log [OF assms(2)])
qed

lemma log_get_eq:
  assumes "blake3_spec E" and "log_ok E (view c)"
  shows "log_get c seq =
     Inr (if 0 \<le> seq \<and> seq < int (length (t_log (view c)))
          then Some (t_log (view c) ! nat seq) else None)"
proof (cases "0 \<le> seq \<and> seq < int (length (t_log (view c)))")
  case True
  then have "nat seq < length (t_log (view c))" by linarith
  from log_ok_hash34 [OF assms this] True show ?thesis
    by (simp add: log_get_def select_row_nth [OF assms(2)] Hash_def HASH_SIZE_def)
qed (auto simp: log_get_def select_row_nth [OF assms(2)])

section \<open>Appending\<close>

lemma prev_hash_eq:
  assumes "blake3_spec E" and "log_ok E d"
  shows "prev_hash d (int (length (t_log d))) = Inr (last_hash (t_log d))"
proof (cases "t_log d = []")
  case True
  then show ?thesis
    by (simp add: prev_hash_def last_hash_def Hash_def HASH_SIZE_def GENESIS_PREV_HASH_def)
next
  case False
  then have i: "length (t_log d) - 1 < length (t_log d)" by simp
  have "nat (int (length (t_log d)) - 1) = length (t_log d) - 1" by simp
  with False log_ok_hash34(1) [OF assms i] show ?thesis
    by (simp add: prev_hash_def last_hash_def select_row_nth [OF assms(2)] Hash_def HASH_SIZE_def
        last_conv_nth)
qed

lemma new_entry_ok:
  assumes "blake3_spec E" and "ed25519_spec E" and "length priv = 32" and "log_ok E d"
  obtains r where "new_entry E priv (ed_public E priv) now entry d = Inr r"
    and "le_seq r = int (length (t_log d))" and "le_prev_log_hash r = last_hash (t_log d)"
    and "le_payload r = entry" and "le_entry_hash r = hash_bytes E entry"
    and "le_signer_pubkey r = ed_public E priv" and "le_timestamp_ns r = now"
    and "verify_entry E r = Inr True"
proof -
  let ?n = "int (length (t_log d))"
  let ?m = "cbor_dumps E (PList [PInt ?n, PInt now, PBytes (ed_public E priv),
      PBytes (hash_bytes E entry), PBytes (last_hash (t_log d))])"
  let ?r = "\<lparr> le_seq = ?n, le_timestamp_ns = now, le_signer_pubkey = ed_public E priv,
      le_entry_hash = hash_bytes E entry, le_prev_log_hash = last_hash (t_log d),
      le_signature = ed_sign E priv ?m, le_payload = entry \<rparr>"
  have "new_entry E priv (ed_public E priv) now entry d = Inr ?r"
    using assms by (simp add: new_entry_def Let_def prev_hash_eq signature_message_ok sign_def key_sizes)
  moreover have "verify_entry E ?r = Inr True"
    using ed25519_specD [OF assms(2,3)]
    by (simp add: verify_entry_def signature_message_ok verify_sig_True_iff)
  ultimately show ?thesis using that [of ?r] by simp
qed

lemma log_append_ok:
  assumes "blake3_spec E" and "ed25519_spec E" and "length priv = 32" and "log_ok E (view c)"
  obtains r where "log_append owns E priv (ed_public E priv) now entry c =
      (commit_if_owned owns (exec_dml (ins_log r) c), Inr r)"
    and "new_entry E priv (ed_public E priv) now entry (view c) = Inr r"
    and "le_payload r = entry" and "le_entry_hash r = hash_bytes E entry"
    and "le_signer_pubkey r = ed_public E priv" and "le_seq r = int (length (t_log (view c)))"
    and "verify_entry E r = Inr True" and "log_ok E (ins_log r (view c))"
proof -
  from new_entry_ok [OF assms] obtain r where
    r: "new_entry E priv (ed_public E priv) now entry (view c) = Inr r"
    and f: "le_seq r = int (length (t_log (view c)))"
      "le_prev_log_hash r = last_hash (t_log (view c))" "le_payload r = entry"
      "le_entry_hash r = hash_bytes E entry" "le_signer_pubkey r = ed_public E priv"
      "verify_entry E r = Inr True"
    by metis
  have "log_append owns E priv (ed_public E priv) now entry c =
      (commit_if_owned owns (exec_dml (ins_log r) c), Inr r)"
    by (simp add: log_append_def r f(1) select_row_nth [OF assms(4)])
  moreover have "log_ok E (ins_log r (view c))"
    using assms(4) f by (simp add: log_ok_def ins_log_def chain_append last_hash_def)
  ultimately show ?thesis using that r f by blast
qed

section \<open>The contract\<close>

locale signed_log =
  fixes app :: "int \<Rightarrow> bytes \<Rightarrow> 's \<Rightarrow> 's \<times> 'e res"
    and entries :: "'s \<Rightarrow> 'e list"
    and payload :: "'e \<Rightarrow> bytes"
    and inv :: "'s \<Rightarrow> bool"
  assumes app_ok: "inv s \<Longrightarrow> \<exists>s' r. app now x s = (s', Inr r) \<and> entries s' = entries s @ [r] \<and>
            payload r = x \<and> inv s'"
begin

lemma app_prefix:
  assumes "inv s" and "app now x s = (s', res)"
  shows "\<exists>r. res = Inr r \<and> entries s' = entries s @ [r] \<and> payload r = x \<and> inv s'"
  using app_ok [OF assms(1), of now x] assms(2) by auto

lemma app_many:
  assumes "inv s"
  shows "inv (fold (\<lambda>(now, x) s. fst (app now x s)) ops s) \<and>
     (\<exists>rs. entries (fold (\<lambda>(now, x) s. fst (app now x s)) ops s) = entries s @ rs \<and>
           map payload rs = map snd ops)"
  using assms
proof (induction ops arbitrary: s)
  case (Cons op ops)
  obtain now x where op: "op = (now, x)" by (cases op)
  from app_ok [OF Cons.prems, of now x] obtain s' r where
    app: "app now x s = (s', Inr r)" and s': "entries s' = entries s @ [r]" "payload r = x" "inv s'"
    by blast
  from Cons.IH [OF s'(3)] obtain rs where
    "entries (fold (\<lambda>(now, x) s. fst (app now x s)) ops s') = entries s' @ rs"
    "map payload rs = map snd ops" and "inv (fold (\<lambda>(now, x) s. fst (app now x s)) ops s')"
    by blast
  with app s' show ?case by (auto simp: op intro!: exI [of _ "r # rs"])
qed simp

end

interpretation alog: signed_log
  "log_append owns E priv (ed_public E priv)" "\<lambda>c. t_log (view c)" le_payload
  "\<lambda>c. blake3_spec E \<and> ed25519_spec E \<and> length priv = 32 \<and> log_ok E (view c)"
  for owns :: bool and E :: env and priv :: bytes
proof
  fix now x s
  assume a: "blake3_spec E \<and> ed25519_spec E \<and> length priv = 32 \<and> log_ok E (view s)"
  then obtain r where "log_append owns E priv (ed_public E priv) now x s =
      (commit_if_owned owns (exec_dml (ins_log r) s), Inr r)"
    and "le_payload r = x" and "log_ok E (ins_log r (view s))"
    by (elim conjE log_append_ok [of E priv s owns now x])
  with a show "\<exists>s' r. log_append owns E priv (ed_public E priv) now x s = (s', Inr r) \<and>
      t_log (view s') = t_log (view s) @ [r] \<and> le_payload r = x \<and>
      blake3_spec E \<and> ed25519_spec E \<and> length priv = 32 \<and> log_ok E (view s')"
    by (simp add: commit_if_owned_def conn_simps ins_log_def)
qed

section \<open>Properties\<close>

lemma log_ok_empty [simp]: "log_ok E empty_db"
  by (simp add: log_ok_def empty_db_def)

definition append_run ::
    "bool \<Rightarrow> env \<Rightarrow> bytes \<Rightarrow> (int \<times> bytes) list \<Rightarrow> db conn \<Rightarrow> db conn" where
  "append_run owns E priv ops c =
     fold (\<lambda>(now, x) c. fst (log_append owns E priv (ed_public E priv) now x c)) ops c"

lemma append_run_ok:
  assumes "blake3_spec E" and "ed25519_spec E" and "length priv = 32"
  shows "log_ok E (view (append_run owns E priv ops (connect auto None)))"
    and "map le_payload (t_log (view (append_run owns E priv ops (connect auto None)))) = map snd ops"
proof -
  have "t_log empty_db = []" by (simp add: empty_db_def)
  with alog.app_many [of E priv "connect auto None" owns ops] assms
  show "log_ok E (view (append_run owns E priv ops (connect auto None)))"
    and "map le_payload (t_log (view (append_run owns E priv ops (connect auto None)))) = map snd ops"
    by (auto simp: append_run_def)
qed

text \<open>C17: appending any sequence of payloads to a new log never fails; afterwards the log holds exactly
  these payloads in order, every entry read back verifies and links to the hash of the payload before
  it (the first to the all-zero genesis hash), and every position has an inclusion proof that verifies
  against the log's Merkle root.\<close>

theorem append_log_history:
  assumes "blake3_spec E" and "ed25519_spec E" and "length priv = 32"
  shows "\<exists>c root. c = append_run owns E priv ops (connect auto None) \<and> log_root_hash E c = Inr root \<and>
    map le_payload (t_log (view c)) = map snd ops \<and> log_len c = int (length ops) \<and>
    (\<forall>i < length ops. \<exists>r p. log_get c (int i) = Inr (Some r) \<and> verify_entry E r = Inr True \<and>
       le_payload r = snd (ops ! i) \<and> le_seq r = int i \<and>
       le_prev_log_hash r =
         (if i = 0 then GENESIS_PREV_HASH else hash_bytes E (snd (ops ! (i - 1)))) \<and>
       get_inclusion_proof E c (int i) = Inr p \<and> ip_leaf_hash p = hash_bytes E (snd (ops ! i)) \<and>
       verify_inclusion E p root)"
proof -
  define c where "c = append_run owns E priv ops (connect auto None)"
  have ok: "log_ok E (view c)" and pay: "map le_payload (t_log (view c)) = map snd ops"
    unfolding c_def by (rule append_run_ok [OF assms])+
  from pay have len: "length (t_log (view c)) = length ops"
    by (metis length_map)
  have pay_nth: "le_payload (t_log (view c) ! i) = snd (ops ! i)" if "i < length ops" for i
    using pay len that by (metis nth_map)
  define hs where "hs = map (\<lambda>r. hash_bytes E (le_payload r)) (t_log (view c))"
  have hs: "entry_hashes c = Inr hs" and lhs: "length hs = length ops"
    using entry_hashes_eq [OF assms(1) ok] by (simp_all add: hs_def len)
  have entry: "\<exists>r p. log_get c (int i) = Inr (Some r) \<and> verify_entry E r = Inr True \<and>
       le_payload r = snd (ops ! i) \<and> le_seq r = int i \<and>
       le_prev_log_hash r =
         (if i = 0 then GENESIS_PREV_HASH else hash_bytes E (snd (ops ! (i - 1)))) \<and>
       get_inclusion_proof E c (int i) = Inr p \<and> ip_leaf_hash p = hash_bytes E (snd (ops ! i)) \<and>
       verify_inclusion E p (root_hash E hs)" if i: "i < length ops" for i
  proof -
    let ?r = "t_log (view c) ! i"
    have r: "le_seq ?r = int i" "verify_entry E ?r = Inr True"
        "le_prev_log_hash ?r =
          (if i = 0 then GENESIS_PREV_HASH else le_entry_hash (t_log (view c) ! (i - 1)))"
      using chain_nth [OF ok [unfolded log_ok_def], of i] i len by auto
    have prev: "le_entry_hash (t_log (view c) ! (i - 1)) = hash_bytes E (snd (ops ! (i - 1)))"
      using i len pay_nth [of "i - 1"] verify_entry_hash [OF log_ok_entry [OF ok nth_mem]] by simp
    have hi: "hs ! i = hash_bytes E (snd (ops ! i))"
      using i len by (simp add: hs_def pay_nth)
    obtain p where p: "inclusion_proof E hs (int i) = Inr p" "ip_leaf_hash p = hs ! i"
        "verify_inclusion E p (root_hash E hs)"
      using inclusion_proof_correct [of "int i" hs E] i lhs by auto
    have "get_inclusion_proof E c (int i) = Inr p"
      using p(1) i lhs by (simp add: get_inclusion_proof_def hs)
    moreover have "log_get c (int i) = Inr (Some ?r)"
      using i len by (simp add: log_get_eq [OF assms(1) ok])
    ultimately show ?thesis
      using r p(2,3) prev hi pay_nth [OF i] by simp
  qed
  show ?thesis
    by (intro exI [of _ c] exI [of _ "root_hash E hs"] conjI allI impI entry)
      (simp_all add: c_def [symmetric] log_root_hash_def hs pay log_len_def len)
qed

definition sample_key :: bytes where
  "sample_key = replicate 32 7"

definition sample_ops :: "(int \<times> bytes) list" where
  "sample_ops = [(5, [1]), (6, [2])]"

theorem append_log_history_witness:
  "\<exists>c root. c = append_run True ref_env sample_key sample_ops (connect False None) \<and>
    log_root_hash ref_env c = Inr root \<and>
    map le_payload (t_log (view c)) = map snd sample_ops \<and>
    log_len c = int (length sample_ops) \<and>
    (\<forall>i < length sample_ops. \<exists>r p.
       log_get c (int i) = Inr (Some r) \<and> verify_entry ref_env r = Inr True \<and>
       le_payload r = snd (sample_ops ! i) \<and> le_seq r = int i \<and>
       le_prev_log_hash r =
         (if i = 0 then GENESIS_PREV_HASH else hash_bytes ref_env (snd (sample_ops ! (i - 1)))) \<and>
       get_inclusion_proof ref_env c (int i) = Inr p \<and>
       ip_leaf_hash p = hash_bytes ref_env (snd (sample_ops ! i)) \<and>
       verify_inclusion ref_env p root)"
  by (rule append_log_history [OF ref_env_blake3 ref_env_ed25519]) (simp add: sample_key_def)

text \<open>An entry commits to the payload hash of its predecessor only, not to the predecessor's own
  link: two valid logs that agree on one payload at the same position can be spliced there, and the
  result is again a log every entry of which verifies and links.\<close>

theorem log_chain_splices:
  assumes "log_ok E d" and "log_ok E d'"
    and "i < length (t_log d)" and "i < length (t_log d')"
    and "le_payload (t_log d ! i) = le_payload (t_log d' ! i)"
  shows "log_ok E (d\<lparr>t_log := take (i + 1) (t_log d) @ drop (i + 1) (t_log d')\<rparr>)"
proof -
  let ?as = "take (i + 1) (t_log d)" and ?bs = "take (i + 1) (t_log d')"
  have ne: "?as \<noteq> []" "?bs \<noteq> []" and last: "last ?as = t_log d ! i" "last ?bs = t_log d' ! i"
    using assms(3,4) by (auto simp: take_Suc_conv_app_nth)
  have "le_entry_hash (t_log d ! i) = le_entry_hash (t_log d' ! i)"
    using assms verify_entry_hash [OF log_ok_entry [OF assms(1) nth_mem]]
      verify_entry_hash [OF log_ok_entry [OF assms(2) nth_mem]] by simp
  moreover have "length ?as = i + 1" "length ?bs = i + 1" using assms(3,4) by auto
  moreover have "chain E 0 GENESIS_PREV_HASH (?as @ drop (i + 1) (t_log d))"
    and "chain E 0 GENESIS_PREV_HASH (?bs @ drop (i + 1) (t_log d'))"
    using assms(1,2) by (simp_all only: append_take_drop_id log_ok_def)
  ultimately show ?thesis
    using ne last unfolding chain_append log_ok_def by (simp add: chain_append)
qed

definition splice_run :: "byte list \<Rightarrow> db" where
  "splice_run xs =
     view (append_run True ref_env sample_key (map (\<lambda>b. (0, [b])) xs) (connect False None))"

lemma log_ok_splice_run: "log_ok ref_env (splice_run xs)"
  using append_run_ok(1) [OF ref_env_blake3 ref_env_ed25519, of sample_key True _ False]
  by (simp add: splice_run_def sample_key_def)

lemma payload_splice_run: "map le_payload (t_log (splice_run xs)) = map (\<lambda>b. [b]) xs"
  using append_run_ok(2) [OF ref_env_blake3 ref_env_ed25519, of sample_key True _ False]
  by (simp add: splice_run_def sample_key_def comp_def)

lemma length_splice_run: "length (t_log (splice_run xs)) = length xs"
  using arg_cong [OF payload_splice_run [of xs], of length] by simp

theorem log_chain_splices_witness:
  "log_ok ref_env ((splice_run [1, 2, 3])\<lparr>t_log :=
      take (1 + 1) (t_log (splice_run [1, 2, 3])) @ drop (1 + 1) (t_log (splice_run [9, 2, 8]))\<rparr>)"
proof (rule log_chain_splices [OF log_ok_splice_run log_ok_splice_run])
  show "le_payload (t_log (splice_run [1, 2, 3]) ! 1) = le_payload (t_log (splice_run [9, 2, 8]) ! 1)"
    using nth_map [of 1 "t_log (splice_run [1, 2, 3])" le_payload]
      nth_map [of 1 "t_log (splice_run [9, 2, 8])" le_payload]
    by (simp add: payload_splice_run length_splice_run)
qed (simp_all add: length_splice_run)

end
