(* ===== verification/Object_Store.thy ===== *)
theory Object_Store
  imports Keys
begin

text \<open>
  \<^verbatim>\<open>storage/object_store.py\<close>: the content-addressed blob store over a sharded directory tree. The
  files under the root are a map from paths to contents; a write goes to a temporary file that is then
  renamed, and its intermediate states are modelled for the crash property. The contract the other
  layers rely on is the locale \<open>content_store\<close>.
\<close>

section \<open>Definitions\<close>

type_synonym obj_path = "pystr \<times> pystr"

text \<open>\<open>os_files\<close>: shard directory and file name to contents. \<open>os_tmp\<close>: the \<^verbatim>\<open>.tmp_<uuid>\<close> files.\<close>

record object_store =
  os_files :: "obj_path \<rightharpoonup> bytes"
  os_tmp :: "pystr \<rightharpoonup> bytes"

definition empty_store :: object_store where
  "empty_store = \<lparr> os_files = Map.empty, os_tmp = Map.empty \<rparr>"

definition path_of :: "hash \<Rightarrow> obj_path" where
  "path_of h = (take 2 (hex h), drop 2 (hex h))"

definition exists_file :: "object_store \<Rightarrow> obj_path \<Rightarrow> bool" where
  "exists_file s p \<longleftrightarrow> os_files s p \<noteq> None"

text \<open>
  The states a write passes through, for the temporary name \<open>u\<close>: the temporary file grows to the full
  data, then \<open>os.replace\<close> moves it to its destination in one step.
\<close>

definition put_trace :: "env \<Rightarrow> pystr \<Rightarrow> bytes \<Rightarrow> object_store \<Rightarrow> object_store list" where
  "put_trace E u data s =
     (let dest = path_of (hash_bytes E data) in
      if exists_file s dest then []
      else map (\<lambda>k. s\<lparr>os_tmp := (os_tmp s)(u \<mapsto> take k data)\<rparr>) [0..<length data + 1] @
           [s\<lparr>os_files := (os_files s)(dest \<mapsto> data), os_tmp := (os_tmp s)(u := None)\<rparr>])"

definition put :: "env \<Rightarrow> bytes \<Rightarrow> object_store \<Rightarrow> object_store \<times> hash" where
  "put E data s =
     (let h = hash_bytes E data; dest = path_of h in
      if exists_file s dest then (s, h)
      else (s\<lparr>os_files := (os_files s)(dest \<mapsto> data)\<rparr>, h))"

fun put_batch :: "env \<Rightarrow> bytes list \<Rightarrow> object_store \<Rightarrow> object_store \<times> hash list" where
  "put_batch E [] s = (s, [])"
| "put_batch E (item # items) s =
     (let (s', h) = put E item s; (s'', hs) = put_batch E items s' in (s'', h # hs))"

definition get :: "object_store \<Rightarrow> hash \<Rightarrow> bytes option" where
  "get s h = (if \<not> exists_file s (path_of h) then None else os_files s (path_of h))"

definition get_batch :: "object_store \<Rightarrow> hash list \<Rightarrow> bytes option list" where
  "get_batch s hashes = map (get s) hashes"

definition has :: "object_store \<Rightarrow> hash \<Rightarrow> bool" where
  "has s h = exists_file s (path_of h)"

definition has_batch :: "object_store \<Rightarrow> hash list \<Rightarrow> bool list" where
  "has_batch s hashes = map (has s) hashes"

text \<open>The invariant: every blob lies under its own address.\<close>

definition addressed :: "env \<Rightarrow> object_store \<Rightarrow> bool" where
  "addressed E s \<longleftrightarrow> (\<forall>h d. get s h = Some d \<longrightarrow> h = hash_bytes E d)"

section \<open>Paths\<close>

lemma path_of_inject [simp]: "path_of h = path_of h' \<longleftrightarrow> h = h'"
proof
  assume "path_of h = path_of h'"
  then have "hex h = hex h'"
    unfolding path_of_def prod.inject by (metis append_take_drop_id)
  then show "h = h'" by (simp add: hex_inject)
qed simp

text \<open>The two-character shard directory is the same for every object: a multihash starts with the
  code byte \<open>0x1e\<close>, so the tree has one shard only.\<close>

theorem shard_is_constant: "fst (path_of (hash_bytes E d)) = str ''1e''"
  by (simp add: path_of_def hash_bytes_def hex_byte_def BLAKE3_CODE_def hex_digit_def)

section \<open>The contract\<close>

locale content_store =
  fixes addr :: "'d \<Rightarrow> 'h"
    and store :: "'d \<Rightarrow> 's \<Rightarrow> 's \<times> 'h"
    and fetch :: "'s \<Rightarrow> 'h \<Rightarrow> 'd option"
    and present :: "'s \<Rightarrow> 'h \<Rightarrow> bool"
    and inv :: "'s \<Rightarrow> bool"
  assumes store_addr: "snd (store d s) = addr d"
    and fetch_store: "fetch (fst (store d s)) h =
          (if h = addr d \<and> fetch s h = None then Some d else fetch s h)"
    and present_iff: "present s h \<longleftrightarrow> fetch s h \<noteq> None"
    and inv_iff: "inv s \<longleftrightarrow> (\<forall>h d. fetch s h = Some d \<longrightarrow> h = addr d)"
begin

lemma inv_store:
  assumes "inv s"
  shows "inv (fst (store d s))"
  unfolding inv_iff
proof (intro allI impI)
  fix h e
  assume "fetch (fst (store d s)) h = Some e"
  then have "fetch s h = Some e \<or> h = addr d \<and> e = d"
    by (simp add: fetch_store split: if_splits)
  with assms show "h = addr e" unfolding inv_iff by blast
qed

lemma fetch_mono: "fetch s h = Some d \<Longrightarrow> fetch (fst (store d' s)) h = Some d"
  by (simp add: fetch_store)

lemma fetch_stored: "fetch (fst (store d s)) (addr d) \<noteq> None"
  by (simp add: fetch_store)

text \<open>The blob read back is the blob written, unless an older blob collides with it.\<close>

lemma fetch_stored_eq:
  assumes "inv s" and "\<And>d'. fetch s (addr d) = Some d' \<Longrightarrow> addr d' = addr d \<Longrightarrow> d' = d"
  shows "fetch (fst (store d s)) (addr d) = Some d"
proof (cases "fetch s (addr d)")
  case (Some d')
  with assms(1) have "addr d' = addr d" unfolding inv_iff by metis
  with Some assms(2) show ?thesis by (simp add: fetch_store)
qed (simp add: fetch_store)

lemma fetch_fold_mono:
  "fetch s h = Some d \<Longrightarrow> fetch (fold (\<lambda>d s. fst (store d s)) ds s) h = Some d"
  by (induction ds arbitrary: s) (auto simp: fetch_mono)

lemma inv_fold: "inv s \<Longrightarrow> inv (fold (\<lambda>d s. fst (store d s)) ds s)"
  by (induction ds arbitrary: s) (auto simp: inv_store)

lemma fetch_fold_origin:
  "fetch (fold (\<lambda>d s. fst (store d s)) ds s) h = Some d \<Longrightarrow> fetch s h = Some d \<or> d \<in> set ds"
proof (induction ds arbitrary: s)
  case (Cons e ds)
  from Cons.IH [of "fst (store e s)"] Cons.prems show ?case
    by (auto simp: fetch_store split: if_splits)
qed simp

lemma fetch_fold_stored:
  "d \<in> set ds \<Longrightarrow> fetch (fold (\<lambda>d s. fst (store d s)) ds s) (addr d) \<noteq> None"
proof (induction ds arbitrary: s)
  case (Cons e ds)
  show ?case
  proof (cases "d = e")
    case True
    obtain d' where "fetch (fst (store d s)) (addr d) = Some d'"
      using fetch_stored [of d s] by auto
    from fetch_fold_mono [OF this] True show ?thesis by auto
  qed (use Cons in auto)
qed simp

lemma fetch_fold_eq:
  assumes "inv s" and "inj_on addr (set ds \<union> {d'. \<exists>h. fetch s h = Some d'})" and "d \<in> set ds"
  shows "fetch (fold (\<lambda>d s. fst (store d s)) ds s) (addr d) = Some d"
proof -
  obtain d' where d': "fetch (fold (\<lambda>d s. fst (store d s)) ds s) (addr d) = Some d'"
    using fetch_fold_stored [OF assms(3)] by auto
  with inv_fold [OF assms(1), of ds] have "addr d = addr d'" unfolding inv_iff by metis
  moreover have "d' \<in> set ds \<union> {d'. \<exists>h. fetch s h = Some d'}"
    using fetch_fold_origin [OF d'] by auto
  ultimately have "d = d'" using assms(2,3) by (auto dest: inj_onD)
  with d' show ?thesis by simp
qed

end

lemma get_eq: "get s h = os_files s (path_of h)"
  by (auto simp: get_def exists_file_def)

interpretation blobs: content_store "hash_bytes E" "put E" get has "addressed E" for E
proof
  fix d s h
  show "snd (put E d s) = hash_bytes E d"
    by (simp add: put_def Let_def)
  show "get (fst (put E d s)) h =
          (if h = hash_bytes E d \<and> get s h = None then Some d else get s h)"
    by (auto simp: put_def Let_def get_eq exists_file_def)
  show "has s h \<longleftrightarrow> get s h \<noteq> None"
    by (simp add: has_def get_eq exists_file_def)
  show "addressed E s \<longleftrightarrow> (\<forall>h d. get s h = Some d \<longrightarrow> h = hash_bytes E d)"
    by (simp add: addressed_def)
qed

section \<open>Batches and crashes\<close>

lemma put_batch_eq:
  "put_batch E ds s = (fold (\<lambda>d s. fst (put E d s)) ds s, map (hash_bytes E) ds)"
  by (induction ds arbitrary: s) (auto simp: Let_def split_beta blobs.store_addr)

lemma get_empty [simp]: "get empty_store h = None"
  by (simp add: get_eq empty_store_def)

lemma addressed_empty [simp]: "addressed E empty_store"
  by (simp add: addressed_def)

text \<open>Whatever batch of blobs is written into an empty store, the hashes returned are the content
  addresses in order, every blob is read back unchanged under its address, and nothing else is present,
  as long as no two of the blobs collide.\<close>

theorem put_batch_get_batch:
  assumes "collision_free E (set ds)"
  shows "\<exists>s hs. put_batch E ds empty_store = (s, hs) \<and> hs = map (hash_bytes E) ds \<and>
           get_batch s hs = map Some ds \<and> list_all (\<lambda>b. b) (has_batch s hs) \<and>
           (\<forall>h. has s h \<longrightarrow> h \<in> set hs)"
proof -
  let ?s = "fold (\<lambda>d s. fst (put E d s)) ds empty_store"
  have got: "get ?s (hash_bytes E d) = Some d" if "d \<in> set ds" for d
    by (rule blobs.fetch_fold_eq) (use assms that in \<open>auto simp: collision_free_def\<close>)
  have "h \<in> hash_bytes E ` set ds" if "has ?s h" for h
  proof -
    from that obtain d where d: "get ?s h = Some d" by (auto simp: blobs.present_iff)
    with blobs.inv_fold [of E empty_store ds] have "h = hash_bytes E d"
      by (simp add: addressed_def)
    with blobs.fetch_fold_origin [OF d] show ?thesis by auto
  qed
  with got show ?thesis
    by (auto simp: put_batch_eq get_batch_def has_batch_def blobs.present_iff list_all_iff)
qed

theorem put_batch_get_batch_witness:
  "\<exists>s hs. put_batch ref_env [[1], [2, 3]] empty_store = (s, hs) \<and>
     hs = map (hash_bytes ref_env) [[1], [2, 3]] \<and>
     get_batch s hs = map Some [[1], [2, 3]] \<and> list_all (\<lambda>b. b) (has_batch s hs) \<and>
     (\<forall>h. has s h \<longrightarrow> h \<in> set hs)"
  by (rule put_batch_get_batch, rule collision_free_listI) code_simp

lemma put_trace_get:
  assumes "s' \<in> set (put_trace E u data s)"
  shows "get s' h = get s h \<or>
           h = hash_bytes E data \<and> get s h = None \<and> get s' h = Some data"
  using assms by (auto simp: put_trace_def Let_def get_eq exists_file_def split: if_splits)

lemma put_trace_get_mono:
  "s' \<in> set (put_trace E u data s) \<Longrightarrow> get s h = Some b \<Longrightarrow> get s' h = Some b"
  using put_trace_get [of s' E u data s h] by auto

lemma put_trace_last:
  assumes "s' \<in> set (put_trace E u data s)" and "os_tmp s u = None"
  shows "last (put_trace E u data s) = fst (put E data s)"
  using assms by (auto simp: put_trace_def put_def Let_def fun_upd_idem split: if_splits)

text \<open>A crash during a write never damages the store: in every intermediate state each object that
  was present is unchanged, and an object that appears is the complete data under its own address; if no
  state is interrupted the write ends in the state \<open>put\<close> returns.\<close>

theorem put_crash_safe:
  assumes "s' \<in> set (put_trace E u data s)" and "os_tmp s u = None"
  shows "(get s' h = get s h \<or>
            h = hash_bytes E data \<and> get s h = None \<and> get s' h = Some data) \<and>
         last (put_trace E u data s) = fst (put E data s)"
  using put_trace_get [OF assms(1), of h] put_trace_last [OF assms] by blast

theorem put_crash_safe_witness:
  "\<forall>h. (get (empty_store\<lparr>os_tmp := [[] \<mapsto> [7]]\<rparr>) h = get empty_store h \<or>
      h = hash_bytes ref_env [7, 8] \<and> get empty_store h = None \<and>
      get (empty_store\<lparr>os_tmp := [[] \<mapsto> [7]]\<rparr>) h = Some [7, 8]) \<and>
   last (put_trace ref_env [] [7, 8] empty_store) = fst (put ref_env [7, 8] empty_store)"
proof (intro allI, rule put_crash_safe)
  show "empty_store\<lparr>os_tmp := [[] \<mapsto> [7]]\<rparr> \<in> set (put_trace ref_env [] [7, 8] empty_store)"
    by (auto simp: put_trace_def exists_file_def empty_store_def intro!: image_eqI [where x = 1])
qed (simp add: empty_store_def)

end
