(* ===== verification/Storage.thy ===== *)
theory Storage
  imports Append_Log Object_Store
begin

text \<open>
  \<^verbatim>\<open>storage/storage.py\<close> and \<^verbatim>\<open>storage/factory.py\<close>: the facade over the object store, the graph index and
  the append log, which share one autocommit connection, and the transaction that commits an edge.
  \<open>commit_trace\<close> lists the states a commit passes through, one per file or SQL operation;
  \<open>storage_ok\<close> is the invariant that ties the three parts together; \<open>reader\<close> is the read interface
  the query and attestation layers use, with \<open>sqlite_reader\<close> its in-process implementation.
\<close>

section \<open>Definitions\<close>

record storage =
  st_objects :: object_store
  st_conn :: "db conn"
  st_priv :: bytes
  st_pub :: bytes

definition open_storage :: "object_store \<Rightarrow> db option \<Rightarrow> bytes \<Rightarrow> bytes \<Rightarrow> storage" where
  "open_storage files index_db priv_key pub_key =
     \<lparr> st_objects = files, st_conn = connect True index_db, st_priv = priv_key, st_pub = pub_key \<rparr>"

definition put_blob :: "env \<Rightarrow> bytes \<Rightarrow> storage \<Rightarrow> storage" where
  "put_blob E d s = s\<lparr>st_objects := fst (put E d (st_objects s))\<rparr>"

definition put_optional :: "env \<Rightarrow> bytes option \<Rightarrow> storage \<Rightarrow> storage" where
  "put_optional E proof_blob s = (case proof_blob of None \<Rightarrow> s | Some p \<Rightarrow> put_blob E p s)"

definition commit_edge_tx ::
    "env \<Rightarrow> int \<Rightarrow> hash list \<Rightarrow> hash \<Rightarrow> bytes \<Rightarrow> bytes option \<Rightarrow> storage \<Rightarrow>
     storage \<times> (hash \<times> log_entry) res" where
  "commit_edge_tx E now premises conclusion edge_data proof_blob s =
     (let edge_hash = hash_bytes E edge_data;
          s1 = put_optional E proof_blob (put_blob E edge_data s)
      in case begin_immediate (st_conn s1) of
           Inl e \<Rightarrow> (s1, Inl e)
         | Inr c \<Rightarrow>
             (case log_append False E (st_priv s) (st_pub s) now edge_data
                     (register_edge False edge_hash premises conclusion c) of
                (c', Inl e) \<Rightarrow> (s1\<lparr>st_conn := rollback_conn c'\<rparr>, Inl e)
              | (c', Inr log_entry) \<Rightarrow>
                  (s1\<lparr>st_conn := commit_conn c'\<rparr>, Inr (edge_hash, log_entry))))"

text \<open>Which implementation \<open>create_storage\<close> builds.\<close>

datatype backend = Sqlite_Backend | Grpc_Backend pystr

definition DEFAULT_SOCKET :: pystr where
  "DEFAULT_SOCKET = str ''/tmp/arxdb.sock''"

definition create_storage :: "pystr \<Rightarrow> pystr option \<Rightarrow> backend res" where
  "create_storage backend socket_path =
     (if backend = str ''sqlite'' then Inr Sqlite_Backend
      else if backend = str ''grpc'' then
        Inr (Grpc_Backend
          (case socket_path of None \<Rightarrow> DEFAULT_SOCKET
           | Some p \<Rightarrow> if p = [] then DEFAULT_SOCKET else p))
      else Inl ValueError)"

section \<open>Intermediate states\<close>

text \<open>
  Every state between two operations of a commit, for the temporary file names \<open>u\<close> and \<open>u'\<close>: the two
  object writes, then \<open>BEGIN\<close>, each statement of \<open>register_edge\<close>, the log row, and the end of the
  transaction. A crash in such a state leaves the files as they are and the committed database.
\<close>

definition blob_trace :: "env \<Rightarrow> pystr \<Rightarrow> bytes \<Rightarrow> storage \<Rightarrow> storage list" where
  "blob_trace E u d s = map (\<lambda>os. s\<lparr>st_objects := os\<rparr>) (put_trace E u d (st_objects s))"

definition tx_trace :: "(db \<Rightarrow> db) list \<Rightarrow> storage \<Rightarrow> storage list" where
  "tx_trace fs s = map (\<lambda>k. s\<lparr>st_conn := exec_all (take k fs) (st_conn s)\<rparr>) [0..<length fs + 1]"

definition commit_trace ::
    "env \<Rightarrow> pystr \<Rightarrow> pystr \<Rightarrow> int \<Rightarrow> hash list \<Rightarrow> hash \<Rightarrow> bytes \<Rightarrow> bytes option \<Rightarrow> storage \<Rightarrow>
     storage list" where
  "commit_trace E u u' now premises conclusion edge_data proof_blob s =
     (let s0 = put_blob E edge_data s;
          s1 = put_optional E proof_blob s0;
          blobs = s # blob_trace E u edge_data s @ s0 #
            (case proof_blob of None \<Rightarrow> [] | Some p \<Rightarrow> blob_trace E u' p s0 @ [s1])
      in blobs @
         (case begin_immediate (st_conn s1) of
            Inl e \<Rightarrow> []
          | Inr c \<Rightarrow>
              tx_trace (register_edge_stmts (hash_bytes E edge_data) premises conclusion)
                (s1\<lparr>st_conn := c\<rparr>) @
              [s1\<lparr>st_conn := fst (log_append False E (st_priv s) (st_pub s) now edge_data
                  (register_edge False (hash_bytes E edge_data) premises conclusion c))\<rparr>]) @
         [fst (commit_edge_tx E now premises conclusion edge_data proof_blob s)])"

definition restart :: "storage \<Rightarrow> storage" where
  "restart s = s\<lparr>st_conn := connect True (Some (recover (st_conn s)))\<rparr>"

section \<open>Effect of a commit\<close>

text \<open>The database contents after a successful commit.\<close>

definition commit_db :: "env \<Rightarrow> hash list \<Rightarrow> hash \<Rightarrow> bytes \<Rightarrow> log_entry \<Rightarrow> db \<Rightarrow> db" where
  "commit_db E premises conclusion edge_data r d =
     ins_log r (register_edge_db (hash_bytes E edge_data) premises conclusion d)"

lemma put_blob_simps [simp]:
  "st_conn (put_blob E d s) = st_conn s" "st_conn (put_optional E p s) = st_conn s"
  "st_priv (put_blob E d s) = st_priv s" "st_priv (put_optional E p s) = st_priv s"
  "st_pub (put_blob E d s) = st_pub s" "st_pub (put_optional E p s) = st_pub s"
  by (simp_all add: put_blob_def put_optional_def split: option.splits)

lemma begin_immediate_idle:
  "pending c = None \<Longrightarrow> begin_immediate c = Inr (c\<lparr>pending := Some (committed c)\<rparr>)"
  by (simp add: begin_immediate_def)

lemma register_edge_in_tx:
  "register_edge False eh ps c (x\<lparr>pending := Some d\<rparr>) =
     x\<lparr>pending := Some (register_edge_db eh ps c d)\<rparr>"
  by (simp add: register_edge_def commit_if_owned_def register_edge_db_def conn_simps)

lemma view_pending [simp]: "view (c\<lparr>pending := Some d\<rparr>) = d"
  by (simp add: view_def)

lemma new_entry_log:
  "t_log d = t_log d' \<Longrightarrow> new_entry E priv pub now x d = new_entry E priv pub now x d'"
  by (simp add: new_entry_def Let_def prev_hash_def select_row_def)

lemma t_log_register [simp]: "t_log (register_edge_db eh ps c d) = t_log d"
  by (simp add: register_edge_db_eq)

lemma graph_of_ins_log [simp]:
  "t_nodes (ins_log r d) = t_nodes d" "t_edges (ins_log r d) = t_edges d"
  "t_premises (ins_log r d) = t_premises d" "t_log (ins_log r d) = t_log d @ [r]"
  by (simp_all add: ins_log_def)

lemma connectivity_ins_log [simp]: "connectivity (ins_log r d) = connectivity d"
  by (simp add: fun_eq_iff connectivity_def rows_of_def)

lemma graph_ok_ins_log [simp]: "graph_ok (ins_log r d) = graph_ok d"
  by (simp add: graph_ok_def rows_of_def)

lemma log_ok_register [simp]: "log_ok E (register_edge_db eh ps c d) = log_ok E d"
  by (simp add: log_ok_def)

text \<open>The outcome, by whether the log entry can be built and its sequence number is free.\<close>

lemma commit_edge_tx_cases:
  assumes "pending (st_conn s) = None"
    and d_def: "d = committed (st_conn s)" and s1_def: "s1 = put_optional E proof_blob (put_blob E edge_data s)"
  shows "(\<exists>e. commit_edge_tx E now ps c edge_data proof_blob s = (s1, Inl e)) \<or>
    (\<exists>r. new_entry E (st_priv s) (st_pub s) now edge_data d = Inr r \<and>
       commit_edge_tx E now ps c edge_data proof_blob s =
         (s1\<lparr>st_conn := (st_conn s)\<lparr>committed := commit_db E ps c edge_data r d\<rparr>\<rparr>,
          Inr (hash_bytes E edge_data, r)))"
proof -
  let ?d1 = "register_edge_db (hash_bytes E edge_data) ps c d"
  have idle: "(st_conn s)\<lparr>pending := None\<rparr> = st_conn s" using assms(1) by simp
  note start = begin_immediate_idle [OF assms(1)] register_edge_in_tx d_def [symmetric]
  have [simp]: "s1\<lparr>st_conn := st_conn s\<rparr> = s1" by (simp add: s1_def)
  consider e where "new_entry E (st_priv s) (st_pub s) now edge_data ?d1 = Inl e"
    | r where "new_entry E (st_priv s) (st_pub s) now edge_data ?d1 = Inr r"
        "select_row ?d1 (le_seq r) = None"
    | r where "new_entry E (st_priv s) (st_pub s) now edge_data ?d1 = Inr r"
        "select_row ?d1 (le_seq r) \<noteq> None"
    by (cases "new_entry E (st_priv s) (st_pub s) now edge_data ?d1") auto
  then show ?thesis
  proof cases
    case 2
    then have "new_entry E (st_priv s) (st_pub s) now edge_data d = Inr r"
      using new_entry_log [of ?d1 d] by simp
    moreover have "commit_edge_tx E now ps c edge_data proof_blob s =
         (s1\<lparr>st_conn := (st_conn s)\<lparr>committed := commit_db E ps c edge_data r d\<rparr>\<rparr>,
          Inr (hash_bytes E edge_data, r))"
      using 2 assms(1) by (simp add: commit_edge_tx_def Let_def s1_def start log_append_def commit_if_owned_def
          exec_dml_def commit_conn_def commit_db_def)
    ultimately show ?thesis by blast
  qed (use assms(1) in \<open>auto simp: commit_edge_tx_def Let_def s1_def start log_append_def
        commit_if_owned_def exec_dml_def rollback_conn_def\<close>)
qed

section \<open>Atomicity\<close>

lemma commit_edge_tx_pending:
  assumes "pending (st_conn s) = None"
  shows "pending (st_conn (fst (commit_edge_tx E now ps c edge_data proof_blob s))) = None"
  using commit_edge_tx_cases [OF assms refl refl, of E now ps c edge_data proof_blob] assms by auto

text \<open>A commit either fails and leaves graph and log exactly as they were, or succeeds and has added
  exactly this edge to the graph and exactly one entry, with the edge bytes as payload, to the log; the
  transaction is closed either way. The only other trace of a failure is that blobs may have been
  stored.\<close>

theorem commit_edge_tx_atomic:
  assumes "pending (st_conn s) = None" and "commit_edge_tx E now ps c edge_data proof_blob s = (s', out)"
  shows "pending (st_conn s') = None \<and>
    (case out of
       Inl e \<Rightarrow> st_conn s' = st_conn s
     | Inr (eh, r) \<Rightarrow> eh = hash_bytes E edge_data \<and> le_payload r = edge_data \<and> le_entry_hash r = eh \<and>
         committed (st_conn s') = ins_log r (register_edge_db eh ps c (committed (st_conn s))))"
  using commit_edge_tx_cases [OF assms(1) refl refl, of E now ps c edge_data proof_blob] assms
  by (auto simp: commit_db_def new_entry_def Let_def res_simps)

definition sample_storage :: storage where
  "sample_storage = open_storage empty_store None sample_key sample_key"

lemma sample_storage_simps [simp]:
  "st_conn sample_storage = connect True None" "st_priv sample_storage = sample_key"
  "st_pub sample_storage = sample_key" "st_objects sample_storage = empty_store"
  by (simp_all add: sample_storage_def open_storage_def)

definition sample_commit :: "storage \<times> (hash \<times> log_entry) res" where
  "sample_commit = commit_edge_tx ref_env 5 [sample_hash 1] (sample_hash 2) [1, 2, 3] (Some [9])
     sample_storage"

theorem commit_edge_tx_atomic_witness:
  "pending (st_conn (fst sample_commit)) = None \<and>
    (case snd sample_commit of
       Inl e \<Rightarrow> st_conn (fst sample_commit) = st_conn sample_storage
     | Inr (eh, r) \<Rightarrow> eh = hash_bytes ref_env [1, 2, 3] \<and> le_payload r = [1, 2, 3] \<and> le_entry_hash r = eh \<and>
         committed (st_conn (fst sample_commit)) =
           ins_log r (register_edge_db eh [sample_hash 1] (sample_hash 2)
             (committed (st_conn sample_storage))))"
  by (rule commit_edge_tx_atomic [of _ _ 5 _ _ _ "Some [9]"])
    (simp_all add: connect_def flip: sample_commit_def)

lemma restart_objects [simp]: "st_objects (restart s) = st_objects s"
  by (simp add: restart_def)

lemma committed_exec_all_in_tx:
  "pending c \<noteq> None \<Longrightarrow> committed (exec_all fs c) = committed c \<and> pending (exec_all fs c) \<noteq> None"
  by (induction fs arbitrary: c) (auto simp: exec_dml_def)

lemma log_append_in_tx:
  "pending c \<noteq> None \<Longrightarrow> committed (fst (log_append False E priv pub now x c)) = committed c"
  by (auto simp: log_append_def commit_if_owned_def exec_dml_def split: sum.splits)

text \<open>Before the last state nothing is committed.\<close>

lemma commit_trace_committed:
  assumes "pending (st_conn s) = None"
    and "s' \<in> set (commit_trace E u u' now ps c edge_data proof_blob s)"
  shows "committed (st_conn s') = committed (st_conn s) \<or>
     s' = fst (commit_edge_tx E now ps c edge_data proof_blob s)"
proof -
  let ?c = "(st_conn s)\<lparr>pending := Some (committed (st_conn s))\<rparr>"
  have "committed (exec_all fs ?c) = committed (st_conn s)" for fs
    using committed_exec_all_in_tx [of ?c fs] by simp
  moreover have "committed (fst (log_append False E (st_priv s) (st_pub s) now edge_data
      (register_edge False (hash_bytes E edge_data) ps c ?c))) = committed (st_conn s)"
    using log_append_in_tx [of "register_edge False (hash_bytes E edge_data) ps c ?c"]
    by (simp add: register_edge_in_tx)
  ultimately show ?thesis
    using assms
    by (auto simp: commit_trace_def Let_def begin_immediate_idle blob_trace_def tx_trace_def
        split: option.splits)
qed

lemma get_put_blob:
  "get (st_objects (put_blob E d s)) h =
     (if h = hash_bytes E d \<and> get (st_objects s) h = None then Some d else get (st_objects s) h)"
  by (simp add: put_blob_def blobs.fetch_store)

lemma get_put_optional:
  "get (st_objects (put_optional E proof_blob s)) h =
     (case proof_blob of None \<Rightarrow> get (st_objects s) h
      | Some p \<Rightarrow> get (st_objects (put_blob E p s)) h)"
  by (simp add: put_optional_def split: option.splits)

lemma objects_mono:
  assumes "get (st_objects s) h = Some b"
  shows "get (st_objects (put_blob E d s)) h = Some b"
    and "get (st_objects (put_optional E proof_blob s)) h = Some b"
  using assms by (simp_all add: get_put_blob get_put_optional split: option.splits)

lemma objects_commit:
  assumes "pending (st_conn s) = None"
  shows "st_objects (fst (commit_edge_tx E now ps c edge_data proof_blob s)) =
    st_objects (put_optional E proof_blob (put_blob E edge_data s))"
  using commit_edge_tx_cases [OF assms refl refl, of E now ps c edge_data proof_blob] by auto

text \<open>Whatever is in the object store stays there in every state of a commit.\<close>

lemma commit_trace_objects:
  assumes "pending (st_conn s) = None" and "get (st_objects s) h = Some b"
    and "s' \<in> set (commit_trace E u u' now ps c edge_data proof_blob s)"
  shows "get (st_objects s') h = Some b"
  using assms(3) objects_commit [OF assms(1), of E now ps c edge_data proof_blob]
    objects_mono [OF assms(2)] objects_mono [OF objects_mono(1) [OF assms(2)]]
    put_trace_get_mono [OF _ assms(2)] put_trace_get_mono [OF _ objects_mono(1) [OF assms(2)]] assms(2)
  by (auto simp: commit_trace_def Let_def blob_trace_def tx_trace_def begin_immediate_idle [OF assms(1)]
      split: option.splits)

lemma committed_blobs:
  assumes "pending (st_conn s) = None" and "commit_edge_tx E now ps c edge_data proof_blob s = (s', out)"
  shows "get (st_objects s') (hash_bytes E edge_data) \<noteq> None"
    and "proof_blob = Some p \<Longrightarrow> get (st_objects s') (hash_bytes E p) \<noteq> None"
  using objects_commit [OF assms(1), of E now ps c edge_data proof_blob] assms(2)
  by (simp_all add: get_put_optional get_put_blob split: option.splits)

text \<open>C5: a crash at any point of a commit is harmless: after a restart the database holds either what it
  held before or the complete committed edge and log entry; no object that was stored is lost or
  altered; and if the edge is in the database, the blobs of the edge and of its proof are in the
  store.\<close>

theorem commit_crash_safe:
  assumes "pending (st_conn s) = None"
    and "s' \<in> set (commit_trace E u u' now ps c edge_data proof_blob s)"
  shows "(\<forall>h b. get (st_objects s) h = Some b \<longrightarrow> get (st_objects (restart s')) h = Some b) \<and>
    (view (st_conn (restart s')) = view (st_conn s) \<or>
     (\<exists>r. snd (commit_edge_tx E now ps c edge_data proof_blob s) = Inr (hash_bytes E edge_data, r) \<and>
        view (st_conn (restart s')) = commit_db E ps c edge_data r (view (st_conn s)) \<and>
        get (st_objects (restart s')) (hash_bytes E edge_data) \<noteq> None \<and>
        (\<forall>p. proof_blob = Some p \<longrightarrow> get (st_objects (restart s')) (hash_bytes E p) \<noteq> None)))"
proof -
  have restart: "view (st_conn (restart x)) = committed (st_conn x)" for x
    by (simp add: restart_def view_def connect_def open_db_def recover_def)
  have now: "view (st_conn s) = committed (st_conn s)" by (simp add: view_def assms(1))
  note cases = commit_edge_tx_cases [OF assms(1) refl refl, of E now ps c edge_data proof_blob]
  note blobs = committed_blobs [OF assms(1), of E now ps c edge_data proof_blob s' "snd (commit_edge_tx E now ps c edge_data proof_blob s)"]
  from commit_trace_committed [OF assms(1,2)] show ?thesis
  proof
    assume "committed (st_conn s') = committed (st_conn s)"
    then show ?thesis using commit_trace_objects [OF assms(1) _ assms(2)] by (simp add: restart now)
  next
    assume s': "s' = fst (commit_edge_tx E now ps c edge_data proof_blob s)"
    show ?thesis
      using cases blobs commit_trace_objects [OF assms(1) _ assms(2)]
      by (auto simp: restart now s' prod_eq_iff)
  qed
qed

definition stored_sample :: storage where
  "stored_sample = put_blob ref_env [7] sample_storage"

theorem commit_crash_safe_witness:
  "\<exists>s'. s' \<in> set (commit_trace ref_env [] [1] 5 [sample_hash 1] (sample_hash 2) [1, 2, 3] (Some [9])
       stored_sample) \<and>
    get (st_objects (restart s')) (hash_bytes ref_env [7]) = Some [7] \<and>
    (view (st_conn (restart s')) = view (st_conn stored_sample) \<or>
     (\<exists>r. snd (commit_edge_tx ref_env 5 [sample_hash 1] (sample_hash 2) [1, 2, 3] (Some [9])
              stored_sample) = Inr (hash_bytes ref_env [1, 2, 3], r) \<and>
        view (st_conn (restart s')) =
          commit_db ref_env [sample_hash 1] (sample_hash 2) [1, 2, 3] r (view (st_conn stored_sample)) \<and>
        get (st_objects (restart s')) (hash_bytes ref_env [1, 2, 3]) \<noteq> None \<and>
        (\<forall>p. Some [9] = Some p \<longrightarrow> get (st_objects (restart s')) (hash_bytes ref_env p) \<noteq> None)))"
proof -
  let ?s' = "fst (commit_edge_tx ref_env 5 [sample_hash 1] (sample_hash 2) [1, 2, 3] (Some [9]) stored_sample)"
  have mem: "?s' \<in> set (commit_trace ref_env [] [1] 5 [sample_hash 1] (sample_hash 2) [1, 2, 3] (Some [9])
      stored_sample)"
    by (simp add: commit_trace_def Let_def)
  have idle: "pending (st_conn stored_sample) = None"
    by (simp add: stored_sample_def connect_def)
  have stored: "get (st_objects stored_sample) (hash_bytes ref_env [7]) = Some [7]"
    by (simp add: stored_sample_def get_put_blob)
  from commit_crash_safe [OF idle mem] stored mem show ?thesis by blast
qed

section \<open>The invariant of the facade\<close>

text \<open>
  Blobs lie under their addresses, no transaction is open, the tables represent a hypergraph, the log is
  a valid chain, the keys belong together, and every edge of the graph has its bytes in the object store
  and an entry in the log.
\<close>

definition edge_backed :: "storage \<Rightarrow> hash \<Rightarrow> bool" where
  "edge_backed s e \<longleftrightarrow>
     get (st_objects s) e \<noteq> None \<and> e \<in> le_entry_hash ` set (t_log (committed (st_conn s)))"

definition storage_ok :: "env \<Rightarrow> storage \<Rightarrow> bool" where
  "storage_ok E s \<longleftrightarrow>
     addressed E (st_objects s) \<and> pending (st_conn s) = None \<and> graph_ok (committed (st_conn s)) \<and>
     log_ok E (committed (st_conn s)) \<and> length (st_priv s) = 32 \<and> st_pub s = ed_public E (st_priv s) \<and>
     list_all (edge_backed s) (map fst (t_edges (committed (st_conn s))))"

lemma storage_ok_view: "storage_ok E s \<Longrightarrow> view (st_conn s) = committed (st_conn s)"
  by (simp add: storage_ok_def view_def)

lemma addressed_put_blob: "addressed E (st_objects s) \<Longrightarrow> addressed E (st_objects (put_blob E d s))"
  by (simp add: put_blob_def blobs.inv_store)

lemma addressed_put_optional:
  "addressed E (st_objects s) \<Longrightarrow> addressed E (st_objects (put_optional E p s))"
  by (simp add: put_optional_def addressed_put_blob split: option.splits)

lemma edges_register_subset:
  "fst ` set (t_edges (register_edge_db eh ps c d)) = insert eh (fst ` set (t_edges d))"
  by (simp add: register_edge_db_eq keys_insert_or_ignore)

lemma storage_ok_put_blob: "storage_ok E s \<Longrightarrow> storage_ok E (put_blob E d s)"
  by (auto simp: storage_ok_def addressed_put_blob list_all_iff edge_backed_def get_put_blob)

lemma commit_succeeds:
  assumes "pending (st_conn s) = None" and "d = committed (st_conn s)"
    and "new_entry E (st_priv s) (st_pub s) now edge_data d = Inr r" and "select_row d (le_seq r) = None"
  shows "commit_edge_tx E now ps c edge_data proof_blob s =
    ((put_optional E proof_blob (put_blob E edge_data s))
       \<lparr>st_conn := (st_conn s)\<lparr>committed := commit_db E ps c edge_data r d\<rparr>\<rparr>,
     Inr (hash_bytes E edge_data, r))"
proof -
  let ?d = "register_edge_db (hash_bytes E edge_data) ps c d"
  have "new_entry E (st_priv s) (st_pub s) now edge_data ?d = Inr r" "select_row ?d (le_seq r) = None"
    using assms(3,4) new_entry_log [of ?d d] by (simp_all add: select_row_def)
  then show ?thesis
    using assms(1,2)
    by (simp add: commit_edge_tx_def Let_def begin_immediate_idle register_edge_in_tx log_append_def
        commit_if_owned_def exec_dml_def commit_conn_def commit_db_def)
qed

lemma log_ok_select_fresh:
  "log_ok E d \<Longrightarrow> le_seq r = int (length (t_log d)) \<Longrightarrow> select_row d (le_seq r) = None"
  by (simp add: select_row_nth)

lemma edge_backed_commit:
  assumes "edge_backed s e" and "st_objects s' = st_objects (put_optional E p (put_blob E d s))"
    and "t_log (committed (st_conn s')) = t_log (committed (st_conn s)) @ rs"
  shows "edge_backed s' e"
  using assms objects_mono by (auto simp: edge_backed_def)

lemma commit_edge_effect:
  assumes "blake3_spec E" and "ed25519_spec E" and "storage_ok E s"
    and "consistent_with (committed (st_conn s)) (hash_bytes E edge_data) ps c"
    and "hash34 c" and "list_all hash34 ps"
  shows "\<exists>s' r. commit_edge_tx E now ps c edge_data proof_blob s = (s', Inr (hash_bytes E edge_data, r)) \<and>
    storage_ok E s' \<and> verify_entry E r = Inr True \<and> le_payload r = edge_data \<and>
    t_log (committed (st_conn s')) = t_log (committed (st_conn s)) @ [r] \<and>
    connectivity (committed (st_conn s')) =
      (connectivity (committed (st_conn s)))(hash_bytes E edge_data \<mapsto> (ps, c)) \<and>
    has (st_objects s') (hash_bytes E edge_data) \<and>
    (\<forall>p. proof_blob = Some p \<longrightarrow> has (st_objects s') (hash_bytes E p))"
proof -
  define d where "d = committed (st_conn s)"
  define eh where "eh = hash_bytes E edge_data"
  have ok: "pending (st_conn s) = None" "graph_ok d" "log_ok E d" "length (st_priv s) = 32"
      "st_pub s = ed_public E (st_priv s)" "addressed E (st_objects s)"
      "list_all (edge_backed s) (map fst (t_edges d))"
    using assms(3) by (auto simp: storage_ok_def d_def)
  obtain r where r: "new_entry E (st_priv s) (st_pub s) now edge_data d = Inr r"
      "le_seq r = int (length (t_log d))" "le_prev_log_hash r = last_hash (t_log d)"
      "le_payload r = edge_data" "le_entry_hash r = eh" "verify_entry E r = Inr True"
    using new_entry_ok [OF assms(1,2) ok(4,3), of now edge_data] ok(5) unfolding eh_def by metis
  define d' where "d' = commit_db E ps c edge_data r d"
  define s' where "s' = (put_optional E proof_blob (put_blob E edge_data s))
      \<lparr>st_conn := (st_conn s)\<lparr>committed := d'\<rparr>\<rparr>"
  have s': "commit_edge_tx E now ps c edge_data proof_blob s = (s', Inr (eh, r))"
    using commit_succeeds [OF ok(1) d_def r(1) log_ok_select_fresh [OF ok(3) r(2)]]
    by (simp add: eh_def d'_def s'_def)
  have conn: "st_conn s' = (st_conn s)\<lparr>committed := d'\<rparr>"
    and objs: "st_objects s' = st_objects (put_optional E proof_blob (put_blob E edge_data s))"
    and keys: "st_priv s' = st_priv s" "st_pub s' = st_pub s"
    by (simp_all add: s'_def)
  have con: "consistent_with d eh ps c" and h34: "hash34 eh"
    using assms(1,4) by (simp_all add: d_def eh_def hash34_def length_hash_bytes)
  have graph: "graph_ok d'"
    using graph_ok_register [OF ok(2) con h34 assms(5,6)] by (simp add: d'_def commit_db_def eh_def)
  have conn_eq: "connectivity d' = (connectivity d)(eh \<mapsto> (ps, c))"
    using connectivity_register [OF ok(2)] con
    by (simp add: d'_def commit_db_def eh_def consistent_with_def)
  have log: "t_log d' = t_log d @ [r]" by (simp add: d'_def commit_db_def)
  have chain: "log_ok E d'"
    using ok(3) r by (simp add: log_ok_def log chain_append last_hash_def)
  note blobs = committed_blobs [OF ok(1) s']
  have "edge_backed s' e" if "e \<in> fst ` set (t_edges d')" for e
  proof (cases "e = eh")
    case True
    then show ?thesis using blobs(1) r(5) by (simp add: edge_backed_def conn log eh_def)
  next
    case False
    with that have "e \<in> fst ` set (t_edges d)"
      by (simp add: d'_def commit_db_def edges_register_subset eh_def)
    with ok(7) have "edge_backed s e" by (auto simp: list_all_iff)
    then show ?thesis by (rule edge_backed_commit [OF _ objs]) (simp add: conn log d_def)
  qed
  then have "storage_ok E s'"
    using ok graph chain
    by (simp add: storage_ok_def conn keys objs addressed_put_blob addressed_put_optional list_all_iff)
  with s' r conn_eq log blobs show ?thesis
    by (simp add: conn d_def eh_def blobs.present_iff)
qed

text \<open>C14: in a consistent storage whose keys belong together, committing an edge succeeds: the edge hash
  returned is the content address of its bytes, the graph gains exactly this edge, the log exactly this
  entry, which verifies, edge and proof bytes are retrievable, and the invariant of the facade holds
  again, so every edge of the graph stays backed by a blob and a log entry.\<close>

theorem commit_edge_tx_succeeds:
  assumes "blake3_spec E" and "ed25519_spec E" and "storage_ok E s"
    and "consistent_with (committed (st_conn s)) (hash_bytes E edge_data) ps c"
    and "hash34 c" and "list_all hash34 ps"
  shows "\<exists>s' r. commit_edge_tx E now ps c edge_data proof_blob s = (s', Inr (hash_bytes E edge_data, r)) \<and>
    storage_ok E s' \<and> verify_entry E r = Inr True \<and> le_payload r = edge_data \<and>
    t_log (committed (st_conn s')) = t_log (committed (st_conn s)) @ [r] \<and>
    connectivity (committed (st_conn s')) =
      (connectivity (committed (st_conn s)))(hash_bytes E edge_data \<mapsto> (ps, c)) \<and>
    has (st_objects s') (hash_bytes E edge_data) \<and>
    (\<forall>p. proof_blob = Some p \<longrightarrow> has (st_objects s') (hash_bytes E p))"
  by (rule commit_edge_effect [OF assms])

lemma storage_ok_sample: "storage_ok ref_env sample_storage"
  by (simp add: storage_ok_def connect_def open_db_def sample_key_def) (simp add: empty_db_def)

theorem commit_edge_tx_succeeds_witness:
  "\<exists>s' r. commit_edge_tx ref_env 5 [sample_hash 1] (sample_hash 2) [1, 2, 3] (Some [9]) sample_storage =
      (s', Inr (hash_bytes ref_env [1, 2, 3], r)) \<and>
    storage_ok ref_env s' \<and> verify_entry ref_env r = Inr True \<and> le_payload r = [1, 2, 3] \<and>
    t_log (committed (st_conn s')) = t_log (committed (st_conn sample_storage)) @ [r] \<and>
    connectivity (committed (st_conn s')) =
      (connectivity (committed (st_conn sample_storage)))
        (hash_bytes ref_env [1, 2, 3] \<mapsto> ([sample_hash 1], sample_hash 2)) \<and>
    has (st_objects s') (hash_bytes ref_env [1, 2, 3]) \<and>
    (\<forall>p. Some [9] = Some p \<longrightarrow> has (st_objects s') (hash_bytes ref_env p))"
  by (rule commit_edge_tx_succeeds [OF ref_env_blake3 ref_env_ed25519 storage_ok_sample])
    (simp_all add: consistent_with_def connectivity_def connect_def open_db_def,
     simp add: empty_db_def)

section \<open>Reading\<close>

text \<open>
  What the query and attestation layers ask of a storage. A backend may raise on any of them; the
  in-process one reads its object store and its connection.
\<close>

record reader =
  rd_get :: "hash \<Rightarrow> bytes option res"
  rd_all_nodes :: "hash list res"
  rd_all_edges :: "hash list res"
  rd_incoming :: "hash \<Rightarrow> hash list res"
  rd_log_len :: "int res"
  rd_log_get :: "int \<Rightarrow> log_entry option res"
  rd_log_root :: "hash res"

definition sqlite_reader :: "env \<Rightarrow> storage \<Rightarrow> reader" where
  "sqlite_reader E s =
     \<lparr> rd_get = (\<lambda>h. Inr (get (st_objects s) h)),
       rd_all_nodes = all_nodes (st_conn s),
       rd_all_edges = all_edges (st_conn s),
       rd_incoming = incoming_edges (st_conn s),
       rd_log_len = Inr (log_len (st_conn s)),
       rd_log_get = log_get (st_conn s),
       rd_log_root = log_root_hash E (st_conn s) \<rparr>"

lemma sqlite_reader_simps [simp]:
  "rd_get (sqlite_reader E s) h = Inr (get (st_objects s) h)"
  "rd_all_nodes (sqlite_reader E s) = all_nodes (st_conn s)"
  "rd_all_edges (sqlite_reader E s) = all_edges (st_conn s)"
  "rd_incoming (sqlite_reader E s) = incoming_edges (st_conn s)"
  "rd_log_len (sqlite_reader E s) = Inr (log_len (st_conn s))"
  "rd_log_get (sqlite_reader E s) = log_get (st_conn s)"
  "rd_log_root (sqlite_reader E s) = log_root_hash E (st_conn s)"
  by (simp_all add: sqlite_reader_def)

text \<open>
  The contract the query layer relies on: enumeration of edges and the incoming edges of a node are
  consistent, and every enumerated edge has a blob under its address.
\<close>

locale edge_reader =
  fixes every :: "'s \<Rightarrow> 'h::linorder list res"
    and incoming :: "'s \<Rightarrow> 'h \<Rightarrow> 'h list res"
    and blob :: "'s \<Rightarrow> 'h \<Rightarrow> 'd option res"
    and inv :: "'s \<Rightarrow> bool"
  assumes every_ok: "inv s \<Longrightarrow> \<exists>es. every s = Inr es \<and> sorted es \<and> distinct es \<and>
            (\<forall>e \<in> set es. \<exists>b. blob s e = Inr (Some b))"
    and incoming_ok: "inv s \<Longrightarrow> every s = Inr es \<Longrightarrow>
            \<exists>ins. incoming s n = Inr ins \<and> sorted ins \<and> distinct ins \<and> set ins \<subseteq> set es"
begin

lemma incoming_backed:
  assumes "inv s" and "incoming s n = Inr ins" and "e \<in> set ins"
  shows "\<exists>b. blob s e = Inr (Some b)"
proof -
  obtain es where es: "every s = Inr es" "\<forall>e \<in> set es. \<exists>b. blob s e = Inr (Some b)"
    using every_ok [OF assms(1)] by blast
  with incoming_ok [OF assms(1) es(1), of n] assms(2,3) show ?thesis by auto
qed

end

interpretation reads: edge_reader
  "\<lambda>s. rd_all_edges (sqlite_reader E s)" "\<lambda>s. rd_incoming (sqlite_reader E s)"
  "\<lambda>s. rd_get (sqlite_reader E s)" "storage_ok E" for E
proof
  fix s
  assume s: "storage_ok E s"
  then have ok: "graph_ok (view (st_conn s))" by (simp add: storage_ok_view) (simp add: storage_ok_def)
  have backed: "\<exists>b. get (st_objects s) e = Some b" if "e \<in> dom (connectivity (view (st_conn s)))" for e
    using s that
    by (fastforce simp: storage_ok_view storage_ok_def list_all_iff edge_backed_def connectivity_def
        dest!: map_of_SomeD)
  show "\<exists>es. rd_all_edges (sqlite_reader E s) = Inr es \<and> sorted es \<and> distinct es \<and>
      (\<forall>e\<in>set es. \<exists>b. rd_get (sqlite_reader E s) e = Inr (Some b))"
    using all_edges_eq [OF ok] backed by auto
  fix es n
  assume "rd_all_edges (sqlite_reader E s) = Inr es"
  then show "\<exists>ins. rd_incoming (sqlite_reader E s) n = Inr ins \<and> sorted ins \<and> distinct ins \<and> set ins \<subseteq> set es"
    using all_edges_eq [OF ok] incoming_edges_eq [OF ok, of n] by auto
qed

end
