(* ===== verification/Schema.thy ===== *)
theory Schema
  imports Storage
begin

text \<open>
  \<^verbatim>\<open>verification/schema.py\<close>: the enumerations, the records \<open>node\<close> and \<open>edge\<close>, their canonical encodings
  and content addresses, and the decoders. A value outside the type a dataclass field is annotated with
  is outside the model: the decoders stop there with the error \<open>Untyped\<close>, where the code builds an
  ill-typed record.
\<close>

section \<open>Enumerations\<close>

datatype EdgeType =
    DEFINITION | DEDUCTION | NUMERICAL | SPECTRAL | REDUCTION | REFUTATION | ANALOGY | CITATION

datatype Kappa = K0 | K1 | K2 | K3 | K_INF

datatype Verdict = PASS | SOFT_FLAG | HARD_VETO

fun edge_type_value :: "EdgeType \<Rightarrow> pystr" where
  "edge_type_value DEFINITION = str ''definition''"
| "edge_type_value DEDUCTION = str ''deduction''"
| "edge_type_value NUMERICAL = str ''numerical''"
| "edge_type_value SPECTRAL = str ''spectral''"
| "edge_type_value REDUCTION = str ''reduction''"
| "edge_type_value REFUTATION = str ''refutation''"
| "edge_type_value ANALOGY = str ''analogy''"
| "edge_type_value CITATION = str ''citation''"

fun kappa_value :: "Kappa \<Rightarrow> pystr" where
  "kappa_value K0 = str ''K0''"
| "kappa_value K1 = str ''K1''"
| "kappa_value K2 = str ''K2''"
| "kappa_value K3 = str ''K3''"
| "kappa_value K_INF = str ''K_INF''"

fun verdict_value :: "Verdict \<Rightarrow> pystr" where
  "verdict_value PASS = str ''PASS''"
| "verdict_value SOFT_FLAG = str ''SOFT_FLAG''"
| "verdict_value HARD_VETO = str ''HARD_VETO''"

text \<open>Calling an enumeration on a value: the member with that value, else \<open>ValueError\<close>.\<close>

definition enum_of :: "'m list \<Rightarrow> ('m \<Rightarrow> pystr) \<Rightarrow> pyval \<Rightarrow> 'm res" where
  "enum_of members val v =
     (case v of
        PStr s \<Rightarrow> (case find (\<lambda>m. val m = s) members of None \<Rightarrow> Inl ValueError | Some m \<Rightarrow> Inr m)
      | _ \<Rightarrow> Inl ValueError)"

definition edge_types :: "EdgeType list" where
  "edge_types = [DEFINITION, DEDUCTION, NUMERICAL, SPECTRAL, REDUCTION, REFUTATION, ANALOGY, CITATION]"

definition edge_type_of :: "pyval \<Rightarrow> EdgeType res" where
  "edge_type_of = enum_of edge_types edge_type_value"

definition kappa_of :: "pyval \<Rightarrow> Kappa res" where
  "kappa_of = enum_of [K0, K1, K2, K3, K_INF] kappa_value"

definition verdict_of :: "pyval \<Rightarrow> Verdict res" where
  "verdict_of = enum_of [PASS, SOFT_FLAG, HARD_VETO] verdict_value"

section \<open>Records\<close>

record node =
  n_claim :: pystr
  n_domain :: pystr
  n_polarity :: bool

record edge =
  e_type :: EdgeType
  e_premises :: "hash list"
  e_conclusion :: hash
  e_rule :: pystr
  e_proof_hash :: "hash option"
  e_verdict :: Verdict
  e_kappa :: Kappa
  e_signer_pubkey :: bytes

definition node_to_canonical :: "node \<Rightarrow> pyval" where
  "node_to_canonical n =
     PDict [(PStr (str ''claim''), PStr (n_claim n)),
            (PStr (str ''domain''), PStr (n_domain n)),
            (PStr (str ''polarity''), PBool (n_polarity n))]"

definition node_bytes :: "env \<Rightarrow> node \<Rightarrow> bytes res" where
  "node_bytes E n = canonical_encode E (node_to_canonical n)"

definition node_id :: "env \<Rightarrow> node \<Rightarrow> hash res" where
  "node_id E n = and_then (node_bytes E n) (\<lambda>bs. Inr (hash_bytes E bs))"

definition optional_bytes :: "bytes option \<Rightarrow> pyval" where
  "optional_bytes p = (case p of None \<Rightarrow> PNone | Some h \<Rightarrow> PBytes h)"

definition edge_to_canonical :: "edge \<Rightarrow> pyval" where
  "edge_to_canonical e =
     PDict [(PStr (str ''type''), PStr (edge_type_value (e_type e))),
            (PStr (str ''premises''), PList (map PBytes (e_premises e))),
            (PStr (str ''conclusion''), PBytes (e_conclusion e)),
            (PStr (str ''rule''), PStr (e_rule e)),
            (PStr (str ''proof_hash''), optional_bytes (e_proof_hash e)),
            (PStr (str ''verdict''), PStr (verdict_value (e_verdict e))),
            (PStr (str ''kappa''), PStr (kappa_value (e_kappa e))),
            (PStr (str ''signer_pubkey''), PBytes (e_signer_pubkey e))]"

definition edge_bytes :: "env \<Rightarrow> edge \<Rightarrow> bytes res" where
  "edge_bytes E e = canonical_encode E (edge_to_canonical e)"

definition edge_hash :: "env \<Rightarrow> edge \<Rightarrow> hash res" where
  "edge_hash E e = and_then (edge_bytes E e) (\<lambda>bs. Inr (hash_bytes E bs))"

section \<open>Decoding\<close>

definition Untyped :: py_error where
  "Untyped = OtherError (str ''untyped field'')"

text \<open>Python operations on a decoded value: \<open>d[key]\<close>, iteration, and \<open>Hash(v)\<close>.\<close>

fun py_item :: "pyval \<Rightarrow> string \<Rightarrow> pyval res" where
  "py_item (PDict d) key =
     (case map_of d (PStr (str key)) of None \<Rightarrow> Inl KeyError | Some v \<Rightarrow> Inr v)"
| "py_item _ key = Inl TypeError"

fun py_iter :: "pyval \<Rightarrow> pyval list res" where
  "py_iter (PList xs) = Inr xs"
| "py_iter (PTuple xs) = Inr xs"
| "py_iter (PSet xs) = Inr xs"
| "py_iter (PDict d) = Inr (map fst d)"
| "py_iter (PStr s) = Inr (map (\<lambda>c. PStr [c]) s)"
| "py_iter (PBytes b) = Inr (map (\<lambda>x. PInt (uint x)) b)"
| "py_iter _ = Inl TypeError"

fun byte_of_item :: "pyval \<Rightarrow> byte res" where
  "byte_of_item (PInt i) = (if 0 \<le> i \<and> i < 256 then Inr (of_int i) else Inl ValueError)"
| "byte_of_item (PBool b) = Inr (if b then 1 else 0)"
| "byte_of_item _ = Inl TypeError"

fun Hash_of :: "pyval \<Rightarrow> hash res" where
  "Hash_of (PBytes b) = Hash b"
| "Hash_of (PStr s) = (if length s \<noteq> HASH_SIZE then Inl ValueError else Inl TypeError)"
| "Hash_of (PList xs) = (if length xs \<noteq> HASH_SIZE then Inl ValueError else map_res byte_of_item xs)"
| "Hash_of (PTuple xs) = (if length xs \<noteq> HASH_SIZE then Inl ValueError else map_res byte_of_item xs)"
| "Hash_of (PSet xs) = (if length xs \<noteq> HASH_SIZE then Inl ValueError else map_res byte_of_item xs)"
| "Hash_of (PDict d) =
     (if length d \<noteq> HASH_SIZE then Inl ValueError else map_res byte_of_item (map fst d))"
| "Hash_of _ = Inl TypeError"

fun as_str :: "pyval \<Rightarrow> pystr res" where
  "as_str (PStr s) = Inr s"
| "as_str _ = Inl Untyped"

fun as_bool :: "pyval \<Rightarrow> bool res" where
  "as_bool (PBool b) = Inr b"
| "as_bool _ = Inl Untyped"

fun as_bytes :: "pyval \<Rightarrow> bytes res" where
  "as_bytes (PBytes b) = Inr b"
| "as_bytes _ = Inl Untyped"

definition node_from_bytes :: "env \<Rightarrow> bytes \<Rightarrow> node res" where
  "node_from_bytes E data =
     and_then (canonical_decode E data) (\<lambda>d.
     and_then (py_item d ''claim'') (\<lambda>claim.
     and_then (py_item d ''domain'') (\<lambda>domain.
     and_then (py_item d ''polarity'') (\<lambda>polarity.
     and_then (as_str claim) (\<lambda>c.
     and_then (as_str domain) (\<lambda>dom.
     and_then (as_bool polarity) (\<lambda>p.
       Inr \<lparr> n_claim = c, n_domain = dom, n_polarity = p \<rparr>)))))))"

definition edge_from_bytes :: "env \<Rightarrow> bytes \<Rightarrow> edge res" where
  "edge_from_bytes E data =
     and_then (canonical_decode E data) (\<lambda>d.
     and_then (and_then (py_item d ''type'') edge_type_of) (\<lambda>type.
     and_then (and_then (and_then (py_item d ''premises'') py_iter) (map_res Hash_of)) (\<lambda>premises.
     and_then (and_then (py_item d ''conclusion'') Hash_of) (\<lambda>conclusion.
     and_then (py_item d ''rule'') (\<lambda>rule.
     and_then (and_then (py_item d ''proof_hash'')
         (\<lambda>v. if v = PNone then Inr None else and_then (Hash_of v) (\<lambda>h. Inr (Some h)))) (\<lambda>proof_hash.
     and_then (and_then (py_item d ''verdict'') verdict_of) (\<lambda>verdict.
     and_then (and_then (py_item d ''kappa'') kappa_of) (\<lambda>kappa.
     and_then (py_item d ''signer_pubkey'') (\<lambda>signer.
     and_then (as_str rule) (\<lambda>r.
     and_then (as_bytes signer) (\<lambda>s.
       Inr \<lparr> e_type = type, e_premises = premises, e_conclusion = conclusion, e_rule = r,
             e_proof_hash = proof_hash, e_verdict = verdict, e_kappa = kappa,
             e_signer_pubkey = s \<rparr>)))))))))))"

section \<open>Encodings never fail\<close>

lemma str_inject [simp]: "str s = str t \<longleftrightarrow> s = t"
  by (simp add: str_def inj_map_eq_map inj_on_def)

lemma map_PBytes_canonical: "map_res (canonicalize E) (map PBytes hs) = Inr (map PBytes hs)"
  by (induction hs) auto

lemma canonicalize_optional [simp]: "canonicalize E (optional_bytes p) = Inr (optional_bytes p)"
  by (simp add: optional_bytes_def split: option.splits)

lemma node_bytes_eq: "node_bytes E n = Inr (cbor_dumps E (node_to_canonical n))"
  by (simp add: node_bytes_def canonical_encode_def node_to_canonical_def dict_of_items_distinct)

lemma edge_bytes_eq: "edge_bytes E e = Inr (cbor_dumps E (edge_to_canonical e))"
  by (simp add: edge_bytes_def canonical_encode_def edge_to_canonical_def dict_of_items_distinct
      map_PBytes_canonical)

lemma node_id_eq: "node_id E n = Inr (hash_bytes E (cbor_dumps E (node_to_canonical n)))"
  by (simp add: node_id_def node_bytes_eq)

lemma edge_hash_eq: "edge_hash E e = Inr (hash_bytes E (cbor_dumps E (edge_to_canonical e)))"
  by (simp add: edge_hash_def edge_bytes_eq)

section \<open>Decoding an encoding\<close>

lemma edge_type_of_value [simp]: "edge_type_of (PStr (edge_type_value t)) = Inr t"
  by (cases t) (simp_all add: edge_type_of_def enum_of_def edge_types_def)

lemma kappa_of_value [simp]: "kappa_of (PStr (kappa_value k)) = Inr k"
  by (cases k) (simp_all add: kappa_of_def enum_of_def)

lemma verdict_of_value [simp]: "verdict_of (PStr (verdict_value v)) = Inr v"
  by (cases v) (simp_all add: verdict_of_def enum_of_def)

text \<open>An enumeration accepts exactly the values of its members.\<close>

lemma enum_of_eq_Inr: "enum_of ms val v = Inr m \<Longrightarrow> m \<in> set ms \<and> v = PStr (val m)"
  by (auto simp: enum_of_def find_Some_iff split: pyval.splits option.splits)

lemma py_item_eq:
  assumes "py_eq (PDict d) w" and "map_of d (PStr (str key)) = Some v"
  shows "\<exists>v'. py_item w key = Inr v' \<and> py_eq v v'"
  using py_eq_dict_lookup [OF assms] by (metis option.simps(5) py_item.simps(1))

lemma py_item_scalar:
  assumes "py_eq (PDict d) w" and "map_of d (PStr (str key)) = Some v" and "scalar v"
  shows "py_item w key = Inr v"
  using py_item_eq [OF assms(1,2)] assms(3) by (auto simp: py_eq_scalar)

lemma py_item_missing:
  assumes "py_eq (PDict d) w" and "PStr (str key) \<notin> fst ` set d"
  shows "py_item w key = Inl KeyError"
proof -
  obtain d' where w: "w = PDict d'" using assms(1) by (cases w) auto
  from py_eq_dict_keys [OF assms(1) [unfolded w]] assms(2)
  have "map_of d' (PStr (str key)) = None" by (simp add: map_of_eq_None_iff)
  then show ?thesis by (simp add: w)
qed

lemma scalar_optional [simp]: "scalar (optional_bytes p)"
  by (simp add: optional_bytes_def split: option.splits)

lemma encodable_node: "encodable (node_to_canonical n)"
  by (simp add: node_to_canonical_def)

lemma encodable_scalar: "scalar v \<Longrightarrow> encodable v"
  by (cases v) auto

lemma encodable_edge: "encodable (edge_to_canonical e)"
  by (simp add: edge_to_canonical_def encodable_scalar list_all_iff)

lemma decode_node:
  assumes "cbor_spec E"
  obtains w where "canonical_decode E (cbor_dumps E (node_to_canonical n)) = Inr w"
    and "py_eq (node_to_canonical n) w"
  using cbor_specD [OF assms encodable_node, of n] by (auto simp: canonical_decode_def)

lemma decode_edge:
  assumes "cbor_spec E"
  obtains w where "canonical_decode E (cbor_dumps E (edge_to_canonical e)) = Inr w"
    and "py_eq (edge_to_canonical e) w"
  using cbor_specD [OF assms encodable_edge, of e] by (auto simp: canonical_decode_def)

lemma node_decode_encode:
  assumes "cbor_spec E"
  shows "node_from_bytes E (cbor_dumps E (node_to_canonical n)) = Inr n"
proof -
  obtain w where w: "canonical_decode E (cbor_dumps E (node_to_canonical n)) = Inr w"
    and eq: "py_eq (node_to_canonical n) w" using decode_node [OF assms] by blast
  note item = py_item_scalar [OF eq [unfolded node_to_canonical_def]]
  have "py_item w ''claim'' = Inr (PStr (n_claim n))" "py_item w ''domain'' = Inr (PStr (n_domain n))"
    "py_item w ''polarity'' = Inr (PBool (n_polarity n))"
    by (rule item; simp)+
  then show ?thesis by (simp add: node_from_bytes_def w)
qed

lemma map_res_Hash_PBytes:
  "list_all hash34 hs \<Longrightarrow> map_res Hash_of (map PBytes hs) = Inr hs"
  by (induction hs) (auto simp: hash34_def Hash_def HASH_SIZE_def)

lemma edge_decode_encode:
  assumes "cbor_spec E" and "list_all hash34 (e_premises e)" and "hash34 (e_conclusion e)"
    and "\<And>h. e_proof_hash e = Some h \<Longrightarrow> hash34 h"
  shows "edge_from_bytes E (cbor_dumps E (edge_to_canonical e)) = Inr e"
proof -
  obtain w where w: "canonical_decode E (cbor_dumps E (edge_to_canonical e)) = Inr w"
    and eq: "py_eq (edge_to_canonical e) w" using decode_edge [OF assms(1)] by blast
  note item = py_item_scalar [OF eq [unfolded edge_to_canonical_def]]
  have "\<exists>v'. py_item w ''premises'' = Inr v' \<and> py_eq (PList (map PBytes (e_premises e))) v'"
    by (rule py_item_eq [OF eq [unfolded edge_to_canonical_def]]) simp
  then have ps: "py_item w ''premises'' = Inr (PList (map PBytes (e_premises e)))"
    using py_eq_scalars [of "map PBytes (e_premises e)"] by (auto simp: list_all_iff)
  have items: "py_item w ''type'' = Inr (PStr (edge_type_value (e_type e)))"
    "py_item w ''conclusion'' = Inr (PBytes (e_conclusion e))"
    "py_item w ''rule'' = Inr (PStr (e_rule e))"
    "py_item w ''proof_hash'' = Inr (optional_bytes (e_proof_hash e))"
    "py_item w ''verdict'' = Inr (PStr (verdict_value (e_verdict e)))"
    "py_item w ''kappa'' = Inr (PStr (kappa_value (e_kappa e)))"
    "py_item w ''signer_pubkey'' = Inr (PBytes (e_signer_pubkey e))"
    by (rule item; simp)+
  show ?thesis
    using assms(2-4) map_res_Hash_PBytes [of "e_premises e"]
    by (cases "e_proof_hash e")
      (simp_all add: edge_from_bytes_def w items ps optional_bytes_def hash34_def Hash_def HASH_SIZE_def)
qed

text \<open>Node records and edge records have disjoint key sets, so neither decodes as the other.\<close>

lemma node_as_edge:
  assumes "cbor_spec E"
  shows "edge_from_bytes E (cbor_dumps E (node_to_canonical n)) = Inl KeyError"
proof -
  obtain w where w: "canonical_decode E (cbor_dumps E (node_to_canonical n)) = Inr w"
    and eq: "py_eq (node_to_canonical n) w" using decode_node [OF assms] by blast
  have "py_item w ''type'' = Inl KeyError"
    by (rule py_item_missing [OF eq [unfolded node_to_canonical_def]]) simp
  then show ?thesis by (simp add: edge_from_bytes_def w)
qed

lemma edge_as_node:
  assumes "cbor_spec E"
  shows "node_from_bytes E (cbor_dumps E (edge_to_canonical e)) = Inl KeyError"
proof -
  obtain w where w: "canonical_decode E (cbor_dumps E (edge_to_canonical e)) = Inr w"
    and eq: "py_eq (edge_to_canonical e) w" using decode_edge [OF assms] by blast
  have "py_item w ''claim'' = Inl KeyError"
    by (rule py_item_missing [OF eq [unfolded edge_to_canonical_def]]) simp
  then show ?thesis by (simp add: node_from_bytes_def w)
qed

lemma cbor_dumps_inj:
  assumes "cbor_spec E"
  shows "cbor_dumps E (node_to_canonical n) = cbor_dumps E (node_to_canonical m) \<longleftrightarrow> n = m"
    and "cbor_dumps E (node_to_canonical n) \<noteq> cbor_dumps E (edge_to_canonical e)"
proof -
  have "n = m" if eq: "cbor_dumps E (node_to_canonical n) = cbor_dumps E (node_to_canonical m)"
    using node_decode_encode [OF assms, of n] node_decode_encode [OF assms, of m] unfolding eq by simp
  then show "cbor_dumps E (node_to_canonical n) = cbor_dumps E (node_to_canonical m) \<longleftrightarrow> n = m"
    by blast
  show "cbor_dumps E (node_to_canonical n) \<noteq> cbor_dumps E (edge_to_canonical e)"
  proof
    assume eq: "cbor_dumps E (node_to_canonical n) = cbor_dumps E (edge_to_canonical e)"
    show False
      using node_decode_encode [OF assms, of n] edge_as_node [OF assms, of e] unfolding eq by simp
  qed
qed

definition edge_hashes_ok :: "edge \<Rightarrow> bool" where
  "edge_hashes_ok e \<longleftrightarrow> list_all hash34 (e_premises e) \<and> hash34 (e_conclusion e) \<and>
     (case e_proof_hash e of None \<Rightarrow> True | Some h \<Rightarrow> hash34 h)"

lemma edge_decode_ok:
  assumes "cbor_spec E" and "edge_hashes_ok e"
  shows "edge_from_bytes E (cbor_dumps E (edge_to_canonical e)) = Inr e"
  by (rule edge_decode_encode [OF assms(1)]) (use assms(2) in \<open>simp_all add: edge_hashes_ok_def\<close>)

section \<open>Properties\<close>

text \<open>Node and edge records survive encoding: the canonical bytes of a node decode to that node and
  those of an edge with 34-byte hashes to that edge, and since the two have disjoint keys, the bytes of
  one are refused by the decoder of the other.\<close>

theorem schema_roundtrip:
  assumes "cbor_spec E" and "edge_hashes_ok e"
  shows "\<exists>nb eb. node_bytes E n = Inr nb \<and> edge_bytes E e = Inr eb \<and>
    node_from_bytes E nb = Inr n \<and> edge_from_bytes E eb = Inr e \<and>
    edge_from_bytes E nb = Inl KeyError \<and> node_from_bytes E eb = Inl KeyError"
  by (simp add: node_bytes_eq edge_bytes_eq node_decode_encode [OF assms(1)] edge_decode_ok [OF assms]
      node_as_edge [OF assms(1)] edge_as_node [OF assms(1)])

definition sample_node :: "string \<Rightarrow> node" where
  "sample_node s = \<lparr> n_claim = str s, n_domain = str ''math'', n_polarity = True \<rparr>"

definition sample_edge :: edge where
  "sample_edge =
     \<lparr> e_type = DEDUCTION, e_premises = [sample_hash 1, sample_hash 2], e_conclusion = sample_hash 3,
       e_rule = str ''modus ponens'', e_proof_hash = Some (sample_hash 4), e_verdict = PASS,
       e_kappa = K3, e_signer_pubkey = sample_key \<rparr>"

theorem schema_roundtrip_witness:
  "\<exists>nb eb. node_bytes ref_env (sample_node ''x = x'') = Inr nb \<and> edge_bytes ref_env sample_edge = Inr eb \<and>
    node_from_bytes ref_env nb = Inr (sample_node ''x = x'') \<and>
    edge_from_bytes ref_env eb = Inr sample_edge \<and>
    edge_from_bytes ref_env nb = Inl KeyError \<and> node_from_bytes ref_env eb = Inl KeyError"
  by (rule schema_roundtrip [OF ref_env_cbor]) (simp add: edge_hashes_ok_def sample_edge_def)

text \<open>C34: a content address binds the record: two nodes with the same id are the same claim, domain and
  polarity (so a claim and its negation never share an id), two edges with the same hash have the same
  premises, conclusion, proof hash, verdict, strength and signer, and no node id is an edge hash, as
  long as the digest does not collide on the encodings involved.\<close>

theorem content_address_binds:
  assumes "cbor_spec E" and "edge_hashes_ok e" and "edge_hashes_ok e'"
    and "collision_free E {cbor_dumps E (node_to_canonical n), cbor_dumps E (node_to_canonical n'),
           cbor_dumps E (edge_to_canonical e), cbor_dumps E (edge_to_canonical e')}"
  shows "(node_id E n = node_id E n' \<longleftrightarrow> n = n') \<and> (edge_hash E e = edge_hash E e' \<longleftrightarrow> e = e') \<and>
    node_id E n \<noteq> edge_hash E e"
proof -
  note inj = collision_freeD [OF assms(4)]
  have "e = e'" if "edge_hash E e = edge_hash E e'"
  proof -
    have eq: "cbor_dumps E (edge_to_canonical e) = cbor_dumps E (edge_to_canonical e')"
      by (rule inj) (use that in \<open>simp_all add: edge_hash_eq\<close>)
    show ?thesis
      using edge_decode_ok [OF assms(1,2)] edge_decode_ok [OF assms(1,3)] unfolding eq by simp
  qed
  moreover have "n = n'" if "node_id E n = node_id E n'"
  proof -
    have "cbor_dumps E (node_to_canonical n) = cbor_dumps E (node_to_canonical n')"
      by (rule inj) (use that in \<open>simp_all add: node_id_eq\<close>)
    then show ?thesis by (simp add: cbor_dumps_inj [OF assms(1)])
  qed
  moreover have "node_id E n \<noteq> edge_hash E e"
    using inj [of "cbor_dumps E (node_to_canonical n)" "cbor_dumps E (edge_to_canonical e)"]
      cbor_dumps_inj(2) [OF assms(1), of n e]
    by (simp add: node_id_eq edge_hash_eq) blast
  ultimately show ?thesis by auto
qed

theorem content_address_binds_witness:
  "(node_id ref_env (sample_node ''x = x'') = node_id ref_env (sample_node ''y = y'') \<longleftrightarrow>
      sample_node ''x = x'' = sample_node ''y = y'') \<and>
   (edge_hash ref_env sample_edge = edge_hash ref_env sample_edge \<longleftrightarrow> sample_edge = sample_edge) \<and>
    node_id ref_env (sample_node ''x = x'') \<noteq> edge_hash ref_env sample_edge"
proof (rule content_address_binds [OF ref_env_cbor])
  show "edge_hashes_ok sample_edge" "edge_hashes_ok sample_edge"
    by (simp_all add: edge_hashes_ok_def sample_edge_def)
  have "collision_free ref_env (set [cbor_dumps ref_env (node_to_canonical (sample_node ''x = x'')),
      cbor_dumps ref_env (node_to_canonical (sample_node ''y = y'')),
      cbor_dumps ref_env (edge_to_canonical sample_edge)])"
    by (rule collision_free_listI) code_simp
  then show "collision_free ref_env {cbor_dumps ref_env (node_to_canonical (sample_node ''x = x'')),
      cbor_dumps ref_env (node_to_canonical (sample_node ''y = y'')),
      cbor_dumps ref_env (edge_to_canonical sample_edge), cbor_dumps ref_env (edge_to_canonical sample_edge)}"
    by (simp add: insert_commute)
qed

end
