(* ===== verification/Kappa_Algebra.thy ===== *)
theory Kappa_Algebra
  imports Schema
begin

text \<open>
  \<^verbatim>\<open>verification/kappa.py\<close>: the ranks of the strength labels and the algebra of propagation. The labels
  are made a linear order (\<open>instantiation\<close>) so that \<open>Min\<close>, \<open>Max\<close> and the order reasoner apply; the
  two folds the code computes are shown to be the minimum and maximum of that order.
\<close>

section \<open>Definitions\<close>

fun rank :: "Kappa \<Rightarrow> enat" where
  "rank K0 = 0"
| "rank K1 = 1"
| "rank K2 = 2"
| "rank K3 = 3"
| "rank K_INF = \<infinity>"

text \<open>Python's \<open>min\<close> and \<open>max\<close> with a key: the first extremal element.\<close>

definition py_min :: "('a \<Rightarrow> enat) \<Rightarrow> 'a \<Rightarrow> 'a list \<Rightarrow> 'a" where
  "py_min key x xs = foldl (\<lambda>best y. if key y < key best then y else best) x xs"

definition py_max :: "('a \<Rightarrow> enat) \<Rightarrow> 'a \<Rightarrow> 'a list \<Rightarrow> 'a" where
  "py_max key x xs = foldl (\<lambda>best y. if key best < key y then y else best) x xs"

fun min_kappa :: "Kappa list \<Rightarrow> Kappa res" where
  "min_kappa [] = Inl ValueError"
| "min_kappa (k # ks) = Inr (py_min rank k ks)"

fun max_kappa :: "Kappa list \<Rightarrow> Kappa res" where
  "max_kappa [] = Inl ValueError"
| "max_kappa (k # ks) = Inr (py_max rank k ks)"

definition series :: "Kappa \<Rightarrow> Kappa \<Rightarrow> Kappa res" where
  "series a b = min_kappa [a, b]"

definition parallel :: "Kappa list \<Rightarrow> Kappa res" where
  "parallel ks = min_kappa ks"

definition corroborate :: "Kappa list \<Rightarrow> Kappa res" where
  "corroborate ks = max_kappa ks"

section \<open>The linear order of strengths\<close>

lemma rank_inject [simp]: "rank a = rank b \<longleftrightarrow> a = b"
  by (cases a; cases b) (simp_all add: numeral_eq_enat one_enat_def zero_enat_def)

instantiation Kappa :: linorder
begin

definition less_eq_Kappa :: "Kappa \<Rightarrow> Kappa \<Rightarrow> bool" where
  "less_eq_Kappa a b \<longleftrightarrow> rank a \<le> rank b"

definition less_Kappa :: "Kappa \<Rightarrow> Kappa \<Rightarrow> bool" where
  "less_Kappa a b \<longleftrightarrow> rank a < rank b"

instance
proof
  fix a b c :: Kappa
  show "a < b \<longleftrightarrow> a \<le> b \<and> \<not> b \<le> a" by (simp add: less_eq_Kappa_def less_Kappa_def less_le_not_le)
  show "a \<le> a" by (simp add: less_eq_Kappa_def)
  show "a \<le> b \<Longrightarrow> b \<le> c \<Longrightarrow> a \<le> c" by (auto simp: less_eq_Kappa_def)
  show "a \<le> b \<Longrightarrow> b \<le> a \<Longrightarrow> a = b" using rank_inject by (auto simp: less_eq_Kappa_def)
  show "a \<le> b \<or> b \<le> a" by (auto simp: less_eq_Kappa_def)
qed

end

lemma rank_le_iff [simp]: "rank a \<le> rank b \<longleftrightarrow> a \<le> b"
  by (simp add: less_eq_Kappa_def)

lemma rank_less_iff [simp]: "rank a < rank b \<longleftrightarrow> a < b"
  by (simp add: less_Kappa_def)

lemma K0_least [simp]: "K0 \<le> k"
  by (simp add: less_eq_Kappa_def)

lemma K_INF_greatest [simp]: "k \<le> K_INF"
  by (simp add: less_eq_Kappa_def)

lemma K_INF_le [simp]: "K_INF \<le> k \<longleftrightarrow> k = K_INF"
  by (auto intro: antisym)

lemma Kappa_order: "K0 < K1" "K1 < K2" "K2 < K3" "K3 < K_INF"
  by (simp_all add: less_Kappa_def numeral_eq_enat one_enat_def zero_enat_def)

lemma min_K_INF [simp]: "min K_INF k = k" "min k K_INF = (k :: Kappa)"
  by (auto simp: min_def intro: antisym)

lemma UNIV_Kappa: "(UNIV :: Kappa set) = {K0, K1, K2, K3, K_INF}"
  using Kappa.exhaust by blast

lemma finite_Kappa [simp]: "finite (A :: Kappa set)"
  by (rule finite_subset [OF subset_UNIV]) (simp add: UNIV_Kappa)

lemma foldl_min_eq: "foldl (\<lambda>b y. if y < b then y else b) x xs = Min (insert x (set xs))"
  for x :: "'a::linorder"
proof (induction xs arbitrary: x)
  case (Cons y ys)
  have "(if y < x then y else x) = min x y" by (auto simp: min_def)
  moreover have "Min (insert (min x y) (set ys)) = Min (insert x (insert y (set ys)))"
    by (cases "set ys = {}") (simp_all add: min.assoc)
  ultimately show ?case using Cons.IH by simp
qed simp

lemma foldl_max_eq: "foldl (\<lambda>b y. if b < y then y else b) x xs = Max (insert x (set xs))"
  for x :: "'a::linorder"
proof (induction xs arbitrary: x)
  case (Cons y ys)
  have "(if x < y then y else x) = max x y" by (auto simp: max_def)
  moreover have "Max (insert (max x y) (set ys)) = Max (insert x (insert y (set ys)))"
    by (cases "set ys = {}") (simp_all add: max.assoc)
  ultimately show ?case using Cons.IH by simp
qed simp

lemma py_min_rank: "py_min rank k ks = Min (insert k (set ks))"
  by (simp add: py_min_def foldl_min_eq)

lemma py_max_rank: "py_max rank k ks = Max (insert k (set ks))"
  by (simp add: py_max_def foldl_max_eq)

lemma min_kappa_eq: "ks \<noteq> [] \<Longrightarrow> min_kappa ks = Inr (Min (set ks))"
  by (cases ks) (simp_all add: py_min_rank)

lemma max_kappa_eq: "ks \<noteq> [] \<Longrightarrow> max_kappa ks = Inr (Max (set ks))"
  by (cases ks) (simp_all add: py_max_rank)

section \<open>The contract\<close>

text \<open>
  A bounded strength scale with its conjunction and corroboration: what the traversal relies on.
\<close>

locale strength_scale =
  fixes conj :: "'k::linorder list \<Rightarrow> 'k res"
    and disj :: "'k list \<Rightarrow> 'k res"
    and top :: 'k
  assumes conj_eq: "ks \<noteq> [] \<Longrightarrow> conj ks = Inr (Min (set ks))"
    and disj_eq: "ks \<noteq> [] \<Longrightarrow> disj ks = Inr (Max (set ks))"
    and conj_empty: "\<exists>e. conj [] = Inl e"
    and top_greatest: "k \<le> top"
begin

lemma conj_ge_iff: "conj ks = Inr k \<Longrightarrow> m \<le> k \<longleftrightarrow> (\<forall>x \<in> set ks. m \<le> x)"
  using conj_eq [of ks] conj_empty by (cases "ks = []") auto

lemma disj_ge_iff: "ks \<noteq> [] \<Longrightarrow> disj ks = Inr k \<Longrightarrow> m \<le> k \<longleftrightarrow> (\<exists>x \<in> set ks. m \<le> x)"
  using disj_eq [of ks] by (auto simp: Max_ge_iff)

lemma absorb_top: "ks \<noteq> [] \<Longrightarrow> conj (top # ks) = conj ks"
  using conj_eq [of ks] conj_eq [of "top # ks"] top_greatest by (simp add: min_absorb2)

lemma conj_set: "set ks = set ls \<Longrightarrow> ks \<noteq> [] \<Longrightarrow> conj ks = conj ls"
  by (metis conj_eq set_empty)

lemma conj_nested:
  assumes "conj ks = Inr k"
  shows "conj (k # ls) = conj (ks @ ls)"
proof -
  have "ks \<noteq> []" using assms conj_empty by auto
  moreover from this have "k = Min (set ks)" using assms conj_eq [of ks] by simp
  ultimately show ?thesis
    using conj_eq [of "k # ls"] conj_eq [of "ks @ ls"] by (cases "ls = []") (simp_all add: Min_Un)
qed

end

interpretation kap: strength_scale min_kappa max_kappa K_INF
  by unfold_locales (simp_all add: min_kappa_eq max_kappa_eq)

section \<open>Properties\<close>

text \<open>Axiom absorption: adding an axiom (\<open>K_INF\<close>) to a non-empty conjunction never changes its
  strength, so it cannot mask a weak premise; and a conjunction is at least as strong as \<open>m\<close> exactly
  when every member is, a corroboration exactly when some member is.\<close>

theorem kappa_absorption:
  assumes "ks \<noteq> []"
  shows "parallel (K_INF # ks) = parallel ks \<and>
    (\<exists>k. parallel ks = Inr k \<and> k \<in> set ks \<and> (\<forall>m. rank m \<le> rank k \<longleftrightarrow> (\<forall>x \<in> set ks. rank m \<le> rank x))) \<and>
    (\<exists>k. corroborate ks = Inr k \<and> k \<in> set ks \<and>
       (\<forall>m. rank m \<le> rank k \<longleftrightarrow> (\<exists>x \<in> set ks. rank m \<le> rank x)))"
  using assms kap.absorb_top [OF assms] kap.conj_ge_iff [of ks] kap.disj_ge_iff [of ks]
  by (simp add: parallel_def corroborate_def min_kappa_eq max_kappa_eq)

theorem kappa_absorption_witness:
  "parallel (K_INF # [K2, K_INF]) = parallel [K2, K_INF] \<and>
    (\<exists>k. parallel [K2, K_INF] = Inr k \<and> k \<in> set [K2, K_INF] \<and>
       (\<forall>m. rank m \<le> rank k \<longleftrightarrow> (\<forall>x \<in> set [K2, K_INF]. rank m \<le> rank x))) \<and>
    (\<exists>k. corroborate [K2, K_INF] = Inr k \<and> k \<in> set [K2, K_INF] \<and>
       (\<forall>m. rank m \<le> rank k \<longleftrightarrow> (\<exists>x \<in> set [K2, K_INF]. rank m \<le> rank x)))"
  by (rule kappa_absorption) simp

end
