(* ===== verification/Strings.thy ===== *)
theory Strings
  imports Prelude
begin

text \<open>
  What the verification layer uses of Python's \<open>str\<close> and \<open>re\<close>: white space and \<open>split\<close>, \<open>strip\<close>,
  \<open>join\<close>, the runs of a character class, \<open>repr\<close>, \<open>int\<close> of a string, and regular expressions matched
  with \<open>re.IGNORECASE\<close>. The matcher is executable; \<open>fits\<close> gives the meaning of a pattern and
  \<open>search_iff\<close> shows that the matcher finds exactly the occurrences.
\<close>

section \<open>Characters\<close>

text \<open>
  What the Unicode database says of a code point beyond ASCII: \<open>isalnum\<close>, \<open>isprintable\<close>, and the
  value of a decimal digit.
\<close>

record unicode =
  uni_alnum :: "nat \<Rightarrow> bool"
  uni_printable :: "nat \<Rightarrow> bool"
  uni_digit :: "nat \<Rightarrow> nat option"

text \<open>The tables restricted to ASCII: nothing above it is a letter, printable or a digit.\<close>

definition ascii :: unicode where
  "ascii = \<lparr> uni_alnum = (\<lambda>c. False), uni_printable = (\<lambda>c. False), uni_digit = (\<lambda>c. None) \<rparr>"

definition is_space :: "nat \<Rightarrow> bool" where
  "is_space c \<longleftrightarrow>
     (9 \<le> c \<and> c \<le> 13) \<or> (28 \<le> c \<and> c \<le> 32) \<or> c = 133 \<or> c = 160 \<or> c = 5760 \<or>
     (8192 \<le> c \<and> c \<le> 8202) \<or> c = 8232 \<or> c = 8233 \<or> c = 8239 \<or> c = 8287 \<or> c = 12288"

definition ascii_alnum :: "nat \<Rightarrow> bool" where
  "ascii_alnum c \<longleftrightarrow> (48 \<le> c \<and> c \<le> 57) \<or> (65 \<le> c \<and> c \<le> 90) \<or> (97 \<le> c \<and> c \<le> 122)"

definition word_char :: "unicode \<Rightarrow> nat \<Rightarrow> bool" where
  "word_char U c \<longleftrightarrow> (if c < 128 then ascii_alnum c \<or> c = 95 else uni_alnum U c)"

text \<open>
  \<open>str.lower\<close>, as far as ASCII letters go: beyond ASCII only the dotted capital I and the Kelvin sign
  have an ASCII letter in their lower case; the others are left alone, being no ASCII letter after
  \<open>lower\<close> either.
\<close>

definition lower_char :: "nat \<Rightarrow> pystr" where
  "lower_char c =
     (if 65 \<le> c \<and> c \<le> 90 then [c + 32]
      else if c = 304 then [105, 775] else if c = 8490 then [107] else [c])"

definition lower :: "pystr \<Rightarrow> pystr" where
  "lower s = concat (map lower_char s)"

section \<open>Splitting and joining\<close>

text \<open>The maximal runs of characters that satisfy a predicate, from left to right.\<close>

function runs :: "(nat \<Rightarrow> bool) \<Rightarrow> pystr \<Rightarrow> pystr list" where
  "runs P s =
     (case dropWhile (\<lambda>c. \<not> P c) s of
        [] \<Rightarrow> []
      | c # r \<Rightarrow> (c # takeWhile P r) # runs P (dropWhile P r))"
  by pat_completeness auto
termination
proof (relation "measure (\<lambda>(P, s). length s)", goal_cases)
  case 1
  show ?case by simp
next
  case (2 P s c r)
  then have "length (c # r) \<le> length s" by (metis length_dropWhile_le)
  then show ?case using length_dropWhile_le [of P r] by simp
qed

declare runs.simps [simp del]

definition words :: "pystr \<Rightarrow> pystr list" where
  "words = runs (\<lambda>c. \<not> is_space c)"

definition strip :: "pystr \<Rightarrow> pystr" where
  "strip s = rev (dropWhile is_space (rev (dropWhile is_space s)))"

fun join :: "pystr \<Rightarrow> pystr list \<Rightarrow> pystr" where
  "join sep [] = []"
| "join sep [x] = x"
| "join sep (x # y # xs) = x @ sep @ join sep (y # xs)"

text \<open>\<open>s.split(c, 1)\<close> for a character that occurs in \<open>s\<close>.\<close>

definition split_once :: "nat \<Rightarrow> pystr \<Rightarrow> pystr \<times> pystr" where
  "split_once c s = (takeWhile (\<lambda>x. x \<noteq> c) s, tl (dropWhile (\<lambda>x. x \<noteq> c) s))"

lemma runs_Nil [simp]: "runs P [] = []"
  by (simp add: runs.simps)

lemma runs_skip: "\<not> P c \<Longrightarrow> runs P (c # s) = runs P s"
  by (simp add: runs.simps [of P "c # s"] runs.simps [of P s])

lemma runs_skip_all: "list_all (\<lambda>c. \<not> P c) u \<Longrightarrow> runs P (u @ s) = runs P s"
  by (induction u) (simp_all add: runs_skip)

lemma runs_run:
  assumes "w \<noteq> []" and "list_all P w" and "v = [] \<or> \<not> P (hd v)"
  shows "runs P (w @ v) = w # runs P v"
proof -
  obtain c r where w: "w = c # r" using assms(1) by (cases w) auto
  have "takeWhile P (r @ v) = r" "dropWhile P (r @ v) = v"
    using assms(2,3) unfolding w by (cases v; auto simp: takeWhile_append list_all_iff)+
  then show ?thesis using assms(2) by (simp add: w runs.simps [of P "c # r @ v"])
qed

text \<open>Every string is blanks, or blanks, a maximal run and the rest.\<close>

lemma runs_cases:
  obtains "runs P s = []" and "list_all (\<lambda>c. \<not> P c) s"
  | u w v where "s = u @ w @ v" and "list_all (\<lambda>c. \<not> P c) u" and "w \<noteq> []" and "list_all P w"
      and "v = [] \<or> \<not> P (hd v)" and "runs P s = w # runs P v"
proof (cases "dropWhile (\<lambda>c. \<not> P c) s")
  case Nil
  have "runs P s = []" unfolding runs.simps [of P s] Nil by simp
  moreover have "list_all (\<lambda>c. \<not> P c) s" using Nil by (simp add: dropWhile_eq_Nil_conv list_all_iff)
  ultimately show thesis by (rule that(1))
next
  case (Cons c r)
  let ?u = "takeWhile (\<lambda>c. \<not> P c) s" and ?w = "c # takeWhile P r" and ?v = "dropWhile P r"
  have c: "P c" using Cons hd_dropWhile [of "\<lambda>c. \<not> P c" s] by simp
  have "s = ?u @ ?w @ ?v" using Cons takeWhile_dropWhile_id [of "\<lambda>c. \<not> P c" s] by simp
  moreover have "list_all (\<lambda>c. \<not> P c) ?u" by (auto simp: list_all_iff dest: set_takeWhileD)
  moreover have "list_all P ?w" using c by (auto simp: list_all_iff dest: set_takeWhileD)
  moreover have "?v = [] \<or> \<not> P (hd ?v)" using hd_dropWhile [of P r] by auto
  moreover have "runs P s = ?w # runs P ?v" by (simp add: runs.simps [of P s] Cons)
  ultimately show thesis using that(2) [of ?u ?w ?v] by simp
qed

definition maximal_run :: "(nat \<Rightarrow> bool) \<Rightarrow> pystr \<Rightarrow> pystr \<Rightarrow> bool" where
  "maximal_run P s w \<longleftrightarrow>
     w \<noteq> [] \<and> list_all P w \<and>
     (\<exists>u v. s = u @ w @ v \<and> (u = [] \<or> \<not> P (last u)) \<and> (v = [] \<or> \<not> P (hd v)))"

lemma maximal_run_skip:
  assumes "list_all (\<lambda>c. \<not> P c) u0"
  shows "maximal_run P (u0 @ s) w \<longleftrightarrow> maximal_run P s w"
  using assms
proof (induction u0)
  case (Cons c u0)
  have "maximal_run P (c # s') w \<longleftrightarrow> maximal_run P s' w" if "\<not> P c" for s'
  proof
    assume "maximal_run P (c # s') w"
    then obtain u v where w: "w \<noteq> []" "list_all P w" and eq: "c # s' = u @ w @ v"
      and ends: "u = [] \<or> \<not> P (last u)" "v = [] \<or> \<not> P (hd v)" by (auto simp: maximal_run_def)
    from w eq that obtain u' where u: "u = c # u'"
      by (cases u) (auto simp: Cons_eq_append_conv list_all_iff)
    with eq ends have "s' = u' @ w @ v" "u' = [] \<or> \<not> P (last u')" by (auto split: if_splits)
    with w ends show "maximal_run P s' w" by (auto simp: maximal_run_def)
  next
    assume "maximal_run P s' w"
    then obtain u v where w: "w \<noteq> []" "list_all P w" and eq: "s' = u @ w @ v"
      and ends: "u = [] \<or> \<not> P (last u)" "v = [] \<or> \<not> P (hd v)" by (auto simp: maximal_run_def)
    have "c # s' = (c # u) @ w @ v" "\<not> P (last (c # u))" using eq ends that by auto
    with w ends show "maximal_run P (c # s') w" unfolding maximal_run_def by blast
  qed
  with Cons show ?case by simp
qed simp

lemma maximal_run_first:
  assumes "w \<noteq> []" and "list_all P w" and "v = [] \<or> \<not> P (hd v)"
  shows "maximal_run P (w @ v) x \<longleftrightarrow> x = w \<or> maximal_run P v x"
proof
  assume "maximal_run P (w @ v) x"
  then obtain a b where x: "x \<noteq> []" "list_all P x" and eq: "w @ v = a @ x @ b"
    and ends: "a = [] \<or> \<not> P (last a)" "b = [] \<or> \<not> P (hd b)" by (auto simp: maximal_run_def)
  show "x = w \<or> maximal_run P v x"
  proof (cases "a = []")
    case True
    with eq obtain us where "w = x @ us \<and> us @ v = b \<or> w @ us = x \<and> v = us @ b"
      by (auto simp: append_eq_append_conv2)
    then have "us = []"
      using ends(2) assms x by (cases us) (auto simp: list_all_iff)
    with \<open>w = x @ us \<and> us @ v = b \<or> w @ us = x \<and> v = us @ b\<close> show ?thesis by auto
  next
    case False
    have "length w \<le> length a"
    proof (rule ccontr)
      assume "\<not> length w \<le> length a"
      with eq have "a = take (length a) w" by (metis append_eq_append_conv_if linorder_not_le nat_le_linear)
      then have "set a \<subseteq> set w" by (metis set_take_subset)
      with last_in_set [OF False] have "last a \<in> set w" by blast
      with False ends(1) assms(2) show False by (auto simp: list_all_iff)
    qed
    with eq obtain a' where a: "a = w @ a'" "v = a' @ x @ b"
      by (auto simp: append_eq_append_conv2)
    have "a' = [] \<or> \<not> P (last a')" using ends(1) a False by (auto split: if_splits)
    with a x ends(2) show ?thesis unfolding maximal_run_def by blast
  qed
next
  assume "x = w \<or> maximal_run P v x"
  then show "maximal_run P (w @ v) x"
  proof
    assume "x = w"
    with assms show ?thesis unfolding maximal_run_def by (metis append_Nil)
  next
    assume "maximal_run P v x"
    then obtain a b where x: "x \<noteq> []" "list_all P x" and eq: "v = a @ x @ b"
      and ends: "a = [] \<or> \<not> P (last a)" "b = [] \<or> \<not> P (hd b)" by (auto simp: maximal_run_def)
    have "a \<noteq> []"
    proof
      assume "a = []"
      with eq x assms(3) show False by (cases x) (auto simp: list_all_iff)
    qed
    then have "w @ v = (w @ a) @ x @ b" "\<not> P (last (w @ a))" using eq ends by auto
    with x ends(2) show ?thesis unfolding maximal_run_def by blast
  qed
qed

lemma in_runs: "w \<in> set (runs P s) \<longleftrightarrow> maximal_run P s w"
proof (induction s rule: length_induct)
  case (1 s)
  show ?case
  proof (cases rule: runs_cases [of P s])
    case 1
    then show ?thesis by (auto simp: maximal_run_def list_all_iff)
  next
    case (2 u x v)
    have "length v < length s" using 2 by simp
    with 1 have "w \<in> set (runs P v) \<longleftrightarrow> maximal_run P v w" by blast
    with 2 show ?thesis
      by (simp add: maximal_run_skip maximal_run_first)
  qed
qed

lemma runs_join:
  assumes "list_all (\<lambda>w. w \<noteq> [] \<and> list_all P w) ws" and "sep \<noteq> []" and "list_all (\<lambda>c. \<not> P c) sep"
  shows "runs P (join sep ws) = ws"
  using assms(1)
proof (induction ws rule: induct_list012)
  case (2 x)
  then show ?case using runs_run [of x P "[]"] by simp
next
  case (3 x y zs)
  have "\<not> P (hd sep)" using assms(2,3) by (cases sep) auto
  then have "runs P (x @ sep @ join sep (y # zs)) = x # runs P (sep @ join sep (y # zs))"
    using 3(3) assms(2) by (intro runs_run) auto
  also have "\<dots> = x # y # zs" using 3 by (simp add: runs_skip_all assms(3))
  finally show ?case by simp
qed simp

lemma runs_ok: "list_all (\<lambda>w. w \<noteq> [] \<and> list_all P w) (runs P s)"
  by (auto simp: list_all_iff [of _ "runs P s"] in_runs maximal_run_def)

section \<open>Texts of values\<close>

fun hex_digits :: "nat \<Rightarrow> nat \<Rightarrow> pystr" where
  "hex_digits 0 n = []"
| "hex_digits (Suc k) n =
     hex_digits k (n div 16) @ [if n mod 16 < 10 then 48 + n mod 16 else 87 + n mod 16]"

definition repr_char :: "unicode \<Rightarrow> nat \<Rightarrow> nat \<Rightarrow> pystr" where
  "repr_char U quote c =
     (if c = quote \<or> c = 92 then [92, c]
      else if c = 9 then [92, 116] else if c = 10 then [92, 110] else if c = 13 then [92, 114]
      else if c < 32 \<or> c = 127 then [92, 120] @ hex_digits 2 c
      else if c < 127 \<or> uni_printable U c then [c]
      else if c < 256 then [92, 120] @ hex_digits 2 c
      else if c < 65536 then [92, 117] @ hex_digits 4 c
      else [92, 85] @ hex_digits 8 c)"

definition py_repr :: "unicode \<Rightarrow> pystr \<Rightarrow> pystr" where
  "py_repr U s =
     (let quote = (if 39 \<in> set s \<and> 34 \<notin> set s then 34 else 39)
      in [quote] @ concat (map (repr_char U quote) s) @ [quote])"

definition py_list_repr :: "unicode \<Rightarrow> pystr list \<Rightarrow> pystr" where
  "py_list_repr U xs = [91] @ join (str '', '') (map (py_repr U) xs) @ [93]"

definition digit_val :: "unicode \<Rightarrow> nat \<Rightarrow> nat option" where
  "digit_val U c =
     (if c < 128 then (if 48 \<le> c \<and> c \<le> 57 then Some (c - 48) else None) else uni_digit U c)"

text \<open>\<open>int(s)\<close>: digits with single underscores between them.\<close>

fun int_digits :: "unicode \<Rightarrow> int \<Rightarrow> bool \<Rightarrow> pystr \<Rightarrow> int option" where
  "int_digits U acc ok [] = (if ok then Some acc else None)"
| "int_digits U acc ok (c # r) =
     (if c = 95 then (if ok then int_digits U acc False r else None)
      else case digit_val U c of None \<Rightarrow> None
           | Some d \<Rightarrow> int_digits U (10 * acc + int d) True r)"

definition py_int :: "unicode \<Rightarrow> pystr \<Rightarrow> int option" where
  "py_int U s =
     (if length (filter (\<lambda>c. digit_val U c \<noteq> None) s) > 4300 then None
      else case strip s of
        [] \<Rightarrow> None
      | c # r \<Rightarrow>
          if c = 45 then map_option uminus (int_digits U 0 False r)
          else if c = 43 then int_digits U 0 False r
          else int_digits U 0 False (c # r))"

section \<open>Regular expressions\<close>

datatype char_class = CLit nat | CSpace | CAny

datatype regex =
    Empty
  | Chars "char_class list"
  | Boundary
  | Cat regex regex
  | Or regex regex
  | Maybe regex
  | Many "char_class list"
  | UpTo nat "char_class list"

text \<open>
  The characters a lower-case letter of a pattern matches under \<open>IGNORECASE\<close>, itself apart: its
  capital, and the characters whose simple case folding meets it (dotted and dotless i, the Kelvin
  sign, the long s, the kappa symbol).
\<close>

definition case_variants :: "nat \<Rightarrow> nat list" where
  "case_variants c =
     (if 97 \<le> c \<and> c \<le> 122
      then (c - 32) # (if c = 105 then [304, 305] else if c = 107 then [8490]
                       else if c = 115 then [383] else [])
      else if c = 954 then [922, 1008] else if c = 955 then [923] else [])"

fun in_class :: "nat \<Rightarrow> char_class \<Rightarrow> bool" where
  "in_class x (CLit c) = (x = c \<or> x \<in> set (case_variants c))"
| "in_class x CSpace = is_space x"
| "in_class x CAny = (x \<noteq> 10)"

definition in_classes :: "char_class list \<Rightarrow> nat \<Rightarrow> bool" where
  "in_classes cs x = list_ex (in_class x) cs"

text \<open>A position: the character before it and the text after it.\<close>

type_synonym pos = "nat option \<times> pystr"

definition at_boundary :: "unicode \<Rightarrow> nat option \<Rightarrow> pystr \<Rightarrow> bool" where
  "at_boundary U p r \<longleftrightarrow>
     (case p of None \<Rightarrow> False | Some c \<Rightarrow> word_char U c) \<noteq> (case r of [] \<Rightarrow> False | c # _ \<Rightarrow> word_char U c)"

fun many_ends :: "char_class list \<Rightarrow> nat option \<Rightarrow> pystr \<Rightarrow> pos list" where
  "many_ends cs p [] = [(p, [])]"
| "many_ends cs p (c # r) =
     (p, c # r) # (if in_classes cs c then many_ends cs (Some c) r else [])"

fun upto_ends :: "nat \<Rightarrow> char_class list \<Rightarrow> nat option \<Rightarrow> pystr \<Rightarrow> pos list" where
  "upto_ends 0 cs p r = [(p, r)]"
| "upto_ends (Suc n) cs p [] = [(p, [])]"
| "upto_ends (Suc n) cs p (c # r) =
     (p, c # r) # (if in_classes cs c then upto_ends n cs (Some c) r else [])"

text \<open>The positions at which a match that starts at a position can end.\<close>

fun match_ends :: "unicode \<Rightarrow> regex \<Rightarrow> pos \<Rightarrow> pos list" where
  "match_ends U Empty (p, r) = [(p, r)]"
| "match_ends U (Chars cs) (p, r) =
     (case r of [] \<Rightarrow> [] | c # r' \<Rightarrow> if in_classes cs c then [(Some c, r')] else [])"
| "match_ends U Boundary (p, r) = (if at_boundary U p r then [(p, r)] else [])"
| "match_ends U (Cat a b) (p, r) = concat (map (match_ends U b) (match_ends U a (p, r)))"
| "match_ends U (Or a b) (p, r) = match_ends U a (p, r) @ match_ends U b (p, r)"
| "match_ends U (Maybe a) (p, r) = match_ends U a (p, r) @ [(p, r)]"
| "match_ends U (Many cs) (p, r) = many_ends cs p r"
| "match_ends U (UpTo n cs) (p, r) = upto_ends n cs p r"

fun match_from :: "unicode \<Rightarrow> regex \<Rightarrow> nat option \<Rightarrow> pystr \<Rightarrow> bool" where
  "match_from U x p [] = (match_ends U x (p, []) \<noteq> [])"
| "match_from U x p (c # r) = (match_ends U x (p, c # r) \<noteq> [] \<or> match_from U x (Some c) r)"

definition search :: "unicode \<Rightarrow> regex \<Rightarrow> pystr \<Rightarrow> bool" where
  "search U x s = match_from U x None s"

text \<open>A literal word, and a sequence of patterns.\<close>

definition seq :: "regex list \<Rightarrow> regex" where
  "seq xs = foldr Cat xs Empty"

definition literal :: "pystr \<Rightarrow> regex" where
  "literal s = seq (map (\<lambda>c. Chars [CLit c]) s)"

subsection \<open>What a pattern means\<close>

text \<open>\<open>fits U x u v w\<close>: the pattern matches the text \<open>v\<close> standing between \<open>u\<close> and \<open>w\<close>.\<close>

definition last_of :: "pystr \<Rightarrow> nat option" where
  "last_of u = (if u = [] then None else Some (last u))"

fun fits :: "unicode \<Rightarrow> regex \<Rightarrow> pystr \<Rightarrow> pystr \<Rightarrow> pystr \<Rightarrow> bool" where
  "fits U Empty u v w \<longleftrightarrow> v = []"
| "fits U (Chars cs) u v w \<longleftrightarrow> (\<exists>c. v = [c] \<and> in_classes cs c)"
| "fits U Boundary u v w \<longleftrightarrow> v = [] \<and> at_boundary U (last_of u) w"
| "fits U (Cat a b) u v w \<longleftrightarrow> (\<exists>v1 v2. v = v1 @ v2 \<and> fits U a u v1 (v2 @ w) \<and> fits U b (u @ v1) v2 w)"
| "fits U (Or a b) u v w \<longleftrightarrow> fits U a u v w \<or> fits U b u v w"
| "fits U (Maybe a) u v w \<longleftrightarrow> v = [] \<or> fits U a u v w"
| "fits U (Many cs) u v w \<longleftrightarrow> list_all (in_classes cs) v"
| "fits U (UpTo n cs) u v w \<longleftrightarrow> length v \<le> n \<and> list_all (in_classes cs) v"

lemma last_of_simps [simp]: "last_of [] = None" "last_of (u @ [c]) = Some c"
  by (simp_all add: last_of_def)

lemma in_many_ends:
  "(p, w) \<in> set (many_ends cs (last_of u) x) \<longleftrightarrow>
     (\<exists>v. x = v @ w \<and> p = last_of (u @ v) \<and> list_all (in_classes cs) v)"
proof (induction x arbitrary: u)
  case (Cons c x)
  have "(p, w) \<in> set (many_ends cs (Some c) x) \<longleftrightarrow>
      (\<exists>v. x = v @ w \<and> p = last_of (u @ c # v) \<and> list_all (in_classes cs) v)"
    using Cons [of "u @ [c]"] by simp
  then show ?case by (force simp: Cons_eq_append_conv)
qed auto

lemma in_upto_ends:
  "(p, w) \<in> set (upto_ends n cs (last_of u) x) \<longleftrightarrow>
     (\<exists>v. x = v @ w \<and> p = last_of (u @ v) \<and> length v \<le> n \<and> list_all (in_classes cs) v)"
proof (induction x arbitrary: u n)
  case Nil
  then show ?case by (cases n) auto
next
  case (Cons c x)
  show ?case
  proof (cases n)
    case (Suc m)
    have "(p, w) \<in> set (upto_ends m cs (Some c) x) \<longleftrightarrow>
        (\<exists>v. x = v @ w \<and> p = last_of (u @ c # v) \<and> length v \<le> m \<and> list_all (in_classes cs) v)"
      using Cons [of m "u @ [c]"] by simp
    then show ?thesis by (force simp: Cons_eq_append_conv Suc)
  qed auto
qed

lemma in_match_ends:
  "(p, w) \<in> set (match_ends U x (last_of u, s)) \<longleftrightarrow>
     (\<exists>v. s = v @ w \<and> p = last_of (u @ v) \<and> fits U x u v w)"
proof (induction x arbitrary: u s p w)
  case (Chars cs)
  show ?case by (cases s) (auto simp: append_Cons_eq_iff Cons_eq_append_conv)
next
  case (Cat a b)
  have "(p, w) \<in> set (match_ends U (Cat a b) (last_of u, s)) \<longleftrightarrow>
      (\<exists>q r. (q, r) \<in> set (match_ends U a (last_of u, s)) \<and> (p, w) \<in> set (match_ends U b (q, r)))"
    by auto
  also have "\<dots> \<longleftrightarrow> (\<exists>r v1. s = v1 @ r \<and> fits U a u v1 r \<and>
      (p, w) \<in> set (match_ends U b (last_of (u @ v1), r)))"
    unfolding Cat.IH(1) by blast
  also have "\<dots> \<longleftrightarrow> (\<exists>r v1 v2. s = v1 @ r \<and> fits U a u v1 r \<and> r = v2 @ w \<and>
      p = last_of ((u @ v1) @ v2) \<and> fits U b (u @ v1) v2 w)"
    unfolding Cat.IH(2) by blast
  also have "\<dots> \<longleftrightarrow> (\<exists>v. s = v @ w \<and> p = last_of (u @ v) \<and> fits U (Cat a b) u v w)"
    by fastforce
  finally show ?case .
next
  case (Or a b)
  then show ?case by auto
next
  case (Maybe a)
  then show ?case by auto
qed (auto simp: in_many_ends in_upto_ends)

lemma match_ends_nonempty:
  "match_ends U x (last_of u, s) \<noteq> [] \<longleftrightarrow> (\<exists>v w. s = v @ w \<and> fits U x u v w)"
proof -
  have "match_ends U x (last_of u, s) \<noteq> [] \<longleftrightarrow> (\<exists>p w. (p, w) \<in> set (match_ends U x (last_of u, s)))"
    by (metis ex_in_conv list.set_intros(1) neq_Nil_conv set_empty surj_pair)
  then show ?thesis unfolding in_match_ends by blast
qed

lemma split_Cons_iff:
  "(\<exists>u v w. c # s = u @ v @ w \<and> Q u v w) \<longleftrightarrow>
     (\<exists>v w. c # s = v @ w \<and> Q [] v w) \<or> (\<exists>u v w. s = u @ v @ w \<and> Q (c # u) v w)"
  (is "?l \<longleftrightarrow> ?r")
proof
  assume ?l
  then obtain u v w where "c # s = u @ v @ w" "Q u v w" by blast
  then show ?r by (cases u) auto
next
  assume ?r
  then show ?l by (metis append_Cons append_Nil)
qed

lemma match_from_iff:
  "match_from U x (last_of u0) s \<longleftrightarrow>
     (\<exists>u v w. s = u @ v @ w \<and> fits U x (u0 @ u) v w)"
proof (induction s arbitrary: u0)
  case Nil
  then show ?case using match_ends_nonempty [of U x u0 "[]"] by simp
next
  case (Cons c s)
  have "match_from U x (Some c) s \<longleftrightarrow> (\<exists>u v w. s = u @ v @ w \<and> fits U x (u0 @ c # u) v w)"
    using Cons [of "u0 @ [c]"] by simp
  moreover have "match_ends U x (last_of u0, c # s) \<noteq> [] \<longleftrightarrow> (\<exists>v w. c # s = v @ w \<and> fits U x u0 v w)"
    by (rule match_ends_nonempty)
  ultimately show ?case
    unfolding split_Cons_iff [of c s "\<lambda>u. fits U x (u0 @ u)"] by simp
qed

lemma search_iff: "search U x s \<longleftrightarrow> (\<exists>u v w. s = u @ v @ w \<and> fits U x u v w)"
  using match_from_iff [of U x "[]" s] by (simp add: search_def)

end
