(* ===== verification/Elenchus.thy ===== *)
theory Elenchus
  imports Kappa_Algebra Strings
begin

text \<open>
  \<^verbatim>\<open>verification/elenchus.py\<close>: the token sets, the five predicates with their messages, the equivalence
  class of the Riemann hypothesis with its sixteen patterns, and the adapter that maps the fired flags
  to a verdict.
\<close>

section \<open>Tokens\<close>

definition stopwords :: "pystr list" where
  "stopwords = map str
     [''the'', ''and'', ''or'', ''not'', ''if'', ''then'', ''for'', ''all'', ''some'', ''such'',
      ''that'', ''this'', ''these'', ''those'', ''which'', ''where'', ''when'', ''there'',
      ''here'', ''with'', ''from'', ''into'', ''onto'', ''over'', ''under'', ''between'',
      ''implies'', ''imply'', ''equivalent'', ''equals'', ''equal'', ''therefore'',
      ''hence'', ''thus'', ''since'', ''because'', ''given'', ''let'', ''be'', ''is'', ''are'',
      ''was'', ''were'', ''has'', ''have'', ''had'', ''does'', ''do'', ''did'', ''any'', ''every'',
      ''each'', ''both'', ''either'', ''neither'', ''nor'', ''only'', ''also'', ''than'',
      ''about'', ''above'', ''below'', ''within'', ''without'', ''via'', ''per'', ''onto'']"

definition token_char :: "nat \<Rightarrow> bool" where
  "token_char c \<longleftrightarrow> (97 \<le> c \<and> c \<le> 122) \<or> (48 \<le> c \<and> c \<le> 57)"

definition tokens :: "pystr \<Rightarrow> pystr list" where
  "tokens s =
     remdups (filter (\<lambda>t. length t > 2 \<and> t \<notin> set stopwords) (runs token_char (lower s)))"

section \<open>Configuration\<close>

definition SELF_MODEL_TERMS :: "pystr list" where
  "SELF_MODEL_TERMS = map str
     [''consciousness'', ''conscious'', ''qualia'', ''sentient'', ''sentience'', ''awareness'']"

definition HARD_DOMAINS :: "pystr list" where
  "HARD_DOMAINS = map str [''math'', ''physics'', ''logic'', ''number theory'']"

definition DERIVATIONAL_TYPES :: "EdgeType list" where
  "DERIVATIONAL_TYPES = [DEDUCTION, NUMERICAL]"

definition CROSS_DOMAIN_TYPES :: "EdgeType list" where
  "CROSS_DOMAIN_TYPES = [REDUCTION, ANALOGY]"

definition CIRCULARITY_TYPES :: "EdgeType list" where
  "CIRCULARITY_TYPES = [DEDUCTION, NUMERICAL, SPECTRAL, REDUCTION]"

record flag =
  f_name :: pystr
  f_severity :: Verdict
  f_message :: pystr

record elenchus_result =
  er_verdict :: Verdict
  er_flags :: "flag list"

section \<open>The predicates\<close>

definition sorted_set :: "pystr list \<Rightarrow> pystr list" where
  "sorted_set xs = sort (remdups xs)"

type_synonym predicate = "unicode \<Rightarrow> node list \<Rightarrow> node \<Rightarrow> pystr \<Rightarrow> EdgeType \<Rightarrow> flag option"

definition category_error :: predicate where
  "category_error U premises conclusion rule edge_type =
     (if premises = [] then None
      else if edge_type \<in> set CROSS_DOMAIN_TYPES then None
      else let premise_domains = map n_domain premises in
        if n_domain conclusion \<notin> set premise_domains
        then Some \<lparr> f_name = str ''category_error'', f_severity = HARD_VETO,
               f_message = str ''conclusion domain '' @ [39] @ n_domain conclusion @ [39] @
                 str '' not in premise domains '' @ py_list_repr U (sorted_set premise_domains) \<rparr>
        else None)"

definition self_model_leak :: predicate where
  "self_model_leak U premises conclusion rule edge_type =
     (if n_domain conclusion \<notin> set HARD_DOMAINS then None
      else if edge_type \<in> set CROSS_DOMAIN_TYPES then None
      else let text = n_claim conclusion @ [32] @ rule;
               leaked = filter (\<lambda>t. t \<in> set (tokens text)) SELF_MODEL_TERMS
        in if leaked \<noteq> []
           then Some \<lparr> f_name = str ''self_model_leak'', f_severity = HARD_VETO,
                  f_message = str ''self-model/consciousness terms '' @
                    py_list_repr U (sorted_set leaked) @ str '' in a hard-domain ('' @
                    n_domain conclusion @ str '') claim'' \<rparr>
           else None)"

definition non_sequitur :: predicate where
  "non_sequitur U premises conclusion rule edge_type =
     (if premises = [] then None
      else if edge_type \<notin> set DERIVATIONAL_TYPES then None
      else let premise_tokens = concat (map (\<lambda>p. tokens (n_claim p)) premises);
               novel = filter (\<lambda>t. t \<notin> set premise_tokens) (tokens (n_claim conclusion))
        in if novel \<noteq> []
           then Some \<lparr> f_name = str ''non_sequitur'', f_severity = HARD_VETO,
                  f_message = str ''conclusion introduces concepts absent from premises: '' @
                    py_list_repr U (sorted_set novel) \<rparr>
           else None)"

definition empty_rule :: predicate where
  "empty_rule U premises conclusion rule edge_type =
     (if edge_type \<notin> set DERIVATIONAL_TYPES then None
      else if strip rule = []
      then Some \<lparr> f_name = str ''empty_rule'', f_severity = SOFT_FLAG,
             f_message = str ''derivational edge has no named inference rule'' \<rparr>
      else None)"

section \<open>Equivalence classes\<close>

record equivalence_class =
  eq_name :: pystr
  eq_signatures :: "regex list"

definition gap :: regex where "gap = Many [CSpace]"

definition word :: "string \<Rightarrow> regex" where "word s = literal (str s)"

definition lambda_sign :: regex where "lambda_sign = Chars [CLit 955]"

definition kappa_sign :: regex where "kappa_sign = Chars [CLit 954]"

text \<open>\<open>(?:\<ge>|>=|>)\<close>\<close>

definition at_least :: regex where
  "at_least = Or (Chars [CLit 8805]) (Or (word ''>='') (word ''>''))"

definition rh_name :: pystr where "rh_name = str ''rh_equivalence''"

definition RH_EQUIVALENCE :: equivalence_class where
  "RH_EQUIVALENCE =
     \<lparr> eq_name = rh_name,
       eq_signatures =
        [seq [word ''riemann'', gap, word ''hypothesis''],
         seq [Boundary, word ''rh'', Boundary],
         seq [word ''all'', gap,
              Maybe (seq [word ''non'', Maybe (Chars [CLit 45, CSpace]), word ''trivial'', gap]),
              word ''zeros'', UpTo 30 [CAny], word ''critical'', gap, word ''line''],
         seq [word ''de'', gap, word ''bruijn''],
         seq [word ''newman'', gap, word ''constant''],
         seq [Boundary, lambda_sign, gap, word ''='', gap, word ''0'', Boundary],
         seq [Boundary, word ''lambda'', gap, word ''='', gap, word ''0'', Boundary],
         seq [word ''curvature'', UpTo 20 [CAny], word ''non'', gap, word ''negative''],
         seq [Boundary, kappa_sign, gap, at_least, gap, word ''0'', Boundary],
         seq [Boundary, word ''kappa'', gap, at_least, gap, word ''0'', Boundary],
         seq [word ''li'', gap, word ''coefficients''],
         seq [word ''li'', Maybe (Chars [CLit 39]), word ''s'', gap, word ''criterion''],
         seq [Boundary, lambda_sign, Maybe (word ''_''), word ''n'', gap, at_least, gap, word ''0'', Boundary],
         seq [Boundary, word ''lambda'', Maybe (word ''_''), word ''n'', gap, at_least, gap, word ''0'', Boundary],
         seq [word ''h'', Maybe (word ''_''), word ''0'', Boundary, UpTo 30 [CAny], word ''real'', gap, word ''zeros''],
         seq [word ''polya'', gap, word ''criterion'']] \<rparr>"

definition EQUIVALENCE_CLASSES :: "equivalence_class list" where
  "EQUIVALENCE_CLASSES = [RH_EQUIVALENCE]"

definition classify :: "unicode \<Rightarrow> pystr \<Rightarrow> pystr list" where
  "classify U claim =
     map eq_name (filter (\<lambda>eq. list_ex (\<lambda>sig. search U sig claim) (eq_signatures eq)) EQUIVALENCE_CLASSES)"

fun circularity_of :: "pystr list \<Rightarrow> unicode \<Rightarrow> node list \<Rightarrow> flag option" where
  "circularity_of concl_classes U [] = None"
| "circularity_of concl_classes U (p # premises) =
     (let shared = filter (\<lambda>c. c \<in> set (classify U (n_claim p))) concl_classes in
      if shared \<noteq> []
      then Some \<lparr> f_name = str ''circularity'', f_severity = HARD_VETO,
             f_message = str ''conclusion and a premise both belong to equivalence class(es) '' @
               py_list_repr U (sorted_set shared) @
               str '': using an equivalent statement as a premise is circular'' \<rparr>
      else circularity_of concl_classes U premises)"

definition circularity :: predicate where
  "circularity U premises conclusion rule edge_type =
     (if premises = [] then None
      else if edge_type \<notin> set CIRCULARITY_TYPES then None
      else let concl_classes = classify U (n_claim conclusion) in
        if concl_classes = [] then None else circularity_of concl_classes U premises)"

definition PREDICATES :: "predicate list" where
  "PREDICATES = [category_error, self_model_leak, non_sequitur, empty_rule, circularity]"

section \<open>The adapter\<close>

definition verdict_of_flags :: "flag list \<Rightarrow> Verdict" where
  "verdict_of_flags flags =
     (if list_ex (\<lambda>f. f_severity f = HARD_VETO) flags then HARD_VETO
      else if flags \<noteq> [] then SOFT_FLAG else PASS)"

definition evaluate ::
    "unicode \<Rightarrow> node list \<Rightarrow> node \<Rightarrow> pystr \<Rightarrow> EdgeType \<Rightarrow> elenchus_result" where
  "evaluate U premises conclusion rule edge_type =
     (let flags = List.map_filter (\<lambda>pred. pred U premises conclusion rule edge_type) PREDICATES
      in \<lparr> er_verdict = verdict_of_flags flags, er_flags = flags \<rparr>)"

section \<open>When a predicate fires\<close>

text \<open>A statement belongs to the class when some text in it has the form of one of the patterns.\<close>

definition rh_equivalent :: "unicode \<Rightarrow> pystr \<Rightarrow> bool" where
  "rh_equivalent U claim \<longleftrightarrow>
     (\<exists>sig \<in> set (eq_signatures RH_EQUIVALENCE). \<exists>u v w. claim = u @ v @ w \<and> fits U sig u v w)"

lemma classify_eq:
  "classify U claim = (if rh_equivalent U claim then [rh_name] else [])"
proof -
  have "list_ex (\<lambda>sig. search U sig claim) (eq_signatures RH_EQUIVALENCE) \<longleftrightarrow> rh_equivalent U claim"
    by (simp add: list_ex_iff rh_equivalent_def search_iff)
  moreover have "eq_name RH_EQUIVALENCE = rh_name" by (simp add: RH_EQUIVALENCE_def)
  ultimately show ?thesis by (simp add: classify_def EQUIVALENCE_CLASSES_def)
qed

definition vetoed_category :: "node list \<Rightarrow> node \<Rightarrow> EdgeType \<Rightarrow> bool" where
  "vetoed_category prems conclusion t \<longleftrightarrow>
     prems \<noteq> [] \<and> t \<notin> {REDUCTION, ANALOGY} \<and> (\<forall>p \<in> set prems. n_domain p \<noteq> n_domain conclusion)"

definition vetoed_leak :: "node \<Rightarrow> pystr \<Rightarrow> EdgeType \<Rightarrow> bool" where
  "vetoed_leak conclusion rule t \<longleftrightarrow>
     n_domain conclusion \<in> set HARD_DOMAINS \<and> t \<notin> {REDUCTION, ANALOGY} \<and>
     (\<exists>w \<in> set SELF_MODEL_TERMS. w \<in> set (tokens (n_claim conclusion @ [32] @ rule)))"

definition vetoed_novelty :: "node list \<Rightarrow> node \<Rightarrow> EdgeType \<Rightarrow> bool" where
  "vetoed_novelty prems conclusion t \<longleftrightarrow>
     prems \<noteq> [] \<and> t \<in> {DEDUCTION, NUMERICAL} \<and>
     (\<exists>w \<in> set (tokens (n_claim conclusion)). \<forall>p \<in> set prems. w \<notin> set (tokens (n_claim p)))"

definition vetoed_circle :: "unicode \<Rightarrow> node list \<Rightarrow> node \<Rightarrow> EdgeType \<Rightarrow> bool" where
  "vetoed_circle U prems conclusion t \<longleftrightarrow>
     t \<in> {DEDUCTION, NUMERICAL, SPECTRAL, REDUCTION} \<and> rh_equivalent U (n_claim conclusion) \<and>
     (\<exists>p \<in> set prems. rh_equivalent U (n_claim p))"

lemma category_error_fires:
  "category_error U prems conclusion rule t \<noteq> None \<longleftrightarrow> vetoed_category prems conclusion t"
  unfolding category_error_def vetoed_category_def Let_def CROSS_DOMAIN_TYPES_def
  by (simp add: image_iff) metis

lemma self_model_leak_fires:
  "self_model_leak U prems conclusion rule t \<noteq> None \<longleftrightarrow> vetoed_leak conclusion rule t"
  by (auto simp: self_model_leak_def vetoed_leak_def Let_def CROSS_DOMAIN_TYPES_def filter_empty_conv)

lemma non_sequitur_fires:
  "non_sequitur U prems conclusion rule t \<noteq> None \<longleftrightarrow> vetoed_novelty prems conclusion t"
  by (auto simp: non_sequitur_def vetoed_novelty_def Let_def DERIVATIONAL_TYPES_def filter_empty_conv)

lemma circularity_of_fires:
  "circularity_of [rh_name] U prems \<noteq> None \<longleftrightarrow>
     (\<exists>p \<in> set prems. rh_equivalent U (n_claim p))"
  by (induction prems) (auto simp: Let_def classify_eq)

lemma circularity_fires:
  "circularity U prems conclusion rule t \<noteq> None \<longleftrightarrow> vetoed_circle U prems conclusion t"
  unfolding circularity_def vetoed_circle_def Let_def classify_eq
  using circularity_of_fires [of U prems] by (auto simp: CIRCULARITY_TYPES_def)

lemma empty_rule_fires:
  "empty_rule U prems conclusion rule t \<noteq> None \<longleftrightarrow> t \<in> {DEDUCTION, NUMERICAL} \<and> strip rule = []"
  by (auto simp: empty_rule_def DERIVATIONAL_TYPES_def)

lemma circularity_of_severity: "circularity_of cs U prems = Some f \<Longrightarrow> f_severity f = HARD_VETO"
  by (induction prems) (auto simp: Let_def split: if_splits)

lemma severities:
  "category_error U prems conclusion rule t = Some f \<Longrightarrow> f_severity f = HARD_VETO"
  "self_model_leak U prems conclusion rule t = Some f \<Longrightarrow> f_severity f = HARD_VETO"
  "non_sequitur U prems conclusion rule t = Some f \<Longrightarrow> f_severity f = HARD_VETO"
  "empty_rule U prems conclusion rule t = Some f \<Longrightarrow> f_severity f = SOFT_FLAG"
  "circularity U prems conclusion rule t = Some f \<Longrightarrow> f_severity f = HARD_VETO"
  by (auto simp: category_error_def self_model_leak_def non_sequitur_def empty_rule_def
      circularity_def Let_def split: if_splits dest: circularity_of_severity)

lemma in_flags:
  "f \<in> set (er_flags (evaluate U prems conclusion rule t)) \<longleftrightarrow>
     (\<exists>pred \<in> set PREDICATES. pred U prems conclusion rule t = Some f)"
  by (force simp: evaluate_def List.map_filter_def Let_def)

lemma verdict_of_flags_eq:
  "er_verdict (evaluate U prems conclusion rule t) =
     verdict_of_flags (er_flags (evaluate U prems conclusion rule t))"
  by (simp add: evaluate_def Let_def)

lemma evaluate_verdict:
  "er_verdict (evaluate U prems conclusion rule t) =
     (if vetoed_category prems conclusion t \<or> vetoed_leak conclusion rule t \<or>
         vetoed_novelty prems conclusion t \<or> vetoed_circle U prems conclusion t
      then HARD_VETO
      else if t \<in> {DEDUCTION, NUMERICAL} \<and> strip rule = [] then SOFT_FLAG
      else PASS)"
proof -
  let ?hard = "vetoed_category prems conclusion t \<or> vetoed_leak conclusion rule t \<or>
    vetoed_novelty prems conclusion t \<or> vetoed_circle U prems conclusion t"
  let ?flags = "er_flags (evaluate U prems conclusion rule t)"
  have hard: "list_ex (\<lambda>f. f_severity f = HARD_VETO) ?flags \<longleftrightarrow> ?hard"
  proof
    assume "list_ex (\<lambda>f. f_severity f = HARD_VETO) ?flags"
    then obtain f pred where "pred \<in> set PREDICATES" "pred U prems conclusion rule t = Some f"
      "f_severity f = HARD_VETO" by (auto simp: list_ex_iff in_flags)
    then show ?hard
      using category_error_fires [of U prems conclusion rule t]
        self_model_leak_fires [of U prems conclusion rule t]
        non_sequitur_fires [of U prems conclusion rule t]
        circularity_fires [of U prems conclusion rule t]
      by (auto simp: PREDICATES_def dest: severities)
  next
    assume ?hard
    then obtain pred f where "pred \<in> set [category_error, self_model_leak, non_sequitur, circularity]"
      "pred U prems conclusion rule t = Some f"
      using category_error_fires [of U prems conclusion rule t]
        self_model_leak_fires [of U prems conclusion rule t]
        non_sequitur_fires [of U prems conclusion rule t]
        circularity_fires [of U prems conclusion rule t]
      by auto
    then show "list_ex (\<lambda>f. f_severity f = HARD_VETO) ?flags"
      unfolding list_ex_iff Bex_def in_flags by (intro exI [of _ f]) (auto simp: PREDICATES_def dest: severities)
  qed
  have some: "?flags \<noteq> [] \<longleftrightarrow> ?hard \<or> (t \<in> {DEDUCTION, NUMERICAL} \<and> strip rule = [])"
  proof -
    have "?flags \<noteq> [] \<longleftrightarrow> (\<exists>pred \<in> set PREDICATES. pred U prems conclusion rule t \<noteq> None)"
      using in_flags [of _ U prems conclusion rule t] by (metis ex_in_conv not_None_eq set_empty)
    also have "\<dots> \<longleftrightarrow> ?hard \<or> (t \<in> {DEDUCTION, NUMERICAL} \<and> strip rule = [])"
      unfolding PREDICATES_def
      by (simp only: list.set bex_simps bex_empty category_error_fires self_model_leak_fires
          non_sequitur_fires circularity_fires empty_rule_fires) blast
    finally show ?thesis .
  qed
  show ?thesis unfolding verdict_of_flags_eq verdict_of_flags_def hard some by simp
qed

text \<open>C26: the verdict of the adapter: a proposal is vetoed exactly when its conclusion leaves the domains of
  its premises, imports consciousness terms into a hard domain, introduces a content word no premise has,
  or rests on a statement equivalent to it; it is flagged exactly when it is not vetoed and a derivational
  edge names no rule; it passes in all other cases.\<close>

theorem elenchus_verdict:
  "let v = er_verdict (evaluate U prems conclusion rule t);
       vetoed = vetoed_category prems conclusion t \<or> vetoed_leak conclusion rule t \<or>
         vetoed_novelty prems conclusion t \<or> vetoed_circle U prems conclusion t;
       unnamed = (t \<in> {DEDUCTION, NUMERICAL} \<and> strip rule = [])
   in (v = HARD_VETO \<longleftrightarrow> vetoed) \<and> (v = SOFT_FLAG \<longleftrightarrow> \<not> vetoed \<and> unnamed) \<and>
      (v = PASS \<longleftrightarrow> \<not> vetoed \<and> \<not> unnamed)"
  unfolding Let_def evaluate_verdict by simp

section \<open>Only the set of premises matters\<close>

lemma sorted_set_cong: "set xs = set ys \<Longrightarrow> sorted_set xs = sorted_set ys"
  unfolding sorted_set_def by (rule sorted_distinct_set_unique) simp_all

lemma filter_set_cong: "set xs = set ys \<Longrightarrow> filter (\<lambda>t. t \<notin> set xs) zs = filter (\<lambda>t. t \<notin> set ys) zs"
  by simp

definition circle_flag :: "unicode \<Rightarrow> flag" where
  "circle_flag U = \<lparr> f_name = str ''circularity'', f_severity = HARD_VETO,
     f_message = str ''conclusion and a premise both belong to equivalence class(es) '' @
       py_list_repr U (sorted_set [rh_name]) @
       str '': using an equivalent statement as a premise is circular'' \<rparr>"

lemma circularity_of_eq:
  "circularity_of [rh_name] U prems =
     (if \<exists>p \<in> set prems. rh_equivalent U (n_claim p) then Some (circle_flag U) else None)"
  by (induction prems) (auto simp: Let_def classify_eq circle_flag_def)

lemma predicates_set_cong:
  assumes "set prems = set prems'"
  shows "category_error U prems c r t = category_error U prems' c r t"
    and "self_model_leak U prems c r t = self_model_leak U prems' c r t"
    and "non_sequitur U prems c r t = non_sequitur U prems' c r t"
    and "empty_rule U prems c r t = empty_rule U prems' c r t"
    and "circularity U prems c r t = circularity U prems' c r t"
proof -
  have nil: "prems = [] \<longleftrightarrow> prems' = []" using assms by auto
  have dom: "set (map n_domain prems) = set (map n_domain prems')" by (simp add: assms)
  have tok: "set (concat (map (\<lambda>p. tokens (n_claim p)) prems)) =
      set (concat (map (\<lambda>p. tokens (n_claim p)) prems'))" by (simp add: assms)
  show "category_error U prems c r t = category_error U prems' c r t"
    unfolding category_error_def Let_def nil dom sorted_set_cong [OF dom] ..
  show "self_model_leak U prems c r t = self_model_leak U prems' c r t"
    by (simp add: self_model_leak_def)
  show "non_sequitur U prems c r t = non_sequitur U prems' c r t"
    unfolding non_sequitur_def Let_def nil filter_set_cong [OF tok] ..
  show "empty_rule U prems c r t = empty_rule U prems' c r t"
    by (simp add: empty_rule_def)
  show "circularity U prems c r t = circularity U prems' c r t"
    unfolding circularity_def Let_def nil classify_eq by (simp add: circularity_of_eq assms)
qed

text \<open>The order and the repetition of premises do not matter: two lists with the same premises give the
  same verdict and the same flags, messages included.\<close>

theorem evaluate_set_of_premises:
  assumes "set prems = set prems'"
  shows "evaluate U prems conclusion rule t = evaluate U prems' conclusion rule t"
  unfolding evaluate_def PREDICATES_def List.map_filter_def
  by (simp add: predicates_set_cong [OF assms])

theorem evaluate_set_of_premises_witness:
  "evaluate ascii [sample_node ''p'', sample_node ''q'', sample_node ''p''] (sample_node ''q'') (str ''r'') DEDUCTION =
   evaluate ascii [sample_node ''q'', sample_node ''p''] (sample_node ''q'') (str ''r'') DEDUCTION"
  by (rule evaluate_set_of_premises) auto

section \<open>Circular arguments\<close>

definition same_word :: "string \<Rightarrow> pystr \<Rightarrow> bool" where
  "same_word s w \<longleftrightarrow> list_all2 (\<lambda>c x. x = c \<or> x \<in> set (case_variants c)) (str s) w"

lemma fits_Chars_Cat:
  "fits U (Cat (Chars cs) x) u v w \<longleftrightarrow> (\<exists>c v2. v = c # v2 \<and> in_classes cs c \<and> fits U x (u @ [c]) v2 w)"
  (is "?l \<longleftrightarrow> ?r")
proof
  assume ?r
  then obtain c v2 where "v = [c] @ v2" "in_classes cs c" "fits U x (u @ [c]) v2 w" by auto
  then show ?l unfolding fits.simps by blast
qed auto

lemma fits_literal:
  "fits U (literal cs) u v w \<longleftrightarrow> list_all2 (\<lambda>c x. x = c \<or> x \<in> set (case_variants c)) cs v"
proof (induction cs arbitrary: u v w)
  case Nil
  then show ?case by (simp add: literal_def seq_def)
next
  case (Cons c cs)
  have "fits U (literal (c # cs)) u v w \<longleftrightarrow>
      (\<exists>x v2. v = x # v2 \<and> (x = c \<or> x \<in> set (case_variants c)) \<and> fits U (literal cs) (u @ [x]) v2 w)"
    by (simp add: literal_def seq_def in_classes_def fits_Chars_Cat del: fits.simps)
  then show ?case unfolding Cons.IH list_all2_Cons1 by blast
qed

lemma fits_word: "fits U (word s) u v w \<longleftrightarrow> same_word s v"
  by (simp add: word_def fits_literal same_word_def)

lemma fits_gap: "fits U gap u v w \<longleftrightarrow> list_all is_space v"
  by (auto simp: gap_def in_classes_def list_all_iff)

lemma fits_two_words:
  "same_word s a \<Longrightarrow> list_all is_space ws \<Longrightarrow> same_word t b \<Longrightarrow>
    fits U (seq [word s, gap, word t]) u (a @ ws @ b) w"
  by (simp add: seq_def fits_word fits_gap) metis

lemma rh_two_words:
  assumes "seq [word s, gap, word t] \<in> set (eq_signatures RH_EQUIVALENCE)"
    and "same_word s a" and "list_all is_space ws" and "same_word t b"
  shows "rh_equivalent U (u @ a @ ws @ b @ w)"
proof -
  have "u @ a @ ws @ b @ w = u @ (a @ ws @ b) @ w" by simp
  with assms(1) fits_two_words [OF assms(2-4)] show ?thesis unfolding rh_equivalent_def by blast
qed

text \<open>An argument for the de Bruijn-Newman constant that uses the Riemann hypothesis as a premise is
  vetoed, whatever the other premises, the rule, the capitals and the white space.\<close>

theorem circular_argument_vetoed:
  assumes "p \<in> set prems" and "n_claim p = u @ a @ ws @ b @ w"
    and "same_word ''riemann'' a" and "list_all is_space ws" and "same_word ''hypothesis'' b"
    and "n_claim conclusion = u' @ a' @ ws' @ b' @ w'"
    and "same_word ''newman'' a'" and "list_all is_space ws'" and "same_word ''constant'' b'"
    and "t \<in> {DEDUCTION, NUMERICAL, SPECTRAL, REDUCTION}"
  shows "er_verdict (evaluate U prems conclusion rule t) = HARD_VETO \<and>
    circle_flag U \<in> set (er_flags (evaluate U prems conclusion rule t))"
proof -
  have p: "rh_equivalent U (n_claim p)" unfolding assms(2)
    by (rule rh_two_words [OF _ assms(3-5)]) (simp add: RH_EQUIVALENCE_def)
  have c: "rh_equivalent U (n_claim conclusion)" unfolding assms(6)
    by (rule rh_two_words [OF _ assms(7-9)]) (simp add: RH_EQUIVALENCE_def)
  have "vetoed_circle U prems conclusion t" unfolding vetoed_circle_def using assms(1,10) p c by blast
  then have "er_verdict (evaluate U prems conclusion rule t) = HARD_VETO" by (simp add: evaluate_verdict)
  moreover have "circularity U prems conclusion rule t = Some (circle_flag U)"
    using assms(1,10) p c by (auto simp: circularity_def CIRCULARITY_TYPES_def classify_eq circularity_of_eq)
  then have "circle_flag U \<in> set (er_flags (evaluate U prems conclusion rule t))"
    unfolding in_flags PREDICATES_def by (intro bexI [of _ circularity]) simp_all
  ultimately show ?thesis ..
qed

theorem circular_argument_vetoed_witness:
  "er_verdict (evaluate ascii [sample_node ''the Riemann  Hypothesis holds'']
      (sample_node ''Newman constant is 0'') (str ''r'') REDUCTION) = HARD_VETO \<and>
    circle_flag ascii \<in> set (er_flags (evaluate ascii [sample_node ''the Riemann  Hypothesis holds'']
      (sample_node ''Newman constant is 0'') (str ''r'') REDUCTION))"
  by (rule circular_argument_vetoed [of "sample_node ''the Riemann  Hypothesis holds''" _
        "str ''the ''" "str ''Riemann''" "str ''  ''" "str ''Hypothesis''" "str '' holds''" _
        "[]" "str ''Newman''" "str '' ''" "str ''constant''" "str '' is 0''"])
    (simp_all add: sample_node_def same_word_def case_variants_def is_space_def)

lemma fits_CatI: "fits U a u v1 (v2 @ w) \<Longrightarrow> fits U b (u @ v1) v2 w \<Longrightarrow> fits U (Cat a b) u (v1 @ v2) w"
  by auto

lemma fits_constant_zero:
  assumes "at_boundary U (last_of u) (c @ ws @ e @ ws' @ z @ w)" and "same_word s c"
    and "list_all is_space ws" and "same_word ''='' e" and "list_all is_space ws'"
    and "same_word ''0'' z" and "at_boundary U (last_of (u @ c @ ws @ e @ ws' @ z)) w"
  shows "fits U (seq [Boundary, word s, gap, word ''='', gap, word ''0'', Boundary]) u
    (c @ ws @ e @ ws' @ z) w"
proof -
  have "fits U (seq [Boundary, word s, gap, word ''='', gap, word ''0'', Boundary]) u
      ([] @ c @ ws @ e @ ws' @ z @ [] @ []) w"
    unfolding seq_def foldr.simps comp_def id_def
    by (intro fits_CatI; use assms in \<open>simp add: fits_word fits_gap\<close>)
  then show ?thesis by simp
qed

text \<open>The pattern for a constant equal to zero also accepts every decimal fraction that starts with zero:
  a claim that lambda is 0.5 counts as equivalent to the Riemann hypothesis.\<close>

theorem decimal_counts_as_zero:
  "classify U (str ''lambda = 0.'' @ digits) = [str ''rh_equivalence'']"
proof -
  let ?sig = "seq [Boundary, word ''lambda'', gap, word ''='', gap, word ''0'', Boundary]"
  have "fits U ?sig [] (str ''lambda'' @ str '' '' @ str ''='' @ str '' '' @ str ''0'') (46 # digits)"
    by (rule fits_constant_zero)
      (simp_all add: same_word_def at_boundary_def word_char_def ascii_alnum_def is_space_def last_of_def)
  moreover have "str ''lambda = 0.'' @ digits =
      [] @ (str ''lambda'' @ str '' '' @ str ''='' @ str '' '' @ str ''0'') @ 46 # digits" by simp
  moreover have "?sig \<in> set (eq_signatures RH_EQUIVALENCE)" by (simp add: RH_EQUIVALENCE_def)
  ultimately have "rh_equivalent U (str ''lambda = 0.'' @ digits)" unfolding rh_equivalent_def by blast
  then show ?thesis by (simp add: classify_eq rh_name_def)
qed

end
