(* ===== verification/Checkers.thy ===== *)
theory Checkers
  imports Elenchus
begin

text \<open>
  \<^verbatim>\<open>verification/checkers\<close>: the bounded invocation of a checker and the five checkers. The provers are
  not in the repository (sympy, z3, numpy, the Lean binary): they are fields of \<open>provers\<close>, functions that
  say for each call how it goes and what it gives, a value or an exception. A timer is part of the
  state a checker runs in. Its handler is Python code, which CPython runs only when the interpreter is in
  control: a call that outlasts the timer is interrupted with \<open>CheckerTimeout\<close> at the next such moment, at the
  latest when it returns, and leaves no timer behind; a call that is stuck in a C function for ever by then is
  not interrupted, and the checker never returns (\<open>None\<close>), as without a timer. A library that is interrupted lets
  the exception out.
\<close>

section \<open>Calls under a timer\<close>

text \<open>
  An exception with its text. A call ends after some milliseconds; or it never ends, and the interpreter is in
  control again and again (\<open>Loops\<close>); or after some milliseconds it is in a C function that never returns
  (\<open>Stuck\<close>). With it comes its outcome, if it ends.
\<close>

type_synonym exn = "py_error \<times> pystr"

datatype course = Ends nat | Loops | Stuck nat

type_synonym 'a call = "course \<times> (exn + 'a)"

datatype clock = Unarmed | Armed nat pystr

type_synonym 'a timed = "clock \<Rightarrow> ((exn + 'a) \<times> clock) option"

definition perform :: "'a call \<Rightarrow> 'a timed" where
  "perform call clk =
     (case (clk, fst call) of
        (Unarmed, Ends d) \<Rightarrow> Some (snd call, Unarmed)
      | (Unarmed, _) \<Rightarrow> None
      | (Armed left msg, Ends d) \<Rightarrow>
          if d < left then Some (snd call, Armed (left - d) msg)
          else Some (Inl (CheckerTimeout, msg), Unarmed)
      | (Armed left msg, Loops) \<Rightarrow> Some (Inl (CheckerTimeout, msg), Unarmed)
      | (Armed left msg, Stuck d) \<Rightarrow>
          if left \<le> d then Some (Inl (CheckerTimeout, msg), Unarmed) else None)"

definition give :: "'a \<Rightarrow> 'a timed" where
  "give a clk = Some (Inr a, clk)"

definition throw :: "exn \<Rightarrow> 'a timed" where
  "throw e clk = Some (Inl e, clk)"

definition bind_timed :: "'a timed \<Rightarrow> ('a \<Rightarrow> 'b timed) \<Rightarrow> 'b timed" where
  "bind_timed m f clk =
     (case m clk of None \<Rightarrow> None
      | Some (Inl e, clk') \<Rightarrow> Some (Inl e, clk')
      | Some (Inr a, clk') \<Rightarrow> f a clk')"

definition handle :: "'a timed \<Rightarrow> (py_error \<Rightarrow> bool) \<Rightarrow> (exn \<Rightarrow> 'a timed) \<Rightarrow> 'a timed" where
  "handle m caught h clk =
     (case m clk of
        Some (Inl e, clk') \<Rightarrow> if caught (fst e) then h e clk' else Some (Inl e, clk')
      | other \<Rightarrow> other)"

fun map_timed :: "('a \<Rightarrow> 'b timed) \<Rightarrow> 'a list \<Rightarrow> 'b list timed" where
  "map_timed f [] = give []"
| "map_timed f (x # xs) = bind_timed (f x) (\<lambda>y. bind_timed (map_timed f xs) (\<lambda>ys. give (y # ys)))"

section \<open>The result and the bounded invocation\<close>

record checker_result =
  cr_passed :: bool
  cr_kappa :: Kappa
  cr_details :: "(pystr \<times> pyval) list"
  cr_error_msg :: "pystr option"

definition failure :: "pystr \<Rightarrow> checker_result" where
  "failure msg = \<lparr> cr_passed = False, cr_kappa = K0, cr_details = [], cr_error_msg = Some msg \<rparr>"

definition success :: "Kappa \<Rightarrow> (pystr \<times> pyval) list \<Rightarrow> checker_result" where
  "success k details = \<lparr> cr_passed = True, cr_kappa = k, cr_details = details, cr_error_msg = None \<rparr>"

text \<open>\<open>timeout_seconds\<close>: \<open>None\<close>, or the budget in whole milliseconds with the text of the number.\<close>

type_synonym timeout = "(int \<times> pystr) option"

text \<open>Whether the platform has \<open>SIGALRM\<close>, and whether the code runs in the main thread, as \<open>signal.signal\<close> requires.\<close>

record platform =
  pl_sigalrm :: bool
  pl_main_thread :: bool
  pl_unicode :: unicode

type_synonym 'a run = "(exn + 'a) option"

definition outcome :: "'a timed \<Rightarrow> clock \<Rightarrow> 'a run" where
  "outcome m clk = map_option fst (m clk)"

definition run_bounded :: "platform \<Rightarrow> 'a timed \<Rightarrow> timeout \<Rightarrow> 'a run" where
  "run_bounded PL fn timeout =
     (case timeout of
        None \<Rightarrow> outcome fn Unarmed
      | Some (ms, txt) \<Rightarrow>
          if ms \<le> 0 then outcome fn Unarmed
          else if \<not> pl_sigalrm PL then outcome fn Unarmed
          else if \<not> pl_main_thread PL
          then Some (Inl (ValueError, str ''signal only works in main thread of the main interpreter''))
          else outcome fn (Armed (nat ms) (str ''checker exceeded '' @ txt @ str ''s budget'')))"

definition catch_timeout :: "checker_result run \<Rightarrow> checker_result run" where
  "catch_timeout r =
     (case r of
        Some (Inl e) \<Rightarrow> if fst e = CheckerTimeout then Some (Inr (failure (snd e))) else r
      | _ \<Rightarrow> r)"

section \<open>The roster\<close>

definition ROSTER :: "pystr list" where
  "ROSTER = map str
     [''0 is a natural number'',
      ''the successor of a natural number is a natural number'',
      ''a prime is an integer greater than 1 with exactly two positive divisors'',
      ''the empty set has no elements'',
      ''for all x, x = x'']"

definition normalize :: "pystr \<Rightarrow> pystr" where
  "normalize claim = join [32] (words claim)"

definition check_roster :: "node \<Rightarrow> Kappa" where
  "check_roster n = (if normalize (n_claim n) \<in> set ROSTER then K_INF else K1)"

definition roster_check ::
    "node list \<Rightarrow> node \<Rightarrow> pystr \<Rightarrow> bytes option \<Rightarrow> timeout \<Rightarrow> checker_result run" where
  "roster_check premises conclusion rule proof_bytes timeout =
     Some (Inr (
       let k = check_roster conclusion in
       if k = K_INF then success K_INF [(str ''roster'', PStr (str ''matched''))]
       else success K1 [(str ''roster'', PStr (str ''unlisted''))]))"

section \<open>The CAS checker\<close>

text \<open>\<open>parse_expr\<close>, \<open>simplify(lhs - rhs) == 0\<close> and \<open>str\<close> of an expression.\<close>

record 'e cas =
  cas_parse :: "pystr \<Rightarrow> 'e call"
  cas_equal :: "'e \<Rightarrow> 'e \<Rightarrow> bool call"
  cas_text :: "'e \<Rightarrow> pystr call"

definition cas_sides :: "'e cas \<Rightarrow> pystr \<Rightarrow> (pystr + 'e \<times> 'e) timed" where
  "cas_sides C claim =
     (let (lhs_s, rhs_s) = split_once 61 claim in
      handle
        (bind_timed (perform (cas_parse C lhs_s)) (\<lambda>lhs.
         bind_timed (perform (cas_parse C rhs_s)) (\<lambda>rhs. give (Inr (lhs, rhs)))))
        (\<lambda>e. True) (\<lambda>e. give (Inl (str ''parse error: '' @ snd e))))"

definition cas_decide :: "'e cas \<Rightarrow> pystr + 'e \<times> 'e \<Rightarrow> checker_result timed" where
  "cas_decide C s =
     (case s of
        Inl msg \<Rightarrow> give (failure msg)
      | Inr (lhs, rhs) \<Rightarrow>
          bind_timed (perform (cas_equal C lhs rhs)) (\<lambda>zero.
            if zero
            then bind_timed (perform (cas_text C lhs)) (\<lambda>l.
                 bind_timed (perform (cas_text C rhs)) (\<lambda>r.
                   give (success K2 [(str ''lhs'', PStr l), (str ''rhs'', PStr r)])))
            else give (failure (str ''sides are not equal''))))"

definition cas_run :: "'e cas \<Rightarrow> node \<Rightarrow> checker_result timed" where
  "cas_run C conclusion =
     (let claim = n_claim conclusion in
      if 61 \<notin> set claim then give (failure (str ''claim is not an equation''))
      else bind_timed (cas_sides C claim) (cas_decide C))"

definition cas_check ::
    "platform \<Rightarrow> 'e cas \<Rightarrow> node list \<Rightarrow> node \<Rightarrow> pystr \<Rightarrow> bytes option \<Rightarrow> timeout \<Rightarrow> checker_result run" where
  "cas_check PL C premises conclusion rule proof_bytes timeout =
     catch_timeout (run_bounded PL (cas_run C conclusion) timeout)"

section \<open>The Z3 checker\<close>

text \<open>The value of a claim's text, when it is a boolean term and when it is not.\<close>

datatype 'f z3_object = BoolRef 'f | OtherObject

datatype z3_answer = unsat | sat pystr | unknown

record 'f z3 =
  z3_eval :: "pystr \<Rightarrow> 'f z3_object call"
  z3_and :: "'f list \<Rightarrow> 'f call"
  z3_not :: "'f \<Rightarrow> 'f call"
  z3_check :: "int \<Rightarrow> 'f list \<Rightarrow> z3_answer call"

definition z3_parse :: "unicode \<Rightarrow> 'f z3 \<Rightarrow> pystr \<Rightarrow> 'f timed" where
  "z3_parse U Z claim =
     bind_timed (perform (z3_eval Z claim)) (\<lambda>v.
       case v of
         BoolRef f \<Rightarrow> give f
       | OtherObject \<Rightarrow> throw (ValueError, str ''claim is not a boolean expression: '' @ py_repr U claim))"

definition z3_terms :: "unicode \<Rightarrow> 'f z3 \<Rightarrow> node list \<Rightarrow> node \<Rightarrow> (pystr + 'f list \<times> 'f) timed" where
  "z3_terms U Z premises conclusion =
     handle
       (bind_timed (map_timed (\<lambda>p. z3_parse U Z (n_claim p)) premises) (\<lambda>premise_exprs.
        bind_timed (z3_parse U Z (n_claim conclusion)) (\<lambda>concl_expr.
          give (Inr (premise_exprs, concl_expr)))))
       (\<lambda>e. e \<in> {ValueError, SyntaxError, NameError, TypeError})
       (\<lambda>e. give (Inl (str ''parse error: '' @ snd e)))"

definition z3_solve :: "'f z3 \<Rightarrow> timeout \<Rightarrow> pystr + 'f list \<times> 'f \<Rightarrow> checker_result timed" where
  "z3_solve Z timeout s =
     (case s of
        Inl msg \<Rightarrow> give (failure msg)
      | Inr (premise_exprs, concl_expr) \<Rightarrow>
          (case timeout of
             None \<Rightarrow> throw (TypeError, str ''unsupported operand type(s) for *'')
           | Some (ms, txt) \<Rightarrow>
               bind_timed (perform (z3_and Z premise_exprs)) (\<lambda>conj.
               bind_timed (perform (z3_not Z concl_expr)) (\<lambda>neg.
               bind_timed (perform (z3_check Z ms [conj, neg])) (\<lambda>result.
                 case result of
                   unsat \<Rightarrow> give (success K3 [(str ''method'', PStr (str ''z3'')), (str ''result'', PStr (str ''unsat''))])
                 | sat model \<Rightarrow>
                     give \<lparr> cr_passed = False, cr_kappa = K0,
                            cr_details = [(str ''countermodel'', PStr model)],
                            cr_error_msg = Some (str ''counter-model found'') \<rparr>
                 | unknown \<Rightarrow> give (failure (str ''z3 returned unknown'')))))))"

definition z3_run :: "unicode \<Rightarrow> 'f z3 \<Rightarrow> node list \<Rightarrow> node \<Rightarrow> timeout \<Rightarrow> checker_result timed" where
  "z3_run U Z premises conclusion timeout =
     bind_timed (z3_terms U Z premises conclusion) (z3_solve Z timeout)"

definition z3_check_edge ::
    "platform \<Rightarrow> 'f z3 \<Rightarrow> node list \<Rightarrow> node \<Rightarrow> pystr \<Rightarrow> bytes option \<Rightarrow> timeout \<Rightarrow> checker_result run" where
  "z3_check_edge PL Z premises conclusion rule proof_bytes timeout =
     catch_timeout (run_bounded PL (z3_run (pl_unicode PL) Z premises conclusion timeout) timeout)"

section \<open>The Lean checker\<close>

text \<open>
  The binary if there is one; what writing the temporary file raises, if it does; and a run of the binary
  on the proof: its duration and its return code with the decoded standard error, or an exception.
\<close>

record lean =
  lean_binary :: "pystr option"
  lean_tempfile :: "bytes \<Rightarrow> exn option"
  lean_process :: "pystr \<Rightarrow> bytes \<Rightarrow> (int \<times> pystr) call"

definition TimeoutExpired :: py_error where
  "TimeoutExpired = OtherError (str ''TimeoutExpired'')"

text \<open>\<open>subprocess.run(..., timeout=t)\<close> waits for the other process with a limit and kills it after that.\<close>

definition subprocess_run :: "'a call \<Rightarrow> timeout \<Rightarrow> 'a run" where
  "subprocess_run call timeout =
     (case timeout of
        None \<Rightarrow> (case fst call of Ends d \<Rightarrow> Some (snd call) | _ \<Rightarrow> None)
      | Some (ms, txt) \<Rightarrow>
          (case fst call of
             Ends d \<Rightarrow> if d < nat ms then Some (snd call) else Some (Inl (TimeoutExpired, []))
           | _ \<Rightarrow> Some (Inl (TimeoutExpired, []))))"

definition timeout_text :: "timeout \<Rightarrow> pystr" where
  "timeout_text timeout = (case timeout of None \<Rightarrow> str ''None'' | Some (ms, txt) \<Rightarrow> txt)"

definition lean_check ::
    "lean \<Rightarrow> node list \<Rightarrow> node \<Rightarrow> pystr \<Rightarrow> bytes option \<Rightarrow> timeout \<Rightarrow> checker_result run" where
  "lean_check L premises conclusion rule proof_bytes timeout =
     (case lean_binary L of
        None \<Rightarrow> Some (Inr (failure (str ''lean binary not found'')))
      | Some binary \<Rightarrow>
          (case proof_bytes of
             None \<Rightarrow> Some (Inr (failure (str ''no proof supplied'')))
           | Some src \<Rightarrow>
               if src = [] then Some (Inr (failure (str ''no proof supplied'')))
               else case lean_tempfile L src of
                 Some e \<Rightarrow> Some (Inl e)
               | None \<Rightarrow>
                   (case subprocess_run (lean_process L binary src) timeout of
                      None \<Rightarrow> None
                    | Some (Inl e) \<Rightarrow>
                        if fst e = TimeoutExpired
                        then Some (Inr (failure (str ''lean timed out after '' @ timeout_text timeout @ str ''s'')))
                        else if fst e = OSError
                        then Some (Inr (failure (str ''lean failed to run: '' @ snd e)))
                        else Some (Inl e)
                    | Some (Inr (returncode, stderr)) \<Rightarrow>
                        if returncode = 0
                        then Some (Inr (success K3 [(str ''lean'', PStr (str ''type-checked''))]))
                        else Some (Inr \<lparr> cr_passed = False, cr_kappa = K0,
                               cr_details = [(str ''stderr'', PStr (take 500 stderr))],
                               cr_error_msg = Some (str ''lean rejected the proof'') \<rparr>))))"

end
