(* ===== verification/Spectral.thy ===== *)
theory Spectral
  imports Checkers
begin

text \<open>
  \<^verbatim>\<open>checkers/spectral_check.py\<close>: the claim is split into a property and a matrix expression, the matrix
  is evaluated and the property decided by comparing floating-point numbers that numpy computes. A float
  is its IEEE 754 bit pattern, as in \<open>pyval\<close>; comparisons are written out on the pattern.
\<close>

section \<open>Floats\<close>

type_synonym float64 = "64 word"

definition float_mag :: "float64 \<Rightarrow> int" where
  "float_mag x = uint x mod 0x8000000000000000"

definition float_nan :: "float64 \<Rightarrow> bool" where
  "float_nan x \<longleftrightarrow> 0x7FF0000000000000 < float_mag x"

definition float_key :: "float64 \<Rightarrow> int" where
  "float_key x = (if 0x8000000000000000 \<le> uint x then - float_mag x else float_mag x)"

definition float_less :: "float64 \<Rightarrow> float64 \<Rightarrow> bool" where
  "float_less x y \<longleftrightarrow> \<not> float_nan x \<and> \<not> float_nan y \<and> float_key x < float_key y"

text \<open>\<open>1e-10\<close>, \<open>10.0\<close> and infinity.\<close>

definition DEFAULT_TOL :: float64 where "DEFAULT_TOL = 0x3DDB7CDFD9D7BDBB"

definition float_ten :: float64 where "float_ten = 0x4024000000000000"

definition float_inf :: float64 where "float_inf = 0x7FF0000000000000"

section \<open>Matrices\<close>

text \<open>
  \<open>eval\<close> in the restricted namespace, \<open>np.asarray(_, dtype=complex)\<close> with the shape of the array, and
  the numbers numpy computes from a matrix; \<open>sp_ratio\<close> is the quotient of two floats.
\<close>

record ('o, 'm) spectral =
  sp_eval :: "pystr \<Rightarrow> 'o call"
  sp_asarray :: "'o \<Rightarrow> 'm call"
  sp_shape :: "'m \<Rightarrow> nat list"
  sp_hermitian_err :: "'m \<Rightarrow> float64 call"
  sp_symmetry_err :: "'m \<Rightarrow> float64 call"
  sp_max_im_eig :: "'m \<Rightarrow> float64 call"
  sp_singular_values :: "'m \<Rightarrow> float64 list call"
  sp_ratio :: "float64 \<Rightarrow> float64 \<Rightarrow> float64"

fun nat_text :: "nat \<Rightarrow> pystr" where
  "nat_text n = (if n < 10 then [48 + n] else nat_text (n div 10) @ [48 + n mod 10])"

declare nat_text.simps [simp del]

definition shape_text :: "nat list \<Rightarrow> pystr" where
  "shape_text dims =
     [40] @ join (str '', '') (map nat_text dims) @ (if length dims = 1 then [44] else []) @ [41]"

definition as_matrix :: "('o, 'm) spectral \<Rightarrow> 'o \<Rightarrow> 'm timed" where
  "as_matrix S obj =
     bind_timed (perform (sp_asarray S obj)) (\<lambda>arr.
       case sp_shape S arr of
         [r, c] \<Rightarrow>
           if r = c then give arr
           else throw (ValueError, str ''expected a square 2D matrix, got shape '' @ shape_text [r, c])
       | dims \<Rightarrow> throw (ValueError, str ''expected a square 2D matrix, got shape '' @ shape_text dims))"

section \<open>Properties\<close>

type_synonym details = "(pystr \<times> pyval) list"

definition float_list :: "float64 list \<Rightarrow> pyval" where
  "float_list xs = PList (map PFloat xs)"

definition check_property ::
    "unicode \<Rightarrow> ('o, 'm) spectral \<Rightarrow> pystr \<Rightarrow> 'm \<Rightarrow> float64 \<Rightarrow> (bool \<times> details) timed" where
  "check_property U S prop M tol =
     (if prop = str ''self_adjoint'' then
        bind_timed (perform (sp_hermitian_err S M)) (\<lambda>hermitian_err.
        bind_timed (perform (sp_max_im_eig S M)) (\<lambda>im_err.
          give (float_less hermitian_err tol \<and> float_less im_err tol,
            [(str ''hermitian_err'', PFloat hermitian_err), (str ''max_im_eig'', PFloat im_err)])))
      else if prop = str ''symmetric'' then
        bind_timed (perform (sp_symmetry_err S M)) (\<lambda>sym_err.
          give (float_less sym_err tol, [(str ''symmetry_err'', PFloat sym_err)]))
      else if prop = str ''real_spectrum'' then
        bind_timed (perform (sp_max_im_eig S M)) (\<lambda>im_err.
          give (float_less im_err tol, [(str ''max_im_eig'', PFloat im_err)]))
      else if prop = str ''complex_spectrum'' then
        bind_timed (perform (sp_max_im_eig S M)) (\<lambda>im_err.
          give (float_less tol im_err, [(str ''max_im_eig'', PFloat im_err)]))
      else if take 9 prop = str ''rank_leq:'' then
        (case py_int U (snd (split_once 58 prop)) of
           None \<Rightarrow> throw (ValueError, str ''invalid literal for int() with base 10: '' @
                     py_repr U (snd (split_once 58 prop)))
         | Some k \<Rightarrow>
             bind_timed (perform (sp_singular_values S M)) (\<lambda>sv.
               let n_above = int (length (filter (float_less tol) sv)) in
               give (n_above \<le> k,
                 [(str ''singular_values'', float_list sv), (str ''n_above_tol'', PInt n_above)])))
      else if prop = str ''low_rank'' then
        bind_timed (perform (sp_singular_values S M)) (\<lambda>sv.
          case sv of
            s0 # s1 # rest \<Rightarrow>
              let ratio = (if float_less 0 s1 then sp_ratio S s0 s1 else float_inf) in
              give (float_less float_ten ratio,
                [(str ''singular_values'', float_list sv), (str ''ratio_s1_s2'', PFloat ratio)])
          | _ \<Rightarrow>
              give (float_less float_ten float_inf,
                [(str ''singular_values'', float_list sv), (str ''ratio_s1_s2'', PFloat float_inf)]))
      else throw (ValueError, str ''unknown property '' @ py_repr U prop))"

section \<open>The checker\<close>

definition spectral_caught :: "py_error \<Rightarrow> bool" where
  "spectral_caught e \<longleftrightarrow> e \<in> {ValueError, SyntaxError, NameError, TypeError, ZeroDivisionError}"

definition spectral_verdict ::
    "unicode \<Rightarrow> ('o, 'm) spectral \<Rightarrow> pystr \<Rightarrow> pystr \<Rightarrow> (pystr + bool \<times> details) timed" where
  "spectral_verdict U S prop expr =
     handle
       (bind_timed (perform (sp_eval S expr)) (\<lambda>obj.
        bind_timed (as_matrix S obj) (\<lambda>M.
        bind_timed (check_property U S prop M DEFAULT_TOL) (\<lambda>r. give (Inr r)))))
       spectral_caught
       (\<lambda>e. give (Inl (str ''error: '' @ snd e)))"

definition spectral_run :: "unicode \<Rightarrow> ('o, 'm) spectral \<Rightarrow> node \<Rightarrow> checker_result timed" where
  "spectral_run U S conclusion =
     (let claim = strip (n_claim conclusion) in
      if 32 \<notin> set claim
      then give (failure (str ''claim must be '' @ [39] @ str ''<property> <matrix_expr>'' @ [39]))
      else let (prop0, expr0) = split_once 32 claim; prop = strip prop0; expr = strip expr0 in
        bind_timed (spectral_verdict U S prop expr) (\<lambda>s.
          case s of
            Inl msg \<Rightarrow> give (failure msg)
          | Inr (ok, details) \<Rightarrow>
              if ok then give (success K2 ((str ''property'', PStr prop) # details))
              else give \<lparr> cr_passed = False, cr_kappa = K0, cr_details = details,
                     cr_error_msg = Some (str ''property '' @ py_repr U prop @ str '' failed'') \<rparr>))"

definition spectral_check ::
    "platform \<Rightarrow> ('o, 'm) spectral \<Rightarrow> node list \<Rightarrow> node \<Rightarrow> pystr \<Rightarrow> bytes option \<Rightarrow> timeout \<Rightarrow>
      checker_result run" where
  "spectral_check PL S premises conclusion rule proof_bytes timeout =
     catch_timeout (run_bounded PL (spectral_run (pl_unicode PL) S conclusion) timeout)"

end
