(* ===== verification/Checker_Contract.thy ===== *)
theory Checker_Contract
  imports Spectral
begin

text \<open>
  The contract of a checker (\<^verbatim>\<open>checkers/base.py\<close>): it returns within the budget, a failure carries \<open>K0\<close>
  and a message, a pass carries a strength that was earned, and an exception comes out of it only from
  named sources. The locale \<open>bounded_checker\<close> states the contract; every checker is an interpretation of
  it. A small calculus of assertions on timed computations carries the proofs.
\<close>

section \<open>Assertions on timed computations\<close>

named_theorems timed_rules \<open>rules that decompose an assertion on a timed computation\<close>

definition ensures :: "'a timed \<Rightarrow> ('a \<Rightarrow> bool) \<Rightarrow> bool" where
  "ensures m Q \<longleftrightarrow> (\<forall>clk a clk'. m clk = Some (Inr a, clk') \<longrightarrow> Q a)"

lemma ensures_give [timed_rules]: "Q a \<Longrightarrow> ensures (give a) Q"
  by (simp add: ensures_def give_def)

lemma ensures_throw [timed_rules]: "ensures (throw e) Q"
  by (simp add: ensures_def throw_def)

lemma ensures_bind [timed_rules]:
  assumes "ensures m P" and "\<And>a. P a \<Longrightarrow> ensures (f a) Q"
  shows "ensures (bind_timed m f) Q"
  unfolding ensures_def bind_timed_def
proof (intro allI impI)
  fix clk b clk'
  assume run: "(case m clk of None \<Rightarrow> None | Some (Inl e, clk') \<Rightarrow> Some (Inl e, clk')
    | Some (Inr a, clk') \<Rightarrow> f a clk') = Some (Inr b, clk')"
  then obtain a clk1 where "m clk = Some (Inr a, clk1)" and "f a clk1 = Some (Inr b, clk')"
    by (auto split: option.splits sum.splits)
  with assms show "Q b" by (fastforce simp: ensures_def)
qed

lemma ensures_handle [timed_rules]:
  "ensures m Q \<Longrightarrow> (\<And>e. ensures (h e) Q) \<Longrightarrow> ensures (handle m caught h) Q"
  unfolding ensures_def handle_def
  by (auto split: option.splits sum.splits if_splits)

lemma ensures_perform: "ensures (perform c) (\<lambda>a. snd c = Inr a)"
  by (auto simp: ensures_def perform_def split: clock.splits course.splits if_splits)

lemma ensures_map_timed:
  "(\<And>x. ensures (f x) (R x)) \<Longrightarrow> ensures (map_timed f xs) (list_all2 R xs)"
proof (induction xs)
  case (Cons x xs)
  have tail: "ensures (map_timed f xs) (list_all2 R xs)" by (rule Cons.IH) (rule Cons.prems)
  show ?case unfolding map_timed.simps
    by (rule ensures_bind [OF Cons.prems], rule ensures_bind [OF tail], rule ensures_give) simp
qed (simp add: ensures_give)

lemma ensures_weaken: "ensures m P \<Longrightarrow> (\<And>a. P a \<Longrightarrow> Q a) \<Longrightarrow> ensures m Q"
  by (auto simp: ensures_def)

text \<open>What a computation raises, the interruption by the timer apart.\<close>

definition raises :: "'a timed \<Rightarrow> (exn \<Rightarrow> bool) \<Rightarrow> bool" where
  "raises m X \<longleftrightarrow> (\<forall>clk e clk'. m clk = Some (Inl e, clk') \<longrightarrow> X e \<or> fst e = CheckerTimeout)"

lemma raises_give [timed_rules]: "raises (give a) X"
  by (simp add: raises_def give_def)

lemma raises_throw [timed_rules]: "X e \<Longrightarrow> raises (throw e) X"
  by (simp add: raises_def throw_def)

lemma raises_bind [timed_rules]:
  assumes "raises m X" and "\<And>a. raises (f a) X"
  shows "raises (bind_timed m f) X"
  unfolding raises_def bind_timed_def
proof (intro allI impI)
  fix clk e clk'
  assume "(case m clk of None \<Rightarrow> None | Some (Inl e, clk') \<Rightarrow> Some (Inl e, clk')
    | Some (Inr a, clk') \<Rightarrow> f a clk') = Some (Inl e, clk')"
  then have "m clk = Some (Inl e, clk') \<or> (\<exists>a clk1. f a clk1 = Some (Inl e, clk'))"
    by (auto split: option.splits sum.splits)
  with assms show "X e \<or> fst e = CheckerTimeout" unfolding raises_def by blast
qed

lemma raises_handle [timed_rules]:
  assumes "raises m Y" and "\<And>e. Y e \<Longrightarrow> \<not> caught (fst e) \<Longrightarrow> X e" and "\<And>e. raises (h e) X"
  shows "raises (handle m caught h) X"
  unfolding raises_def handle_def
proof (intro allI impI)
  fix clk e clk'
  assume "(case m clk of None \<Rightarrow> None
    | Some (Inl e, clk') \<Rightarrow> if caught (fst e) then h e clk' else Some (Inl e, clk')
    | Some (Inr a, clk') \<Rightarrow> Some (Inr a, clk')) = Some (Inl e, clk')"
  then have "(m clk = Some (Inl e, clk') \<and> \<not> caught (fst e)) \<or> (\<exists>e' clk1. h e' clk1 = Some (Inl e, clk'))"
    by (auto split: option.splits sum.splits if_splits)
  with assms show "X e \<or> fst e = CheckerTimeout" unfolding raises_def by blast
qed

lemma raises_perform: "raises (perform c) (\<lambda>e. snd c = Inl e)"
  by (auto simp: raises_def perform_def split: clock.splits course.splits if_splits)

lemma raises_weaken: "raises m X \<Longrightarrow> (\<And>e. X e \<Longrightarrow> Y e) \<Longrightarrow> raises m Y"
  unfolding raises_def by blast

lemma raises_map_timed: "(\<And>x. raises (f x) X) \<Longrightarrow> raises (map_timed f xs) X"
  by (induction xs) (auto intro!: timed_rules)

text \<open>
  A computation that ends when a timer is armed: the timer is gone only after the interruption, which
  the computation passes on.
\<close>

definition prompt :: "'a timed \<Rightarrow> bool" where
  "prompt m \<longleftrightarrow> (\<forall>n msg. \<exists>r clk. m (Armed n msg) = Some (r, clk) \<and>
     (clk = Unarmed \<longrightarrow> (\<exists>txt. r = Inl (CheckerTimeout, txt))))"

lemma promptE:
  assumes "prompt m"
  obtains r k msg' where "m (Armed n msg) = Some (r, Armed k msg')"
  | m2 where "m (Armed n msg) = Some (Inl (CheckerTimeout, m2), Unarmed)"
proof -
  obtain r clk where "m (Armed n msg) = Some (r, clk)"
    and "clk = Unarmed \<longrightarrow> (\<exists>txt. r = Inl (CheckerTimeout, txt))"
    using assms unfolding prompt_def by blast
  then show thesis by (cases clk) (use that in auto)
qed

lemma prompt_give [timed_rules]: "prompt (give a)"
  by (simp add: prompt_def give_def)

lemma prompt_throw [timed_rules]: "prompt (throw e)"
  by (simp add: prompt_def throw_def)

text \<open>A call in which the interpreter is in control again and again until it ends.\<close>

definition regains :: "'a call \<Rightarrow> bool" where
  "regains c \<longleftrightarrow> (\<forall>d. fst c \<noteq> Stuck d)"

lemma prompt_perform [timed_rules]: "regains c \<Longrightarrow> prompt (perform c)"
  by (cases "fst c") (auto simp: regains_def prompt_def perform_def)

lemma stuck_hangs:
  "fst c = Stuck d \<Longrightarrow> (\<forall>left msg. clk = Armed left msg \<longrightarrow> d < left) \<Longrightarrow> perform c clk = None"
  by (cases clk) (auto simp: perform_def)

lemma prompt_bind [timed_rules]:
  assumes "prompt m" and "\<And>a. prompt (f a)"
  shows "prompt (bind_timed m f)"
  unfolding prompt_def
proof (intro allI)
  fix n msg
  show "\<exists>r clk. bind_timed m f (Armed n msg) = Some (r, clk) \<and>
      (clk = Unarmed \<longrightarrow> (\<exists>txt. r = Inl (CheckerTimeout, txt)))"
  proof (cases rule: promptE [OF assms(1), of n msg])
    case (1 r k msg')
    then show ?thesis
    proof (cases r)
      case (Inr a)
      with assms(2) [of a] 1 show ?thesis by (simp add: prompt_def bind_timed_def)
    qed (simp add: bind_timed_def)
  qed (simp add: bind_timed_def)
qed

lemma prompt_handle [timed_rules]:
  assumes "prompt m" and "\<not> caught CheckerTimeout" and "\<And>e. prompt (h e)"
  shows "prompt (handle m caught h)"
  unfolding prompt_def
proof (intro allI)
  fix n msg
  show "\<exists>r clk. handle m caught h (Armed n msg) = Some (r, clk) \<and>
      (clk = Unarmed \<longrightarrow> (\<exists>txt. r = Inl (CheckerTimeout, txt)))"
  proof (cases rule: promptE [OF assms(1), of n msg])
    case (1 r k msg')
    then show ?thesis
    proof (cases r)
      case (Inl e)
      with assms(3) [of e] 1 show ?thesis by (simp add: prompt_def handle_def)
    qed (simp add: handle_def)
  next
    case (2 m2)
    with assms(2) show ?thesis by (simp add: handle_def)
  qed
qed

lemma prompt_map_timed [timed_rules]: "(\<And>x. prompt (f x)) \<Longrightarrow> prompt (map_timed f xs)"
  by (induction xs) (auto intro!: timed_rules)

lemma prompt_ends: "prompt m \<Longrightarrow> m (Armed n msg) \<noteq> None"
  by (erule promptE [of m n msg]) simp_all

section \<open>The bounded invocation\<close>

definition wrong_thread :: "platform \<Rightarrow> timeout \<Rightarrow> exn \<Rightarrow> bool" where
  "wrong_thread PL timeout e \<longleftrightarrow>
     pl_sigalrm PL \<and> \<not> pl_main_thread PL \<and> (\<exists>ms txt. timeout = Some (ms, txt) \<and> 0 < ms) \<and>
     e = (ValueError, str ''signal only works in main thread of the main interpreter'')"

definition budgeted :: "platform \<Rightarrow> timeout \<Rightarrow> bool" where
  "budgeted PL timeout \<longleftrightarrow> pl_sigalrm PL \<and> (\<exists>ms txt. timeout = Some (ms, txt) \<and> 0 < ms)"

lemma outcome_eq: "outcome m clk = Some r \<longleftrightarrow> (\<exists>clk'. m clk = Some (r, clk'))"
  by (auto simp: outcome_def)

lemma run_bounded_ensures:
  "run_bounded PL m t = Some (Inr a) \<Longrightarrow> ensures m Q \<Longrightarrow> Q a"
  by (auto simp: run_bounded_def ensures_def outcome_eq split: option.splits prod.splits if_splits)

lemma run_bounded_raises:
  assumes "run_bounded PL m t = Some (Inl e)" and "raises m X"
  shows "X e \<or> fst e = CheckerTimeout \<or> wrong_thread PL t e"
proof -
  have "(\<exists>clk. outcome m clk = Some (Inl e)) \<or> wrong_thread PL t e"
    using assms(1)
    by (auto simp: run_bounded_def wrong_thread_def split: option.splits prod.splits if_splits)
  with assms(2) show ?thesis unfolding outcome_eq raises_def by blast
qed

lemma run_bounded_returns:
  "budgeted PL t \<Longrightarrow> (\<And>n msg. m (Armed n msg) \<noteq> None) \<Longrightarrow> run_bounded PL m t \<noteq> None"
  by (auto simp: run_bounded_def budgeted_def outcome_def)

lemma catch_timeout_None [simp]: "catch_timeout r = None \<longleftrightarrow> r = None"
  by (auto simp: catch_timeout_def split: option.splits sum.splits if_splits)

lemma catch_timeout_Inl:
  "catch_timeout r = Some (Inl e) \<longleftrightarrow> r = Some (Inl e) \<and> fst e \<noteq> CheckerTimeout"
  by (auto simp: catch_timeout_def split: option.splits sum.splits if_splits)

lemma catch_timeout_Inr:
  "catch_timeout r = Some (Inr a) \<longleftrightarrow>
     r = Some (Inr a) \<or> (\<exists>e. r = Some (Inl e) \<and> fst e = CheckerTimeout \<and> a = failure (snd e))"
  by (auto simp: catch_timeout_def split: option.splits sum.splits if_splits)

section \<open>The contract\<close>

definition honest :: "(Kappa \<Rightarrow> bool) \<Rightarrow> checker_result \<Rightarrow> bool" where
  "honest earned r \<longleftrightarrow>
     (if cr_passed r then earned (cr_kappa r) \<and> cr_error_msg r = None
      else cr_kappa r = K0 \<and> cr_error_msg r \<noteq> None)"

lemma honest_failure [simp]: "honest Q (failure msg)"
  by (simp add: honest_def failure_def)

lemma honest_success [simp]: "honest Q (success k d) \<longleftrightarrow> Q k"
  by (simp add: honest_def success_def)

lemma honest_rejected [simp]:
  "honest Q \<lparr> cr_passed = False, cr_kappa = K0, cr_details = d, cr_error_msg = Some m \<rparr>"
  by (simp add: honest_def)

locale bounded_checker =
  fixes check :: "node list \<Rightarrow> node \<Rightarrow> pystr \<Rightarrow> bytes option \<Rightarrow> timeout \<Rightarrow> checker_result run"
    and bounded :: "timeout \<Rightarrow> bool"
    and earned :: "node list \<Rightarrow> node \<Rightarrow> bytes option \<Rightarrow> timeout \<Rightarrow> Kappa \<Rightarrow> bool"
    and leaks :: "node list \<Rightarrow> node \<Rightarrow> bytes option \<Rightarrow> timeout \<Rightarrow> exn \<Rightarrow> bool"
  assumes returns: "bounded t \<Longrightarrow> check prems c rule p t \<noteq> None"
    and honesty: "check prems c rule p t = Some (Inr r) \<Longrightarrow> honest (earned prems c p t) r"
    and leaking: "check prems c rule p t = Some (Inl e) \<Longrightarrow> leaks prems c p t e"
begin

lemma passed_earned: "check prems c rule p t = Some (Inr r) \<Longrightarrow> cr_passed r \<Longrightarrow> earned prems c p t (cr_kappa r)"
  using honesty by (auto simp: honest_def)

lemma failed_K0:
  "check prems c rule p t = Some (Inr r) \<Longrightarrow> \<not> cr_passed r \<Longrightarrow> cr_kappa r = K0 \<and> cr_error_msg r \<noteq> None"
  using honesty by (auto simp: honest_def)

lemma result_cases:
  assumes "bounded t"
  obtains r where "check prems c rule p t = Some (Inr r)" and "honest (earned prems c p t) r"
  | e where "check prems c rule p t = Some (Inl e)" and "leaks prems c p t e"
proof (cases "check prems c rule p t")
  case None
  with returns [OF assms] show ?thesis by blast
next
  case (Some s)
  then show ?thesis using that honesty leaking by (cases s) blast+
qed

end

section \<open>The roster\<close>

lemma words_join: "words (join [32] (words s)) = words s"
  unfolding words_def by (rule runs_join [OF runs_ok]) (simp_all add: is_space_def)

lemma words_normalize [simp]: "words (normalize s) = words s"
  by (simp add: normalize_def words_join)

lemma words_sentence:
  "list_all (\<lambda>w. w \<noteq> [] \<and> list_all (\<lambda>c. \<not> is_space c) w) ws \<Longrightarrow> words (join [32] ws) = ws"
  unfolding words_def by (rule runs_join) (simp_all add: is_space_def)

lemma normalize_roster: "s \<in> set ROSTER \<Longrightarrow> normalize s = s"
  unfolding ROSTER_def normalize_def
  by (auto simp: words_def runs.simps is_space_def)

lemma roster_match: "normalize s \<in> set ROSTER \<longleftrightarrow> words s \<in> words ` set ROSTER"
proof
  assume "normalize s \<in> set ROSTER"
  then show "words s \<in> words ` set ROSTER" by (metis imageI words_normalize)
next
  assume "words s \<in> words ` set ROSTER"
  then obtain e where "e \<in> set ROSTER" "words s = words e" by blast
  then show "normalize s \<in> set ROSTER" using normalize_roster by (simp add: normalize_def)
qed

definition roster_earned :: "node list \<Rightarrow> node \<Rightarrow> bytes option \<Rightarrow> timeout \<Rightarrow> Kappa \<Rightarrow> bool" where
  "roster_earned prems c p t k \<longleftrightarrow> k = (if words (n_claim c) \<in> words ` set ROSTER then K_INF else K1)"

interpretation roster: bounded_checker roster_check "\<lambda>t. True" roster_earned "\<lambda>_ _ _ _ _. False"
  by unfold_locales
    (auto simp: roster_check_def roster_earned_def check_roster_def roster_match Let_def split: if_splits)

section \<open>The CAS checker\<close>

definition cas_earned :: "'e cas \<Rightarrow> node list \<Rightarrow> node \<Rightarrow> bytes option \<Rightarrow> timeout \<Rightarrow> Kappa \<Rightarrow> bool" where
  "cas_earned C prems c p t k \<longleftrightarrow>
     k = K2 \<and> 61 \<in> set (n_claim c) \<and>
     (\<exists>lhs rhs. snd (cas_parse C (fst (split_once 61 (n_claim c)))) = Inr lhs \<and>
        snd (cas_parse C (snd (split_once 61 (n_claim c)))) = Inr rhs \<and>
        snd (cas_equal C lhs rhs) = Inr True)"

definition cas_leaks :: "platform \<Rightarrow> 'e cas \<Rightarrow> node list \<Rightarrow> node \<Rightarrow> bytes option \<Rightarrow> timeout \<Rightarrow> exn \<Rightarrow> bool" where
  "cas_leaks PL C prems c p t e \<longleftrightarrow>
     wrong_thread PL t e \<or> (\<exists>lhs rhs. snd (cas_equal C lhs rhs) = Inl e) \<or> (\<exists>x. snd (cas_text C x) = Inl e)"

lemma cas_sides_ensures:
  "ensures (cas_sides C claim) (\<lambda>s. \<forall>lhs rhs. s = Inr (lhs, rhs) \<longrightarrow>
     snd (cas_parse C (fst (split_once 61 claim))) = Inr lhs \<and>
     snd (cas_parse C (snd (split_once 61 claim))) = Inr rhs)"
  unfolding cas_sides_def Let_def case_prod_beta
  by (rule ensures_handle, rule ensures_bind [OF ensures_perform],
      rule ensures_bind [OF ensures_perform]) (simp_all add: ensures_give)

lemma cas_run_ensures: "ensures (cas_run C c) (honest (cas_earned C prems c p t))"
proof (cases "61 \<in> set (n_claim c)")
  case True
  have "ensures (cas_decide C s) (honest (cas_earned C prems c p t))"
    if parsed: "\<forall>lhs rhs. s = Inr (lhs, rhs) \<longrightarrow>
      snd (cas_parse C (fst (split_once 61 (n_claim c)))) = Inr lhs \<and>
      snd (cas_parse C (snd (split_once 61 (n_claim c)))) = Inr rhs" for s
  proof (cases s)
    case (Inl msg)
    then show ?thesis by (simp add: cas_decide_def ensures_give)
  next
    case (Inr sides)
    then obtain lhs rhs where s: "s = Inr (lhs, rhs)" by (cases sides) auto
    have "cas_earned C prems c p t K2" if "snd (cas_equal C lhs rhs) = Inr True"
      using parsed s True that by (auto simp: cas_earned_def)
    then show ?thesis unfolding s cas_decide_def sum.case prod.case
      by (intro ensures_bind [OF ensures_perform])
        (auto intro!: ensures_give ensures_bind [OF ensures_perform])
  qed
  then show ?thesis using True unfolding cas_run_def Let_def
    by (simp add: ensures_bind [OF cas_sides_ensures])
qed (simp add: cas_run_def Let_def ensures_give)

lemma cas_run_raises:
  "raises (cas_run C c)
     (\<lambda>e. (\<exists>lhs rhs. snd (cas_equal C lhs rhs) = Inl e) \<or> (\<exists>x. snd (cas_text C x) = Inl e))"
  (is "raises _ ?X")
proof -
  have eq: "raises (perform (cas_equal C l r)) ?X" for l r by (rule raises_weaken [OF raises_perform]) blast
  have tx: "raises (perform (cas_text C l)) ?X" for l by (rule raises_weaken [OF raises_perform]) blast
  have sides: "raises (cas_sides C claim) ?X" for claim
    unfolding cas_sides_def Let_def case_prod_beta
    by (rule raises_handle [where Y = "\<lambda>e. True"]) (auto simp: raises_def give_def)
  show ?thesis unfolding cas_run_def cas_decide_def Let_def
    by (auto intro!: raises_bind eq tx sides raises_give split: sum.splits prod.splits)
qed

definition cas_regains :: "'e cas \<Rightarrow> bool" where
  "cas_regains C \<longleftrightarrow> (\<forall>s. regains (cas_parse C s)) \<and> (\<forall>l r. regains (cas_equal C l r)) \<and> (\<forall>e. regains (cas_text C e))"

lemma cas_sides_ends:
  fixes C :: "'e cas"
  assumes "cas_regains C"
  shows "\<exists>s clk. cas_sides C claim (Armed n msg) = Some (Inr s, clk) \<and> (clk = Unarmed \<longrightarrow> (\<exists>m. s = Inl m))"
proof -
  obtain l r where lr: "split_once 61 claim = (l, r)" by (cases "split_once 61 claim")
  let ?parse = "bind_timed (perform (cas_parse C l)) (\<lambda>lhs.
      bind_timed (perform (cas_parse C r)) (\<lambda>rhs. give (Inr (lhs, rhs)))) :: (pystr + 'e \<times> 'e) timed"
  have sides: "cas_sides C claim =
      handle ?parse (\<lambda>e. True) (\<lambda>e. give (Inl (str ''parse error: '' @ snd e)))"
    by (simp add: cas_sides_def lr)
  have parse: "prompt ?parse" using assms by (auto simp: cas_regains_def intro!: timed_rules)
  show ?thesis
  proof (cases rule: promptE [OF parse, of n msg])
    case (1 s k msg')
    then show ?thesis by (cases s) (simp_all add: sides handle_def give_def)
  next
    case (2 m2)
    then show ?thesis by (simp add: sides handle_def give_def)
  qed
qed

lemma cas_run_ends:
  assumes "cas_regains C"
  shows "cas_run C c (Armed n msg) \<noteq> None"
proof (cases "61 \<in> set (n_claim c)")
  case True
  obtain s clk where s: "cas_sides C (n_claim c) (Armed n msg) = Some (Inr s, clk)"
    and gone: "clk = Unarmed \<longrightarrow> (\<exists>m. s = Inl m)" using cas_sides_ends [OF assms] by blast
  have "prompt (cas_decide C s)"
    using assms unfolding cas_decide_def cas_regains_def by (cases s) (auto intro!: timed_rules split: prod.splits)
  then have "cas_decide C s clk \<noteq> None"
  proof (cases clk)
    case Unarmed
    with gone show ?thesis by (auto simp: cas_decide_def give_def)
  next
    case (Armed k m)
    with prompt_ends [OF \<open>prompt (cas_decide C s)\<close>, of k m] show ?thesis by simp
  qed
  then show ?thesis using True s by (simp add: cas_run_def bind_timed_def)
qed (simp add: cas_run_def give_def)

interpretation cas: bounded_checker "cas_check PL C" "\<lambda>t. budgeted PL t \<and> cas_regains C" "cas_earned C" "cas_leaks PL C"
  for PL and C :: "'e cas"
proof
  fix prems c rule p t
  show "budgeted PL t \<and> cas_regains C \<Longrightarrow> cas_check PL C prems c rule p t \<noteq> None"
    by (simp add: cas_check_def run_bounded_returns cas_run_ends)
  show "cas_check PL C prems c rule p t = Some (Inr r) \<Longrightarrow> honest (cas_earned C prems c p t) r" for r
    unfolding cas_check_def catch_timeout_Inr by (auto dest: run_bounded_ensures [OF _ cas_run_ensures])
  show "cas_check PL C prems c rule p t = Some (Inl e) \<Longrightarrow> cas_leaks PL C prems c p t e" for e
    unfolding cas_check_def catch_timeout_Inl cas_leaks_def
    by (auto dest: run_bounded_raises [OF _ cas_run_raises])
qed

section \<open>The Z3 checker\<close>

text \<open>The terms of the premises and of the conclusion, as \<open>z3_eval\<close> gives them, and an \<open>unsat\<close> answer.\<close>

definition z3_earned :: "'f z3 \<Rightarrow> node list \<Rightarrow> node \<Rightarrow> bytes option \<Rightarrow> timeout \<Rightarrow> Kappa \<Rightarrow> bool" where
  "z3_earned Z prems c p t k \<longleftrightarrow>
     k = K3 \<and>
     (\<exists>ms fs f conj neg. map_option fst t = Some ms \<and>
        list_all2 (\<lambda>n f. snd (z3_eval Z (n_claim n)) = Inr (BoolRef f)) prems fs \<and>
        snd (z3_eval Z (n_claim c)) = Inr (BoolRef f) \<and>
        snd (z3_and Z fs) = Inr conj \<and> snd (z3_not Z f) = Inr neg \<and>
        snd (z3_check Z ms [conj, neg]) = Inr unsat)"

definition z3_leaks :: "platform \<Rightarrow> 'f z3 \<Rightarrow> node list \<Rightarrow> node \<Rightarrow> bytes option \<Rightarrow> timeout \<Rightarrow> exn \<Rightarrow> bool" where
  "z3_leaks PL Z prems c p t e \<longleftrightarrow>
     wrong_thread PL t e \<or> (t = None \<and> fst e = TypeError) \<or>
     ((\<exists>s. snd (z3_eval Z s) = Inl e) \<and> fst e \<notin> {ValueError, SyntaxError, NameError, TypeError}) \<or>
     (\<exists>fs. snd (z3_and Z fs) = Inl e) \<or> (\<exists>f. snd (z3_not Z f) = Inl e) \<or>
     (\<exists>ms fs. snd (z3_check Z ms fs) = Inl e)"

lemma z3_parse_ensures: "ensures (z3_parse U Z s) (\<lambda>f. snd (z3_eval Z s) = Inr (BoolRef f))"
  unfolding z3_parse_def
  by (rule ensures_bind [OF ensures_perform]) (auto intro!: timed_rules split: z3_object.splits)

lemma z3_parse_raises:
  "raises (z3_parse U Z s) (\<lambda>e. (\<exists>s. snd (z3_eval Z s) = Inl e) \<or> fst e = ValueError)"
  unfolding z3_parse_def
  by (rule raises_bind, rule raises_weaken [OF raises_perform])
    (auto intro!: timed_rules split: z3_object.splits)

definition z3_regains :: "'f z3 \<Rightarrow> bool" where
  "z3_regains Z \<longleftrightarrow> (\<forall>s. regains (z3_eval Z s)) \<and> (\<forall>fs. regains (z3_and Z fs)) \<and> (\<forall>f. regains (z3_not Z f)) \<and>
     (\<forall>ms fs. regains (z3_check Z ms fs))"

lemma z3_parse_prompt: "z3_regains Z \<Longrightarrow> prompt (z3_parse U Z s)"
  unfolding z3_parse_def z3_regains_def by (auto intro!: timed_rules split: z3_object.splits)

lemma z3_terms_ensures:
  "ensures (z3_terms U Z prems c) (\<lambda>s. \<forall>fs f. s = Inr (fs, f) \<longrightarrow>
     list_all2 (\<lambda>n f. snd (z3_eval Z (n_claim n)) = Inr (BoolRef f)) prems fs \<and>
     snd (z3_eval Z (n_claim c)) = Inr (BoolRef f))"
  unfolding z3_terms_def
  by (rule ensures_handle, rule ensures_bind [OF ensures_map_timed [OF z3_parse_ensures]],
      rule ensures_bind [OF z3_parse_ensures]) (simp_all add: ensures_give)

lemma z3_terms_raises:
  "raises (z3_terms U Z prems c)
     (\<lambda>e. (\<exists>s. snd (z3_eval Z s) = Inl e) \<and> fst e \<notin> {ValueError, SyntaxError, NameError, TypeError})"
  unfolding z3_terms_def
  by (rule raises_handle [where Y = "\<lambda>e. (\<exists>s. snd (z3_eval Z s) = Inl e) \<or> fst e = ValueError"])
    (auto intro!: raises_bind raises_map_timed z3_parse_raises raises_give)

lemma z3_terms_prompt: "z3_regains Z \<Longrightarrow> prompt (z3_terms U Z prems c)"
  unfolding z3_terms_def by (auto intro!: timed_rules z3_parse_prompt)

lemma z3_run_ensures: "ensures (z3_run U Z prems c t) (honest (z3_earned Z prems c p t))"
proof -
  have "ensures (z3_solve Z t s) (honest (z3_earned Z prems c p t))"
    if parsed: "\<forall>fs f. s = Inr (fs, f) \<longrightarrow>
      list_all2 (\<lambda>n f. snd (z3_eval Z (n_claim n)) = Inr (BoolRef f)) prems fs \<and>
      snd (z3_eval Z (n_claim c)) = Inr (BoolRef f)" for s
  proof (cases s)
    case (Inl msg)
    then show ?thesis by (simp add: z3_solve_def ensures_give)
  next
    case (Inr terms)
    then obtain fs f where s: "s = Inr (fs, f)" by (cases terms) auto
    show ?thesis
    proof (cases t)
      case None
      then show ?thesis by (simp add: s z3_solve_def ensures_throw)
    next
      case (Some mst)
      then obtain ms msg where t: "t = Some (ms, msg)" by (cases mst) auto
      have "z3_earned Z prems c p t K3"
        if "snd (z3_and Z fs) = Inr conj" "snd (z3_not Z f) = Inr neg"
          "snd (z3_check Z ms [conj, neg]) = Inr unsat" for conj neg
        using parsed s t that by (auto simp: z3_earned_def)
      then show ?thesis unfolding s t z3_solve_def sum.case prod.case option.case
        by (intro ensures_bind [OF ensures_perform]) (auto intro!: ensures_give split: z3_answer.splits)
    qed
  qed
  then show ?thesis unfolding z3_run_def by (rule ensures_bind [OF z3_terms_ensures])
qed

lemma z3_run_raises: "raises (z3_run U Z prems c t) (z3_leaks PL Z prems c p t)"
proof -
  have "raises (perform (z3_and Z fs)) (z3_leaks PL Z prems c p t)"
    "raises (perform (z3_not Z f)) (z3_leaks PL Z prems c p t)"
    "raises (perform (z3_check Z ms fs)) (z3_leaks PL Z prems c p t)" for fs f ms
    by (rule raises_weaken [OF raises_perform], auto simp: z3_leaks_def)+
  then have "raises (z3_solve Z t s) (z3_leaks PL Z prems c p t)" for s
    unfolding z3_solve_def
    by (auto intro!: timed_rules simp: z3_leaks_def split: sum.splits prod.splits option.splits z3_answer.splits)
  moreover have "raises (z3_terms U Z prems c) (z3_leaks PL Z prems c p t)"
    by (rule raises_weaken [OF z3_terms_raises]) (auto simp: z3_leaks_def)
  ultimately show ?thesis unfolding z3_run_def by (intro raises_bind)
qed

lemma z3_run_prompt:
  assumes "z3_regains Z"
  shows "prompt (z3_run U Z prems c t)"
proof -
  have "prompt (z3_solve Z t s)" for s
    using assms unfolding z3_solve_def z3_regains_def
    by (auto intro!: timed_rules split: sum.splits prod.splits option.splits z3_answer.splits)
  then show ?thesis unfolding z3_run_def by (intro timed_rules z3_terms_prompt [OF assms])
qed

interpretation smt: bounded_checker "z3_check_edge PL Z" "\<lambda>t. budgeted PL t \<and> z3_regains Z" "z3_earned Z" "z3_leaks PL Z"
  for PL and Z :: "'f z3"
proof
  fix prems c rule p t
  show "budgeted PL t \<and> z3_regains Z \<Longrightarrow> z3_check_edge PL Z prems c rule p t \<noteq> None"
    by (simp add: z3_check_edge_def run_bounded_returns prompt_ends z3_run_prompt)
  show "z3_check_edge PL Z prems c rule p t = Some (Inr r) \<Longrightarrow> honest (z3_earned Z prems c p t) r" for r
    unfolding z3_check_edge_def catch_timeout_Inr by (auto dest: run_bounded_ensures [OF _ z3_run_ensures])
  show "z3_check_edge PL Z prems c rule p t = Some (Inl e) \<Longrightarrow> z3_leaks PL Z prems c p t e" for e
    unfolding z3_check_edge_def catch_timeout_Inl
    by (auto dest!: run_bounded_raises [OF _ z3_run_raises [of _ Z prems c t PL p]] simp: z3_leaks_def)
qed

section \<open>The Lean checker\<close>

definition lean_earned :: "lean \<Rightarrow> node list \<Rightarrow> node \<Rightarrow> bytes option \<Rightarrow> timeout \<Rightarrow> Kappa \<Rightarrow> bool" where
  "lean_earned L prems c p t k \<longleftrightarrow>
     k = K3 \<and> (\<exists>binary src stderr. lean_binary L = Some binary \<and> p = Some src \<and> src \<noteq> [] \<and>
        snd (lean_process L binary src) = Inr (0, stderr))"

definition lean_leaks :: "lean \<Rightarrow> node list \<Rightarrow> node \<Rightarrow> bytes option \<Rightarrow> timeout \<Rightarrow> exn \<Rightarrow> bool" where
  "lean_leaks L prems c p t e \<longleftrightarrow>
     (\<exists>src. lean_tempfile L src = Some e) \<or>
     ((\<exists>binary src. snd (lean_process L binary src) = Inl e) \<and> fst e \<noteq> OSError)"

lemma subprocess_run_eq:
  "subprocess_run call t = Some r \<Longrightarrow> snd call = r \<or> r = Inl (TimeoutExpired, [])"
  by (auto simp: subprocess_run_def split: option.splits course.splits prod.splits if_splits)

interpretation lean: bounded_checker "lean_check L" "\<lambda>t. t \<noteq> None" "lean_earned L" "lean_leaks L" for L
proof
  fix prems c rule p t
  show "t \<noteq> None \<Longrightarrow> lean_check L prems c rule p t \<noteq> None"
    by (auto simp: lean_check_def subprocess_run_def split: option.splits sum.splits if_splits course.splits)
  show "lean_check L prems c rule p t = Some (Inr r) \<Longrightarrow> honest (lean_earned L prems c p t) r" for r
    by (auto simp: lean_check_def lean_earned_def split: option.splits sum.splits if_splits
        dest!: subprocess_run_eq)
  show "lean_check L prems c rule p t = Some (Inl e) \<Longrightarrow> lean_leaks L prems c p t e" for e
    by (auto simp: lean_check_def lean_leaks_def split: option.splits sum.splits if_splits
        dest!: subprocess_run_eq)
qed

section \<open>The spectral checker\<close>

text \<open>What each property of the vocabulary says of the numbers of a matrix.\<close>

definition numbers_satisfy :: "unicode \<Rightarrow> ('o, 'm) spectral \<Rightarrow> pystr \<Rightarrow> 'm \<Rightarrow> bool" where
  "numbers_satisfy U S prop M \<longleftrightarrow>
     (prop = str ''self_adjoint'' \<and>
        (\<exists>h i. snd (sp_hermitian_err S M) = Inr h \<and> snd (sp_max_im_eig S M) = Inr i \<and>
           float_less h DEFAULT_TOL \<and> float_less i DEFAULT_TOL)) \<or>
     (prop = str ''symmetric'' \<and>
        (\<exists>s. snd (sp_symmetry_err S M) = Inr s \<and> float_less s DEFAULT_TOL)) \<or>
     (prop = str ''real_spectrum'' \<and>
        (\<exists>i. snd (sp_max_im_eig S M) = Inr i \<and> float_less i DEFAULT_TOL)) \<or>
     (prop = str ''complex_spectrum'' \<and>
        (\<exists>i. snd (sp_max_im_eig S M) = Inr i \<and> float_less DEFAULT_TOL i)) \<or>
     (take 9 prop = str ''rank_leq:'' \<and>
        (\<exists>k sv. py_int U (snd (split_once 58 prop)) = Some k \<and> snd (sp_singular_values S M) = Inr sv \<and>
           int (length (filter (float_less DEFAULT_TOL) sv)) \<le> k)) \<or>
     (prop = str ''low_rank'' \<and>
        (\<exists>sv. snd (sp_singular_values S M) = Inr sv \<and>
           (\<forall>s0 s1 rest. sv = s0 # s1 # rest \<longrightarrow> float_less 0 s1 \<longrightarrow> float_less float_ten (sp_ratio S s0 s1))))"

definition spectral_earned ::
    "unicode \<Rightarrow> ('o, 'm) spectral \<Rightarrow> node list \<Rightarrow> node \<Rightarrow> bytes option \<Rightarrow> timeout \<Rightarrow> Kappa \<Rightarrow> bool" where
  "spectral_earned U S prems c p t k \<longleftrightarrow>
     k = K2 \<and>
     (\<exists>prop expr obj M r. (prop, expr) = split_once 32 (strip (n_claim c)) \<and>
        snd (sp_eval S (strip expr)) = Inr obj \<and> snd (sp_asarray S obj) = Inr M \<and> sp_shape S M = [r, r] \<and>
        numbers_satisfy U S (strip prop) M)"

definition spectral_leaks ::
    "platform \<Rightarrow> ('o, 'm) spectral \<Rightarrow> node list \<Rightarrow> node \<Rightarrow> bytes option \<Rightarrow> timeout \<Rightarrow> exn \<Rightarrow> bool" where
  "spectral_leaks PL S prems c p t e \<longleftrightarrow> wrong_thread PL t e \<or> \<not> spectral_caught (fst e)"

lemma as_matrix_ensures:
  "ensures (as_matrix S obj) (\<lambda>M. snd (sp_asarray S obj) = Inr M \<and> (\<exists>r. sp_shape S M = [r, r]))"
  unfolding as_matrix_def
  by (rule ensures_bind [OF ensures_perform]) (auto intro!: timed_rules split: list.splits if_splits)

definition spectral_regains :: "('o, 'm) spectral \<Rightarrow> bool" where
  "spectral_regains S \<longleftrightarrow> (\<forall>s. regains (sp_eval S s)) \<and> (\<forall>x. regains (sp_asarray S x)) \<and>
     (\<forall>M. regains (sp_hermitian_err S M) \<and> regains (sp_symmetry_err S M) \<and> regains (sp_max_im_eig S M) \<and>
        regains (sp_singular_values S M))"

lemma as_matrix_prompt: "spectral_regains S \<Longrightarrow> prompt (as_matrix S obj)"
  unfolding as_matrix_def spectral_regains_def by (auto intro!: timed_rules split: list.splits)

lemma check_property_ensures:
  "ensures (check_property U S prop M DEFAULT_TOL) (\<lambda>(ok, d). ok \<longrightarrow> numbers_satisfy U S prop M)"
  unfolding check_property_def Let_def
  by (auto intro!: ensures_bind [OF ensures_perform] ensures_give ensures_throw
      simp: numbers_satisfy_def split: option.splits list.splits simp del: str_Cons)

lemma check_property_prompt: "spectral_regains S \<Longrightarrow> prompt (check_property U S prop M tol)"
  unfolding check_property_def Let_def spectral_regains_def
  by (auto intro!: timed_rules split: option.splits list.splits simp del: str_Cons)

lemma spectral_verdict_ensures:
  "ensures (spectral_verdict U S prop expr) (\<lambda>s. \<forall>d. s = Inr (True, d) \<longrightarrow>
     (\<exists>obj M r. snd (sp_eval S expr) = Inr obj \<and> snd (sp_asarray S obj) = Inr M \<and>
        sp_shape S M = [r, r] \<and> numbers_satisfy U S prop M))"
  unfolding spectral_verdict_def
  by (rule ensures_handle, rule ensures_bind [OF ensures_perform], rule ensures_bind [OF as_matrix_ensures],
      rule ensures_bind [OF check_property_ensures]) (auto intro!: ensures_give)

lemma spectral_verdict_raises: "raises (spectral_verdict U S prop expr) (\<lambda>e. \<not> spectral_caught (fst e))"
  unfolding spectral_verdict_def
  by (rule raises_handle [where Y = "\<lambda>e. True"]) (auto simp: raises_def give_def)

lemma spectral_verdict_prompt:
  assumes "spectral_regains S"
  shows "prompt (spectral_verdict U S prop expr)"
proof -
  have "regains (sp_eval S expr)" using assms by (simp add: spectral_regains_def)
  then show ?thesis
    unfolding spectral_verdict_def
    by (auto intro!: timed_rules as_matrix_prompt [OF assms] check_property_prompt [OF assms] simp: spectral_caught_def)
qed

lemma spectral_run_ensures: "ensures (spectral_run U S c) (honest (spectral_earned U S prems c p t))"
proof -
  obtain pr ex where pe: "split_once 32 (strip (n_claim c)) = (pr, ex)"
    by (cases "split_once 32 (strip (n_claim c))")
  have "spectral_earned U S prems c p t K2"
    if "snd (sp_eval S (strip ex)) = Inr obj" "snd (sp_asarray S obj) = Inr M" "sp_shape S M = [r, r]"
      "numbers_satisfy U S (strip pr) M" for obj M r
    unfolding spectral_earned_def pe using that by blast
  then show ?thesis unfolding spectral_run_def Let_def pe prod.case
    by (auto intro!: ensures_bind [OF spectral_verdict_ensures] ensures_give split: sum.splits simp del: str_Cons)
qed

lemma spectral_run_raises: "raises (spectral_run U S c) (\<lambda>e. \<not> spectral_caught (fst e))"
  unfolding spectral_run_def Let_def
  by (auto intro!: raises_give raises_bind spectral_verdict_raises split: sum.splits prod.splits simp del: str_Cons)

lemma spectral_run_prompt: "spectral_regains S \<Longrightarrow> prompt (spectral_run U S c)"
  unfolding spectral_run_def Let_def
  by (auto intro!: timed_rules spectral_verdict_prompt split: sum.splits prod.splits simp del: str_Cons)

interpretation spectral: bounded_checker "spectral_check PL S" "\<lambda>t. budgeted PL t \<and> spectral_regains S"
    "spectral_earned (pl_unicode PL) S" "spectral_leaks PL S"
  for PL and S :: "('o, 'm) spectral"
proof
  fix prems c rule p t
  show "budgeted PL t \<and> spectral_regains S \<Longrightarrow> spectral_check PL S prems c rule p t \<noteq> None"
    by (simp add: spectral_check_def run_bounded_returns prompt_ends spectral_run_prompt)
  show "spectral_check PL S prems c rule p t = Some (Inr r) \<Longrightarrow>
      honest (spectral_earned (pl_unicode PL) S prems c p t) r" for r
    unfolding spectral_check_def catch_timeout_Inr
    by (auto dest: run_bounded_ensures [OF _ spectral_run_ensures])
  show "spectral_check PL S prems c rule p t = Some (Inl e) \<Longrightarrow> spectral_leaks PL S prems c p t e" for e
    unfolding spectral_check_def catch_timeout_Inl spectral_leaks_def
    by (auto dest: run_bounded_raises [OF _ spectral_run_raises])
qed

end
