(* ===== verification/Verifier.thy ===== *)
theory Verifier
  imports Checker_Contract
begin

text \<open>
  \<^verbatim>\<open>verification/verifier.py\<close>: the dispatch of an edge type to its checker and the pipeline \<open>verify\<close>.
  The step that turns the result of a checker into a verdict is proved correct once, for every checker
  that meets the contract \<open>bounded_checker\<close>; the properties of \<open>verify\<close> follow through the five
  interpretations.
\<close>

record ('e, 'f, 'o, 'm) provers =
  pv_platform :: platform
  pv_cas :: "'e cas"
  pv_z3 :: "'f z3"
  pv_lean :: lean
  pv_spectral :: "('o, 'm) spectral"

record verification_result =
  vr_verdict :: Verdict
  vr_kappa :: Kappa
  vr_elenchus :: elenchus_result
  vr_checker :: "checker_result option"
  vr_edge_type :: EdgeType
  vr_rule :: pystr

definition rejected :: "verification_result \<Rightarrow> bool" where
  "rejected r \<longleftrightarrow> vr_verdict r = HARD_VETO"

definition DEFAULT_KAPPA :: "(EdgeType \<times> Kappa) list" where
  "DEFAULT_KAPPA = [(REDUCTION, K1), (REFUTATION, K1), (ANALOGY, K0), (CITATION, K1)]"

datatype checker = RosterChecker | LeanChecker | Z3Checker | CasChecker | SpectralChecker

definition truthy :: "bytes option \<Rightarrow> bool" where
  "truthy p \<longleftrightarrow> p \<noteq> None \<and> p \<noteq> Some []"

definition checker_for :: "EdgeType \<Rightarrow> bytes option \<Rightarrow> checker option" where
  "checker_for edge_type proof_bytes =
     (if edge_type = DEFINITION then Some RosterChecker
      else if edge_type = DEDUCTION
      then (if truthy proof_bytes then Some LeanChecker else Some Z3Checker)
      else if edge_type = NUMERICAL then Some CasChecker
      else if edge_type = SPECTRAL then Some SpectralChecker
      else None)"

definition run_checker ::
    "('e, 'f, 'o, 'm) provers \<Rightarrow> checker \<Rightarrow> node list \<Rightarrow> node \<Rightarrow> pystr \<Rightarrow> bytes option \<Rightarrow> timeout \<Rightarrow>
      checker_result run" where
  "run_checker P checker =
     (case checker of
        RosterChecker \<Rightarrow> roster_check
      | LeanChecker \<Rightarrow> lean_check (pv_lean P)
      | Z3Checker \<Rightarrow> z3_check_edge (pv_platform P) (pv_z3 P)
      | CasChecker \<Rightarrow> cas_check (pv_platform P) (pv_cas P)
      | SpectralChecker \<Rightarrow> spectral_check (pv_platform P) (pv_spectral P))"

text \<open>Steps 3 and 4: what a checker's result makes of a proposal that survived ELENCHUS.\<close>

definition conclude ::
    "elenchus_result \<Rightarrow> EdgeType \<Rightarrow> pystr \<Rightarrow> checker_result \<Rightarrow> verification_result" where
  "conclude elenchus edge_type rule result =
     (if \<not> cr_passed result
      then \<lparr> vr_verdict = HARD_VETO, vr_kappa = K0, vr_elenchus = elenchus, vr_checker = Some result,
             vr_edge_type = edge_type, vr_rule = rule \<rparr>
      else \<lparr> vr_verdict = er_verdict elenchus, vr_kappa = cr_kappa result, vr_elenchus = elenchus,
             vr_checker = Some result, vr_edge_type = edge_type, vr_rule = rule \<rparr>)"

definition on_return :: "'a run \<Rightarrow> ('a \<Rightarrow> 'b) \<Rightarrow> 'b run" where
  "on_return r f =
     (case r of None \<Rightarrow> None | Some (Inl e) \<Rightarrow> Some (Inl e) | Some (Inr a) \<Rightarrow> Some (Inr (f a)))"

definition verify ::
    "('e, 'f, 'o, 'm) provers \<Rightarrow> node list \<Rightarrow> node \<Rightarrow> pystr \<Rightarrow> EdgeType \<Rightarrow> bytes option \<Rightarrow> timeout \<Rightarrow>
      verification_result run" where
  "verify P premises conclusion rule edge_type proof_bytes timeout =
     (let elenchus = evaluate (pl_unicode (pv_platform P)) premises conclusion rule edge_type in
      if er_verdict elenchus = HARD_VETO
      then Some (Inr \<lparr> vr_verdict = HARD_VETO, vr_kappa = K0, vr_elenchus = elenchus, vr_checker = None,
             vr_edge_type = edge_type, vr_rule = rule \<rparr>)
      else case checker_for edge_type proof_bytes of
        None \<Rightarrow>
          (case map_of DEFAULT_KAPPA edge_type of
             None \<Rightarrow> Some (Inl (KeyError, edge_type_value edge_type))
           | Some k \<Rightarrow> Some (Inr \<lparr> vr_verdict = er_verdict elenchus, vr_kappa = k, vr_elenchus = elenchus,
               vr_checker = None, vr_edge_type = edge_type, vr_rule = rule \<rparr>))
      | Some checker \<Rightarrow>
          on_return (run_checker P checker premises conclusion rule proof_bytes timeout)
            (conclude elenchus edge_type rule))"

section \<open>One step for every checker\<close>

text \<open>The result of a checked proposal: rejected with a reason, or accepted with an earned strength.\<close>

definition settled :: "(Kappa \<Rightarrow> bool) \<Rightarrow> elenchus_result \<Rightarrow> verification_result \<Rightarrow> bool" where
  "settled earned elenchus r \<longleftrightarrow>
     vr_elenchus r = elenchus \<and>
     (if rejected r
      then vr_kappa r = K0 \<and>
        (er_verdict elenchus = HARD_VETO \<or>
         (\<exists>cr. vr_checker r = Some cr \<and> \<not> cr_passed cr \<and> cr_error_msg cr \<noteq> None))
      else vr_verdict r = er_verdict elenchus \<and> earned (vr_kappa r))"

context bounded_checker
begin

lemma concluded_settled:
  assumes "on_return (check prems c rule p t) (conclude elenchus et rule) = Some (Inr r)"
    and "er_verdict elenchus \<noteq> HARD_VETO"
  shows "settled (earned prems c p t) elenchus r"
proof -
  obtain cr where cr: "check prems c rule p t = Some (Inr cr)" and r: "r = conclude elenchus et rule cr"
    using assms(1) by (auto simp: on_return_def split: option.splits sum.splits)
  from honesty [OF cr] assms(2) show ?thesis
    by (auto simp: r settled_def rejected_def conclude_def honest_def)
qed

lemma concluded_returns:
  "bounded t \<Longrightarrow> on_return (check prems c rule p t) f \<noteq> None"
  using returns by (auto simp: on_return_def split: option.splits sum.splits)

lemma concluded_leaks:
  "on_return (check prems c rule p t) f = Some (Inl e) \<Longrightarrow> leaks prems c p t e"
  using leaking by (auto simp: on_return_def split: option.splits sum.splits)

end

section \<open>What is earned\<close>

definition edge_earned ::
    "('e, 'f, 'o, 'm) provers \<Rightarrow> node list \<Rightarrow> node \<Rightarrow> EdgeType \<Rightarrow> bytes option \<Rightarrow> timeout \<Rightarrow> Kappa \<Rightarrow> bool" where
  "edge_earned P prems c et p t k \<longleftrightarrow>
     (case et of
        DEFINITION \<Rightarrow> roster_earned prems c p t k
      | DEDUCTION \<Rightarrow>
          if truthy p then lean_earned (pv_lean P) prems c p t k else z3_earned (pv_z3 P) prems c p t k
      | NUMERICAL \<Rightarrow> cas_earned (pv_cas P) prems c p t k
      | SPECTRAL \<Rightarrow> spectral_earned (pl_unicode (pv_platform P)) (pv_spectral P) prems c p t k
      | ANALOGY \<Rightarrow> k = K0
      | _ \<Rightarrow> k = K1)"

lemma edge_earned_simps:
  "edge_earned P prems c DEFINITION p t = roster_earned prems c p t"
  "truthy p \<Longrightarrow> edge_earned P prems c DEDUCTION p t = lean_earned (pv_lean P) prems c p t"
  "\<not> truthy p \<Longrightarrow> edge_earned P prems c DEDUCTION p t = z3_earned (pv_z3 P) prems c p t"
  "edge_earned P prems c NUMERICAL p t = cas_earned (pv_cas P) prems c p t"
  "edge_earned P prems c SPECTRAL p t =
     spectral_earned (pl_unicode (pv_platform P)) (pv_spectral P) prems c p t"
  by (simp_all add: edge_earned_def fun_eq_iff)

lemma verify_settled:
  assumes "verify P prems c rule et p t = Some (Inr r)"
  shows "settled (edge_earned P prems c et p t) (evaluate (pl_unicode (pv_platform P)) prems c rule et) r"
    and "vr_edge_type r = et" and "vr_rule r = rule"
proof -
  let ?el = "evaluate (pl_unicode (pv_platform P)) prems c rule et"
  show "settled (edge_earned P prems c et p t) ?el r"
  proof (cases "er_verdict ?el = HARD_VETO")
    case True
    with assms show ?thesis by (auto simp: verify_def Let_def settled_def rejected_def)
  next
    case False
    note go = assms [unfolded verify_def Let_def if_not_P [OF False]]
    show ?thesis
    proof (cases et)
      case DEFINITION
      with go False roster.concluded_settled show ?thesis
        by (simp add: checker_for_def run_checker_def edge_earned_simps)
    next
      case DEDUCTION
      with go False lean.concluded_settled smt.concluded_settled show ?thesis
        by (cases "truthy p") (simp_all add: checker_for_def run_checker_def edge_earned_simps)
    next
      case NUMERICAL
      with go False cas.concluded_settled show ?thesis
        by (simp add: checker_for_def run_checker_def edge_earned_simps)
    next
      case SPECTRAL
      with go False spectral.concluded_settled show ?thesis
        by (simp add: checker_for_def run_checker_def edge_earned_simps)
    qed (use go False in \<open>auto simp: checker_for_def DEFAULT_KAPPA_def settled_def edge_earned_def rejected_def\<close>)
  qed
  show "vr_edge_type r = et" "vr_rule r = rule"
    using assms
    by (auto simp: verify_def Let_def on_return_def conclude_def split: if_splits option.splits sum.splits)
qed

text \<open>What can come out of \<open>verify\<close> as an exception.\<close>

definition verify_leaks ::
    "('e, 'f, 'o, 'm) provers \<Rightarrow> node list \<Rightarrow> node \<Rightarrow> EdgeType \<Rightarrow> bytes option \<Rightarrow> timeout \<Rightarrow> exn \<Rightarrow> bool" where
  "verify_leaks P prems c et p t e \<longleftrightarrow>
     (case et of
        DEDUCTION \<Rightarrow>
          if truthy p then lean_leaks (pv_lean P) prems c p t e
          else z3_leaks (pv_platform P) (pv_z3 P) prems c p t e
      | NUMERICAL \<Rightarrow> cas_leaks (pv_platform P) (pv_cas P) prems c p t e
      | SPECTRAL \<Rightarrow> spectral_leaks (pv_platform P) (pv_spectral P) prems c p t e
      | _ \<Rightarrow> False)"

lemma verify_raises_leaks:
  assumes "verify P prems c rule et p t = Some (Inl e)"
  shows "verify_leaks P prems c et p t e"
proof -
  have "er_verdict (evaluate (pl_unicode (pv_platform P)) prems c rule et) \<noteq> HARD_VETO"
    using assms by (auto simp: verify_def Let_def)
  note go = assms [unfolded verify_def Let_def if_not_P [OF this]]
  show ?thesis
  proof (cases et)
    case DEFINITION
    with go show ?thesis by (auto simp: checker_for_def run_checker_def dest: roster.concluded_leaks)
  next
    case DEDUCTION
    with go lean.concluded_leaks smt.concluded_leaks show ?thesis
      by (cases "truthy p") (simp_all add: checker_for_def run_checker_def verify_leaks_def)
  next
    case NUMERICAL
    with go cas.concluded_leaks show ?thesis
      by (simp add: checker_for_def run_checker_def verify_leaks_def)
  next
    case SPECTRAL
    with go spectral.concluded_leaks show ?thesis
      by (simp add: checker_for_def run_checker_def verify_leaks_def)
  qed (use go in \<open>auto simp: checker_for_def DEFAULT_KAPPA_def\<close>)
qed

section \<open>Provers for the witnesses\<close>

text \<open>
  A platform with a timer; a CAS whose expressions are their texts; a solver over two states of the
  world, one in which \<open>x\<close> is 0 and one in which it is 2, that knows the claims \<open>x > 1\<close> and \<open>x > 0\<close>.
\<close>

definition sample_platform :: platform where
  "sample_platform = \<lparr> pl_sigalrm = True, pl_main_thread = True, pl_unicode = ascii \<rparr>"

definition sample_cas :: "pystr cas" where
  "sample_cas = \<lparr> cas_parse = (\<lambda>s. (Ends 1, Inr s)), cas_equal = (\<lambda>l r. (Ends 1, Inr (l = r))),
     cas_text = (\<lambda>s. (Ends 1, Inr s)) \<rparr>"

definition sample_z3 :: "(bool \<times> bool) z3" where
  "sample_z3 =
     \<lparr> z3_eval = (\<lambda>s. (Ends 1, if s = str ''x > 1'' \<or> s = str ''x > 0'' then Inr (BoolRef (False, True))
                          else if s = str ''1/0'' then Inl (ZeroDivisionError, str ''division by zero'')
                          else Inr OtherObject)),
       z3_and = (\<lambda>fs. (Ends 1, Inr (list_all fst fs, list_all snd fs))),
       z3_not = (\<lambda>f. (Ends 1, Inr (\<not> fst f, \<not> snd f))),
       z3_check = (\<lambda>ms fs. (Ends 1, Inr (if list_all fst fs \<or> list_all snd fs then sat [] else unsat))) \<rparr>"

definition sample_lean :: lean where
  "sample_lean = \<lparr> lean_binary = None, lean_tempfile = (\<lambda>src. None),
     lean_process = (\<lambda>b src. (Ends 1, Inr (1, []))) \<rparr>"

definition sample_spectral :: "(unit, unit) spectral" where
  "sample_spectral =
     \<lparr> sp_eval = (\<lambda>s. (Ends 1, Inr ())), sp_asarray = (\<lambda>u. (Ends 1, Inr ())), sp_shape = (\<lambda>u. [2, 2]),
       sp_hermitian_err = (\<lambda>M. (Ends 1, Inr 0)), sp_symmetry_err = (\<lambda>M. (Ends 1, Inr 0)),
       sp_max_im_eig = (\<lambda>M. (Ends 1, Inr 0)), sp_singular_values = (\<lambda>M. (Ends 1, Inr [1, 1])),
       sp_ratio = (\<lambda>x y. x) \<rparr>"

definition sample_provers :: "(pystr, bool \<times> bool, unit, unit) provers" where
  "sample_provers =
     \<lparr> pv_platform = sample_platform, pv_cas = sample_cas, pv_z3 = sample_z3, pv_lean = sample_lean,
       pv_spectral = sample_spectral \<rparr>"

definition five_seconds :: timeout where "five_seconds = Some (5000, str ''5.0'')"

lemmas sample_prover_defs =
  sample_provers_def sample_platform_def sample_cas_def sample_z3_def sample_lean_def
  sample_spectral_def five_seconds_def

lemmas timed_defs =
  perform_def give_def throw_def bind_timed_def handle_def run_bounded_def outcome_def
  catch_timeout_def on_return_def conclude_def

lemma runs_Cons:
  "runs P (c # s) = (if P c then (c # takeWhile P s) # runs P (dropWhile P s) else runs P s)"
  by (simp add: runs_skip) (simp add: runs.simps [of P "c # s"])

lemmas token_defs =
  tokens_def lower_def lower_char_def runs_Cons token_char_def stopwords_def

text \<open>A definition from the roster, with other white space, is verified at the top strength.\<close>

definition roster_node :: node where
  "roster_node = sample_node ''for all  x, x = x''"

lemma verify_roster_node:
  "verify P [] roster_node [] DEFINITION None t =
     Some (Inr \<lparr> vr_verdict = PASS, vr_kappa = K_INF,
       vr_elenchus = evaluate (pl_unicode (pv_platform P)) [] roster_node [] DEFINITION,
       vr_checker = Some (success K_INF [(str ''roster'', PStr (str ''matched''))]),
       vr_edge_type = DEFINITION, vr_rule = [] \<rparr>)"
proof -
  have el: "er_verdict (evaluate U [] roster_node [] DEFINITION) = PASS" for U
    by (simp add: evaluate_verdict vetoed_category_def vetoed_leak_def vetoed_novelty_def
        vetoed_circle_def HARD_DOMAINS_def SELF_MODEL_TERMS_def roster_node_def sample_node_def token_defs)
  have "normalize (n_claim roster_node) = str ''for all x, x = x''"
    by (simp add: normalize_def roster_node_def sample_node_def words_def runs_Cons is_space_def)
  then have "check_roster roster_node = K_INF" by (simp add: check_roster_def ROSTER_def)
  then show ?thesis
    by (simp add: verify_def Let_def el checker_for_def run_checker_def roster_check_def
        on_return_def conclude_def) (simp add: success_def)
qed

section \<open>The properties\<close>

text \<open>C13: the strength of a verified edge is earned: a rejected proposal has strength K0 and a reason, a veto of
  ELENCHUS or a failed check with its message; an accepted one has the verdict of ELENCHUS and the strength
  its type's checker established, K3 only for a deduction the solver or Lean proved, K2 only for an equation
  or a numeric property that was computed, K_INF only for a definition of the roster.\<close>

theorem verify_earned:
  assumes "verify P prems c rule et p t = Some (Inr r)"
  shows "vr_edge_type r = et \<and> vr_rule r = rule \<and>
    settled (edge_earned P prems c et p t) (evaluate (pl_unicode (pv_platform P)) prems c rule et) r \<and>
    vr_kappa r \<in> (case et of DEFINITION \<Rightarrow> {K0, K1, K_INF} | DEDUCTION \<Rightarrow> {K0, K3} | NUMERICAL \<Rightarrow> {K0, K2}
      | SPECTRAL \<Rightarrow> {K0, K2} | ANALOGY \<Rightarrow> {K0} | _ \<Rightarrow> {K0, K1})"
  using verify_settled [OF assms]
  by (cases et)
    (auto simp: settled_def edge_earned_def roster_earned_def lean_earned_def z3_earned_def
      cas_earned_def spectral_earned_def split: if_splits)

theorem verify_earned_witness:
  "\<exists>r. verify sample_provers [] roster_node [] DEFINITION None five_seconds = Some (Inr r) \<and>
    vr_edge_type r = DEFINITION \<and> vr_kappa r = K_INF \<and>
    settled (edge_earned sample_provers [] roster_node DEFINITION None five_seconds)
      (evaluate ascii [] roster_node [] DEFINITION) r"
  using verify_earned [OF verify_roster_node [of sample_provers five_seconds]]
  by (simp add: verify_roster_node) (simp add: sample_provers_def sample_platform_def)

text \<open>The documented meaning of the solver's functions, for some notion of a model of a formula.\<close>

definition z3_spec :: "'f z3 \<Rightarrow> ('w \<Rightarrow> 'f \<Rightarrow> bool) \<Rightarrow> bool" where
  "z3_spec Z models \<longleftrightarrow>
     (\<forall>fs g w. snd (z3_and Z fs) = Inr g \<longrightarrow> models w g = (\<forall>f \<in> set fs. models w f)) \<and>
     (\<forall>f g w. snd (z3_not Z f) = Inr g \<longrightarrow> models w g = (\<not> models w f)) \<and>
     (\<forall>ms fs w. snd (z3_check Z ms fs) = Inr unsat \<longrightarrow> \<not> (\<forall>f \<in> set fs. models w f))"

text \<open>C24: a deduction verified without a Lean proof is valid: every model of the terms that the premises'
  claims denote is a model of the term the conclusion's claim denotes.\<close>

theorem verified_deduction_valid:
  assumes "z3_spec (pv_z3 P) models"
    and "verify P prems c rule DEDUCTION None t = Some (Inr r)" and "\<not> rejected r"
  shows "vr_kappa r = K3 \<and> (\<exists>fs f.
    list_all2 (\<lambda>n f. snd (z3_eval (pv_z3 P) (n_claim n)) = Inr (BoolRef f)) prems fs \<and>
    snd (z3_eval (pv_z3 P) (n_claim c)) = Inr (BoolRef f) \<and>
    {w. \<forall>g \<in> set fs. models w g} \<subseteq> {w. models w f})"
proof -
  have "z3_earned (pv_z3 P) prems c None t (vr_kappa r)"
    using verify_settled(1) [OF assms(2)] assms(3)
    by (simp add: settled_def edge_earned_simps truthy_def)
  then obtain ms fs f conj neg where k: "vr_kappa r = K3"
    and fs: "list_all2 (\<lambda>n f. snd (z3_eval (pv_z3 P) (n_claim n)) = Inr (BoolRef f)) prems fs"
    and f: "snd (z3_eval (pv_z3 P) (n_claim c)) = Inr (BoolRef f)"
    and conj: "snd (z3_and (pv_z3 P) fs) = Inr conj" and neg: "snd (z3_not (pv_z3 P) f) = Inr neg"
    and unsat: "snd (z3_check (pv_z3 P) ms [conj, neg]) = Inr unsat"
    by (auto simp: z3_earned_def)
  have "models w f" if "\<forall>g \<in> set fs. models w g" for w
  proof -
    from assms(1) unsat have "\<not> (\<forall>g \<in> set [conj, neg]. models w g)" unfolding z3_spec_def by blast
    with assms(1) conj neg that show ?thesis unfolding z3_spec_def by auto
  qed
  with k fs f show ?thesis by blast
qed

definition sample_models :: "bool \<Rightarrow> bool \<times> bool \<Rightarrow> bool" where
  "sample_models w f = (if w then snd f else fst f)"

lemma sample_z3_spec: "z3_spec sample_z3 sample_models"
  unfolding z3_spec_def sample_z3_def sample_models_def
  by (auto simp: list_all_iff split: if_splits)

lemma claim_sample_node: "n_claim (sample_node s) = str s"
  by (simp add: sample_node_def)

lemma verify_sample_deduction:
  "\<exists>r. verify sample_provers [sample_node ''x > 1''] (sample_node ''x > 0'') (str ''lt'') DEDUCTION None
      five_seconds = Some (Inr r) \<and> \<not> rejected r"
proof -
  have el: "er_verdict (evaluate ascii [sample_node ''x > 1''] (sample_node ''x > 0'') (str ''lt'') DEDUCTION)
      = PASS"
  proof -
    have "\<not> rh_equivalent ascii (n_claim (sample_node ''x > 0''))"
      by (simp add: rh_equivalent_def search_iff [symmetric] RH_EQUIVALENCE_def sample_node_def
          search_def seq_def word_def literal_def gap_def in_classes_def case_variants_def at_boundary_def
          word_char_def ascii_alnum_def lambda_sign_def kappa_sign_def at_least_def ascii_def)
    then show ?thesis
      by (simp add: evaluate_verdict vetoed_category_def vetoed_leak_def vetoed_novelty_def
          vetoed_circle_def HARD_DOMAINS_def SELF_MODEL_TERMS_def sample_node_def token_defs strip_def
          is_space_def)
  qed
  show ?thesis
    by (simp add: verify_def Let_def sample_provers_def sample_platform_def five_seconds_def el checker_for_def
        truthy_def run_checker_def)
      (simp add: z3_check_edge_def z3_run_def z3_terms_def z3_parse_def z3_solve_def sample_z3_def
        claim_sample_node timed_defs one_enat_def rejected_def el [simplified] success_def)
qed

theorem verified_deduction_valid_witness:
  "\<exists>r. verify sample_provers [sample_node ''x > 1''] (sample_node ''x > 0'') (str ''lt'') DEDUCTION None
      five_seconds = Some (Inr r) \<and> vr_kappa r = K3"
proof -
  obtain r where r: "verify sample_provers [sample_node ''x > 1''] (sample_node ''x > 0'') (str ''lt'')
      DEDUCTION None five_seconds = Some (Inr r)" "\<not> rejected r"
    using verify_sample_deduction by blast
  have "z3_spec (pv_z3 sample_provers) sample_models" by (simp add: sample_provers_def sample_z3_spec)
  from verified_deduction_valid [OF this r] r(1) show ?thesis by blast
qed


text \<open>Provers that never get stuck in a C function: the interpreter is in control again during every call.\<close>

definition provers_regain :: "('e, 'f, 'o, 'm) provers \<Rightarrow> bool" where
  "provers_regain P \<longleftrightarrow> cas_regains (pv_cas P) \<and> z3_regains (pv_z3 P) \<and> spectral_regains (pv_spectral P)"

lemma verify_ends:
  assumes "budgeted (pv_platform P) t" and "provers_regain P"
  shows "verify P prems c rule et p t \<noteq> None"
proof -
  have t: "t \<noteq> None" using assms(1) by (auto simp: budgeted_def)
  have bounded: "budgeted (pv_platform P) t \<and> cas_regains (pv_cas P)" "budgeted (pv_platform P) t \<and> z3_regains (pv_z3 P)"
    "budgeted (pv_platform P) t \<and> spectral_regains (pv_spectral P)"
    using assms by (simp_all add: provers_regain_def)
  have "run_checker P k prems c rule p t \<noteq> None" for k
    using roster.returns lean.returns [OF t] cas.returns [OF bounded(1)] smt.returns [OF bounded(2)]
      spectral.returns [OF bounded(3)]
    by (cases k) (simp_all add: run_checker_def)
  from this [of "the (checker_for et p)"] show ?thesis
    by (cases "checker_for et p")
      (auto simp: verify_def Let_def on_return_def split: option.splits sum.splits)
qed

text \<open>C30: with a positive budget on a platform with an alarm signal, verification returns, unless a library is stuck in
  a C function, where CPython does not run the alarm's handler: a prover may run for ever as long as the
  interpreter is in control again and again, it is interrupted then. What comes out is a result, or an
  exception that a library raised and the checker does not catch (or the refusal of the signal module to arm a
  timer outside the main thread).\<close>

theorem verify_returns:
  assumes "budgeted (pv_platform P) t" and "provers_regain P"
  shows "(\<exists>r. verify P prems c rule et p t = Some (Inr r)) \<or>
    (\<exists>e. verify P prems c rule et p t = Some (Inl e) \<and> verify_leaks P prems c et p t e)"
proof -
  obtain s where "verify P prems c rule et p t = Some s" using verify_ends [OF assms] by blast
  then show ?thesis using verify_raises_leaks by (cases s) blast+
qed

text \<open>A solver that never answers, but lets the interpreter run.\<close>

definition looping_provers :: "(pystr, bool \<times> bool, unit, unit) provers" where
  "looping_provers = sample_provers
     \<lparr> pv_z3 := sample_z3 \<lparr> z3_check := (\<lambda>ms fs. (Loops, Inr unknown)) \<rparr> \<rparr>"

lemma looping_provers_ok: "budgeted (pv_platform looping_provers) five_seconds" "provers_regain looping_provers"
  by (simp_all add: budgeted_def looping_provers_def sample_prover_defs provers_regain_def cas_regains_def z3_regains_def
      spectral_regains_def regains_def)

theorem verify_returns_witness:
  "budgeted (pv_platform looping_provers) five_seconds \<and> provers_regain looping_provers \<and>
    ((\<exists>r. verify looping_provers [] (sample_node ''x > 0'') (str ''r'') DEDUCTION None five_seconds = Some (Inr r)) \<or>
     (\<exists>e. verify looping_provers [] (sample_node ''x > 0'') (str ''r'') DEDUCTION None five_seconds = Some (Inl e) \<and>
        verify_leaks looping_provers [] (sample_node ''x > 0'') DEDUCTION None five_seconds e))"
  using verify_returns [OF looping_provers_ok] looping_provers_ok by blast

text \<open>A claim whose evaluation is stuck in a C function before the budget is over (the power of two large integers
  is) blocks verification for ever, whatever the budget.\<close>

theorem stuck_call_hangs:
  assumes "fst (z3_eval (pv_z3 P) (n_claim c)) = Stuck d" and "\<And>ms txt. t = Some (ms, txt) \<Longrightarrow> d < nat ms"
    and "\<not> vetoed_leak c rule DEDUCTION" and "pl_main_thread (pv_platform P)"
  shows "verify P [] c rule DEDUCTION None t = None"
proof -
  have "er_verdict (evaluate U [] c rule DEDUCTION) \<noteq> HARD_VETO" for U
    using assms(3) by (simp add: evaluate_verdict vetoed_category_def vetoed_novelty_def vetoed_circle_def)
  moreover have "z3_run U (pv_z3 P) [] c t clk = None"
    if "\<forall>left msg. clk = Armed left msg \<longrightarrow> d < left" for U clk
    using stuck_hangs [OF assms(1) that]
    by (simp add: z3_run_def z3_terms_def z3_parse_def give_def bind_timed_def handle_def)
  then have "run_bounded (pv_platform P) (z3_run U (pv_z3 P) [] c t) t = None" for U
    using assms(2,4) by (auto simp: run_bounded_def outcome_def split: option.split)
  ultimately show ?thesis
    by (simp add: verify_def Let_def checker_for_def truthy_def run_checker_def z3_check_edge_def
        catch_timeout_def on_return_def)
qed

definition stuck_provers :: "(pystr, bool \<times> bool, unit, unit) provers" where
  "stuck_provers = sample_provers \<lparr> pv_z3 := sample_z3 \<lparr> z3_eval := (\<lambda>s. (Stuck 1, Inr OtherObject)) \<rparr> \<rparr>"

theorem stuck_call_hangs_witness:
  "verify stuck_provers [] (sample_node ''9**9**9'') (str ''r'') DEDUCTION None (Some (5000, str ''5.0'')) = None"
  by (rule stuck_call_hangs [where d = 1])
    (auto simp: stuck_provers_def sample_prover_defs vetoed_leak_def HARD_DOMAINS_def SELF_MODEL_TERMS_def
      token_defs sample_node_def)

text \<open>Verification can raise: an exception of the evaluation of a claim that is not among the four kinds the
  Z3 checker catches leaves \<open>verify\<close>, for a premise-free deduction that ELENCHUS lets through.\<close>

theorem deduction_exception_escapes:
  assumes "z3_eval (pv_z3 P) (n_claim c) = (Ends d, Inl e)" and "d < nat ms"
    and "fst e \<notin> {ValueError, SyntaxError, NameError, TypeError, CheckerTimeout}"
    and "pv_platform P = sample_platform" and "\<not> vetoed_leak c rule DEDUCTION"
  shows "verify P [] c rule DEDUCTION None (Some (ms, txt)) = Some (Inl e)"
proof -
  have "er_verdict (evaluate U [] c rule DEDUCTION) \<noteq> HARD_VETO" for U
    using assms(5) by (simp add: evaluate_verdict vetoed_category_def vetoed_novelty_def vetoed_circle_def)
  moreover have "0 < ms" using assms(2) by simp
  moreover have "z3_run U (pv_z3 P) [] c (Some (ms, txt)) (Armed (nat ms) msg) =
      Some (Inl e, Armed (nat ms - d) msg)" for U msg
    using assms(1-3)
    by (simp add: z3_run_def z3_terms_def z3_parse_def timed_defs)
  ultimately show ?thesis using assms(3,4)
    by (simp add: verify_def Let_def checker_for_def truthy_def run_checker_def z3_check_edge_def
        sample_platform_def run_bounded_def outcome_def catch_timeout_def on_return_def)
qed

theorem deduction_exception_escapes_witness:
  "verify sample_provers [] (sample_node ''1/0'') (str ''r'') DEDUCTION None (Some (5000, str ''5.0'')) =
    Some (Inl (ZeroDivisionError, str ''division by zero''))"
  by (rule deduction_exception_escapes [where d = 1])
    (simp_all add: sample_provers_def sample_z3_def claim_sample_node one_enat_def vetoed_leak_def
      HARD_DOMAINS_def SELF_MODEL_TERMS_def token_defs sample_node_def)

end
