(* ===== verification/Dicts.thy ===== *)
theory Dicts
  imports Prelude "HOL-Library.AList"
begin

text \<open>
  Python dicts as association lists in insertion order, shared by the query layer: lookup is
  \<open>map_of\<close>, assignment \<open>dict_set\<close> (an existing key keeps its place), and \<open>dict_of\<close> is the comprehension
  over pairs. Their finiteness is what the termination measures of the traversals use.
\<close>

type_synonym ('k, 'v) dict = "('k \<times> 'v) list"

definition dict_set :: "'k \<Rightarrow> 'v \<Rightarrow> ('k, 'v) dict \<Rightarrow> ('k, 'v) dict" where
  "dict_set k v d = AList.update k v d"

definition dict_of :: "('k \<times> 'v) list \<Rightarrow> ('k, 'v) dict" where
  "dict_of ps = foldl (\<lambda>d (k, v). dict_set k v d) [] ps"

definition dict_keys :: "('k, 'v) dict \<Rightarrow> 'k list" where
  "dict_keys d = map fst d"

lemma map_of_dict_set [simp]: "map_of (dict_set k v d) = (map_of d)(k \<mapsto> v)"
  by (simp add: dict_set_def update_conv')

lemma distinct_dict_set [simp]: "distinct (map fst d) \<Longrightarrow> distinct (map fst (dict_set k v d))"
  by (simp add: dict_set_def distinct_update)

lemma keys_dict_set [simp]: "fst ` set (dict_set k v d) = insert k (fst ` set d)"
proof -
  have "dom (map_of (dict_set k v d)) = insert k (dom (map_of d))" by simp
  then show ?thesis by (simp only: dom_map_of_conv_image_fst)
qed

lemma values_dict_set: "snd ` set (dict_set k v d) \<subseteq> insert v (snd ` set d)"
  unfolding dict_set_def by (induction d) auto

lemma map_of_foldl_dict:
  "map_of (foldl (\<lambda>d (k, v). dict_set k v d) d ps) = map_of d ++ map_of (rev ps)"
  by (induction ps arbitrary: d) (auto simp: split_beta map_add_def fun_eq_iff split: option.splits)

lemma map_of_dict_of: "map_of (dict_of ps) = map_of (rev ps)"
  by (simp add: dict_of_def map_of_foldl_dict)

lemma map_of_dict_of_distinct: "distinct (map fst ps) \<Longrightarrow> map_of (dict_of ps) = map_of ps"
  by (simp add: map_of_dict_of map_of_inject_set flip: rev_map)

end
