(* ===== verification/Resolve.thy ===== *)
theory Resolve
  imports Kappa_Algebra Dicts
begin

text \<open>
  \<^verbatim>\<open>query/resolve.py\<close>: from a content address back to a node or an edge record. A missing blob and a blob
  that does not decode both give \<open>None\<close>; an exception of the backend itself passes through.
\<close>

definition resolve_node :: "env \<Rightarrow> reader \<Rightarrow> hash \<Rightarrow> node option res" where
  "resolve_node E storage h =
     and_then (rd_get storage h) (\<lambda>data.
       case data of None \<Rightarrow> Inr None | Some d \<Rightarrow> Inr (option_of_res (node_from_bytes E d)))"

definition resolve_edge :: "env \<Rightarrow> reader \<Rightarrow> hash \<Rightarrow> edge option res" where
  "resolve_edge E storage h =
     and_then (rd_get storage h) (\<lambda>data.
       case data of None \<Rightarrow> Inr None | Some d \<Rightarrow> Inr (option_of_res (edge_from_bytes E d)))"

text \<open>On the in-process backend resolution never raises.\<close>

lemma resolve_sqlite:
  "resolve_node E (sqlite_reader E' s) h =
     Inr (Option.bind (get (st_objects s) h) (\<lambda>d. option_of_res (node_from_bytes E d)))"
  "resolve_edge E (sqlite_reader E' s) h =
     Inr (Option.bind (get (st_objects s) h) (\<lambda>d. option_of_res (edge_from_bytes E d)))"
  by (simp_all add: resolve_node_def resolve_edge_def split: option.splits)

text \<open>A stored record is resolved from its address; a node never resolves as an edge.\<close>

lemma resolve_stored:
  assumes "cbor_spec E" and "edge_hashes_ok e"
  shows "get (st_objects s) h = Some (cbor_dumps E (edge_to_canonical e)) \<Longrightarrow>
           resolve_edge E (sqlite_reader E s) h = Inr (Some e)"
    and "get (st_objects s) h = Some (cbor_dumps E (node_to_canonical n)) \<Longrightarrow>
           resolve_node E (sqlite_reader E s) h = Inr (Some n)"
    and "get (st_objects s) h = Some (cbor_dumps E (node_to_canonical n)) \<Longrightarrow>
           resolve_edge E (sqlite_reader E s) h = Inr None"
  by (simp_all add: resolve_sqlite edge_decode_ok [OF assms] node_decode_encode [OF assms(1)]
      node_as_edge [OF assms(1)])

end
