(* ===== verification/Commit.thy ===== *)
theory Commit
  imports Verifier Resolve
begin

text \<open>
  \<^verbatim>\<open>verification/commit.py\<close>: verify a proposal, then store it or leave the storage alone. The invariant
  \<open>graph_typed\<close> says that the graph index holds nothing but edges whose records, and whose premises'
  and conclusions' nodes, are in the object store; it makes an edge that is registered twice the same
  edge.
\<close>

section \<open>Definitions\<close>

record commit_result =
  cm_verification :: verification_result
  cm_edge :: "edge option"
  cm_edge_hash :: "hash option"
  cm_log_entry :: "log_entry option"

definition cm_rejected :: "commit_result \<Rightarrow> bool" where
  "cm_rejected r = rejected (cm_verification r)"

text \<open>A storage operation's exception, which has no text in the model.\<close>

definition failed :: "storage \<Rightarrow> py_error \<Rightarrow> (storage \<times> (exn + 'a)) option" where
  "failed s e = Some (s, Inl (e, []))"

fun put_nodes :: "env \<Rightarrow> node list \<Rightarrow> storage \<Rightarrow> storage \<times> unit res" where
  "put_nodes E [] s = (s, Inr ())"
| "put_nodes E (n # ns) s =
     (case node_bytes E n of Inl e \<Rightarrow> (s, Inl e) | Inr b \<Rightarrow> put_nodes E ns (put_blob E b s))"

definition build_edge ::
    "env \<Rightarrow> bytes \<Rightarrow> node list \<Rightarrow> node \<Rightarrow> pystr \<Rightarrow> EdgeType \<Rightarrow> bytes option \<Rightarrow> verification_result \<Rightarrow>
      edge res" where
  "build_edge E signer_pubkey premises conclusion rule edge_type proof_bytes result =
     and_then (map_res (node_id E) premises) (\<lambda>premise_hashes.
     and_then (node_id E conclusion) (\<lambda>conclusion_hash.
       Inr \<lparr> e_type = edge_type, e_premises = premise_hashes, e_conclusion = conclusion_hash,
             e_rule = rule, e_proof_hash = map_option (hash_bytes E) proof_bytes,
             e_verdict = vr_verdict result, e_kappa = vr_kappa result,
             e_signer_pubkey = signer_pubkey \<rparr>))"

definition store_edge ::
    "env \<Rightarrow> int \<Rightarrow> node list \<Rightarrow> node \<Rightarrow> bytes option \<Rightarrow> verification_result \<Rightarrow> edge \<Rightarrow> storage \<Rightarrow>
      (storage \<times> (exn + commit_result)) option" where
  "store_edge E now premises conclusion proof_bytes result edge s =
     (case put_nodes E (premises @ [conclusion]) s of
        (s1, Inl e) \<Rightarrow> failed s1 e
      | (s1, Inr u) \<Rightarrow>
          (case edge_bytes E edge of
             Inl e \<Rightarrow> failed s1 e
           | Inr data \<Rightarrow>
               (case commit_edge_tx E now (e_premises edge) (e_conclusion edge) data proof_bytes s1 of
                  (s2, Inl e) \<Rightarrow> failed s2 e
                | (s2, Inr (eh, entry)) \<Rightarrow>
                    Some (s2, Inr \<lparr> cm_verification = result, cm_edge = Some edge,
                      cm_edge_hash = Some eh, cm_log_entry = Some entry \<rparr>))))"

definition verify_and_commit ::
    "env \<Rightarrow> ('e, 'f, 'o, 'm) provers \<Rightarrow> int \<Rightarrow> bytes \<Rightarrow> node list \<Rightarrow> node \<Rightarrow> pystr \<Rightarrow> EdgeType \<Rightarrow>
      bytes option \<Rightarrow> timeout \<Rightarrow> storage \<Rightarrow> (storage \<times> (exn + commit_result)) option" where
  "verify_and_commit E P now signer_pubkey premises conclusion rule edge_type proof_bytes timeout s =
     (case verify P premises conclusion rule edge_type proof_bytes timeout of
        None \<Rightarrow> None
      | Some (Inl e) \<Rightarrow> Some (s, Inl e)
      | Some (Inr result) \<Rightarrow>
          if rejected result
          then Some (s, Inr \<lparr> cm_verification = result, cm_edge = None, cm_edge_hash = None,
                 cm_log_entry = None \<rparr>)
          else
            (case build_edge E signer_pubkey premises conclusion rule edge_type proof_bytes result of
               Inl e \<Rightarrow> failed s e
             | Inr edge \<Rightarrow> store_edge E now premises conclusion proof_bytes result edge s))"

section \<open>What is stored\<close>

abbreviation node_blob :: "env \<Rightarrow> node \<Rightarrow> bytes" where
  "node_blob E n \<equiv> cbor_dumps E (node_to_canonical n)"

abbreviation edge_blob :: "env \<Rightarrow> edge \<Rightarrow> bytes" where
  "edge_blob E e \<equiv> cbor_dumps E (edge_to_canonical e)"

definition blobs_of :: "storage \<Rightarrow> bytes set" where
  "blobs_of s = {b. \<exists>h. get (st_objects s) h = Some b}"

definition stores_node :: "env \<Rightarrow> storage \<Rightarrow> hash \<Rightarrow> bool" where
  "stores_node E s h \<longleftrightarrow> (\<exists>n. get (st_objects s) h = Some (node_blob E n))"

text \<open>Every registered edge has its record in the object store, and its premises and conclusion are nodes there.\<close>

definition graph_typed :: "env \<Rightarrow> storage \<Rightarrow> bool" where
  "graph_typed E s \<longleftrightarrow>
     (\<forall>eh ps c. connectivity (committed (st_conn s)) eh = Some (ps, c) \<longrightarrow>
        stores_node E s c \<and> list_all (stores_node E s) ps \<and>
        (\<exists>e. get (st_objects s) eh = Some (edge_blob E e) \<and> edge_hashes_ok e \<and>
           e_premises e = ps \<and> e_conclusion e = c))"

definition built_edge ::
    "env \<Rightarrow> bytes \<Rightarrow> node list \<Rightarrow> node \<Rightarrow> pystr \<Rightarrow> EdgeType \<Rightarrow> bytes option \<Rightarrow> verification_result \<Rightarrow> edge" where
  "built_edge E signer prems c rule et p r =
     \<lparr> e_type = et, e_premises = map (\<lambda>n. hash_bytes E (node_blob E n)) prems,
       e_conclusion = hash_bytes E (node_blob E c), e_rule = rule,
       e_proof_hash = map_option (hash_bytes E) p, e_verdict = vr_verdict r, e_kappa = vr_kappa r,
       e_signer_pubkey = signer \<rparr>"

lemma build_edge_eq: "build_edge E signer prems c rule et p r = Inr (built_edge E signer prems c rule et p r)"
proof -
  have "map_res (node_id E) prems = Inr (map (\<lambda>n. hash_bytes E (node_blob E n)) prems)"
    by (rule map_res_Inr) (simp add: node_id_eq)
  then show ?thesis by (simp add: build_edge_def node_id_eq built_edge_def)
qed

lemma put_nodes_eq: "put_nodes E ns s = (fold (\<lambda>n. put_blob E (node_blob E n)) ns s, Inr ())"
  by (induction ns arbitrary: s) (simp_all add: node_bytes_eq)

abbreviation put_all :: "env \<Rightarrow> node list \<Rightarrow> storage \<Rightarrow> storage" where
  "put_all E ns s \<equiv> fold (\<lambda>n. put_blob E (node_blob E n)) ns s"

lemma put_all_conn [simp]:
  "st_conn (put_all E ns s) = st_conn s" "st_priv (put_all E ns s) = st_priv s"
  "st_pub (put_all E ns s) = st_pub s"
  by (induction ns arbitrary: s) simp_all

lemma storage_ok_put_all: "storage_ok E s \<Longrightarrow> storage_ok E (put_all E ns s)"
  by (induction ns arbitrary: s) (simp_all add: storage_ok_put_blob)

lemma get_put_all_mono:
  "get (st_objects s) h = Some b \<Longrightarrow> get (st_objects (put_all E ns s)) h = Some b"
  by (induction ns arbitrary: s) (simp_all add: objects_mono)

lemma blobs_put_blob: "blobs_of (put_blob E b s) \<subseteq> insert b (blobs_of s)"
  by (auto simp: blobs_of_def get_put_blob split: if_splits)

lemma blobs_put_all: "blobs_of (put_all E ns s) \<subseteq> node_blob E ` set ns \<union> blobs_of s"
proof (induction ns arbitrary: s)
  case (Cons n ns)
  from Cons.IH [of "put_blob E (node_blob E n) s"] blobs_put_blob [of E "node_blob E n" s]
  show ?case by auto
qed simp

lemma blobs_put_optional: "blobs_of (put_optional E p s) \<subseteq> set_option p \<union> blobs_of s"
  using blobs_put_blob [of E _ s] by (auto simp: put_optional_def split: option.splits)

text \<open>A blob is stored under its address when nothing in the storage collides with it.\<close>

lemma addressed_get:
  assumes "addressed E (st_objects s)" and "get (st_objects s) (hash_bytes E b) \<noteq> None"
    and "collision_free E (insert b (blobs_of s))"
  shows "get (st_objects s) (hash_bytes E b) = Some b"
proof -
  from assms(2) obtain d where d: "get (st_objects s) (hash_bytes E b) = Some d" by auto
  with assms(1) have "hash_bytes E d = hash_bytes E b" by (metis addressed_def)
  moreover have "d \<in> blobs_of s" using d by (auto simp: blobs_of_def)
  ultimately have "d = b" using collision_freeD [OF assms(3)] by blast
  with d show ?thesis by simp
qed

lemma get_put_all:
  assumes "n \<in> set ns"
  shows "get (st_objects (put_all E ns s)) (hash_bytes E (node_blob E n)) \<noteq> None"
  using assms
proof (induction ns arbitrary: s)
  case (Cons m ns)
  show ?case
  proof (cases "m = n")
    case True
    have "get (st_objects (put_blob E (node_blob E n) s)) (hash_bytes E (node_blob E n)) \<noteq> None"
      by (simp add: get_put_blob)
    then obtain d where "get (st_objects (put_blob E (node_blob E n) s)) (hash_bytes E (node_blob E n)) = Some d"
      by auto
    from get_put_all_mono [OF this] True show ?thesis by simp
  next
    case False
    with Cons show ?thesis by simp
  qed
qed simp

section \<open>A registered edge is the edge\<close>

lemma edge_blob_inj:
  assumes "cbor_spec E" and "edge_hashes_ok e" and "edge_hashes_ok e'" and "edge_blob E e = edge_blob E e'"
  shows "e = e'"
  using edge_decode_ok [OF assms(1,2)] edge_decode_ok [OF assms(1,3)] unfolding assms(4)
  by (metis sum.inject(2))

lemma typed_consistent:
  assumes "cbor_spec E" and "addressed E (st_objects s)" and "graph_typed E s" and "edge_hashes_ok e"
    and "collision_free E (insert (edge_blob E e) (blobs_of s))"
  shows "consistent_with (committed (st_conn s)) (hash_bytes E (edge_blob E e)) (e_premises e) (e_conclusion e)"
proof (cases "connectivity (committed (st_conn s)) (hash_bytes E (edge_blob E e))")
  case None
  then show ?thesis by (simp add: consistent_with_def)
next
  case (Some psc)
  obtain ps c where psc: "psc = (ps, c)" by (cases psc)
  with Some assms(3) obtain e' where e': "get (st_objects s) (hash_bytes E (edge_blob E e)) = Some (edge_blob E e')"
    "edge_hashes_ok e'" "e_premises e' = ps" "e_conclusion e' = c"
    unfolding graph_typed_def by blast
  have "get (st_objects s) (hash_bytes E (edge_blob E e)) = Some (edge_blob E e)"
    by (rule addressed_get [OF assms(2) _ assms(5)]) (simp add: e'(1))
  with e'(1) have "edge_blob E e = edge_blob E e'" by simp
  then have "e = e'" by (rule edge_blob_inj [OF assms(1,4) e'(2)])
  with Some psc e' show ?thesis by (simp add: consistent_with_def)
qed

lemma stores_node_mono:
  "(\<And>h b. get (st_objects s) h = Some b \<Longrightarrow> get (st_objects s') h = Some b) \<Longrightarrow>
    stores_node E s h \<Longrightarrow> stores_node E s' h"
  by (auto simp: stores_node_def)

lemma graph_typed_mono:
  assumes "graph_typed E s" and "st_conn s' = st_conn s"
    and "\<And>h b. get (st_objects s) h = Some b \<Longrightarrow> get (st_objects s') h = Some b"
  shows "graph_typed E s'"
  unfolding graph_typed_def assms(2)
proof (intro allI impI)
  fix eh ps c
  assume "connectivity (committed (st_conn s)) eh = Some (ps, c)"
  with assms(1) obtain e where "stores_node E s c" "list_all (stores_node E s) ps"
    "get (st_objects s) eh = Some (edge_blob E e)" "edge_hashes_ok e" "e_premises e = ps" "e_conclusion e = c"
    unfolding graph_typed_def by blast
  moreover have "stores_node E s h \<longrightarrow> stores_node E s' h" for h
    using stores_node_mono [OF assms(3)] by blast
  ultimately have "stores_node E s' c" "list_all (stores_node E s') ps"
    "get (st_objects s') eh = Some (edge_blob E e)" "edge_hashes_ok e" "e_premises e = ps" "e_conclusion e = c"
    using assms(3) by (simp_all add: list_all_iff)
  then show "stores_node E s' c \<and> list_all (stores_node E s') ps \<and>
      (\<exists>e. get (st_objects s') eh = Some (edge_blob E e) \<and> edge_hashes_ok e \<and>
         e_premises e = ps \<and> e_conclusion e = c)"
    by blast
qed

section \<open>Storing an edge\<close>

lemma built_edge_ok: "blake3_spec E \<Longrightarrow> edge_hashes_ok (built_edge E signer prems c rule et p r)"
  by (simp add: edge_hashes_ok_def built_edge_def hash34_def length_hash_bytes list_all_iff split: option.splits)

lemma built_edge_simps [simp]:
  "e_type (built_edge E signer prems c rule et p r) = et"
  "e_premises (built_edge E signer prems c rule et p r) = map (\<lambda>n. hash_bytes E (node_blob E n)) prems"
  "e_conclusion (built_edge E signer prems c rule et p r) = hash_bytes E (node_blob E c)"
  "e_rule (built_edge E signer prems c rule et p r) = rule"
  "e_proof_hash (built_edge E signer prems c rule et p r) = map_option (hash_bytes E) p"
  "e_verdict (built_edge E signer prems c rule et p r) = vr_verdict r"
  "e_kappa (built_edge E signer prems c rule et p r) = vr_kappa r"
  "e_signer_pubkey (built_edge E signer prems c rule et p r) = signer"
  by (simp_all add: built_edge_def)

text \<open>The blobs a proposal brings.\<close>

definition new_blobs :: "env \<Rightarrow> node list \<Rightarrow> node \<Rightarrow> bytes option \<Rightarrow> edge \<Rightarrow> bytes set" where
  "new_blobs E prems c p e = insert (edge_blob E e) (node_blob E ` set (prems @ [c]) \<union> set_option p)"

text \<open>A storage in which the edge of a proposal can be stored: consistent, and free of collisions with it.\<close>

definition proposal_ok :: "env \<Rightarrow> storage \<Rightarrow> node list \<Rightarrow> node \<Rightarrow> bytes option \<Rightarrow> edge \<Rightarrow> bool" where
  "proposal_ok E s prems c p e \<longleftrightarrow>
     blake3_spec E \<and> ed25519_spec E \<and> cbor_spec E \<and> storage_ok E s \<and> graph_typed E s \<and> edge_hashes_ok e \<and>
     e_premises e = map (\<lambda>n. hash_bytes E (node_blob E n)) prems \<and>
     e_conclusion e = hash_bytes E (node_blob E c) \<and>
     collision_free E (new_blobs E prems c p e \<union> blobs_of s)"

lemma proposal_okD:
  assumes "proposal_ok E s prems c p e"
  shows "blake3_spec E" and "ed25519_spec E" and "cbor_spec E" and "storage_ok E s" and "graph_typed E s"
    and "edge_hashes_ok e" and "e_premises e = map (\<lambda>n. hash_bytes E (node_blob E n)) prems"
    and "e_conclusion e = hash_bytes E (node_blob E c)"
    and "collision_free E (new_blobs E prems c p e \<union> blobs_of s)"
  using assms by (simp_all add: proposal_ok_def)


abbreviation with_nodes :: "env \<Rightarrow> storage \<Rightarrow> node list \<Rightarrow> node \<Rightarrow> storage" where
  "with_nodes E s prems c \<equiv> put_all E (prems @ [c]) s"

lemma with_nodes_ok:
  assumes "proposal_ok E s prems c p e"
  shows "storage_ok E (with_nodes E s prems c)" and "graph_typed E (with_nodes E s prems c)"
proof -
  show "storage_ok E (with_nodes E s prems c)"
    by (rule storage_ok_put_all [OF proposal_okD(4) [OF assms]])
  show "graph_typed E (with_nodes E s prems c)"
    by (rule graph_typed_mono [OF proposal_okD(5) [OF assms] _ get_put_all_mono]) simp_all
qed

lemma blobs_with_nodes: "blobs_of (with_nodes E s prems c) \<subseteq> new_blobs E prems c p e \<union> blobs_of s"
  using blobs_put_all [of E "prems @ [c]" s] by (auto simp: new_blobs_def)

text \<open>The transaction that stores the edge, and what the object store holds afterwards.\<close>

definition stored_as :: "env \<Rightarrow> storage \<Rightarrow> node list \<Rightarrow> node \<Rightarrow> bytes option \<Rightarrow> edge \<Rightarrow> storage \<Rightarrow> bool" where
  "stored_as E s prems c p e s' \<longleftrightarrow>
     storage_ok E s' \<and>
     connectivity (committed (st_conn s')) =
       (connectivity (committed (st_conn s)))(hash_bytes E (edge_blob E e) \<mapsto> (e_premises e, e_conclusion e)) \<and>
     st_objects s' = st_objects (put_optional E p (put_blob E (edge_blob E e) (with_nodes E s prems c)))"

lemma storing_effect:
  assumes "proposal_ok E s prems c p e"
  shows "\<exists>s' r. commit_edge_tx E now (e_premises e) (e_conclusion e) (edge_blob E e) p (with_nodes E s prems c) =
      (s', Inr (hash_bytes E (edge_blob E e), r)) \<and>
    stored_as E s prems c p e s' \<and> verify_entry E r = Inr True \<and> le_payload r = edge_blob E e \<and>
    t_log (committed (st_conn s')) = t_log (committed (st_conn s)) @ [r]"
proof -
  let ?w = "with_nodes E s prems c"
  note ok = with_nodes_ok [OF assms] and d = proposal_okD [OF assms]
  have "addressed E (st_objects ?w)" using ok(1) by (simp add: storage_ok_def)
  moreover have "collision_free E (insert (edge_blob E e) (blobs_of ?w))"
    by (rule collision_free_subset [OF d(9)])
      (use blobs_with_nodes [of E prems c s p e] in \<open>auto simp: new_blobs_def\<close>)
  ultimately have con: "consistent_with (committed (st_conn ?w)) (hash_bytes E (edge_blob E e))
      (e_premises e) (e_conclusion e)"
    by (rule typed_consistent [OF d(3) _ ok(2) d(6)])
  have len: "hash34 (e_conclusion e)" "list_all hash34 (e_premises e)"
    using d(6) by (simp_all add: edge_hashes_ok_def)
  have idle: "pending (st_conn ?w) = None" using ok(1) by (simp add: storage_ok_def)
  from commit_edge_effect [OF d(1,2) ok(1) con len, of now p] obtain s' r where
    run: "commit_edge_tx E now (e_premises e) (e_conclusion e) (edge_blob E e) p ?w =
      (s', Inr (hash_bytes E (edge_blob E e), r))" and rest: "storage_ok E s'" "verify_entry E r = Inr True"
      "le_payload r = edge_blob E e" "t_log (committed (st_conn s')) = t_log (committed (st_conn ?w)) @ [r]"
      "connectivity (committed (st_conn s')) = (connectivity (committed (st_conn ?w)))
        (hash_bytes E (edge_blob E e) \<mapsto> (e_premises e, e_conclusion e))" by blast
  have "st_objects s' = st_objects (put_optional E p (put_blob E (edge_blob E e) ?w))"
    using objects_commit [OF idle, of E now "e_premises e" "e_conclusion e" "edge_blob E e" p] run by simp
  with run rest show ?thesis unfolding stored_as_def put_all_conn by blast
qed

lemma stored_as_subset:
  assumes "stored_as E s prems c p e s'"
  shows "blobs_of s' \<subseteq> new_blobs E prems c p e \<union> blobs_of s"
proof -
  let ?w = "with_nodes E s prems c"
  have "blobs_of s' = blobs_of (put_optional E p (put_blob E (edge_blob E e) ?w))"
    using assms by (simp add: stored_as_def blobs_of_def)
  then show ?thesis
    using blobs_put_optional [of E p "put_blob E (edge_blob E e) ?w"]
      blobs_put_blob [of E "edge_blob E e" ?w] blobs_with_nodes [of E prems c s p e]
    by (auto simp: new_blobs_def)
qed

lemma stored_as_blobs:
  assumes ok: "proposal_ok E s prems c p e" and as: "stored_as E s prems c p e s'"
  shows "get (st_objects s') (hash_bytes E (edge_blob E e)) = Some (edge_blob E e)"
    and "n \<in> set (prems @ [c]) \<Longrightarrow>
      get (st_objects s') (hash_bytes E (node_blob E n)) = Some (node_blob E n)"
    and "get (st_objects s) h = Some b \<Longrightarrow> get (st_objects s') h = Some b"
    and "p = Some q \<Longrightarrow> get (st_objects s') (hash_bytes E q) = Some q"
proof -
  let ?w = "with_nodes E s prems c"
  have objs: "st_objects s' = st_objects (put_optional E p (put_blob E (edge_blob E e) ?w))"
    and "storage_ok E s'" using as unfolding stored_as_def by blast+
  then have addr: "addressed E (st_objects s')" unfolding storage_ok_def by blast
  note blobs = stored_as_subset [OF as]
  have readback: "get (st_objects s') (hash_bytes E b) = Some b"
    if "get (st_objects s') (hash_bytes E b) \<noteq> None" "b \<in> new_blobs E prems c p e" for b
    by (rule addressed_get [OF addr that(1)], rule collision_free_subset [OF proposal_okD(9) [OF ok]])
      (use blobs that(2) in auto)
  have keep: "get (st_objects s') h = Some b" if "get (st_objects ?w) h = Some b" for h b
    unfolding objs by (rule objects_mono(2), rule objects_mono(1), rule that)
  show "get (st_objects s') (hash_bytes E (edge_blob E e)) = Some (edge_blob E e)"
    by (rule readback) (simp_all add: objs get_put_optional get_put_blob new_blobs_def split: option.splits)
  show "get (st_objects s') (hash_bytes E (node_blob E n)) = Some (node_blob E n)" if n: "n \<in> set (prems @ [c])"
  proof (rule readback)
    obtain b where "get (st_objects ?w) (hash_bytes E (node_blob E n)) = Some b"
      using get_put_all [OF n, of E s] by auto
    then show "get (st_objects s') (hash_bytes E (node_blob E n)) \<noteq> None" by (simp add: keep)
    show "node_blob E n \<in> new_blobs E prems c p e" using n by (auto simp: new_blobs_def)
  qed
  show "get (st_objects s') h = Some b" if old: "get (st_objects s) h = Some b"
    by (rule keep) (rule get_put_all_mono [OF old])
  show "get (st_objects s') (hash_bytes E q) = Some q" if q: "p = Some q"
    by (rule readback) (simp_all add: objs q get_put_optional get_put_blob new_blobs_def)
qed

lemma stored_as_typed:
  assumes ok: "proposal_ok E s prems c p e" and as: "stored_as E s prems c p e s'"
  shows "graph_typed E s'"
  unfolding graph_typed_def
proof (intro allI impI)
  note got = stored_as_blobs [OF ok as] and d = proposal_okD [OF ok]
  have conn: "connectivity (committed (st_conn s')) =
      (connectivity (committed (st_conn s)))(hash_bytes E (edge_blob E e) \<mapsto> (e_premises e, e_conclusion e))"
    using as by (simp add: stored_as_def)
  fix eh ps k
  assume con: "connectivity (committed (st_conn s')) eh = Some (ps, k)"
  show "stores_node E s' k \<and> list_all (stores_node E s') ps \<and>
      (\<exists>e. get (st_objects s') eh = Some (edge_blob E e) \<and> edge_hashes_ok e \<and>
         e_premises e = ps \<and> e_conclusion e = k)"
  proof (cases "eh = hash_bytes E (edge_blob E e)")
    case True
    with con conn have psk: "ps = e_premises e" "k = e_conclusion e" by simp_all
    have nodes: "stores_node E s' (hash_bytes E (node_blob E n))" if m: "n \<in> set (prems @ [c])" for n
      using got(2) [OF m] by (auto simp: stores_node_def)
    then have "stores_node E s' k" "list_all (stores_node E s') ps"
      by (simp_all add: psk d(7,8) list_all_iff)
    with True got(1) d(6) psk show ?thesis by blast
  next
    case False
    with con conn have "connectivity (committed (st_conn s)) eh = Some (ps, k)" by simp
    with d(5) obtain e' where e': "stores_node E s k" "list_all (stores_node E s) ps"
      "get (st_objects s) eh = Some (edge_blob E e')" "edge_hashes_ok e'" "e_premises e' = ps"
      "e_conclusion e' = k" unfolding graph_typed_def by blast
    have "stores_node E s h \<longrightarrow> stores_node E s' h" for h
      using stores_node_mono [OF got(3)] by blast
    with e' got(3) have "stores_node E s' k" "list_all (stores_node E s') ps"
      "get (st_objects s') eh = Some (edge_blob E e')" by (simp_all add: list_all_iff)
    with e'(4-6) show ?thesis by blast
  qed
qed

lemma store_edge_effect:
  assumes "proposal_ok E s prems c p e"
  shows "\<exists>s' entry. store_edge E now prems c p result e s =
      Some (s', Inr \<lparr> cm_verification = result, cm_edge = Some e,
        cm_edge_hash = Some (hash_bytes E (edge_blob E e)), cm_log_entry = Some entry \<rparr>) \<and>
    stored_as E s prems c p e s' \<and> verify_entry E entry = Inr True \<and> le_payload entry = edge_blob E e \<and>
    t_log (committed (st_conn s')) = t_log (committed (st_conn s)) @ [entry]"
proof -
  obtain s' r where run: "commit_edge_tx E now (e_premises e) (e_conclusion e) (edge_blob E e) p
        (with_nodes E s prems c) = (s', Inr (hash_bytes E (edge_blob E e), r))"
    and rest: "stored_as E s prems c p e s'" "verify_entry E r = Inr True" "le_payload r = edge_blob E e"
      "t_log (committed (st_conn s')) = t_log (committed (st_conn s)) @ [r]"
    using storing_effect [OF assms, of now] by blast
  have "store_edge E now prems c p result e s =
      Some (s', Inr \<lparr> cm_verification = result, cm_edge = Some e,
        cm_edge_hash = Some (hash_bytes E (edge_blob E e)), cm_log_entry = Some r \<rparr>)"
    using run unfolding store_edge_def put_nodes_eq edge_bytes_eq by simp
  with rest show ?thesis by blast
qed

lemma verify_and_commit_accepted:
  assumes "verify P prems c rule et p t = Some (Inr r)" and "\<not> rejected r"
  shows "verify_and_commit E P now signer prems c rule et p t s =
    store_edge E now prems c p r (built_edge E signer prems c rule et p r) s"
  using assms by (simp add: verify_and_commit_def build_edge_eq)

section \<open>The properties\<close>

lemma proposal_okI:
  assumes "blake3_spec E" and "ed25519_spec E" and "cbor_spec E" and "storage_ok E s" and "graph_typed E s"
    and "collision_free E (new_blobs E prems c p (built_edge E signer prems c rule et p r) \<union> blobs_of s)"
  shows "proposal_ok E s prems c p (built_edge E signer prems c rule et p r)"
  using assms built_edge_ok [OF assms(1)] by (simp add: proposal_ok_def)

text \<open>C1: an accepted proposal is stored faithfully: the call succeeds and returns the edge whose type, rule,
  verdict, strength and signer are those of the proposal and its verification; the edge and every node of
  it resolve from their content addresses to exactly these records, the proof to its bytes; the graph gains
  this edge only, and the log one entry, which verifies and whose payload is the edge.\<close>

theorem accepted_edge_stored:
  assumes "blake3_spec E" and "ed25519_spec E" and "cbor_spec E" and "storage_ok E s" and "graph_typed E s"
    and "verify P prems c rule et p t = Some (Inr r)" and "\<not> rejected r"
    and "e = built_edge E signer prems c rule et p r"
    and "collision_free E (new_blobs E prems c p e \<union> blobs_of s)"
  shows "\<exists>s' eh entry. verify_and_commit E P now signer prems c rule et p t s =
      Some (s', Inr \<lparr> cm_verification = r, cm_edge = Some e, cm_edge_hash = Some eh,
        cm_log_entry = Some entry \<rparr>) \<and>
    edge_hash E e = Inr eh \<and> resolve_edge E (sqlite_reader E s') eh = Inr (Some e) \<and>
    (\<forall>n \<in> set (c # prems). \<exists>h. node_id E n = Inr h \<and> resolve_node E (sqlite_reader E s') h = Inr (Some n)) \<and>
    (\<forall>q \<in> set_option p. get (st_objects s') (hash_bytes E q) = Some q) \<and>
    connectivity (committed (st_conn s')) =
      (connectivity (committed (st_conn s)))(eh \<mapsto> (e_premises e, e_conclusion e)) \<and>
    t_log (committed (st_conn s')) = t_log (committed (st_conn s)) @ [entry] \<and>
    verify_entry E entry = Inr True \<and> le_payload entry = edge_blob E e"
proof -
  have ok: "proposal_ok E s prems c p e"
    unfolding assms(8) by (rule proposal_okI [OF assms(1-5) assms(9) [unfolded assms(8)]])
  obtain s' entry where run: "store_edge E now prems c p r e s =
      Some (s', Inr \<lparr> cm_verification = r, cm_edge = Some e,
        cm_edge_hash = Some (hash_bytes E (edge_blob E e)), cm_log_entry = Some entry \<rparr>)"
    and as: "stored_as E s prems c p e s'" and entry: "verify_entry E entry = Inr True"
      "le_payload entry = edge_blob E e" "t_log (committed (st_conn s')) = t_log (committed (st_conn s)) @ [entry]"
    using store_edge_effect [OF ok, of now r] by blast
  note got = stored_as_blobs [OF ok as]
  note res = resolve_stored [OF assms(3) proposal_okD(6) [OF ok]]
  have "\<exists>h. node_id E n = Inr h \<and> resolve_node E (sqlite_reader E s') h = Inr (Some n)"
    if n: "n \<in> set (c # prems)" for n
    using res(2) [OF got(2), of n] n by (auto simp: node_id_eq)
  moreover have "resolve_edge E (sqlite_reader E s') (hash_bytes E (edge_blob E e)) = Inr (Some e)"
    by (rule res(1) [OF got(1)])
  moreover have "\<forall>q \<in> set_option p. get (st_objects s') (hash_bytes E q) = Some q" using got(4) by auto
  moreover have "verify_and_commit E P now signer prems c rule et p t s =
      Some (s', Inr \<lparr> cm_verification = r, cm_edge = Some e,
        cm_edge_hash = Some (hash_bytes E (edge_blob E e)), cm_log_entry = Some entry \<rparr>)"
    using run verify_and_commit_accepted [OF assms(6,7)] by (simp add: assms(8))
  ultimately show ?thesis
    using entry as unfolding stored_as_def edge_hash_eq by blast
qed

text \<open>The roster's definition, committed to an empty storage.\<close>

definition roster_result :: verification_result where
  "roster_result = \<lparr> vr_verdict = PASS, vr_kappa = K_INF,
     vr_elenchus = evaluate ascii [] roster_node [] DEFINITION,
     vr_checker = Some (success K_INF [(str ''roster'', PStr (str ''matched''))]),
     vr_edge_type = DEFINITION, vr_rule = [] \<rparr>"

definition roster_edge :: edge where
  "roster_edge = built_edge ref_env sample_key [] roster_node [] DEFINITION None roster_result"

lemma verify_roster: "verify sample_provers [] roster_node [] DEFINITION None five_seconds = Some (Inr roster_result)"
  "\<not> rejected roster_result"
  by (simp_all add: verify_roster_node roster_result_def rejected_def)
    (simp add: sample_provers_def sample_platform_def)

lemma sample_empty: "blobs_of sample_storage = {}" "graph_typed ref_env sample_storage"
  by (simp_all add: blobs_of_def graph_typed_def connectivity_def connect_def open_db_def empty_db_def)

lemma roster_distinct:
  "collision_free ref_env (new_blobs ref_env [] roster_node None roster_edge \<union> blobs_of sample_storage)"
proof -
  have "collision_free ref_env (set [edge_blob ref_env roster_edge, node_blob ref_env roster_node])"
    by (rule collision_free_listI) code_simp
  then show ?thesis by (simp add: new_blobs_def sample_empty)
qed

theorem accepted_edge_stored_witness:
  "\<exists>s' eh entry. verify_and_commit ref_env sample_provers 5 sample_key [] roster_node [] DEFINITION None
      five_seconds sample_storage =
      Some (s', Inr \<lparr> cm_verification = roster_result, cm_edge = Some roster_edge, cm_edge_hash = Some eh,
        cm_log_entry = Some entry \<rparr>) \<and>
    edge_hash ref_env roster_edge = Inr eh \<and>
    resolve_edge ref_env (sqlite_reader ref_env s') eh = Inr (Some roster_edge)"
  using accepted_edge_stored [OF ref_env_blake3 ref_env_ed25519 ref_env_cbor storage_ok_sample sample_empty(2)
      verify_roster roster_edge_def roster_distinct, of 5]
  by blast

lemma vc_invariant:
  assumes "blake3_spec E" and "ed25519_spec E" and "cbor_spec E" and "storage_ok E s" and "graph_typed E s"
    and "\<forall>r. verify P prems c rule et p t = Some (Inr r) \<longrightarrow>
      collision_free E (new_blobs E prems c p (built_edge E signer prems c rule et p r) \<union> blobs_of s)"
    and "verify_and_commit E P now signer prems c rule et p t s = Some (s', out)"
  shows "storage_ok E s' \<and> graph_typed E s'"
proof (cases "\<exists>r. verify P prems c rule et p t = Some (Inr r) \<and> \<not> rejected r")
  case True
  then obtain r where r: "verify P prems c rule et p t = Some (Inr r)" "\<not> rejected r" by blast
  have ok: "proposal_ok E s prems c p (built_edge E signer prems c rule et p r)"
    by (rule proposal_okI [OF assms(1-5)]) (use assms(6) r(1) in blast)
  from store_edge_effect [OF ok, of now r] assms(7) [unfolded verify_and_commit_accepted [OF r]]
  have as: "stored_as E s prems c p (built_edge E signer prems c rule et p r) s'" by auto
  with stored_as_typed [OF ok as] show ?thesis by (simp add: stored_as_def)
next
  case False
  with assms(4,5,7) show ?thesis
    by (auto simp: verify_and_commit_def split: option.splits sum.splits if_splits)
qed

text \<open>C23: verification and storage keep the invariant: whatever the proposal and its outcome, a consistent
  storage with a typed graph is left consistent and typed, as long as the blobs do not collide.\<close>

theorem commit_preserves_invariant:
  assumes "blake3_spec E" and "ed25519_spec E" and "cbor_spec E" and "storage_ok E s" and "graph_typed E s"
    and "\<forall>r. verify P prems c rule et p t = Some (Inr r) \<longrightarrow>
      collision_free E (new_blobs E prems c p (built_edge E signer prems c rule et p r) \<union> blobs_of s)"
    and "verify_and_commit E P now signer prems c rule et p t s = Some (s', out)"
  shows "storage_ok E s' \<and> graph_typed E s'"
  by (rule vc_invariant [OF assms])

lemma roster_run:
  "\<exists>s' out. verify_and_commit ref_env sample_provers 5 sample_key [] roster_node [] DEFINITION None
      five_seconds sample_storage = Some (s', out)"
proof -
  have "proposal_ok ref_env sample_storage [] roster_node None roster_edge"
    unfolding roster_edge_def
    by (rule proposal_okI [OF ref_env_blake3 ref_env_ed25519 ref_env_cbor storage_ok_sample sample_empty(2)
          roster_distinct [unfolded roster_edge_def]])
  from store_edge_effect [OF this, of 5 roster_result] verify_and_commit_accepted [OF verify_roster]
  show ?thesis by (auto simp: roster_edge_def)
qed

theorem commit_preserves_invariant_witness:
  "\<exists>s' out. verify_and_commit ref_env sample_provers 5 sample_key [] roster_node [] DEFINITION None
      five_seconds sample_storage = Some (s', out) \<and> storage_ok ref_env s' \<and> graph_typed ref_env s'"
proof -
  obtain s' out where run: "verify_and_commit ref_env sample_provers 5 sample_key [] roster_node [] DEFINITION None
      five_seconds sample_storage = Some (s', out)" using roster_run by blast
  have "\<forall>r. verify sample_provers [] roster_node [] DEFINITION None five_seconds = Some (Inr r) \<longrightarrow>
      collision_free ref_env (new_blobs ref_env [] roster_node None
        (built_edge ref_env sample_key [] roster_node [] DEFINITION None r) \<union> blobs_of sample_storage)"
    using roster_distinct by (simp add: verify_roster(1) roster_edge_def)
  from commit_preserves_invariant [OF ref_env_blake3 ref_env_ed25519 ref_env_cbor storage_ok_sample sample_empty(2) this run] run
  show ?thesis by blast
qed

lemma vc_append_only:
  assumes "pending (st_conn s) = None"
    and "verify_and_commit E P now signer prems c rule et p t s = Some (s', out)"
  shows "(get (st_objects s) h = Some b \<longrightarrow> get (st_objects s') h = Some b) \<and>
    (\<exists>rs. t_log (committed (st_conn s')) = t_log (committed (st_conn s)) @ rs \<and> length rs \<le> 1) \<and>
    pending (st_conn s') = None \<and>
    ((\<exists>r. out = Inr r \<and> cm_rejected r) \<or> (\<exists>e. verify P prems c rule et p t = Some (Inl e)) \<longrightarrow> s' = s)"
proof (cases "\<exists>r. verify P prems c rule et p t = Some (Inr r) \<and> \<not> rejected r")
  case True
  then obtain r where r: "verify P prems c rule et p t = Some (Inr r)" "\<not> rejected r" by blast
  let ?e = "built_edge E signer prems c rule et p r"
  let ?w = "put_all E (prems @ [c]) s"
  let ?run = "commit_edge_tx E now (e_premises ?e) (e_conclusion ?e) (edge_blob E ?e) p ?w"
  have run: "s' = fst ?run" and out: "\<not> (\<exists>r. out = Inr r \<and> cm_rejected r)"
    using assms(2) r(2) unfolding verify_and_commit_accepted [OF r] store_edge_def put_nodes_eq edge_bytes_eq
    by (auto simp: failed_def cm_rejected_def split: prod.splits sum.splits)
  have idle: "pending (st_conn ?w) = None" using assms(1) by simp
  have "get (st_objects s') h = Some b" if old: "get (st_objects s) h = Some b"
    unfolding run objects_commit [OF idle]
    by (rule objects_mono(2), rule objects_mono(1), rule get_put_all_mono [OF old])
  moreover have "\<exists>rs. t_log (committed (st_conn s')) = t_log (committed (st_conn ?w)) @ rs \<and> length rs \<le> 1"
    using commit_edge_tx_cases [OF idle refl refl, of E now "e_premises ?e" "e_conclusion ?e" "edge_blob E ?e" p]
    unfolding run by (auto simp: commit_db_def)
  moreover have "pending (st_conn s') = None" unfolding run by (rule commit_edge_tx_pending [OF idle])
  ultimately show ?thesis using out r(1) by auto
next
  case False
  with assms show ?thesis
    by (auto simp: verify_and_commit_def split: option.splits sum.splits if_splits)
qed

text \<open>Whatever happens, also when verification or the storage raises, nothing is lost: every blob and the
  log stay as they were but for additions, at most one entry is appended, and a rejected proposal or an
  exception of the verifier leaves the storage exactly as it was.\<close>

theorem verify_and_commit_append_only:
  assumes "pending (st_conn s) = None"
    and "verify_and_commit E P now signer prems c rule et p t s = Some (s', out)"
  shows "(get (st_objects s) h = Some b \<longrightarrow> get (st_objects s') h = Some b) \<and>
    (\<exists>rs. t_log (committed (st_conn s')) = t_log (committed (st_conn s)) @ rs \<and> length rs \<le> 1) \<and>
    pending (st_conn s') = None \<and>
    ((\<exists>r. out = Inr r \<and> cm_rejected r) \<or> (\<exists>e. verify P prems c rule et p t = Some (Inl e)) \<longrightarrow> s' = s)"
  by (rule vc_append_only [OF assms])

theorem verify_and_commit_append_only_witness:
  "\<exists>s' out rs. verify_and_commit ref_env sample_provers 5 sample_key [] roster_node [] DEFINITION None
      five_seconds sample_storage = Some (s', out) \<and>
    t_log (committed (st_conn s')) = t_log (committed (st_conn sample_storage)) @ rs \<and> length rs \<le> 1"
proof -
  obtain s' out where run: "verify_and_commit ref_env sample_provers 5 sample_key [] roster_node [] DEFINITION None
      five_seconds sample_storage = Some (s', out)" using roster_run by blast
  have "pending (st_conn sample_storage) = None" using storage_ok_sample by (simp only: storage_ok_def)
  from verify_and_commit_append_only [OF this run] run show ?thesis by blast
qed

end
