(* ===== verification/Corpus.thy ===== *)
theory Corpus
  imports Commit
begin

text \<open>
  \<^verbatim>\<open>seed/corpus.py\<close>: the seed corpus, statements about the Riemann hypothesis and the steps between them,
  as the two tuples the module declares. Names refer to nodes by their corpus-internal key. A text the
  source writes as adjacent literals is their concatenation.
\<close>

section \<open>Records\<close>

record corpus_node =
  cn_key :: pystr
  cn_claim :: pystr
  cn_domain :: pystr
  cn_polarity :: bool

record corpus_edge =
  ce_key :: pystr
  ce_edge_type :: EdgeType
  ce_premise_keys :: "pystr list"
  ce_conclusion_key :: pystr
  ce_rule :: pystr
  ce_expected_kappa :: Kappa
  ce_source :: pystr
  ce_proof_bytes :: "bytes option"

text \<open>The constructors with the defaults of the dataclasses.\<close>

definition a_node :: "string \<Rightarrow> string \<Rightarrow> corpus_node" where
  "a_node key claim =
     \<lparr> cn_key = str key, cn_claim = str claim, cn_domain = str ''math'', cn_polarity = True \<rparr>"

definition an_edge ::
    "string \<Rightarrow> EdgeType \<Rightarrow> string list \<Rightarrow> string \<Rightarrow> string \<Rightarrow> Kappa \<Rightarrow> string \<Rightarrow> corpus_edge" where
  "an_edge key edge_type premise_keys conclusion_key rule expected_kappa source =
     \<lparr> ce_key = str key, ce_edge_type = edge_type, ce_premise_keys = map str premise_keys,
       ce_conclusion_key = str conclusion_key, ce_rule = str rule, ce_expected_kappa = expected_kappa,
       ce_source = str source, ce_proof_bytes = None \<rparr>"

section \<open>Nodes\<close>

definition corpus_nodes_1 :: "corpus_node list" where
  "corpus_nodes_1 =
    [a_node ''N1'' (''the scaling flow phi_t on the adele class space has closed orbits equal to the primes, with'' @
        '' length log p''),
     a_node ''N2'' ''S(T) = (1/pi) arg zeta(1/2+iT) = -(1/pi) sum_p sum_k p^(-k/2) sin(k T log p)/k'',
     a_node ''N3'' ''N(T) = theta(T)/pi + 1 + S(T)'',
     a_node ''N4'' ''H_BK = -i(x d/dx + 1/2) has purely continuous spectrum'',
     a_node ''N5'' ''no self-adjoint realization of H_BK yields the Riemann zeros'',
     a_node ''N6'' ''the first 10^13 nontrivial zeros of zeta lie on the critical line'',
     a_node ''N7'' ''RH is true'',
     a_node ''N8'' ''the Selberg zeta zeros obey RH'',
     a_node ''N9'' (''there exists a self-adjoint operator whose eigenvalues are the imaginary parts of the nontrivial'' @
        '' zeros of zeta''),
     a_node ''N10'' (''zeta(s) = prod_p (1 - p^(-s))^(-1) is the partition function of the primon gas: each prime p is'' @
        '' a 'primon' with energy log p, and s is the inverse temperature''),
     a_node ''N11'' ''F(s) = -log zeta(s) = sum_p log(1 - p^(-s)) is the free energy of the primon gas'',
     a_node ''N12'' (''the zeros of zeta are the singularities of the free energy F(s), i.e. the phase transitions of'' @
        '' the primon gas''),
     a_node ''N13'' (''self-adjointness (reality of the free energy on the critical line) is the missing structure that'' @
        '' collapses the 4-fold zero symmetry {rho, 1-rho, rho-bar, 1-rho-bar} to 2-fold (rho = 1-rho-bar,'' @
        '' i.e. Re(rho) = 1/2)''),
     a_node ''N14'' (''xi(1/2+it) = integral_{-inf}^{inf} Phi(u) e^(iut) du, with Phi(u) = sum_{n>=1} (4 pi^2 n^4'' @
        '' e^(9u/2) - 6 pi n^2 e^(5u/2)) e^(-pi n^2 e^(2u))''),
     a_node ''N15'' (''Polya's criterion: if Phi is a Polya frequency function (totally positive, all minors >= 0),'' @
        '' then xi(1/2+it) has all real zeros''),
     a_node ''N16'' (''RH is equivalent to Phi being totally positive (the de Branges route; the converse to Polya is'' @
        '' open)''),
     a_node ''N17'' (''S(T) = (1/pi) arg zeta(1/2+iT) satisfies Selberg's central limit theorem: S(T)/sqrt((1/(2 pi^2))'' @
        '' log log T) -> N(0,1) in distribution''),
     a_node ''N18'' (''S(t) = Omega_+-[(log t)^(1/3) (log log t)^(-7/3)] (Selberg 1946); Tsang (1986) removed the (log'' @
        '' log t)^(-7/3) factor to get the clean (log T/log log T)^(1/3)''),
     a_node ''N19'' (''the zero-density estimate N(sigma, T+H) - N(sigma, T) << H (H/sqrt(T))^((1/2-sigma)/2) log T'' @
        '' (Selberg)''),
     a_node ''N20'' (''the 1/3 exponent is the balance point between aligning the prime generators (W ~ sqrt(k)) and'' @
        '' keeping the spectrum quiet (the zero-density bound caps k)''),
     a_node ''N21'' (''the critical line Re(s) = 1/2 is a renormalization-group fixed point: primes = relevant operator'' @
        '' (input), zeros = irrelevant operator (output), valve = running coupling''),
     a_node ''N22'' (''the functional equation xi(s) = xi(1-s) is exactly the statement that xi is self-dual under the'' @
        '' Mellin transform'')]"

definition corpus_nodes_2 :: "corpus_node list" where
  "corpus_nodes_2 =
    [a_node ''N23'' (''the valve is the Mellin transform (the specific Poisson summation for zeta); self-duality gives'' @
        '' symmetry about the line but not placement on it''),
     a_node ''N24'' (''positivity is the missing structure: the single condition that forces the zeros onto the'' @
        '' critical line, unifying the Hilbert-Polya operator (N9), self-adjointness (N13), total'' @
        '' positivity (N16), and what the Mellin transform fails to carry (N23)''),
     a_node ''N25'' (''the primes are the spectrum (input) of the system: the closed orbits of the flow (N1), the'' @
        '' primons of the gas (N10), and the relevant operator of the RG flow (N21) are three faces of one'' @
        '' claim''),
     a_node ''N26'' (''the critical line Re(s)=1/2 is a balance point: the phase transitions of the primon gas (N12),'' @
        '' the 1/3 exponent balance (N20), and the RG fixed point (N21) all locate the same equilibrium''),
     a_node ''N27'' (''the primes<->zeros correspondence is a self-encoding double helix: two complementary strands'' @
        '' (primes = arithmetic, zeros = spectral) linked by the functional equation, with the phase arg'' @
        '' zeta as the twist''),
     a_node ''N28'' (''the Riemann-von Mangoldt formula N(T) = theta(T)/pi + 1 + S(T) is the topological identity Lk ='' @
        '' Tw + Wr (Calugareanu-White-Fuller): gamma factor = twist, zeta = writhe, N(T) = linking number''),
     (a_node ''N29'' ''RH is equivalent to the mean writhe being bounded: integral_0^T S(t) dt = O(log T)'')\<lparr>cn_polarity := False\<rparr>,
     (a_node ''N30'' ''RH is equivalent to the pointwise bound S(T) = O(log T / log log T)'')\<lparr>cn_polarity := False\<rparr>,
     a_node ''N31'' (''RH is equivalent to: all zeros of det(1-L_beta) lie on Re(beta)=1/4 (Mayer's transfer-operator'' @
        '' theorem)''),
     a_node ''N32'' ''self_adjoint bessel_kernel(-0.5, 60)'',
     a_node ''N33'' ''complex_spectrum bessel_kernel(-0.5+2j, 40)'',
     a_node ''N34'' ''low_rank bessel_kernel(-0.5+2j, 40) - bessel_kernel(-0.5+2j, 40).conj().T'',
     a_node ''N35'' ''the first nontrivial zero rho_1 has multiplicity 1'',
     a_node ''N36'' ''the spectrum of L_beta leaves the real axis linearly in gamma'']"

definition CORPUS_NODES :: "corpus_node list" where
  "CORPUS_NODES = corpus_nodes_1 @ corpus_nodes_2"

section \<open>Edges\<close>

definition corpus_edges_1 :: "corpus_edge list" where
  "corpus_edges_1 =
    [an_edge ''E1'' DEFINITION [] ''N1''
       ''solenoid scaling flow'' K1
       ''solenoid-scaling-flow/results.md, NOEMA 9db25d9aa15e'',
     an_edge ''E2'' CITATION [] ''N2''
       ''Euler product + explicit formula'' K1
       ''phase-is-the-valve/results.md, NOEMA a1f3c9d2b7e4'',
     an_edge ''E3'' CITATION [''N2''] ''N3''
       ''phase-is-the-valve'' K1
       ''phase-is-the-valve/results.md, NOEMA a1f3c9d2b7e4'',
     an_edge ''E4'' CITATION [] ''N4''
       ''Endres-Steiner 2010'' K1
       ''Endres-Steiner 2010, arXiv:0912.3183'',
     an_edge ''E5'' CITATION [''N4''] ''N5''
       ''phaser uniqueness theorem'' K1
       ''phaser-uniqueness/results.md, NOEMA e07bfe33ea59'',
     an_edge ''E6'' CITATION [] ''N6''
       ''Platt 2019 zeros bound'' K1
       ''Platt 2019'',
     an_edge ''E7'' CITATION [] ''N8''
       ''Selberg trace formula'' K1
       ''Selberg trace formula (standard)'',
     an_edge ''E8'' ANALOGY [] ''N7''
       ''Riemann Hypothesis'' K0
       ''the conjecture itself'',
     an_edge ''E9'' CITATION [''N9''] ''N7''
       ''Hilbert-Polya operator'' K1
       ''Hilbert-Polya program (standard)'',
     an_edge ''E10'' CITATION [] ''N10''
       ''Euler product reinterpreted as primon gas'' K1
       ''primon_gas_free_energy.md (free-energy-spectrum, 2026-08-21)'',
     an_edge ''E11'' CITATION [''N10''] ''N11''
       ''free energy = -log partition function'' K1
       ''primon_gas_free_energy.md'',
     an_edge ''E12'' CITATION [''N11''] ''N12''
       ''zeros = singularities of -log zeta'' K1
       ''primon_gas_free_energy.md'',
     an_edge ''E13'' ANALOGY [''N12''] ''N13''
       ''Lee-Yang analogy: positivity forces zeros onto a line'' K0
       ''primon_gas_free_energy.md'',
     an_edge ''E14'' CITATION [] ''N14''
       ''Fourier representation of xi'' K1
       ''positivity_condition.md (verified 30 digits)'',
     an_edge ''E15'' CITATION [''N14''] ''N15''
       ''Polya 1926'' K1
       ''Polya 1926'',
     an_edge ''E16'' ANALOGY [''N15''] ''N16''
       ''de Branges route (converse open)'' K0
       ''positivity_condition.md'']"

definition corpus_edges_2 :: "corpus_edge list" where
  "corpus_edges_2 =
    [an_edge ''E17'' CITATION [] ''N17''
       ''Selberg central limit theorem'' K1
       ''fluctuation_S_T.md'',
     an_edge ''E18'' CITATION [] ''N18''
       ''Selberg 1946 + Tsang 1986'' K1
       ''tsang_mechanism.md, NOEMA 5ea45f72362c'',
     an_edge ''E19'' CITATION [] ''N19''
       ''Selberg zero-density estimate'' K1
       ''zero_density_core.md, NOEMA 7fedaa8936b4'',
     an_edge ''E20'' ANALOGY [''N18'', ''N19''] ''N20''
       ''generator/spectrum balance'' K0
       ''tsang_mechanism.md'',
     an_edge ''E21'' ANALOGY [] ''N21''
       ''RG flow model'' K0
       ''22_rg_flow_model.md'',
     an_edge ''E22'' ANALOGY [] ''N22''
       ''Janus synthesis: functional equation = self-duality'' K0
       ''23_janus_rg_synthesis.md'',
     an_edge ''E23'' ANALOGY [''N22''] ''N23''
       ''Janus synthesis: valve = Mellin transform'' K0
       ''23_janus_rg_synthesis.md'',
     an_edge ''E24'' CITATION [''N2''] ''N17''
       ''S(T) formula -> Selberg CLT for S(T)'' K1
       ''cross-thread bridge: S(T) defined in N2 satisfies the CLT in N17'',
     an_edge ''E25'' CITATION [''N2''] ''N18''
       ''S(T) formula -> Omega-theorem for S(T)'' K1
       ''cross-thread bridge: S(T) defined in N2 satisfies the Omega-theorem in N18'',
     an_edge ''E26'' ANALOGY [''N6''] ''N7''
       ''10^13 zeros on the line -> evidence for RH'' K0
       ''cross-thread bridge: numerical evidence supports the conjecture'',
     an_edge ''E27'' ANALOGY [''N8''] ''N7''
       ''Selberg zeta obeys RH -> analogy for RH'' K0
       ''cross-thread bridge: a proven analogue of RH'',
     an_edge ''E28'' ANALOGY [''N9''] ''N13''
       ''Hilbert-Polya operator <-> self-adjointness'' K0
       ''cross-thread bridge: the operator N9 is the self-adjointness N13'',
     an_edge ''E29'' ANALOGY [''N13''] ''N23''
       ''self-adjointness <-> Mellin symmetry gap'' K0
       ''cross-thread bridge: self-adjointness is what the Mellin transform fails to carry'',
     an_edge ''E30'' ANALOGY [''N16''] ''N13''
       ''total positivity <-> self-adjointness'' K0
       (''cross-thread bridge: both are 'positivity forces the line'' @
         [CHR 0x27]),
     an_edge ''E31'' ANALOGY [''N1''] ''N10''
       ''flow orbits = primes <-> primon gas'' K0
       (''cross-thread bridge: both are 'primes as spectrum'' @
         [CHR 0x27]),
     an_edge ''E32'' ANALOGY [''N12''] ''N21''
       ''zeros = phase transitions <-> critical line = RG fixed point'' K0
       ''cross-thread bridge: both locate the critical line as equilibrium'']"

definition corpus_edges_3 :: "corpus_edge list" where
  "corpus_edges_3 =
    [an_edge ''E33'' ANALOGY [''N20''] ''N21''
       ''1/3 balance <-> fixed point balance'' K0
       (''cross-thread bridge: both are 'the critical line is a balance point'' @
         [CHR 0x27]),
     an_edge ''E34'' ANALOGY [''N22''] ''N13''
       ''self-duality <-> self-adjointness gap'' K0
       ''cross-thread bridge: self-duality gives symmetry, self-adjointness gives placement'',
     an_edge ''E35'' ANALOGY [''N9''] ''N24''
       ''Hilbert-Polya operator is the positivity structure'' K0
       ''hub: positivity is the missing structure'',
     an_edge ''E36'' ANALOGY [''N13''] ''N24''
       ''self-adjointness is the positivity structure'' K0
       ''hub: positivity is the missing structure'',
     an_edge ''E37'' ANALOGY [''N16''] ''N24''
       ''total positivity is the positivity structure'' K0
       ''hub: positivity is the missing structure'',
     an_edge ''E38'' ANALOGY [''N23''] ''N24''
       ''the Mellin transform fails to carry positivity'' K0
       ''hub: positivity is the missing structure'',
     an_edge ''E39'' ANALOGY [''N1''] ''N25''
       ''flow orbits = primes'' K0
       ''hub: primes as spectrum'',
     an_edge ''E40'' ANALOGY [''N10''] ''N25''
       ''primon gas = primes as spectrum'' K0
       ''hub: primes as spectrum'',
     an_edge ''E41'' ANALOGY [''N21''] ''N25''
       ''primes = relevant operator (input)'' K0
       ''hub: primes as spectrum'',
     an_edge ''E42'' ANALOGY [''N12''] ''N26''
       ''zeros = phase transitions at the balance'' K0
       ''hub: the critical line is a balance point'',
     an_edge ''E43'' ANALOGY [''N20''] ''N26''
       ''1/3 exponent = balance'' K0
       ''hub: the critical line is a balance point'',
     an_edge ''E44'' ANALOGY [''N21''] ''N26''
       ''fixed point = balance'' K0
       ''hub: the critical line is a balance point'',
     an_edge ''E45'' ANALOGY [''N5''] ''N9''
       (''failure of the naive Berry-Keating operator -> the Hilbert-Polya operator is a genuine open'' @
         '' problem'') K0
       ''cross-thread bridge: the negative result N5 is what makes N9 open'',
     an_edge ''E46'' ANALOGY [''N3''] ''N28''
       ''von Mangoldt formula read topologically as Lk = Tw + Wr'' K0
       ''zeta-curve-writhe/results.md, NOEMA 820255c9c327'',
     an_edge ''E47'' ANALOGY [''N2''] ''N27''
       ''phase arg zeta = the twist of the helix'' K0
       ''double-helix/results.md'',
     an_edge ''E48'' ANALOGY [''N27''] ''N28''
       ''helix twist -> writhe decomposition'' K0
       ''double-helix/results.md'']"

definition corpus_edges_4 :: "corpus_edge list" where
  "corpus_edges_4 =
    [an_edge ''E49'' ANALOGY [''N28''] ''N29''
       ''writhe = S(T), so RH constrains the mean writhe'' K0
       ''zeta-curve-writhe/results.md'',
     an_edge ''E50'' REFUTATION [] ''N30''
       ''Littlewood 1924: S(T) = O(log T / log log T) is unconditional, so it cannot be equivalent to RH'' K1
       ''zeta-curve-writhe correction (this session)'',
     an_edge ''E51'' CITATION [] ''N29''
       ''RH <=> integral_0^T S(t) dt = O(log T) (mean bound)'' K1
       ''Titchmarsh (from training, medium-high confidence; verify)'',
     an_edge ''E52'' REFUTATION [] ''N29''
       (''the mean value integral_0^T S(t) dt grows like O(T) (numerically verified 2026-08-27: M(1000) ='' @
         '' -1670 vs log(1000) ~ 6.9), NOT O(log T); it is unconditional, so it cannot be equivalent to RH'') K1
       ''numerical (mpmath, this session) + classical; premise corrected from O(log T) to O(T)'',
     an_edge ''E53'' CITATION [] ''N31''
       (''Mayer's theorem: det(1-L_beta) = zeta(2beta)/zeta(2beta+1); RH <=> zeros of det(1-L_beta) on'' @
         '' Re(beta)=1/4'') K1
       ''surface ontology (2026-09-22), Mayer transfer operator'',
     an_edge ''E54'' SPECTRAL [] ''N32''
       ''L_beta is self-adjoint for real beta (Mayer transfer operator, nu=-1/2)'' K2
       ''spectral checker: hermitian_err=0.0, max_im_eig=0.0'',
     an_edge ''E55'' SPECTRAL [] ''N33''
       ''L_beta has complex spectrum off the real axis (broken PT-symmetry, nu=-1/2+2i)'' K2
       ''spectral checker: max_im_eig=5.77'',
     an_edge ''E56'' SPECTRAL [] ''N34''
       ''the defect D = L_beta - L_beta* has a dominant singular value (sigma1/sigma2 = 36.5)'' K2
       ''spectral checker: ratio_s1_s2=36.53'',
     an_edge ''E57'' CITATION [] ''N35''
       ''mpmath dps=30: zeta'(rho_1) != 0; residue of zeta'(2b)/zeta(2b) at rho_1 = 1'' K1
       ''surface ontology (2026-09-22)'',
     an_edge ''E58'' CITATION [] ''N36''
       ''mpmath dps=30: Im(spectrum) ~ 0.58*gamma, linear in gamma'' K1
       ''surface ontology (2026-09-22)'']"

definition CORPUS_EDGES :: "corpus_edge list" where
  "CORPUS_EDGES = corpus_edges_1 @ corpus_edges_2 @ corpus_edges_3 @ corpus_edges_4"

end
