(* ===== verification/Roster.thy ===== *)
theory Roster
  imports Commit
begin

text \<open>
  \<^verbatim>\<open>attestation/roster.py\<close>: the ordered bindings of agent names to public keys, their validation, the
  canonical encoding and content address, and the decoder. A dict is its items in insertion order with
  distinct keys. The constructor checks the types of what it is given, so its argument is a list of
  Python values; a roster that was constructed is typed.
\<close>

section \<open>Definitions\<close>

text \<open>The module has its own \<open>PUBLIC_KEY_SIZE\<close>, equal to the one of \<^verbatim>\<open>keys.py\<close>.\<close>

record roster =
  ro_entries :: "(pystr \<times> bytes) list"

definition check_binding :: "pyval \<times> pyval \<Rightarrow> (pystr \<times> bytes) res" where
  "check_binding item =
     (case item of
        (PStr agent_id, PBytes pubkey) \<Rightarrow>
          if agent_id = [] then Inl ValueError
          else if length pubkey \<noteq> PUBLIC_KEY_SIZE then Inl ValueError
          else Inr (agent_id, pubkey)
      | _ \<Rightarrow> Inl ValueError)"

text \<open>\<open>Roster(entries)\<close> with \<open>__post_init__\<close>\<close>

definition make_roster :: "(pyval \<times> pyval) list \<Rightarrow> roster res" where
  "make_roster entries = and_then (map_res check_binding entries) (\<lambda>es. Inr \<lparr> ro_entries = es \<rparr>)"

definition roster_to_canonical :: "roster \<Rightarrow> pyval" where
  "roster_to_canonical R =
     PDict [(PStr (str ''version''), PInt 1),
            (PStr (str ''bindings''),
               PList (map (\<lambda>(agent_id, pubkey). PList [PStr agent_id, PBytes pubkey]) (ro_entries R)))]"

definition roster_bytes :: "env \<Rightarrow> roster \<Rightarrow> bytes res" where
  "roster_bytes E R = canonical_encode E (roster_to_canonical R)"

definition roster_hash :: "env \<Rightarrow> roster \<Rightarrow> hash res" where
  "roster_hash E R = and_then (roster_bytes E R) (\<lambda>bs. Inr (hash_bytes E bs))"

definition resolve :: "roster \<Rightarrow> pystr \<Rightarrow> bytes option" where
  "resolve R agent_id = map_of (ro_entries R) agent_id"

definition identify :: "roster \<Rightarrow> bytes \<Rightarrow> pystr option" where
  "identify R pubkey = map_option fst (find (\<lambda>(agent_id, pk). pk = pubkey) (ro_entries R))"

section \<open>Decoding\<close>

text \<open>\<open>bytes(v)\<close>: a buffer is copied, an integer gives that many zero bytes, an iterable its items.\<close>

fun bytes_of :: "pyval \<Rightarrow> bytes res" where
  "bytes_of (PBytes b) = Inr b"
| "bytes_of (PInt i) =
     (if 2 ^ 63 \<le> i then Inl (OtherError (str ''OverflowError''))
      else if i < 0 then (if i < - (2 ^ 63) then Inl (OtherError (str ''OverflowError'')) else Inl ValueError)
      else Inr (replicate (nat i) 0))"
| "bytes_of (PBool b) = Inr (replicate (if b then 1 else 0) 0)"
| "bytes_of (PStr s) = Inl TypeError"
| "bytes_of v = and_then (py_iter v) (map_res byte_of_item)"

text \<open>Whether a decoded value can be a dict key; a decoded set is mutable, so it cannot.\<close>

definition key_check :: "pyval \<Rightarrow> unit res" where
  "key_check k = (case k of PSet xs \<Rightarrow> Inl TypeError | _ \<Rightarrow> if hashable k then Inr () else Inl TypeError)"

definition read_binding :: "pyval \<Rightarrow> (pyval \<times> pyval) res" where
  "read_binding item =
     and_then (py_iter item) (\<lambda>xs.
       case xs of
         [agent_id, pubkey] \<Rightarrow>
           and_then (bytes_of pubkey) (\<lambda>pk.
           and_then (key_check agent_id) (\<lambda>u. Inr (agent_id, PBytes pk)))
       | _ \<Rightarrow> Inl ValueError)"

definition roster_from_bytes :: "env \<Rightarrow> bytes \<Rightarrow> roster res" where
  "roster_from_bytes E data =
     and_then (canonical_decode E data) (\<lambda>d.
     and_then (and_then (py_item d ''bindings'') py_iter) (\<lambda>bindings.
     and_then (map_res read_binding bindings) (\<lambda>items.
       make_roster (dict_of_items items))))"

section \<open>The invariant of a roster\<close>

text \<open>What the constructor guarantees of a roster made from a dict.\<close>

definition roster_ok :: "roster \<Rightarrow> bool" where
  "roster_ok R \<longleftrightarrow>
     distinct (map fst (ro_entries R)) \<and>
     list_all (\<lambda>(agent_id, pubkey). agent_id \<noteq> [] \<and> length pubkey = 32) (ro_entries R)"

abbreviation binding_values :: "(pystr \<times> bytes) list \<Rightarrow> (pyval \<times> pyval) list" where
  "binding_values es \<equiv> map (\<lambda>(a, pk). (PStr a, PBytes pk)) es"

lemma check_binding_Inr:
  "check_binding item = Inr (a, pk) \<longleftrightarrow> item = (PStr a, PBytes pk) \<and> a \<noteq> [] \<and> length pk = 32"
  by (cases item; cases "fst item"; cases "snd item") (auto simp: check_binding_def key_sizes)

lemma check_bindings_Inr:
  "map_res check_binding entries = Inr es \<longleftrightarrow>
     entries = binding_values es \<and> list_all (\<lambda>(a, pk). a \<noteq> [] \<and> length pk = 32) es"
proof (induction entries arbitrary: es)
  case (Cons item entries)
  show ?case
  proof (cases es)
    case (Cons e es')
    obtain a pk where "e = (a, pk)" by (cases e)
    then show ?thesis using Cons.IH [of es'] Cons by (auto simp: and_then_eq_Inr check_binding_Inr)
  qed (auto simp: and_then_eq_Inr)
qed auto

lemma make_roster_Inr:
  "make_roster entries = Inr R \<longleftrightarrow>
     entries = binding_values (ro_entries R) \<and> list_all (\<lambda>(a, pk). a \<noteq> [] \<and> length pk = 32) (ro_entries R)"
  by (cases R) (auto simp: make_roster_def and_then_eq_Inr check_bindings_Inr)

lemma make_roster_ok:
  assumes "make_roster entries = Inr R" and "distinct (map fst entries)"
  shows "roster_ok R"
proof -
  have e: "entries = binding_values (ro_entries R)"
    and l: "list_all (\<lambda>(a, pk). a \<noteq> [] \<and> length pk = 32) (ro_entries R)"
    using assms(1) by (simp_all add: make_roster_Inr)
  have "map fst entries = map PStr (map fst (ro_entries R))" by (simp add: e case_prod_beta comp_def)
  with assms(2) have "distinct (map PStr (map fst (ro_entries R)))" by (simp only:)
  then have "distinct (map fst (ro_entries R))" by (simp only: distinct_map)
  with l show ?thesis by (simp add: roster_ok_def)
qed

lemma identify_resolve:
  assumes "roster_ok R"
  shows "identify R pk = Some a \<Longrightarrow> resolve R a = Some pk"
    and "identify R pk = None \<longleftrightarrow> (\<forall>a. resolve R a \<noteq> Some pk)"
proof -
  have d: "distinct (map fst (ro_entries R))" using assms by (simp add: roster_ok_def)
  show "identify R pk = Some a \<Longrightarrow> resolve R a = Some pk"
    using d by (fastforce simp: identify_def resolve_def find_Some_iff map_of_eq_Some_iff in_set_conv_nth)
  show "identify R pk = None \<longleftrightarrow> (\<forall>a. resolve R a \<noteq> Some pk)"
    using d by (auto simp: identify_def resolve_def find_None_iff)
qed

section \<open>Decoding an encoding\<close>

lemma canonicalize_bindings:
  "map_res (canonicalize E) (map (\<lambda>(a, pk). PList [PStr a, PBytes pk]) es) =
     Inr (map (\<lambda>(a, pk). PList [PStr a, PBytes pk]) es)"
  by (induction es) auto

lemma roster_bytes_eq: "roster_bytes E R = Inr (cbor_dumps E (roster_to_canonical R))"
  by (simp add: roster_bytes_def canonical_encode_def roster_to_canonical_def dict_of_items_distinct
      canonicalize_bindings)

lemma roster_hash_eq: "roster_hash E R = Inr (hash_bytes E (cbor_dumps E (roster_to_canonical R)))"
  by (simp add: roster_hash_def roster_bytes_eq)

lemma py_eq_bindings:
  "py_eq (PList (map (\<lambda>(a, pk). PList [PStr a, PBytes pk]) es)) w \<Longrightarrow>
     w = PList (map (\<lambda>(a, pk). PList [PStr a, PBytes pk]) es)"
proof -
  let ?f = "\<lambda>(a, pk). PList [PStr a, PBytes pk]"
  assume "py_eq (PList (map ?f es)) w"
  then obtain ys where w: "w = PList ys" and len: "length es = length ys"
    and all: "\<forall>(x, y) \<in> set (zip (map ?f es) ys). py_eq x y"
    by (auto split: pyval.splits)
  have "map ?f es ! i = ys ! i" if "i < length ys" for i
  proof -
    have "(map ?f es ! i, ys ! i) \<in> set (zip (map ?f es) ys)" using that len by (force simp: in_set_zip)
    with all have "py_eq (map ?f es ! i) (ys ! i)" by auto
    moreover obtain a pk where "es ! i = (a, pk)" by (cases "es ! i")
    ultimately show ?thesis using that len py_eq_scalars [of "[PStr a, PBytes pk]" "ys ! i"] by simp
  qed
  with len w show ?thesis by (simp add: list_eq_iff_nth_eq)
qed

lemma read_bindings:
  "map_res read_binding (map (\<lambda>(a, pk). PList [PStr a, PBytes pk]) es) = Inr (binding_values es)"
  by (induction es) (auto simp: read_binding_def key_check_def)

lemma decode_roster:
  assumes "cbor_spec E" and "roster_ok R"
  shows "roster_from_bytes E (cbor_dumps E (roster_to_canonical R)) = Inr R"
proof -
  have "encodable (roster_to_canonical R)"
    by (auto simp: roster_to_canonical_def list_all_iff)
  then obtain w where w: "canonical_decode E (cbor_dumps E (roster_to_canonical R)) = Inr w"
    and eq: "py_eq (roster_to_canonical R) w"
    using cbor_specD [OF assms(1)] by (auto simp: canonical_decode_def)
  have "\<exists>v'. py_item w ''bindings'' = Inr v' \<and>
      py_eq (PList (map (\<lambda>(a, pk). PList [PStr a, PBytes pk]) (ro_entries R))) v'"
    by (rule py_item_eq [OF eq [unfolded roster_to_canonical_def]]) simp
  then have item: "py_item w ''bindings'' = Inr (PList (map (\<lambda>(a, pk). PList [PStr a, PBytes pk]) (ro_entries R)))"
    using py_eq_bindings by blast
  have "map fst (binding_values (ro_entries R)) = map PStr (map fst (ro_entries R))"
    by (simp add: case_prod_beta comp_def)
  moreover have "distinct (map PStr (map fst (ro_entries R)))"
    using assms(2) unfolding roster_ok_def distinct_map by (simp add: inj_on_def)
  ultimately have "dict_of_items (binding_values (ro_entries R)) = binding_values (ro_entries R)"
    by (simp only: dict_of_items_distinct)
  moreover have "make_roster (binding_values (ro_entries R)) = Inr R"
    using assms(2) by (simp add: make_roster_Inr roster_ok_def)
  ultimately show ?thesis by (simp add: roster_from_bytes_def w item read_bindings)
qed

text \<open>A binding whose key was encoded as the integer 32 is read as a key of 32 zero bytes.\<close>

lemma integer_key_is_zeros:
  "canonical_decode E data = Inr (PDict [(PStr (str ''bindings''), PList [PList [PStr (str ''eve''), PInt 32]])]) \<Longrightarrow>
   roster_from_bytes E data = Inr \<lparr> ro_entries = [(str ''eve'', replicate 32 0)] \<rparr>"
  by (simp add: roster_from_bytes_def read_binding_def key_check_def make_roster_def check_binding_def
      key_sizes dict_of_items_def)

text \<open>A roster survives encoding and decoding, every roster that a decoder or the constructor returns is
  well formed (names distinct and non-empty, keys of 32 bytes), and in a well-formed roster looking a key up
  by name inverts naming a key.\<close>

theorem roster_roundtrip:
  assumes "cbor_spec E"
  shows "(roster_ok R \<longrightarrow> (\<exists>bs. roster_bytes E R = Inr bs \<and> roster_from_bytes E bs = Inr R)) \<and>
    (roster_from_bytes E data = Inr R \<longrightarrow> roster_ok R) \<and>
    (roster_ok R \<and> identify R pk = Some a \<longrightarrow> resolve R a = Some pk) \<and>
    (roster_ok R \<and> resolve R a = Some pk \<longrightarrow> identify R pk \<noteq> None)"
proof (intro conjI impI)
  show "\<exists>bs. roster_bytes E R = Inr bs \<and> roster_from_bytes E bs = Inr R" if "roster_ok R"
    using decode_roster [OF assms that] by (simp add: roster_bytes_eq)
  show "roster_ok R" if "roster_from_bytes E data = Inr R"
    using that make_roster_ok distinct_dict_of_items by (auto simp: roster_from_bytes_def and_then_eq_Inr)
  show "resolve R a = Some pk" if "roster_ok R \<and> identify R pk = Some a"
    using identify_resolve(1) that by blast
  show "identify R pk \<noteq> None" if "roster_ok R \<and> resolve R a = Some pk"
    using identify_resolve(2) that by blast
qed

definition alice_roster :: roster where
  "alice_roster = \<lparr> ro_entries = [(str ''alice'', sample_key), (str ''bob'', replicate 32 8)] \<rparr>"

lemma roster_ok_alice: "roster_ok alice_roster"
  by (simp add: roster_ok_def alice_roster_def sample_key_def)

theorem roster_roundtrip_witness:
  "cbor_spec ref_env \<and> roster_from_bytes ref_env (enc (roster_to_canonical alice_roster)) = Inr alice_roster \<and>
    identify alice_roster (replicate 32 8) = Some (str ''bob'') \<and>
    resolve alice_roster (str ''bob'') = Some (replicate 32 8)"
proof -
  have id: "identify alice_roster (replicate 32 8) = Some (str ''bob'')"
    by (simp add: identify_def alice_roster_def sample_key_def)
  obtain bs where "roster_bytes ref_env alice_roster = Inr bs" "roster_from_bytes ref_env bs = Inr alice_roster"
    and "resolve alice_roster (str ''bob'') = Some (replicate 32 8)"
    using roster_roundtrip [OF ref_env_cbor, of alice_roster "[]" "replicate 32 8" "str ''bob''"] roster_ok_alice id
    by blast
  with id show ?thesis by (simp add: roster_bytes_eq ref_env_cbor)
qed

end
