(* ===== verification/Attestation.thy ===== *)
theory Attestation
  imports Roster
begin

text \<open>
  \<^verbatim>\<open>attestation/attest.py\<close>: the attestation of a single edge (who, intact, bound), the verification of the
  whole log from its Merkle root, the anchor record, and the roster as the first log entry. The functions
  that only read take a \<open>reader\<close>; \<open>commit_roster\<close> writes to the in-process storage.
\<close>

section \<open>Definitions\<close>

record attestation_result =
  at_signer_agent_id :: "pystr option"
  at_signature_valid :: bool
  at_proof_bound :: bool
  at_proof_intact :: bool

definition attestation_ok :: "attestation_result \<Rightarrow> bool" where
  "attestation_ok r \<longleftrightarrow>
     at_signer_agent_id r \<noteq> None \<and> at_signature_valid r \<and> at_proof_bound r \<and> at_proof_intact r"

record anchor_record =
  an_root_hash :: hash
  an_entry_count :: int
  an_timestamp_ns :: int
  an_roster_hash :: hash

definition anchor_to_canonical :: "anchor_record \<Rightarrow> pyval" where
  "anchor_to_canonical a =
     PDict [(PStr (str ''version''), PInt 1),
            (PStr (str ''root_hash''), PBytes (an_root_hash a)),
            (PStr (str ''entry_count''), PInt (an_entry_count a)),
            (PStr (str ''timestamp_ns''), PInt (an_timestamp_ns a)),
            (PStr (str ''roster_hash''), PBytes (an_roster_hash a))]"

definition anchor_bytes :: "env \<Rightarrow> anchor_record \<Rightarrow> bytes res" where
  "anchor_bytes E a = canonical_encode E (anchor_to_canonical a)"

definition anchor_hash :: "env \<Rightarrow> anchor_record \<Rightarrow> hash res" where
  "anchor_hash E a = and_then (anchor_bytes E a) (\<lambda>bs. Inr (hash_bytes E bs))"

text \<open>\<open>range(n)\<close>\<close>

definition py_range :: "int \<Rightarrow> int list" where
  "py_range n = map int [0..<nat n]"

fun find_from :: "reader \<Rightarrow> hash \<Rightarrow> int list \<Rightarrow> log_entry option res" where
  "find_from storage h [] = Inr None"
| "find_from storage h (i # is) =
     and_then (rd_log_get storage i) (\<lambda>entry.
       case entry of
         None \<Rightarrow> Inl AttributeError
       | Some r \<Rightarrow> if le_entry_hash r = h then Inr (Some r) else find_from storage h is)"

definition find_log_entry :: "reader \<Rightarrow> hash \<Rightarrow> log_entry option res" where
  "find_log_entry storage h = and_then (rd_log_len storage) (\<lambda>n. find_from storage h (py_range n))"

definition verify_edge_attestation :: "env \<Rightarrow> edge \<Rightarrow> reader \<Rightarrow> roster \<Rightarrow> attestation_result res" where
  "verify_edge_attestation E e storage R =
     (let signer_agent_id = identify R (e_signer_pubkey e) in
      and_then (edge_hash E e) (\<lambda>eh.
      and_then (find_log_entry storage eh) (\<lambda>entry.
      and_then (case entry of None \<Rightarrow> Inr False | Some r \<Rightarrow> verify_entry E r) (\<lambda>signature_valid.
      and_then
        (case e_proof_hash e of
           None \<Rightarrow> Inr (True, True)
         | Some ph \<Rightarrow>
             and_then (rd_get storage ph) (\<lambda>data.
               Inr (data \<noteq> None, (case data of None \<Rightarrow> False | Some b \<Rightarrow> hash_bytes E b = ph))))
        (\<lambda>(proof_bound, proof_intact).
          Inr \<lparr> at_signer_agent_id = signer_agent_id, at_signature_valid = signature_valid,
                at_proof_bound = proof_bound, at_proof_intact = proof_intact \<rparr>)))))"

text \<open>The walk over the log: \<open>None\<close> where the code returns \<open>False\<close>, else the hashes it collected.\<close>

fun history_loop :: "env \<Rightarrow> reader \<Rightarrow> int list \<Rightarrow> hash \<Rightarrow> hash list \<Rightarrow> hash list option res" where
  "history_loop E storage [] prev hs = Inr (Some hs)"
| "history_loop E storage (i # is) prev hs =
     and_then (rd_log_get storage i) (\<lambda>entry.
       case entry of
         None \<Rightarrow> Inr None
       | Some r \<Rightarrow>
           and_then (verify_entry E r) (\<lambda>ok.
             if \<not> ok then Inr None
             else if le_prev_log_hash r \<noteq> prev then Inr None
             else history_loop E storage is (le_entry_hash r) (hs @ [le_entry_hash r])))"

definition verify_history :: "env \<Rightarrow> reader \<Rightarrow> hash \<Rightarrow> bool res" where
  "verify_history E storage trusted_root =
     and_then (rd_log_len storage) (\<lambda>n.
     and_then (Hash GENESIS_PREV_HASH) (\<lambda>prev.
     and_then (history_loop E storage (py_range n) prev []) (\<lambda>walked.
       case walked of None \<Rightarrow> Inr False | Some hs \<Rightarrow> Inr (root_hash E hs = trusted_root))))"

definition anchor :: "env \<Rightarrow> int \<Rightarrow> reader \<Rightarrow> roster \<Rightarrow> anchor_record res" where
  "anchor E now storage R =
     and_then (rd_log_root storage) (\<lambda>root.
     and_then (rd_log_len storage) (\<lambda>n.
     and_then (roster_hash E R) (\<lambda>rh.
       Inr \<lparr> an_root_hash = root, an_entry_count = n, an_timestamp_ns = now, an_roster_hash = rh \<rparr>)))"

definition commit_roster ::
    "env \<Rightarrow> int \<Rightarrow> roster \<Rightarrow> storage \<Rightarrow> storage \<times> log_entry option res" where
  "commit_roster E now R s =
     (if log_len (st_conn s) = 0 then
        (case roster_bytes E R of
           Inl e \<Rightarrow> (s, Inl e)
         | Inr data \<Rightarrow>
             (case log_append False E (st_priv s) (st_pub s) now data (st_conn s) of
                (c, Inl e) \<Rightarrow> (s\<lparr>st_conn := c\<rparr>, Inl e)
              | (c, Inr entry) \<Rightarrow> (s\<lparr>st_conn := c\<rparr>, Inr (Some entry))))
      else
        (s, and_then (log_get (st_conn s) 0) (\<lambda>entry0.
              case entry0 of
                None \<Rightarrow> Inr None
              | Some r \<Rightarrow>
                  and_then (roster_hash E R) (\<lambda>rh. Inr (if le_entry_hash r = rh then Some r else None)))))"

section \<open>Finding an entry\<close>

lemma log_get_row:
  assumes "log_get c i = Inr (Some r)"
  shows "r \<in> set (t_log (view c)) \<and> le_seq r = i \<and> length (le_entry_hash r) = 34"
proof -
  from assms obtain row where row: "select_row (view c) i = Some row"
    and r: "r = row" and "length (le_entry_hash row) = 34"
    by (auto simp: log_get_def and_then_eq_Inr Hash_eq_Inr split: option.splits)
  with row show ?thesis by (auto simp: select_row_def find_Some_iff)
qed

lemma find_from_Some:
  "find_from storage h is = Inr (Some r) \<Longrightarrow>
     le_entry_hash r = h \<and> (\<exists>i \<in> set is. rd_log_get storage i = Inr (Some r))"
  by (induction "is") (auto simp: and_then_eq_Inr split: option.splits if_splits)

lemma find_from_first:
  assumes "\<And>i. i \<in> set is \<Longrightarrow> \<exists>r. rd_log_get storage i = Inr (Some r)"
    and "j \<in> set is" and "rd_log_get storage j = Inr (Some r)" and "le_entry_hash r = h"
  shows "\<exists>r'. find_from storage h is = Inr (Some r')"
  using assms(1,2)
proof (induction "is")
  case (Cons i "is")
  obtain q where q: "rd_log_get storage i = Inr (Some q)" using Cons.prems(1) by auto
  show ?case
  proof (cases "le_entry_hash q = h")
    case False
    then have "j \<in> set is" using Cons.prems(2) q assms(3,4) by auto
    with Cons.IH Cons.prems(1) q False show ?thesis by simp
  qed (simp add: q)
qed simp

lemma set_py_range [simp]: "set (py_range n) = {0..<n}"
proof
  show "{0..<n} \<subseteq> set (py_range n)"
  proof
    fix x assume "x \<in> {0..<n}"
    then have "x = int (nat x)" "nat x \<in> set [0..<nat n]" by auto
    then show "x \<in> set (py_range n)" unfolding py_range_def by (metis image_eqI set_map)
  qed
qed (auto simp: py_range_def)

text \<open>In a consistent log the search succeeds exactly when a payload has the address.\<close>

lemma find_log_entry_ok:
  assumes "blake3_spec E" and "log_ok E (view (st_conn s))" and "r \<in> set (t_log (view (st_conn s)))"
  shows "\<exists>r'. find_log_entry (sqlite_reader E s) (le_entry_hash r) = Inr (Some r') \<and>
    verify_entry E r' = Inr True \<and> le_entry_hash r' = le_entry_hash r"
proof -
  let ?rows = "t_log (view (st_conn s))"
  obtain i where i: "i < length ?rows" "r = ?rows ! i" using assms(3) by (metis in_set_conv_nth)
  have got: "\<exists>q. rd_log_get (sqlite_reader E s) j = Inr (Some q)" if "j \<in> set (py_range (log_len (st_conn s)))" for j
    using that by (simp add: log_get_eq [OF assms(1,2)] log_len_def)
  have "\<exists>r'. find_from (sqlite_reader E s) (le_entry_hash r) (py_range (log_len (st_conn s))) = Inr (Some r')"
    by (rule find_from_first [OF got, of _ "int i" r])
      (use i in \<open>simp_all add: log_get_eq [OF assms(1,2)] log_len_def\<close>)
  then obtain r' where r': "find_from (sqlite_reader E s) (le_entry_hash r) (py_range (log_len (st_conn s))) = Inr (Some r')"
    by blast
  from find_from_Some [OF this] have "r' \<in> set ?rows" "le_entry_hash r' = le_entry_hash r"
    using log_get_row by auto
  with r' log_ok_entry [OF assms(2)] show ?thesis by (auto simp: find_log_entry_def)
qed

section \<open>Walking the log\<close>

lemma py_range_int: "py_range (int n) = map int [0..<n]"
  by (simp add: py_range_def)

lemma history_loop_iff:
  "history_loop E (sqlite_reader E s) (map int [k..<k + m]) prev hs = Inr (Some hs') \<longleftrightarrow>
     (\<exists>rs. list_all2 (\<lambda>i r. log_get (st_conn s) i = Inr (Some r)) (map int [k..<k + m]) rs \<and>
        chain E (int k) prev rs \<and> hs' = hs @ map le_entry_hash rs)"
proof (induction m arbitrary: k prev hs)
  case 0
  then show ?case by auto
next
  case (Suc m)
  have up: "map int [k..<k + Suc m] = int k # map int [Suc k..<Suc k + m]"
    by (simp add: upt_conv_Cons del: upt_Suc)
  show ?case
  proof (cases "log_get (st_conn s) (int k)")
    case (Inr e)
    show ?thesis
    proof (cases e)
      case (Some r)
      have "le_seq r = int k" using log_get_row Inr Some by blast
      let ?is = "map int [Suc k..<Suc k + m]" and ?hs = "hs @ [le_entry_hash r]"
      let ?got = "\<lambda>i r. log_get (st_conn s) i = Inr (Some r)"
      have "history_loop E (sqlite_reader E s) (int k # ?is) prev hs = Inr (Some hs') \<longleftrightarrow>
          verify_entry E r = Inr True \<and> le_prev_log_hash r = prev \<and>
          history_loop E (sqlite_reader E s) ?is (le_entry_hash r) ?hs = Inr (Some hs')"
        by (cases "verify_entry E r") (simp_all add: Inr Some)
      also have "\<dots> \<longleftrightarrow> verify_entry E r = Inr True \<and> le_prev_log_hash r = prev \<and>
          (\<exists>rs. list_all2 ?got ?is rs \<and> chain E (int k + 1) (le_entry_hash r) rs \<and> hs' = ?hs @ map le_entry_hash rs)"
        unfolding Suc.IH by (simp add: add.commute)
      also have "\<dots> \<longleftrightarrow> (\<exists>rs. list_all2 ?got (int k # ?is) rs \<and> chain E (int k) prev rs \<and>
          hs' = hs @ map le_entry_hash rs)"
        unfolding list_all2_Cons1 using \<open>le_seq r = int k\<close> by (auto simp: Inr Some)
      finally show ?thesis unfolding up .
    qed (simp only: up history_loop.simps list_all2_Cons1, use Inr in simp)
  qed (simp only: up history_loop.simps list_all2_Cons1, simp)
qed

lemma chain_hash34:
  assumes "blake3_spec E" and "chain E n prev rs" and "r \<in> set rs"
  shows "le_entry_hash r = hash_bytes E (le_payload r)" and "length (le_entry_hash r) = 34"
proof -
  obtain i where "i < length rs" "r = rs ! i" using assms(3) by (metis in_set_conv_nth)
  then have "verify_entry E r = Inr True" using chain_nth [OF assms(2)] by blast
  then show "le_entry_hash r = hash_bytes E (le_payload r)" by (rule verify_entry_hash)
  then show "length (le_entry_hash r) = 34" by (simp add: length_hash_bytes assms(1))
qed

lemma find_distinct_key:
  "distinct (map f xs) \<Longrightarrow> find (\<lambda>x. f x = k) xs = Some x \<longleftrightarrow> x \<in> set xs \<and> f x = k"
  by (induction xs) (auto simp: image_iff)

text \<open>The rows of the table in the order of their sequence numbers.\<close>

abbreviation rows_in_order :: "storage \<Rightarrow> log_entry list" where
  "rows_in_order s \<equiv> sort_key le_seq (t_log (view (st_conn s)))"

lemma walk_is_table:
  assumes "distinct (map le_seq (t_log (view (st_conn s))))"
    and "list_all2 (\<lambda>i r. log_get (st_conn s) i = Inr (Some r)) (map int [0..<length (t_log (view (st_conn s)))]) rs"
  shows "rows_in_order s = rs"
proof -
  let ?rows = "t_log (view (st_conn s))"
  have len: "length rs = length ?rows" using list_all2_lengthD [OF assms(2)] by simp
  have nth: "rs ! i \<in> set ?rows \<and> le_seq (rs ! i) = int i" if "i < length rs" for i
    using list_all2_nthD [OF assms(2), of i] that len log_get_row by simp
  have seqs: "map le_seq rs = map int [0..<length rs]" by (rule nth_equalityI) (simp_all add: nth)
  then have dist: "distinct (map le_seq rs)" by (simp add: distinct_map)
  have dists: "distinct rs" "distinct ?rows" using dist assms(1) by (simp_all only: distinct_map)
  have "set rs \<subseteq> set ?rows" using nth by (auto simp: in_set_conv_nth)
  moreover have "card (set rs) = card (set ?rows)"
    by (simp add: distinct_card dists len)
  ultimately have set: "set rs = set ?rows" by (simp add: card_subset_eq)
  have "mset rs = mset ?rows"
    using set dists by (simp add: set_eq_iff_mset_eq_distinct)
  moreover have "inj_on le_seq (set ?rows)" using assms(1) by (simp add: distinct_map)
  ultimately have "sort_key le_seq ?rows = sort_key le_seq rs" by (intro sort_key_mset_inj)
  moreover have "sorted (map le_seq rs)" unfolding seqs by (simp add: sorted_iff_nth_mono)
  ultimately show ?thesis by (simp add: sort_key_id_if_sorted)
qed

lemma table_is_walk:
  assumes "blake3_spec E" and "distinct (map le_seq (t_log (view (st_conn s))))"
    and "chain E 0 GENESIS_PREV_HASH (rows_in_order s)"
  shows "list_all2 (\<lambda>i r. log_get (st_conn s) i = Inr (Some r))
    (map int [0..<length (t_log (view (st_conn s)))]) (rows_in_order s)"
proof (rule list_all2_all_nthI)
  let ?rows = "t_log (view (st_conn s))" and ?rs = "rows_in_order s"
  fix i
  assume "i < length (map int [0..<length ?rows])"
  then have i: "i < length ?rs" by simp
  have mem: "?rs ! i \<in> set ?rows" using nth_mem [OF i] by simp
  have seq: "le_seq (?rs ! i) = int i" and prev: "le_prev_log_hash (?rs ! i) =
      (if i = 0 then GENESIS_PREV_HASH else le_entry_hash (?rs ! (i - 1)))"
    using chain_nth [OF assms(3) i] by auto
  have eh: "length (le_entry_hash (?rs ! j)) = 34" if "j < length ?rs" for j
    using chain_hash34(2) [OF assms(1,3) nth_mem [OF that]] .
  have "length (le_prev_log_hash (?rs ! i)) = 34"
    using prev eh i by (auto simp: GENESIS_PREV_HASH_def)
  moreover have "select_row (view (st_conn s)) (int i) = Some (?rs ! i)"
    unfolding select_row_def find_distinct_key [OF assms(2)] using mem seq by simp
  ultimately show "log_get (st_conn s) (map int [0..<length ?rows] ! i) = Inr (Some (?rs ! i))"
    using eh [OF i] i by (simp add: log_get_def Hash_def HASH_SIZE_def)
qed simp

lemma verify_history_iff:
  assumes "blake3_spec E" and "distinct (map le_seq (t_log (view (st_conn s))))"
  shows "verify_history E (sqlite_reader E s) trusted = Inr True \<longleftrightarrow>
    chain E 0 GENESIS_PREV_HASH (rows_in_order s) \<and>
    trusted = root_hash E (map (\<lambda>r. hash_bytes E (le_payload r)) (rows_in_order s))"
proof -
  let ?n = "length (t_log (view (st_conn s)))"
  let ?got = "\<lambda>rs. list_all2 (\<lambda>i r. log_get (st_conn s) i = Inr (Some r)) (map int [0..<?n]) rs"
  have genesis: "Hash GENESIS_PREV_HASH = Inr GENESIS_PREV_HASH"
    by (simp add: Hash_def HASH_SIZE_def GENESIS_PREV_HASH_def)
  have hashes: "map (\<lambda>r. hash_bytes E (le_payload r)) rs = map le_entry_hash rs"
    if "chain E 0 GENESIS_PREV_HASH rs" for rs
    using chain_hash34(1) [OF assms(1) that] by simp
  have "verify_history E (sqlite_reader E s) trusted = Inr True \<longleftrightarrow>
      (\<exists>hs. history_loop E (sqlite_reader E s) (map int [0..<?n]) GENESIS_PREV_HASH [] = Inr (Some hs) \<and>
        root_hash E hs = trusted)"
    by (auto simp: verify_history_def and_then_eq_Inr genesis log_len_def py_range_int split: option.splits)
  also have "\<dots> \<longleftrightarrow> (\<exists>rs. ?got rs \<and> chain E 0 GENESIS_PREV_HASH rs \<and> root_hash E (map le_entry_hash rs) = trusted)"
    using history_loop_iff [of E s 0 ?n GENESIS_PREV_HASH "[]"] by auto
  also have "\<dots> \<longleftrightarrow> chain E 0 GENESIS_PREV_HASH (rows_in_order s) \<and>
      root_hash E (map le_entry_hash (rows_in_order s)) = trusted"
    using walk_is_table [OF assms(2)] table_is_walk [OF assms] by blast
  finally have "verify_history E (sqlite_reader E s) trusted = Inr True \<longleftrightarrow>
      chain E 0 GENESIS_PREV_HASH (rows_in_order s) \<and> root_hash E (map le_entry_hash (rows_in_order s)) = trusted" .
  then show ?thesis using hashes [of "rows_in_order s"] by metis
qed

section \<open>What the trusted root binds\<close>

lemma root_of_payloads:
  assumes "blake3_spec E" and "length ps = length qs"
    and "collision_free E (tree_inputs E (map (hash_bytes E) ps) \<union> tree_inputs E (map (hash_bytes E) qs))"
    and "collision_free E (set ps \<union> set qs)"
    and "root_hash E (map (hash_bytes E) ps) = root_hash E (map (hash_bytes E) qs)"
  shows "ps = qs"
proof -
  have "map (hash_bytes E) ps = map (hash_bytes E) qs"
    by (rule root_hash_binding [OF assms(1,3) _ assms(5)]) (simp add: assms(2))
  moreover have "inj_on (hash_bytes E) (set ps \<union> set qs)"
    using assms(4) by (simp add: collision_free_def)
  ultimately show ?thesis by (rule map_inj_on)
qed

text \<open>C20: what an external party learns from a history that verifies against a trusted root: the table holds
  the sequence numbers from zero without a gap, every entry verifies and links to the one before, and if
  the root is that of a history of the same length, the payloads are that history's, in its order. No
  assumption is made on the table but the uniqueness of its primary key, so tampering with a payload, the
  order or a link is detected.\<close>

theorem history_binds_payloads:
  assumes "blake3_spec E" and "distinct (map le_seq (t_log (view (st_conn s))))"
    and "verify_history E (sqlite_reader E s) (root_hash E (map (hash_bytes E) ps)) = Inr True"
    and "length ps = length (t_log (view (st_conn s)))"
    and "collision_free E (set ps \<union> le_payload ` set (t_log (view (st_conn s))))"
    and "collision_free E (tree_inputs E (map (hash_bytes E) ps) \<union>
      tree_inputs E (map (\<lambda>r. hash_bytes E (le_payload r)) (rows_in_order s)))"
  shows "map le_payload (rows_in_order s) = ps \<and>
    map le_seq (rows_in_order s) = map int [0..<length ps] \<and>
    (\<forall>i < length ps. verify_entry E (rows_in_order s ! i) = Inr True \<and>
       le_prev_log_hash (rows_in_order s ! i) =
         (if i = 0 then GENESIS_PREV_HASH else hash_bytes E (ps ! (i - 1))))"
proof -
  let ?rs = "rows_in_order s"
  have ch: "chain E 0 GENESIS_PREV_HASH ?rs"
    and eq: "root_hash E (map (hash_bytes E) ps) = root_hash E (map (hash_bytes E) (map le_payload ?rs))"
    using verify_history_iff [OF assms(1,2)] assms(3) by (simp_all add: comp_def)
  have "collision_free E (set ps \<union> set (map le_payload ?rs))" using assms(5) by simp
  then have ps: "ps = map le_payload ?rs"
    using root_of_payloads [OF assms(1) _ _ _ eq] assms(4,6) by (simp add: comp_def)
  have len: "length ?rs = length ps" by (simp add: assms(4))
  have "map le_seq ?rs = map int [0..<length ps]"
    by (rule nth_equalityI) (use chain_nth [OF ch] len in auto)
  moreover have "verify_entry E (?rs ! i) = Inr True \<and>
      le_prev_log_hash (?rs ! i) = (if i = 0 then GENESIS_PREV_HASH else hash_bytes E (ps ! (i - 1)))"
    if i: "i < length ps" for i
    using chain_nth [OF ch, of i] chain_hash34(1) [OF assms(1) ch nth_mem, of "i - 1"] i len
    by (simp add: ps)
  ultimately show ?thesis using ps by simp
qed

text \<open>A history rebuilt from payloads with some key.\<close>

definition resigned :: "env \<Rightarrow> bytes \<Rightarrow> bytes list \<Rightarrow> storage \<Rightarrow> storage" where
  "resigned E priv payloads s =
     s\<lparr>st_conn := append_run False E priv (map (\<lambda>p. (0, p)) payloads) (connect True None)\<rparr>"

lemma append_run_signer:
  assumes "blake3_spec E" and "ed25519_spec E" and "length priv = 32" and "log_ok E (view c)"
  shows "\<forall>r \<in> set (t_log (view (append_run owns E priv ops c))).
    r \<in> set (t_log (view c)) \<or> le_signer_pubkey r = ed_public E priv"
  using assms(4)
proof (induction ops arbitrary: c)
  case (Cons op ops)
  obtain now x where op: "op = (now, x)" by (cases op)
  obtain r where app: "log_append owns E priv (ed_public E priv) now x c =
      (commit_if_owned owns (exec_dml (ins_log r) c), Inr r)"
    and signer: "le_signer_pubkey r = ed_public E priv" and ok: "log_ok E (ins_log r (view c))"
    by (rule log_append_ok [OF assms(1-3) Cons.prems, of owns now x]) blast
  have view: "view (commit_if_owned owns (exec_dml (ins_log r) c)) = ins_log r (view c)"
    by (simp add: commit_if_owned_def conn_simps)
  show ?case
    using Cons.IH [of "commit_if_owned owns (exec_dml (ins_log r) c)"] ok signer
    by (auto simp: append_run_def op app view ins_log_def)
qed (simp add: append_run_def)

lemma resigned_ok:
  assumes "blake3_spec E" and "ed25519_spec E" and "length priv = 32"
  shows "map le_payload (t_log (view (st_conn (resigned E priv ps s)))) = ps"
    and "\<forall>r \<in> set (t_log (view (st_conn (resigned E priv ps s)))). le_signer_pubkey r = ed_public E priv"
    and "verify_history E (sqlite_reader E (resigned E priv ps s)) (root_hash E (map (hash_bytes E) ps)) = Inr True"
proof -
  let ?c = "append_run False E priv (map (\<lambda>p. (0, p)) ps) (connect True None)"
  have ok: "log_ok E (view ?c)" by (rule append_run_ok(1) [OF assms])
  have pay: "map le_payload (t_log (view ?c)) = ps"
    using append_run_ok(2) [OF assms, of False "map (\<lambda>p. (0, p)) ps" True] by (simp add: comp_def)
  then show "map le_payload (t_log (view (st_conn (resigned E priv ps s)))) = ps" by (simp add: resigned_def)
  show "\<forall>r \<in> set (t_log (view (st_conn (resigned E priv ps s)))). le_signer_pubkey r = ed_public E priv"
    using append_run_signer [OF assms, of "connect True None" False]
    by (simp add: resigned_def) (simp add: empty_db_def)
  have sorted: "sort_key le_seq (t_log (view ?c)) = t_log (view ?c)" by (rule sort_log [OF ok])
  have "distinct (map le_seq (t_log (view ?c)))"
    using log_ok_seq [OF ok] by (auto simp: distinct_conv_nth)
  then show "verify_history E (sqlite_reader E (resigned E priv ps s)) (root_hash E (map (hash_bytes E) ps)) = Inr True"
    using verify_history_iff [OF assms(1), of "resigned E priv ps s"] ok pay
    by (simp add: resigned_def sorted log_ok_def flip: map_map [unfolded comp_def])
qed

text \<open>The root commits to the payloads only: whoever holds any key can rebuild an accepted history with
  every entry signed by that key, and an accepted history of odd length (three or more) is still accepted
  against the same root with its last payload appended once more.\<close>

theorem history_trusts_any_signer:
  assumes "blake3_spec E" and "ed25519_spec E" and "length priv = 32"
    and "distinct (map le_seq (t_log (view (st_conn s))))"
    and "verify_history E (sqlite_reader E s) trusted = Inr True"
    and "ps = map le_payload (rows_in_order s)"
  shows "(\<exists>s'. verify_history E (sqlite_reader E s') trusted = Inr True \<and>
      map le_payload (t_log (view (st_conn s'))) = ps \<and>
      (\<forall>r \<in> set (t_log (view (st_conn s'))). le_signer_pubkey r = ed_public E priv)) \<and>
    (odd (length ps) \<and> 1 < length ps \<longrightarrow>
      (\<exists>s'. verify_history E (sqlite_reader E s') trusted = Inr True \<and>
         map le_payload (t_log (view (st_conn s'))) = ps @ [last ps]))"
proof -
  have trusted: "trusted = root_hash E (map (hash_bytes E) ps)"
    using verify_history_iff [OF assms(1,4)] assms(5) by (simp add: assms(6) comp_def)
  have "root_hash E (map (hash_bytes E) (ps @ [last ps])) = trusted" if "odd (length ps)" "1 < length ps"
  proof -
    have "ps \<noteq> []" using that(2) by auto
    then show ?thesis
      using root_hash_duplicate_last [of "map (hash_bytes E) ps" E] that by (simp add: trusted last_map)
  qed
  then show ?thesis using resigned_ok [OF assms(1-3)] trusted by metis
qed

definition three_payloads :: "bytes list" where
  "three_payloads = [[1], [2], [3]]"

definition signed_history :: storage where
  "signed_history = resigned ref_env sample_key three_payloads sample_storage"

lemma signed_history_rows:
  "rows_in_order signed_history = t_log (view (st_conn signed_history))"
  "distinct (map le_seq (t_log (view (st_conn signed_history))))"
proof -
  have ok: "log_ok ref_env (view (st_conn signed_history))"
    using append_run_ok(1) [OF ref_env_blake3 ref_env_ed25519, of sample_key]
    by (simp add: signed_history_def resigned_def sample_key_def)
  show "rows_in_order signed_history = t_log (view (st_conn signed_history))" by (rule sort_log [OF ok])
  show "distinct (map le_seq (t_log (view (st_conn signed_history))))"
    using log_ok_seq [OF ok] by (auto simp: distinct_conv_nth)
qed

lemma signed_history_accepted:
  "map le_payload (t_log (view (st_conn signed_history))) = three_payloads"
  "verify_history ref_env (sqlite_reader ref_env signed_history)
    (root_hash ref_env (map (hash_bytes ref_env) three_payloads)) = Inr True"
  using resigned_ok(1,3) [OF ref_env_blake3 ref_env_ed25519, of sample_key]
  by (simp_all add: signed_history_def sample_key_def)

theorem history_binds_payloads_witness:
  "map le_payload (rows_in_order signed_history) = [[1], [2], [3]]"
proof -
  have pay: "map le_payload (rows_in_order signed_history) = three_payloads"
    by (simp add: signed_history_rows(1) signed_history_accepted)
  have len: "length three_payloads = length (t_log (view (st_conn signed_history)))"
    using arg_cong [OF signed_history_accepted(1), of length] by simp
  have hashes: "map (\<lambda>r. hash_bytes ref_env (le_payload r)) (rows_in_order signed_history) =
      map (hash_bytes ref_env) three_payloads"
    using arg_cong [OF pay, of "map (hash_bytes ref_env)"] by (simp add: comp_def)
  have "le_payload ` set (t_log (view (st_conn signed_history))) = set three_payloads"
    using arg_cong [OF signed_history_accepted(1), of set] by simp
  then have cf: "collision_free ref_env (set three_payloads \<union> le_payload ` set (t_log (view (st_conn signed_history))))"
    using collision_free_listI [of ref_env three_payloads] by simp (simp add: three_payloads_def, code_simp)
  have "collision_free ref_env (tree_inputs ref_env (map (hash_bytes ref_env) three_payloads) \<union>
      tree_inputs ref_env (map (hash_bytes ref_env) three_payloads))"
    unfolding tree_inputs_list Un_absorb
    by (rule collision_free_listI) code_simp
  then show ?thesis
    using history_binds_payloads [OF ref_env_blake3 signed_history_rows(2) signed_history_accepted(2) len cf]
    unfolding hashes by (simp add: three_payloads_def)
qed

theorem history_trusts_any_signer_witness:
  "\<exists>s'. verify_history ref_env (sqlite_reader ref_env s')
      (root_hash ref_env (map (hash_bytes ref_env) three_payloads)) = Inr True \<and>
    map le_payload (t_log (view (st_conn s'))) = [[1], [2], [3], [3]]"
  using history_trusts_any_signer [OF ref_env_blake3 ref_env_ed25519 _ signed_history_rows(2)
      signed_history_accepted(2) refl, of sample_key]
  by (simp add: signed_history_rows(1) signed_history_accepted(1) sample_key_def) (simp add: three_payloads_def)

text \<open>An entry whose key or signature has the wrong size makes the verification raise instead of fail.\<close>

lemma malformed_entry_raises:
  assumes "log_get (st_conn s) 0 = Inr (Some r)" and "t_log (view (st_conn s)) \<noteq> []"
    and "hash_bytes E (le_payload r) = le_entry_hash r"
    and "length (le_signer_pubkey r) \<noteq> 32 \<or> length (le_signature r) \<noteq> 64"
  shows "verify_history E (sqlite_reader E s) trusted = Inl ValueError"
proof -
  have "verify_entry E r = Inl ValueError"
    using assms(3,4) by (auto simp: verify_entry_def signature_message_ok verify_sig_def key_sizes)
  moreover obtain "is" where "py_range (log_len (st_conn s)) = 0 # is"
    using assms(2) by (cases "t_log (view (st_conn s))") (simp_all add: py_range_def log_len_def upt_conv_Cons nat_add_distrib del: upt_Suc)
  moreover have "Hash GENESIS_PREV_HASH = Inr GENESIS_PREV_HASH"
    by (simp add: Hash_def HASH_SIZE_def GENESIS_PREV_HASH_def)
  ultimately show ?thesis using assms(1) by (simp add: verify_history_def)
qed

section \<open>The attestation of an edge\<close>

definition proof_found :: "env \<Rightarrow> storage \<Rightarrow> edge \<Rightarrow> bool" where
  "proof_found E s e \<longleftrightarrow>
     (\<forall>ph. e_proof_hash e = Some ph \<longrightarrow> (\<exists>b. get (st_objects s) ph = Some b \<and> hash_bytes E b = ph))"

lemma verify_edge_attestation_sqlite:
  assumes "verify_edge_attestation E e (sqlite_reader E s) R = Inr a"
  obtains entry where "find_log_entry (sqlite_reader E s) (hash_bytes E (edge_blob E e)) = Inr entry"
    and "(case entry of None \<Rightarrow> Inr False | Some r \<Rightarrow> verify_entry E r) = Inr (at_signature_valid a)"
    and "at_signer_agent_id a = identify R (e_signer_pubkey e)"
    and "at_proof_bound a \<and> at_proof_intact a \<longleftrightarrow> proof_found E s e"
proof (cases "e_proof_hash e")
  case None
  then show ?thesis using assms that
    by (auto simp: verify_edge_attestation_def Let_def edge_hash_eq and_then_eq_Inr proof_found_def)
next
  case (Some ph)
  then show ?thesis using assms that
    by (auto simp: verify_edge_attestation_def Let_def edge_hash_eq and_then_eq_Inr proof_found_def)
      (auto split: option.splits)
qed

lemma verify_edge_attestation_total:
  assumes "find_log_entry (sqlite_reader E s) (hash_bytes E (edge_blob E e)) = Inr (Some r)"
    and "verify_entry E r = Inr ok"
  shows "\<exists>a. verify_edge_attestation E e (sqlite_reader E s) R = Inr a \<and> at_signature_valid a = ok \<and>
    at_signer_agent_id a = identify R (e_signer_pubkey e) \<and>
    (at_proof_bound a \<and> at_proof_intact a \<longleftrightarrow> proof_found E s e)"
  using assms
  by (cases "e_proof_hash e")
    (auto simp: verify_edge_attestation_def Let_def edge_hash_eq proof_found_def split: option.splits)

text \<open>C21: an attestation that is in order means what it says: the edge's signer is bound to the reported name,
  the log holds an entry under the edge's address that verifies and whose payload is the edge, and the proof
  is stored under its address. It says nothing of the entry's own key, which is not compared with the
  edge's.\<close>

theorem attestation_sound:
  assumes "verify_edge_attestation E e (sqlite_reader E s) R = Inr a" and "attestation_ok a"
    and "collision_free E (insert (edge_blob E e) (le_payload ` set (t_log (view (st_conn s)))))"
  shows "\<exists>name r. at_signer_agent_id a = Some name \<and> (name, e_signer_pubkey e) \<in> set (ro_entries R) \<and>
    r \<in> set (t_log (view (st_conn s))) \<and> le_payload r = edge_blob E e \<and> verify_entry E r = Inr True \<and>
    (\<forall>ph. e_proof_hash e = Some ph \<longrightarrow> (\<exists>b. get (st_objects s) ph = Some b \<and> hash_bytes E b = ph))"
proof -
  obtain entry where entry: "find_log_entry (sqlite_reader E s) (hash_bytes E (edge_blob E e)) = Inr entry"
    and sig: "(case entry of None \<Rightarrow> Inr False | Some r \<Rightarrow> verify_entry E r) = Inr (at_signature_valid a)"
    and name: "at_signer_agent_id a = identify R (e_signer_pubkey e)"
    and bound: "at_proof_bound a \<and> at_proof_intact a \<longleftrightarrow> proof_found E s e"
    using verify_edge_attestation_sqlite [OF assms(1)] .
  from sig assms(2) obtain r where r: "entry = Some r" "verify_entry E r = Inr True"
    by (auto simp: attestation_ok_def split: option.splits)
  have "find_from (sqlite_reader E s) (hash_bytes E (edge_blob E e)) (py_range (log_len (st_conn s))) = Inr (Some r)"
    using entry r by (simp add: find_log_entry_def)
  from find_from_Some [OF this] have found: "le_entry_hash r = hash_bytes E (edge_blob E e)"
    "r \<in> set (t_log (view (st_conn s)))" using log_get_row by auto
  have "hash_bytes E (le_payload r) = hash_bytes E (edge_blob E e)"
    by (rule trans [OF verify_entry_hash [OF r(2), symmetric] found(1)])
  then have "le_payload r = edge_blob E e"
    by (rule collision_freeD [OF assms(3)]) (use found(2) in blast)+
  moreover obtain nm where nm: "at_signer_agent_id a = Some nm" and "identify R (e_signer_pubkey e) = Some nm"
    using assms(2) name unfolding attestation_ok_def by force
  moreover have "(nm, e_signer_pubkey e) \<in> set (ro_entries R)"
    using \<open>identify R (e_signer_pubkey e) = Some nm\<close> nth_mem
    by (fastforce simp: identify_def find_Some_iff)
  moreover have "proof_found E s e" using bound assms(2) unfolding attestation_ok_def by blast
  ultimately show ?thesis using r(2) found(2) unfolding proof_found_def by blast
qed

lemma log_append_signer:
  assumes "log_append owns E priv pub now d c = (c', Inr r)"
  shows "le_signer_pubkey r = pub"
proof (cases "new_entry E priv pub now d (view c)")
  case (Inr r')
  then have "le_signer_pubkey r' = pub" by (auto simp: new_entry_def Let_def and_then_eq_Inr)
  with Inr assms show ?thesis by (simp add: log_append_def split: if_splits)
qed (use assms in \<open>simp add: log_append_def\<close>)

lemma commit_signer:
  assumes "commit_edge_tx E now ps c data p s = (s', Inr (eh, r))"
  shows "le_signer_pubkey r = st_pub s"
proof (cases "begin_immediate (st_conn (put_optional E p (put_blob E data s)))")
  case (Inr con)
  obtain c' res where app: "log_append False E (st_priv s) (st_pub s) now data
      (register_edge False (hash_bytes E data) ps c con) = (c', res)"
    by (cases "log_append False E (st_priv s) (st_pub s) now data
      (register_edge False (hash_bytes E data) ps c con)")
  with Inr assms have "res = Inr r"
    by (cases res) (simp_all add: commit_edge_tx_def Let_def)
  with app log_append_signer show ?thesis by blast
qed (use assms in \<open>simp add: commit_edge_tx_def Let_def\<close>)

lemma st_pub_put_all [simp]: "st_pub (put_all E ns s) = st_pub s"
  by (induction ns arbitrary: s) (simp_all add: put_blob_def)

lemma store_edge_signer:
  assumes "store_edge E now prems c p r e s = Some (s', Inr res)" and "cm_log_entry res = Some entry"
  shows "le_signer_pubkey entry = st_pub s"
proof -
  obtain s2 out where run: "commit_edge_tx E now (e_premises e) (e_conclusion e) (edge_blob E e) p
      (put_all E (prems @ [c]) s) = (s2, out)"
    by (cases "commit_edge_tx E now (e_premises e) (e_conclusion e) (edge_blob E e) p (put_all E (prems @ [c]) s)")
  obtain eh where "out = Inr (eh, entry)"
    using assms run unfolding store_edge_def put_nodes_eq edge_bytes_eq
    by (auto simp: failed_def split: sum.splits)
  with commit_signer run show ?thesis by (metis st_pub_put_all)
qed

lemma attested_commit:
  assumes "blake3_spec E" and "ed25519_spec E" and "cbor_spec E" and "storage_ok E s" and "graph_typed E s"
    and "verify P prems c rule et p t = Some (Inr r)" and "\<not> rejected r"
    and "e = built_edge E signer prems c rule et p r"
    and "collision_free E (new_blobs E prems c p e \<union> blobs_of s)" and "identify R signer = Some name"
  shows "\<exists>s' res entry a. verify_and_commit E P now signer prems c rule et p t s = Some (s', Inr res) \<and>
    cm_edge res = Some e \<and> cm_log_entry res = Some entry \<and> le_signer_pubkey entry = st_pub s \<and>
    t_log (view (st_conn s')) = t_log (committed (st_conn s)) @ [entry] \<and> le_payload entry = edge_blob E e \<and>
    verify_edge_attestation E e (sqlite_reader E s') R = Inr a \<and>
    attestation_ok a \<and> at_signer_agent_id a = Some name"
proof -
  have ok: "proposal_ok E s prems c p e"
    unfolding assms(8) by (rule proposal_okI [OF assms(1-5) assms(9) [unfolded assms(8)]])
  obtain s' entry where run: "store_edge E now prems c p r e s =
      Some (s', Inr \<lparr> cm_verification = r, cm_edge = Some e,
        cm_edge_hash = Some (hash_bytes E (edge_blob E e)), cm_log_entry = Some entry \<rparr>)"
    and as: "stored_as E s prems c p e s'" and entry: "verify_entry E entry = Inr True"
      "le_payload entry = edge_blob E e" "t_log (committed (st_conn s')) = t_log (committed (st_conn s)) @ [entry]"
    using store_edge_effect [OF ok, of now r] by blast
  have s': "storage_ok E s'" using as by (simp add: stored_as_def)
  then have log: "log_ok E (view (st_conn s'))" by (simp add: storage_ok_view) (simp add: storage_ok_def)
  have rows: "t_log (view (st_conn s')) = t_log (committed (st_conn s)) @ [entry]"
    using entry(3) by (simp add: storage_ok_view [OF s'])
  then have "entry \<in> set (t_log (view (st_conn s')))" by simp
  from find_log_entry_ok [OF assms(1) log this] verify_entry_hash [OF entry(1)] entry(2)
  obtain r' where "find_log_entry (sqlite_reader E s') (hash_bytes E (edge_blob E e)) = Inr (Some r')"
    and "verify_entry E r' = Inr True" by auto
  from verify_edge_attestation_total [OF this, of R] obtain a where
    a: "verify_edge_attestation E e (sqlite_reader E s') R = Inr a" "at_signature_valid a"
      "at_signer_agent_id a = identify R signer" "at_proof_bound a \<and> at_proof_intact a \<longleftrightarrow> proof_found E s' e"
    by (auto simp: assms(8))
  have "proof_found E s' e"
    using stored_as_blobs(4) [OF ok as] by (auto simp: proof_found_def assms(8))
  with a assms(10) have "attestation_ok a \<and> at_signer_agent_id a = Some name" by (simp add: attestation_ok_def)
  moreover have "verify_and_commit E P now signer prems c rule et p t s =
      Some (s', Inr \<lparr> cm_verification = r, cm_edge = Some e,
        cm_edge_hash = Some (hash_bytes E (edge_blob E e)), cm_log_entry = Some entry \<rparr>)"
    using run verify_and_commit_accepted [OF assms(6,7)] by (simp add: assms(8))
  moreover have "le_signer_pubkey entry = st_pub s" using store_edge_signer [OF run] by simp
  ultimately show ?thesis using a(1) rows entry(2) by auto
qed

text \<open>C28: what was committed is attested: after an accepted proposal whose signer the roster names, the
  attestation of the stored edge is in order and names that signer, although the log entry was signed with
  the storage's own key, whatever that key is.\<close>

theorem committed_edge_attested:
  assumes "blake3_spec E" and "ed25519_spec E" and "cbor_spec E" and "storage_ok E s" and "graph_typed E s"
    and "verify P prems c rule et p t = Some (Inr r)" and "\<not> rejected r"
    and "e = built_edge E signer prems c rule et p r"
    and "collision_free E (new_blobs E prems c p e \<union> blobs_of s)" and "identify R signer = Some name"
  shows "\<exists>s' res entry a. verify_and_commit E P now signer prems c rule et p t s = Some (s', Inr res) \<and>
    cm_edge res = Some e \<and> cm_log_entry res = Some entry \<and> le_signer_pubkey entry = st_pub s \<and>
    verify_edge_attestation E e (sqlite_reader E s') R = Inr a \<and>
    attestation_ok a \<and> at_signer_agent_id a = Some name"
  using attested_commit [OF assms, of now] by blast

lemma alice_signs: "identify alice_roster sample_key = Some (str ''alice'')"
  by (simp add: identify_def alice_roster_def)

lemmas roster_attested = attested_commit [OF ref_env_blake3 ref_env_ed25519 ref_env_cbor storage_ok_sample
  sample_empty(2) verify_roster roster_edge_def roster_distinct alice_signs, of 5]

theorem committed_edge_attested_witness:
  "\<exists>s' res a. verify_and_commit ref_env sample_provers 5 sample_key [] roster_node [] DEFINITION None
      five_seconds sample_storage = Some (s', Inr res) \<and>
    verify_edge_attestation ref_env roster_edge (sqlite_reader ref_env s') alice_roster = Inr a \<and>
    attestation_ok a \<and> at_signer_agent_id a = Some (str ''alice'')"
  using committed_edge_attested [OF ref_env_blake3 ref_env_ed25519 ref_env_cbor storage_ok_sample
      sample_empty(2) verify_roster roster_edge_def roster_distinct alice_signs, of 5]
  by blast

theorem attestation_sound_witness:
  "\<exists>s' a name r. verify_edge_attestation ref_env roster_edge (sqlite_reader ref_env s') alice_roster = Inr a \<and>
    at_signer_agent_id a = Some name \<and> (name, e_signer_pubkey roster_edge) \<in> set (ro_entries alice_roster) \<and>
    r \<in> set (t_log (view (st_conn s'))) \<and> le_payload r = edge_blob ref_env roster_edge"
proof -
  obtain s' entry a where rows: "t_log (view (st_conn s')) = t_log (committed (st_conn sample_storage)) @ [entry]"
    and pay: "le_payload entry = edge_blob ref_env roster_edge"
    and a: "verify_edge_attestation ref_env roster_edge (sqlite_reader ref_env s') alice_roster = Inr a"
      "attestation_ok a"
    using roster_attested by blast
  have "t_log (committed (st_conn sample_storage)) = []"
    by (simp add: connect_def open_db_def empty_db_def)
  then have "le_payload ` set (t_log (view (st_conn s'))) = {edge_blob ref_env roster_edge}"
    by (simp add: rows pay)
  then have "collision_free ref_env (insert (edge_blob ref_env roster_edge) (le_payload ` set (t_log (view (st_conn s')))))"
    by (simp add: collision_free_def)
  from attestation_sound [OF a this] a(1) show ?thesis by blast
qed

section \<open>The roster in the log\<close>

abbreviation roster_blob :: "env \<Rightarrow> roster \<Rightarrow> bytes" where
  "roster_blob E R \<equiv> cbor_dumps E (roster_to_canonical R)"

lemma commit_roster_later:
  assumes "blake3_spec E" and "storage_ok E s" and "t_log (committed (st_conn s)) = r # rest"
  shows "commit_roster E now R s =
    (s, Inr (if le_entry_hash r = hash_bytes E (roster_blob E R) then Some r else None))"
proof -
  have view: "view (st_conn s) = committed (st_conn s)" by (rule storage_ok_view [OF assms(2)])
  have "log_ok E (view (st_conn s))" using assms(2) by (simp add: view) (simp add: storage_ok_def)
  from log_get_eq [OF assms(1) this, of 0] assms(3) show ?thesis
    by (simp add: commit_roster_def log_len_def view roster_hash_eq)
qed

lemma ins_log_rows: "t_log (ins_log r d) = t_log d @ [r]" "t_edges (ins_log r d) = t_edges d"
  by (simp_all add: ins_log_def)

lemma commit_roster_first:
  assumes "blake3_spec E" and "ed25519_spec E" and "storage_ok E s" and "autocommit (st_conn s)"
    and "t_log (committed (st_conn s)) = []"
  obtains s' r where "commit_roster E now R s = (s', Inr (Some r))" and "storage_ok E s'"
    and "committed (st_conn s') = ins_log r (committed (st_conn s))" and "st_objects s' = st_objects s"
    and "le_payload r = roster_blob E R" and "le_entry_hash r = hash_bytes E (roster_blob E R)"
proof -
  have view: "view (st_conn s) = committed (st_conn s)" by (rule storage_ok_view [OF assms(3)])
  have ok: "log_ok E (view (st_conn s))" and keys: "length (st_priv s) = 32" "st_pub s = ed_public E (st_priv s)"
    and idle: "pending (st_conn s) = None"
    using assms(3) by (simp_all add: view) (simp_all add: storage_ok_def)
  obtain r where app: "log_append False E (st_priv s) (ed_public E (st_priv s)) now (roster_blob E R) (st_conn s) =
      (commit_if_owned False (exec_dml (ins_log r) (st_conn s)), Inr r)"
    and r: "le_payload r = roster_blob E R" "le_entry_hash r = hash_bytes E (roster_blob E R)"
    and ok': "log_ok E (ins_log r (view (st_conn s)))"
    by (rule log_append_ok [OF assms(1,2) keys(1) ok, of False now "roster_blob E R"]) blast
  let ?c = "(st_conn s)\<lparr>committed := ins_log r (committed (st_conn s))\<rparr>"
  have "commit_roster E now R s = (s\<lparr>st_conn := ?c\<rparr>, Inr (Some r))"
    using app idle assms(4,5)
    by (simp add: commit_roster_def log_len_def view roster_bytes_eq keys commit_if_owned_def exec_dml_def)
  moreover have "storage_ok E (s\<lparr>st_conn := ?c\<rparr>)"
    using assms(3) ok' view
    by (auto simp: storage_ok_def list_all_iff edge_backed_def ins_log_rows)
  ultimately show ?thesis using that r by simp
qed

text \<open>C29: committing a roster to a new storage makes it the first log entry and changes nothing else; doing it
  again changes nothing and gives the same entry; another roster is refused; and the history verifies
  against the root of the anchor record, which carries the entry count and the roster's address.\<close>

theorem commit_roster_anchors:
  assumes "blake3_spec E" and "ed25519_spec E" and "storage_ok E s" and "autocommit (st_conn s)"
    and "t_log (committed (st_conn s)) = []"
  shows "\<exists>s' r a. commit_roster E now R s = (s', Inr (Some r)) \<and> storage_ok E s' \<and>
    st_objects s' = st_objects s \<and> committed (st_conn s') = (committed (st_conn s))\<lparr>t_log := [r]\<rparr> \<and>
    Inr (le_payload r) = roster_bytes E R \<and> commit_roster E now' R s' = (s', Inr (Some r)) \<and>
    (roster_hash E R' \<noteq> roster_hash E R \<longrightarrow> commit_roster E now' R' s' = (s', Inr None)) \<and>
    anchor E now' (sqlite_reader E s') R = Inr a \<and> an_entry_count a = 1 \<and>
    Inr (an_roster_hash a) = roster_hash E R \<and>
    verify_history E (sqlite_reader E s') (an_root_hash a) = Inr True"
proof -
  obtain s' r where run: "commit_roster E now R s = (s', Inr (Some r))" and ok: "storage_ok E s'"
    and com: "committed (st_conn s') = ins_log r (committed (st_conn s))" and objs: "st_objects s' = st_objects s"
    and r: "le_payload r = roster_blob E R" "le_entry_hash r = hash_bytes E (roster_blob E R)"
    by (rule commit_roster_first [OF assms])
  have rows: "t_log (committed (st_conn s')) = [r]" by (simp add: com ins_log_def assms(5))
  have view: "view (st_conn s') = committed (st_conn s')" by (rule storage_ok_view [OF ok])
  have log: "log_ok E (view (st_conn s'))" using ok by (simp add: view) (simp add: storage_ok_def)
  let ?trusted = "root_hash E [hash_bytes E (roster_blob E R)]"
  have "anchor E now' (sqlite_reader E s') R = Inr \<lparr> an_root_hash = ?trusted, an_entry_count = 1,
      an_timestamp_ns = now', an_roster_hash = hash_bytes E (roster_blob E R) \<rparr>"
    using entry_hashes_eq [OF assms(1) log]
    by (simp add: anchor_def log_root_hash_def log_len_def view rows r roster_hash_eq)
  moreover have "verify_history E (sqlite_reader E s') ?trusted = Inr True"
    using verify_history_iff [OF assms(1), of s'] log by (simp add: view rows r log_ok_def)
  moreover have "committed (st_conn s') = (committed (st_conn s))\<lparr>t_log := [r]\<rparr>"
    by (simp add: com ins_log_def assms(5))
  ultimately show ?thesis
    using run ok objs r commit_roster_later [OF assms(1) ok rows]
    by (auto simp: roster_bytes_eq roster_hash_eq)
qed

theorem commit_roster_anchors_witness:
  "\<exists>s' r. commit_roster ref_env 5 alice_roster sample_storage = (s', Inr (Some r)) \<and> storage_ok ref_env s' \<and>
    commit_roster ref_env 6 alice_roster s' = (s', Inr (Some r))"
  using commit_roster_anchors [OF ref_env_blake3 ref_env_ed25519 storage_ok_sample, of 5 alice_roster 6 alice_roster]
  by (auto simp: connect_def open_db_def empty_db_def)

end
