(* ===== verification/Reachability.thy ===== *)
theory Reachability
  imports Resolve
begin

text \<open>
  \<^verbatim>\<open>query/reachability.py\<close>: the traversal of the AND-OR hypergraph. The two \<open>while changed\<close> loops are
  total functions: the strength of a node only rises in a scale of five values, and its depth only
  falls. \<open>derives\<close> and \<open>derives_at\<close> say, independently of any computation, which strengths and depths
  derivations have; the loops compute the best of them.
\<close>

section \<open>The edges that derive\<close>

type_synonym derivations = "(hash \<times> edge) list"

definition derives_claims :: "edge \<Rightarrow> bool" where
  "derives_claims e \<longleftrightarrow> e_type e \<noteq> REFUTATION \<and> (e_verdict e = PASS \<or> e_verdict e = SOFT_FLAG)"

fun keep_derivations ::
    "env \<Rightarrow> reader \<Rightarrow> hash list option \<Rightarrow> hash list \<Rightarrow> derivations res" where
  "keep_derivations E storage active_edges [] = Inr []"
| "keep_derivations E storage active_edges (h # hs) =
     (if (case active_edges of None \<Rightarrow> False | Some active \<Rightarrow> h \<notin> set active)
      then keep_derivations E storage active_edges hs
      else
        and_then (resolve_edge E storage h) (\<lambda>r.
          case r of
            None \<Rightarrow> keep_derivations E storage active_edges hs
          | Some e \<Rightarrow>
              if \<not> derives_claims e then keep_derivations E storage active_edges hs
              else and_then (keep_derivations E storage active_edges hs) (\<lambda>out. Inr ((h, e) # out))))"

definition derivation_edges :: "env \<Rightarrow> reader \<Rightarrow> hash list option \<Rightarrow> derivations res" where
  "derivation_edges E storage active_edges =
     and_then (rd_all_edges storage) (keep_derivations E storage active_edges)"

section \<open>Seeds\<close>

record fix_state =
  fs_kappa :: "(hash, Kappa) dict"
  fs_depth :: "(hash, nat) dict"
  fs_best :: "(hash, hash) dict"

definition seed :: "hash \<Rightarrow> Kappa \<Rightarrow> hash option \<Rightarrow> fix_state \<Rightarrow> fix_state" where
  "seed node k edge st =
     \<lparr> fs_kappa =
         (case map_of (fs_kappa st) node of
            None \<Rightarrow> dict_set node k (fs_kappa st)
          | Some k' \<Rightarrow> if rank k' < rank k then dict_set node k (fs_kappa st) else fs_kappa st),
       fs_depth = dict_set node 0 (fs_depth st),
       fs_best = (case edge of None \<Rightarrow> fs_best st | Some h \<Rightarrow> dict_set node h (fs_best st)) \<rparr>"

definition seed_edge :: "hash \<times> edge \<Rightarrow> fix_state \<Rightarrow> fix_state" where
  "seed_edge he st =
     (case he of (h, e) \<Rightarrow>
        if e_premises e = [] then seed (e_conclusion e) (e_kappa e) (Some h) st else st)"

definition seeded :: "derivations \<Rightarrow> hash list \<Rightarrow> fix_state" where
  "seeded des extra_seeds =
     fold (\<lambda>s. seed s K_INF None) extra_seeds
       (fold seed_edge des \<lparr> fs_kappa = [], fs_depth = [], fs_best = [] \<rparr>)"

section \<open>The strength loop\<close>

text \<open>
  One edge of one pass, with the \<open>changed\<close> flag. The conjunction always has a member, the edge's own
  strength, so the \<open>Inl\<close> branch is not taken.
\<close>

definition kappa_step ::
    "hash \<times> edge \<Rightarrow> (hash, Kappa) dict \<times> (hash, hash) dict \<times> bool \<Rightarrow>
     (hash, Kappa) dict \<times> (hash, hash) dict \<times> bool" where
  "kappa_step he st =
     (case (he, st) of ((h, e), (kappa, best_edge, changed)) \<Rightarrow>
        if e_premises e = [] then st
        else if \<not> list_all (\<lambda>p. map_of kappa p \<noteq> None) (e_premises e) then st
        else
          case min_kappa (e_kappa e # map (\<lambda>p. the (map_of kappa p)) (e_premises e)) of
            Inl _ \<Rightarrow> st
          | Inr path_kappa \<Rightarrow>
              if (case map_of kappa (e_conclusion e) of
                    None \<Rightarrow> True | Some k \<Rightarrow> rank k < rank path_kappa)
              then (dict_set (e_conclusion e) path_kappa kappa,
                    dict_set (e_conclusion e) h best_edge, True)
              else st)"

definition kappa_pass ::
    "derivations \<Rightarrow> (hash, Kappa) dict \<times> (hash, hash) dict \<times> bool \<Rightarrow>
     (hash, Kappa) dict \<times> (hash, hash) dict \<times> bool" where
  "kappa_pass des st = fold kappa_step des st"

text \<open>How far a node can still rise; the measure of the loop.\<close>

fun room :: "Kappa option \<Rightarrow> nat" where
  "room None = 5"
| "room (Some K0) = 4"
| "room (Some K1) = 3"
| "room (Some K2) = 2"
| "room (Some K3) = 1"
| "room (Some K_INF) = 0"

definition total_room :: "derivations \<Rightarrow> (hash, Kappa) dict \<Rightarrow> nat" where
  "total_room des kappa = (\<Sum>n \<in> (\<lambda>(h, e). e_conclusion e) ` set des. room (map_of kappa n))"

lemma room_less: "k < k' \<Longrightarrow> room (Some k') < room (Some k)"
  by (cases k; cases k') (simp_all add: less_Kappa_def numeral_eq_enat one_enat_def zero_enat_def)

lemma room_Some_less: "room (Some k) < room None"
  by (cases k) auto

definition path_strength :: "(hash, Kappa) dict \<Rightarrow> edge \<Rightarrow> Kappa" where
  "path_strength kappa e = Min (insert (e_kappa e) ((\<lambda>p. the (map_of kappa p)) ` set (e_premises e)))"

definition kappa_fires :: "(hash, Kappa) dict \<Rightarrow> edge \<Rightarrow> bool" where
  "kappa_fires kappa e \<longleftrightarrow>
     e_premises e \<noteq> [] \<and> (\<forall>p \<in> set (e_premises e). map_of kappa p \<noteq> None) \<and>
     (\<forall>k. map_of kappa (e_conclusion e) = Some k \<longrightarrow> k < path_strength kappa e)"

lemma kappa_step_eq:
  "kappa_step (h, e) (kap, best, ch) =
     (if kappa_fires kap e
      then (dict_set (e_conclusion e) (path_strength kap e) kap, dict_set (e_conclusion e) h best, True)
      else (kap, best, ch))"
  by (cases "list_all (\<lambda>p. map_of kap p \<noteq> None) (e_premises e)"; cases "map_of kap (e_conclusion e)")
    (simp_all add: kappa_step_def kappa_fires_def path_strength_def py_min_rank list_all_iff)

lemma kappa_step_cases:
  obtains (same) "kappa_step (h, e) (kap, best, ch) = (kap, best, ch)" "\<not> kappa_fires kap e"
  | (update) "kappa_step (h, e) (kap, best, ch) =
      (dict_set (e_conclusion e) (path_strength kap e) kap, dict_set (e_conclusion e) h best, True)"
      "kappa_fires kap e"
  by (cases "kappa_fires kap e") (simp_all add: kappa_step_eq)

lemma total_room_dict_set:
  assumes "(h, e) \<in> set des" and "\<And>k'. map_of kap (e_conclusion e) = Some k' \<Longrightarrow> k' < k"
  shows "total_room des (dict_set (e_conclusion e) k kap) < total_room des kap"
  unfolding total_room_def
proof (rule sum_strict_mono_ex1)
  have "room (Some k) < room (map_of kap (e_conclusion e))"
    using assms(2) room_less room_Some_less by (cases "map_of kap (e_conclusion e)") auto
  then show "\<forall>n \<in> (\<lambda>(h, e). e_conclusion e) ` set des.
      room (map_of (dict_set (e_conclusion e) k kap) n) \<le> room (map_of kap n)"
    and "\<exists>n \<in> (\<lambda>(h, e). e_conclusion e) ` set des.
      room (map_of (dict_set (e_conclusion e) k kap) n) < room (map_of kap n)"
    using assms(1) by (auto intro!: bexI [of _ "(h, e)"])
qed simp

lemma kappa_pass_room:
  assumes "set des' \<subseteq> set des" and "kappa_pass des' (kap, best, ch) = (kap', best', ch')"
  shows "total_room des kap' \<le> total_room des kap \<and>
    (ch' \<longrightarrow> ch \<or> total_room des kap' < total_room des kap)"
  using assms
proof (induction des' arbitrary: kap best ch)
  case Nil
  then show ?case by (simp add: kappa_pass_def)
next
  case (Cons he des')
  obtain h e where he: "he = (h, e)" by (cases he)
  obtain kap1 best1 ch1 where step: "kappa_step he (kap, best, ch) = (kap1, best1, ch1)"
    by (cases "kappa_step he (kap, best, ch)")
  have "total_room des kap1 \<le> total_room des kap \<and>
      (ch1 \<longrightarrow> ch \<or> total_room des kap1 < total_room des kap)"
  proof (cases rule: kappa_step_cases [of h e kap best ch])
    case same
    with step he show ?thesis by simp
  next
    case update
    with total_room_dict_set [of h e des kap "path_strength kap e"] Cons.prems(1) he
    have "total_room des (dict_set (e_conclusion e) (path_strength kap e) kap) < total_room des kap"
      by (simp add: kappa_fires_def)
    with update step he show ?thesis by simp
  qed
  moreover have "kappa_pass des' (kap1, best1, ch1) = (kap', best', ch')"
    using Cons.prems(2) step by (simp add: kappa_pass_def)
  ultimately show ?case using Cons.IH [of kap1 best1 ch1] Cons.prems(1) by fastforce
qed

lemma kappa_loop_decreases:
  "(kap', best', True) = kappa_pass des (kap, best, False) \<Longrightarrow> total_room des kap' < total_room des kap"
  using kappa_pass_room [of des des kap best False kap' best' True] by simp

function kappa_loop ::
    "derivations \<Rightarrow> (hash, Kappa) dict \<Rightarrow> (hash, hash) dict \<Rightarrow>
     (hash, Kappa) dict \<times> (hash, hash) dict" where
  "kappa_loop des kappa best_edge =
     (case kappa_pass des (kappa, best_edge, False) of
        (kappa', best_edge', changed) \<Rightarrow>
          if changed then kappa_loop des kappa' best_edge' else (kappa', best_edge'))"
  by pat_completeness auto
termination
  by (relation "measure (\<lambda>(des, kap, best). total_room des kap)") (auto dest: kappa_loop_decreases)

declare kappa_loop.simps [simp del]

section \<open>The depth loop\<close>

definition depth_step ::
    "(hash, Kappa) dict \<Rightarrow> hash \<times> edge \<Rightarrow> (hash, nat) dict \<times> bool \<Rightarrow> (hash, nat) dict \<times> bool" where
  "depth_step kappa he st =
     (case (he, st) of ((h, e), (depth, changed)) \<Rightarrow>
        if e_premises e = [] then st
        else if map_of kappa (e_conclusion e) = None then st
        else if \<not> list_all (\<lambda>p. map_of depth p \<noteq> None) (e_premises e) then st
        else
          let d = 1 + Max (set (map (\<lambda>p. the (map_of depth p)) (e_premises e))) in
          if (case map_of depth (e_conclusion e) of None \<Rightarrow> True | Some d' \<Rightarrow> d < d')
          then (dict_set (e_conclusion e) d depth, True)
          else st)"

definition depth_pass ::
    "derivations \<Rightarrow> (hash, Kappa) dict \<Rightarrow> (hash, nat) dict \<times> bool \<Rightarrow> (hash, nat) dict \<times> bool" where
  "depth_pass des kappa st = fold (depth_step kappa) des st"

text \<open>The measure: nodes still without depth, then the sum of the depths.\<close>

definition undepthed :: "derivations \<Rightarrow> (hash, nat) dict \<Rightarrow> hash set" where
  "undepthed des depth = {n \<in> (\<lambda>(h, e). e_conclusion e) ` set des. map_of depth n = None}"

definition total_depth :: "derivations \<Rightarrow> (hash, nat) dict \<Rightarrow> nat" where
  "total_depth des depth =
     (\<Sum>n \<in> (\<lambda>(h, e). e_conclusion e) ` set des. case map_of depth n of None \<Rightarrow> 0 | Some d \<Rightarrow> d)"

definition depth_order :: "derivations \<Rightarrow> ((hash, nat) dict \<times> (hash, nat) dict) set" where
  "depth_order des = inv_image (less_than <*lex*> less_than)
     (\<lambda>depth. (card (undepthed des depth), total_depth des depth))"

lemma wf_depth_order: "wf (depth_order des)"
  unfolding depth_order_def by (intro wf_inv_image wf_lex_prod wf_less_than)

lemma trans_depth_order: "trans (depth_order des)"
  unfolding depth_order_def by (intro trans_inv_image trans_lex_prod trans_less_than)

definition path_depth :: "(hash, nat) dict \<Rightarrow> edge \<Rightarrow> nat" where
  "path_depth depth e = 1 + Max ((\<lambda>p. the (map_of depth p)) ` set (e_premises e))"

definition depth_fires :: "(hash, Kappa) dict \<Rightarrow> (hash, nat) dict \<Rightarrow> edge \<Rightarrow> bool" where
  "depth_fires kappa depth e \<longleftrightarrow>
     e_premises e \<noteq> [] \<and> map_of kappa (e_conclusion e) \<noteq> None \<and>
     (\<forall>p \<in> set (e_premises e). map_of depth p \<noteq> None) \<and>
     (\<forall>d. map_of depth (e_conclusion e) = Some d \<longrightarrow> path_depth depth e < d)"

lemma depth_step_eq:
  "depth_step kap (h, e) (dep, ch) =
     (if depth_fires kap dep e then (dict_set (e_conclusion e) (path_depth dep e) dep, True)
      else (dep, ch))"
  by (cases "list_all (\<lambda>p. map_of dep p \<noteq> None) (e_premises e)"; cases "map_of dep (e_conclusion e)")
    (auto simp: depth_step_def depth_fires_def path_depth_def list_all_iff Let_def)

lemma depth_step_cases:
  obtains (same) "depth_step kap (h, e) (dep, ch) = (dep, ch)" "\<not> depth_fires kap dep e"
  | (update) "depth_step kap (h, e) (dep, ch) = (dict_set (e_conclusion e) (path_depth dep e) dep, True)"
      "depth_fires kap dep e"
  by (cases "depth_fires kap dep e") (simp_all add: depth_step_eq)

lemma depth_order_dict_set:
  assumes "(h, e) \<in> set des" and "\<And>d'. map_of dep (e_conclusion e) = Some d' \<Longrightarrow> d < d'"
  shows "(dict_set (e_conclusion e) d dep, dep) \<in> depth_order des"
proof (cases "map_of dep (e_conclusion e)")
  case None
  let ?c = "e_conclusion e"
  have c: "?c \<in> (\<lambda>(h, e). e_conclusion e) ` set des"
    using assms(1) by force
  have "undepthed des (dict_set ?c d dep) = undepthed des dep - {?c}"
    by (auto simp: undepthed_def)
  moreover have "?c \<in> undepthed des dep" using c None by (simp add: undepthed_def)
  moreover have "finite (undepthed des dep)" by (simp add: undepthed_def)
  ultimately have "card (undepthed des (dict_set ?c d dep)) < card (undepthed des dep)"
    by (metis card_Diff1_less)
  then show ?thesis by (simp add: depth_order_def)
next
  case (Some d')
  let ?c = "e_conclusion e"
  have c: "?c \<in> (\<lambda>(h, e). e_conclusion e) ` set des"
    using assms(1) by force
  have same: "undepthed des (dict_set ?c d dep) = undepthed des dep"
    using Some by (auto simp: undepthed_def)
  have "total_depth des (dict_set ?c d dep) < total_depth des dep"
    unfolding total_depth_def
  proof (rule sum_strict_mono_ex1)
    show "\<exists>n \<in> (\<lambda>(h, e). e_conclusion e) ` set des.
        (case map_of (dict_set ?c d dep) n of None \<Rightarrow> 0 | Some d \<Rightarrow> d) <
        (case map_of dep n of None \<Rightarrow> 0 | Some d \<Rightarrow> d)"
      by (rule bexI [OF _ c]) (use Some assms(2) in simp)
  qed (use Some assms(2) in \<open>auto split: option.splits\<close>)
  with same show ?thesis by (simp add: depth_order_def)
qed

lemma depth_pass_order:
  assumes "set des' \<subseteq> set des" and "depth_pass des' kap (dep, ch) = (dep', ch')"
  shows "(dep' = dep \<and> ch' = ch) \<or> (ch' \<and> (dep', dep) \<in> depth_order des)"
  using assms
proof (induction des' arbitrary: dep ch)
  case Nil
  then show ?case by (simp add: depth_pass_def)
next
  case (Cons he des')
  obtain h e where he: "he = (h, e)" by (cases he)
  obtain dep1 ch1 where step: "depth_step kap he (dep, ch) = (dep1, ch1)"
    by (cases "depth_step kap he (dep, ch)")
  have first: "(dep1 = dep \<and> ch1 = ch) \<or> (ch1 \<and> (dep1, dep) \<in> depth_order des)"
  proof (cases rule: depth_step_cases [of kap h e dep ch])
    case same
    with step he show ?thesis by simp
  next
    case update
    with depth_order_dict_set [of h e des dep "path_depth dep e"] Cons.prems(1) he
    have "(dict_set (e_conclusion e) (path_depth dep e) dep, dep) \<in> depth_order des"
      by (simp add: depth_fires_def)
    with update step he show ?thesis by simp
  qed
  have "depth_pass des' kap (dep1, ch1) = (dep', ch')"
    using Cons.prems(2) step by (simp add: depth_pass_def)
  with Cons.IH [of dep1 ch1] Cons.prems(1)
  have "(dep' = dep1 \<and> ch' = ch1) \<or> (ch' \<and> (dep', dep1) \<in> depth_order des)" by simp
  with first show ?case by (auto dest: transD [OF trans_depth_order])
qed

lemma depth_loop_decreases:
  "(dep', True) = depth_pass des kap (dep, False) \<Longrightarrow>
     \<not> card (undepthed des dep') < card (undepthed des dep) \<Longrightarrow>
     card (undepthed des dep') = card (undepthed des dep) \<and> total_depth des dep' < total_depth des dep"
  using depth_pass_order [of des des kap dep False dep' True] by (simp add: depth_order_def)

function depth_loop ::
    "derivations \<Rightarrow> (hash, Kappa) dict \<Rightarrow> (hash, nat) dict \<Rightarrow> (hash, nat) dict" where
  "depth_loop des kappa depth =
     (case depth_pass des kappa (depth, False) of
        (depth', changed) \<Rightarrow>
          if changed then depth_loop des kappa depth' else depth')"
  by pat_completeness auto
termination
  by (relation "measures [\<lambda>(des, kap, dep). card (undepthed des dep),
      \<lambda>(des, kap, dep). total_depth des dep]") (auto dest: depth_loop_decreases)

declare depth_loop.simps [simp del]

definition fixpoint :: "derivations \<Rightarrow> hash list \<Rightarrow> fix_state" where
  "fixpoint des extra_seeds =
     (let st = seeded des extra_seeds;
          (kappa, best_edge) = kappa_loop des (fs_kappa st) (fs_best st);
          depth = depth_loop des kappa (fs_depth st)
      in \<lparr> fs_kappa = kappa, fs_depth = depth, fs_best = best_edge \<rparr>)"

section \<open>The proof tree and the query\<close>

text \<open>The stack is a list with its top first: \<open>extend\<close> pushes the premises in order.\<close>

function proof_tree_loop ::
    "(hash, hash) dict \<Rightarrow> (hash, edge) dict \<Rightarrow> hash list \<Rightarrow> hash list \<Rightarrow> hash list" where
  "proof_tree_loop best_edge edge_map edges [] = edges"
| "proof_tree_loop best_edge edge_map edges (node # stack) =
     (case map_of best_edge node of
        None \<Rightarrow> proof_tree_loop best_edge edge_map edges stack
      | Some h \<Rightarrow>
          if h \<in> set edges then proof_tree_loop best_edge edge_map edges stack
          else proof_tree_loop best_edge edge_map (h # edges)
            (case map_of edge_map h of None \<Rightarrow> stack | Some e \<Rightarrow> rev (e_premises e) @ stack))"
  by pat_completeness auto
termination
proof (relation "measures [\<lambda>(best, em, edges, stack). card (snd ` set best - set edges),
    \<lambda>(best, em, edges, stack). length stack]", goal_cases)
  case (4 best em edges node stack h)
  then have "h \<in> snd ` set best - set edges" by (force dest: map_of_SomeD)
  then have "card (snd ` set best - set (h # edges)) < card (snd ` set best - set edges)"
    by (intro psubset_card_mono) auto
  then show ?case by simp
qed auto

definition collect_proof_tree :: "hash \<Rightarrow> (hash, hash) dict \<Rightarrow> (hash, edge) dict \<Rightarrow> hash list" where
  "collect_proof_tree target best_edge edge_map =
     sort_key hex (proof_tree_loop best_edge edge_map [] [target])"

record reachability_result =
  rr_target :: hash
  rr_established :: bool
  rr_kappa :: "Kappa option"
  rr_depth :: "nat option"
  rr_proof_tree_edges :: "hash list"

definition reachable_from ::
    "derivations \<Rightarrow> hash \<Rightarrow> Kappa \<Rightarrow> hash list \<Rightarrow> reachability_result res" where
  "reachable_from des target min_k extra_seeds =
     (let st = fixpoint des extra_seeds in
      case map_of (fs_kappa st) target of
        None \<Rightarrow> Inr \<lparr> rr_target = target, rr_established = False, rr_kappa = None, rr_depth = None,
                     rr_proof_tree_edges = [] \<rparr>
      | Some k \<Rightarrow>
          (case map_of (fs_depth st) target of
             None \<Rightarrow> Inl KeyError
           | Some d \<Rightarrow>
               Inr \<lparr> rr_target = target, rr_established = (rank min_k \<le> rank k),
                     rr_kappa = Some k, rr_depth = Some d,
                     rr_proof_tree_edges =
                       collect_proof_tree target (fs_best st) (dict_of des) \<rparr>))"

definition reachable ::
    "env \<Rightarrow> reader \<Rightarrow> hash \<Rightarrow> Kappa \<Rightarrow> hash list \<Rightarrow> hash list option \<Rightarrow> reachability_result res" where
  "reachable E storage target min_k extra_seeds active_edges =
     and_then (derivation_edges E storage active_edges) (\<lambda>des.
       reachable_from des target min_k extra_seeds)"

end
