(* ===== verification/Reachability_Correct.thy ===== *)
theory Reachability_Correct
  imports Reachability
begin

text \<open>
  What the loops of \<^verbatim>\<open>query/reachability.py\<close> compute. Derivations are defined inductively, once with their
  strength (weakest link) and once with their depth; the strength loop finds the strongest derivation of
  every node, the depth loop the shallowest, and the collected proof tree derives its target.
\<close>

section \<open>Derivations\<close>

inductive derives :: "derivations \<Rightarrow> hash list \<Rightarrow> hash \<Rightarrow> Kappa \<Rightarrow> bool" for des seeds where
  axiom: "(h, e) \<in> set des \<Longrightarrow> e_premises e = [] \<Longrightarrow> derives des seeds (e_conclusion e) (e_kappa e)"
| assumed: "s \<in> set seeds \<Longrightarrow> derives des seeds s K_INF"
| step: "(h, e) \<in> set des \<Longrightarrow> e_premises e \<noteq> [] \<Longrightarrow>
    (\<And>p. p \<in> set (e_premises e) \<Longrightarrow> derives des seeds p (f p)) \<Longrightarrow>
    derives des seeds (e_conclusion e) (Min (insert (e_kappa e) (f ` set (e_premises e))))"

inductive derives_at :: "derivations \<Rightarrow> hash list \<Rightarrow> hash \<Rightarrow> nat \<Rightarrow> bool" for des seeds where
  axiom: "(h, e) \<in> set des \<Longrightarrow> e_premises e = [] \<Longrightarrow> derives_at des seeds (e_conclusion e) 0"
| assumed: "s \<in> set seeds \<Longrightarrow> derives_at des seeds s 0"
| step: "(h, e) \<in> set des \<Longrightarrow> e_premises e \<noteq> [] \<Longrightarrow>
    (\<And>p. p \<in> set (e_premises e) \<Longrightarrow> derives_at des seeds p (f p)) \<Longrightarrow>
    derives_at des seeds (e_conclusion e) (1 + Max (f ` set (e_premises e)))"

lemma derives_iff_derives_at: "(\<exists>k. derives des seeds n k) \<longleftrightarrow> (\<exists>d. derives_at des seeds n d)"
proof
  assume "\<exists>k. derives des seeds n k"
  then obtain k where "derives des seeds n k" ..
  then show "\<exists>d. derives_at des seeds n d"
  proof induction
    case (step h e f)
    then have "\<forall>p. \<exists>d. p \<in> set (e_premises e) \<longrightarrow> derives_at des seeds p d" by blast
    then obtain g where "\<And>p. p \<in> set (e_premises e) \<Longrightarrow> derives_at des seeds p (g p)" by metis
    from derives_at.step [OF step(1,2) this] show ?case by blast
  qed (blast intro: derives_at.axiom derives_at.assumed)+
next
  assume "\<exists>d. derives_at des seeds n d"
  then obtain d where "derives_at des seeds n d" ..
  then show "\<exists>k. derives des seeds n k"
  proof induction
    case (step h e f)
    then have "\<forall>p. \<exists>k. p \<in> set (e_premises e) \<longrightarrow> derives des seeds p k" by blast
    then obtain g where "\<And>p. p \<in> set (e_premises e) \<Longrightarrow> derives des seeds p (g p)" by metis
    from derives.step [OF step(1,2) this] show ?case by blast
  qed (blast intro: derives.axiom derives.assumed)+
qed

section \<open>The strength loop\<close>

definition kappa_sound :: "derivations \<Rightarrow> hash list \<Rightarrow> (hash, Kappa) dict \<Rightarrow> bool" where
  "kappa_sound des seeds kap \<longleftrightarrow> (\<forall>n k. map_of kap n = Some k \<longrightarrow> derives des seeds n k)"

definition kappa_le :: "(hash, Kappa) dict \<Rightarrow> (hash, Kappa) dict \<Rightarrow> bool" where
  "kappa_le kap kap' \<longleftrightarrow> (\<forall>n k. map_of kap n = Some k \<longrightarrow> (\<exists>k'. map_of kap' n = Some k' \<and> k \<le> k'))"

lemma kappa_le_refl: "kappa_le kap kap"
  by (simp add: kappa_le_def)

lemma kappa_le_trans: "kappa_le a b \<Longrightarrow> kappa_le b c \<Longrightarrow> kappa_le a c"
  unfolding kappa_le_def by (meson order.trans)

lemma kappa_soundD: "kappa_sound des seeds kap \<Longrightarrow> map_of kap n = Some k \<Longrightarrow> derives des seeds n k"
  by (simp add: kappa_sound_def)

lemma kappa_leD: "kappa_le kap kap' \<Longrightarrow> map_of kap n = Some k \<Longrightarrow> \<exists>k'. map_of kap' n = Some k' \<and> k \<le> k'"
  by (simp add: kappa_le_def)

lemma kappa_step_sound:
  assumes "(h, e) \<in> set des" and "kappa_sound des seeds kap"
    and "kappa_step (h, e) (kap, best, ch) = (kap', best', ch')"
  shows "kappa_sound des seeds kap' \<and> kappa_le kap kap'"
proof (cases rule: kappa_step_cases [of h e kap best ch])
  case same
  with assms show ?thesis by (simp add: kappa_le_refl)
next
  case update
  have "derives des seeds (e_conclusion e) (path_strength kap e)"
    unfolding path_strength_def
  proof (rule derives.step [OF assms(1)])
    fix p
    assume "p \<in> set (e_premises e)"
    then obtain k where "map_of kap p = Some k"
      using update(2) by (auto simp: kappa_fires_def)
    with kappa_soundD [OF assms(2)] show "derives des seeds p (the (map_of kap p))" by simp
  qed (use update(2) in \<open>simp add: kappa_fires_def\<close>)
  with update assms(2,3) show ?thesis
    by (auto simp: kappa_sound_def kappa_le_def kappa_fires_def intro: less_imp_le)
qed

lemma kappa_pass_sound:
  assumes "set des' \<subseteq> set des" and "kappa_sound des seeds kap"
    and "kappa_pass des' (kap, best, ch) = (kap', best', ch')"
  shows "kappa_sound des seeds kap' \<and> kappa_le kap kap'"
  using assms
proof (induction des' arbitrary: kap best ch)
  case Nil
  then show ?case by (simp add: kappa_pass_def kappa_le_refl)
next
  case (Cons he des')
  obtain h e where he: "he = (h, e)" by (cases he)
  obtain kap1 best1 ch1 where step: "kappa_step (h, e) (kap, best, ch) = (kap1, best1, ch1)"
    by (cases "kappa_step (h, e) (kap, best, ch)")
  have "(h, e) \<in> set des" using Cons.prems(1) he by simp
  from kappa_step_sound [OF this Cons.prems(2) step]
  have one: "kappa_sound des seeds kap1" "kappa_le kap kap1" by simp_all
  have "kappa_pass des' (kap1, best1, ch1) = (kap', best', ch')"
    using Cons.prems(3) step he by (simp add: kappa_pass_def)
  with Cons.IH [OF _ one(1)] Cons.prems(1) one(2) kappa_le_trans show ?case by auto
qed

text \<open>A pass that changes nothing leaves no edge that could fire.\<close>

lemma kappa_pass_flag: "kappa_pass des (kap, best, True) = (kap', best', ch') \<Longrightarrow> ch'"
proof (induction des arbitrary: kap best)
  case (Cons he des)
  obtain h e where he: "he = (h, e)" by (cases he)
  have "\<exists>kap1 best1. kappa_step (h, e) (kap, best, True) = (kap1, best1, True)"
    by (simp add: kappa_step_eq)
  then obtain kap1 best1 where "kappa_step (h, e) (kap, best, True) = (kap1, best1, True)" by blast
  with Cons.prems he have "kappa_pass des (kap1, best1, True) = (kap', best', ch')"
    by (simp add: kappa_pass_def)
  then show ?case by (rule Cons.IH)
qed (simp add: kappa_pass_def)

lemma kappa_pass_stable:
  assumes "kappa_pass des (kap, best, False) = (kap', best', False)"
  shows "kap' = kap \<and> best' = best \<and> (\<forall>(h, e) \<in> set des. \<not> kappa_fires kap e)"
  using assms
proof (induction des)
  case Nil
  then show ?case by (simp add: kappa_pass_def)
next
  case (Cons he des)
  obtain h e where he: "he = (h, e)" by (cases he)
  have rest: "kappa_pass des (kappa_step (h, e) (kap, best, False)) = (kap', best', False)"
    using Cons.prems he by (simp add: kappa_pass_def)
  have "\<not> kappa_fires kap e"
    using rest kappa_pass_flag [of des _ _ kap' best' False] by (auto simp: kappa_step_eq split: if_splits)
  with rest Cons.IH he show ?case by (simp add: kappa_step_eq)
qed

lemma kappa_loop_ok:
  assumes "kappa_sound des seeds kap" and "kappa_loop des kap best = (kap', best')"
  shows "kappa_sound des seeds kap' \<and> kappa_le kap kap' \<and> (\<forall>(h, e) \<in> set des. \<not> kappa_fires kap' e)"
  using assms
proof (induction des kap best rule: kappa_loop.induct)
  case (1 des kap best)
  obtain kap1 best1 ch where pass: "kappa_pass des (kap, best, False) = (kap1, best1, ch)"
    by (cases "kappa_pass des (kap, best, False)")
  from kappa_pass_sound [OF order.refl "1.prems"(1) pass]
  have one: "kappa_sound des seeds kap1" "kappa_le kap kap1" by simp_all
  show ?case
  proof (cases ch)
    case True
    with "1.prems"(2) pass have "kappa_loop des kap1 best1 = (kap', best')"
      by (simp add: kappa_loop.simps [of des kap])
    with "1.IH" [OF pass [symmetric] refl True one(1)] one(2) kappa_le_trans show ?thesis by blast
  next
    case False
    with "1.prems"(2) pass have eq: "kap' = kap1" "best' = best1"
      by (simp_all add: kappa_loop.simps [of des kap])
    from False pass kappa_pass_stable [of des kap best kap1 best1] one show ?thesis
      by (simp add: eq)
  qed
qed

text \<open>Nothing is stronger than what a state knows in which no edge fires and the seeds are known.\<close>

definition seeds_known :: "derivations \<Rightarrow> hash list \<Rightarrow> (hash, Kappa) dict \<Rightarrow> bool" where
  "seeds_known des seeds kap \<longleftrightarrow>
     (\<forall>(h, e) \<in> set des. e_premises e = [] \<longrightarrow>
        (\<exists>k. map_of kap (e_conclusion e) = Some k \<and> e_kappa e \<le> k)) \<and>
     (\<forall>s \<in> set seeds. map_of kap s = Some K_INF)"

lemma seeds_known_le:
  assumes "seeds_known des seeds kap" and "kappa_le kap kap'"
  shows "seeds_known des seeds kap'"
proof -
  have "map_of kap' s = Some K_INF" if "s \<in> set seeds" for s
    using assms that kappa_leD [OF assms(2), of s K_INF]
    by (auto simp: seeds_known_def)
  moreover have "\<exists>k. map_of kap' (e_conclusion e) = Some k \<and> e_kappa e \<le> k"
    if mem: "(h, e) \<in> set des" "e_premises e = []" for h e
  proof -
    obtain k where "map_of kap (e_conclusion e) = Some k" "e_kappa e \<le> k"
      using assms(1) mem by (auto simp: seeds_known_def)
    with kappa_leD [OF assms(2)] order.trans show ?thesis by blast
  qed
  ultimately show ?thesis by (auto simp: seeds_known_def)
qed

lemma stable_complete:
  assumes "seeds_known des seeds kap" and "\<forall>(h, e) \<in> set des. \<not> kappa_fires kap e"
    and "derives des seeds n k"
  shows "\<exists>k'. map_of kap n = Some k' \<and> k \<le> k'"
  using assms(3)
proof induction
  case (axiom h e)
  with assms(1) show ?case by (auto simp: seeds_known_def)
next
  case (assumed s)
  with assms(1) show ?case by (auto simp: seeds_known_def)
next
  case (step h e f)
  then have known: "\<forall>p \<in> set (e_premises e). map_of kap p \<noteq> None" by fastforce
  have le: "f p \<le> the (map_of kap p)" if "p \<in> set (e_premises e)" for p
    using step.IH [OF that] by auto
  have "Min (insert (e_kappa e) (f ` set (e_premises e))) \<le> x"
    if "x \<in> insert (e_kappa e) ((\<lambda>p. the (map_of kap p)) ` set (e_premises e))" for x
    using that le by (auto intro: Min.coboundedI order.trans [OF Min.coboundedI])
  then have "Min (insert (e_kappa e) (f ` set (e_premises e))) \<le> path_strength kap e"
    by (simp add: path_strength_def del: Min_insert)
  moreover have "\<not> kappa_fires kap e" using assms(2) step.hyps(1) by auto
  then obtain k' where "map_of kap (e_conclusion e) = Some k'" "path_strength kap e \<le> k'"
    using step.hyps(2) known by (auto simp: kappa_fires_def not_less)
  ultimately show ?case by auto
qed

section \<open>The seeds\<close>

lemma seed_kappa:
  "map_of (fs_kappa (seed n k h st)) =
     (map_of (fs_kappa st))(n \<mapsto> (case map_of (fs_kappa st) n of None \<Rightarrow> k | Some k' \<Rightarrow> max k k'))"
  by (auto simp: seed_def max_def fun_eq_iff split: option.splits)

lemma seed_le: "kappa_le (fs_kappa st) (fs_kappa (seed n k h st))"
  by (auto simp: kappa_le_def seed_kappa)

lemma seed_known: "\<exists>k'. map_of (fs_kappa (seed n k h st)) n = Some k' \<and> k \<le> k'"
  by (simp add: seed_kappa split: option.splits)

lemma seed_sound:
  assumes "kappa_sound des seeds (fs_kappa st)" and "derives des seeds n k"
  shows "kappa_sound des seeds (fs_kappa (seed n k h st))"
  using assms by (auto simp: kappa_sound_def seed_kappa max_def split: option.splits)

lemma fold_seed_edges:
  assumes "set des' \<subseteq> set des" and "kappa_sound des seeds (fs_kappa st)"
  shows "kappa_sound des seeds (fs_kappa (fold seed_edge des' st)) \<and>
    kappa_le (fs_kappa st) (fs_kappa (fold seed_edge des' st)) \<and>
    (\<forall>(h, e) \<in> set des'. e_premises e = [] \<longrightarrow>
       (\<exists>k. map_of (fs_kappa (fold seed_edge des' st)) (e_conclusion e) = Some k \<and> e_kappa e \<le> k))"
  using assms
proof (induction des' arbitrary: st)
  case Nil
  then show ?case by (simp add: kappa_le_refl)
next
  case (Cons he des')
  obtain h e where he: "he = (h, e)" by (cases he)
  let ?st = "seed_edge he st"
  have sound: "kappa_sound des seeds (fs_kappa ?st)"
    using Cons.prems seed_sound derives.axiom [of h e des seeds]
    by (auto simp: seed_edge_def he)
  have le: "kappa_le (fs_kappa st) (fs_kappa ?st)"
    by (simp add: seed_edge_def he seed_le kappa_le_refl)
  note IH = Cons.IH [of ?st]
  have "\<exists>k. map_of (fs_kappa (fold seed_edge des' ?st)) (e_conclusion e) = Some k \<and> e_kappa e \<le> k"
    if empty: "e_premises e = []"
  proof -
    obtain k where k: "map_of (fs_kappa ?st) (e_conclusion e) = Some k" "e_kappa e \<le> k"
      using empty seed_known [of "e_conclusion e" "e_kappa e" "Some h" st] by (auto simp: seed_edge_def he)
    have "kappa_le (fs_kappa ?st) (fs_kappa (fold seed_edge des' ?st))"
      using IH sound Cons.prems(1) by simp
    from kappa_leD [OF this k(1)] k(2) show ?thesis by auto
  qed
  with IH sound le Cons.prems(1) he kappa_le_trans show ?case by auto
qed

lemma fold_extra_seeds:
  assumes "set xs \<subseteq> set seeds" and "kappa_sound des seeds (fs_kappa st)"
  shows "kappa_sound des seeds (fs_kappa (fold (\<lambda>s. seed s K_INF None) xs st)) \<and>
    kappa_le (fs_kappa st) (fs_kappa (fold (\<lambda>s. seed s K_INF None) xs st)) \<and>
    (\<forall>s \<in> set xs. map_of (fs_kappa (fold (\<lambda>s. seed s K_INF None) xs st)) s = Some K_INF)"
  using assms
proof (induction xs arbitrary: st)
  case Nil
  then show ?case by (simp add: kappa_le_refl)
next
  case (Cons x xs)
  let ?st = "seed x K_INF None st"
  have sound: "kappa_sound des seeds (fs_kappa ?st)"
    using Cons.prems by (intro seed_sound derives.assumed) auto
  have IH: "kappa_sound des seeds (fs_kappa (fold (\<lambda>s. seed s K_INF None) xs ?st))"
    "kappa_le (fs_kappa ?st) (fs_kappa (fold (\<lambda>s. seed s K_INF None) xs ?st))"
    "\<forall>s \<in> set xs. map_of (fs_kappa (fold (\<lambda>s. seed s K_INF None) xs ?st)) s = Some K_INF"
    using Cons.IH [OF _ sound] Cons.prems(1) by auto
  have "map_of (fs_kappa ?st) x = Some K_INF"
    by (auto simp: seed_kappa max_absorb1 split: option.splits)
  from kappa_leD [OF IH(2) this] have "map_of (fs_kappa (fold (\<lambda>s. seed s K_INF None) xs ?st)) x = Some K_INF"
    by auto
  with IH kappa_le_trans [OF seed_le IH(2)] show ?case by simp
qed

lemma seeded_ok:
  "kappa_sound des seeds (fs_kappa (seeded des seeds)) \<and> seeds_known des seeds (fs_kappa (seeded des seeds))"
proof -
  let ?st = "fold seed_edge des \<lparr> fs_kappa = [], fs_depth = [], fs_best = [] \<rparr>"
  have start: "kappa_sound des seeds (fs_kappa \<lparr> fs_kappa = [], fs_depth = [], fs_best = [] \<rparr>)"
    by (simp add: kappa_sound_def)
  note edges = fold_seed_edges [OF order.refl start]
  have "kappa_sound des seeds (fs_kappa ?st)" using edges by blast
  note extra = fold_extra_seeds [OF order.refl this]
  have "\<exists>k. map_of (fs_kappa (seeded des seeds)) (e_conclusion e) = Some k \<and> e_kappa e \<le> k"
    if mem: "(h, e) \<in> set des" "e_premises e = []" for h e
  proof -
    obtain k where k: "map_of (fs_kappa ?st) (e_conclusion e) = Some k" "e_kappa e \<le> k"
      using bspec [OF conjunct2 [OF conjunct2 [OF edges]] mem(1)] mem(2) unfolding prod.case by blast
    from kappa_leD [OF conjunct1 [OF conjunct2 [OF extra]] k(1)] k(2) show ?thesis
      unfolding seeded_def using order.trans by blast
  qed
  with extra show ?thesis by (auto simp: seeded_def seeds_known_def)
qed

lemma kappa_fixpoint_ok:
  shows "kappa_sound des seeds (fs_kappa (fixpoint des seeds))"
    and "derives des seeds n k \<Longrightarrow> \<exists>k'. map_of (fs_kappa (fixpoint des seeds)) n = Some k' \<and> k \<le> k'"
proof -
  let ?st = "seeded des seeds"
  obtain kap best where loop: "kappa_loop des (fs_kappa ?st) (fs_best ?st) = (kap, best)"
    by (cases "kappa_loop des (fs_kappa ?st) (fs_best ?st)")
  then have loop_eq: "fs_kappa (fixpoint des seeds) = kap"
    by (simp add: fixpoint_def Let_def)
  have st: "kappa_sound des seeds (fs_kappa ?st)" "seeds_known des seeds (fs_kappa ?st)"
    using seeded_ok [of des seeds] by simp_all
  from kappa_loop_ok [OF st(1) loop]
  have kap: "kappa_sound des seeds kap" "kappa_le (fs_kappa ?st) kap"
    "\<forall>(h, e) \<in> set des. \<not> kappa_fires kap e" by simp_all
  show "kappa_sound des seeds (fs_kappa (fixpoint des seeds))" using kap(1) loop_eq by simp
  show "\<exists>k'. map_of (fs_kappa (fixpoint des seeds)) n = Some k' \<and> k \<le> k'" if "derives des seeds n k"
    using stable_complete [OF seeds_known_le [OF st(2) kap(2)] kap(3) that] loop_eq by simp
qed

lemma kappa_fixpoint_iff:
  "map_of (fs_kappa (fixpoint des seeds)) n = Some k \<longleftrightarrow>
     derives des seeds n k \<and> (\<forall>k'. derives des seeds n k' \<longrightarrow> k' \<le> k)"
  using kappa_fixpoint_ok [of des seeds] kappa_soundD [OF kappa_fixpoint_ok(1)]
  by (metis antisym option.inject)

lemma kappa_fixpoint_None_iff:
  "map_of (fs_kappa (fixpoint des seeds)) n = None \<longleftrightarrow> (\<nexists>k. derives des seeds n k)"
  using kappa_fixpoint_ok [of des seeds] kappa_soundD [OF kappa_fixpoint_ok(1)]
  by (metis not_None_eq)

section \<open>The depth loop\<close>

definition depth_sound :: "derivations \<Rightarrow> hash list \<Rightarrow> (hash, nat) dict \<Rightarrow> bool" where
  "depth_sound des seeds dep \<longleftrightarrow> (\<forall>n d. map_of dep n = Some d \<longrightarrow> derives_at des seeds n d)"

definition depth_le :: "(hash, nat) dict \<Rightarrow> (hash, nat) dict \<Rightarrow> bool" where
  "depth_le dep dep' \<longleftrightarrow> (\<forall>n d. map_of dep n = Some d \<longrightarrow> (\<exists>d'. map_of dep' n = Some d' \<and> d' \<le> d))"

lemma depth_le_refl: "depth_le dep dep"
  by (simp add: depth_le_def)

lemma depth_le_trans: "depth_le a b \<Longrightarrow> depth_le b c \<Longrightarrow> depth_le a c"
  unfolding depth_le_def by (meson order.trans)

lemma depth_soundD: "depth_sound des seeds dep \<Longrightarrow> map_of dep n = Some d \<Longrightarrow> derives_at des seeds n d"
  by (simp add: depth_sound_def)

lemma depth_leD: "depth_le dep dep' \<Longrightarrow> map_of dep n = Some d \<Longrightarrow> \<exists>d'. map_of dep' n = Some d' \<and> d' \<le> d"
  by (simp add: depth_le_def)

lemma depth_step_sound:
  assumes "(h, e) \<in> set des" and "depth_sound des seeds dep"
    and "depth_step kap (h, e) (dep, ch) = (dep', ch')"
  shows "depth_sound des seeds dep' \<and> depth_le dep dep'"
proof (cases rule: depth_step_cases [of kap h e dep ch])
  case same
  with assms show ?thesis by (simp add: depth_le_refl)
next
  case update
  have "derives_at des seeds (e_conclusion e) (path_depth dep e)"
    unfolding path_depth_def
  proof (rule derives_at.step [OF assms(1)])
    fix p
    assume "p \<in> set (e_premises e)"
    then obtain d where "map_of dep p = Some d"
      using update(2) by (auto simp: depth_fires_def)
    with depth_soundD [OF assms(2)] show "derives_at des seeds p (the (map_of dep p))" by simp
  qed (use update(2) in \<open>simp add: depth_fires_def\<close>)
  with update assms(2,3) show ?thesis
    by (auto simp: depth_sound_def depth_le_def depth_fires_def intro: less_imp_le)
qed

lemma depth_pass_sound:
  assumes "set des' \<subseteq> set des" and "depth_sound des seeds dep"
    and "depth_pass des' kap (dep, ch) = (dep', ch')"
  shows "depth_sound des seeds dep' \<and> depth_le dep dep'"
  using assms
proof (induction des' arbitrary: dep ch)
  case Nil
  then show ?case by (simp add: depth_pass_def depth_le_refl)
next
  case (Cons he des')
  obtain h e where he: "he = (h, e)" by (cases he)
  obtain dep1 ch1 where step: "depth_step kap (h, e) (dep, ch) = (dep1, ch1)"
    by (cases "depth_step kap (h, e) (dep, ch)")
  have "(h, e) \<in> set des" using Cons.prems(1) he by simp
  from depth_step_sound [OF this Cons.prems(2) step]
  have one: "depth_sound des seeds dep1" "depth_le dep dep1" by simp_all
  have "depth_pass des' kap (dep1, ch1) = (dep', ch')"
    using Cons.prems(3) step he by (simp add: depth_pass_def)
  with Cons.IH [OF _ one(1)] Cons.prems(1) one(2) depth_le_trans show ?case by auto
qed

lemma depth_pass_flag: "depth_pass des kap (dep, True) = (dep', ch') \<Longrightarrow> ch'"
proof (induction des arbitrary: dep)
  case (Cons he des)
  obtain h e where he: "he = (h, e)" by (cases he)
  have "\<exists>dep1. depth_step kap (h, e) (dep, True) = (dep1, True)"
    by (simp add: depth_step_eq)
  then obtain dep1 where "depth_step kap (h, e) (dep, True) = (dep1, True)" by blast
  with Cons.prems he have "depth_pass des kap (dep1, True) = (dep', ch')"
    by (simp add: depth_pass_def)
  then show ?case by (rule Cons.IH)
qed (simp add: depth_pass_def)

lemma depth_pass_stable:
  assumes "depth_pass des kap (dep, False) = (dep', False)"
  shows "dep' = dep \<and> (\<forall>(h, e) \<in> set des. \<not> depth_fires kap dep e)"
  using assms
proof (induction des)
  case Nil
  then show ?case by (simp add: depth_pass_def)
next
  case (Cons he des)
  obtain h e where he: "he = (h, e)" by (cases he)
  have rest: "depth_pass des kap (depth_step kap (h, e) (dep, False)) = (dep', False)"
    using Cons.prems he by (simp add: depth_pass_def)
  have "\<not> depth_fires kap dep e"
    using rest depth_pass_flag [of des kap _ dep' False] by (auto simp: depth_step_eq split: if_splits)
  with rest Cons.IH he show ?case by (simp add: depth_step_eq)
qed

lemma depth_loop_ok:
  assumes "depth_sound des seeds dep"
  shows "depth_sound des seeds (depth_loop des kap dep) \<and> depth_le dep (depth_loop des kap dep) \<and>
    (\<forall>(h, e) \<in> set des. \<not> depth_fires kap (depth_loop des kap dep) e)"
  using assms
proof (induction des kap dep rule: depth_loop.induct)
  case (1 des kap dep)
  obtain dep1 ch where pass: "depth_pass des kap (dep, False) = (dep1, ch)"
    by (cases "depth_pass des kap (dep, False)")
  from depth_pass_sound [OF order.refl "1.prems" pass]
  have one: "depth_sound des seeds dep1" "depth_le dep dep1" by simp_all
  show ?case
  proof (cases ch)
    case True
    with pass have "depth_loop des kap dep = depth_loop des kap dep1"
      by (simp add: depth_loop.simps [of des kap dep])
    with "1.IH" [OF pass [symmetric] True one(1)] one(2) depth_le_trans show ?thesis by auto
  next
    case False
    with pass have eq: "depth_loop des kap dep = dep1"
      by (simp add: depth_loop.simps [of des kap dep])
    from False pass depth_pass_stable [of des kap dep dep1] one show ?thesis by (simp add: eq)
  qed
qed

definition seeds_shallow :: "derivations \<Rightarrow> hash list \<Rightarrow> (hash, nat) dict \<Rightarrow> bool" where
  "seeds_shallow des seeds dep \<longleftrightarrow>
     (\<forall>(h, e) \<in> set des. e_premises e = [] \<longrightarrow> map_of dep (e_conclusion e) = Some 0) \<and>
     (\<forall>s \<in> set seeds. map_of dep s = Some 0)"

lemma depth_le_0: "depth_le dep dep' \<Longrightarrow> map_of dep n = Some 0 \<Longrightarrow> map_of dep' n = Some 0"
  using depth_leD by fastforce

lemma seeds_shallow_le: "seeds_shallow des seeds dep \<Longrightarrow> depth_le dep dep' \<Longrightarrow> seeds_shallow des seeds dep'"
  unfolding seeds_shallow_def using depth_le_0 by blast

lemma depth_stable_complete:
  assumes "seeds_shallow des seeds dep" and "\<forall>(h, e) \<in> set des. \<not> depth_fires kap dep e"
    and "\<forall>n k. derives des seeds n k \<longrightarrow> map_of kap n \<noteq> None"
    and "derives_at des seeds n d"
  shows "\<exists>d'. map_of dep n = Some d' \<and> d' \<le> d"
  using assms(4)
proof induction
  case (axiom h e)
  with assms(1) show ?case by (auto simp: seeds_shallow_def)
next
  case (assumed s)
  with assms(1) show ?case by (auto simp: seeds_shallow_def)
next
  case (step h e f)
  have known: "\<forall>p \<in> set (e_premises e). map_of dep p \<noteq> None" using step.IH by fastforce
  have "derives_at des seeds (e_conclusion e) (1 + Max (f ` set (e_premises e)))"
    by (rule derives_at.step) (use step in auto)
  then have "\<exists>k. derives des seeds (e_conclusion e) k" using derives_iff_derives_at by blast
  with assms(3) have in_kappa: "map_of kap (e_conclusion e) \<noteq> None" by blast
  have "the (map_of dep p) \<le> Max (f ` set (e_premises e))" if p: "p \<in> set (e_premises e)" for p
  proof -
    obtain d' where "map_of dep p = Some d'" "d' \<le> f p" using step.IH [OF p] by blast
    moreover have "f p \<le> Max (f ` set (e_premises e))" using p by simp
    ultimately show ?thesis by simp
  qed
  then have le: "path_depth dep e \<le> 1 + Max (f ` set (e_premises e))"
    unfolding path_depth_def using step.hyps(2) by (intro add_left_mono Max.boundedI) auto
  have "\<not> depth_fires kap dep e" using assms(2) step.hyps(1) by auto
  then obtain d' where "map_of dep (e_conclusion e) = Some d'" "d' \<le> path_depth dep e"
    using step.hyps(2) known in_kappa by (auto simp: depth_fires_def not_less)
  with le show ?case by auto
qed

lemma seed_depth: "fs_depth (seed n k h st) = dict_set n 0 (fs_depth st)"
  by (simp add: seed_def)

lemma fold_seed_edges_depth:
  "map_of (fs_depth (fold seed_edge des st)) n =
     (if \<exists>(h, e) \<in> set des. e_premises e = [] \<and> e_conclusion e = n then Some 0
      else map_of (fs_depth st) n)"
  by (induction des arbitrary: st) (auto simp: seed_edge_def seed_depth split: if_splits)

lemma fold_extra_seeds_depth:
  "map_of (fs_depth (fold (\<lambda>s. seed s K_INF None) xs st)) n =
     (if n \<in> set xs then Some 0 else map_of (fs_depth st) n)"
  by (induction xs arbitrary: st) (auto simp: seed_depth)

lemma seeded_depth:
  "map_of (fs_depth (seeded des seeds)) n =
     (if n \<in> set seeds \<or> (\<exists>(h, e) \<in> set des. e_premises e = [] \<and> e_conclusion e = n) then Some 0 else None)"
  by (simp add: seeded_def fold_extra_seeds_depth fold_seed_edges_depth)

lemma seeded_depth_ok:
  "depth_sound des seeds (fs_depth (seeded des seeds)) \<and> seeds_shallow des seeds (fs_depth (seeded des seeds))"
  by (auto simp: depth_sound_def seeds_shallow_def seeded_depth
      intro: derives_at.axiom derives_at.assumed split: if_splits)

lemma depth_fixpoint_iff:
  "map_of (fs_depth (fixpoint des seeds)) n = Some d \<longleftrightarrow>
     derives_at des seeds n d \<and> (\<forall>d'. derives_at des seeds n d' \<longrightarrow> d \<le> d')"
  and depth_fixpoint_None_iff:
  "map_of (fs_depth (fixpoint des seeds)) n = None \<longleftrightarrow> (\<nexists>d. derives_at des seeds n d)"
proof -
  let ?st = "seeded des seeds"
  obtain kap best where loop: "kappa_loop des (fs_kappa ?st) (fs_best ?st) = (kap, best)"
    by (cases "kappa_loop des (fs_kappa ?st) (fs_best ?st)")
  define dep where "dep = depth_loop des kap (fs_depth ?st)"
  have dep_eq: "fs_depth (fixpoint des seeds) = dep" and kap: "fs_kappa (fixpoint des seeds) = kap"
    using loop by (simp_all add: fixpoint_def Let_def dep_def)
  have st: "depth_sound des seeds (fs_depth ?st)" "seeds_shallow des seeds (fs_depth ?st)"
    using seeded_depth_ok [of des seeds] by simp_all
  from depth_loop_ok [OF st(1), of kap]
  have dep: "depth_sound des seeds dep" "depth_le (fs_depth ?st) dep"
    "\<forall>(h, e) \<in> set des. \<not> depth_fires kap dep e" by (simp_all add: dep_def)
  have in_kap: "\<forall>n k. derives des seeds n k \<longrightarrow> map_of kap n \<noteq> None"
    using kappa_fixpoint_ok(2) by (fastforce simp: kap)
  note complete = depth_stable_complete [OF seeds_shallow_le [OF st(2) dep(2)] dep(3) in_kap]
  show "map_of (fs_depth (fixpoint des seeds)) n = Some d \<longleftrightarrow>
     derives_at des seeds n d \<and> (\<forall>d'. derives_at des seeds n d' \<longrightarrow> d \<le> d')"
    (is "?l \<longleftrightarrow> ?r")
  proof
    assume l: ?l
    then have "derives_at des seeds n d" using depth_soundD [OF dep(1)] by (simp add: dep_eq)
    moreover have "d \<le> d'" if "derives_at des seeds n d'" for d'
      using complete [OF that] l by (auto simp: dep_eq)
    ultimately show ?r by blast
  next
    assume r: ?r
    then obtain d' where d': "map_of dep n = Some d'" "d' \<le> d" using complete by blast
    with r depth_soundD [OF dep(1) d'(1)] show ?l by (auto simp: dep_eq)
  qed
  show "map_of (fs_depth (fixpoint des seeds)) n = None \<longleftrightarrow> (\<nexists>d. derives_at des seeds n d)"
    unfolding dep_eq using complete [of n] depth_soundD [OF dep(1), of n]
    by (cases "map_of dep n") fastforce+
qed

end
