(* ===== verification/Proof_Tree.thy ===== *)
theory Proof_Tree
  imports Reachability_Correct
begin

text \<open>
  The proof tree \<^verbatim>\<open>query/reachability.py\<close> returns. The pointers \<open>best_edge\<close> are shown to be free of
  cycles: an edge is recorded for a node only when it raises the node above everything that rests on
  it. So the edges collected from a target derive it, and with its full strength unless one node has
  several zero-premise edges, when the last of them overwrites the best.
\<close>

section \<open>What the pointers say\<close>

definition unique_axioms :: "derivations \<Rightarrow> hash list \<Rightarrow> bool" where
  "unique_axioms des seeds \<longleftrightarrow>
     (\<forall>(h, e) \<in> set des. e_premises e = [] \<longrightarrow>
        e_conclusion e \<notin> set seeds \<and>
        (\<forall>(h', e') \<in> set des. e_premises e' = [] \<longrightarrow> e_conclusion e' = e_conclusion e \<longrightarrow>
           e_kappa e' = e_kappa e))"

definition pointer_ok ::
    "derivations \<Rightarrow> hash list \<Rightarrow> (hash, Kappa) dict \<Rightarrow> hash \<Rightarrow> hash \<Rightarrow> bool" where
  "pointer_ok des seeds kap n h \<longleftrightarrow>
     (\<exists>e. map_of des h = Some e \<and> e_conclusion e = n \<and>
        (\<forall>k. map_of kap n = Some k \<longrightarrow>
           (e_premises e \<noteq> [] \<or> unique_axioms des seeds \<longrightarrow> k \<le> e_kappa e) \<and>
           (\<forall>p \<in> set (e_premises e). \<exists>kp. map_of kap p = Some kp \<and> k \<le> kp)))"

inductive supported ::
    "derivations \<Rightarrow> hash list \<Rightarrow> (hash, hash) dict \<Rightarrow> hash \<Rightarrow> bool" for des seeds best where
  assumed: "n \<in> set seeds \<Longrightarrow> map_of best n = None \<Longrightarrow> supported des seeds best n"
| via: "map_of best n = Some h \<Longrightarrow> map_of des h = Some e \<Longrightarrow> e_conclusion e = n \<Longrightarrow>
    (\<And>p. p \<in> set (e_premises e) \<Longrightarrow> supported des seeds best p) \<Longrightarrow> supported des seeds best n"

definition pointers_ok ::
    "derivations \<Rightarrow> hash list \<Rightarrow> (hash, Kappa) dict \<Rightarrow> (hash, hash) dict \<Rightarrow> bool" where
  "pointers_ok des seeds kap best \<longleftrightarrow>
     (\<forall>n h. map_of best n = Some h \<longrightarrow> map_of kap n \<noteq> None \<and> pointer_ok des seeds kap n h) \<and>
     (\<forall>n. map_of kap n \<noteq> None \<longrightarrow> supported des seeds best n)"

lemma pointer_okE:
  assumes "pointers_ok des seeds kap best" and "map_of best n = Some h" and "map_of des h = Some e"
    and "map_of kap n = Some k" and "p \<in> set (e_premises e)"
  obtains kp where "map_of kap p = Some kp" and "k \<le> kp"
proof -
  have "pointer_ok des seeds kap n h" using assms(1,2) by (simp add: pointers_ok_def)
  then have "\<exists>kp. map_of kap p = Some kp \<and> k \<le> kp"
    using assms(3-5) unfolding pointer_ok_def by auto
  then show ?thesis using that by blast
qed

text \<open>A node whose strength lies above that of \<open>c\<close> does not rest on \<open>c\<close>.\<close>

lemma supported_above:
  assumes ok: "pointers_ok des seeds kap best"
    and "supported des seeds best n" and "map_of kap n = Some k"
    and above: "\<And>k. map_of kap c = Some k \<Longrightarrow> k < m" and "m \<le> k"
  shows "supported des seeds (dict_set c h best) n"
  using assms(2,3,5)
proof (induction arbitrary: k)
  case (assumed n)
  then have "n \<noteq> c" using above [of k] by auto
  with assumed show ?case by (intro supported.assumed) auto
next
  case (via n h' e)
  have "n \<noteq> c" using via.prems above [of k] by auto
  show ?case
  proof (rule supported.via)
    show "map_of (dict_set c h best) n = Some h'" using via.hyps(1) \<open>n \<noteq> c\<close> by simp
    fix p
    assume p: "p \<in> set (e_premises e)"
    obtain kp where "map_of kap p = Some kp" "k \<le> kp"
      using pointer_okE [OF ok via.hyps(1,2) via.prems(1) p] by blast
    with via.IH [OF p] via.prems(2) show "supported des seeds (dict_set c h best) p" by auto
  qed (use via.hyps in auto)
qed

lemma path_strength_le:
  "path_strength kap e \<le> e_kappa e"
  "p \<in> set (e_premises e) \<Longrightarrow> path_strength kap e \<le> the (map_of kap p)"
  by (auto simp: path_strength_def intro: Min.coboundedI simp del: Min_insert)

lemma update_pointers:
  assumes ok: "pointers_ok des seeds kap best" and e: "map_of des h = Some e"
    and fires: "kappa_fires kap e"
  shows "pointers_ok des seeds (dict_set (e_conclusion e) (path_strength kap e) kap)
           (dict_set (e_conclusion e) h best)"
proof -
  let ?c = "e_conclusion e" and ?s = "path_strength kap e"
  let ?kap = "dict_set ?c ?s kap" and ?best = "dict_set ?c h best"
  have below: "k < ?s" if "map_of kap ?c = Some k" for k
    using fires that by (simp add: kappa_fires_def)
  have prem: "\<exists>kp. map_of kap p = Some kp \<and> ?s \<le> kp" if "p \<in> set (e_premises e)" for p
    using fires path_strength_le(2) [OF that, of kap] that by (auto simp: kappa_fires_def)
  have sup_c: "supported des seeds ?best ?c"
  proof (rule supported.via [OF _ e])
    fix p
    assume "p \<in> set (e_premises e)"
    then obtain kp where kp: "map_of kap p = Some kp" "?s \<le> kp" using prem by blast
    moreover from kp ok have "supported des seeds best p" by (simp add: pointers_ok_def)
    ultimately show "supported des seeds ?best p" using supported_above [OF ok _ _ below] by blast
  qed simp_all
  have sup: "supported des seeds ?best n" if "supported des seeds best n" for n
    using that
  proof induction
    case (assumed n)
    then show ?case using sup_c by (cases "n = ?c") (auto intro: supported.assumed)
  next
    case (via n h' e')
    then show ?case using sup_c by (cases "n = ?c") (auto intro: supported.via)
  qed
  have up: "\<exists>kp'. map_of ?kap p = Some kp' \<and> kp \<le> kp'" if "map_of kap p = Some kp" for p kp
    using that below by (auto intro: less_imp_le)
  have "pointer_ok des seeds ?kap n h'" if "map_of ?best n = Some h'" for n h'
  proof (cases "n = ?c")
    case True
    with that have "h' = h" by simp
    moreover have "\<exists>kp. map_of ?kap p = Some kp \<and> ?s \<le> kp" if "p \<in> set (e_premises e)" for p
      using prem [OF that] up order.trans by blast
    ultimately show ?thesis
      using e True path_strength_le(1) [of kap e] by (auto simp: pointer_ok_def)
  next
    case False
    with that ok have "pointer_ok des seeds kap n h'" by (simp add: pointers_ok_def)
    then obtain e' where e': "map_of des h' = Some e'" "e_conclusion e' = n"
      and le: "\<And>k. map_of kap n = Some k \<Longrightarrow> (e_premises e' \<noteq> [] \<or> unique_axioms des seeds \<longrightarrow> k \<le> e_kappa e')"
      and ps: "\<And>k p. map_of kap n = Some k \<Longrightarrow> p \<in> set (e_premises e') \<Longrightarrow>
        \<exists>kp. map_of kap p = Some kp \<and> k \<le> kp"
      unfolding pointer_ok_def by blast
    have "map_of ?kap n = map_of kap n" using False by simp
    moreover have "\<exists>kp. map_of ?kap p = Some kp \<and> k \<le> kp"
      if k: "map_of kap n = Some k" "p \<in> set (e_premises e')" for k p
    proof -
      obtain kp where "map_of kap p = Some kp" "k \<le> kp" using ps [OF k] by blast
      with up order.trans show ?thesis by blast
    qed
    ultimately show ?thesis unfolding pointer_ok_def using e' le by metis
  qed
  moreover have "map_of ?kap n \<noteq> None" if "map_of ?best n = Some h'" for n h'
    using ok that by (cases "n = ?c") (auto simp: pointers_ok_def)
  moreover have "supported des seeds ?best n" if "map_of ?kap n \<noteq> None" for n
    using ok that sup sup_c by (cases "n = ?c") (auto simp: pointers_ok_def)
  ultimately show ?thesis unfolding pointers_ok_def by blast
qed

lemma kappa_pass_pointers:
  assumes "set des' \<subseteq> set des" and "distinct (map fst des)" and "pointers_ok des seeds kap best"
    and "kappa_pass des' (kap, best, ch) = (kap', best', ch')"
  shows "pointers_ok des seeds kap' best'"
  using assms
proof (induction des' arbitrary: kap best ch)
  case Nil
  then show ?case by (simp add: kappa_pass_def)
next
  case (Cons he des')
  obtain h e where he: "he = (h, e)" by (cases he)
  obtain kap1 best1 ch1 where step: "kappa_step (h, e) (kap, best, ch) = (kap1, best1, ch1)"
    by (cases "kappa_step (h, e) (kap, best, ch)")
  have "map_of des h = Some e" using Cons.prems(1,2) he by simp
  with Cons.prems(3) step update_pointers have one: "pointers_ok des seeds kap1 best1"
    by (auto simp: kappa_step_eq split: if_splits)
  have "kappa_pass des' (kap1, best1, ch1) = (kap', best', ch')"
    using Cons.prems(4) step he by (simp add: kappa_pass_def)
  with Cons.IH [OF _ Cons.prems(2) one] Cons.prems(1) show ?case by auto
qed

lemma kappa_loop_pointers:
  assumes "distinct (map fst des)" and "pointers_ok des seeds kap best"
    and "kappa_loop des kap best = (kap', best')"
  shows "pointers_ok des seeds kap' best'"
  using assms
proof (induction des kap best rule: kappa_loop.induct)
  case (1 des kap best)
  obtain kap1 best1 ch where pass: "kappa_pass des (kap, best, False) = (kap1, best1, ch)"
    by (cases "kappa_pass des (kap, best, False)")
  from kappa_pass_pointers [OF order.refl "1.prems"(1,2) pass]
  have one: "pointers_ok des seeds kap1 best1" .
  show ?case
  proof (cases ch)
    case True
    with "1.prems"(3) pass have "kappa_loop des kap1 best1 = (kap', best')"
      by (simp add: kappa_loop.simps [of des kap])
    with "1.IH" [OF pass [symmetric] refl True "1.prems"(1) one] show ?thesis by blast
  next
    case False
    with "1.prems"(3) pass one show ?thesis by (simp add: kappa_loop.simps [of des kap])
  qed
qed

section \<open>The pointers of the seeds\<close>

definition seed_pointers :: "derivations \<Rightarrow> hash list \<Rightarrow> fix_state \<Rightarrow> bool" where
  "seed_pointers des seeds st \<longleftrightarrow>
     (\<forall>n h. map_of (fs_best st) n = Some h \<longrightarrow> map_of (fs_kappa st) n \<noteq> None \<and>
        (\<exists>e. map_of des h = Some e \<and> e_conclusion e = n \<and> e_premises e = [] \<and>
           (unique_axioms des seeds \<longrightarrow> map_of (fs_kappa st) n = Some (e_kappa e)))) \<and>
     (\<forall>n. map_of (fs_kappa st) n \<noteq> None \<longrightarrow> map_of (fs_best st) n \<noteq> None \<or> n \<in> set seeds)"

lemma seed_pointersD:
  assumes "seed_pointers des seeds st" and "map_of (fs_best st) n = Some h"
  obtains e where "map_of des h = Some e" "e_conclusion e = n" "e_premises e = []"
    "map_of (fs_kappa st) n \<noteq> None"
    "unique_axioms des seeds \<Longrightarrow> map_of (fs_kappa st) n = Some (e_kappa e)"
  using assms unfolding seed_pointers_def by blast

lemma unique_axiomsD:
  assumes "unique_axioms des seeds" and "map_of des h = Some e" and "e_premises e = []"
  shows "e_conclusion e \<notin> set seeds"
    and "map_of des h' = Some e' \<Longrightarrow> e_premises e' = [] \<Longrightarrow> e_conclusion e' = e_conclusion e \<Longrightarrow>
      e_kappa e' = e_kappa e"
proof -
  note U = bspec [OF assms(1) [unfolded unique_axioms_def] map_of_SomeD [OF assms(2)], simplified]
  show "e_conclusion e \<notin> set seeds" using U assms(3) by blast
  assume "map_of des h' = Some e'" "e_premises e' = []" "e_conclusion e' = e_conclusion e"
  with U assms(3) map_of_SomeD [of des h' e'] show "e_kappa e' = e_kappa e" by fastforce
qed

lemma best_seed:
  "fs_best (seed n k (Some h) st) = dict_set n h (fs_best st)" "fs_best (seed n k None st) = fs_best st"
  by (simp_all add: seed_def)

lemma seed_edge_pointers:
  assumes ok: "seed_pointers des seeds st" and e: "map_of des h = Some e"
  shows "seed_pointers des seeds (seed_edge (h, e) st)"
proof (cases "e_premises e = []")
  case True
  let ?c = "e_conclusion e" and ?st = "seed (e_conclusion e) (e_kappa e) (Some h) st"
  have kap_c: "map_of (fs_kappa ?st) ?c = Some (e_kappa e)" if u: "unique_axioms des seeds"
  proof (cases "map_of (fs_kappa st) ?c")
    case None
    then show ?thesis by (simp add: seed_kappa)
  next
    case (Some k)
    have "map_of (fs_best st) ?c \<noteq> None"
      using ok Some unique_axiomsD(1) [OF u e True] unfolding seed_pointers_def by auto
    then obtain h0 where "map_of (fs_best st) ?c = Some h0" by auto
    with ok obtain e0 where "map_of des h0 = Some e0" "e_conclusion e0 = ?c" "e_premises e0 = []"
      "map_of (fs_kappa st) ?c = Some (e_kappa e0)"
      using seed_pointersD u by metis
    with unique_axiomsD(2) [OF u e True] show ?thesis by (simp add: seed_kappa)
  qed
  have other: "map_of (fs_kappa ?st) n = map_of (fs_kappa st) n" if "n \<noteq> ?c" for n
    using that by (simp add: seed_kappa)
  have "map_of (fs_kappa ?st) n \<noteq> None \<and> (\<exists>e'. map_of des h' = Some e' \<and> e_conclusion e' = n \<and>
      e_premises e' = [] \<and> (unique_axioms des seeds \<longrightarrow> map_of (fs_kappa ?st) n = Some (e_kappa e')))"
    if "map_of (fs_best ?st) n = Some h'" for n h'
  proof (cases "n = ?c")
    case True
    with that have "h' = h" by (simp add: best_seed)
    with True e \<open>e_premises e = []\<close> kap_c show ?thesis by (simp add: seed_kappa)
  next
    case False
    with that have "map_of (fs_best st) n = Some h'" by (simp add: best_seed)
    with ok other [OF False] show ?thesis unfolding seed_pointers_def by metis
  qed
  moreover have "map_of (fs_best ?st) n \<noteq> None \<or> n \<in> set seeds" if "map_of (fs_kappa ?st) n \<noteq> None" for n
    using that ok by (cases "n = ?c") (auto simp: best_seed other seed_pointers_def)
  ultimately show ?thesis
    using True unfolding seed_pointers_def seed_edge_def prod.case by simp
next
  case False
  with ok show ?thesis by (simp add: seed_edge_def)
qed

lemma seed_extra_pointers:
  assumes ok: "seed_pointers des seeds st" and s: "s \<in> set seeds"
  shows "seed_pointers des seeds (seed s K_INF None st)"
proof -
  have "map_of (fs_kappa (seed s K_INF None st)) n \<noteq> None \<and> (\<exists>e. map_of des h = Some e \<and>
      e_conclusion e = n \<and> e_premises e = [] \<and>
      (unique_axioms des seeds \<longrightarrow> map_of (fs_kappa (seed s K_INF None st)) n = Some (e_kappa e)))"
    if best: "map_of (fs_best (seed s K_INF None st)) n = Some h" for n h
  proof -
    have "map_of (fs_best st) n = Some h" using best by (simp add: best_seed)
    then obtain e where e: "map_of des h = Some e" "e_conclusion e = n" "e_premises e = []"
      "map_of (fs_kappa st) n \<noteq> None"
      "unique_axioms des seeds \<Longrightarrow> map_of (fs_kappa st) n = Some (e_kappa e)"
      using seed_pointersD [OF ok] by metis
    have "n \<noteq> s" if "unique_axioms des seeds" using unique_axiomsD(1) [OF that e(1,3)] e(2) s by auto
    with e show ?thesis by (auto simp: seed_kappa)
  qed
  moreover have "map_of (fs_best (seed s K_INF None st)) n \<noteq> None \<or> n \<in> set seeds"
    if "map_of (fs_kappa (seed s K_INF None st)) n \<noteq> None" for n
    using that ok s by (cases "n = s") (auto simp: seed_kappa best_seed seed_pointers_def)
  ultimately show ?thesis unfolding seed_pointers_def by blast
qed

lemma seeded_pointers:
  assumes "distinct (map fst des)"
  shows "seed_pointers des seeds (seeded des seeds)"
proof -
  have edges: "seed_pointers des seeds (fold seed_edge des' st)"
    if "set des' \<subseteq> set des" "seed_pointers des seeds st" for des' st
    using that assms by (induction des' arbitrary: st) (auto simp: seed_edge_pointers)
  have extra: "seed_pointers des seeds (fold (\<lambda>s. seed s K_INF None) xs st)"
    if "set xs \<subseteq> set seeds" "seed_pointers des seeds st" for xs st
    using that by (induction xs arbitrary: st) (auto simp: seed_extra_pointers)
  have start: "seed_pointers des seeds \<lparr> fs_kappa = [], fs_depth = [], fs_best = [] \<rparr>"
    by (simp add: seed_pointers_def)
  show ?thesis
    unfolding seeded_def by (rule extra [OF order.refl edges [OF order.refl start]])
qed

lemma seed_pointers_ok:
  assumes "seed_pointers des seeds st"
  shows "pointers_ok des seeds (fs_kappa st) (fs_best st)"
proof -
  have "pointer_ok des seeds (fs_kappa st) n h" if "map_of (fs_best st) n = Some h" for n h
    using seed_pointersD [OF assms that] unfolding pointer_ok_def by (metis empty_iff list.set(1) option.inject order.refl)
  moreover have "supported des seeds (fs_best st) n" if n: "map_of (fs_kappa st) n \<noteq> None" for n
  proof (cases "map_of (fs_best st) n")
    case None
    with assms n have "n \<in> set seeds" by (auto simp: seed_pointers_def)
    with None show ?thesis by (simp add: supported.assumed)
  next
    case (Some h)
    from seed_pointersD [OF assms this] obtain e where
      e: "map_of des h = Some e" "e_conclusion e = n" "e_premises e = []" by metis
    show ?thesis by (rule supported.via [OF Some e(1,2)]) (simp add: e(3))
  qed
  moreover have "map_of (fs_kappa st) n \<noteq> None" if "map_of (fs_best st) n = Some h" for n h
    using seed_pointersD [OF assms that] by metis
  ultimately show ?thesis unfolding pointers_ok_def by blast
qed

lemma fixpoint_pointers:
  assumes "distinct (map fst des)"
  shows "pointers_ok des seeds (fs_kappa (fixpoint des seeds)) (fs_best (fixpoint des seeds))"
proof -
  let ?st = "seeded des seeds"
  obtain kap best where loop: "kappa_loop des (fs_kappa ?st) (fs_best ?st) = (kap, best)"
    by (cases "kappa_loop des (fs_kappa ?st) (fs_best ?st)")
  from kappa_loop_pointers [OF assms seed_pointers_ok [OF seeded_pointers [OF assms]] loop]
  show ?thesis using loop by (simp add: fixpoint_def Let_def)
qed

section \<open>The collected edges\<close>

definition tree_closed ::
    "(hash, hash) dict \<Rightarrow> (hash, edge) dict \<Rightarrow> hash list \<Rightarrow> hash list \<Rightarrow> bool" where
  "tree_closed best em edges stack \<longleftrightarrow>
     (\<forall>h e p h'. h \<in> set edges \<longrightarrow> map_of em h = Some e \<longrightarrow> p \<in> set (e_premises e) \<longrightarrow>
        map_of best p = Some h' \<longrightarrow> h' \<in> set edges \<or> p \<in> set stack)"

lemma proof_tree_loop_ok:
  assumes "tree_closed best em edges stack"
  shows "tree_closed best em (proof_tree_loop best em edges stack) [] \<and>
    set edges \<subseteq> set (proof_tree_loop best em edges stack) \<and>
    (\<forall>n h. n \<in> set stack \<longrightarrow> map_of best n = Some h \<longrightarrow> h \<in> set (proof_tree_loop best em edges stack)) \<and>
    set (proof_tree_loop best em edges stack) \<subseteq> set edges \<union> snd ` set best"
  using assms
proof (induction best em edges stack rule: proof_tree_loop.induct)
  case (1 best em edges)
  then show ?case by simp
next
  case (2 best em edges node stack)
  show ?case
  proof (cases "map_of best node")
    case None
    have "tree_closed best em edges stack"
      using "2.prems" None unfolding tree_closed_def by (metis option.distinct(1) set_ConsD)
    from "2.IH"(1) [OF None this] None show ?thesis by auto
  next
    case (Some h)
    show ?thesis
    proof (cases "h \<in> set edges")
      case True
      have "tree_closed best em edges stack"
        using "2.prems" Some True unfolding tree_closed_def by (metis option.inject set_ConsD)
      from "2.IH"(2) [OF Some True this] Some True show ?thesis by auto
    next
      case False
      let ?stack = "case map_of em h of None \<Rightarrow> stack | Some e \<Rightarrow> rev (e_premises e) @ stack"
      have "tree_closed best em (h # edges) ?stack"
        unfolding tree_closed_def
      proof (intro allI impI)
        fix g e p h'
        assume a: "g \<in> set (h # edges)" "map_of em g = Some e" "p \<in> set (e_premises e)"
          "map_of best p = Some h'"
        show "h' \<in> set (h # edges) \<or> p \<in> set ?stack"
        proof (cases "g = h")
          case False
          with a "2.prems" have "h' \<in> set edges \<or> p \<in> set (node # stack)"
            unfolding tree_closed_def by auto
          with a(4) Some show ?thesis by (auto split: option.splits)
        qed (use a in auto)
      qed
      from "2.IH"(3) [OF Some False this] Some False
      have *: "tree_closed best em (proof_tree_loop best em (h # edges) ?stack) []"
        "set (h # edges) \<subseteq> set (proof_tree_loop best em (h # edges) ?stack)"
        "\<forall>n h'. n \<in> set ?stack \<longrightarrow> map_of best n = Some h' \<longrightarrow>
           h' \<in> set (proof_tree_loop best em (h # edges) ?stack)"
        "set (proof_tree_loop best em (h # edges) ?stack) \<subseteq> set (h # edges) \<union> snd ` set best"
        by blast+
      have eq: "proof_tree_loop best em edges (node # stack) = proof_tree_loop best em (h # edges) ?stack"
        using Some False by simp
      have "h \<in> snd ` set best" using Some by (force dest: map_of_SomeD)
      moreover have "set stack \<subseteq> set ?stack" by (auto split: option.splits)
      ultimately show ?thesis using * Some unfolding eq by auto
    qed
  qed
qed

text \<open>Only pointers that \<open>map_of\<close> finds are followed.\<close>

lemma proof_tree_loop_pointers:
  "h \<in> set (proof_tree_loop best em edges stack) \<Longrightarrow>
     h \<in> set edges \<or> (\<exists>n. map_of best n = Some h)"
  by (induction best em edges stack rule: proof_tree_loop.induct)
    (auto split: option.splits if_splits)

lemma tree_subset:
  assumes "pointers_ok des seeds kap best" and "distinct (map fst des)"
    and "h \<in> set (proof_tree_loop best em [] stack)"
  shows "h \<in> fst ` set des"
proof -
  obtain n where "map_of best n = Some h" using proof_tree_loop_pointers [OF assms(3)] by auto
  with assms(1) obtain e where "map_of des h = Some e"
    unfolding pointers_ok_def pointer_ok_def by blast
  then show ?thesis by (force dest: map_of_SomeD)
qed

definition sub_derivations :: "hash list \<Rightarrow> derivations \<Rightarrow> derivations" where
  "sub_derivations T des = filter (\<lambda>(h, e). h \<in> set T) des"

lemma derives_path:
  assumes "(h, e) \<in> set des"
    and "\<forall>p \<in> set (e_premises e). \<exists>k'. derives des seeds p k' \<and> (u \<longrightarrow> k \<le> k')"
    and "u \<longrightarrow> k \<le> e_kappa e"
  shows "\<exists>k'. derives des seeds (e_conclusion e) k' \<and> (u \<longrightarrow> k \<le> k')"
proof (cases "e_premises e = []")
  case True
  with assms(1,3) derives.axiom show ?thesis by blast
next
  case False
  obtain f where f: "\<And>p. p \<in> set (e_premises e) \<Longrightarrow> derives des seeds p (f p)"
    "\<And>p. p \<in> set (e_premises e) \<Longrightarrow> u \<longrightarrow> k \<le> f p"
    using bchoice [OF assms(2)] by blast
  have "derives des seeds (e_conclusion e) (Min (insert (e_kappa e) (f ` set (e_premises e))))"
    by (rule derives.step [OF assms(1) False f(1)])
  moreover have "k \<le> Min (insert (e_kappa e) (f ` set (e_premises e)))" if u
    using that f(2) assms(3) by (subst Min_ge_iff) auto
  ultimately show ?thesis by blast
qed

lemma supported_derives:
  assumes ok: "pointers_ok des seeds kap best" and closed: "tree_closed best em T []"
    and em: "map_of em = map_of des" and "supported des seeds best n"
    and "\<And>h. map_of best n = Some h \<Longrightarrow> h \<in> set T" and "map_of kap n = Some k"
  shows "\<exists>k'. derives (sub_derivations T des) seeds n k' \<and> (unique_axioms des seeds \<longrightarrow> k \<le> k')"
  using assms(4-6)
proof (induction arbitrary: k)
  case (assumed n)
  then have "derives (sub_derivations T des) seeds n K_INF" by (intro derives.assumed)
  then show ?case by auto
next
  case (via n h e)
  have h: "h \<in> set T" using via.prems(1) via.hyps(1) .
  then have mem: "(h, e) \<in> set (sub_derivations T des)"
    using map_of_SomeD [OF via.hyps(2)] by (simp add: sub_derivations_def)
  have prem: "\<exists>k'. derives (sub_derivations T des) seeds p k' \<and> (unique_axioms des seeds \<longrightarrow> k \<le> k')"
    if p: "p \<in> set (e_premises e)" for p
  proof -
    obtain kp where kp: "map_of kap p = Some kp" "k \<le> kp"
      using pointer_okE [OF ok via.hyps(1,2) via.prems(2) p] by blast
    have "h' \<in> set T" if "map_of best p = Some h'" for h'
      using closed h p that via.hyps(2) em unfolding tree_closed_def by fastforce
    from via.IH [OF p this kp(1)] kp(2) show ?thesis by (meson order.trans)
  qed
  show ?case
  proof (cases "unique_axioms des seeds \<or> e_premises e \<noteq> []")
    case True
    have "pointer_ok des seeds kap n h" using ok via.hyps(1) by (simp add: pointers_ok_def)
    then have "k \<le> e_kappa e" using via.hyps(2) via.prems(2) True unfolding pointer_ok_def by auto
    with derives_path [OF mem, of seeds "unique_axioms des seeds" k] prem via.hyps(3) show ?thesis by blast
  next
    case False
    with derives.axiom [OF mem] via.hyps(3) show ?thesis by blast
  qed
qed

lemma derives_sub:
  "derives (sub_derivations T des) seeds n k \<Longrightarrow> derives des seeds n k"
proof (induction rule: derives.induct)
  case (axiom h e)
  then show ?case by (auto simp: sub_derivations_def intro: derives.axiom)
next
  case (assumed s)
  then show ?case by (rule derives.assumed)
next
  case (step h e f)
  then show ?case by (intro derives.step [of h]) (auto simp: sub_derivations_def)
qed

lemma collected_tree_derives:
  assumes dist: "distinct (map fst des)" and k: "map_of (fs_kappa (fixpoint des seeds)) n = Some k"
  defines "T \<equiv> collect_proof_tree n (fs_best (fixpoint des seeds)) (dict_of des)"
  shows "set T \<subseteq> fst ` set des"
    and "\<exists>k'. derives (sub_derivations T des) seeds n k' \<and> k' \<le> k \<and> (unique_axioms des seeds \<longrightarrow> k' = k)"
proof -
  let ?st = "fixpoint des seeds"
  let ?T = "proof_tree_loop (fs_best ?st) (dict_of des) [] [n]"
  have T: "set T = set ?T" by (simp add: T_def collect_proof_tree_def)
  have em: "map_of (dict_of des) = map_of des" by (rule map_of_dict_of_distinct [OF dist])
  note ok = fixpoint_pointers [OF dist, of seeds]
  have start: "tree_closed (fs_best ?st) (dict_of des) [] [n]" by (simp add: tree_closed_def)
  note loop = proof_tree_loop_ok [OF start]
  show sub: "set T \<subseteq> fst ` set des"
  proof
    fix h
    assume "h \<in> set T"
    with loop T have "h \<in> set ?T" by simp
    show "h \<in> fst ` set des"
      using tree_subset [OF ok dist \<open>h \<in> set ?T\<close>] .
  qed
  have "supported des seeds (fs_best ?st) n" using ok k by (simp add: pointers_ok_def)
  moreover have "h \<in> set ?T" if "map_of (fs_best ?st) n = Some h" for h using loop that by simp
  ultimately obtain k' where k': "derives (sub_derivations ?T des) seeds n k'"
    "unique_axioms des seeds \<longrightarrow> k \<le> k'"
    using supported_derives [OF ok conjunct1 [OF loop] em _ _ k] by blast
  have "sub_derivations T des = sub_derivations ?T des" by (simp add: sub_derivations_def T)
  moreover have "k' \<le> k" using derives_sub [OF k'(1)] k kappa_fixpoint_iff by blast
  ultimately show "\<exists>k'. derives (sub_derivations T des) seeds n k' \<and> k' \<le> k \<and>
      (unique_axioms des seeds \<longrightarrow> k' = k)"
    using k' by (auto intro: antisym)
qed

section \<open>The query\<close>

lemma reachable_eq:
  assumes "derivation_edges E storage active = Inr des"
  shows "reachable E storage target m seeds active = reachable_from des target m seeds"
  by (simp add: reachable_def assms)

text \<open>The two outcomes of the query, in terms of the fixpoint.\<close>

lemma reachable_from_None:
  assumes "map_of (fs_kappa (fixpoint des seeds)) n = None"
  shows "reachable_from des n m seeds =
    Inr \<lparr> rr_target = n, rr_established = False, rr_kappa = None, rr_depth = None,
          rr_proof_tree_edges = [] \<rparr>"
  using assms by (simp add: reachable_from_def Let_def)

lemma reachable_from_Some:
  assumes k: "map_of (fs_kappa (fixpoint des seeds)) n = Some k"
  obtains d where "map_of (fs_depth (fixpoint des seeds)) n = Some d"
    and "reachable_from des n m seeds =
      Inr \<lparr> rr_target = n, rr_established = (rank m \<le> rank k), rr_kappa = Some k, rr_depth = Some d,
            rr_proof_tree_edges =
              collect_proof_tree n (fs_best (fixpoint des seeds)) (dict_of des) \<rparr>"
proof -
  have "derives des seeds n k" using k kappa_fixpoint_iff by blast
  then have "\<exists>d. derives_at des seeds n d" using derives_iff_derives_at by blast
  then obtain d where d: "map_of (fs_depth (fixpoint des seeds)) n = Some d"
    using depth_fixpoint_None_iff [of des seeds n] by auto
  with k that show ?thesis by (simp add: reachable_from_def Let_def)
qed

definition axiom_edge :: "hash \<Rightarrow> Kappa \<Rightarrow> edge" where
  "axiom_edge n k =
     \<lparr> e_type = DEFINITION, e_premises = [], e_conclusion = n, e_rule = [], e_proof_hash = None,
       e_verdict = PASS, e_kappa = k, e_signer_pubkey = [] \<rparr>"

definition step_edge :: "hash list \<Rightarrow> hash \<Rightarrow> Kappa \<Rightarrow> edge" where
  "step_edge ps n k =
     \<lparr> e_type = DEDUCTION, e_premises = ps, e_conclusion = n, e_rule = [], e_proof_hash = None,
       e_verdict = PASS, e_kappa = k, e_signer_pubkey = [] \<rparr>"

lemma sample_edge_fields [simp]:
  "e_premises (axiom_edge n k) = []" "e_conclusion (axiom_edge n k) = n" "e_kappa (axiom_edge n k) = k"
  "e_premises (step_edge ps n k) = ps" "e_conclusion (step_edge ps n k) = n"
  "e_kappa (step_edge ps n k) = k"
  by (simp_all add: axiom_edge_def step_edge_def)

definition sample_derivations :: derivations where
  "sample_derivations =
     [(sample_hash 101, axiom_edge (sample_hash 1) K_INF),
      (sample_hash 102, step_edge [sample_hash 1] (sample_hash 2) K3)]"

definition reader_of :: "(hash \<times> bytes) list \<Rightarrow> hash list \<Rightarrow> reader" where
  "reader_of blobs es =
     \<lparr> rd_get = (\<lambda>h. Inr (map_of blobs h)), rd_all_nodes = Inr [], rd_all_edges = Inr es,
       rd_incoming = (\<lambda>n. Inr []), rd_log_len = Inr 0, rd_log_get = (\<lambda>i. Inr None),
       rd_log_root = Inr [] \<rparr>"

definition sample_reader :: reader where
  "sample_reader =
     reader_of (map (\<lambda>(h, e). (h, cbor_dumps ref_env (edge_to_canonical e))) sample_derivations)
       (map fst sample_derivations)"

lemma sample_reader_derivations: "derivation_edges ref_env sample_reader None = Inr sample_derivations"
proof -
  have "edge_hashes_ok (axiom_edge (sample_hash 1) K_INF)"
    "edge_hashes_ok (step_edge [sample_hash 1] (sample_hash 2) K3)"
    by (simp_all add: edge_hashes_ok_def axiom_edge_def step_edge_def)
  from this [THEN edge_decode_ok [OF ref_env_cbor]]
  have dec: "edge_from_bytes ref_env (enc (edge_to_canonical (axiom_edge (sample_hash 1) K_INF))) =
        Inr (axiom_edge (sample_hash 1) K_INF)"
    "edge_from_bytes ref_env (enc (edge_to_canonical (step_edge [sample_hash 1] (sample_hash 2) K3))) =
        Inr (step_edge [sample_hash 1] (sample_hash 2) K3)"
    by simp_all
  have "derives_claims (axiom_edge (sample_hash 1) K_INF)"
    "derives_claims (step_edge [sample_hash 1] (sample_hash 2) K3)"
    "sample_hash 102 \<noteq> sample_hash 101"
    by (simp_all add: derives_claims_def axiom_edge_def step_edge_def sample_hash_def)
  then show ?thesis
    by (simp add: derivation_edges_def sample_reader_def reader_of_def sample_derivations_def
        resolve_edge_def dec)
qed

text \<open>C4: reachability answers with the best derivation: the query never fails on resolvable edges; it
  reports no strength exactly when no derivation from the axioms and the assumed seeds exists, and
  otherwise the greatest strength of any derivation (weakest link of each) and the least depth of any
  derivation, and the target is established exactly when that strength meets the threshold.\<close>

theorem reachable_best:
  assumes "derivation_edges E storage active = Inr des"
  shows "\<exists>r. reachable E storage target m seeds active = Inr r \<and> rr_target r = target \<and>
    (case rr_kappa r of
       None \<Rightarrow> (\<nexists>k. derives des seeds target k) \<and> rr_depth r = None \<and> \<not> rr_established r \<and>
         rr_proof_tree_edges r = []
     | Some k \<Rightarrow> derives des seeds target k \<and> (\<forall>k'. derives des seeds target k' \<longrightarrow> k' \<le> k) \<and>
         (rr_established r \<longleftrightarrow> rank m \<le> rank k) \<and>
         (\<exists>d. rr_depth r = Some d \<and> derives_at des seeds target d \<and>
            (\<forall>d'. derives_at des seeds target d' \<longrightarrow> d \<le> d')))"
proof (cases "map_of (fs_kappa (fixpoint des seeds)) target")
  case None
  then show ?thesis
    by (simp add: reachable_eq [OF assms] reachable_from_None kappa_fixpoint_None_iff)
next
  case (Some k)
  from reachable_from_Some [OF Some] obtain d where
    d: "map_of (fs_depth (fixpoint des seeds)) target = Some d" and
    r: "reachable_from des target m seeds =
      Inr \<lparr> rr_target = target, rr_established = (rank m \<le> rank k), rr_kappa = Some k,
            rr_depth = Some d, rr_proof_tree_edges =
              collect_proof_tree target (fs_best (fixpoint des seeds)) (dict_of des) \<rparr>" by blast
  from Some d show ?thesis
    unfolding kappa_fixpoint_iff depth_fixpoint_iff by (simp add: reachable_eq [OF assms] r)
qed

theorem reachable_best_witness:
  "\<exists>r. reachable ref_env sample_reader (sample_hash 2) K3 [] None = Inr r \<and> rr_target r = sample_hash 2 \<and>
    (case rr_kappa r of
       None \<Rightarrow> (\<nexists>k. derives sample_derivations [] (sample_hash 2) k) \<and> rr_depth r = None \<and>
         \<not> rr_established r \<and> rr_proof_tree_edges r = []
     | Some k \<Rightarrow> derives sample_derivations [] (sample_hash 2) k \<and>
         (\<forall>k'. derives sample_derivations [] (sample_hash 2) k' \<longrightarrow> k' \<le> k) \<and>
         (rr_established r \<longleftrightarrow> rank K3 \<le> rank k) \<and>
         (\<exists>d. rr_depth r = Some d \<and> derives_at sample_derivations [] (sample_hash 2) d \<and>
            (\<forall>d'. derives_at sample_derivations [] (sample_hash 2) d' \<longrightarrow> d \<le> d')))"
  by (rule reachable_best [OF sample_reader_derivations])

text \<open>C31: the returned proof tree is a proof: it consists of derivation edges, and these edges alone
  derive the target from the assumed seeds; when no node has zero-premise edges of different strength
  and no seed is the conclusion of one, they derive it with exactly the strength reported.\<close>

theorem proof_tree_derives:
  assumes "derivation_edges E storage active = Inr des" and "distinct (map fst des)"
    and "reachable E storage target m seeds active = Inr r" and "rr_kappa r = Some k"
  shows "set (rr_proof_tree_edges r) \<subseteq> fst ` set des \<and>
    (\<exists>k'. derives (sub_derivations (rr_proof_tree_edges r) des) seeds target k' \<and> k' \<le> k \<and>
       (unique_axioms des seeds \<longrightarrow> k' = k))"
proof (cases "map_of (fs_kappa (fixpoint des seeds)) target")
  case None
  with assms show ?thesis by (auto simp: reachable_eq [OF assms(1)] reachable_from_None)
next
  case (Some k0)
  from reachable_from_Some [OF Some] obtain d where
    "reachable_from des target m seeds =
      Inr \<lparr> rr_target = target, rr_established = (rank m \<le> rank k0), rr_kappa = Some k0,
            rr_depth = Some d, rr_proof_tree_edges =
              collect_proof_tree target (fs_best (fixpoint des seeds)) (dict_of des) \<rparr>" by blast
  with assms(3,4) have "k0 = k" and "rr_proof_tree_edges r =
      collect_proof_tree target (fs_best (fixpoint des seeds)) (dict_of des)"
    by (auto simp: reachable_eq [OF assms(1)])
  with collected_tree_derives [OF assms(2) Some] show ?thesis by simp
qed

theorem proof_tree_derives_witness:
  "\<exists>r k k'. reachable ref_env sample_reader (sample_hash 2) K3 [] None = Inr r \<and> rr_kappa r = Some k \<and>
     set (rr_proof_tree_edges r) \<subseteq> fst ` set sample_derivations \<and>
     derives (sub_derivations (rr_proof_tree_edges r) sample_derivations) [] (sample_hash 2) k' \<and> k' = k"
proof -
  have ne: "sample_hash 102 \<noteq> sample_hash 101" by (simp add: sample_hash_def)
  have one: "derives sample_derivations [] (sample_hash 1) K_INF"
    using derives.axiom [of "sample_hash 101" "axiom_edge (sample_hash 1) K_INF" sample_derivations "[]"]
    by (simp add: sample_derivations_def)
  have two: "\<exists>k. derives sample_derivations [] (sample_hash 2) k"
    using derives.step [of "sample_hash 102" "step_edge [sample_hash 1] (sample_hash 2) K3"
        sample_derivations "[]" "\<lambda>p. K_INF"] one
    by (auto simp: sample_derivations_def)
  then obtain k where k: "map_of (fs_kappa (fixpoint sample_derivations [])) (sample_hash 2) = Some k"
    using kappa_fixpoint_None_iff [of sample_derivations "[]" "sample_hash 2"] by auto
  have "\<exists>r. reachable_from sample_derivations (sample_hash 2) K3 [] = Inr r \<and> rr_kappa r = Some k"
    by (rule reachable_from_Some [OF k, of K3]) simp
  then obtain r where r: "reachable ref_env sample_reader (sample_hash 2) K3 [] None = Inr r"
    and rk: "rr_kappa r = Some k"
    unfolding reachable_eq [OF sample_reader_derivations] by blast
  have dist: "distinct (map fst sample_derivations)" using ne by (simp add: sample_derivations_def)
  have "unique_axioms sample_derivations []"
    by (simp add: unique_axioms_def sample_derivations_def)
  with proof_tree_derives [OF sample_reader_derivations dist r rk] obtain k' where
    "set (rr_proof_tree_edges r) \<subseteq> fst ` set sample_derivations"
    "derives (sub_derivations (rr_proof_tree_edges r) sample_derivations) [] (sample_hash 2) k'" "k' = k"
    by blast
  with r rk show ?thesis by (intro exI conjI)
qed

lemma derives_single_axiom: "derives [(h, axiom_edge n k0)] [] m k \<Longrightarrow> k = k0"
  by (induction rule: derives.induct) auto

text \<open>With two zero-premise edges for the same node the reported strength and the reported proof tree
  disagree: the strength is that of the stronger edge, the tree consists of the later, weaker one.\<close>

theorem weaker_axiom_takes_the_tree:
  assumes "h1 \<noteq> h2" and "k2 < k1"
    and "des = [(h1, axiom_edge n k1), (h2, axiom_edge n k2)]"
  shows "\<exists>r. reachable_from des n K0 [] = Inr r \<and> rr_kappa r = Some k1 \<and> rr_proof_tree_edges r = [h2] \<and>
    (\<forall>k. derives (sub_derivations (rr_proof_tree_edges r) des) [] n k \<longrightarrow> k = k2)"
proof -
  have seeds: "seeded des [] =
      \<lparr> fs_kappa = [(n, k1)], fs_depth = [(n, 0)], fs_best = [(n, h2)] \<rparr>"
    using assms(2)
    by (auto simp: assms(3) seeded_def seed_edge_def seed_def dict_set_def)
  have "kappa_loop des [(n, k1)] [(n, h2)] = ([(n, k1)], [(n, h2)])"
    by (simp add: kappa_loop.simps kappa_pass_def assms(3) kappa_step_def)
  moreover have "depth_loop des [(n, k1)] [(n, 0)] = [(n, 0)]"
    by (simp add: depth_loop.simps depth_pass_def assms(3) depth_step_def)
  ultimately have fp: "fixpoint des [] = \<lparr> fs_kappa = [(n, k1)], fs_depth = [(n, 0)], fs_best = [(n, h2)] \<rparr>"
    by (simp add: fixpoint_def seeds)
  have em: "map_of (dict_of des) h2 = Some (axiom_edge n k2)"
    using assms(1) by (simp add: map_of_dict_of_distinct assms(3))
  have tree: "collect_proof_tree n [(n, h2)] (dict_of des) = [h2]"
    by (simp add: collect_proof_tree_def em)
  have sub: "sub_derivations [h2] des = [(h2, axiom_edge n k2)]"
    using assms(1) by (auto simp: sub_derivations_def assms(3))
  show ?thesis
    using derives_single_axiom by (simp add: reachable_from_def Let_def fp tree sub)
qed

theorem weaker_axiom_takes_the_tree_witness:
  "\<exists>r. reachable_from
        [(sample_hash 1, axiom_edge (sample_hash 9) K_INF), (sample_hash 2, axiom_edge (sample_hash 9) K1)]
        (sample_hash 9) K0 [] = Inr r \<and> rr_kappa r = Some K_INF \<and> rr_proof_tree_edges r = [sample_hash 2] \<and>
     (\<forall>k. derives (sub_derivations (rr_proof_tree_edges r)
        [(sample_hash 1, axiom_edge (sample_hash 9) K_INF), (sample_hash 2, axiom_edge (sample_hash 9) K1)])
        [] (sample_hash 9) k \<longrightarrow> k = K1)"
  by (rule weaker_axiom_takes_the_tree) (simp_all add: sample_hash_def less_Kappa_def one_enat_def)

end
