(* ===== verification/Path_Discovery.thy ===== *)
theory Path_Discovery
  imports Proof_Tree
begin

text \<open>
  \<^verbatim>\<open>query/path.py\<close>: what is missing for a target. The strengths come from the fixpoint of
  \<^verbatim>\<open>reachability.py\<close>; the search goes backwards from the target over a stack with a visited set, which
  is a total function because a node is expanded once. The properties say when the frontier is reported
  and that it is a frontier: every entry names an unestablished node of the target's backward cone.
\<close>

section \<open>Definitions\<close>

record missing_edge =
  me_conclusion :: hash
  me_premises :: "hash list"
  me_blocking_nodes :: "hash list"
  me_rule :: pystr

record path_result =
  pr_target :: hash
  pr_reachable :: bool
  pr_depth :: "nat option"
  pr_kappa :: "Kappa option"
  pr_missing_edges :: "missing_edge list"

definition established_nodes :: "(hash, Kappa) dict \<Rightarrow> Kappa \<Rightarrow> hash list" where
  "established_nodes kappa m = map fst (filter (\<lambda>(n, k). rank m \<le> rank k) kappa)"

definition candidates :: "(hash, edge) dict \<Rightarrow> hash list \<Rightarrow> (hash \<times> edge) list" where
  "candidates edge_map hs =
     List.map_filter (\<lambda>h. map_option (\<lambda>e. (h, e)) (map_of edge_map h)) hs"

definition blocking :: "hash list \<Rightarrow> edge \<Rightarrow> hash list" where
  "blocking established e = filter (\<lambda>p. p \<notin> set established) (e_premises e)"

text \<open>The entries one expanded node contributes, and the nodes it pushes, in the order pushed.\<close>

definition node_entries :: "hash list \<Rightarrow> hash \<Rightarrow> (hash \<times> edge) list \<Rightarrow> missing_edge list" where
  "node_entries established node incoming =
     (if incoming = []
      then [\<lparr> me_conclusion = node, me_premises = [], me_blocking_nodes = [], me_rule = [] \<rparr>]
      else
        List.map_filter
          (\<lambda>(h, e). if blocking established e = [] then None
             else Some \<lparr> me_conclusion = node, me_premises = e_premises e,
                         me_blocking_nodes = blocking established e, me_rule = e_rule e \<rparr>)
          incoming)"

definition pushed :: "hash list \<Rightarrow> (hash \<times> edge) list \<Rightarrow> hash list" where
  "pushed established incoming = concat (map (\<lambda>(h, e). blocking established e) incoming)"

definition all_premises :: "(hash, edge) dict \<Rightarrow> hash set" where
  "all_premises edge_map = (\<Union>(h, e) \<in> set edge_map. set (e_premises e))"

lemma finite_all_premises [simp]: "finite (all_premises em)"
  by (auto simp: all_premises_def)

lemma candidatesD: "(h, e) \<in> set (candidates em hs) \<Longrightarrow> map_of em h = Some e \<and> h \<in> set hs"
  by (auto simp: candidates_def List.map_filter_def split: option.splits)

lemma pushed_subset: "set (pushed est (candidates em hs)) \<subseteq> all_premises em"
  by (auto simp: pushed_def blocking_def all_premises_def dest!: candidatesD map_of_SomeD)

text \<open>The search. The stack has its top first, so what is pushed last comes first.\<close>

function frontier_loop ::
    "reader \<Rightarrow> (hash, edge) dict \<Rightarrow> hash list \<Rightarrow> hash list \<Rightarrow> missing_edge list \<Rightarrow> hash list \<Rightarrow>
     missing_edge list res" where
  "frontier_loop storage edge_map established visited missing [] = Inr missing"
| "frontier_loop storage edge_map established visited missing (node # stack) =
     (if node \<in> set visited then frontier_loop storage edge_map established visited missing stack
      else
        and_then (rd_incoming storage node) (\<lambda>hs.
          frontier_loop storage edge_map established (node # visited)
            (missing @ node_entries established node (candidates edge_map hs))
            (rev (pushed established (candidates edge_map hs)) @ stack)))"
  by pat_completeness auto
termination
proof (relation "measures
    [\<lambda>(st, em, est, visited, missing, stack). card ((set stack \<union> all_premises em) - set visited),
     \<lambda>(st, em, est, visited, missing, stack). length stack]", goal_cases)
  case (2 storage em est visited missing node stack)
  then have "(set stack \<union> all_premises em) - set visited =
      (set (node # stack) \<union> all_premises em) - set visited" by auto
  then show ?case by simp
next
  case (3 storage em est visited missing node stack hs)
  let ?new = "rev (pushed est (candidates em hs)) @ stack"
  have "(set ?new \<union> all_premises em) - set (node # visited) \<subset>
      (set (node # stack) \<union> all_premises em) - set visited"
    using 3 pushed_subset [of est em hs] by auto
  then have "card ((set ?new \<union> all_premises em) - set (node # visited)) <
      card ((set (node # stack) \<union> all_premises em) - set visited)"
    by (intro psubset_card_mono) auto
  then show ?case by simp
qed simp

definition path_discovery :: "env \<Rightarrow> reader \<Rightarrow> hash \<Rightarrow> Kappa \<Rightarrow> path_result res" where
  "path_discovery E storage target m =
     and_then (derivation_edges E storage None) (\<lambda>des.
       let st = fixpoint des [];
           established = established_nodes (fs_kappa st) m
       in
         if target \<in> set established then
           (case (map_of (fs_depth st) target, map_of (fs_kappa st) target) of
              (Some d, Some k) \<Rightarrow>
                Inr \<lparr> pr_target = target, pr_reachable = True, pr_depth = Some d, pr_kappa = Some k,
                      pr_missing_edges = [] \<rparr>
            | _ \<Rightarrow> Inl KeyError)
         else
           and_then (frontier_loop storage (dict_of des) established [] [] [target]) (\<lambda>missing.
             Inr \<lparr> pr_target = target, pr_reachable = False, pr_depth = map_of (fs_depth st) target,
                   pr_kappa = map_of (fs_kappa st) target, pr_missing_edges = missing \<rparr>))"

section \<open>Established nodes\<close>

lemma distinct_kappa_pass:
  assumes "distinct (map fst kap)" and "kappa_pass des (kap, best, ch) = (kap', best', ch')"
  shows "distinct (map fst kap')"
  using assms
proof (induction des arbitrary: kap best ch)
  case Nil
  then show ?case by (simp add: kappa_pass_def)
next
  case (Cons he des)
  obtain h e where he: "he = (h, e)" by (cases he)
  obtain kap1 best1 ch1 where step: "kappa_step (h, e) (kap, best, ch) = (kap1, best1, ch1)"
    by (cases "kappa_step (h, e) (kap, best, ch)")
  have "distinct (map fst kap1)"
    using step Cons.prems(1) by (auto simp: kappa_step_eq split: if_splits)
  moreover have "kappa_pass des (kap1, best1, ch1) = (kap', best', ch')"
    using Cons.prems(2) step he by (simp add: kappa_pass_def)
  ultimately show ?case by (rule Cons.IH)
qed

lemma distinct_kappa_loop:
  assumes "distinct (map fst kap)"
  shows "distinct (map fst (fst (kappa_loop des kap best)))"
  using assms
proof (induction des kap best rule: kappa_loop.induct)
  case (1 des kap best)
  obtain kap1 best1 ch where pass: "kappa_pass des (kap, best, False) = (kap1, best1, ch)"
    by (cases "kappa_pass des (kap, best, False)")
  have one: "distinct (map fst kap1)" by (rule distinct_kappa_pass [OF "1.prems" pass])
  show ?case
    using "1.IH" [OF pass [symmetric] refl _ one] one pass
    by (cases ch) (simp_all add: kappa_loop.simps [of des kap])
qed

lemma distinct_seed:
  "distinct (map fst (fs_kappa st)) \<Longrightarrow> distinct (map fst (fs_kappa (seed n k h st)))"
  by (simp add: seed_def split: option.splits)

lemma distinct_fixpoint: "distinct (map fst (fs_kappa (fixpoint des seeds)))"
proof -
  have edges: "distinct (map fst (fs_kappa (fold seed_edge des st)))"
    if "distinct (map fst (fs_kappa st))" for st
    using that by (induction des arbitrary: st) (auto simp: seed_edge_def distinct_seed split: prod.splits)
  have extra: "distinct (map fst (fs_kappa (fold (\<lambda>s. seed s K_INF None) xs st)))"
    if "distinct (map fst (fs_kappa st))" for xs st
    using that by (induction xs arbitrary: st) (auto simp: distinct_seed)
  have "distinct (map fst (fs_kappa (seeded des seeds)))"
    unfolding seeded_def by (intro extra edges) simp
  from distinct_kappa_loop [OF this] show ?thesis
    by (simp add: fixpoint_def Let_def split_beta)
qed

lemma established_iff:
  "n \<in> set (established_nodes (fs_kappa (fixpoint des seeds)) m) \<longleftrightarrow>
     (\<exists>k. derives des seeds n k \<and> m \<le> k)"
proof -
  let ?kap = "fs_kappa (fixpoint des seeds)"
  have "n \<in> set (established_nodes ?kap m) \<longleftrightarrow> (\<exists>k. map_of ?kap n = Some k \<and> m \<le> k)"
    using map_of_eq_Some_iff [OF distinct_fixpoint, of des seeds n]
    by (auto simp: established_nodes_def image_iff)
  also have "\<dots> \<longleftrightarrow> (\<exists>k. derives des seeds n k \<and> m \<le> k)"
    using kappa_fixpoint_iff [of des seeds n] kappa_fixpoint_ok(2) [of des seeds n] order.trans by metis
  finally show ?thesis .
qed

section \<open>The backward cone\<close>

text \<open>What one node pushes and reports when the reader answers its incoming edges.\<close>

definition incoming_of :: "reader \<Rightarrow> hash \<Rightarrow> hash list" where
  "incoming_of storage n = (case rd_incoming storage n of Inl e \<Rightarrow> [] | Inr hs \<Rightarrow> hs)"

inductive in_cone :: "reader \<Rightarrow> (hash, edge) dict \<Rightarrow> hash list \<Rightarrow> hash \<Rightarrow> hash \<Rightarrow> bool"
  for storage em est target where
  target: "in_cone storage em est target target"
| blocked: "in_cone storage em est target n \<Longrightarrow>
    p \<in> set (pushed est (candidates em (incoming_of storage n))) \<Longrightarrow> in_cone storage em est target p"

definition cone_entries ::
    "reader \<Rightarrow> (hash, edge) dict \<Rightarrow> hash list \<Rightarrow> hash \<Rightarrow> missing_edge set" where
  "cone_entries storage em est n = set (node_entries est n (candidates em (incoming_of storage n)))"

lemma frontier_loop_ok:
  assumes "\<forall>n. \<exists>hs. rd_incoming storage n = Inr hs"
    and "\<forall>v \<in> set visited. set (pushed est (candidates em (incoming_of storage v))) \<subseteq> set visited \<union> set stack"
    and "set missing = (\<Union>v \<in> set visited. cone_entries storage em est v)"
    and "set visited \<union> set stack \<subseteq> Collect (in_cone storage em est target)"
    and "target \<in> set visited \<union> set stack"
  shows "\<exists>res. frontier_loop storage em est visited missing stack = Inr res \<and>
    set res = (\<Union>n \<in> Collect (in_cone storage em est target). cone_entries storage em est n)"
  using assms
proof (induction storage em est visited missing stack rule: frontier_loop.induct)
  case (1 storage em est visited missing)
  have "n \<in> set visited" if "in_cone storage em est target n" for n
    using that by induction (use "1.prems" in auto)
  with "1.prems"(4) have "set visited = Collect (in_cone storage em est target)" by auto
  with "1.prems"(3) show ?case by simp
next
  case (2 storage em est visited missing node stack)
  show ?case
  proof (cases "node \<in> set visited")
    case True
    with "2.IH"(1) [OF True] "2.prems" show ?thesis by (auto simp: insert_absorb)
  next
    case False
    obtain hs where hs: "rd_incoming storage node = Inr hs" using "2.prems"(1) by blast
    then have inc: "incoming_of storage node = hs" by (simp add: incoming_of_def)
    let ?new = "pushed est (candidates em hs)"
    have node: "in_cone storage em est target node" using "2.prems"(4) by auto
    then have new: "set ?new \<subseteq> Collect (in_cone storage em est target)"
      using in_cone.blocked [OF node] by (auto simp: inc)
    have "\<exists>res. frontier_loop storage em est (node # visited)
        (missing @ node_entries est node (candidates em hs)) (rev ?new @ stack) = Inr res \<and>
        set res = (\<Union>n \<in> Collect (in_cone storage em est target). cone_entries storage em est n)"
    proof (rule "2.IH"(2) [OF False hs "2.prems"(1)])
      show "\<forall>v \<in> set (node # visited). set (pushed est (candidates em (incoming_of storage v))) \<subseteq>
          set (node # visited) \<union> set (rev ?new @ stack)"
        using "2.prems"(2) inc by auto
      show "set (missing @ node_entries est node (candidates em hs)) =
          (\<Union>v \<in> set (node # visited). cone_entries storage em est v)"
        using "2.prems"(3) by (simp add: cone_entries_def inc Un_commute)
    qed (use "2.prems" new in auto)
    with False hs show ?thesis by simp
  qed
qed

lemma frontier_from_target:
  assumes "\<forall>n. \<exists>hs. rd_incoming storage n = Inr hs"
  shows "\<exists>res. frontier_loop storage em est [] [] [target] = Inr res \<and>
    set res = (\<Union>n \<in> Collect (in_cone storage em est target). cone_entries storage em est n)"
  by (rule frontier_loop_ok [OF assms]) (auto intro: in_cone.target)

section \<open>Properties\<close>

definition strong_enough :: "derivations \<Rightarrow> Kappa \<Rightarrow> hash \<Rightarrow> bool" where
  "strong_enough des m n \<longleftrightarrow> (\<exists>k. derives des [] n k \<and> m \<le> k)"

text \<open>The entries of the nodes that the loop visits.\<close>

definition searched :: "reader \<Rightarrow> derivations \<Rightarrow> Kappa \<Rightarrow> hash \<Rightarrow> missing_edge set" where
  "searched storage des m target =
     (let est = established_nodes (fs_kappa (fixpoint des [])) m in
      \<Union>n \<in> Collect (in_cone storage (dict_of des) est target). cone_entries storage (dict_of des) est n)"

lemma path_discovery_reachable:
  assumes "derivation_edges E storage None = Inr des" and "strong_enough des m target"
  obtains d k where "map_of (fs_depth (fixpoint des [])) target = Some d"
    and "map_of (fs_kappa (fixpoint des [])) target = Some k"
    and "path_discovery E storage target m =
      Inr \<lparr> pr_target = target, pr_reachable = True, pr_depth = Some d, pr_kappa = Some k,
            pr_missing_edges = [] \<rparr>"
proof -
  have est: "target \<in> set (established_nodes (fs_kappa (fixpoint des [])) m)"
    using assms(2) by (simp add: established_iff strong_enough_def)
  obtain k0 where "derives des [] target k0" using assms(2) by (auto simp: strong_enough_def)
  then obtain k where k: "map_of (fs_kappa (fixpoint des [])) target = Some k"
    using kappa_fixpoint_ok(2) by blast
  obtain d where d: "map_of (fs_depth (fixpoint des [])) target = Some d"
    using reachable_from_Some [OF k, of m] by blast
  show ?thesis by (rule that [OF d k]) (simp add: path_discovery_def assms(1) Let_def est d k)
qed

lemma path_discovery_unreachable:
  assumes "derivation_edges E storage None = Inr des" and "\<not> strong_enough des m target"
    and "\<forall>n. \<exists>hs. rd_incoming storage n = Inr hs"
  obtains res where "set res = searched storage des m target"
    and "path_discovery E storage target m =
      Inr \<lparr> pr_target = target, pr_reachable = False,
            pr_depth = map_of (fs_depth (fixpoint des [])) target,
            pr_kappa = map_of (fs_kappa (fixpoint des [])) target, pr_missing_edges = res \<rparr>"
proof -
  let ?est = "established_nodes (fs_kappa (fixpoint des [])) m"
  have est: "target \<notin> set ?est"
    using assms(2) by (simp add: established_iff strong_enough_def)
  obtain res where res: "frontier_loop storage (dict_of des) ?est [] [] [target] = Inr res"
    "set res = searched storage des m target"
    using frontier_from_target [OF assms(3), of "dict_of des" ?est target]
    by (auto simp: searched_def Let_def)
  show ?thesis
    by (rule that [OF res(2)]) (simp add: path_discovery_def assms(1) Let_def est res(1) del: frontier_loop.simps)
qed

text \<open>
  What is missing for a target, said of the derivation edges and the index alone. A node is needed for the
  target if a chain of derivation edges leads down to it from the target through premises that no derivation
  establishes at the threshold. A gap of a needed node is a derivation edge into it that has such premises, with
  these as blocking; a needed node that no derivation edge enters is a gap itself, without premises.
\<close>

definition enters :: "reader \<Rightarrow> derivations \<Rightarrow> hash \<Rightarrow> hash \<Rightarrow> edge \<Rightarrow> bool" where
  "enters storage des n h e \<longleftrightarrow> (h, e) \<in> set des \<and> (\<exists>hs. rd_incoming storage n = Inr hs \<and> h \<in> set hs)"

inductive needed :: "reader \<Rightarrow> derivations \<Rightarrow> Kappa \<Rightarrow> hash \<Rightarrow> hash \<Rightarrow> bool" for storage des m target where
  target: "needed storage des m target target"
| premise: "needed storage des m target n \<Longrightarrow> enters storage des n h e \<Longrightarrow> p \<in> set (e_premises e) \<Longrightarrow>
    \<not> strong_enough des m p \<Longrightarrow> needed storage des m target p"

definition leaf_gap :: "reader \<Rightarrow> derivations \<Rightarrow> hash \<Rightarrow> missing_edge \<Rightarrow> bool" where
  "leaf_gap storage des n me \<longleftrightarrow>
     (\<forall>h e. \<not> enters storage des n h e) \<and>
     me = \<lparr> me_conclusion = n, me_premises = [], me_blocking_nodes = [], me_rule = [] \<rparr>"

definition edge_gap :: "reader \<Rightarrow> derivations \<Rightarrow> Kappa \<Rightarrow> hash \<Rightarrow> missing_edge \<Rightarrow> bool" where
  "edge_gap storage des m n me \<longleftrightarrow>
     (\<exists>h e. enters storage des n h e \<and> (\<exists>p \<in> set (e_premises e). \<not> strong_enough des m p) \<and>
        me = \<lparr> me_conclusion = n, me_premises = e_premises e,
               me_blocking_nodes = filter (\<lambda>p. \<not> strong_enough des m p) (e_premises e), me_rule = e_rule e \<rparr>)"

definition frontier :: "reader \<Rightarrow> derivations \<Rightarrow> Kappa \<Rightarrow> hash \<Rightarrow> missing_edge set" where
  "frontier storage des m target =
     {me. \<exists>n. needed storage des m target n \<and> (leaf_gap storage des n me \<or> edge_gap storage des m n me)}"

section \<open>The search finds the frontier\<close>

lemma keep_derivations_resolve:
  "keep_derivations E storage act hs = Inr des \<Longrightarrow> (h, e) \<in> set des \<Longrightarrow> resolve_edge E storage h = Inr (Some e)"
  by (induction hs arbitrary: des) (auto simp: res_simps split: if_splits option.splits)

lemma derivation_edges_map:
  assumes "derivation_edges E storage act = Inr des"
  shows "map_of (dict_of des) h = Some e \<longleftrightarrow> (h, e) \<in> set des"
proof
  assume "map_of (dict_of des) h = Some e"
  then show "(h, e) \<in> set des" using map_of_SomeD [of "rev des" h e] by (simp add: map_of_dict_of)
next
  assume e: "(h, e) \<in> set des"
  obtain hs where des: "keep_derivations E storage act hs = Inr des"
    using assms by (auto simp: derivation_edges_def res_simps)
  from e have "h \<in> fst ` set (rev des)" by force
  then have "h \<in> dom (map_of (rev des))" by (simp add: dom_map_of_conv_image_fst)
  then obtain e' where e': "map_of (rev des) h = Some e'" by blast
  then have "(h, e') \<in> set des" using map_of_SomeD [of "rev des" h e'] by simp
  with keep_derivations_resolve [OF des this] keep_derivations_resolve [OF des e] have "e' = e" by simp
  with e' show "map_of (dict_of des) h = Some e" by (simp add: map_of_dict_of)
qed

lemma in_candidates:
  "(h, e) \<in> set (candidates em hs) \<longleftrightarrow> h \<in> set hs \<and> map_of em h = Some e"
  by (force simp: candidates_def List.map_filter_def)

lemma searched_is_frontier:
  assumes "derivation_edges E storage None = Inr des" and "\<forall>n. \<exists>hs. rd_incoming storage n = Inr hs"
  shows "searched storage des m target = frontier storage des m target"
proof -
  let ?est = "established_nodes (fs_kappa (fixpoint des [])) m" and ?em = "dict_of des"
  let ?cands = "\<lambda>n. candidates ?em (incoming_of storage n)"
  have est: "n \<in> set ?est \<longleftrightarrow> strong_enough des m n" for n
    by (simp add: established_iff strong_enough_def)
  have block: "blocking ?est e = filter (\<lambda>p. \<not> strong_enough des m p) (e_premises e)" for e
    by (simp add: blocking_def est)
  have into: "(h, e) \<in> set (?cands n) \<longleftrightarrow> enters storage des n h e" for n h e
    using assms(2) by (force simp: in_candidates derivation_edges_map [OF assms(1)] enters_def incoming_of_def)
  have push: "p \<in> set (pushed ?est (?cands n)) \<longleftrightarrow>
      (\<exists>h e. enters storage des n h e \<and> p \<in> set (e_premises e) \<and> \<not> strong_enough des m p)" for p n
    by (auto simp: pushed_def block simp flip: into)
  have cone: "in_cone storage ?em ?est target n \<longleftrightarrow> needed storage des m target n" for n
  proof
    show "needed storage des m target n" if "in_cone storage ?em ?est target n"
      using that
    proof induction
      case (blocked n p)
      then show ?case unfolding push using needed.premise by blast
    qed (rule needed.target)
    show "in_cone storage ?em ?est target n" if "needed storage des m target n"
      using that
    proof induction
      case (premise n h e p)
      then have "p \<in> set (pushed ?est (?cands n))" unfolding push by blast
      with premise.IH show ?case by (rule in_cone.blocked)
    qed (rule in_cone.target)
  qed
  have "me \<in> cone_entries storage ?em ?est n \<longleftrightarrow> leaf_gap storage des n me \<or> edge_gap storage des m n me" for me n
  proof (cases "?cands n = []")
    case True
    then have "\<not> enters storage des n h e" for h e by (simp flip: into)
    with True show ?thesis by (simp add: cone_entries_def node_entries_def leaf_gap_def edge_gap_def)
  next
    case False
    then obtain h e where "(h, e) \<in> set (?cands n)" by (cases "?cands n") auto
    then have "\<not> leaf_gap storage des n me" by (auto simp: leaf_gap_def into)
    moreover have "me \<in> cone_entries storage ?em ?est n \<longleftrightarrow>
        (\<exists>h e. (h, e) \<in> set (?cands n) \<and> blocking ?est e \<noteq> [] \<and>
           me = \<lparr> me_conclusion = n, me_premises = e_premises e, me_blocking_nodes = blocking ?est e, me_rule = e_rule e \<rparr>)"
      using False unfolding cone_entries_def node_entries_def by (simp add: List.map_filter_def image_iff) blast
    ultimately show ?thesis by (simp add: edge_gap_def into block filter_empty_conv)
  qed
  then show ?thesis unfolding searched_def frontier_def Let_def by (auto simp: cone)
qed

text \<open>C15: path discovery splits as it claims: with a readable index it never fails; the target is reported
  reachable exactly when some derivation meets the threshold, then with no missing edges; strength and
  depth are those of the best derivations even below the threshold; otherwise the missing edges are
  exactly the gaps of the nodes needed for the target: the derivation edges into a needed node that have a
  premise not established at the threshold, with all their premises, exactly those not established as blocking
  and their rule, and the needed nodes that no derivation edge enters, without premises.\<close>

theorem path_discovery_frontier:
  assumes "derivation_edges E storage None = Inr des" and "\<forall>n. \<exists>hs. rd_incoming storage n = Inr hs"
  shows "\<exists>r. path_discovery E storage target m = Inr r \<and>
    (pr_reachable r \<longleftrightarrow> strong_enough des m target) \<and>
    (\<forall>k. pr_kappa r = Some k \<longleftrightarrow> derives des [] target k \<and> (\<forall>k'. derives des [] target k' \<longrightarrow> k' \<le> k)) \<and>
    (\<forall>d. pr_depth r = Some d \<longleftrightarrow> derives_at des [] target d \<and> (\<forall>d'. derives_at des [] target d' \<longrightarrow> d \<le> d')) \<and>
    set (pr_missing_edges r) = (if strong_enough des m target then {} else frontier storage des m target)"
proof (cases "strong_enough des m target")
  case True
  from path_discovery_reachable [OF assms(1) True] obtain d k where
    "map_of (fs_depth (fixpoint des [])) target = Some d"
    "map_of (fs_kappa (fixpoint des [])) target = Some k"
    "path_discovery E storage target m =
      Inr \<lparr> pr_target = target, pr_reachable = True, pr_depth = Some d, pr_kappa = Some k,
            pr_missing_edges = [] \<rparr>" .
  with True show ?thesis by (simp flip: kappa_fixpoint_iff depth_fixpoint_iff)
next
  case False
  from path_discovery_unreachable [OF assms(1) False assms(2)] obtain res where
    "set res = searched storage des m target" and "path_discovery E storage target m =
      Inr \<lparr> pr_target = target, pr_reachable = False,
            pr_depth = map_of (fs_depth (fixpoint des [])) target,
            pr_kappa = map_of (fs_kappa (fixpoint des [])) target, pr_missing_edges = res \<rparr>" .
  with False show ?thesis
    by (simp add: searched_is_frontier [OF assms] flip: kappa_fixpoint_iff depth_fixpoint_iff)
qed

text \<open>On the sample the target is a leaf, and it is reported as one.\<close>

theorem path_discovery_frontier_witness:
  "\<exists>r. path_discovery ref_env sample_reader (sample_hash 3) K1 = Inr r \<and> \<not> pr_reachable r \<and>
    set (pr_missing_edges r) =
      {\<lparr> me_conclusion = sample_hash 3, me_premises = [], me_blocking_nodes = [], me_rule = [] \<rparr>}"
proof -
  have inc: "\<forall>n. \<exists>hs. rd_incoming sample_reader n = Inr hs" by (simp add: sample_reader_def reader_of_def)
  have none: "\<not> enters sample_reader sample_derivations n h e" for n h e
    by (simp add: enters_def sample_reader_def reader_of_def)
  have underivable: "\<not> derives sample_derivations [] (sample_hash 3) k" for k
  proof
    assume "derives sample_derivations [] (sample_hash 3) k"
    then show False by cases (auto simp: sample_derivations_def sample_hash_def)
  qed
  have "needed sample_reader sample_derivations K1 (sample_hash 3) n \<longleftrightarrow> n = sample_hash 3" for n
    using none by (auto elim: needed.cases intro: needed.target)
  then have "frontier sample_reader sample_derivations K1 (sample_hash 3) =
      {\<lparr> me_conclusion = sample_hash 3, me_premises = [], me_blocking_nodes = [], me_rule = [] \<rparr>}"
    using none by (simp add: frontier_def leaf_gap_def edge_gap_def)
  moreover have "\<not> strong_enough sample_derivations K1 (sample_hash 3)" using underivable by (simp add: strong_enough_def)
  ultimately show ?thesis
    using path_discovery_frontier [OF sample_reader_derivations inc, of "sample_hash 3" K1] by (metis (no_types, lifting))
qed

text \<open>The index answers incoming edges with edges that conclude the node.\<close>

definition incoming_conclude :: "reader \<Rightarrow> derivations \<Rightarrow> bool" where
  "incoming_conclude storage des \<longleftrightarrow>
     (\<forall>n hs h e. rd_incoming storage n = Inr hs \<longrightarrow> h \<in> set hs \<longrightarrow> (h, e) \<in> set des \<longrightarrow> e_conclusion e = n)"

text \<open>When no derivation of the target exists at all, the frontier is not empty: there is always
  something to do next.\<close>

theorem underivable_has_frontier:
  assumes "derivation_edges E storage None = Inr des" and "\<forall>n. \<exists>hs. rd_incoming storage n = Inr hs"
    and "incoming_conclude storage des" and "distinct (map fst des)" and "\<nexists>k. derives des [] target k"
  shows "\<exists>r. path_discovery E storage target m = Inr r \<and> pr_missing_edges r \<noteq> [] \<and>
    (\<exists>me \<in> set (pr_missing_edges r). me_conclusion me = target)"
proof -
  let ?est = "established_nodes (fs_kappa (fixpoint des [])) m" and ?em = "dict_of des"
  have weak: "\<not> strong_enough des m target" using assms(5) by (auto simp: strong_enough_def)
  have est: "n \<in> set ?est \<Longrightarrow> \<exists>k. derives des [] n k" for n by (auto simp: established_iff)
  have "\<exists>me. me \<in> cone_entries storage ?em ?est target \<and> me_conclusion me = target"
  proof (cases "candidates ?em (incoming_of storage target)")
    case Nil
    then show ?thesis by (simp add: cone_entries_def node_entries_def)
  next
    case (Cons he rest)
    obtain h e where he: "he = (h, e)" by (cases he)
    with Cons have "(h, e) \<in> set (candidates ?em (incoming_of storage target))" by simp
    from candidatesD [OF this] have em: "map_of ?em h = Some e" "h \<in> set (incoming_of storage target)" by simp_all
    then have mem: "(h, e) \<in> set des" by (simp add: map_of_dict_of_distinct [OF assms(4)] map_of_SomeD)
    obtain hs where "rd_incoming storage target = Inr hs" using assms(2) by blast
    with assms(3) mem em(2) have concl: "e_conclusion e = target"
      by (auto simp: incoming_conclude_def incoming_of_def)
    have "blocking ?est e \<noteq> []"
    proof
      assume none: "blocking ?est e = []"
      then have "\<exists>k. derives des [] p k" if "p \<in> set (e_premises e)" for p
        using that est [of p] by (auto simp: blocking_def filter_empty_conv)
      then have "\<forall>p \<in> set (e_premises e). \<exists>k'. derives des [] p k' \<and> (False \<longrightarrow> K0 \<le> k')" by blast
      from derives_path [OF mem this] have "\<exists>k. derives des [] target k" by (auto simp: concl)
      with assms(5) show False by blast
    qed
    then show ?thesis using Cons he
      by (auto simp: cone_entries_def node_entries_def List.map_filter_simps)
  qed
  then have "\<exists>me. me \<in> searched storage des m target \<and> me_conclusion me = target"
    by (auto simp: searched_def Let_def intro: in_cone.target)
  moreover from path_discovery_unreachable [OF assms(1) weak assms(2)] obtain res where
    "set res = searched storage des m target" and "path_discovery E storage target m =
      Inr \<lparr> pr_target = target, pr_reachable = False,
            pr_depth = map_of (fs_depth (fixpoint des [])) target,
            pr_kappa = map_of (fs_kappa (fixpoint des [])) target, pr_missing_edges = res \<rparr>" .
  ultimately show ?thesis by fastforce
qed

lemma sample_not_derived: "\<not> derives sample_derivations [] (sample_hash 3) k"
proof
  assume "derives sample_derivations [] (sample_hash 3) k"
  then show False
    by cases (auto simp: sample_derivations_def sample_hash_def)
qed

theorem underivable_has_frontier_witness:
  "\<exists>r. path_discovery ref_env sample_reader (sample_hash 3) K2 = Inr r \<and> pr_missing_edges r \<noteq> [] \<and>
    (\<exists>me \<in> set (pr_missing_edges r). me_conclusion me = sample_hash 3)"
proof (rule underivable_has_frontier [OF sample_reader_derivations])
  show "distinct (map fst sample_derivations)"
    by (simp add: sample_derivations_def sample_hash_def)
  show "\<nexists>k. derives sample_derivations [] (sample_hash 3) k" using sample_not_derived by blast
qed (simp_all add: sample_reader_def reader_of_def incoming_conclude_def)

text \<open>Below the threshold the frontier can be empty: a target whose only edge is a zero-premise edge
  that is too weak is reported unreachable, with its strength, and with nothing missing.\<close>

theorem weak_target_empty_frontier:
  assumes "derivation_edges E storage None = Inr [(h, axiom_edge n k)]"
    and "rd_incoming storage n = Inr [h]" and "k < m"
  shows "\<exists>r. path_discovery E storage n m = Inr r \<and> \<not> pr_reachable r \<and> pr_kappa r = Some k \<and>
    pr_missing_edges r = []"
proof -
  let ?des = "[(h, axiom_edge n k)]"
  have "\<not> strong_enough ?des m n"
    using assms(3) derives_single_axiom by (auto simp: strong_enough_def not_le dest: derives_single_axiom)
  then have est: "n \<notin> set (established_nodes (fs_kappa (fixpoint ?des [])) m)"
    by (simp add: established_iff strong_enough_def)
  have "derives ?des [] n k" using derives.axiom [of h "axiom_edge n k" ?des "[]"] by simp
  then have kap: "map_of (fs_kappa (fixpoint ?des [])) n = Some k"
    by (simp add: kappa_fixpoint_iff) (blast dest: derives_single_axiom)
  have "map_of (dict_of ?des) h = Some (axiom_edge n k)" by (simp add: map_of_dict_of)
  then have "candidates (dict_of ?des) [h] = [(h, axiom_edge n k)]"
    by (simp add: candidates_def List.map_filter_simps)
  then show ?thesis
    using est assms(2)
    by (simp add: path_discovery_def assms(1) Let_def kap node_entries_def pushed_def blocking_def
        List.map_filter_simps)
qed

definition weak_reader :: reader where
  "weak_reader =
     (reader_of [(sample_hash 101, cbor_dumps ref_env (edge_to_canonical (axiom_edge (sample_hash 1) K0)))]
        [sample_hash 101])
       \<lparr>rd_incoming := (\<lambda>n. Inr [sample_hash 101])\<rparr>"

theorem weak_target_empty_frontier_witness:
  "\<exists>r. path_discovery ref_env weak_reader (sample_hash 1) K1 = Inr r \<and> \<not> pr_reachable r \<and>
    pr_kappa r = Some K0 \<and> pr_missing_edges r = []"
proof (rule weak_target_empty_frontier)
  have "edge_hashes_ok (axiom_edge (sample_hash 1) K0)"
    by (simp add: edge_hashes_ok_def axiom_edge_def)
  from edge_decode_ok [OF ref_env_cbor this] show "derivation_edges ref_env weak_reader None =
      Inr [(sample_hash 101, axiom_edge (sample_hash 1) K0)]"
    by (simp add: derivation_edges_def weak_reader_def reader_of_def resolve_edge_def)
      (simp add: derives_claims_def axiom_edge_def)
  show "rd_incoming weak_reader (sample_hash 1) = Inr [sample_hash 101]"
    by (simp add: weak_reader_def)
  show "K0 < K1" by (rule Kappa_order)
qed

end
