(* ===== verification/Refutation.thy ===== *)
theory Refutation
  imports Proof_Tree
begin

text \<open>
  \<^verbatim>\<open>query/refutation.py\<close>: the attack graph of the stored edges and its grounded labelling. The labelling
  loop is a total function, each pass that changes anything labels an edge; it is shown to compute the
  least fixpoint of Dung's characteristic function (\<open>accepted\<close>), and the reachability query restricted
  to its result derives from accepted edges only.
\<close>

section \<open>The attack graph\<close>

type_synonym attacks = "(hash \<times> hash) list"

fun load_edges :: "env \<Rightarrow> reader \<Rightarrow> hash list \<Rightarrow> (hash, edge) dict \<Rightarrow> (hash, edge) dict res" where
  "load_edges E storage [] edges = Inr edges"
| "load_edges E storage (h # hs) edges =
     and_then (resolve_edge E storage h) (\<lambda>r.
       case r of None \<Rightarrow> load_edges E storage hs edges
       | Some e \<Rightarrow> load_edges E storage hs (dict_set h e edges))"

definition refutation_attacks :: "(hash, edge) dict \<Rightarrow> attacks" where
  "refutation_attacks edges =
     map (\<lambda>(h, e). (h, e_conclusion e))
       (filter (\<lambda>(h, e). e_type e = REFUTATION \<and> e_conclusion e \<in> set (dict_keys edges)) edges)"

text \<open>The edges whose conclusion is a readable node, in order.\<close>

fun concluded :: "env \<Rightarrow> reader \<Rightarrow> (hash \<times> edge) list \<Rightarrow> (hash \<times> node) list res" where
  "concluded E storage [] = Inr []"
| "concluded E storage ((h, e) # edges) =
     and_then (resolve_node E storage (e_conclusion e)) (\<lambda>r.
       case r of None \<Rightarrow> concluded E storage edges
       | Some n \<Rightarrow> and_then (concluded E storage edges) (\<lambda>rest. Inr ((h, n) # rest)))"

type_synonym by_prop = "(pystr \<times> pystr, (hash \<times> bool) list) dict"

definition add_prop :: "by_prop \<Rightarrow> hash \<times> node \<Rightarrow> by_prop" where
  "add_prop d hn =
     (case hn of (h, n) \<Rightarrow>
        dict_set (n_claim n, n_domain n)
          ((case map_of d (n_claim n, n_domain n) of None \<Rightarrow> [] | Some items \<Rightarrow> items) @ [(h, n_polarity n)])
          d)"

definition group_by_prop :: "(hash \<times> node) list \<Rightarrow> by_prop" where
  "group_by_prop hns = foldl add_prop [] hns"

definition contention :: "(hash \<times> bool) list \<Rightarrow> attacks" where
  "contention items =
     (let pos = map fst (filter (\<lambda>(h, pol). pol) items);
          neg = map fst (filter (\<lambda>(h, pol). \<not> pol) items)
      in concat (map (\<lambda>h1. concat (map (\<lambda>h2. [(h1, h2), (h2, h1)]) neg)) pos))"

definition contention_attacks :: "(hash \<times> node) list \<Rightarrow> attacks" where
  "contention_attacks hns = concat (map (\<lambda>(prop, items). contention items) (group_by_prop hns))"

definition attack_graph :: "env \<Rightarrow> reader \<Rightarrow> ((hash, edge) dict \<times> attacks) res" where
  "attack_graph E storage =
     and_then (rd_all_edges storage) (\<lambda>hs.
     and_then (load_edges E storage hs []) (\<lambda>edges.
     and_then (concluded E storage edges) (\<lambda>hns.
       Inr (edges, refutation_attacks edges @ contention_attacks hns))))"

section \<open>The labelling\<close>

definition label_step ::
    "attacks \<Rightarrow> hash \<Rightarrow> hash list \<times> hash list \<times> bool \<Rightarrow> hash list \<times> hash list \<times> bool" where
  "label_step atts h st =
     (case st of (in_edges, out_edges, changed) \<Rightarrow>
        if h \<in> set in_edges \<or> h \<in> set out_edges then st
        else if list_all (\<lambda>(a, t). t = h \<longrightarrow> a \<in> set out_edges) atts
        then (h # in_edges,
              fold List.insert (map snd (filter (\<lambda>(a, t). a = h) atts)) out_edges, True)
        else st)"

definition label_pass ::
    "attacks \<Rightarrow> hash list \<Rightarrow> hash list \<times> hash list \<times> bool \<Rightarrow> hash list \<times> hash list \<times> bool" where
  "label_pass atts keys st = fold (label_step atts) keys st"

definition unlabelled :: "hash list \<Rightarrow> hash list \<Rightarrow> hash list \<Rightarrow> hash set" where
  "unlabelled keys ins outs = set keys - set ins - set outs"

lemma set_fold_insert [simp]: "set (fold List.insert xs ys) = set xs \<union> set ys"
  by (induction xs arbitrary: ys) auto

definition label_fires :: "attacks \<Rightarrow> hash list \<Rightarrow> hash list \<Rightarrow> hash \<Rightarrow> bool" where
  "label_fires atts ins outs h \<longleftrightarrow>
     h \<notin> set ins \<and> h \<notin> set outs \<and> (\<forall>a. (a, h) \<in> set atts \<longrightarrow> a \<in> set outs)"

definition targets :: "attacks \<Rightarrow> hash \<Rightarrow> hash list" where
  "targets atts h = map snd (filter (\<lambda>(a, t). a = h) atts)"

lemma in_targets [simp]: "t \<in> set (targets atts h) \<longleftrightarrow> (h, t) \<in> set atts"
  by (force simp: targets_def)

lemma label_step_eq:
  "label_step atts h (ins, outs, ch) =
     (if label_fires atts ins outs h then (h # ins, fold List.insert (targets atts h) outs, True)
      else (ins, outs, ch))"
  by (auto simp: label_step_def label_fires_def targets_def list_all_iff)

lemma label_pass_unlabelled:
  assumes "set hs \<subseteq> set keys" and "label_pass atts hs (ins, outs, ch) = (ins', outs', ch')"
  shows "unlabelled keys ins' outs' \<subseteq> unlabelled keys ins outs \<and>
    (ch' \<longrightarrow> ch \<or> unlabelled keys ins' outs' \<subset> unlabelled keys ins outs)"
  using assms
proof (induction hs arbitrary: ins outs ch)
  case Nil
  then show ?case by (simp add: label_pass_def)
next
  case (Cons h hs)
  obtain ins1 outs1 ch1 where step: "label_step atts h (ins, outs, ch) = (ins1, outs1, ch1)"
    by (cases "label_step atts h (ins, outs, ch)")
  have one: "unlabelled keys ins1 outs1 \<subseteq> unlabelled keys ins outs \<and>
      (ch1 \<longrightarrow> ch \<or> unlabelled keys ins1 outs1 \<subset> unlabelled keys ins outs)"
  proof (cases "label_fires atts ins outs h")
    case True
    with step have "h \<notin> unlabelled keys ins1 outs1" "h \<in> unlabelled keys ins outs"
      "unlabelled keys ins1 outs1 \<subseteq> unlabelled keys ins outs"
      using Cons.prems(1) by (auto simp: label_step_eq unlabelled_def label_fires_def)
    then show ?thesis by blast
  next
    case False
    with step show ?thesis by (simp add: label_step_eq)
  qed
  have "label_pass atts hs (ins1, outs1, ch1) = (ins', outs', ch')"
    using Cons.prems(2) step by (simp add: label_pass_def)
  with Cons.IH [of ins1 outs1 ch1] Cons.prems(1) one show ?case by auto
qed

lemma label_loop_decreases:
  assumes "(ins', outs', True) = label_pass atts keys (ins, outs, False)"
  shows "card (unlabelled keys ins' outs') < card (unlabelled keys ins outs)"
  using label_pass_unlabelled [of keys keys atts ins outs False ins' outs' True] assms
  by (intro psubset_card_mono) (simp_all add: unlabelled_def)

function label_loop :: "attacks \<Rightarrow> hash list \<Rightarrow> hash list \<Rightarrow> hash list \<Rightarrow> hash list \<times> hash list" where
  "label_loop atts keys in_edges out_edges =
     (case label_pass atts keys (in_edges, out_edges, False) of
        (in_edges', out_edges', changed) \<Rightarrow>
          if changed then label_loop atts keys in_edges' out_edges' else (in_edges', out_edges'))"
  by pat_completeness auto
termination
  by (relation "measure (\<lambda>(atts, keys, ins, outs). card (unlabelled keys ins outs))")
    (auto dest: label_loop_decreases)

declare label_loop.simps [simp del]

record active_subgraph =
  as_in_edges :: "hash list"
  as_out_edges :: "hash list"
  as_undecided_edges :: "hash list"

definition compute_active_subgraph :: "env \<Rightarrow> reader \<Rightarrow> active_subgraph res" where
  "compute_active_subgraph E storage =
     and_then (attack_graph E storage) (\<lambda>(edges, atts).
       let (in_edges, out_edges) = label_loop atts (dict_keys edges) [] [] in
       Inr \<lparr> as_in_edges = in_edges, as_out_edges = out_edges,
             as_undecided_edges =
               filter (\<lambda>h. h \<notin> set in_edges \<and> h \<notin> set out_edges) (dict_keys edges) \<rparr>)"

section \<open>The grounded extension\<close>

inductive accepted :: "attacks \<Rightarrow> hash set \<Rightarrow> hash \<Rightarrow> bool" for atts K where
  defended: "h \<in> K \<Longrightarrow> (\<And>a. (a, h) \<in> set atts \<Longrightarrow> \<exists>b. accepted atts K b \<and> (b, a) \<in> set atts) \<Longrightarrow>
    accepted atts K h"

definition labelling_ok :: "attacks \<Rightarrow> hash list \<Rightarrow> hash list \<Rightarrow> hash list \<Rightarrow> bool" where
  "labelling_ok atts keys ins outs \<longleftrightarrow>
     (\<forall>h \<in> set ins. h \<in> set keys \<and> accepted atts (set keys) h) \<and>
     (\<forall>t. t \<in> set outs \<longleftrightarrow> (\<exists>b \<in> set ins. (b, t) \<in> set atts)) \<and>
     (\<forall>h \<in> set ins. \<forall>a. (a, h) \<in> set atts \<longrightarrow> a \<in> set outs) \<and>
     set ins \<inter> set outs = {}"

lemma label_step_ok:
  assumes ok: "labelling_ok atts keys ins outs" and h: "h \<in> set keys"
    and step: "label_step atts h (ins, outs, ch) = (ins', outs', ch')"
  shows "labelling_ok atts keys ins' outs'"
proof (cases "label_fires atts ins outs h")
  case True
  then have fires: "h \<notin> set ins" "h \<notin> set outs" "\<And>a. (a, h) \<in> set atts \<Longrightarrow> a \<in> set outs"
    by (auto simp: label_fires_def)
  have eq: "set ins' = insert h (set ins)" "set outs' = {t. (h, t) \<in> set atts} \<union> set outs"
    using step True by (auto simp: label_step_eq)
  have "\<exists>b. accepted atts (set keys) b \<and> (b, a) \<in> set atts" if "(a, h) \<in> set atts" for a
    using fires(3) [OF that] ok unfolding labelling_ok_def by blast
  then have acc: "accepted atts (set keys) h" by (rule accepted.defended [OF h])
  have "t \<notin> insert h (set ins)" if "(h, t) \<in> set atts" for t
    using that fires ok unfolding labelling_ok_def by blast
  with ok fires h acc show ?thesis unfolding labelling_ok_def eq by blast
next
  case False
  with ok step show ?thesis by (simp add: label_step_eq)
qed

lemma label_pass_ok:
  assumes "set hs \<subseteq> set keys" and "labelling_ok atts keys ins outs"
    and "label_pass atts hs (ins, outs, ch) = (ins', outs', ch')"
  shows "labelling_ok atts keys ins' outs'"
  using assms
proof (induction hs arbitrary: ins outs ch)
  case Nil
  then show ?case by (simp add: label_pass_def)
next
  case (Cons h hs)
  obtain ins1 outs1 ch1 where step: "label_step atts h (ins, outs, ch) = (ins1, outs1, ch1)"
    by (cases "label_step atts h (ins, outs, ch)")
  have "labelling_ok atts keys ins1 outs1"
    by (rule label_step_ok [OF Cons.prems(2) _ step]) (use Cons.prems(1) in simp)
  moreover have "label_pass atts hs (ins1, outs1, ch1) = (ins', outs', ch')"
    using Cons.prems(3) step by (simp add: label_pass_def)
  ultimately show ?case using Cons.IH Cons.prems(1) by simp
qed

lemma label_pass_flag: "label_pass atts hs (ins, outs, True) = (ins', outs', ch') \<Longrightarrow> ch'"
proof (induction hs arbitrary: ins outs)
  case (Cons h hs)
  have "\<exists>ins1 outs1. label_step atts h (ins, outs, True) = (ins1, outs1, True)"
    by (simp add: label_step_eq)
  then obtain ins1 outs1 where "label_step atts h (ins, outs, True) = (ins1, outs1, True)" by blast
  with Cons.prems have "label_pass atts hs (ins1, outs1, True) = (ins', outs', ch')"
    by (simp add: label_pass_def)
  then show ?case by (rule Cons.IH)
qed (simp add: label_pass_def)

lemma label_pass_stable:
  assumes "label_pass atts hs (ins, outs, False) = (ins', outs', False)"
  shows "ins' = ins \<and> outs' = outs \<and> (\<forall>h \<in> set hs. \<not> label_fires atts ins outs h)"
  using assms
proof (induction hs)
  case Nil
  then show ?case by (simp add: label_pass_def)
next
  case (Cons h hs)
  have rest: "label_pass atts hs (label_step atts h (ins, outs, False)) = (ins', outs', False)"
    using Cons.prems by (simp add: label_pass_def)
  have "\<not> label_fires atts ins outs h"
    using rest label_pass_flag [of atts hs _ _ ins' outs' False] by (auto simp: label_step_eq split: if_splits)
  with rest Cons.IH show ?case by (simp add: label_step_eq)
qed

lemma label_loop_ok:
  assumes "labelling_ok atts keys ins outs" and "label_loop atts keys ins outs = (ins', outs')"
  shows "labelling_ok atts keys ins' outs' \<and> (\<forall>h \<in> set keys. \<not> label_fires atts ins' outs' h)"
  using assms
proof (induction atts keys ins outs rule: label_loop.induct)
  case (1 atts keys ins outs)
  obtain ins1 outs1 ch where pass: "label_pass atts keys (ins, outs, False) = (ins1, outs1, ch)"
    by (cases "label_pass atts keys (ins, outs, False)")
  from label_pass_ok [OF order.refl "1.prems"(1) pass]
  have one: "labelling_ok atts keys ins1 outs1" .
  show ?case
  proof (cases ch)
    case True
    with "1.prems"(2) pass have "label_loop atts keys ins1 outs1 = (ins', outs')"
      by (simp add: label_loop.simps [of atts keys ins])
    with "1.IH" [OF pass [symmetric] refl True one] show ?thesis by blast
  next
    case False
    with "1.prems"(2) pass have eq: "ins' = ins1" "outs' = outs1"
      by (simp_all add: label_loop.simps [of atts keys ins])
    from False pass label_pass_stable [of atts keys ins outs ins1 outs1] one show ?thesis
      by (simp add: eq)
  qed
qed

text \<open>A labelling that cannot be extended has labelled every accepted edge.\<close>

lemma stable_accepted:
  assumes "labelling_ok atts keys ins outs" and "\<forall>h \<in> set keys. \<not> label_fires atts ins outs h"
    and "accepted atts (set keys) h"
  shows "h \<in> set ins"
  using assms(3)
proof induction
  case (defended h)
  have all_out: "a \<in> set outs" if "(a, h) \<in> set atts" for a
    using defended(2) [OF that] assms(1) unfolding labelling_ok_def by blast
  moreover have "h \<notin> set outs"
    using all_out assms(1) unfolding labelling_ok_def by blast
  ultimately show ?case using assms(2) defended(1) unfolding label_fires_def by blast
qed

lemma label_loop_grounded:
  assumes "label_loop atts keys [] [] = (ins, outs)"
  shows "set ins = {h. accepted atts (set keys) h}"
    and "set outs = {t. \<exists>b. accepted atts (set keys) b \<and> (b, t) \<in> set atts}"
    and "set ins \<inter> set outs = {}"
proof -
  have "labelling_ok atts keys [] []" by (simp add: labelling_ok_def)
  from label_loop_ok [OF this assms] have ok: "labelling_ok atts keys ins outs"
    and stable: "\<forall>h \<in> set keys. \<not> label_fires atts ins outs h" by simp_all
  show ins: "set ins = {h. accepted atts (set keys) h}"
    using ok stable_accepted [OF ok stable] unfolding labelling_ok_def by blast
  show "set outs = {t. \<exists>b. accepted atts (set keys) b \<and> (b, t) \<in> set atts}"
    using ok ins unfolding labelling_ok_def by blast
  show "set ins \<inter> set outs = {}" using ok unfolding labelling_ok_def by blast
qed

section \<open>Who attacks whom\<close>

definition prop_of :: "node \<Rightarrow> pystr \<times> pystr" where
  "prop_of n = (n_claim n, n_domain n)"

lemma foldl_add_prop:
  "map_of (foldl add_prop d hns) key =
     (let items = map (\<lambda>(h, n). (h, n_polarity n)) (filter (\<lambda>(h, n). prop_of n = key) hns) in
      case map_of d key of
        None \<Rightarrow> if items = [] then None else Some items
      | Some items' \<Rightarrow> Some (items' @ items))"
proof (induction hns arbitrary: d)
  case Nil
  then show ?case by (simp split: option.splits)
next
  case (Cons hn hns)
  obtain h n where hn: "hn = (h, n)" by (cases hn)
  have add: "map_of (add_prop d (h, n)) = (map_of d)(prop_of n \<mapsto>
      (case map_of d (prop_of n) of None \<Rightarrow> [] | Some items \<Rightarrow> items) @ [(h, n_polarity n)])"
    by (simp add: add_prop_def prop_of_def)
  have "foldl add_prop d (hn # hns) = foldl add_prop (add_prop d (h, n)) hns" by (simp add: hn)
  then show ?case
    by (simp only: Cons.IH add) (auto simp: hn Let_def split: option.splits)
qed

lemma distinct_group: "distinct (map fst d) \<Longrightarrow> distinct (map fst (foldl add_prop d hns))"
  by (induction hns arbitrary: d) (auto simp: add_prop_def split: prod.splits)

lemma in_group:
  "(key, items) \<in> set (group_by_prop hns) \<longleftrightarrow>
     items \<noteq> [] \<and> items = map (\<lambda>(h, n). (h, n_polarity n)) (filter (\<lambda>(h, n). prop_of n = key) hns)"
proof -
  have "distinct (map fst (group_by_prop hns))" unfolding group_by_prop_def by (rule distinct_group) simp
  then have "(key, items) \<in> set (group_by_prop hns) \<longleftrightarrow> map_of (group_by_prop hns) key = Some items"
    by simp
  also have "\<dots> \<longleftrightarrow> items \<noteq> [] \<and>
      items = map (\<lambda>(h, n). (h, n_polarity n)) (filter (\<lambda>(h, n). prop_of n = key) hns)"
    by (auto simp: group_by_prop_def foldl_add_prop Let_def)
  finally show ?thesis .
qed

lemma in_contention:
  "(a, t) \<in> set (contention items) \<longleftrightarrow> (\<exists>p. (a, p) \<in> set items \<and> (t, \<not> p) \<in> set items)"
proof
  assume "(a, t) \<in> set (contention items)"
  then show "\<exists>p. (a, p) \<in> set items \<and> (t, \<not> p) \<in> set items"
    by (auto simp: contention_def Let_def)
next
  assume "\<exists>p. (a, p) \<in> set items \<and> (t, \<not> p) \<in> set items"
  then obtain p where "(a, p) \<in> set items" "(t, \<not> p) \<in> set items" by blast
  then show "(a, t) \<in> set (contention items)"
    by (cases p) (force simp: contention_def Let_def)+
qed

lemma contention_attacksI:
  "(key, items) \<in> set (group_by_prop hns) \<Longrightarrow> p \<in> set (contention items) \<Longrightarrow>
    p \<in> set (contention_attacks hns)"
  unfolding contention_attacks_def set_concat set_map image_comp comp_def
  by (rule UN_I [of "(key, items)"]) (simp_all only: prod.case)

lemma in_contention_attacks:
  "(a, t) \<in> set (contention_attacks hns) \<longleftrightarrow>
     (\<exists>n n'. (a, n) \<in> set hns \<and> (t, n') \<in> set hns \<and> prop_of n = prop_of n' \<and>
        n_polarity n \<noteq> n_polarity n')"
  (is "?l \<longleftrightarrow> ?r")
proof
  assume ?l
  then obtain key items where grp: "(key, items) \<in> set (group_by_prop hns)"
    and att: "(a, t) \<in> set (contention items)"
    by (auto simp: contention_attacks_def)
  from grp have items: "items = map (\<lambda>(h, n). (h, n_polarity n)) (filter (\<lambda>(h, n). prop_of n = key) hns)"
    by (simp add: in_group)
  from att obtain p where "(a, p) \<in> set items" "(t, \<not> p) \<in> set items"
    unfolding in_contention by blast
  then obtain n n' where "(a, n) \<in> set hns" "prop_of n = key" "n_polarity n = p"
    "(t, n') \<in> set hns" "prop_of n' = key" "n_polarity n' = (\<not> p)"
    unfolding items by auto
  then show ?r by (intro exI [of _ n] exI [of _ n']) simp
next
  assume ?r
  then obtain n n' where n: "(a, n) \<in> set hns" "(t, n') \<in> set hns" "prop_of n = prop_of n'"
    "n_polarity n \<noteq> n_polarity n'" by blast
  let ?items = "map (\<lambda>(h, n). (h, n_polarity n)) (filter (\<lambda>(h, m). prop_of m = prop_of n) hns)"
  have mem: "(a, n_polarity n) \<in> set ?items" "(t, \<not> n_polarity n) \<in> set ?items"
    using n by (auto simp: image_iff intro!: bexI [of _ "(a, n)"] bexI [of _ "(t, n')"])
  then have "?items \<noteq> []" by (metis empty_iff list.set(1))
  then have "(prop_of n, ?items) \<in> set (group_by_prop hns)" unfolding in_group by blast
  moreover have "(a, t) \<in> set (contention ?items)" using mem in_contention by blast
  ultimately show ?l by (rule contention_attacksI)
qed

lemma in_concluded:
  assumes "concluded E storage edges = Inr hns"
  shows "(h, n) \<in> set hns \<longleftrightarrow>
    (\<exists>e. (h, e) \<in> set edges \<and> resolve_node E storage (e_conclusion e) = Inr (Some n))"
  using assms
proof (induction edges arbitrary: hns)
  case (Cons he edges)
  obtain g e where he: "he = (g, e)" by (cases he)
  from Cons.prems he obtain r rest where r: "resolve_node E storage (e_conclusion e) = Inr r"
    and rest: "concluded E storage edges = Inr rest"
    by (auto simp: res_simps split: option.splits)
  have hns: "hns = (case r of None \<Rightarrow> rest | Some m \<Rightarrow> (g, m) # rest)"
    using Cons.prems by (simp add: he r rest split: option.splits)
  have "(h, n) \<in> set hns \<longleftrightarrow> (h = g \<and> r = Some n) \<or> (h, n) \<in> set rest"
    by (auto simp: hns split: option.splits)
  also have "\<dots> \<longleftrightarrow> (\<exists>e'. (h, e') \<in> set (he # edges) \<and>
      resolve_node E storage (e_conclusion e') = Inr (Some n))"
    unfolding Cons.IH [OF rest] using r by (auto simp: he)
  finally show ?case .
qed simp

lemma load_edges_distinct:
  "load_edges E storage hs d = Inr edges \<Longrightarrow> distinct (map fst d) \<Longrightarrow> distinct (map fst edges)"
proof (induction hs arbitrary: d)
  case (Cons h hs)
  then obtain r where r: "resolve_edge E storage h = Inr r" by (auto simp: res_simps)
  with Cons show ?case by (cases r) auto
qed simp

lemma load_edges_resolved:
  assumes "load_edges E storage hs d = Inr edges" and "map_of edges h = Some e"
  shows "map_of d h = Some e \<or> h \<in> set hs \<and> resolve_edge E storage h = Inr (Some e)"
  using assms
proof (induction hs arbitrary: d)
  case (Cons g hs)
  then obtain r where r: "resolve_edge E storage g = Inr r" by (auto simp: res_simps)
  with Cons show ?case by (cases r) (fastforce simp: map_of_dict_set split: if_splits)+
qed simp

lemma attack_graphE:
  assumes "attack_graph E storage = Inr (edges, atts)"
  obtains hns where "concluded E storage edges = Inr hns"
    and "atts = refutation_attacks edges @ contention_attacks hns" and "distinct (map fst edges)"
  using assms load_edges_distinct [of E storage _ "[]" edges]
  by (auto simp: attack_graph_def res_simps)

lemma attack_graph_keys:
  assumes "attack_graph E storage = Inr (edges, atts)" and "(a, t) \<in> set atts"
  shows "a \<in> set (dict_keys edges) \<and> t \<in> set (dict_keys edges)"
proof -
  from attack_graphE [OF assms(1)] obtain hns where hns: "concluded E storage edges = Inr hns"
    "atts = refutation_attacks edges @ contention_attacks hns" by blast
  with assms(2) show ?thesis
    using in_concluded [OF hns(1)]
    by (force simp: refutation_attacks_def in_contention_attacks dict_keys_def)
qed

section \<open>Properties\<close>

lemma attacks_iff:
  assumes "attack_graph E storage = Inr (edges, atts)"
  shows "(a, t) \<in> set atts \<longleftrightarrow>
    (\<exists>e. map_of edges a = Some e \<and> e_type e = REFUTATION \<and> e_conclusion e = t \<and> map_of edges t \<noteq> None) \<or>
    (\<exists>e e' n n'. map_of edges a = Some e \<and> map_of edges t = Some e' \<and>
       resolve_node E storage (e_conclusion e) = Inr (Some n) \<and>
       resolve_node E storage (e_conclusion e') = Inr (Some n') \<and>
       n_claim n = n_claim n' \<and> n_domain n = n_domain n' \<and> n_polarity n \<noteq> n_polarity n')"
proof -
  from attack_graphE [OF assms] obtain hns where hns: "concluded E storage edges = Inr hns"
    and atts: "atts = refutation_attacks edges @ contention_attacks hns"
    and dist: "distinct (map fst edges)" by blast
  have mem: "(h, e) \<in> set edges \<longleftrightarrow> map_of edges h = Some e" for h e using dist by simp
  have keys: "h \<in> set (dict_keys edges) \<longleftrightarrow> map_of edges h \<noteq> None" for h
    by (simp add: dict_keys_def map_of_eq_None_iff)
  have "(a, t) \<in> set (refutation_attacks edges) \<longleftrightarrow>
      (\<exists>e. map_of edges a = Some e \<and> e_type e = REFUTATION \<and> e_conclusion e = t \<and> map_of edges t \<noteq> None)"
    by (force simp: refutation_attacks_def keys simp flip: mem)
  moreover have "(a, t) \<in> set (contention_attacks hns) \<longleftrightarrow>
      (\<exists>e e' n n'. map_of edges a = Some e \<and> map_of edges t = Some e' \<and>
       resolve_node E storage (e_conclusion e) = Inr (Some n) \<and>
       resolve_node E storage (e_conclusion e') = Inr (Some n') \<and>
       n_claim n = n_claim n' \<and> n_domain n = n_domain n' \<and> n_polarity n \<noteq> n_polarity n')"
    unfolding in_contention_attacks in_concluded [OF hns] mem prop_of_def by blast
  ultimately show ?thesis by (simp add: atts)
qed

text \<open>The attack graph is the documented one: an edge attacks another exactly when it is a refutation
  whose conclusion is the other's hash, or when both conclude readable nodes with the same claim and
  domain and opposite polarity.\<close>

theorem attacks_characterised:
  assumes "attack_graph E storage = Inr (edges, atts)"
  shows "(a, t) \<in> set atts \<longleftrightarrow>
    (\<exists>e. map_of edges a = Some e \<and> e_type e = REFUTATION \<and> e_conclusion e = t \<and> map_of edges t \<noteq> None) \<or>
    (\<exists>e e' n n'. map_of edges a = Some e \<and> map_of edges t = Some e' \<and>
       resolve_node E storage (e_conclusion e) = Inr (Some n) \<and>
       resolve_node E storage (e_conclusion e') = Inr (Some n') \<and>
       n_claim n = n_claim n' \<and> n_domain n = n_domain n' \<and> n_polarity n \<noteq> n_polarity n')"
  by (rule attacks_iff [OF assms])

text \<open>C6: the labelling is Dung's grounded extension: an edge is IN exactly when it belongs to the least
  set of edges each defended by the set, OUT exactly when an IN edge attacks it, UNDECIDED otherwise;
  the three classes partition the resolved edges and no IN edge attacks another.\<close>

theorem active_subgraph_grounded:
  assumes "attack_graph E storage = Inr (edges, atts)"
  shows "\<exists>g. compute_active_subgraph E storage = Inr g \<and>
    set (as_in_edges g) = {h. accepted atts (set (dict_keys edges)) h} \<and>
    set (as_out_edges g) = {t. \<exists>b \<in> set (as_in_edges g). (b, t) \<in> set atts} \<and>
    set (as_undecided_edges g) = set (dict_keys edges) - set (as_in_edges g) - set (as_out_edges g) \<and>
    set (as_in_edges g) \<inter> set (as_out_edges g) = {} \<and>
    set (as_in_edges g) \<union> set (as_out_edges g) \<union> set (as_undecided_edges g) = set (dict_keys edges) \<and>
    (\<forall>a \<in> set (as_in_edges g). \<forall>b \<in> set (as_in_edges g). (a, b) \<notin> set atts)"
proof -
  obtain ins outs where loop: "label_loop atts (dict_keys edges) [] [] = (ins, outs)"
    by (cases "label_loop atts (dict_keys edges) [] []")
  note g = label_loop_grounded [OF loop]
  have sub: "set ins \<subseteq> set (dict_keys edges)" unfolding g(1) by (auto elim: accepted.cases)
  have sub': "set outs \<subseteq> set (dict_keys edges)"
    using attack_graph_keys [OF assms] unfolding g(2) by blast
  have "(a, b) \<notin> set atts" if "a \<in> set ins" "b \<in> set ins" for a b
    using that g by blast
  with g sub sub' show ?thesis
    by (auto simp: compute_active_subgraph_def assms loop)
qed

definition refuting_edge :: "hash \<Rightarrow> edge" where
  "refuting_edge t =
     \<lparr> e_type = REFUTATION, e_premises = [], e_conclusion = t, e_rule = [], e_proof_hash = None,
       e_verdict = PASS, e_kappa = K1, e_signer_pubkey = [] \<rparr>"

definition refuted_edges :: "(hash, edge) dict" where
  "refuted_edges =
     [(sample_hash 101, axiom_edge (sample_hash 1) K_INF), (sample_hash 103, refuting_edge (sample_hash 101))]"

definition refuted_reader :: reader where
  "refuted_reader =
     reader_of (map (\<lambda>(h, e). (h, cbor_dumps ref_env (edge_to_canonical e))) refuted_edges)
       (map fst refuted_edges)"

lemma refuted_attack_graph:
  "attack_graph ref_env refuted_reader = Inr (refuted_edges, [(sample_hash 103, sample_hash 101)])"
proof -
  have "edge_hashes_ok (axiom_edge (sample_hash 1) K_INF)" "edge_hashes_ok (refuting_edge (sample_hash 101))"
    by (simp_all add: edge_hashes_ok_def axiom_edge_def refuting_edge_def)
  from this [THEN edge_decode_ok [OF ref_env_cbor]] node_as_edge [OF ref_env_cbor]
    edge_as_node [OF ref_env_cbor]
  have dec: "edge_from_bytes ref_env (enc (edge_to_canonical (axiom_edge (sample_hash 1) K_INF))) =
        Inr (axiom_edge (sample_hash 1) K_INF)"
    "edge_from_bytes ref_env (enc (edge_to_canonical (refuting_edge (sample_hash 101)))) =
        Inr (refuting_edge (sample_hash 101))"
    "node_from_bytes ref_env (enc (edge_to_canonical (axiom_edge (sample_hash 1) K_INF))) = Inl KeyError"
    by simp_all
  have ne: "sample_hash 103 \<noteq> sample_hash 101" "sample_hash 101 \<noteq> sample_hash 103"
    "sample_hash 1 \<noteq> sample_hash 101" "sample_hash 1 \<noteq> sample_hash 103"
    by (simp_all add: sample_hash_def)
  have ty: "e_type (axiom_edge (sample_hash 1) K_INF) = DEFINITION"
    "e_type (refuting_edge (sample_hash 101)) = REFUTATION"
    "e_conclusion (refuting_edge (sample_hash 101)) = sample_hash 101"
    by (simp_all add: axiom_edge_def refuting_edge_def)
  show ?thesis
    by (simp add: attack_graph_def refuted_reader_def reader_of_def refuted_edges_def
        resolve_edge_def resolve_node_def dec ne ty refutation_attacks_def contention_attacks_def
        group_by_prop_def dict_set_def dict_keys_def)
qed

theorem attacks_characterised_witness:
  "(sample_hash 103, sample_hash 101) \<in> set [(sample_hash 103, sample_hash 101)] \<longleftrightarrow>
    (\<exists>e. map_of refuted_edges (sample_hash 103) = Some e \<and> e_type e = REFUTATION \<and>
       e_conclusion e = sample_hash 101 \<and> map_of refuted_edges (sample_hash 101) \<noteq> None) \<or>
    (\<exists>e e' n n'. map_of refuted_edges (sample_hash 103) = Some e \<and>
       map_of refuted_edges (sample_hash 101) = Some e' \<and>
       resolve_node ref_env refuted_reader (e_conclusion e) = Inr (Some n) \<and>
       resolve_node ref_env refuted_reader (e_conclusion e') = Inr (Some n') \<and>
       n_claim n = n_claim n' \<and> n_domain n = n_domain n' \<and> n_polarity n \<noteq> n_polarity n')"
  by (rule attacks_characterised [OF refuted_attack_graph])

theorem active_subgraph_grounded_witness:
  "\<exists>g. compute_active_subgraph ref_env refuted_reader = Inr g \<and>
    set (as_in_edges g) =
      {h. accepted [(sample_hash 103, sample_hash 101)] (set (dict_keys refuted_edges)) h} \<and>
    set (as_out_edges g) =
      {t. \<exists>b \<in> set (as_in_edges g). (b, t) \<in> set [(sample_hash 103, sample_hash 101)]} \<and>
    set (as_undecided_edges g) =
      set (dict_keys refuted_edges) - set (as_in_edges g) - set (as_out_edges g) \<and>
    set (as_in_edges g) \<inter> set (as_out_edges g) = {} \<and>
    set (as_in_edges g) \<union> set (as_out_edges g) \<union> set (as_undecided_edges g) =
      set (dict_keys refuted_edges) \<and>
    (\<forall>a \<in> set (as_in_edges g). \<forall>b \<in> set (as_in_edges g).
       (a, b) \<notin> set [(sample_hash 103, sample_hash 101)])"
  by (rule active_subgraph_grounded [OF refuted_attack_graph])

text \<open>Restricting the derivations to a set of edges.\<close>

lemma keep_derivations_active:
  "keep_derivations E storage (Some active) hs = Inr des \<Longrightarrow> fst ` set des \<subseteq> set active"
proof (induction hs arbitrary: des)
  case (Cons h hs)
  show ?case
  proof (cases "h \<in> set active")
    case False
    with Cons show ?thesis by simp
  next
    case True
    with Cons.prems obtain r where r: "resolve_edge E storage h = Inr r" by (auto simp: res_simps)
    with Cons True show ?thesis
      by (fastforce simp: res_simps image_subset_iff split: option.splits if_splits)
  qed
qed simp

lemma derivation_edges_active:
  "derivation_edges E storage (Some active) = Inr des \<Longrightarrow> fst ` set des \<subseteq> set active"
  by (auto simp: derivation_edges_def res_simps dest!: keep_derivations_active)

text \<open>Reachability over the active subgraph respects refutation: if some edge is attacked by an edge
  that nothing attacks, it is OUT, and neither it nor any other OUT or UNDECIDED edge is among the
  derivation edges the query uses.\<close>

theorem refuted_edge_is_not_used:
  assumes "attack_graph E storage = Inr (edges, atts)" and "(a, t) \<in> set atts"
    and "\<forall>b. (b, a) \<notin> set atts"
    and "compute_active_subgraph E storage = Inr g"
    and "derivation_edges E storage (Some (as_in_edges g)) = Inr des"
  shows "t \<in> set (as_out_edges g) \<and> t \<notin> fst ` set des \<and>
    fst ` set des \<inter> (set (as_out_edges g) \<union> set (as_undecided_edges g)) = {}"
proof -
  obtain ins outs where loop: "label_loop atts (dict_keys edges) [] [] = (ins, outs)"
    by (cases "label_loop atts (dict_keys edges) [] []")
  note ground = label_loop_grounded [OF loop]
  have g: "as_in_edges g = ins" "as_out_edges g = outs"
    "set (as_undecided_edges g) \<inter> set ins = {}"
    using assms(4) by (auto simp: compute_active_subgraph_def assms(1) loop)
  have "accepted atts (set (dict_keys edges)) a"
    using attack_graph_keys [OF assms(1,2)] assms(3) by (intro accepted.defended) auto
  then have "t \<in> set outs" using ground(2) assms(2) by blast
  moreover have "fst ` set des \<subseteq> set ins" using derivation_edges_active [OF assms(5)] by (simp add: g)
  ultimately show ?thesis using ground(3) g by blast
qed

theorem refuted_edge_is_not_used_witness:
  "\<exists>g des. compute_active_subgraph ref_env refuted_reader = Inr g \<and>
    derivation_edges ref_env refuted_reader (Some (as_in_edges g)) = Inr des \<and>
    sample_hash 101 \<in> set (as_out_edges g) \<and> sample_hash 101 \<notin> fst ` set des \<and>
    fst ` set des \<inter> (set (as_out_edges g) \<union> set (as_undecided_edges g)) = {}"
proof -
  obtain ins outs where loop: "label_loop [(sample_hash 103, sample_hash 101)] (dict_keys refuted_edges) [] [] = (ins, outs)"
    by (cases "label_loop [(sample_hash 103, sample_hash 101)] (dict_keys refuted_edges) [] []")
  then obtain g where g: "compute_active_subgraph ref_env refuted_reader = Inr g"
    by (simp add: compute_active_subgraph_def refuted_attack_graph)
  have keep: "\<exists>des. keep_derivations ref_env refuted_reader act hs = Inr des" for act hs
  proof (induction hs)
    case (Cons h hs)
    then obtain des where "keep_derivations ref_env refuted_reader act hs = Inr des" by blast
    moreover have "\<exists>r. resolve_edge ref_env refuted_reader h = Inr r"
      by (simp add: resolve_edge_def refuted_reader_def reader_of_def split: option.splits)
    ultimately show ?case by (auto split: option.splits)
  qed simp
  have "\<exists>des. derivation_edges ref_env refuted_reader (Some (as_in_edges g)) = Inr des"
    using keep by (simp add: derivation_edges_def) (simp add: refuted_reader_def reader_of_def)
  then obtain des where des: "derivation_edges ref_env refuted_reader (Some (as_in_edges g)) = Inr des" ..
  have "sample_hash 101 \<noteq> sample_hash 103" by (simp add: sample_hash_def)
  with refuted_edge_is_not_used [OF refuted_attack_graph _ _ g des, of "sample_hash 103" "sample_hash 101"] g des
  show ?thesis by simp
qed

end
