(* ===== verification/End_To_End.thy ===== *)
theory End_To_End
  imports Commit Path_Discovery Refutation
begin

text \<open>
  The layers together: what the queries answer on a storage after a proposal was verified and committed.
\<close>

section \<open>More edges, more derivations\<close>

lemma derives_mono:
  assumes "derives des seeds n k" and "set des \<subseteq> set des'"
  shows "derives des' seeds n k"
  using assms(1)
proof induction
  case (step h e f)
  have "(h, e) \<in> set des'" using step(1) assms(2) by blast
  then show ?case using step(2) by (rule derives.step) (rule step.IH)
qed (use assms(2) in \<open>blast intro: derives.axiom derives.assumed\<close>)+

lemma reachable_kappa:
  assumes "derivation_edges E R active = Inr des"
  shows "\<exists>r. reachable E R n m seeds active = Inr r \<and>
    (\<forall>k. rr_kappa r = Some k \<longleftrightarrow> derives des seeds n k \<and> (\<forall>k'. derives des seeds n k' \<longrightarrow> k' \<le> k)) \<and>
    (rr_established r \<longleftrightarrow> (\<exists>k. rr_kappa r = Some k \<and> rank m \<le> rank k))"
proof (cases "map_of (fs_kappa (fixpoint des seeds)) n")
  case None
  then show ?thesis
    using kappa_fixpoint_None_iff [of des seeds n]
    by (simp add: reachable_eq [OF assms] reachable_from_None)
next
  case (Some k)
  from reachable_from_Some [OF Some] obtain d where
    "reachable_from des n m seeds =
      Inr \<lparr> rr_target = n, rr_established = (rank m \<le> rank k), rr_kappa = Some k,
            rr_depth = Some d, rr_proof_tree_edges =
              collect_proof_tree n (fs_best (fixpoint des seeds)) (dict_of des) \<rparr>" by blast
  then show ?thesis
    unfolding kappa_fixpoint_iff [symmetric] by (simp add: reachable_eq [OF assms] Some)
qed

lemma derives_best:
  assumes "derives des seeds n k"
  shows "\<exists>k'. k \<le> k' \<and> derives des seeds n k' \<and> (\<forall>k''. derives des seeds n k'' \<longrightarrow> k'' \<le> k')"
proof -
  obtain k' where "map_of (fs_kappa (fixpoint des seeds)) n = Some k'"
    using assms kappa_fixpoint_None_iff [of des seeds n] by (metis not_None_eq)
  with assms show ?thesis unfolding kappa_fixpoint_iff by blast
qed

section \<open>The derivations of a storage\<close>

definition edge_at :: "env \<Rightarrow> storage \<Rightarrow> hash \<Rightarrow> edge option" where
  "edge_at E s h = Option.bind (get (st_objects s) h) (\<lambda>d. option_of_res (edge_from_bytes E d))"

lemma resolve_edge_at: "resolve_edge E (sqlite_reader E s) h = Inr (edge_at E s h)"
  by (simp add: resolve_sqlite edge_at_def)

lemma keep_all:
  "\<exists>des. keep_derivations E (sqlite_reader E s) None hs = Inr des \<and>
    set des = {(h, e). h \<in> set hs \<and> edge_at E s h = Some e \<and> derives_claims e}"
proof (induction hs)
  case (Cons h hs)
  then obtain des where "keep_derivations E (sqlite_reader E s) None hs = Inr des"
    "set des = {(h, e). h \<in> set hs \<and> edge_at E s h = Some e \<and> derives_claims e}" by blast
  then show ?case by (auto simp: resolve_edge_at split: option.splits)
qed simp

lemma storage_derivations:
  assumes "storage_ok E s"
  shows "\<exists>des. derivation_edges E (sqlite_reader E s) None = Inr des \<and>
    set des = {(h, e). h \<in> dom (connectivity (committed (st_conn s))) \<and> edge_at E s h = Some e \<and>
      derives_claims e}"
proof -
  have "graph_ok (view (st_conn s))" using assms by (simp add: storage_ok_view) (simp add: storage_ok_def)
  then obtain es where es: "all_edges (st_conn s) = Inr es" "set es = dom (connectivity (view (st_conn s)))"
    using all_edges_eq by blast
  from keep_all [of E s es] es show ?thesis
    by (auto simp: derivation_edges_def storage_ok_view [OF assms])
qed

section \<open>After a commit\<close>

lemma stored_as_derivations:
  assumes ok: "proposal_ok E s prems c p e" and as: "stored_as E s prems c p e s'"
    and des: "derivation_edges E (sqlite_reader E s) None = Inr des"
    and des': "derivation_edges E (sqlite_reader E s') None = Inr des'"
  shows "set des \<subseteq> set des'" and "derives_claims e \<Longrightarrow> (hash_bytes E (edge_blob E e), e) \<in> set des'"
proof -
  note got = stored_as_blobs [OF ok as] and d = proposal_okD [OF ok]
  have ok': "storage_ok E s'" and conn: "connectivity (committed (st_conn s')) =
      (connectivity (committed (st_conn s)))(hash_bytes E (edge_blob E e) \<mapsto> (e_premises e, e_conclusion e))"
    using as by (simp_all add: stored_as_def)
  have set_des: "set des = {(h, e). h \<in> dom (connectivity (committed (st_conn s))) \<and> edge_at E s h = Some e \<and>
      derives_claims e}" using storage_derivations [OF d(4)] des by auto
  have set_des': "set des' = {(h, e). h \<in> dom (connectivity (committed (st_conn s'))) \<and> edge_at E s' h = Some e \<and>
      derives_claims e}" using storage_derivations [OF ok'] des' by auto
  have keep: "edge_at E s h = Some x \<Longrightarrow> edge_at E s' h = Some x" for h x
    using got(3) by (auto simp: edge_at_def bind_eq_Some_conv)
  show "set des \<subseteq> set des'" unfolding set_des set_des' conn using keep by auto
  have "edge_at E s' (hash_bytes E (edge_blob E e)) = Some e"
    by (simp add: edge_at_def got(1) edge_decode_ok [OF d(3,6)])
  then show "derives_claims e \<Longrightarrow> (hash_bytes E (edge_blob E e), e) \<in> set des'"
    unfolding set_des' conn by auto
qed

text \<open>C25: committing never weakens an answer: after an accepted proposal every claim that was derivable from
  the same assumptions is derivable with at least the strength it had, and what was established stays
  established.\<close>

theorem commit_monotone:
  assumes "blake3_spec E" and "ed25519_spec E" and "cbor_spec E" and "storage_ok E s" and "graph_typed E s"
    and "verify P prems c rule et p t = Some (Inr r)" and "\<not> rejected r"
    and "collision_free E (new_blobs E prems c p (built_edge E signer prems c rule et p r) \<union> blobs_of s)"
  shows "\<exists>s' res a a'. verify_and_commit E P now signer prems c rule et p t s = Some (s', Inr res) \<and>
    reachable E (sqlite_reader E s) target m seeds None = Inr a \<and>
    reachable E (sqlite_reader E s') target m seeds None = Inr a' \<and>
    (\<forall>k. rr_kappa a = Some k \<longrightarrow> (\<exists>k'. rr_kappa a' = Some k' \<and> k \<le> k')) \<and>
    (rr_established a \<longrightarrow> rr_established a')"
proof -
  let ?e = "built_edge E signer prems c rule et p r"
  have ok: "proposal_ok E s prems c p ?e" by (rule proposal_okI [OF assms(1-5,8)])
  obtain s' entry where run: "verify_and_commit E P now signer prems c rule et p t s = Some (s', Inr entry)"
    and as: "stored_as E s prems c p ?e s'"
    using store_edge_effect [OF ok, of now r] unfolding verify_and_commit_accepted [OF assms(6,7)] by blast
  obtain des where des: "derivation_edges E (sqlite_reader E s) None = Inr des"
    using storage_derivations [OF assms(4)] by blast
  obtain des' where des': "derivation_edges E (sqlite_reader E s') None = Inr des'"
    using storage_derivations as unfolding stored_as_def by blast
  note sub = stored_as_derivations(1) [OF ok as des des']
  obtain a where a: "reachable E (sqlite_reader E s) target m seeds None = Inr a"
    "\<And>k. rr_kappa a = Some k \<longleftrightarrow> derives des seeds target k \<and> (\<forall>k'. derives des seeds target k' \<longrightarrow> k' \<le> k)"
    "rr_established a \<longleftrightarrow> (\<exists>k. rr_kappa a = Some k \<and> rank m \<le> rank k)"
    using reachable_kappa [OF des, of target m seeds] by blast
  obtain a' where a': "reachable E (sqlite_reader E s') target m seeds None = Inr a'"
    "\<And>k. rr_kappa a' = Some k \<longleftrightarrow> derives des' seeds target k \<and> (\<forall>k'. derives des' seeds target k' \<longrightarrow> k' \<le> k)"
    "rr_established a' \<longleftrightarrow> (\<exists>k. rr_kappa a' = Some k \<and> rank m \<le> rank k)"
    using reachable_kappa [OF des', of target m seeds] by blast
  have up: "\<exists>k'. rr_kappa a' = Some k' \<and> k \<le> k'" if "rr_kappa a = Some k" for k
    using derives_best [OF derives_mono [OF _ sub]] that unfolding a(2) a'(2) by blast
  moreover have "rr_established a \<longrightarrow> rr_established a'"
    unfolding a(3) a'(3) using up by (fastforce simp: rank_le_iff intro: order_trans)
  ultimately show ?thesis using run a(1) a'(1) by blast
qed

text \<open>A sample run: the roster's definition.\<close>

theorem commit_monotone_witness:
  "\<exists>s' res a a'. verify_and_commit ref_env sample_provers 5 sample_key [] roster_node [] DEFINITION None
      five_seconds sample_storage = Some (s', Inr res) \<and>
    reachable ref_env (sqlite_reader ref_env sample_storage) (sample_hash 1) K1 [sample_hash 1] None = Inr a \<and>
    reachable ref_env (sqlite_reader ref_env s') (sample_hash 1) K1 [sample_hash 1] None = Inr a' \<and>
    ((\<exists>k k'. rr_kappa a = Some k \<and> rr_kappa a' = Some k' \<and> k \<le> k') \<or> rr_kappa a = None)"
proof -
  from commit_monotone [OF ref_env_blake3 ref_env_ed25519 ref_env_cbor storage_ok_sample sample_empty(2)
      verify_roster roster_distinct [unfolded roster_edge_def], of 5 "sample_hash 1" K1 "[sample_hash 1]"]
  show ?thesis by blast
qed

text \<open>C3: an accepted inference extends what is derivable, and by the weakest link: when every premise is
  reachable in the storage, the conclusion is reachable after the commit, with at least the least of the
  premises' strengths and the strength the verification earned; a premise-free edge makes its conclusion
  reachable with its own strength.\<close>

theorem committed_edge_reaches:
  assumes "blake3_spec E" and "ed25519_spec E" and "cbor_spec E" and "storage_ok E s" and "graph_typed E s"
    and "verify P prems c rule et p t = Some (Inr r)" and "\<not> rejected r" and "et \<noteq> REFUTATION"
    and "collision_free E (new_blobs E prems c p (built_edge E signer prems c rule et p r) \<union> blobs_of s)"
    and "\<forall>h \<in> set (map (\<lambda>n. hash_bytes E (node_blob E n)) prems). \<exists>a.
      reachable E (sqlite_reader E s) h K0 [] None = Inr a \<and> rr_kappa a = Some (f h)"
  shows "\<exists>s' res a k. verify_and_commit E P now signer prems c rule et p t s = Some (s', Inr res) \<and>
    reachable E (sqlite_reader E s') (hash_bytes E (node_blob E c)) K0 [] None = Inr a \<and>
    rr_kappa a = Some k \<and>
    Min (insert (vr_kappa r) (f ` set (map (\<lambda>n. hash_bytes E (node_blob E n)) prems))) \<le> k"
proof -
  let ?e = "built_edge E signer prems c rule et p r"
  have ok: "proposal_ok E s prems c p ?e" by (rule proposal_okI [OF assms(1-5,9)])
  obtain s' entry where run: "verify_and_commit E P now signer prems c rule et p t s = Some (s', Inr entry)"
    and as: "stored_as E s prems c p ?e s'"
    using store_edge_effect [OF ok, of now r] unfolding verify_and_commit_accepted [OF assms(6,7)] by blast
  obtain des where des: "derivation_edges E (sqlite_reader E s) None = Inr des"
    using storage_derivations [OF assms(4)] by blast
  obtain des' where des': "derivation_edges E (sqlite_reader E s') None = Inr des'"
    using storage_derivations as unfolding stored_as_def by blast
  note after = stored_as_derivations [OF ok as des des']
  have claims: "derives_claims ?e"
    using assms(7,8) by (cases "vr_verdict r") (simp_all add: derives_claims_def rejected_def)
  have prem: "derives des' [] h (f h)" if "h \<in> set (e_premises ?e)" for h
  proof -
    from that assms(10) obtain a where a: "reachable E (sqlite_reader E s) h K0 [] None = Inr a"
      "rr_kappa a = Some (f h)" by auto
    with reachable_kappa [OF des, of h K0 "[]"] have "derives des [] h (f h)" by auto
    then show ?thesis by (rule derives_mono [OF _ after(1)])
  qed
  have edge: "(hash_bytes E (edge_blob E ?e), ?e) \<in> set des'" by (rule after(2) [OF claims])
  have "derives des' [] (e_conclusion ?e) (Min (insert (e_kappa ?e) (f ` set (e_premises ?e))))"
  proof (cases "e_premises ?e = []")
    case True
    from derives.axiom [OF edge True, of "[]"] True show ?thesis by simp
  next
    case False
    show ?thesis by (rule derives.step [OF edge False prem])
  qed
  from derives_best [OF this] obtain k where k: "Min (insert (e_kappa ?e) (f ` set (e_premises ?e))) \<le> k"
    "derives des' [] (e_conclusion ?e) k" "\<forall>k'. derives des' [] (e_conclusion ?e) k' \<longrightarrow> k' \<le> k" by blast
  from reachable_kappa [OF des', of "e_conclusion ?e" K0 "[]"] k(2,3) obtain a where
    "reachable E (sqlite_reader E s') (e_conclusion ?e) K0 [] None = Inr a" "rr_kappa a = Some k" by blast
  with run k(1) show ?thesis by auto
qed

theorem committed_edge_reaches_witness:
  "\<exists>s' res a k. verify_and_commit ref_env sample_provers 5 sample_key [] roster_node [] DEFINITION None
      five_seconds sample_storage = Some (s', Inr res) \<and>
    reachable ref_env (sqlite_reader ref_env s') (hash_bytes ref_env (node_blob ref_env roster_node)) K0 [] None =
      Inr a \<and> rr_kappa a = Some k \<and> K_INF \<le> k"
  using committed_edge_reaches [OF ref_env_blake3 ref_env_ed25519 ref_env_cbor storage_ok_sample sample_empty(2)
      verify_roster _ roster_distinct [unfolded roster_edge_def], of "\<lambda>h. K0" 5]
  by (simp add: roster_result_def)

section \<open>Refutations\<close>

lemma load_edges_total: "\<exists>edges. load_edges E (sqlite_reader E s) hs d = Inr edges"
  by (induction hs arbitrary: d) (auto simp: resolve_edge_at split: option.splits)

lemma load_edges_member:
  assumes "load_edges E (sqlite_reader E s) hs d = Inr edges" and "edge_at E s h = Some e"
    and "h \<in> set hs \<or> map_of d h = Some e"
  shows "map_of edges h = Some e"
  using assms
proof (induction hs arbitrary: d)
  case (Cons g hs)
  show ?case
  proof (cases "edge_at E s g")
    case None
    with Cons show ?thesis by (auto simp: resolve_edge_at)
  next
    case (Some x)
    with Cons.prems(1) have "load_edges E (sqlite_reader E s) hs (dict_set g x d) = Inr edges"
      by (simp add: resolve_edge_at)
    from Cons.IH [OF this Cons.prems(2)] Cons.prems(2,3) Some show ?thesis
      by (cases "h = g") (auto simp: map_of_dict_set)
  qed
qed simp

lemma concluded_total: "\<exists>hns. concluded E (sqlite_reader E s) hes = Inr hns"
proof (induction hes)
  case (Cons he hes)
  obtain h e where he: "he = (h, e)" by (cases he)
  obtain n where n: "resolve_node E (sqlite_reader E s) (e_conclusion e) = Inr n" by (simp add: resolve_sqlite)
  show ?case using Cons by (auto simp: he n split: option.splits)
qed simp

lemma storage_attack_graph:
  assumes "storage_ok E s"
  shows "\<exists>edges atts. attack_graph E (sqlite_reader E s) = Inr (edges, atts) \<and>
    (\<forall>h e. map_of edges h = Some e \<longleftrightarrow>
       h \<in> dom (connectivity (committed (st_conn s))) \<and> edge_at E s h = Some e)"
proof -
  have "graph_ok (view (st_conn s))" using assms by (simp add: storage_ok_view) (simp add: storage_ok_def)
  from all_edges_eq [OF this] obtain hs where hs: "all_edges (st_conn s) = Inr hs"
    "set hs = dom (connectivity (committed (st_conn s)))" by (auto simp: storage_ok_view [OF assms])
  obtain edges where edges: "load_edges E (sqlite_reader E s) hs [] = Inr edges"
    using load_edges_total by blast
  obtain hns where hns: "concluded E (sqlite_reader E s) edges = Inr hns" using concluded_total by blast
  have "map_of edges h = Some e \<longleftrightarrow> h \<in> set hs \<and> edge_at E s h = Some e" for h e
    using load_edges_member [OF edges, of h e] load_edges_resolved [OF edges, of h e]
    by (auto simp: resolve_edge_at)
  then show ?thesis using hs edges hns by (simp add: attack_graph_def)
qed

text \<open>In a typed storage no edge's conclusion is the address of an edge.\<close>

lemma conclusions_are_no_edges:
  assumes "cbor_spec E" and "graph_typed E s" and "h \<in> dom (connectivity (committed (st_conn s)))"
    and "edge_at E s h = Some e"
  shows "edge_at E s (e_conclusion e) = None"
proof -
  from assms(2,3) obtain e2 where e2: "stores_node E s (e_conclusion e2)"
    "get (st_objects s) h = Some (edge_blob E e2)" "edge_hashes_ok e2"
    unfolding graph_typed_def by fastforce
  with assms(4) have "stores_node E s (e_conclusion e)"
    by (simp add: edge_at_def edge_decode_ok [OF assms(1)])
  then show ?thesis by (auto simp: stores_node_def edge_at_def node_as_edge [OF assms(1)])
qed

text \<open>A refutation that was verified and committed refutes nothing: it is among the edges of the attack
  graph, but its conclusion is the address of a node and never of an edge, so whatever it attacks it attacks
  like any other edge does, by concluding the opposite polarity of the same proposition.\<close>

theorem committed_refutation_is_inert:
  assumes "blake3_spec E" and "ed25519_spec E" and "cbor_spec E" and "storage_ok E s" and "graph_typed E s"
    and "verify P prems c rule REFUTATION p t = Some (Inr r)" and "\<not> rejected r"
    and "e = built_edge E signer prems c rule REFUTATION p r" and "eh = hash_bytes E (edge_blob E e)"
    and "collision_free E (new_blobs E prems c p e \<union> blobs_of s)"
  shows "\<exists>s' res edges atts. verify_and_commit E P now signer prems c rule REFUTATION p t s = Some (s', Inr res) \<and>
    attack_graph E (sqlite_reader E s') = Inr (edges, atts) \<and> map_of edges eh = Some e \<and> e_type e = REFUTATION \<and>
    (\<forall>x \<in> {x. (eh, x) \<in> set atts}. \<exists>e' n'. map_of edges x = Some e' \<and>
       resolve_node E (sqlite_reader E s') (e_conclusion e') = Inr (Some n') \<and>
       n_claim c = n_claim n' \<and> n_domain c = n_domain n' \<and> n_polarity c \<noteq> n_polarity n')"
proof -
  have ok: "proposal_ok E s prems c p e"
    unfolding assms(8) by (rule proposal_okI [OF assms(1-5) assms(10) [unfolded assms(8)]])
  obtain s' entry where run: "verify_and_commit E P now signer prems c rule REFUTATION p t s = Some (s', Inr entry)"
    and as: "stored_as E s prems c p e s'"
    using store_edge_effect [OF ok, of now r] unfolding verify_and_commit_accepted [OF assms(6,7)] assms(8) by blast
  note got = stored_as_blobs [OF ok as] and typed = stored_as_typed [OF ok as]
  have ok': "storage_ok E s'" and "eh \<in> dom (connectivity (committed (st_conn s')))"
    using as by (simp_all add: stored_as_def assms(9))
  moreover have "edge_at E s' eh = Some e"
    by (simp add: assms(9) edge_at_def got(1) edge_decode_ok [OF assms(3) proposal_okD(6) [OF ok]])
  moreover obtain edges atts where graph: "attack_graph E (sqlite_reader E s') = Inr (edges, atts)"
    and edges: "\<And>h e. map_of edges h = Some e \<longleftrightarrow>
       h \<in> dom (connectivity (committed (st_conn s'))) \<and> edge_at E s' h = Some e"
    using storage_attack_graph [OF ok'] by blast
  ultimately have mine: "map_of edges eh = Some e" by simp
  have none: "map_of edges (e_conclusion e) = None"
    using conclusions_are_no_edges [OF assms(3) typed] mine edges by (metis not_None_eq)
  have c: "resolve_node E (sqlite_reader E s') (e_conclusion e) = Inr (Some c)"
    using resolve_stored(2) [OF assms(3) proposal_okD(6) [OF ok] got(2), of c] by (simp add: assms(8))
  have "\<exists>e' n'. map_of edges x = Some e' \<and>
       resolve_node E (sqlite_reader E s') (e_conclusion e') = Inr (Some n') \<and>
       n_claim c = n_claim n' \<and> n_domain c = n_domain n' \<and> n_polarity c \<noteq> n_polarity n'"
    if "(eh, x) \<in> set atts" for x
    using attacks_iff [OF graph, of eh x] that mine none c by auto
  with run graph mine show ?thesis by (auto simp: assms(8))
qed

text \<open>A refutation of the roster's claim, with no premises.\<close>

definition refuting_result :: verification_result where
  "refuting_result = \<lparr> vr_verdict = PASS, vr_kappa = K1,
     vr_elenchus = evaluate ascii [] roster_node [] REFUTATION, vr_checker = None,
     vr_edge_type = REFUTATION, vr_rule = [] \<rparr>"

lemma verify_refutation:
  "verify sample_provers [] roster_node [] REFUTATION None five_seconds = Some (Inr refuting_result)"
  "\<not> rejected refuting_result"
proof -
  have "er_verdict (evaluate ascii [] roster_node [] REFUTATION) = PASS"
    by (simp add: evaluate_verdict vetoed_category_def vetoed_leak_def vetoed_novelty_def
        vetoed_circle_def HARD_DOMAINS_def SELF_MODEL_TERMS_def roster_node_def sample_node_def token_defs)
  then show "verify sample_provers [] roster_node [] REFUTATION None five_seconds = Some (Inr refuting_result)"
    by (simp add: verify_def Let_def sample_provers_def sample_platform_def checker_for_def DEFAULT_KAPPA_def
        refuting_result_def)
qed (simp add: refuting_result_def rejected_def)

definition refuting_roster_edge :: edge where
  "refuting_roster_edge = built_edge ref_env sample_key [] roster_node [] REFUTATION None refuting_result"

lemma refutation_distinct:
  "collision_free ref_env (new_blobs ref_env [] roster_node None refuting_roster_edge \<union> blobs_of sample_storage)"
proof -
  have "collision_free ref_env (set [edge_blob ref_env refuting_roster_edge, node_blob ref_env roster_node])"
    by (rule collision_free_listI) code_simp
  then show ?thesis by (simp add: new_blobs_def sample_empty)
qed

theorem committed_refutation_is_inert_witness:
  "\<exists>s' res edges atts. verify_and_commit ref_env sample_provers 5 sample_key [] roster_node [] REFUTATION None
      five_seconds sample_storage = Some (s', Inr res) \<and>
    attack_graph ref_env (sqlite_reader ref_env s') = Inr (edges, atts) \<and>
    map_of edges (hash_bytes ref_env (edge_blob ref_env refuting_roster_edge)) = Some refuting_roster_edge"
  using committed_refutation_is_inert [OF ref_env_blake3 ref_env_ed25519 ref_env_cbor storage_ok_sample
      sample_empty(2) verify_refutation refuting_roster_edge_def refl refutation_distinct, of 5]
  by blast

end
