(* ===== verification/Seed.thy ===== *)
theory Seed
  imports Corpus Attestation End_To_End
begin

text \<open>
  \<^verbatim>\<open>scripts/seed_phaser.py\<close>: the corpus is brought into a storage through \<open>verify_and_commit\<close>, edge by
  edge, skipping what is already there; then the exit-criteria queries, the attestation of every corpus
  edge and the anchor record. The report printing is left out. \<open>now_at\<close> is the clock: the time of the
  commit of the i-th corpus edge.
\<close>

section \<open>Definitions\<close>

record seed_row =
  sr_key :: pystr
  sr_edge_type :: EdgeType
  sr_rule :: pystr
  sr_expected_kappa :: Kappa
  sr_actual_kappa :: "Kappa option"
  sr_status :: pystr

definition node_map :: "(pystr, node) dict" where
  "node_map = dict_of (map (\<lambda>n.
     (cn_key n, \<lparr> n_claim = cn_claim n, n_domain = cn_domain n, n_polarity = cn_polarity n \<rparr>)) CORPUS_NODES)"

definition node_named :: "pystr \<Rightarrow> node res" where
  "node_named k = (case map_of node_map k of None \<Rightarrow> Inl KeyError | Some n \<Rightarrow> Inr n)"

definition edge_nodes :: "corpus_edge \<Rightarrow> (node list \<times> node) res" where
  "edge_nodes e =
     and_then (map_res node_named (ce_premise_keys e)) (\<lambda>premises.
     and_then (node_named (ce_conclusion_key e)) (\<lambda>conclusion. Inr (premises, conclusion)))"

text \<open>\<open>_build_edge\<close>: the edge record with what verification earned, \<open>None\<close> for a rejected one.\<close>

definition corpus_build_edge ::
    "env \<Rightarrow> ('e, 'f, 'o, 'm) provers \<Rightarrow> corpus_edge \<Rightarrow> bytes \<Rightarrow> edge option run" where
  "corpus_build_edge E P e signer_pubkey =
     (case edge_nodes e of
        Inl x \<Rightarrow> Some (Inl (x, []))
      | Inr (premises, conclusion) \<Rightarrow>
          (case verify P premises conclusion (ce_rule e) (ce_edge_type e) (ce_proof_bytes e) five_seconds of
             None \<Rightarrow> None
           | Some (Inl x) \<Rightarrow> Some (Inl x)
           | Some (Inr v) \<Rightarrow>
               if rejected v then Some (Inr None)
               else
                 (case build_edge E signer_pubkey premises conclusion (ce_rule e) (ce_edge_type e)
                         (ce_proof_bytes e) v of
                    Inl x \<Rightarrow> Some (Inl (x, []))
                  | Inr edge \<Rightarrow> Some (Inr (Some edge)))))"

definition row_of :: "corpus_edge \<Rightarrow> Kappa option \<Rightarrow> pystr \<Rightarrow> seed_row" where
  "row_of e actual status =
     \<lparr> sr_key = ce_key e, sr_edge_type = ce_edge_type e, sr_rule = ce_rule e,
       sr_expected_kappa = ce_expected_kappa e, sr_actual_kappa = actual, sr_status = status \<rparr>"

definition commit_row ::
    "env \<Rightarrow> ('e, 'f, 'o, 'm) provers \<Rightarrow> int \<Rightarrow> bytes \<Rightarrow> corpus_edge \<Rightarrow> storage \<Rightarrow>
      (storage \<times> (exn + seed_row)) option" where
  "commit_row E P now signer_pubkey e s =
     (case edge_nodes e of
        Inl x \<Rightarrow> failed s x
      | Inr (premises, conclusion) \<Rightarrow>
          (case verify_and_commit E P now signer_pubkey premises conclusion (ce_rule e) (ce_edge_type e)
                  (ce_proof_bytes e) five_seconds s of
             None \<Rightarrow> None
           | Some (s', Inl x) \<Rightarrow> Some (s', Inl x)
           | Some (s', Inr cr) \<Rightarrow>
               let actual = (if \<not> cm_rejected cr then Some (vr_kappa (cm_verification cr)) else None);
                   status = (if actual = Some (ce_expected_kappa e) then str ''MATCH'' else str ''MISMATCH'')
               in Some (s', Inr (row_of e actual status))))"

text \<open>One turn of the loop of \<open>seed\<close>.\<close>

definition seed_edge_row ::
    "env \<Rightarrow> ('e, 'f, 'o, 'm) provers \<Rightarrow> int \<Rightarrow> bytes \<Rightarrow> corpus_edge \<Rightarrow> storage \<Rightarrow>
      (storage \<times> (exn + seed_row)) option" where
  "seed_edge_row E P now signer_pubkey e s =
     (case corpus_build_edge E P e signer_pubkey of
        None \<Rightarrow> None
      | Some (Inl x) \<Rightarrow> Some (s, Inl x)
      | Some (Inr None) \<Rightarrow> Some (s, Inr (row_of e None (str ''REJECTED'')))
      | Some (Inr (Some edge_record)) \<Rightarrow>
          (case edge_hash E edge_record of
             Inl x \<Rightarrow> failed s x
           | Inr eh \<Rightarrow>
               (case resolve_edge E (sqlite_reader E s) eh of
                  Inl x \<Rightarrow> failed s x
                | Inr (Some _) \<Rightarrow> Some (s, Inr (row_of e (Some (e_kappa edge_record)) (str ''SKIP'')))
                | Inr None \<Rightarrow> commit_row E P now signer_pubkey e s)))"

fun seed_from ::
    "env \<Rightarrow> ('e, 'f, 'o, 'm) provers \<Rightarrow> (nat \<Rightarrow> int) \<Rightarrow> nat \<Rightarrow> bytes \<Rightarrow> corpus_edge list \<Rightarrow> storage \<Rightarrow>
      (storage \<times> (exn + seed_row list)) option" where
  "seed_from E P now_at i signer_pubkey [] s = Some (s, Inr [])"
| "seed_from E P now_at i signer_pubkey (e # es) s =
     (case seed_edge_row E P (now_at i) signer_pubkey e s of
        None \<Rightarrow> None
      | Some (s', Inl x) \<Rightarrow> Some (s', Inl x)
      | Some (s', Inr row) \<Rightarrow>
          (case seed_from E P now_at (Suc i) signer_pubkey es s' of
             None \<Rightarrow> None
           | Some (s'', Inl x) \<Rightarrow> Some (s'', Inl x)
           | Some (s'', Inr rows) \<Rightarrow> Some (s'', Inr (row # rows))))"

definition seed_corpus ::
    "env \<Rightarrow> ('e, 'f, 'o, 'm) provers \<Rightarrow> (nat \<Rightarrow> int) \<Rightarrow> storage \<Rightarrow> bytes \<Rightarrow>
      (storage \<times> (exn + seed_row list)) option" where
  "seed_corpus E P now_at s signer_pubkey = seed_from E P now_at 0 signer_pubkey CORPUS_EDGES s"

text \<open>\<open>verify_seed_attestation\<close>: per corpus edge its key, whether the attestation is in order, and the agent.\<close>

definition attest_row ::
    "env \<Rightarrow> ('e, 'f, 'o, 'm) provers \<Rightarrow> storage \<Rightarrow> roster \<Rightarrow> bytes \<Rightarrow> corpus_edge \<Rightarrow>
      (pystr \<times> bool \<times> pystr option) run" where
  "attest_row E P s R signer_pubkey e =
     (case corpus_build_edge E P e signer_pubkey of
        None \<Rightarrow> None
      | Some (Inl x) \<Rightarrow> Some (Inl x)
      | Some (Inr None) \<Rightarrow> Some (Inr (ce_key e, False, None))
      | Some (Inr (Some edge_record)) \<Rightarrow>
          (case verify_edge_attestation E edge_record (sqlite_reader E s) R of
             Inl x \<Rightarrow> Some (Inl (x, []))
           | Inr res \<Rightarrow> Some (Inr (ce_key e, attestation_ok res, at_signer_agent_id res))))"

fun attest_rows ::
    "env \<Rightarrow> ('e, 'f, 'o, 'm) provers \<Rightarrow> storage \<Rightarrow> roster \<Rightarrow> bytes \<Rightarrow> corpus_edge list \<Rightarrow>
      (pystr \<times> bool \<times> pystr option) list run" where
  "attest_rows E P s R signer_pubkey [] = Some (Inr [])"
| "attest_rows E P s R signer_pubkey (e # es) =
     (case attest_row E P s R signer_pubkey e of
        None \<Rightarrow> None
      | Some (Inl x) \<Rightarrow> Some (Inl x)
      | Some (Inr row) \<Rightarrow> on_return (attest_rows E P s R signer_pubkey es) (\<lambda>rows. row # rows))"

definition verify_seed_attestation ::
    "env \<Rightarrow> ('e, 'f, 'o, 'm) provers \<Rightarrow> storage \<Rightarrow> roster \<Rightarrow> bytes \<Rightarrow>
      (pystr \<times> bool \<times> pystr option) list run" where
  "verify_seed_attestation E P s R signer_pubkey = attest_rows E P s R signer_pubkey CORPUS_EDGES"

text \<open>\<open>_print_exit_criteria\<close>: the three queries whose results it prints.\<close>

definition exit_criteria ::
    "env \<Rightarrow> storage \<Rightarrow> (reachability_result \<times> reachability_result \<times> path_result) res" where
  "exit_criteria E s =
     and_then (and_then (node_named (str ''N5'')) (node_id E)) (\<lambda>n5.
     and_then (and_then (node_named (str ''N7'')) (node_id E)) (\<lambda>n7.
     and_then (reachable E (sqlite_reader E s) n5 K0 [] None) (\<lambda>qa.
     and_then (reachable E (sqlite_reader E s) n7 K1 [] None) (\<lambda>ci.
     and_then (path_discovery E (sqlite_reader E s) n7 K1) (\<lambda>qb.
       Inr (qa, ci, qb))))))"

section \<open>The files of the root directory\<close>

definition KEYPAIR_SIZE :: nat where "KEYPAIR_SIZE = 64"

text \<open>The key pair of a file, or a fresh one from the random bytes \<open>rnd\<close>, and the file afterwards.\<close>

definition load_or_create_keypair ::
    "env \<Rightarrow> bytes \<Rightarrow> bytes option \<Rightarrow> (bytes \<times> bytes) \<times> bytes" where
  "load_or_create_keypair E rnd file =
     (let fresh = (let (priv, pub) = generate_keypair E rnd in ((priv, pub), priv @ pub)) in
      case file of
        None \<Rightarrow> fresh
      | Some data \<Rightarrow> if length data = KEYPAIR_SIZE then ((take 32 data, drop 32 data), data) else fresh)"

record root_files =
  rf_keypair :: "bytes option"
  rf_server_keypair :: "bytes option"
  rf_roster :: "bytes option"
  rf_anchor :: "bytes option"

definition persist_anchor ::
    "env \<Rightarrow> int \<Rightarrow> storage \<Rightarrow> roster \<Rightarrow> root_files \<Rightarrow> root_files \<times> anchor_record res" where
  "persist_anchor E now s R files =
     (case anchor E now (sqlite_reader E s) R of
        Inl e \<Rightarrow> (files, Inl e)
      | Inr anchor_rec \<Rightarrow>
          (case roster_bytes E R of
             Inl e \<Rightarrow> (files, Inl e)
           | Inr rb \<Rightarrow>
               (case anchor_bytes E anchor_rec of
                  Inl e \<Rightarrow> (files\<lparr>rf_roster := Some rb\<rparr>, Inl e)
                | Inr ab \<Rightarrow> (files\<lparr>rf_roster := Some rb, rf_anchor := Some ab\<rparr>, Inr anchor_rec))))"

section \<open>The script\<close>

text \<open>What \<open>main\<close> does after it has parsed its arguments, with the in-process backend: the files and the
  storage afterwards, and the rows, queries and attestations it reports.\<close>

record seed_report =
  rp_rows :: "seed_row list"
  rp_queries :: "reachability_result \<times> reachability_result \<times> path_result"
  rp_attested :: "(pystr \<times> bool \<times> pystr option) list"
  rp_anchor :: anchor_record

definition seed_body ::
    "env \<Rightarrow> ('e, 'f, 'o, 'm) provers \<Rightarrow> int \<Rightarrow> (nat \<Rightarrow> int) \<Rightarrow> int \<Rightarrow> roster \<Rightarrow> bytes \<Rightarrow> root_files \<Rightarrow> storage \<Rightarrow>
      (root_files \<times> storage \<times> (exn + seed_report)) option" where
  "seed_body E P now now_at later R pub files s0 =
     (case commit_roster E now R s0 of
        (s, Inl x) \<Rightarrow> Some (files, s, Inl (x, []))
      | (s, Inr genesis) \<Rightarrow>
          (case seed_corpus E P now_at s pub of
             None \<Rightarrow> None
           | Some (s', Inl x) \<Rightarrow> Some (files, s', Inl x)
           | Some (s', Inr rows) \<Rightarrow>
               (case exit_criteria E s' of
                  Inl x \<Rightarrow> Some (files, s', Inl (x, []))
                | Inr queries \<Rightarrow>
                    (case verify_seed_attestation E P s' R pub of
                       None \<Rightarrow> None
                     | Some (Inl x) \<Rightarrow> Some (files, s', Inl x)
                     | Some (Inr attested) \<Rightarrow>
                         (case persist_anchor E later s' R files of
                            (files', Inl x) \<Rightarrow> Some (files', s', Inl (x, []))
                          | (files', Inr anchor_rec) \<Rightarrow>
                              Some (files', s', Inr \<lparr> rp_rows = rows, rp_queries = queries,
                                rp_attested = attested, rp_anchor = anchor_rec \<rparr>))))))"

definition SERVER_AGENT :: pystr where "SERVER_AGENT = str ''arxdb-server''"

definition seed_main ::
    "env \<Rightarrow> ('e, 'f, 'o, 'm) provers \<Rightarrow> bytes \<Rightarrow> bytes \<Rightarrow> int \<Rightarrow> (nat \<Rightarrow> int) \<Rightarrow> int \<Rightarrow> root_files \<Rightarrow>
      object_store \<Rightarrow> db option \<Rightarrow> (root_files \<times> storage \<times> (exn + seed_report)) option" where
  "seed_main E P rnd server_rnd now now_at later files objects index_db =
     (let ((priv, pub), keypair) = load_or_create_keypair E rnd (rf_keypair files);
          ((server_priv, server_pub), server_keypair) =
            load_or_create_keypair E server_rnd (rf_server_keypair files);
          files = files\<lparr>rf_keypair := Some keypair, rf_server_keypair := Some server_keypair\<rparr>;
          s = open_storage objects index_db priv pub
      in case make_roster [(PStr (str ''Skye''), PBytes pub), (PStr SERVER_AGENT, PBytes server_pub)] of
           Inl x \<Rightarrow> Some (files, s, Inl (x, []))
         | Inr R \<Rightarrow> seed_body E P now now_at later R pub files s)"

end
