(* ===== verification/Corpus_Facts.thy ===== *)
theory Corpus_Facts
  imports Seed
begin

text \<open>
  What the proofs about the seeded graph need of the corpus, each fact by evaluating the two tuples: keys
  and claims are distinct, every name refers to a node, the declared strengths are those of the edge types,
  and no text contains a word of the self-model vocabulary.
\<close>

section \<open>Fields\<close>

lemma corpus_fields [simp]:
  "cn_key (a_node k c) = str k" "cn_claim (a_node k c) = str c" "cn_domain (a_node k c) = str ''math''"
  "cn_polarity (a_node k c) = True"
  "ce_key (an_edge k t ps c r x src) = str k" "ce_edge_type (an_edge k t ps c r x src) = t"
  "ce_premise_keys (an_edge k t ps c r x src) = map str ps" "ce_conclusion_key (an_edge k t ps c r x src) = str c"
  "ce_rule (an_edge k t ps c r x src) = str r" "ce_expected_kappa (an_edge k t ps c r x src) = x"
  "ce_proof_bytes (an_edge k t ps c r x src) = None"
  by (simp_all add: a_node_def an_edge_def)

lemmas corpus_defs = CORPUS_NODES_def corpus_nodes_1_def corpus_nodes_2_def CORPUS_EDGES_def
  corpus_edges_1_def corpus_edges_2_def corpus_edges_3_def corpus_edges_4_def

section \<open>Nodes\<close>

lemma corpus_sizes: "length CORPUS_NODES = 36" "length CORPUS_EDGES = 58"
  by (simp_all add: corpus_defs del: str_Cons)

lemma distinct_node_keys: "distinct (map cn_key CORPUS_NODES)"
  by (simp add: corpus_defs del: str_Cons)

lemma distinct_claims: "distinct (map cn_claim CORPUS_NODES)"
  by (simp add: corpus_defs del: str_Cons)

lemma corpus_domains: "list_all (\<lambda>n. cn_domain n = str ''math'') CORPUS_NODES"
  by (simp add: corpus_defs del: str_Cons)

definition node_of :: "corpus_node \<Rightarrow> node" where
  "node_of n = \<lparr> n_claim = cn_claim n, n_domain = cn_domain n, n_polarity = cn_polarity n \<rparr>"

lemma map_of_node_map: "map_of node_map = map_of (map (\<lambda>n. (cn_key n, node_of n)) CORPUS_NODES)"
  unfolding node_map_def node_of_def [symmetric]
  by (rule map_of_dict_of_distinct) (simp add: comp_def distinct_node_keys)

lemma node_named_iff: "node_named k = Inr n \<longleftrightarrow> (\<exists>c \<in> set CORPUS_NODES. cn_key c = k \<and> node_of c = n)"
proof -
  have "distinct (map fst (map (\<lambda>n. (cn_key n, node_of n)) CORPUS_NODES))"
    by (simp add: comp_def distinct_node_keys)
  from map_of_eq_Some_iff [OF this, of k n] show ?thesis
    by (auto simp: node_named_def map_of_node_map split: option.splits)
qed

lemma node_named_inject:
  assumes "node_named k = Inr n" and "node_named k' = Inr n"
  shows "k = k'"
proof -
  obtain c c' where c: "c \<in> set CORPUS_NODES" "cn_key c = k" "node_of c = n"
    "c' \<in> set CORPUS_NODES" "cn_key c' = k'" "node_of c' = n"
    using assms by (auto simp: node_named_iff)
  then have "cn_claim c = cn_claim c'" by (auto simp: node_of_def)
  with c distinct_claims have "c = c'" unfolding distinct_map by (meson inj_onD)
  with c show ?thesis by simp
qed

lemma node_named_domain: "node_named k = Inr n \<Longrightarrow> n_domain n = str ''math''"
  using corpus_domains by (auto simp: node_named_iff node_of_def list_all_iff)

section \<open>Edges\<close>

definition corpus_keys :: "pystr list" where
  "corpus_keys = map cn_key CORPUS_NODES"

lemma named_key: "k \<in> set corpus_keys \<Longrightarrow> \<exists>n. node_named k = Inr n"
  by (auto simp: corpus_keys_def node_named_iff)

lemma edge_keys:
  "list_all (\<lambda>e. list_all (\<lambda>k. List.member corpus_keys k) (ce_conclusion_key e # ce_premise_keys e)) CORPUS_EDGES"
  by (simp add: corpus_keys_def corpus_defs del: str_Cons)

lemma distinct_rules: "distinct (map (\<lambda>e. (ce_conclusion_key e, ce_rule e)) CORPUS_EDGES)"
  by (simp add: corpus_defs del: str_Cons)

text \<open>What the type of an edge says of its strength, and which types have no premises.\<close>

definition declared :: "EdgeType \<Rightarrow> Kappa option" where
  "declared t = map_of [(DEFINITION, K1), (CITATION, K1), (REFUTATION, K1), (ANALOGY, K0), (SPECTRAL, K2)] t"

lemma edge_declarations:
  "list_all (\<lambda>e. declared (ce_edge_type e) = Some (ce_expected_kappa e) \<and> ce_proof_bytes e = None \<and>
     (ce_edge_type e \<in> {DEFINITION, SPECTRAL} \<longrightarrow> ce_premise_keys e = [])) CORPUS_EDGES"
  by (simp add: corpus_defs declared_def del: str_Cons)

section \<open>No self-model vocabulary\<close>

text \<open>Three letters each such word contains; no text of the corpus that is checked contains them.\<close>

fun telltale :: "pystr \<Rightarrow> bool" where
  "telltale (a # b # c # s) =
     ((b = 105 \<and> (a = 99 \<and> c = 111 \<or> a = 108 \<and> c = 97)) \<or>
      (b = 97 \<and> a = 119 \<and> c = 114) \<or> (b = 101 \<and> a = 105 \<and> c = 110) \<or> telltale (b # c # s))"
| "telltale s = False"

lemma telltale_append: "telltale s \<Longrightarrow> telltale (u @ s @ v)"
proof (induction u)
  case Nil
  then show ?case by (induction s rule: telltale.induct) auto
next
  case (Cons x u)
  from Cons have "telltale (u @ s @ v)" by simp
  then show ?case by (cases "u @ s @ v" rule: telltale.cases) auto
qed

lemma telltale_terms: "w \<in> set SELF_MODEL_TERMS \<Longrightarrow> telltale w"
  by (auto simp: SELF_MODEL_TERMS_def)

lemma telltale_tokens:
  assumes "w \<in> set SELF_MODEL_TERMS" and "w \<in> set (tokens s)"
  shows "telltale (lower s)"
proof -
  have "w \<in> set (runs token_char (lower s))" using assms(2) by (simp add: tokens_def)
  then obtain u v where "lower s = u @ w @ v" unfolding in_runs maximal_run_def by blast
  with telltale_append [OF telltale_terms [OF assms(1)]] show ?thesis by simp
qed

lemma telltale_space: "telltale (x @ 32 # y) \<longleftrightarrow> telltale x \<or> telltale y"
proof (induction x rule: telltale.induct, goal_cases)
  case 1
  then show ?case by auto
qed (cases y rule: telltale.cases; auto)+

text \<open>The same test on character literals.\<close>

definition letter :: "char \<Rightarrow> char \<Rightarrow> char \<Rightarrow> bool" where
  "letter l u c \<longleftrightarrow> c = l \<or> c = u"

fun hints :: "string \<Rightarrow> bool" where
  "hints (a # b # c # s) =
     (if letter CHR ''i'' CHR ''I'' b
      then letter CHR ''c'' CHR ''C'' a \<and> letter CHR ''o'' CHR ''O'' c \<or>
           letter CHR ''l'' CHR ''L'' a \<and> letter CHR ''a'' CHR ''A'' c \<or> hints (b # c # s)
      else if letter CHR ''a'' CHR ''A'' b
      then letter CHR ''w'' CHR ''W'' a \<and> letter CHR ''r'' CHR ''R'' c \<or> hints (b # c # s)
      else if letter CHR ''e'' CHR ''E'' b
      then letter CHR ''i'' CHR ''I'' a \<and> letter CHR ''n'' CHR ''N'' c \<or> hints (b # c # s)
      else hints (b # c # s))"
| "hints s = False"

definition low :: "char \<Rightarrow> nat" where
  "low c = (let n = of_char c in if 65 \<le> n \<and> n \<le> 90 then n + 32 else n)"

lemma lower_str: "lower (str t) = map low t"
proof (induction t)
  case (Cons c t)
  have small: "(of_char c :: nat) < 256" by simp
  have "(of_char c :: nat) \<noteq> 304" "(of_char c :: nat) \<noteq> 8490"
    by (rule less_imp_neq, rule less_trans [OF small], simp)+
  then have "lower_char (of_char c) = [low c]" by (auto simp: lower_char_def low_def Let_def)
  with Cons show ?case by (simp add: lower_def)
qed (simp add: lower_def)

lemma letter_code: "letter l u c \<longleftrightarrow> (of_char c :: nat) = of_char l \<or> (of_char c :: nat) = of_char u"
  by (simp add: letter_def)

lemma low_letter:
  "low c = 97 \<longleftrightarrow> letter CHR ''a'' CHR ''A'' c" "low c = 99 \<longleftrightarrow> letter CHR ''c'' CHR ''C'' c"
  "low c = 101 \<longleftrightarrow> letter CHR ''e'' CHR ''E'' c" "low c = 105 \<longleftrightarrow> letter CHR ''i'' CHR ''I'' c"
  "low c = 108 \<longleftrightarrow> letter CHR ''l'' CHR ''L'' c" "low c = 110 \<longleftrightarrow> letter CHR ''n'' CHR ''N'' c"
  "low c = 111 \<longleftrightarrow> letter CHR ''o'' CHR ''O'' c" "low c = 114 \<longleftrightarrow> letter CHR ''r'' CHR ''R'' c"
  "low c = 119 \<longleftrightarrow> letter CHR ''w'' CHR ''W'' c"
proof -
  have *: "low c = n \<longleftrightarrow> (of_char c :: nat) = n \<or> (of_char c :: nat) = n - 32" if "97 \<le> n" "n \<le> 122" for n
    using that by (auto simp: low_def Let_def)
  show "low c = 97 \<longleftrightarrow> letter CHR ''a'' CHR ''A'' c" "low c = 99 \<longleftrightarrow> letter CHR ''c'' CHR ''C'' c"
    "low c = 101 \<longleftrightarrow> letter CHR ''e'' CHR ''E'' c" "low c = 105 \<longleftrightarrow> letter CHR ''i'' CHR ''I'' c"
    "low c = 108 \<longleftrightarrow> letter CHR ''l'' CHR ''L'' c" "low c = 110 \<longleftrightarrow> letter CHR ''n'' CHR ''N'' c"
    "low c = 111 \<longleftrightarrow> letter CHR ''o'' CHR ''O'' c" "low c = 114 \<longleftrightarrow> letter CHR ''r'' CHR ''R'' c"
    "low c = 119 \<longleftrightarrow> letter CHR ''w'' CHR ''W'' c"
    unfolding letter_code by (subst *; simp del: of_char_eq_iff)+
qed

lemma letters_differ:
  "letter CHR ''i'' CHR ''I'' c \<Longrightarrow> \<not> letter CHR ''a'' CHR ''A'' c \<and> \<not> letter CHR ''e'' CHR ''E'' c"
  "letter CHR ''a'' CHR ''A'' c \<Longrightarrow> \<not> letter CHR ''e'' CHR ''E'' c"
  by (auto simp: letter_def)

lemma telltale_str: "telltale (lower (str t)) \<longleftrightarrow> hints t"
  unfolding lower_str
  by (induction t rule: hints.induct) (auto simp: low_letter dest: letters_differ)

lemma plain_claims: "list_all (\<lambda>n. \<not> telltale (lower (cn_claim n))) CORPUS_NODES"
  by (simp add: corpus_defs telltale_str letter_def del: str_Cons)

lemma plain_rules: "list_all (\<lambda>e. \<not> telltale (lower (ce_rule e))) CORPUS_EDGES"
  by (simp add: corpus_defs telltale_str letter_def del: str_Cons)

lemma plain_text:
  assumes "e \<in> set CORPUS_EDGES" and "node_named k = Inr n"
  shows "\<not> telltale (lower (n_claim n @ [32] @ ce_rule e))"
proof -
  have "lower (n_claim n @ [32] @ ce_rule e) = lower (n_claim n) @ 32 # lower (ce_rule e)"
    by (simp add: lower_def lower_char_def)
  moreover have "\<not> telltale (lower (n_claim n))"
    using assms(2) plain_claims by (auto simp: node_named_iff node_of_def list_all_iff)
  moreover have "\<not> telltale (lower (ce_rule e))" using assms(1) plain_rules by (simp add: list_all_iff)
  ultimately show ?thesis by (simp add: telltale_space)
qed

end
