(* ===== verification/Corpus_Records.thy ===== *)
theory Corpus_Records
  imports Corpus_Facts
begin

text \<open>
  What the pipeline makes of the corpus: every edge is accepted with the strength it declares, and the
  records of the nodes and edges are distinct. The numeric library's answers on the three spectral claims
  are a hypothesis, \<open>spectral_holds\<close>.
\<close>

section \<open>Every corpus edge is accepted\<close>

text \<open>The computations behind the three spectral edges succeed.\<close>

definition spectral_holds :: "('e, 'f, 'o, 'm) provers \<Rightarrow> bool" where
  "spectral_holds P \<longleftrightarrow>
     (\<forall>e \<in> set CORPUS_EDGES. \<forall>n. ce_edge_type e = SPECTRAL \<longrightarrow> node_named (ce_conclusion_key e) = Inr n \<longrightarrow>
        (\<exists>details. spectral_check (pv_platform P) (pv_spectral P) [] n (ce_rule e) None five_seconds =
           Some (Inr (success K2 details))))"

lemma definitions_name_N1:
  "list_all (\<lambda>e. ce_edge_type e = DEFINITION \<longrightarrow> ce_conclusion_key e = str ''N1'') CORPUS_EDGES"
  by (simp add: corpus_defs del: str_Cons)

lemma N1_unlisted:
  assumes "node_named (str ''N1'') = Inr n"
  shows "check_roster n = K1"
proof -
  have n: "n_claim n = str ''the scaling flow phi_t on the adele class space has closed orbits equal to the primes, with'' @
      str '' length log p''"
    using assms by (simp add: node_named_def map_of_node_map CORPUS_NODES_def corpus_nodes_1_def node_of_def
        del: str_Cons) (auto simp: str_def)
  have "take 2 (words (n_claim n)) = [str ''the'', str ''scaling'']"
    unfolding n words_def by (simp add: runs_Cons is_space_def)
  moreover have "list_all (\<lambda>s. take 2 (words s) \<noteq> [str ''the'', str ''scaling'']) ROSTER"
    unfolding ROSTER_def words_def by (simp add: runs_Cons is_space_def)
  ultimately show ?thesis
    by (auto simp: check_roster_def roster_match list_all_iff)
qed

lemma edge_nodes_iff:
  "edge_nodes e = Inr (prems, c) \<longleftrightarrow>
     list_all2 (\<lambda>k n. node_named k = Inr n) (ce_premise_keys e) prems \<and> node_named (ce_conclusion_key e) = Inr c"
  by (auto simp: edge_nodes_def and_then_eq_Inr map_res_eq_Inr_iff)

lemma edge_nodes_total:
  assumes "e \<in> set CORPUS_EDGES"
  obtains prems c where "edge_nodes e = Inr (prems, c)"
proof -
  have keys: "ce_conclusion_key e \<in> set corpus_keys" "set (ce_premise_keys e) \<subseteq> set corpus_keys"
    using edge_keys assms by (auto simp: list_all_iff)
  obtain c where c: "node_named (ce_conclusion_key e) = Inr c" using named_key [OF keys(1)] by blast
  have "\<exists>f. \<forall>k \<in> set (ce_premise_keys e). node_named k = Inr (f k)"
    using named_key keys(2) by (intro bchoice) blast
  then obtain f where "\<forall>k \<in> set (ce_premise_keys e). node_named k = Inr (f k)" by blast
  then have "list_all2 (\<lambda>k n. node_named k = Inr n) (ce_premise_keys e) (map f (ce_premise_keys e))"
    by (simp add: list_all2_conv_all_nth)
  with c that show ?thesis by (simp add: edge_nodes_iff)
qed

lemma declared_types: "declared t = Some k \<Longrightarrow> t \<in> {DEFINITION, CITATION, REFUTATION, ANALOGY, SPECTRAL}"
  by (cases t) (simp_all add: declared_def)

lemma declared_edge:
  assumes "e \<in> set CORPUS_EDGES"
  shows "declared (ce_edge_type e) = Some (ce_expected_kappa e)" and "ce_proof_bytes e = None"
    and "ce_edge_type e = SPECTRAL \<Longrightarrow> ce_premise_keys e = []"
    and "ce_edge_type e = DEFINITION \<Longrightarrow> ce_conclusion_key e = str ''N1''"
  using assms edge_declarations definitions_name_N1 unfolding list_all_iff by blast+

lemma corpus_verdict:
  assumes "e \<in> set CORPUS_EDGES" and "edge_nodes e = Inr (prems, c)"
  shows "er_verdict (evaluate U prems c (ce_rule e) (ce_edge_type e)) = PASS"
proof -
  note types = declared_types [OF declared_edge(1) [OF assms(1)]]
  have spectral: "ce_edge_type e = SPECTRAL \<longrightarrow> ce_premise_keys e = []"
    using declared_edge(3) [OF assms(1)] by blast
  have nodes: "list_all2 (\<lambda>k n. node_named k = Inr n) (ce_premise_keys e) prems"
    "node_named (ce_conclusion_key e) = Inr c" using assms(2) by (simp_all add: edge_nodes_iff)
  have "\<exists>k. node_named k = Inr p" if "p \<in> set prems" for p
    using nodes(1) that by (auto simp: list_all2_conv_all_nth in_set_conv_nth)
  then have "n_domain p = n_domain c" if "p \<in> set prems" for p
    using that node_named_domain node_named_domain [OF nodes(2)] by metis
  then have "\<not> vetoed_category prems c (ce_edge_type e)"
    by (cases prems) (auto simp: vetoed_category_def)
  moreover have "\<not> vetoed_leak c (ce_rule e) (ce_edge_type e)"
    using plain_text [OF assms(1) nodes(2)] telltale_tokens unfolding vetoed_leak_def by blast
  moreover have "\<not> vetoed_novelty prems c (ce_edge_type e)"
    using types by (auto simp: vetoed_novelty_def)
  moreover have "\<not> vetoed_circle U prems c (ce_edge_type e)"
    using types spectral nodes(1) by (auto simp: vetoed_circle_def)
  moreover have "ce_edge_type e \<notin> {DEDUCTION, NUMERICAL}" using types by auto
  ultimately show ?thesis by (simp add: evaluate_verdict)
qed

lemma corpus_verify:
  assumes "e \<in> set CORPUS_EDGES" and "edge_nodes e = Inr (prems, c)" and "spectral_holds P"
  shows "\<exists>r. verify P prems c (ce_rule e) (ce_edge_type e) (ce_proof_bytes e) five_seconds = Some (Inr r) \<and>
    \<not> rejected r \<and> vr_kappa r = ce_expected_kappa e \<and> vr_verdict r = PASS"
proof -
  have decl: "declared (ce_edge_type e) = Some (ce_expected_kappa e)" "ce_proof_bytes e = None"
    "ce_edge_type e = SPECTRAL \<longrightarrow> ce_premise_keys e = []"
    "ce_edge_type e = DEFINITION \<longrightarrow> ce_conclusion_key e = str ''N1''"
    using declared_edge [OF assms(1)] by blast+
  have c: "node_named (ce_conclusion_key e) = Inr c"
    and prems: "list_all2 (\<lambda>k n. node_named k = Inr n) (ce_premise_keys e) prems"
    using assms(2) by (simp_all add: edge_nodes_iff)
  note pass = corpus_verdict [OF assms(1,2), of "pl_unicode (pv_platform P)"]
  show ?thesis
  proof (cases "ce_edge_type e = SPECTRAL")
    case True
    with prems decl(3) have "prems = []" by simp
    moreover obtain details where "spectral_check (pv_platform P) (pv_spectral P) [] c (ce_rule e) None
        five_seconds = Some (Inr (success K2 details))"
      using assms(1,3) True c unfolding spectral_holds_def by blast
    ultimately show ?thesis
      using pass True decl(1,2)
      by (simp add: verify_def Let_def checker_for_def run_checker_def on_return_def conclude_def
          rejected_def success_def declared_def)
  next
    case False
    then show ?thesis
      using pass decl c N1_unlisted
      by (cases "ce_edge_type e")
        (simp_all add: verify_def Let_def checker_for_def run_checker_def on_return_def conclude_def
          rejected_def success_def declared_def roster_check_def DEFAULT_KAPPA_def)
  qed
qed

section \<open>The records of the corpus\<close>

definition blank_node :: node where
  "blank_node = \<lparr> n_claim = [], n_domain = [], n_polarity = False \<rparr>"

definition named :: "pystr \<Rightarrow> node" where
  "named k = (case node_named k of Inl _ \<Rightarrow> blank_node | Inr n \<Rightarrow> n)"

abbreviation key_blob :: "env \<Rightarrow> pystr \<Rightarrow> bytes" where
  "key_blob E k \<equiv> node_blob E (named k)"

definition key_hash :: "env \<Rightarrow> pystr \<Rightarrow> hash" where
  "key_hash E k = hash_bytes E (key_blob E k)"

definition record_of :: "env \<Rightarrow> bytes \<Rightarrow> corpus_edge \<Rightarrow> edge" where
  "record_of E signer e =
     \<lparr> e_type = ce_edge_type e, e_premises = map (key_hash E) (ce_premise_keys e),
       e_conclusion = key_hash E (ce_conclusion_key e), e_rule = ce_rule e, e_proof_hash = None,
       e_verdict = PASS, e_kappa = ce_expected_kappa e, e_signer_pubkey = signer \<rparr>"

abbreviation record_blob :: "env \<Rightarrow> bytes \<Rightarrow> corpus_edge \<Rightarrow> bytes" where
  "record_blob E signer e \<equiv> edge_blob E (record_of E signer e)"

definition edge_part :: "env \<Rightarrow> bytes \<Rightarrow> corpus_edge \<Rightarrow> bytes set" where
  "edge_part E signer e =
     insert (record_blob E signer e) (key_blob E ` set (ce_conclusion_key e # ce_premise_keys e))"

definition corpus_blobs :: "env \<Rightarrow> bytes \<Rightarrow> bytes set" where
  "corpus_blobs E signer = key_blob E ` set corpus_keys \<union> record_blob E signer ` set CORPUS_EDGES"

lemma named_node: "node_named k = Inr n \<Longrightarrow> named k = n"
  by (simp add: named_def)

lemma named_nodes: "list_all2 (\<lambda>k n. node_named k = Inr n) ks ns \<Longrightarrow> ns = map named ks"
  by (induction rule: list_all2_induct) (simp_all add: named_node)

lemma edge_nodes_named:
  assumes "e \<in> set CORPUS_EDGES"
  shows "edge_nodes e = Inr (map named (ce_premise_keys e), named (ce_conclusion_key e))"
proof -
  obtain prems c where nodes: "edge_nodes e = Inr (prems, c)" by (rule edge_nodes_total [OF assms])
  then have "prems = map named (ce_premise_keys e)" "c = named (ce_conclusion_key e)"
    by (auto simp: edge_nodes_iff dest: named_nodes named_node)
  with nodes show ?thesis by simp
qed

lemma edge_keys_known:
  assumes "e \<in> set CORPUS_EDGES"
  shows "set (ce_conclusion_key e # ce_premise_keys e) \<subseteq> set corpus_keys"
  using edge_keys assms by (auto simp: list_all_iff)

lemma edge_part_blobs:
  assumes "e \<in> set CORPUS_EDGES"
  shows "edge_part E signer e \<subseteq> corpus_blobs E signer"
  using edge_keys_known [OF assms] assms by (auto simp: edge_part_def corpus_blobs_def)

lemma corpus_record:
  assumes "e \<in> set CORPUS_EDGES" and "spectral_holds P"
  obtains r where "verify P (map named (ce_premise_keys e)) (named (ce_conclusion_key e)) (ce_rule e)
      (ce_edge_type e) (ce_proof_bytes e) five_seconds = Some (Inr r)"
    and "\<not> rejected r" and "vr_kappa r = ce_expected_kappa e"
    and "built_edge E signer (map named (ce_premise_keys e)) (named (ce_conclusion_key e)) (ce_rule e)
      (ce_edge_type e) (ce_proof_bytes e) r = record_of E signer e"
  using corpus_verify [OF assms(1) edge_nodes_named [OF assms(1)] assms(2)] declared_edge(2) [OF assms(1)]
  by (auto simp: built_edge_def record_of_def key_hash_def)

lemma corpus_build_edge_record:
  assumes "e \<in> set CORPUS_EDGES" and "spectral_holds P"
  shows "corpus_build_edge E P e signer = Some (Inr (Some (record_of E signer e)))"
proof -
  obtain r where r: "verify P (map named (ce_premise_keys e)) (named (ce_conclusion_key e)) (ce_rule e)
      (ce_edge_type e) (ce_proof_bytes e) five_seconds = Some (Inr r)" "\<not> rejected r"
    "built_edge E signer (map named (ce_premise_keys e)) (named (ce_conclusion_key e)) (ce_rule e)
      (ce_edge_type e) (ce_proof_bytes e) r = record_of E signer e"
    by (rule corpus_record [OF assms])
  then show ?thesis
    by (simp add: corpus_build_edge_def edge_nodes_named [OF assms(1)] build_edge_eq)
qed

lemma record_hashes_ok: "blake3_spec E \<Longrightarrow> edge_hashes_ok (record_of E signer e)"
  by (simp add: edge_hashes_ok_def record_of_def key_hash_def hash34_def length_hash_bytes list_all_iff)

text \<open>Different keys have different addresses, different corpus edges different records.\<close>

lemma named_inject:
  assumes "k \<in> set corpus_keys" and "k' \<in> set corpus_keys" and "named k = named k'"
  shows "k = k'"
  using named_key [OF assms(1)] named_key [OF assms(2)] assms(3) node_named_inject
  by (metis named_node)

lemma node_blob_inject: "cbor_spec E \<Longrightarrow> node_blob E n = node_blob E n' \<Longrightarrow> n = n'"
  using node_decode_encode by (metis sum.inject(2))

lemma key_hash_inject:
  assumes "cbor_spec E" and "collision_free E (corpus_blobs E signer)"
    and "k \<in> set corpus_keys" and "k' \<in> set corpus_keys" and "key_hash E k = key_hash E k'"
  shows "k = k'"
proof -
  have "key_blob E k = key_blob E k'"
    by (rule collision_freeD [OF assms(2) assms(5) [unfolded key_hash_def]])
      (simp_all add: corpus_blobs_def assms(3,4))
  from node_blob_inject [OF assms(1) this] named_inject assms(3,4) show ?thesis by blast
qed

lemma record_inject:
  assumes "cbor_spec E" and "collision_free E (corpus_blobs E signer)"
    and "e \<in> set CORPUS_EDGES" and "e' \<in> set CORPUS_EDGES" and "record_of E signer e = record_of E signer e'"
  shows "e = e'"
proof -
  have "key_hash E (ce_conclusion_key e) = key_hash E (ce_conclusion_key e')" and rule: "ce_rule e = ce_rule e'"
    using assms(5) by (simp_all add: record_of_def)
  then have "ce_conclusion_key e = ce_conclusion_key e'"
    using key_hash_inject [OF assms(1,2)] edge_keys_known assms(3,4) by auto
  with rule have "(ce_conclusion_key e, ce_rule e) = (ce_conclusion_key e', ce_rule e')" by simp
  with distinct_rules assms(3,4) show ?thesis unfolding distinct_map by (meson inj_onD)
qed

lemma record_blob_inject:
  assumes "blake3_spec E" and "cbor_spec E" and "collision_free E (corpus_blobs E signer)"
    and "e \<in> set CORPUS_EDGES" and "e' \<in> set CORPUS_EDGES" and "record_blob E signer e = record_blob E signer e'"
  shows "e = e'"
  using edge_blob_inj [OF assms(2) record_hashes_ok [OF assms(1)] record_hashes_ok [OF assms(1)] assms(6)]
    record_inject [OF assms(2-5)] by simp

lemma record_no_node:
  assumes "cbor_spec E"
  shows "edge_blob E e \<noteq> node_blob E n"
  using edge_as_node [OF assms, of e] node_decode_encode [OF assms, of n] by auto

lemma record_in_part:
  assumes "blake3_spec E" and "cbor_spec E" and "collision_free E (corpus_blobs E signer)"
    and "e \<in> set CORPUS_EDGES" and "e' \<in> set CORPUS_EDGES"
  shows "record_blob E signer e \<in> edge_part E signer e' \<longleftrightarrow> e = e'"
  using record_blob_inject [OF assms] record_no_node [OF assms(2)] by (auto simp: edge_part_def)

section \<open>The environment of a run\<close>

text \<open>What the libraries and the digest are assumed to do on the corpus.\<close>

definition corpus_world :: "env \<Rightarrow> ('e, 'f, 'o, 'm) provers \<Rightarrow> bytes \<Rightarrow> bool" where
  "corpus_world E P signer \<longleftrightarrow>
     blake3_spec E \<and> ed25519_spec E \<and> cbor_spec E \<and> spectral_holds P \<and> collision_free E (corpus_blobs E signer)"

lemma corpus_worldD:
  assumes "corpus_world E P signer"
  shows "blake3_spec E" and "ed25519_spec E" and "cbor_spec E" and "spectral_holds P"
    and "collision_free E (corpus_blobs E signer)"
  using assms by (simp_all add: corpus_world_def)

end
