(* ===== verification/Seed_World.thy ===== *)
theory Seed_World
  imports Corpus_Records
begin

text \<open>
  A concrete environment in which the hypotheses on the corpus hold, for the witnesses: the digest numbers
  the blobs of the corpus, and the numeric library answers with the values the corpus quotes.
\<close>

section \<open>The digest\<close>

definition index_of :: "bytes list \<Rightarrow> bytes \<Rightarrow> nat" where
  "index_of xs b = length (takeWhile (\<lambda>x. x \<noteq> b) xs)"

lemma index_of: "b \<in> set xs \<Longrightarrow> index_of xs b < length xs \<and> xs ! index_of xs b = b"
  by (induction xs) (auto simp: index_of_def)

definition numbered :: "byte \<Rightarrow> bytes list \<Rightarrow> bytes \<Rightarrow> bytes" where
  "numbered tag xs b = tag # of_nat (index_of xs b) # replicate 30 0"

lemma numbered_inject:
  assumes "numbered tag xs b = numbered tag' ys c" and "length xs \<le> 256" and "length ys \<le> 256"
    and "b \<in> set xs" and "c \<in> set ys"
  shows "tag = tag' \<and> index_of xs b = index_of ys c"
proof -
  have "unat (of_nat (index_of xs b) :: byte) = unat (of_nat (index_of ys c) :: byte)" and "tag = tag'"
    using assms(1) by (simp_all add: numbered_def)
  then show ?thesis using index_of [OF assms(4)] index_of [OF assms(5)] assms(2,3) by (simp add: unat_byte)
qed

definition world_nodes :: "bytes list" where
  "world_nodes = map (\<lambda>k. key_blob ref_env k) corpus_keys"

definition nodes_env :: env where
  "nodes_env = ref_env\<lparr>blake3 := numbered 1 world_nodes\<rparr>"

definition world_edges :: "bytes list" where
  "world_edges = map (record_blob nodes_env sample_key) CORPUS_EDGES"

definition seed_env :: env where
  "seed_env = ref_env\<lparr>blake3 := \<lambda>b.
     if b \<in> set world_nodes then numbered 1 world_nodes b else numbered 2 world_edges b\<rparr>"

lemma seed_env_codec [simp]:
  "cbor_dumps seed_env = enc" "cbor_loads seed_env = ref_loads"
  "ed_public seed_env = ed_public ref_env" "ed_sign seed_env = ed_sign ref_env"
  "ed_verify seed_env = ed_verify ref_env" "cbor_dumps nodes_env = enc"
  by (simp_all add: seed_env_def nodes_env_def)

lemma seed_env_ok: "blake3_spec seed_env" "ed25519_spec seed_env" "cbor_spec seed_env"
  using ref_env_ok by (simp_all add: blake3_spec_def ed25519_spec_def cbor_spec_def)
    (simp add: seed_env_def numbered_def)

lemma world_key_hash: "k \<in> set corpus_keys \<Longrightarrow> key_hash seed_env k = key_hash nodes_env k"
  by (simp add: key_hash_def hash_bytes_def seed_env_def nodes_env_def world_nodes_def)

lemma world_record:
  assumes "e \<in> set CORPUS_EDGES"
  shows "record_of seed_env signer e = record_of nodes_env signer e"
  using edge_keys_known [OF assms] by (simp add: record_of_def world_key_hash subset_iff)

lemma world_blobs: "corpus_blobs seed_env sample_key = set world_nodes \<union> set world_edges"
  by (simp add: corpus_blobs_def world_nodes_def world_edges_def world_record cong: image_cong)

lemma world_lengths: "length world_nodes \<le> 256" "length world_edges \<le> 256"
  by (simp_all add: world_nodes_def world_edges_def corpus_keys_def corpus_sizes)

lemma world_collision_free: "collision_free seed_env (corpus_blobs seed_env sample_key)"
  unfolding collision_free_def world_blobs
proof (rule inj_onI)
  fix b c
  assume mem: "b \<in> set world_nodes \<union> set world_edges" "c \<in> set world_nodes \<union> set world_edges"
    and eq: "hash_bytes seed_env b = hash_bytes seed_env c"
  then have dig: "blake3 seed_env b = blake3 seed_env c" by (simp add: hash_bytes_def)
  have one: "x = y" if "numbered t xs x = numbered t xs y" "length xs \<le> 256" "x \<in> set xs" "y \<in> set xs"
    for t xs x y
    using numbered_inject [OF that(1,2,2,3,4)] index_of that(3,4) by metis
  show "b = c"
  proof (cases "b \<in> set world_nodes \<longleftrightarrow> c \<in> set world_nodes")
    case True
    show ?thesis
    proof (cases "b \<in> set world_nodes")
      case in_nodes: True
      with True dig have "numbered 1 world_nodes b = numbered 1 world_nodes c" by (simp add: seed_env_def)
      from one [OF this world_lengths(1)] in_nodes True show ?thesis by blast
    next
      case in_edges: False
      with True dig have "numbered 2 world_edges b = numbered 2 world_edges c" by (simp add: seed_env_def)
      from one [OF this world_lengths(2)] in_edges True mem show ?thesis by blast
    qed
  next
    case False
    then show ?thesis using dig mem by (auto simp: seed_env_def numbered_def)
  qed
qed

section \<open>The numeric library\<close>

text \<open>A matrix is the text it is evaluated from; the values are 0.0 and 40.0.\<close>

definition float_forty :: float64 where "float_forty = 0x4044000000000000"

definition quoted_spectral :: "(pystr, pystr) spectral" where
  "quoted_spectral =
     \<lparr> sp_eval = (\<lambda>s. (Ends 1, Inr s)), sp_asarray = (\<lambda>s. (Ends 1, Inr s)), sp_shape = (\<lambda>s. [60, 60]),
       sp_hermitian_err = (\<lambda>M. (Ends 1, Inr 0)), sp_symmetry_err = (\<lambda>M. (Ends 1, Inr 0)),
       sp_max_im_eig = (\<lambda>M. (Ends 1, Inr (if M = str ''bessel_kernel(-0.5, 60)'' then 0 else float_forty))),
       sp_singular_values = (\<lambda>M. (Ends 1, Inr [float_forty, 1])), sp_ratio = (\<lambda>x y. x) \<rparr>"

definition quoted_provers :: "(pystr, bool \<times> bool, pystr, pystr) provers" where
  "quoted_provers =
     \<lparr> pv_platform = sample_platform, pv_cas = sample_cas, pv_z3 = sample_z3, pv_lean = sample_lean,
       pv_spectral = quoted_spectral \<rparr>"

lemma spectral_conclusions:
  "list_all (\<lambda>e. ce_edge_type e = SPECTRAL \<longrightarrow>
     ce_conclusion_key e = str ''N32'' \<or> ce_conclusion_key e = str ''N33'' \<or> ce_conclusion_key e = str ''N34'') CORPUS_EDGES"
  by (simp add: corpus_defs del: str_Cons)

lemma spectral_claims:
  "node_named (str ''N32'') = Inr n \<Longrightarrow> n_claim n = str ''self_adjoint bessel_kernel(-0.5, 60)''"
  "node_named (str ''N33'') = Inr n \<Longrightarrow> n_claim n = str ''complex_spectrum bessel_kernel(-0.5+2j, 40)''"
  "node_named (str ''N34'') = Inr n \<Longrightarrow>
     n_claim n = str ''low_rank bessel_kernel(-0.5+2j, 40) - bessel_kernel(-0.5+2j, 40).conj().T''"
  by (simp_all add: node_named_def map_of_node_map CORPUS_NODES_def corpus_nodes_1_def corpus_nodes_2_def
      node_of_def del: str_Cons) auto

lemmas quoted_defs = sample_platform_def quoted_spectral_def five_seconds_def float_forty_def float_ten_def
  float_less_def float_nan_def float_key_def float_mag_def DEFAULT_TOL_def

lemmas spectral_run_defs = spectral_check_def spectral_run_def spectral_verdict_def check_property_def
  as_matrix_def strip_def split_once_def is_space_def Let_def one_enat_def timed_defs quoted_defs

lemma quoted_check_1:
  assumes "n_claim n = str ''self_adjoint bessel_kernel(-0.5, 60)''"
  shows "\<exists>details. spectral_check sample_platform quoted_spectral [] n rule None five_seconds =
    Some (Inr (success K2 details))"
  using assms by (simp add: spectral_run_defs) blast

lemma quoted_check_2:
  assumes "n_claim n = str ''complex_spectrum bessel_kernel(-0.5+2j, 40)''"
  shows "\<exists>details. spectral_check sample_platform quoted_spectral [] n rule None five_seconds =
    Some (Inr (success K2 details))"
  using assms by (simp add: spectral_run_defs) blast

lemma quoted_check_3:
  assumes "n_claim n = str ''low_rank bessel_kernel(-0.5+2j, 40) - bessel_kernel(-0.5+2j, 40).conj().T''"
  shows "\<exists>details. spectral_check sample_platform quoted_spectral [] n rule None five_seconds =
    Some (Inr (success K2 details))"
  using assms by (simp add: spectral_run_defs) blast

lemma quoted_spectral_holds: "spectral_holds quoted_provers"
  unfolding spectral_holds_def
proof (intro ballI allI impI)
  fix e n
  assume e: "e \<in> set CORPUS_EDGES" "ce_edge_type e = SPECTRAL" "node_named (ce_conclusion_key e) = Inr n"
  have "ce_conclusion_key e \<in> {str ''N32'', str ''N33'', str ''N34''}"
    using spectral_conclusions e(1,2) unfolding list_all_iff by blast
  then have "\<exists>details. spectral_check sample_platform quoted_spectral [] n (ce_rule e) None five_seconds =
      Some (Inr (success K2 details))"
    using e(3) quoted_check_1 [OF spectral_claims(1)] quoted_check_2 [OF spectral_claims(2)]
      quoted_check_3 [OF spectral_claims(3)] by auto
  then show "\<exists>details. spectral_check (pv_platform quoted_provers) (pv_spectral quoted_provers) [] n
      (ce_rule e) None five_seconds = Some (Inr (success K2 details))"
    by (simp add: quoted_provers_def)
qed

lemma seed_world: "corpus_world seed_env quoted_provers sample_key"
  unfolding corpus_world_def using seed_env_ok quoted_spectral_holds world_collision_free by blast

lemma storage_ok_seed: "storage_ok seed_env sample_storage"
  by (simp add: storage_ok_def connect_def open_db_def sample_key_def) (simp add: empty_db_def)

end
