(* ===== verification/Seeding.thy ===== *)
theory Seeding
  imports Seed_World
begin

text \<open>
  The run of the seed script over the corpus: a first run on an empty storage stores every edge, a second
  run changes nothing.
\<close>

section \<open>A storage that holds part of the corpus\<close>

text \<open>The storage holds exactly the corpus edges of \<open>T\<close>, with their nodes.\<close>

definition holds :: "env \<Rightarrow> bytes \<Rightarrow> corpus_edge set \<Rightarrow> storage \<Rightarrow> bool" where
  "holds E signer T s \<longleftrightarrow>
     T \<subseteq> set CORPUS_EDGES \<and> storage_ok E s \<and> graph_typed E s \<and> blobs_of s = \<Union> (edge_part E signer ` T) \<and>
     dom (connectivity (committed (st_conn s))) = (\<lambda>e. hash_bytes E (record_blob E signer e)) ` T"

lemma holdsD:
  assumes "holds E signer T s"
  shows "T \<subseteq> set CORPUS_EDGES" and "storage_ok E s" and "graph_typed E s"
    and "blobs_of s = \<Union> (edge_part E signer ` T)" and "blobs_of s \<subseteq> corpus_blobs E signer"
    and "dom (connectivity (committed (st_conn s))) = (\<lambda>e. hash_bytes E (record_blob E signer e)) ` T"
  using assms edge_part_blobs by (auto simp: holds_def)

lemma holds_empty:
  assumes "storage_ok E s" and "blobs_of s = {}" and "connectivity (committed (st_conn s)) = Map.empty"
  shows "holds E signer {} s"
  using assms by (simp add: holds_def graph_typed_def)

lemma get_blob:
  assumes "addressed E (st_objects s)" and "b \<in> blobs_of s"
  shows "get (st_objects s) (hash_bytes E b) = Some b"
  using assms by (auto simp: blobs_of_def addressed_def)

lemma holds_get:
  assumes "corpus_world E P signer" and "holds E signer T s" and "e \<in> set CORPUS_EDGES"
  shows "get (st_objects s) (hash_bytes E (record_blob E signer e)) =
    (if e \<in> T then Some (record_blob E signer e) else None)"
proof -
  note w = corpus_worldD [OF assms(1)] and h = holdsD [OF assms(2)]
  have addr: "addressed E (st_objects s)" using h(2) by (simp add: storage_ok_def)
  have mem: "record_blob E signer e \<in> blobs_of s \<longleftrightarrow> e \<in> T"
    unfolding h(4) using record_in_part [OF w(1,3,5) assms(3)] h(1) by blast
  show ?thesis
  proof (cases "e \<in> T")
    case True
    with mem get_blob [OF addr] show ?thesis by simp
  next
    case False
    have "get (st_objects s) (hash_bytes E (record_blob E signer e)) = None"
    proof (rule ccontr)
      assume "get (st_objects s) (hash_bytes E (record_blob E signer e)) \<noteq> None"
      moreover have "collision_free E (insert (record_blob E signer e) (blobs_of s))"
        by (rule collision_free_subset [OF w(5)]) (use h(5) assms(3) in \<open>auto simp: corpus_blobs_def\<close>)
      ultimately have "record_blob E signer e \<in> blobs_of s"
        using addressed_get [OF addr] by (auto simp: blobs_of_def)
      with mem False show False by simp
    qed
    with False show ?thesis by simp
  qed
qed

lemma resolve_held:
  assumes "corpus_world E P signer" and "holds E signer T s" and "e \<in> set CORPUS_EDGES"
  shows "resolve_edge E (sqlite_reader E s) (hash_bytes E (record_blob E signer e)) =
    Inr (if e \<in> T then Some (record_of E signer e) else None)"
  using holds_get [OF assms] edge_decode_ok [OF corpus_worldD(3) [OF assms(1)] record_hashes_ok
      [OF corpus_worldD(1) [OF assms(1)]]]
  by (simp add: resolve_sqlite)

lemma holds_insert:
  assumes "corpus_world E P signer" and "holds E signer T s" and "e \<in> set CORPUS_EDGES"
  defines "prems \<equiv> map named (ce_premise_keys e)" and "c \<equiv> named (ce_conclusion_key e)"
  shows "proposal_ok E s prems c None (record_of E signer e)"
    and "stored_as E s prems c None (record_of E signer e) s' \<Longrightarrow> holds E signer (insert e T) s'"
proof -
  note w = corpus_worldD [OF assms(1)] and h = holdsD [OF assms(2)]
  have part: "new_blobs E prems c None (record_of E signer e) = edge_part E signer e"
    by (auto simp: new_blobs_def edge_part_def prems_def c_def)
  have "collision_free E (edge_part E signer e \<union> blobs_of s)"
    by (rule collision_free_subset [OF w(5)]) (use h(5) edge_part_blobs [OF assms(3)] in blast)
  then show ok: "proposal_ok E s prems c None (record_of E signer e)"
    using w h(2,3) record_hashes_ok [OF w(1)] part
    by (simp add: proposal_ok_def record_of_def key_hash_def prems_def c_def)
  assume as: "stored_as E s prems c None (record_of E signer e) s'"
  then have ok': "storage_ok E s'" and conn: "connectivity (committed (st_conn s')) =
      (connectivity (committed (st_conn s)))(hash_bytes E (record_blob E signer e) \<mapsto>
        (e_premises (record_of E signer e), e_conclusion (record_of E signer e)))"
    by (simp_all add: stored_as_def)
  note got = stored_as_blobs [OF ok as]
  have stored: "b \<in> blobs_of s'" if "get (st_objects s') (hash_bytes E b) = Some b" for b
    using that unfolding blobs_of_def by blast
  have nodes: "key_blob E k \<in> blobs_of s'" if k: "k \<in> set (ce_conclusion_key e # ce_premise_keys e)" for k
  proof (rule stored, rule got(2))
    show "named k \<in> set (prems @ [c])" using k by (auto simp: prems_def c_def)
  qed
  have "edge_part E signer e \<subseteq> blobs_of s'"
    unfolding edge_part_def using nodes stored [OF got(1)] by blast
  moreover have "blobs_of s \<subseteq> blobs_of s'" using got(3) by (auto simp: blobs_of_def)
  moreover have "blobs_of s' \<subseteq> edge_part E signer e \<union> blobs_of s"
    using stored_as_subset [OF as] by (simp add: part)
  ultimately have "blobs_of s' = \<Union> (edge_part E signer ` insert e T)" using h(4) by auto
  then show "holds E signer (insert e T) s'"
    using ok' stored_as_typed [OF ok as] h(1,6) assms(3) by (auto simp: holds_def conn)
qed

section \<open>One edge\<close>

lemma seed_edge_present:
  assumes "corpus_world E P signer" and "holds E signer T s" and "e \<in> T"
  shows "seed_edge_row E P now signer e s = Some (s, Inr (row_of e (Some (ce_expected_kappa e)) (str ''SKIP'')))"
proof -
  have e: "e \<in> set CORPUS_EDGES" using holdsD(1) [OF assms(2)] assms(3) by blast
  show ?thesis
    using corpus_build_edge_record [OF e corpus_worldD(4) [OF assms(1)]] resolve_held [OF assms(1,2) e] assms(3)
    by (simp add: seed_edge_row_def edge_hash_eq) (simp add: record_of_def)
qed

lemma seed_edge_absent:
  assumes "corpus_world E P signer" and "holds E signer T s" and "e \<in> set CORPUS_EDGES" and "e \<notin> T"
  obtains s' entry where "seed_edge_row E P now signer e s =
      Some (s', Inr (row_of e (Some (ce_expected_kappa e)) (str ''MATCH'')))"
    and "holds E signer (insert e T) s'" and "le_payload entry = record_blob E signer e"
    and "t_log (committed (st_conn s')) = t_log (committed (st_conn s)) @ [entry]"
proof -
  note w = corpus_worldD [OF assms(1)]
  let ?prems = "map named (ce_premise_keys e)" and ?c = "named (ce_conclusion_key e)"
  obtain r where r: "verify P ?prems ?c (ce_rule e) (ce_edge_type e) (ce_proof_bytes e) five_seconds = Some (Inr r)"
    "\<not> rejected r" "vr_kappa r = ce_expected_kappa e"
    "built_edge E signer ?prems ?c (ce_rule e) (ce_edge_type e) (ce_proof_bytes e) r = record_of E signer e"
    by (rule corpus_record [OF assms(3) w(4)])
  note ins = holds_insert [OF assms(1-3)]
  obtain s' entry where run: "store_edge E now ?prems ?c None r (record_of E signer e) s =
      Some (s', Inr \<lparr> cm_verification = r, cm_edge = Some (record_of E signer e),
        cm_edge_hash = Some (hash_bytes E (record_blob E signer e)), cm_log_entry = Some entry \<rparr>)"
    and as: "stored_as E s ?prems ?c None (record_of E signer e) s'" and pay: "le_payload entry = record_blob E signer e"
    and log: "t_log (committed (st_conn s')) = t_log (committed (st_conn s)) @ [entry]"
    using store_edge_effect [OF ins(1), of now r] by blast
  have "verify_and_commit E P now signer ?prems ?c (ce_rule e) (ce_edge_type e) (ce_proof_bytes e) five_seconds s =
      Some (s', Inr \<lparr> cm_verification = r, cm_edge = Some (record_of E signer e),
        cm_edge_hash = Some (hash_bytes E (record_blob E signer e)), cm_log_entry = Some entry \<rparr>)"
    using run verify_and_commit_accepted [OF r(1,2)] r(4) declared_edge(2) [OF assms(3)] by simp
  then have "commit_row E P now signer e s =
      Some (s', Inr (row_of e (Some (ce_expected_kappa e)) (str ''MATCH'')))"
    using r(2,3) by (simp add: commit_row_def edge_nodes_named [OF assms(3)] cm_rejected_def)
  then have "seed_edge_row E P now signer e s =
      Some (s', Inr (row_of e (Some (ce_expected_kappa e)) (str ''MATCH'')))"
    using corpus_build_edge_record [OF assms(3) w(4)] resolve_held [OF assms(1-3)] assms(4)
    by (simp add: seed_edge_row_def edge_hash_eq)
  then show ?thesis using that ins(2) [OF as] pay log by blast
qed

section \<open>The loop\<close>

lemma seed_from_fresh:
  assumes "corpus_world E P signer" and "holds E signer T s" and "set es \<subseteq> set CORPUS_EDGES"
    and "distinct es" and "set es \<inter> T = {}"
  shows "\<exists>s' rs. seed_from E P now_at i signer es s =
      Some (s', Inr (map (\<lambda>e. row_of e (Some (ce_expected_kappa e)) (str ''MATCH'')) es)) \<and>
    holds E signer (set es \<union> T) s' \<and> map le_payload rs = map (record_blob E signer) es \<and>
    t_log (committed (st_conn s')) = t_log (committed (st_conn s)) @ rs"
  using assms(2-5)
proof (induction es arbitrary: s T i)
  case (Cons e es)
  have e: "e \<in> set CORPUS_EDGES" "e \<notin> T" using Cons.prems by auto
  obtain s1 entry where one: "seed_edge_row E P (now_at i) signer e s =
      Some (s1, Inr (row_of e (Some (ce_expected_kappa e)) (str ''MATCH'')))"
    and h1: "holds E signer (insert e T) s1" and pay: "le_payload entry = record_blob E signer e"
    and log: "t_log (committed (st_conn s1)) = t_log (committed (st_conn s)) @ [entry]"
    by (rule seed_edge_absent [OF assms(1) Cons.prems(1) e])
  obtain s' rs where rest: "seed_from E P now_at (Suc i) signer es s1 =
      Some (s', Inr (map (\<lambda>e. row_of e (Some (ce_expected_kappa e)) (str ''MATCH'')) es))"
    and h': "holds E signer (set es \<union> insert e T) s'" and "map le_payload rs = map (record_blob E signer) es"
    and "t_log (committed (st_conn s')) = t_log (committed (st_conn s1)) @ rs"
    using Cons.IH [OF h1, of "Suc i"] Cons.prems by auto
  then show ?case
    using one pay log by (intro exI [of _ s'] exI [of _ "entry # rs"]) simp
qed (auto intro!: exI [of _ "[]"])

lemma seed_from_held:
  assumes "corpus_world E P signer" and "holds E signer T s" and "set es \<subseteq> T"
  shows "seed_from E P now_at i signer es s =
    Some (s, Inr (map (\<lambda>e. row_of e (Some (ce_expected_kappa e)) (str ''SKIP'')) es))"
  using assms(3)
  by (induction es arbitrary: i) (simp_all add: seed_edge_present [OF assms(1,2)])

lemma distinct_edges: "distinct CORPUS_EDGES"
  using distinct_rules by (simp add: distinct_map)

lemma seed_corpus_fresh:
  assumes "corpus_world E P signer" and "storage_ok E s" and "blobs_of s = {}"
    and "connectivity (committed (st_conn s)) = Map.empty"
  obtains s' rs where "seed_corpus E P now_at s signer =
      Some (s', Inr (map (\<lambda>e. row_of e (Some (ce_expected_kappa e)) (str ''MATCH'')) CORPUS_EDGES))"
    and "holds E signer (set CORPUS_EDGES) s'" and "map le_payload rs = map (record_blob E signer) CORPUS_EDGES"
    and "t_log (committed (st_conn s')) = t_log (committed (st_conn s)) @ rs"
  using seed_from_fresh [OF assms(1) holds_empty [OF assms(2-4)] _ distinct_edges, of now_at 0]
  by (auto simp: seed_corpus_def)

text \<open>C27: on an empty graph the script stores the whole corpus: each of the 58 edges is accepted with exactly the
  strength it declares and logged in order, and running the script again skips every edge and changes nothing.\<close>

theorem seed_stores_corpus:
  assumes "corpus_world E P signer" and "storage_ok E s" and "blobs_of s = {}"
    and "connectivity (committed (st_conn s)) = Map.empty"
  shows "\<exists>s' rs. seed_corpus E P now_at s signer =
      Some (s', Inr (map (\<lambda>e. row_of e (Some (ce_expected_kappa e)) (str ''MATCH'')) CORPUS_EDGES)) \<and>
    storage_ok E s' \<and> graph_typed E s' \<and>
    t_log (committed (st_conn s')) = t_log (committed (st_conn s)) @ rs \<and> length rs = 58 \<and>
    seed_corpus E P now_at' s' signer =
      Some (s', Inr (map (\<lambda>e. row_of e (Some (ce_expected_kappa e)) (str ''SKIP'')) CORPUS_EDGES))"
proof -
  obtain s' rs where run: "seed_corpus E P now_at s signer =
      Some (s', Inr (map (\<lambda>e. row_of e (Some (ce_expected_kappa e)) (str ''MATCH'')) CORPUS_EDGES))"
    and h: "holds E signer (set CORPUS_EDGES) s'"
    and pay: "map le_payload rs = map (record_blob E signer) CORPUS_EDGES"
    and log: "t_log (committed (st_conn s')) = t_log (committed (st_conn s)) @ rs"
    by (rule seed_corpus_fresh [OF assms])
  have "length rs = 58" using arg_cong [OF pay, of length] by (simp add: corpus_sizes)
  moreover have "seed_corpus E P now_at' s' signer =
      Some (s', Inr (map (\<lambda>e. row_of e (Some (ce_expected_kappa e)) (str ''SKIP'')) CORPUS_EDGES))"
    unfolding seed_corpus_def by (rule seed_from_held [OF assms(1) h]) simp
  ultimately show ?thesis using run log holdsD(2,3) [OF h] by blast
qed

theorem seed_stores_corpus_witness:
  "\<exists>s' rs. seed_corpus seed_env quoted_provers int sample_storage sample_key =
      Some (s', Inr (map (\<lambda>e. row_of e (Some (ce_expected_kappa e)) (str ''MATCH'')) CORPUS_EDGES)) \<and>
    storage_ok seed_env s' \<and> graph_typed seed_env s' \<and>
    t_log (committed (st_conn s')) = t_log (committed (st_conn sample_storage)) @ rs \<and> length rs = 58 \<and>
    seed_corpus seed_env quoted_provers int s' sample_key =
      Some (s', Inr (map (\<lambda>e. row_of e (Some (ce_expected_kappa e)) (str ''SKIP'')) CORPUS_EDGES))"
  by (rule seed_stores_corpus [OF seed_world storage_ok_seed sample_empty(1)])
    (simp add: fun_eq_iff connectivity_def connect_def open_db_def empty_db_def)

end
