(* ===== verification/Seed_Queries.thy ===== *)
theory Seed_Queries
  imports Seeding
begin

text \<open>
  What the seed script reports of the seeded graph: the exit-criteria queries, the attestation of every
  edge, and the whole run on an empty root directory.
\<close>

declare str_Cons [simp del]

section \<open>The derivations of the seeded graph\<close>

lemma map_of_dict_of_functional:
  assumes "\<And>h e e'. (h, e) \<in> set ps \<Longrightarrow> (h, e') \<in> set ps \<Longrightarrow> e = e'"
  shows "map_of (dict_of ps) h = Some e \<longleftrightarrow> (h, e) \<in> set ps"
proof
  assume "(h, e) \<in> set ps"
  then obtain e' where "map_of (rev ps) h = Some e'" using weak_map_of_SomeI by (metis set_rev)
  moreover from this have "(h, e') \<in> set ps" by (auto dest: map_of_SomeD)
  ultimately show "map_of (dict_of ps) h = Some e"
    using assms \<open>(h, e) \<in> set ps\<close> by (auto simp: map_of_dict_of)
qed (auto simp: map_of_dict_of dest: map_of_SomeD)

definition record_hash :: "env \<Rightarrow> bytes \<Rightarrow> corpus_edge \<Rightarrow> hash" where
  "record_hash E signer e = hash_bytes E (record_blob E signer e)"

text \<open>The edges of the corpus that derive something, with their keys.\<close>

definition deriving :: "corpus_edge set" where
  "deriving = {e \<in> set CORPUS_EDGES. ce_edge_type e \<noteq> REFUTATION}"

lemma derives_record: "derives_claims (record_of E signer e) \<longleftrightarrow> ce_edge_type e \<noteq> REFUTATION"
  by (simp add: derives_claims_def record_of_def)

lemma held_edge_at:
  assumes "corpus_world E P signer" and "holds E signer T s" and "e \<in> T"
  shows "edge_at E s (record_hash E signer e) = Some (record_of E signer e)"
  using resolve_held [OF assms(1,2)] holdsD(1) [OF assms(2)] assms(3)
  by (auto simp: resolve_edge_at record_hash_def)

lemma held_derivations:
  assumes "corpus_world E P signer" and "holds E signer (set CORPUS_EDGES) s"
  obtains des where "derivation_edges E (sqlite_reader E s) None = Inr des"
    and "set des = (\<lambda>e. (record_hash E signer e, record_of E signer e)) ` deriving"
proof -
  obtain des where des: "derivation_edges E (sqlite_reader E s) None = Inr des"
    and set_des: "set des = {(h, e). h \<in> dom (connectivity (committed (st_conn s))) \<and> edge_at E s h = Some e \<and>
      derives_claims e}" using storage_derivations [OF holdsD(2) [OF assms(2)]] by blast
  have "dom (connectivity (committed (st_conn s))) = record_hash E signer ` set CORPUS_EDGES"
    using holdsD(6) [OF assms(2)] by (simp add: record_hash_def)
  then have "set des = (\<lambda>e. (record_hash E signer e, record_of E signer e)) ` deriving"
    unfolding set_des deriving_def using held_edge_at [OF assms] derives_record by fastforce
  with des that show ?thesis by blast
qed

lemma held_incoming:
  assumes "corpus_world E P signer" and "holds E signer (set CORPUS_EDGES) s"
  shows "set (incoming_of (sqlite_reader E s) n) =
    record_hash E signer ` {e \<in> set CORPUS_EDGES. key_hash E (ce_conclusion_key e) = n}"
    and "\<exists>hs. rd_incoming (sqlite_reader E s) n = Inr hs"
proof -
  let ?conn = "connectivity (committed (st_conn s))"
  note h = holdsD [OF assms(2)] and w = corpus_worldD [OF assms(1)]
  have "graph_ok (view (st_conn s))" using h(2) by (simp add: storage_ok_view) (simp add: storage_ok_def)
  from incoming_edges_eq [OF this, of n] obtain hs where hs: "incoming_edges (st_conn s) n = Inr hs"
    "set hs = {e. \<exists>ps. ?conn e = Some (ps, n)}" by (auto simp: storage_ok_view [OF h(2)])
  then show "\<exists>hs. rd_incoming (sqlite_reader E s) n = Inr hs" by simp
  have concl: "snd x = key_hash E (ce_conclusion_key e)"
    if "e \<in> set CORPUS_EDGES" "?conn (record_hash E signer e) = Some x" for e x
  proof -
    note held = that
    obtain f where f: "get (st_objects s) (record_hash E signer e) = Some (edge_blob E f)" "edge_hashes_ok f"
      "e_conclusion f = snd x" using h(3) held(2) unfolding graph_typed_def by (cases x) fastforce
    then have "edge_blob E f = record_blob E signer e"
      using holds_get [OF assms that(1)] that(1) by (simp add: record_hash_def)
    from edge_blob_inj [OF w(3) f(2) record_hashes_ok [OF w(1)] this] f(3) show ?thesis
      by (simp add: record_of_def)
  qed
  have dom: "dom ?conn = record_hash E signer ` set CORPUS_EDGES" using h(6) by (simp add: record_hash_def)
  have "set hs = record_hash E signer ` {e \<in> set CORPUS_EDGES. key_hash E (ce_conclusion_key e) = n}"
  proof (intro equalityI subsetI)
    fix x assume "x \<in> set hs"
    then obtain ps where ps: "?conn x = Some (ps, n)" using hs(2) by blast
    then obtain e where "e \<in> set CORPUS_EDGES" "x = record_hash E signer e" using dom by blast
    with concl [of e] ps show "x \<in> record_hash E signer ` {e \<in> set CORPUS_EDGES. key_hash E (ce_conclusion_key e) = n}"
      by fastforce
  next
    fix x assume "x \<in> record_hash E signer ` {e \<in> set CORPUS_EDGES. key_hash E (ce_conclusion_key e) = n}"
    then obtain e where e: "e \<in> set CORPUS_EDGES" "key_hash E (ce_conclusion_key e) = n" "x = record_hash E signer e"
      by blast
    then obtain v where "?conn x = Some v" using dom by blast
    with concl [OF e(1)] e(2,3) show "x \<in> set hs" unfolding hs(2) by (cases v) auto
  qed
  then show "set (incoming_of (sqlite_reader E s) n) =
    record_hash E signer ` {e \<in> set CORPUS_EDGES. key_hash E (ce_conclusion_key e) = n}"
    using hs(1) by (simp add: incoming_of_def)
qed

section \<open>The edges around the conjecture\<close>

abbreviation key :: "string \<Rightarrow> pystr" where "key \<equiv> str"

definition corpus_has :: "EdgeType \<Rightarrow> string list \<Rightarrow> string \<Rightarrow> Kappa \<Rightarrow> bool" where
  "corpus_has t ps c k \<longleftrightarrow>
     list_ex (\<lambda>e. ce_edge_type e = t \<and> ce_premise_keys e = map key ps \<and> ce_conclusion_key e = key c \<and>
       ce_expected_kappa e = k) CORPUS_EDGES"

lemma corpus_has:
  "corpus_has CITATION [] ''N4'' K1" "corpus_has CITATION [''N4''] ''N5'' K1"
  "corpus_has CITATION [] ''N6'' K1" "corpus_has CITATION [] ''N8'' K1"
  "corpus_has ANALOGY [] ''N7'' K0" "corpus_has CITATION [''N9''] ''N7'' K1"
  "corpus_has ANALOGY [''N5''] ''N9'' K0"
  by (simp_all add: corpus_has_def corpus_defs)

lemma concluding_N5: "list_all (\<lambda>e. ce_conclusion_key e = key ''N5'' \<longrightarrow>
    ce_premise_keys e = [key ''N4''] \<and> ce_expected_kappa e = K1) CORPUS_EDGES"
  by (simp add: corpus_defs)

lemma concluding_N9: "list_all (\<lambda>e. ce_conclusion_key e = key ''N9'' \<longrightarrow>
    ce_premise_keys e = [key ''N5''] \<and> ce_expected_kappa e = K0) CORPUS_EDGES"
  by (simp add: corpus_defs)

lemma concluding_N7: "list_all (\<lambda>e. ce_conclusion_key e = key ''N7'' \<longrightarrow>
    (ce_expected_kappa e = K0 \<and> (ce_premise_keys e = [] \<or> ce_premise_keys e = [key ''N6''] \<or>
       ce_premise_keys e = [key ''N8''])) \<or>
    (ce_premise_keys e = [key ''N9''] \<and> ce_rule e = key ''Hilbert-Polya operator'')) CORPUS_EDGES"
  by (simp add: corpus_defs)

lemma query_keys: "{key ''N4'', key ''N5'', key ''N6'', key ''N7'', key ''N8'', key ''N9''} \<subseteq> set corpus_keys"
  by (simp add: corpus_keys_def corpus_defs)

lemma corpus_hasE:
  assumes "corpus_has t ps c k"
  obtains e where "e \<in> set CORPUS_EDGES" and "ce_edge_type e = t" and "ce_premise_keys e = map key ps"
    and "ce_conclusion_key e = key c" and "ce_expected_kappa e = k"
  using assms by (auto simp: corpus_has_def list_ex_iff)

section \<open>What is derivable\<close>

definition seeded_by :: "env \<Rightarrow> bytes \<Rightarrow> derivations \<Rightarrow> bool" where
  "seeded_by E signer des \<longleftrightarrow>
     blake3_spec E \<and> cbor_spec E \<and> collision_free E (corpus_blobs E signer) \<and>
     set des = (\<lambda>e. (record_hash E signer e, record_of E signer e)) ` deriving"

lemma seeded_by_keys:
  assumes "seeded_by E signer des" and "k \<in> set corpus_keys" and "k' \<in> set corpus_keys"
  shows "key_hash E k = key_hash E k' \<longleftrightarrow> k = k'"
  using key_hash_inject assms unfolding seeded_by_def by blast

lemma seeded_edge:
  assumes "seeded_by E signer des" and "(h, f) \<in> set des"
  obtains e where "e \<in> set CORPUS_EDGES" and "ce_edge_type e \<noteq> REFUTATION" and "f = record_of E signer e"
    and "h = record_hash E signer e"
  using assms by (auto simp: seeded_by_def deriving_def)

lemma record_fields [simp]:
  "e_premises (record_of E signer e) = map (key_hash E) (ce_premise_keys e)"
  "e_conclusion (record_of E signer e) = key_hash E (ce_conclusion_key e)"
  "e_kappa (record_of E signer e) = ce_expected_kappa e" "e_rule (record_of E signer e) = ce_rule e"
  by (simp_all add: record_of_def)

lemma seeded_concludes:
  assumes "seeded_by E signer des" and "e \<in> set CORPUS_EDGES" and "k \<in> set corpus_keys"
  shows "key_hash E (ce_conclusion_key e) = key_hash E k \<longleftrightarrow> ce_conclusion_key e = k"
  using seeded_by_keys [OF assms(1) _ assms(3)] edge_keys_known [OF assms(2)] by auto

lemma seeded_has:
  assumes "seeded_by E signer des" and "corpus_has t ps c k" and "t \<noteq> REFUTATION"
  obtains e h where "(h, record_of E signer e) \<in> set des" and "ce_premise_keys e = map key ps"
    and "ce_conclusion_key e = key c" and "ce_expected_kappa e = k"
proof -
  obtain e where e: "e \<in> set CORPUS_EDGES" "ce_edge_type e = t" "ce_premise_keys e = map key ps"
    "ce_conclusion_key e = key c" "ce_expected_kappa e = k" using corpus_hasE [OF assms(2)] .
  then have "(record_hash E signer e, record_of E signer e) \<in> set des"
    using assms(1,3) by (auto simp: seeded_by_def deriving_def)
  with e(3-5) that show ?thesis by blast
qed

lemma seeded_axiom:
  assumes "seeded_by E signer des" and "corpus_has t [] c k" and "t \<noteq> REFUTATION"
  shows "derives des [] (key_hash E (key c)) k" and "derives_at des [] (key_hash E (key c)) 0"
proof -
  obtain e h where e: "(h, record_of E signer e) \<in> set des" "ce_premise_keys e = map key []"
    "ce_conclusion_key e = key c" "ce_expected_kappa e = k" by (rule seeded_has [OF assms])
  from derives.axiom [OF e(1), of "[]"] e(2-) show "derives des [] (key_hash E (key c)) k" by simp
  from derives_at.axiom [OF e(1), of "[]"] e(2-) show "derives_at des [] (key_hash E (key c)) 0" by simp
qed

lemma N5_derivable:
  assumes "seeded_by E signer des"
  shows "derives des [] (key_hash E (key ''N5'')) k \<Longrightarrow> k \<le> K1" and "derives des [] (key_hash E (key ''N5'')) K1"
    and "derives_at des [] (key_hash E (key ''N5'')) d \<Longrightarrow> 1 \<le> d"
    and "derives_at des [] (key_hash E (key ''N5'')) 1"
proof -
  have only: "map (key_hash E) (ce_premise_keys e) \<noteq> [] \<and> ce_expected_kappa e = K1"
    if "(h, f) \<in> set des" "f = record_of E signer e" "e \<in> set CORPUS_EDGES"
      "key_hash E (ce_conclusion_key e) = key_hash E (key ''N5'')" for e f h
  proof -
    have "key ''N5'' \<in> set corpus_keys" using query_keys by blast
    with that(4) seeded_concludes [OF assms that(3)] have "ce_conclusion_key e = key ''N5''" by blast
    with concluding_N5 that(3) show ?thesis by (simp add: list_all_iff)
  qed
  show "k \<le> K1" if "derives des [] (key_hash E (key ''N5'')) k"
    using that
  proof cases
    case (axiom h e)
    then show ?thesis by (metis only seeded_edge [OF assms] order_refl record_fields(2,3))
  next
    case (step h e f)
    obtain c where c: "c \<in> set CORPUS_EDGES" "e = record_of E signer c" using seeded_edge [OF assms step(3)] by blast
    with only [OF step(3) c(2,1)] step(1) have "e_kappa e = K1" by simp
    then show ?thesis by (simp add: step(2) min_le_iff_disj)
  qed simp
  show "1 \<le> d" if "derives_at des [] (key_hash E (key ''N5'')) d"
    using that
  proof cases
    case (axiom h e)
    obtain c where c: "c \<in> set CORPUS_EDGES" "e = record_of E signer c" using seeded_edge [OF assms axiom(3)] by blast
    with only [OF axiom(3) c(2,1)] axiom show ?thesis by simp
  qed simp_all
  obtain e h where e: "(h, record_of E signer e) \<in> set des" "ce_premise_keys e = map key [''N4'']"
    "ce_conclusion_key e = key ''N5''" "ce_expected_kappa e = K1"
    by (rule seeded_has [OF assms corpus_has(2)]) simp
  note N4 = seeded_axiom [OF assms corpus_has(1)]
  from derives.step [OF e(1), of "[]" "\<lambda>p. K1"] e(2-) N4(1) show "derives des [] (key_hash E (key ''N5'')) K1" by simp
  from derives_at.step [OF e(1), of "[]" "\<lambda>p. 0"] e(2-) N4(2) show "derives_at des [] (key_hash E (key ''N5'')) 1" by simp
qed

lemma wall:
  assumes "seeded_by E signer des" and "derives des [] n k"
    and "n = key_hash E (key ''N7'') \<or> n = key_hash E (key ''N9'')"
  shows "k \<le> K0"
  using assms(2,3)
proof induction
  case (axiom h e)
  obtain c where c: "c \<in> set CORPUS_EDGES" "e = record_of E signer c" using seeded_edge [OF assms(1) axiom(1)] by blast
  then have "ce_conclusion_key c = key ''N7'' \<or> ce_conclusion_key c = key ''N9''"
    using axiom(3) seeded_concludes [OF assms(1) c(1)] query_keys by auto
  then have "ce_expected_kappa c = K0 \<or> ce_premise_keys c \<noteq> []"
    using concluding_N7 concluding_N9 c(1) by (auto simp: list_all_iff)
  then show ?case using axiom(2) c(2) by auto
next
  case (step h e f)
  obtain c where c: "c \<in> set CORPUS_EDGES" "e = record_of E signer c" using seeded_edge [OF assms(1) step(1)] by blast
  then have "ce_conclusion_key c = key ''N7'' \<or> ce_conclusion_key c = key ''N9''"
    using step(5) seeded_concludes [OF assms(1) c(1)] query_keys by auto
  then have "ce_expected_kappa c = K0 \<or> ce_premise_keys c = [key ''N9'']"
    using concluding_N7 concluding_N9 c(1) by (auto simp: list_all_iff)
  then show ?case
  proof
    assume "ce_expected_kappa c = K0"
    then show ?thesis by (simp add: c(2) min_le_iff_disj)
  next
    assume N9: "ce_premise_keys c = [key ''N9'']"
    then have "f (key_hash E (key ''N9'')) \<le> K0" using step.IH [of "key_hash E (key ''N9'')"] c(2) by simp
    then show ?thesis by (simp add: c(2) N9 min_le_iff_disj)
  qed
qed simp

section \<open>The frontier\<close>

lemma set_map_filter: "set (List.map_filter f xs) = {y. \<exists>x \<in> set xs. f x = Some y}"
  by (induction xs) (auto simp: List.map_filter_simps split: option.splits)

lemma candidates_set: "set (candidates em hs) = {(h, e). h \<in> set hs \<and> map_of em h = Some e}"
  unfolding candidates_def set_map_filter by auto

lemma pushed_set: "set (pushed est inc) = (\<Union>x \<in> set inc. set (blocking est (snd x)))"
  by (auto simp: pushed_def)

lemma set_kept_entries:
  "set (List.map_filter (\<lambda>(h, e). if B e = [] then None else Some (F e)) xs) =
     (\<lambda>x. F (snd x)) ` {x \<in> set xs. B (snd x) \<noteq> []}"
proof (induction xs)
  case (Cons x xs)
  have "{y \<in> set (x # xs). B (snd y) \<noteq> []} =
      (if B (snd x) = [] then {y \<in> set xs. B (snd y) \<noteq> []} else insert x {y \<in> set xs. B (snd y) \<noteq> []})" by auto
  then show ?case by (simp add: List.map_filter_simps Cons.IH [unfolded split_beta] split_beta)
qed (simp add: List.map_filter_simps)

lemma node_entries_set:
  assumes "inc \<noteq> []"
  shows "set (node_entries est n inc) =
    (\<lambda>x. \<lparr> me_conclusion = n, me_premises = e_premises (snd x), me_blocking_nodes = blocking est (snd x),
      me_rule = e_rule (snd x) \<rparr>) ` {x \<in> set inc. blocking est (snd x) \<noteq> []}"
  unfolding node_entries_def by (simp only: assms if_False set_kept_entries)

lemma record_hash_inject:
  assumes "seeded_by E signer des" and "record_hash E signer e = record_hash E signer e'"
    and "e \<in> set CORPUS_EDGES" and "e' \<in> set CORPUS_EDGES"
  shows "e = e'"
proof -
  have sd: "blake3_spec E" "cbor_spec E" "collision_free E (corpus_blobs E signer)"
    using assms(1) by (simp_all add: seeded_by_def)
  have "record_blob E signer e = record_blob E signer e'"
    by (rule collision_freeD [OF sd(3) assms(2) [unfolded record_hash_def]])
      (simp_all add: corpus_blobs_def assms(3,4))
  then show ?thesis by (rule record_blob_inject [OF sd assms(3,4)])
qed

lemma seeded_candidates:
  assumes "corpus_world E P signer" and "holds E signer (set CORPUS_EDGES) s" and "seeded_by E signer des"
    and "k \<in> set corpus_keys"
  shows "set (candidates (dict_of des) (incoming_of (sqlite_reader E s) (key_hash E k))) =
    (\<lambda>e. (record_hash E signer e, record_of E signer e)) ` {e \<in> deriving. ce_conclusion_key e = k}"
proof -
  have "map_of (dict_of des) h = Some e \<longleftrightarrow> (h, e) \<in> set des" for h e
    by (rule map_of_dict_of_functional)
      (use record_hash_inject [OF assms(3)] assms(3) in \<open>auto simp: seeded_by_def deriving_def\<close>)
  moreover have "{e \<in> set CORPUS_EDGES. key_hash E (ce_conclusion_key e) = key_hash E k} =
      {e \<in> set CORPUS_EDGES. ce_conclusion_key e = k}"
    using seeded_concludes [OF assms(3) _ assms(4)] by blast
  ultimately have cand: "set (candidates (dict_of des) (incoming_of (sqlite_reader E s) (key_hash E k))) =
      {(h, f). h \<in> record_hash E signer ` {e \<in> set CORPUS_EDGES. ce_conclusion_key e = k} \<and> (h, f) \<in> set des}"
    by (simp add: candidates_set held_incoming(1) [OF assms(1,2)])
  show ?thesis unfolding cand
  proof (intro equalityI subsetI)
    fix x
    assume "x \<in> {(h, f). h \<in> record_hash E signer ` {e \<in> set CORPUS_EDGES. ce_conclusion_key e = k} \<and>
      (h, f) \<in> set des}"
    then obtain h f e where x: "x = (h, f)" "h = record_hash E signer e" "e \<in> set CORPUS_EDGES"
      "ce_conclusion_key e = k" "(h, f) \<in> set des" by blast
    obtain e' where e': "e' \<in> set CORPUS_EDGES" "ce_edge_type e' \<noteq> REFUTATION" "f = record_of E signer e'"
      "h = record_hash E signer e'" using seeded_edge [OF assms(3) x(5)] .
    have "e' = e" by (rule record_hash_inject [OF assms(3)]) (use x(2,3) e'(1,4) in simp_all)
    with x e' show "x \<in> (\<lambda>e. (record_hash E signer e, record_of E signer e)) `
        {e \<in> deriving. ce_conclusion_key e = k}" by (auto simp: deriving_def)
  qed (use assms(3) in \<open>auto simp: seeded_by_def deriving_def\<close>)
qed

text \<open>What is missing for the conjecture: the Hilbert-Polya operator.\<close>

definition the_gap :: "env \<Rightarrow> missing_edge" where
  "the_gap E = \<lparr> me_conclusion = key_hash E (key ''N7''), me_premises = [key_hash E (key ''N9'')],
     me_blocking_nodes = [key_hash E (key ''N9'')], me_rule = key ''Hilbert-Polya operator'' \<rparr>"

definition entry_of :: "env \<Rightarrow> bytes \<Rightarrow> hash list \<Rightarrow> hash \<Rightarrow> corpus_edge \<Rightarrow> missing_edge" where
  "entry_of E signer est n e =
     \<lparr> me_conclusion = n, me_premises = map (key_hash E) (ce_premise_keys e),
       me_blocking_nodes = blocking est (record_of E signer e), me_rule = ce_rule e \<rparr>"

text \<open>What one expanded node of the seeded graph pushes and reports.\<close>

lemma seeded_expansion:
  assumes "corpus_world E P signer" and "holds E signer (set CORPUS_EDGES) s" and "seeded_by E signer des"
    and "k \<in> set corpus_keys"
  defines "C \<equiv> {e \<in> deriving. ce_conclusion_key e = k}"
  shows "set (pushed est (candidates (dict_of des) (incoming_of (sqlite_reader E s) (key_hash E k)))) =
      (\<Union>e \<in> C. set (blocking est (record_of E signer e)))"
    and "C \<noteq> {} \<Longrightarrow> cone_entries (sqlite_reader E s) (dict_of des) est (key_hash E k) =
      entry_of E signer est (key_hash E k) ` {e \<in> C. blocking est (record_of E signer e) \<noteq> []}"
proof -
  let ?inc = "candidates (dict_of des) (incoming_of (sqlite_reader E s) (key_hash E k))"
  have inc: "set ?inc = (\<lambda>e. (record_hash E signer e, record_of E signer e)) ` C"
    unfolding C_def by (rule seeded_candidates [OF assms(1-4)])
  show "set (pushed est ?inc) = (\<Union>e \<in> C. set (blocking est (record_of E signer e)))"
    unfolding pushed_set inc by simp
  have some: "{x \<in> (\<lambda>e. (record_hash E signer e, record_of E signer e)) ` C. blocking est (snd x) \<noteq> []} =
      (\<lambda>e. (record_hash E signer e, record_of E signer e)) ` {e \<in> C. blocking est (record_of E signer e) \<noteq> []}"
    by auto
  assume "C \<noteq> {}"
  then have "set ?inc \<noteq> {}" unfolding inc by blast
  then have "?inc \<noteq> []" by auto
  then show "cone_entries (sqlite_reader E s) (dict_of des) est (key_hash E k) =
      entry_of E signer est (key_hash E k) ` {e \<in> C. blocking est (record_of E signer e) \<noteq> []}"
    unfolding cone_entries_def node_entries_set [OF \<open>?inc \<noteq> []\<close>] inc some
    by (simp add: image_image entry_of_def)
qed

text \<open>Which premises of the edges around the conjecture are not established at \<open>K1\<close>.\<close>

lemma seeded_blocking:
  assumes "seeded_by E signer des" and "e \<in> deriving"
  defines "est \<equiv> established_nodes (fs_kappa (fixpoint des [])) K1"
  shows "ce_conclusion_key e = key ''N7'' \<Longrightarrow> blocking est (record_of E signer e) =
      (if ce_premise_keys e = [key ''N9''] then [key_hash E (key ''N9'')] else [])"
    and "ce_conclusion_key e = key ''N9'' \<Longrightarrow> blocking est (record_of E signer e) = []"
proof -
  have est: "n \<in> set est \<longleftrightarrow> (\<exists>k. derives des [] n k \<and> K1 \<le> k)" for n
    unfolding est_def by (rule established_iff)
  have strong: "key_hash E (key ''N5'') \<in> set est" "key_hash E (key ''N6'') \<in> set est"
    "key_hash E (key ''N8'') \<in> set est"
    using N5_derivable(2) [OF assms(1)] seeded_axiom(1) [OF assms(1) corpus_has(3)]
      seeded_axiom(1) [OF assms(1) corpus_has(4)] unfolding est by blast+
  have "\<not> K1 \<le> k" if "k \<le> K0" for k using that by (cases k) (simp_all add: less_eq_Kappa_def)
  then have weak: "key_hash E (key ''N9'') \<notin> set est" using wall [OF assms(1)] unfolding est by blast
  show "ce_conclusion_key e = key ''N7'' \<Longrightarrow> blocking est (record_of E signer e) =
      (if ce_premise_keys e = [key ''N9''] then [key_hash E (key ''N9'')] else [])"
    using concluding_N7 assms(2) strong weak by (auto simp: blocking_def deriving_def list_all_iff)
  show "ce_conclusion_key e = key ''N9'' \<Longrightarrow> blocking est (record_of E signer e) = []"
    using concluding_N9 assms(2) strong by (auto simp: blocking_def deriving_def list_all_iff)
qed

lemma seeded_frontier:
  assumes "corpus_world E P signer" and "holds E signer (set CORPUS_EDGES) s" and "seeded_by E signer des"
  shows "searched (sqlite_reader E s) des K1 (key_hash E (key ''N7'')) = {the_gap E}"
proof -
  let ?R = "sqlite_reader E s" and ?em = "dict_of des" and ?est = "established_nodes (fs_kappa (fixpoint des [])) K1"
  let ?N7 = "key_hash E (key ''N7'')" and ?N9 = "key_hash E (key ''N9'')"
  let ?into = "\<lambda>k. {e \<in> deriving. ce_conclusion_key e = k}"
  note blocks = seeded_blocking [OF assms(3)]
  have keys: "key ''N7'' \<in> set corpus_keys" "key ''N9'' \<in> set corpus_keys" using query_keys by blast+
  note expand7 = seeded_expansion [OF assms keys(1), of ?est] and expand9 = seeded_expansion [OF assms keys(2), of ?est]
  obtain e9 where e9: "e9 \<in> ?into (key ''N7'')" "ce_premise_keys e9 = [key ''N9'']"
  proof (rule corpus_hasE [OF corpus_has(6)])
    fix e
    assume "e \<in> set CORPUS_EDGES" "ce_edge_type e = CITATION" "ce_premise_keys e = map key [''N9'']"
      "ce_conclusion_key e = key ''N7''"
    then show thesis by (intro that [of e]) (simp_all add: deriving_def)
  qed
  have into9: "?into (key ''N9'') \<noteq> {}"
    by (rule corpus_hasE [OF corpus_has(7)]) (auto simp: deriving_def)
  have blocked: "{e \<in> ?into (key ''N7''). blocking ?est (record_of E signer e) \<noteq> []} =
      {e \<in> ?into (key ''N7''). ce_premise_keys e = [key ''N9'']}" using blocks(1) by (auto split: if_splits)
  have pushed7: "set (pushed ?est (candidates ?em (incoming_of ?R ?N7))) = {?N9}"
  proof (unfold expand7(1), intro equalityI)
    have "?N9 \<in> set (blocking ?est (record_of E signer e9))" using blocks(1) e9 by simp
    then show "{?N9} \<subseteq> (\<Union>e \<in> ?into (key ''N7''). set (blocking ?est (record_of E signer e)))"
      using e9(1) by blast
  qed (auto simp: blocks(1) split: if_splits)
  have pushed9: "set (pushed ?est (candidates ?em (incoming_of ?R ?N9))) = {}"
    unfolding expand9(1) by (simp add: blocks(2))
  have "n = ?N7 \<or> n = ?N9" if "in_cone ?R ?em ?est ?N7 n" for n
    using that
  proof (induction rule: in_cone.induct)
    case (blocked n p)
    then show ?case using pushed7 pushed9 by (elim disjE) simp_all
  qed simp
  moreover have "in_cone ?R ?em ?est ?N7 ?N9"
    by (rule in_cone.blocked [OF in_cone.target]) (simp add: pushed7)
  ultimately have "Collect (in_cone ?R ?em ?est ?N7) = {?N7, ?N9}" using in_cone.target by blast
  moreover have entry: "entry_of E signer ?est ?N7 e = the_gap E" if "e \<in> ?into (key ''N7'')" "ce_premise_keys e = [key ''N9'']" for e
    using that blocks(1) concluding_N7
    by (auto simp: entry_of_def the_gap_def deriving_def list_all_iff)
  have "entry_of E signer ?est ?N7 ` {e \<in> ?into (key ''N7''). ce_premise_keys e = [key ''N9'']} = {the_gap E}"
    (is "_ ` ?S = _")
  proof -
    have "entry_of E signer ?est ?N7 ` ?S = (\<lambda>e. the_gap E) ` ?S" by (rule image_cong) (simp_all add: entry)
    then show ?thesis using image_constant [of e9 ?S "the_gap E"] e9 by simp
  qed
  then have "cone_entries ?R ?em ?est ?N7 = {the_gap E}"
    using expand7(2) e9(1) unfolding blocked by blast
  moreover have "cone_entries ?R ?em ?est ?N9 = {}" unfolding expand9(2) [OF into9] by (simp add: blocks(2))
  ultimately show ?thesis by (simp add: searched_def Let_def)
qed

section \<open>The exit criteria\<close>

lemma held_seeded:
  assumes "corpus_world E P signer" and "holds E signer (set CORPUS_EDGES) s"
  obtains des where "derivation_edges E (sqlite_reader E s) None = Inr des" and "seeded_by E signer des"
proof (rule held_derivations [OF assms])
  fix des
  assume "derivation_edges E (sqlite_reader E s) None = Inr des"
    and "set des = (\<lambda>e. (record_hash E signer e, record_of E signer e)) ` deriving"
  then show thesis using that corpus_worldD [OF assms(1)] by (simp add: seeded_by_def)
qed

lemma named_node_id: "k \<in> set corpus_keys \<Longrightarrow> and_then (node_named k) (node_id E) = Inr (key_hash E k)"
  using named_key [of k] by (auto simp: node_id_eq key_hash_def named_def)

lemma held_exit_criteria:
  assumes "corpus_world E P signer" and "holds E signer (set CORPUS_EDGES) s"
  shows "\<exists>qa ci qb. exit_criteria E s = Inr (qa, ci, qb) \<and>
    rr_established qa \<and> rr_kappa qa = Some K1 \<and> rr_depth qa = Some 1 \<and>
    \<not> rr_established ci \<and> rr_kappa ci = Some K0 \<and>
    \<not> pr_reachable qb \<and> pr_kappa qb = Some K0 \<and> set (pr_missing_edges qb) = {the_gap E}"
proof -
  let ?R = "sqlite_reader E s" and ?N5 = "key_hash E (key ''N5'')" and ?N7 = "key_hash E (key ''N7'')"
  obtain des where des: "derivation_edges E ?R None = Inr des" and sd: "seeded_by E signer des"
    by (rule held_seeded [OF assms])
  note N5 = N5_derivable [OF sd] and N7 = seeded_axiom(1) [OF sd corpus_has(5)] and wall = wall [OF sd]
  have kappa: "map_of (fs_kappa (fixpoint des [])) ?N5 = Some K1" "map_of (fs_kappa (fixpoint des [])) ?N7 = Some K0"
    using N5(1,2) N7 wall by (auto simp: kappa_fixpoint_iff)
  have depth: "map_of (fs_depth (fixpoint des [])) ?N5 = Some 1" using N5(3,4) by (simp add: depth_fixpoint_iff)
  obtain d where ci: "reachable_from des ?N7 K1 [] =
      Inr \<lparr> rr_target = ?N7, rr_established = (rank K1 \<le> rank K0), rr_kappa = Some K0, rr_depth = Some d,
            rr_proof_tree_edges = collect_proof_tree ?N7 (fs_best (fixpoint des [])) (dict_of des) \<rparr>"
    using reachable_from_Some [OF kappa(2)] by blast
  have qa: "reachable_from des ?N5 K0 [] =
      Inr \<lparr> rr_target = ?N5, rr_established = (rank K0 \<le> rank K1), rr_kappa = Some K1, rr_depth = Some 1,
            rr_proof_tree_edges = collect_proof_tree ?N5 (fs_best (fixpoint des [])) (dict_of des) \<rparr>"
    using reachable_from_Some [OF kappa(1), of K0] depth by (metis option.inject)
  have "\<not> K1 \<le> k" if "k \<le> K0" for k using that by (cases k) (simp_all add: less_eq_Kappa_def)
  then have weak: "\<not> strong_enough des K1 ?N7" using wall by (auto simp: strong_enough_def)
  obtain res where res: "set res = searched ?R des K1 ?N7" "path_discovery E ?R ?N7 K1 =
      Inr \<lparr> pr_target = ?N7, pr_reachable = False, pr_depth = map_of (fs_depth (fixpoint des [])) ?N7,
            pr_kappa = Some K0, pr_missing_edges = res \<rparr>"
    using path_discovery_unreachable [OF des weak] held_incoming(2) [OF assms] kappa(2) by metis
  have "key ''N5'' \<in> set corpus_keys" "key ''N7'' \<in> set corpus_keys" using query_keys by blast+
  then show ?thesis
    using qa ci res seeded_frontier [OF assms sd]
    by (simp add: exit_criteria_def named_node_id reachable_eq [OF des])
qed

text \<open>C19: what the seeded graph answers to the exit criteria: the negative result about the phaser (\<open>N5\<close>) is
  established, with the strength of a citation and at depth one; the Riemann hypothesis (\<open>N7\<close>) is not established
  at that strength but held at the strength of an analogy; and exactly one edge is missing for it, the
  Hilbert-Polya operator, blocked on \<open>N9\<close>.\<close>

theorem seeded_exit_criteria:
  assumes "corpus_world E P signer" and "storage_ok E s" and "blobs_of s = {}"
    and "connectivity (committed (st_conn s)) = Map.empty"
  shows "\<exists>s' rows qa ci qb. seed_corpus E P now_at s signer = Some (s', Inr rows) \<and>
    exit_criteria E s' = Inr (qa, ci, qb) \<and>
    rr_established qa \<and> rr_kappa qa = Some K1 \<and> rr_depth qa = Some 1 \<and>
    \<not> rr_established ci \<and> rr_kappa ci = Some K0 \<and>
    \<not> pr_reachable qb \<and> pr_kappa qb = Some K0 \<and>
    set (pr_missing_edges qb) =
      {\<lparr> me_conclusion = key_hash E (str ''N7''), me_premises = [key_hash E (str ''N9'')],
         me_blocking_nodes = [key_hash E (str ''N9'')], me_rule = str ''Hilbert-Polya operator'' \<rparr>}"
proof -
  obtain s' where run: "seed_corpus E P now_at s signer =
      Some (s', Inr (map (\<lambda>e. row_of e (Some (ce_expected_kappa e)) (str ''MATCH'')) CORPUS_EDGES))"
    and h: "holds E signer (set CORPUS_EDGES) s'" by (rule seed_corpus_fresh [OF assms])
  from held_exit_criteria [OF assms(1) h, unfolded the_gap_def] show ?thesis
    by (elim exE) (intro exI, rule conjI [OF run], assumption)
qed

lemma sample_unconnected: "connectivity (committed (st_conn sample_storage)) = Map.empty"
  by (simp add: fun_eq_iff connectivity_def connect_def open_db_def empty_db_def)

theorem seeded_exit_criteria_witness:
  "\<exists>s' rows qa ci qb. seed_corpus seed_env quoted_provers int sample_storage sample_key = Some (s', Inr rows) \<and>
    exit_criteria seed_env s' = Inr (qa, ci, qb) \<and>
    rr_established qa \<and> rr_kappa qa = Some K1 \<and> rr_depth qa = Some 1 \<and>
    \<not> rr_established ci \<and> rr_kappa ci = Some K0 \<and>
    \<not> pr_reachable qb \<and> pr_kappa qb = Some K0 \<and>
    set (pr_missing_edges qb) =
      {\<lparr> me_conclusion = key_hash seed_env (str ''N7''), me_premises = [key_hash seed_env (str ''N9'')],
         me_blocking_nodes = [key_hash seed_env (str ''N9'')], me_rule = str ''Hilbert-Polya operator'' \<rparr>}"
  by (rule seeded_exit_criteria [OF seed_world storage_ok_seed sample_empty(1) sample_unconnected])

section \<open>Attestation\<close>

lemma held_attested:
  assumes "corpus_world E P signer" and "holds E signer (set CORPUS_EDGES) s" and "e \<in> set CORPUS_EDGES"
    and "identify R signer = Some name"
  shows "attest_row E P s R signer e = Some (Inr (ce_key e, True, Some name))"
proof -
  note w = corpus_worldD [OF assms(1)] and h = holdsD [OF assms(2)]
  let ?h = "hash_bytes E (record_blob E signer e)"
  have log: "log_ok E (view (st_conn s))" using h(2) by (simp add: storage_ok_view) (simp add: storage_ok_def)
  have "?h \<in> fst ` set (t_edges (committed (st_conn s)))"
  proof -
    have "connectivity (committed (st_conn s)) ?h \<noteq> None" using h(6) assms(3) by blast
    then have "map_of (t_edges (committed (st_conn s))) ?h \<noteq> None" by (simp add: connectivity_def)
    then show ?thesis by (simp add: map_of_eq_None_iff)
  qed
  then have "edge_backed s ?h" using h(2) by (auto simp: storage_ok_def list_all_iff)
  then obtain r where r: "r \<in> set (t_log (view (st_conn s)))" "le_entry_hash r = ?h"
    by (auto simp: edge_backed_def storage_ok_view [OF h(2)])
  obtain r' where "find_log_entry (sqlite_reader E s) ?h = Inr (Some r')" "verify_entry E r' = Inr True"
    using find_log_entry_ok [OF w(1) log r(1)] r(2) by auto
  from verify_edge_attestation_total [OF this, of R] obtain a where
    a: "verify_edge_attestation E (record_of E signer e) (sqlite_reader E s) R = Inr a" "at_signature_valid a"
      "at_signer_agent_id a = identify R signer"
      "at_proof_bound a \<and> at_proof_intact a \<longleftrightarrow> proof_found E s (record_of E signer e)"
    by (auto simp: record_of_def)
  have "attestation_ok a" using a assms(4) by (simp add: attestation_ok_def proof_found_def record_of_def)
  then show ?thesis
    using a(1,3) assms(4) by (simp add: attest_row_def corpus_build_edge_record [OF assms(3) w(4)])
qed

lemma held_all_attested:
  assumes "corpus_world E P signer" and "holds E signer (set CORPUS_EDGES) s" and "identify R signer = Some name"
  shows "verify_seed_attestation E P s R signer = Some (Inr (map (\<lambda>e. (ce_key e, True, Some name)) CORPUS_EDGES))"
proof -
  have "set es \<subseteq> set CORPUS_EDGES \<Longrightarrow>
      attest_rows E P s R signer es = Some (Inr (map (\<lambda>e. (ce_key e, True, Some name)) es))" for es
    by (induction es) (simp_all add: held_attested [OF assms(1,2) _ assms(3)] on_return_def)
  then show ?thesis by (simp add: verify_seed_attestation_def)
qed

section \<open>The anchor\<close>

lemma anchored:
  assumes "blake3_spec E" and "storage_ok E s"
  obtains a where "anchor E now (sqlite_reader E s) R = Inr a"
    and "an_entry_count a = int (length (t_log (committed (st_conn s))))"
    and "verify_history E (sqlite_reader E s) (an_root_hash a) = Inr True"
proof -
  let ?hs = "map (\<lambda>r. hash_bytes E (le_payload r)) (t_log (committed (st_conn s)))"
  have view: "view (st_conn s) = committed (st_conn s)" by (rule storage_ok_view [OF assms(2)])
  have log: "log_ok E (view (st_conn s))" using assms(2) by (simp add: view) (simp add: storage_ok_def)
  have "anchor E now (sqlite_reader E s) R = Inr \<lparr> an_root_hash = root_hash E ?hs,
      an_entry_count = int (length (t_log (committed (st_conn s)))), an_timestamp_ns = now,
      an_roster_hash = hash_bytes E (roster_blob E R) \<rparr>"
    using entry_hashes_eq [OF assms(1) log] 
    by (simp add: anchor_def log_root_hash_def log_len_def view roster_hash_eq)
  moreover have "verify_history E (sqlite_reader E s) (root_hash E ?hs) = Inr True"
    using verify_history_iff [OF assms(1), of s] log log_ok_seq [OF log] sort_log [OF log]
    by (simp add: view log_ok_def distinct_conv_nth)
  ultimately show ?thesis using that by simp
qed

section \<open>The script on an empty root directory\<close>

definition no_files :: root_files where
  "no_files = \<lparr> rf_keypair = None, rf_server_keypair = None, rf_roster = None, rf_anchor = None \<rparr>"

abbreviation match_rows :: "seed_row list" where
  "match_rows \<equiv> map (\<lambda>e. row_of e (Some (ce_expected_kappa e)) (str ''MATCH'')) CORPUS_EDGES"

lemma anchor_bytes_eq: "anchor_bytes E a = Inr (cbor_dumps E (anchor_to_canonical a))"
  by (simp add: anchor_bytes_def canonical_encode_def anchor_to_canonical_def dict_of_items_distinct)

lemma seeded_body:
  assumes "corpus_world E P pub" and "storage_ok E s0" and "autocommit (st_conn s0)"
    and "t_log (committed (st_conn s0)) = []" and "blobs_of s0 = {}"
    and "connectivity (committed (st_conn s0)) = Map.empty" and "identify R pub = Some name"
  shows "\<exists>s rep ab r rs. seed_body E P now now_at later R pub files s0 =
      Some (files\<lparr>rf_roster := Some (roster_blob E R), rf_anchor := Some ab\<rparr>, s, Inr rep) \<and>
    rp_rows rep = match_rows \<and> exit_criteria E s = Inr (rp_queries rep) \<and>
    rp_attested rep = map (\<lambda>e. (ce_key e, True, Some name)) CORPUS_EDGES \<and>
    Inr ab = anchor_bytes E (rp_anchor rep) \<and> an_entry_count (rp_anchor rep) = 59 \<and>
    verify_history E (sqlite_reader E s) (an_root_hash (rp_anchor rep)) = Inr True \<and>
    t_log (committed (st_conn s)) = r # rs \<and> le_payload r = roster_blob E R"
proof -
  note w = corpus_worldD [OF assms(1)]
  obtain s1 r where roster: "commit_roster E now R s0 = (s1, Inr (Some r))" and ok: "storage_ok E s1"
    and com: "committed (st_conn s1) = ins_log r (committed (st_conn s0))" and objs: "st_objects s1 = st_objects s0"
    and pay: "le_payload r = roster_blob E R" "le_entry_hash r = hash_bytes E (roster_blob E R)"
    by (rule commit_roster_first [OF w(1,2) assms(2-4)])
  have "blobs_of s1 = {}" using assms(5) by (simp add: blobs_of_def objs)
  moreover have "connectivity (committed (st_conn s1)) = Map.empty"
    using assms(6) by (simp add: com)
  ultimately obtain s rs where seeded: "seed_corpus E P now_at s1 pub = Some (s, Inr match_rows)"
    and h: "holds E pub (set CORPUS_EDGES) s" and pays: "map le_payload rs = map (record_blob E pub) CORPUS_EDGES"
    and log: "t_log (committed (st_conn s)) = t_log (committed (st_conn s1)) @ rs"
    by (rule seed_corpus_fresh [OF assms(1) ok])
  obtain q where q: "exit_criteria E s = Inr q" using held_exit_criteria [OF assms(1) h] by blast
  note att = held_all_attested [OF assms(1) h assms(7)]
  obtain a where a: "anchor E later (sqlite_reader E s) R = Inr a"
    "an_entry_count a = int (length (t_log (committed (st_conn s))))"
    "verify_history E (sqlite_reader E s) (an_root_hash a) = Inr True"
    by (rule anchored [OF w(1) holdsD(2) [OF h]])
  have "length rs = 58" using arg_cong [OF pays, of length] by (simp add: corpus_sizes)
  then have count: "an_entry_count a = 59" by (simp add: a(2) log com ins_log_rows assms(4))
  obtain ab where ab: "anchor_bytes E a = Inr ab" using anchor_bytes_eq by blast
  have "seed_body E P now now_at later R pub files s0 =
      Some (files\<lparr>rf_roster := Some (roster_blob E R), rf_anchor := Some ab\<rparr>, s,
        Inr \<lparr> rp_rows = match_rows, rp_queries = q,
          rp_attested = map (\<lambda>e. (ce_key e, True, Some name)) CORPUS_EDGES, rp_anchor = a \<rparr>)"
    by (simp add: seed_body_def roster seeded q att persist_anchor_def a(1) roster_bytes_eq ab)
  then show ?thesis using q a(3) count ab pay(1) log com by (simp add: ins_log_rows assms(4))
qed

lemma fresh_storage:
  assumes "length priv = 32"
  shows "storage_ok E (open_storage empty_store None priv (ed_public E priv))"
    and "blobs_of (open_storage empty_store None priv pub) = {}"
    and "t_log (committed (st_conn (open_storage empty_store None priv pub))) = []"
    and "autocommit (st_conn (open_storage empty_store None priv pub))"
    and "connectivity (committed (st_conn (open_storage empty_store None priv pub))) = Map.empty"
proof -
  show "storage_ok E (open_storage empty_store None priv (ed_public E priv))"
    using assms by (simp add: storage_ok_def open_storage_def connect_def open_db_def) (simp add: empty_db_def)
qed (simp_all add: open_storage_def blobs_of_def connect_def open_db_def empty_db_def connectivity_def fun_eq_iff)

lemma keypair_reloaded:
  assumes "length priv = 32" and "length pub = 32"
  shows "load_or_create_keypair E rnd (Some (priv @ pub)) = ((priv, pub), priv @ pub)"
  using assms by (simp add: load_or_create_keypair_def KEYPAIR_SIZE_def)

text \<open>C12: the seed script on an empty root directory runs to the end: every corpus edge is stored with the strength
  it declares and attested as Skye's, the roster file is the payload of the first log entry, the anchor file is
  the anchor of the 59 entries and the whole history verifies against its root, and the stored key pair is
  what the next run loads.\<close>

theorem seed_main_on_empty_root:
  assumes "corpus_world E P (ed_public E rnd)" and "length rnd = 32" and "length server_rnd = 32"
  shows "\<exists>files s rep r rs ab. seed_main E P rnd server_rnd now now_at later no_files empty_store None =
      Some (files, s, Inr rep) \<and>
    rp_rows rep = map (\<lambda>e. row_of e (Some (ce_expected_kappa e)) (str ''MATCH'')) CORPUS_EDGES \<and>
    exit_criteria E s = Inr (rp_queries rep) \<and>
    rp_attested rep = map (\<lambda>e. (ce_key e, True, Some (str ''Skye''))) CORPUS_EDGES \<and>
    t_log (committed (st_conn s)) = r # rs \<and> rf_roster files = Some (le_payload r) \<and>
    rf_anchor files = Some ab \<and> anchor_bytes E (rp_anchor rep) = Inr ab \<and>
    an_entry_count (rp_anchor rep) = 59 \<and>
    verify_history E (sqlite_reader E s) (an_root_hash (rp_anchor rep)) = Inr True \<and>
    (\<forall>rnd'. load_or_create_keypair E rnd' (rf_keypair files) = ((rnd, ed_public E rnd), rnd @ ed_public E rnd))"
proof -
  let ?pub = "ed_public E rnd" and ?server = "ed_public E server_rnd"
  let ?R = "\<lparr> ro_entries = [(str ''Skye'', ?pub), (SERVER_AGENT, ?server)] \<rparr>"
  let ?files = "no_files\<lparr>rf_keypair := Some (rnd @ ?pub), rf_server_keypair := Some (server_rnd @ ?server)\<rparr>"
  let ?s0 = "open_storage empty_store None rnd ?pub"
  have keys: "length ?pub = 32" "length ?server = 32"
    using ed25519_specD(1) [OF corpus_worldD(2) [OF assms(1)]] assms(2,3) by simp_all
  have roster: "make_roster [(PStr (str ''Skye''), PBytes ?pub), (PStr SERVER_AGENT, PBytes ?server)] = Inr ?R"
    using keys by (simp add: make_roster_Inr SERVER_AGENT_def str_Cons)
  have skye: "identify ?R ?pub = Some (str ''Skye'')" by (simp add: identify_def)
  have start: "seed_main E P rnd server_rnd now now_at later no_files empty_store None =
      seed_body E P now now_at later ?R ?pub ?files ?s0"
    by (simp add: seed_main_def load_or_create_keypair_def generate_keypair_def no_files_def roster)
  note fresh = fresh_storage [OF assms(2)]
  from seeded_body [OF assms(1) fresh(1,4,3,2,5) skye] obtain s rep ab r rs where
    run: "seed_body E P now now_at later ?R ?pub ?files ?s0 =
      Some (?files\<lparr>rf_roster := Some (roster_blob E ?R), rf_anchor := Some ab\<rparr>, s, Inr rep)"
    and rep: "rp_rows rep = match_rows" "exit_criteria E s = Inr (rp_queries rep)"
      "rp_attested rep = map (\<lambda>e. (ce_key e, True, Some (str ''Skye''))) CORPUS_EDGES"
      "Inr ab = anchor_bytes E (rp_anchor rep)" "an_entry_count (rp_anchor rep) = 59"
      "verify_history E (sqlite_reader E s) (an_root_hash (rp_anchor rep)) = Inr True"
    and log: "t_log (committed (st_conn s)) = r # rs" "le_payload r = roster_blob E ?R" by blast
  show ?thesis
    by (intro exI conjI, rule trans [OF start run])
      (simp_all add: rep log(1) keypair_reloaded [OF assms(2) keys(1)] flip: rep(4) log(2))
qed

theorem seed_main_on_empty_root_witness:
  "\<exists>files s rep r rs ab. seed_main seed_env quoted_provers sample_key (replicate 32 8) 1 int 99 no_files empty_store
      None = Some (files, s, Inr rep) \<and>
    rp_rows rep = map (\<lambda>e. row_of e (Some (ce_expected_kappa e)) (str ''MATCH'')) CORPUS_EDGES \<and>
    exit_criteria seed_env s = Inr (rp_queries rep) \<and>
    rp_attested rep = map (\<lambda>e. (ce_key e, True, Some (str ''Skye''))) CORPUS_EDGES \<and>
    t_log (committed (st_conn s)) = r # rs \<and> rf_roster files = Some (le_payload r) \<and>
    rf_anchor files = Some ab \<and> anchor_bytes seed_env (rp_anchor rep) = Inr ab \<and>
    an_entry_count (rp_anchor rep) = 59 \<and>
    verify_history seed_env (sqlite_reader seed_env s) (an_root_hash (rp_anchor rep)) = Inr True \<and>
    (\<forall>rnd'. load_or_create_keypair seed_env rnd' (rf_keypair files) =
      ((sample_key, ed_public seed_env sample_key), sample_key @ ed_public seed_env sample_key))"
  by (rule seed_main_on_empty_root) (use seed_world in \<open>simp_all add: sample_key_def\<close>)

end
