(* ===== verification/Json.thy ===== *)
theory Json
  imports Spectral Dicts
begin

text \<open>
  What the HTTP layer uses of Python's \<open>json\<close>: the value type, \<open>json.dumps\<close> with its defaults
  (\<open>ensure_ascii\<close>, separators \<open>", "\<close> and \<open>": "\<close>), \<open>json.loads\<close> with its errors, and UTF-8 decoding.
  The text form of a float is a parameter, the record \<open>floats\<close>. Reading back what was printed gives the
  value (\<open>json_loads_dumps\<close>), and the fuel of the reader, twice the length of the text, is enough
  (\<open>json_loads_no_fuel\<close>).
\<close>

section \<open>Values\<close>

text \<open>A float is its IEEE bit pattern; an object lists its members in insertion order.\<close>

datatype json =
    JNull
  | JBool bool
  | JInt int
  | JFloat "64 word"
  | JStr pystr
  | JList "json list"
  | JObj "(pystr \<times> json) list"

text \<open>
  \<open>float.__repr__\<close> of a finite float, \<open>float\<close> of a text and of an integer (\<open>None\<close> where Python raises),
  and the budget in milliseconds with its text that a float is when it is used as a timeout (\<open>None\<close> where
  it is not finite).
\<close>

record floats =
  fl_repr :: "64 word \<Rightarrow> pystr"
  fl_of_text :: "pystr \<Rightarrow> 64 word option"
  fl_of_int :: "int \<Rightarrow> 64 word option"
  fl_budget :: "64 word \<Rightarrow> timeout option"

definition JSONDecodeError :: py_error where
  "JSONDecodeError = OtherError (str ''JSONDecodeError'')"

definition Out_Of_Fuel :: py_error where
  "Out_Of_Fuel = OtherError (str ''out of fuel'')"

section \<open>Printing\<close>

definition int_text :: "int \<Rightarrow> pystr" where
  "int_text i = (if i < 0 then 45 # nat_text (nat (- i)) else nat_text (nat i))"

definition u_escape :: "nat \<Rightarrow> pystr" where
  "u_escape c = [92, 117] @ hex_digits 4 c"

text \<open>One character inside a printed string; above the basic plane a pair of surrogates.\<close>

definition json_char :: "nat \<Rightarrow> pystr" where
  "json_char c =
     (if c = 34 \<or> c = 92 then [92, c]
      else if 32 \<le> c \<and> c \<le> 126 then [c]
      else if c = 10 then [92, 110] else if c = 13 then [92, 114] else if c = 9 then [92, 116]
      else if c = 12 then [92, 102] else if c = 8 then [92, 98]
      else if c < 65536 then u_escape c
      else u_escape (55296 + (c - 65536) div 1024) @ u_escape (56320 + (c - 65536) mod 1024))"

definition json_quote :: "pystr \<Rightarrow> pystr" where
  "json_quote s = [34] @ concat (map json_char s) @ [34]"

text \<open>Exponent and fraction fields of a float.\<close>

definition not_finite :: "64 word \<Rightarrow> bool" where
  "not_finite x \<longleftrightarrow> (unat x div 2 ^ 52) mod 2 ^ 11 = 2047"

definition float_json :: "floats \<Rightarrow> 64 word \<Rightarrow> pystr" where
  "float_json F x =
     (if not_finite x
      then (if unat x mod 2 ^ 52 \<noteq> 0 then str ''NaN''
            else if unat x div 2 ^ 63 = 1 then str ''-Infinity'' else str ''Infinity'')
      else fl_repr F x)"

lemma size_member: "(k, v) \<in> set d \<Longrightarrow> size v < size_list (size_prod (\<lambda>_. 0) size) d"
  by (induction d) auto

function json_dumps :: "floats \<Rightarrow> json \<Rightarrow> pystr" where
  "json_dumps F JNull = str ''null''"
| "json_dumps F (JBool b) = (if b then str ''true'' else str ''false'')"
| "json_dumps F (JInt i) = int_text i"
| "json_dumps F (JFloat x) = float_json F x"
| "json_dumps F (JStr s) = json_quote s"
| "json_dumps F (JList xs) = [91] @ join (str '', '') (map (json_dumps F) xs) @ [93]"
| "json_dumps F (JObj d) =
     [123] @ join (str '', '') (map (\<lambda>(k, v). json_quote k @ str '': '' @ json_dumps F v) d) @ [125]"
  by pat_completeness auto
termination
  by (relation "measure (\<lambda>(F, v). size v)")
    (auto simp: less_Suc_eq_le size_list_estimation' dest: size_member less_imp_le)

section \<open>Reading\<close>

definition json_space :: "nat \<Rightarrow> bool" where
  "json_space c \<longleftrightarrow> c = 32 \<or> c = 9 \<or> c = 10 \<or> c = 13"

definition skip :: "pystr \<Rightarrow> pystr" where
  "skip s = dropWhile json_space s"

definition next_is :: "nat \<Rightarrow> pystr \<Rightarrow> bool" where
  "next_is c s \<longleftrightarrow> s \<noteq> [] \<and> hd s = c"

text \<open>The rest of a text behind a prefix.\<close>

fun after :: "pystr \<Rightarrow> pystr \<Rightarrow> pystr option" where
  "after [] s = Some s"
| "after (p # ps) [] = None"
| "after (p # ps) (c # s) = (if p = c then after ps s else None)"

text \<open>Four hexadecimal digits.\<close>

fun hex4 :: "pystr \<Rightarrow> (nat \<times> pystr) option" where
  "hex4 (a # b # c # d # r) =
     (case (hex_val a, hex_val b, hex_val c, hex_val d) of
        (Some w, Some x, Some y, Some z) \<Rightarrow> Some (((w * 16 + x) * 16 + y) * 16 + z, r)
      | _ \<Rightarrow> None)"
| "hex4 _ = None"

definition high_surrogate :: "nat \<Rightarrow> bool" where
  "high_surrogate c \<longleftrightarrow> 55296 \<le> c \<and> c \<le> 56319"

definition low_surrogate :: "nat \<Rightarrow> bool" where
  "low_surrogate c \<longleftrightarrow> 56320 \<le> c \<and> c \<le> 57343"

text \<open>
  The code point behind \<open>\u\<close>: two escapes that are a pair of surrogates are one character; a surrogate
  alone stands for itself.
\<close>

definition scan_unicode :: "pystr \<Rightarrow> (nat \<times> pystr) option" where
  "scan_unicode s =
     (case hex4 s of
        None \<Rightarrow> None
      | Some (u, r) \<Rightarrow>
          (case Option.bind (if high_surrogate u then after [92, 117] r else None) hex4 of
             Some (l, r') \<Rightarrow>
               if low_surrogate l then Some (65536 + (u - 55296) * 1024 + (l - 56320), r') else Some (u, r)
           | None \<Rightarrow> Some (u, r)))"

definition simple_escape :: "nat \<Rightarrow> nat option" where
  "simple_escape c =
     (if c = 34 \<or> c = 92 \<or> c = 47 then Some c else if c = 98 then Some 8 else if c = 102 then Some 12
      else if c = 110 then Some 10 else if c = 114 then Some 13 else if c = 116 then Some 9 else None)"

lemma after_length: "after p s = Some r \<Longrightarrow> length r + length p = length s"
  by (induction p s rule: after.induct) (auto split: if_splits)

lemma hex4_length: "hex4 s = Some (u, r) \<Longrightarrow> length r < length s"
  by (cases s rule: hex4.cases) (auto split: option.splits)

lemma scan_unicode_length: "scan_unicode s = Some (u, r) \<Longrightarrow> length r < length s"
  by (auto simp: scan_unicode_def bind_eq_Some_conv dest!: hex4_length after_length split: option.splits if_splits)

text \<open>The characters of a string up to its closing quote, and the text behind the quote.\<close>

function scan_string :: "pystr \<Rightarrow> (pystr \<times> pystr) option" where
  "scan_string [] = None"
| "scan_string (c # r) =
     (if c = 34 then Some ([], r)
      else if c = 92 then
        (case r of
           [] \<Rightarrow> None
         | e # r1 \<Rightarrow>
             if e = 117 then
               (case scan_unicode r1 of
                  None \<Rightarrow> None
                | Some (u, r2) \<Rightarrow> map_option (apfst (Cons u)) (scan_string r2))
             else
               (case simple_escape e of
                  None \<Rightarrow> None
                | Some u \<Rightarrow> map_option (apfst (Cons u)) (scan_string r1)))
      else if c < 32 then None
      else map_option (apfst (Cons c)) (scan_string r))"
  by pat_completeness auto
termination
  by (relation "measure length") (auto dest!: scan_unicode_length)

declare scan_string.simps(2) [simp del]

section \<open>Numbers\<close>

definition is_digit :: "nat \<Rightarrow> bool" where
  "is_digit c \<longleftrightarrow> 48 \<le> c \<and> c \<le> 57"

definition digits_value :: "pystr \<Rightarrow> nat" where
  "digits_value ds = foldl (\<lambda>n d. 10 * n + (d - 48)) 0 ds"

text \<open>Sign, integer part, fraction and exponent: each is the text it takes and the rest.\<close>

definition scan_sign :: "pystr \<Rightarrow> pystr \<times> pystr" where
  "scan_sign s = (if next_is 45 s then ([45], tl s) else ([], s))"

definition scan_whole :: "pystr \<Rightarrow> pystr \<times> pystr" where
  "scan_whole s =
     (if next_is 48 s then ([48], tl s) else (takeWhile is_digit s, dropWhile is_digit s))"

definition scan_fraction :: "pystr \<Rightarrow> pystr \<times> pystr" where
  "scan_fraction s =
     (if next_is 46 s \<and> takeWhile is_digit (tl s) \<noteq> []
      then (46 # takeWhile is_digit (tl s), dropWhile is_digit (tl s)) else ([], s))"

definition scan_exponent :: "pystr \<Rightarrow> pystr \<times> pystr" where
  "scan_exponent s =
     (if next_is 101 s \<or> next_is 69 s
      then let sg = (if next_is 43 (tl s) \<or> next_is 45 (tl s) then [hd (tl s)] else []);
               r = drop (length sg) (tl s)
           in if takeWhile is_digit r \<noteq> []
              then (hd s # sg @ takeWhile is_digit r, dropWhile is_digit r) else ([], s)
      else ([], s))"

text \<open>\<open>int\<close> refuses more than 4300 digits.\<close>

definition scan_number :: "floats \<Rightarrow> pystr \<Rightarrow> (json \<times> pystr) res" where
  "scan_number F s =
     (let (sg, s1) = scan_sign s; (whole, s2) = scan_whole s1;
          (fraction, s3) = scan_fraction s2; (exponent, s4) = scan_exponent s3
      in if whole = [] then Inl JSONDecodeError
         else if fraction = [] \<and> exponent = []
         then (if length whole > 4300 then Inl ValueError
               else Inr (JInt ((if sg = [] then 1 else - 1) * int (digits_value whole)), s4))
         else (case fl_of_text F (sg @ whole @ fraction @ exponent) of
                 None \<Rightarrow> Inl ValueError | Some x \<Rightarrow> Inr (JFloat x, s4)))"

section \<open>Values\<close>

definition nan_bits :: "64 word" where "nan_bits = 0x7FF8000000000000"
definition inf_bits :: "64 word" where "inf_bits = 0x7FF0000000000000"
definition neg_inf_bits :: "64 word" where "neg_inf_bits = 0xFFF0000000000000"

definition constants :: "(pystr \<times> json) list" where
  "constants =
     [(str ''null'', JNull), (str ''true'', JBool True), (str ''false'', JBool False),
      (str ''NaN'', JFloat nan_bits), (str ''Infinity'', JFloat inf_bits),
      (str ''-Infinity'', JFloat neg_inf_bits)]"

fun scan_constant :: "(pystr \<times> json) list \<Rightarrow> pystr \<Rightarrow> (json \<times> pystr) option" where
  "scan_constant [] s = None"
| "scan_constant ((p, v) # cs) s =
     (case after p s of Some r \<Rightarrow> Some (v, r) | None \<Rightarrow> scan_constant cs s)"

fun scan_value :: "floats \<Rightarrow> nat \<Rightarrow> pystr \<Rightarrow> (json \<times> pystr) res"
  and scan_items :: "floats \<Rightarrow> nat \<Rightarrow> pystr \<Rightarrow> (json list \<times> pystr) res"
  and scan_members :: "floats \<Rightarrow> nat \<Rightarrow> pystr \<Rightarrow> ((pystr \<times> json) list \<times> pystr) res" where
  "scan_value F 0 s = Inl Out_Of_Fuel"
| "scan_value F (Suc n) s =
     (if next_is 34 s then
        (case scan_string (tl s) of None \<Rightarrow> Inl JSONDecodeError | Some (t, r) \<Rightarrow> Inr (JStr t, r))
      else if next_is 123 s then
        (if next_is 125 (skip (tl s)) then Inr (JObj [], tl (skip (tl s)))
         else and_then (scan_members F n (skip (tl s))) (\<lambda>(ms, r). Inr (JObj (dict_of ms), r)))
      else if next_is 91 s then
        (if next_is 93 (skip (tl s)) then Inr (JList [], tl (skip (tl s)))
         else and_then (scan_items F n (skip (tl s))) (\<lambda>(xs, r). Inr (JList xs, r)))
      else (case scan_constant constants s of Some vr \<Rightarrow> Inr vr | None \<Rightarrow> scan_number F s))"
| "scan_items F 0 s = Inl Out_Of_Fuel"
| "scan_items F (Suc n) s =
     and_then (scan_value F n s) (\<lambda>(v, r).
       if next_is 93 (skip r) then Inr ([v], tl (skip r))
       else if next_is 44 (skip r)
       then and_then (scan_items F n (skip (tl (skip r)))) (\<lambda>(vs, r'). Inr (v # vs, r'))
       else Inl JSONDecodeError)"
| "scan_members F 0 s = Inl Out_Of_Fuel"
| "scan_members F (Suc n) s =
     (if \<not> next_is 34 s then Inl JSONDecodeError
      else (case scan_string (tl s) of
        None \<Rightarrow> Inl JSONDecodeError
      | Some (k, r) \<Rightarrow>
          if \<not> next_is 58 (skip r) then Inl JSONDecodeError
          else and_then (scan_value F n (skip (tl (skip r)))) (\<lambda>(v, r1).
            if next_is 125 (skip r1) then Inr ([(k, v)], tl (skip r1))
            else if next_is 44 (skip r1)
            then and_then (scan_members F n (skip (tl (skip r1)))) (\<lambda>(ms, r2). Inr ((k, v) # ms, r2))
            else Inl JSONDecodeError)))"

definition json_loads :: "floats \<Rightarrow> pystr \<Rightarrow> json res" where
  "json_loads F s =
     (if next_is 65279 s then Inl JSONDecodeError
      else and_then (scan_value F (Suc (2 * length s)) (skip s)) (\<lambda>(v, r).
        if skip r = [] then Inr v else Inl JSONDecodeError))"

section \<open>UTF-8\<close>

definition continuation :: "nat \<Rightarrow> bool" where
  "continuation b \<longleftrightarrow> 128 \<le> b \<and> b < 192"

text \<open>\<open>bytes.decode("utf-8")\<close>: overlong forms, surrogates and code points beyond the last are refused.\<close>

fun utf8 :: "nat list \<Rightarrow> pystr option" where
  "utf8 [] = Some []"
| "utf8 (a # r) =
     (if a < 128 then map_option (Cons a) (utf8 r)
      else if a < 194 then None
      else if a < 224 then
        (case r of
           b # r' \<Rightarrow> if continuation b then map_option (Cons ((a - 192) * 64 + (b - 128))) (utf8 r') else None
         | _ \<Rightarrow> None)
      else if a < 240 then
        (case r of
           b # c # r' \<Rightarrow>
             if continuation b \<and> continuation c \<and> (a = 224 \<longrightarrow> 160 \<le> b) \<and> (a = 237 \<longrightarrow> b < 160)
             then map_option (Cons (((a - 224) * 64 + (b - 128)) * 64 + (c - 128))) (utf8 r') else None
         | _ \<Rightarrow> None)
      else if a < 245 then
        (case r of
           b # c # d # r' \<Rightarrow>
             if continuation b \<and> continuation c \<and> continuation d \<and> (a = 240 \<longrightarrow> 144 \<le> b) \<and>
                (a = 244 \<longrightarrow> b < 144)
             then map_option (Cons ((((a - 240) * 64 + (b - 128)) * 64 + (c - 128)) * 64 + (d - 128)))
                    (utf8 r') else None
         | _ \<Rightarrow> None)
      else None)"

definition decode_utf8 :: "bytes \<Rightarrow> pystr res" where
  "decode_utf8 b = (case utf8 (map unat b) of None \<Rightarrow> Inl ValueError | Some s \<Rightarrow> Inr s)"

text \<open>\<open>json.dumps\<close> gives ASCII only, so its UTF-8 form is the text itself.\<close>

definition encode_ascii :: "pystr \<Rightarrow> bytes" where
  "encode_ascii s = map of_nat s"

section \<open>The reader needs no more fuel than it has\<close>

lemma skip_length: "length (skip s) \<le> length s"
  by (simp add: skip_def length_dropWhile_le)

lemma scan_string_cases:
  obtains "c = 34"
  | r1 u r2 where "c = 92" and "r = 117 # r1" and "scan_unicode r1 = Some (u, r2)"
      and "scan_string (c # r) = map_option (apfst (Cons u)) (scan_string r2)"
  | e r1 u where "c = 92" and "r = e # r1" and "e \<noteq> 117" and "simple_escape e = Some u"
      and "scan_string (c # r) = map_option (apfst (Cons u)) (scan_string r1)"
  | "c \<noteq> 34" and "c \<noteq> 92" and "\<not> c < 32" and "scan_string (c # r) = map_option (apfst (Cons c)) (scan_string r)"
  | "scan_string (c # r) = None"
proof -
  note eq = scan_string.simps(2) [of c r]
  consider "c = 34" | "c = 92" | "c \<noteq> 34" "c \<noteq> 92" by blast
  then show thesis
  proof cases
    case 2
    show thesis
    proof (cases r)
      case Nil
      with 2 eq that(5) show thesis by simp
    next
      case (Cons e r1)
      note r = this
      show thesis
      proof (cases "e = 117")
        case True
        show thesis
        proof (cases "scan_unicode r1")
          case None
          with 2 eq r True that(5) show thesis by simp
        next
          case (Some ur)
          with 2 eq r True that(2) [of r1 "fst ur" "snd ur"] show thesis by (cases ur) simp
        qed
      next
        case False
        show thesis
        proof (cases "simple_escape e")
          case None
          with 2 eq r False that(5) show thesis by simp
        next
          case (Some u)
          with 2 eq r False that(3) [of e r1 u] show thesis by simp
        qed
      qed
    qed
  next
    case 3
    with eq that(4,5) show thesis by (cases "c < 32") simp_all
  qed (rule that(1))
qed

lemma scan_string_length: "scan_string s = Some (t, r) \<Longrightarrow> length r < length s"
proof (induction s arbitrary: t rule: length_induct)
  case (1 s)
  show ?case
  proof (cases s)
    case Nil
    with 1(2) show ?thesis by simp
  next
    case (Cons c r0)
    have step: "length r < length s"
      if "scan_string (c # r0) = map_option (apfst (Cons u)) (scan_string r2)" and "length r2 < length s" for u r2
    proof -
      from that(1) 1(2) Cons obtain t' where t': "scan_string r2 = Some (t', r)" by (auto simp: apfst_def map_prod_def)
      with 1(1) that(2) have "length r < length r2" by blast
      with that(2) show ?thesis by simp
    qed
    show ?thesis
    proof (cases rule: scan_string_cases [where c = c and r = r0])
      case 1
      with \<open>scan_string s = Some (t, r)\<close> Cons show ?thesis by (simp add: scan_string.simps(2))
    next
      case (2 r1 u r2)
      with scan_unicode_length [OF 2(3)] step [OF 2(4)] Cons show ?thesis by simp
    next
      case (3 e r1 u)
      with step [OF 3(5)] Cons show ?thesis by simp
    next
      case 4
      with step [OF 4(4)] Cons show ?thesis by simp
    next
      case 5
      with 1(2) Cons show ?thesis by simp
    qed
  qed
qed

lemma next_is_iff: "next_is c s \<longleftrightarrow> (\<exists>r. s = c # r)"
  by (cases s) (auto simp: next_is_def)

lemma scan_constant_length:
  "scan_constant cs s = Some (v, r) \<Longrightarrow> \<forall>(p, v) \<in> set cs. p \<noteq> [] \<Longrightarrow> length r < length s"
proof (induction cs)
  case (Cons pv cs)
  obtain p v' where pv: "pv = (p, v')" by (cases pv)
  show ?case
  proof (cases "after p s")
    case None
    with Cons pv show ?thesis by simp
  next
    case (Some r')
    from after_length [OF this] Cons.prems pv Some show ?thesis by (cases p) auto
  qed
qed simp

lemma digits_split: "length (takeWhile P s) + length (dropWhile P s) = length s"
  by (metis length_append takeWhile_dropWhile_id)

lemma scan_parts_length:
  "scan_sign s = (p, r) \<Longrightarrow> length p + length r = length s"
  "scan_whole s = (p, r) \<Longrightarrow> length p + length r = length s"
  "scan_fraction s = (p, r) \<Longrightarrow> length p + length r = length s"
  "scan_exponent s = (p, r) \<Longrightarrow> length p + length r = length s"
  using digits_split [of is_digit s] digits_split [of is_digit "tl s"]
    digits_split [of is_digit "tl (tl s)"]
  by (auto simp: scan_sign_def scan_whole_def scan_fraction_def scan_exponent_def Let_def next_is_iff
      split: if_splits)

lemma scan_number_length:
  assumes "scan_number F s = Inr (v, r)"
  shows "length r < length s"
proof -
  obtain sg s1 whole s2 fraction s3 exponent s4 where parts: "scan_sign s = (sg, s1)" "scan_whole s1 = (whole, s2)"
    "scan_fraction s2 = (fraction, s3)" "scan_exponent s3 = (exponent, s4)" by (meson surj_pair)
  have "whole \<noteq> []" "r = s4"
    using assms by (auto simp: scan_number_def parts split: if_splits option.splits)
  moreover have "length s = length sg + length whole + length fraction + length exponent + length s4"
    using scan_parts_length(1) [OF parts(1)] scan_parts_length(2) [OF parts(2)]
      scan_parts_length(3) [OF parts(3)] scan_parts_length(4) [OF parts(4)] by simp
  ultimately show ?thesis by simp
qed

lemma constants_nonempty: "\<forall>(p, v) \<in> set constants. p \<noteq> []"
  by (simp add: constants_def)

lemma tl_skip_length: "next_is c (skip s) \<Longrightarrow> length (tl (skip s)) < length s"
  using skip_length [of s] by (auto simp: next_is_iff)

lemma skip_tl_skip_length: "next_is c (skip s) \<Longrightarrow> length (skip (tl (skip s))) < length s"
  using skip_length [of "tl (skip s)"] tl_skip_length [of c s] by simp

lemma scan_lengths:
  "(\<forall>s v r. scan_value F n s = Inr (v, r) \<longrightarrow> length r < length s) \<and>
   (\<forall>s vs r. scan_items F n s = Inr (vs, r) \<longrightarrow> length r < length s) \<and>
   (\<forall>s ms r. scan_members F n s = Inr (ms, r) \<longrightarrow> length r < length s)"
proof (induction n)
  case (Suc n)
  then have IHv: "\<And>s v r. scan_value F n s = Inr (v, r) \<Longrightarrow> length r < length s"
    and IHi: "\<And>s v r. scan_items F n s = Inr (v, r) \<Longrightarrow> length r < length s"
    and IHm: "\<And>s v r. scan_members F n s = Inr (v, r) \<Longrightarrow> length r < length s" by blast+
  have "length r < length s" if "scan_value F (Suc n) s = Inr (v, r)" for s v r
  proof -
    have open_: "length (skip (tl s)) < length s" "length (tl (skip (tl s))) \<le> length s - 1" if "next_is c s" for c
      using that skip_length [of "tl s"] by (auto simp: next_is_iff)
    consider "next_is 34 s" | "\<not> next_is 34 s" "next_is 123 s" | "\<not> next_is 34 s" "\<not> next_is 123 s" "next_is 91 s"
      | "\<not> next_is 34 s" "\<not> next_is 123 s" "\<not> next_is 91 s" by blast
    then show ?thesis
    proof cases
      case 1
      with that show ?thesis
        by (auto simp: next_is_iff dest!: scan_string_length split: option.splits)
    next
      case 2
      with that open_ [OF 2(2)] show ?thesis
        by (fastforce simp: and_then_eq_Inr dest: IHm split: if_splits)
    next
      case 3
      with that open_ [OF 3(3)] show ?thesis
        by (fastforce simp: and_then_eq_Inr dest: IHi split: if_splits)
    next
      case 4
      with that show ?thesis
        using scan_constant_length [OF _ constants_nonempty] scan_number_length
        by (auto split: option.splits)
    qed
  qed
  moreover have "length r < length s" if run: "scan_items F (Suc n) s = Inr (vs, r)" for s vs r
  proof -
    from run obtain v r1 where v: "scan_value F n s = Inr (v, r1)" by (auto simp: and_then_eq_Inr)
    note len = IHv [OF v]
    show ?thesis
    proof (cases "next_is 93 (skip r1)")
      case True
      with run v len tl_skip_length [OF True] show ?thesis by simp
    next
      case False
      with run v have comma: "next_is 44 (skip r1)" by (auto split: if_splits)
      with run v False obtain vs' where "scan_items F n (skip (tl (skip r1))) = Inr (vs', r)"
        by (auto simp: and_then_eq_Inr)
      from IHi [OF this] skip_tl_skip_length [OF comma] len show ?thesis by simp
    qed
  qed
  moreover have "length r < length s" if run: "scan_members F (Suc n) s = Inr (ms, r)" for s ms r
  proof -
    from run have quote: "next_is 34 s" by (auto split: if_splits)
    from run quote obtain k r0 where k: "scan_string (tl s) = Some (k, r0)" by (auto split: option.splits)
    with quote have r0: "length r0 < length s" by (auto simp: next_is_iff dest: scan_string_length)
    from run quote k have colon: "next_is 58 (skip r0)" by (auto split: if_splits)
    from run quote k colon obtain v r1 where v: "scan_value F n (skip (tl (skip r0))) = Inr (v, r1)"
      by (auto simp: and_then_eq_Inr)
    have len: "length r1 < length s" using IHv [OF v] skip_tl_skip_length [OF colon] r0 by simp
    show ?thesis
    proof (cases "next_is 125 (skip r1)")
      case True
      with run quote k colon v len tl_skip_length [OF True] show ?thesis by simp
    next
      case False
      with run quote k colon v have comma: "next_is 44 (skip r1)" by (auto split: if_splits)
      with run quote k colon v False obtain ms' where "scan_members F n (skip (tl (skip r1))) = Inr (ms', r)"
        by (auto simp: and_then_eq_Inr)
      from IHm [OF this] skip_tl_skip_length [OF comma] len show ?thesis by simp
    qed
  qed
  ultimately show ?case by blast
qed simp

lemmas scan_length =
  scan_lengths [THEN conjunct1, rule_format] scan_lengths [THEN conjunct2, THEN conjunct1, rule_format]
  scan_lengths [THEN conjunct2, THEN conjunct2, rule_format]

lemma errors_distinct [simp]:
  "JSONDecodeError \<noteq> Out_Of_Fuel" "ValueError \<noteq> Out_Of_Fuel" "JSONDecodeError \<noteq> ValueError"
  by (simp_all add: JSONDecodeError_def Out_Of_Fuel_def)

lemma and_then_eq_Inl: "and_then r f = Inl e \<longleftrightarrow> r = Inl e \<or> (\<exists>a. r = Inr a \<and> f a = Inl e)"
  by (cases r) auto

lemma scan_number_no_fuel: "scan_number F s \<noteq> Inl Out_Of_Fuel"
  by (auto simp: scan_number_def Let_def split: prod.splits if_splits option.splits)

lemma scan_fuel:
  "(\<forall>s. 2 * length s < n \<longrightarrow> scan_value F n s \<noteq> Inl Out_Of_Fuel) \<and>
   (\<forall>s. 2 * length s + 1 < n \<longrightarrow> scan_items F n s \<noteq> Inl Out_Of_Fuel) \<and>
   (\<forall>s. 2 * length s + 1 < n \<longrightarrow> scan_members F n s \<noteq> Inl Out_Of_Fuel)"
proof (induction n)
  case (Suc n)
  then have IHv: "\<And>s. 2 * length s < n \<Longrightarrow> scan_value F n s \<noteq> Inl Out_Of_Fuel"
    and IHi: "\<And>s. 2 * length s + 1 < n \<Longrightarrow> scan_items F n s \<noteq> Inl Out_Of_Fuel"
    and IHm: "\<And>s. 2 * length s + 1 < n \<Longrightarrow> scan_members F n s \<noteq> Inl Out_Of_Fuel" by blast+
  have "scan_value F (Suc n) s \<noteq> Inl Out_Of_Fuel" if "2 * length s < Suc n" for s
  proof
    assume run: "scan_value F (Suc n) s = Inl Out_Of_Fuel"
    have short: "2 * length (skip (tl s)) + 1 < n" if "next_is c s" for c
      using that \<open>2 * length s < Suc n\<close> skip_length [of "tl s"] by (auto simp: next_is_iff)
    consider "next_is 34 s" | "\<not> next_is 34 s" "next_is 123 s" | "\<not> next_is 34 s" "\<not> next_is 123 s" "next_is 91 s"
      | "\<not> next_is 34 s" "\<not> next_is 123 s" "\<not> next_is 91 s" by blast
    then show False
    proof cases
      case 1
      with run show ?thesis by (auto split: option.splits)
    next
      case 2
      with run IHm [OF short [OF 2(2)]] show ?thesis by (auto simp: and_then_eq_Inl split: if_splits)
    next
      case 3
      with run IHi [OF short [OF 3(3)]] show ?thesis by (auto simp: and_then_eq_Inl split: if_splits)
    next
      case 4
      with run scan_number_no_fuel show ?thesis by (auto split: option.splits)
    qed
  qed
  moreover have "scan_items F (Suc n) s \<noteq> Inl Out_Of_Fuel" if small: "2 * length s + 1 < Suc n" for s
  proof
    assume run: "scan_items F (Suc n) s = Inl Out_Of_Fuel"
    from small IHv [of s] have "scan_value F n s \<noteq> Inl Out_Of_Fuel" by simp
    with run obtain v r1 where v: "scan_value F n s = Inr (v, r1)" by (auto simp: and_then_eq_Inl)
    with run have comma: "next_is 44 (skip r1)" by (auto split: if_splits)
    have "2 * length (skip (tl (skip r1))) + 1 < n"
      using skip_tl_skip_length [OF comma] scan_length(1) [OF v] small by simp
    from IHi [OF this] run v comma show False by (auto simp: and_then_eq_Inl split: if_splits)
  qed
  moreover have "scan_members F (Suc n) s \<noteq> Inl Out_Of_Fuel" if small: "2 * length s + 1 < Suc n" for s
  proof
    assume run: "scan_members F (Suc n) s = Inl Out_Of_Fuel"
    then have quote: "next_is 34 s" by (auto split: if_splits)
    from run quote obtain k r0 where k: "scan_string (tl s) = Some (k, r0)" by (auto split: option.splits)
    with quote have r0: "length r0 < length s" by (auto simp: next_is_iff dest: scan_string_length)
    from run quote k have colon: "next_is 58 (skip r0)" by (auto split: if_splits)
    note len = skip_tl_skip_length [OF colon]
    from IHv [of "skip (tl (skip r0))"] len r0 small
    have "scan_value F n (skip (tl (skip r0))) \<noteq> Inl Out_Of_Fuel" by simp
    with run quote k colon obtain v r1 where v: "scan_value F n (skip (tl (skip r0))) = Inr (v, r1)"
      by (auto simp: and_then_eq_Inl)
    with run quote k colon have comma: "next_is 44 (skip r1)" by (auto split: if_splits)
    have "2 * length (skip (tl (skip r1))) + 1 < n"
      using skip_tl_skip_length [OF comma] scan_length(1) [OF v] len r0 small by simp
    from IHm [OF this] run quote k colon v comma show False by (auto simp: and_then_eq_Inl split: if_splits)
  qed
  ultimately show ?case by blast
qed simp

lemma json_loads_no_fuel: "json_loads F s \<noteq> Inl Out_Of_Fuel"
proof -
  have "scan_value F (Suc (2 * length s)) (skip s) \<noteq> Inl Out_Of_Fuel"
    using scan_fuel [of "Suc (2 * length s)" F] skip_length [of s] by simp
  then show ?thesis by (auto simp: json_loads_def and_then_eq_Inl split: if_splits)
qed

section \<open>Reading what was printed\<close>

subsection \<open>Numbers\<close>

lemma nat_text_digits: "nat_text n \<noteq> [] \<and> list_all is_digit (nat_text n)"
proof (induction n rule: nat_text.induct)
  case (1 n)
  then show ?case by (cases "n < 10") (auto simp: nat_text.simps [of n] is_digit_def)
qed

lemma digits_value_nat_text: "digits_value (nat_text n) = n"
proof (induction n rule: nat_text.induct)
  case (1 n)
  then show ?case by (cases "n < 10") (auto simp: nat_text.simps [of n] digits_value_def)
qed

lemma nat_text_zero: "hd (nat_text n) = 48 \<Longrightarrow> nat_text n = [48]"
proof (induction n rule: nat_text.induct)
  case (1 n)
  show ?case
  proof (cases "n < 10")
    case True
    with 1(2) show ?thesis by (simp add: nat_text.simps [of n] nat_text.simps [of 0])
  next
    case False
    have "hd (nat_text n) = hd (nat_text (n div 10))"
      using False nat_text_digits [of "n div 10"] by (simp add: nat_text.simps [of n])
    with 1(1) [OF False] 1(2) have "nat_text (n div 10) = [48]" by simp
    then have "n div 10 = 0" using digits_value_nat_text [of "n div 10"] by (simp add: digits_value_def)
    with False show ?thesis by simp
  qed
qed

text \<open>What may stand behind a number without being read as part of it.\<close>

definition ends_number :: "pystr \<Rightarrow> bool" where
  "ends_number r \<longleftrightarrow> r = [] \<or> \<not> is_digit (hd r) \<and> hd r \<noteq> 46 \<and> hd r \<noteq> 101 \<and> hd r \<noteq> 69"

lemma takeWhile_digits:
  "list_all is_digit ds \<Longrightarrow> r = [] \<or> \<not> is_digit (hd r) \<Longrightarrow>
     takeWhile is_digit (ds @ r) = ds \<and> dropWhile is_digit (ds @ r) = r"
  by (induction ds) (cases r; simp)+

definition whole_number :: "pystr \<Rightarrow> bool" where
  "whole_number ds \<longleftrightarrow> ds \<noteq> [] \<and> list_all is_digit ds \<and> (hd ds = 48 \<longrightarrow> ds = [48])"

lemma scan_whole_digits:
  "whole_number ds \<Longrightarrow> r = [] \<or> \<not> is_digit (hd r) \<Longrightarrow> scan_whole (ds @ r) = (ds, r)"
  by (cases "hd ds = 48") (auto simp: scan_whole_def next_is_def takeWhile_digits whole_number_def)

lemma scan_sign_digits: "whole_number ds \<Longrightarrow> scan_sign (ds @ r) = ([], ds @ r)"
  by (cases ds) (auto simp: scan_sign_def next_is_def whole_number_def is_digit_def)

lemma scan_sign_minus: "scan_sign (45 # s) = ([45], s)"
  by (simp add: scan_sign_def next_is_def)

lemma ends_number_parts:
  "ends_number r \<Longrightarrow> scan_fraction r = ([], r)" "ends_number r \<Longrightarrow> scan_exponent r = ([], r)"
  by (auto simp: ends_number_def scan_fraction_def scan_exponent_def next_is_def)

lemma ends_number_not_digit: "ends_number r \<Longrightarrow> r = [] \<or> \<not> is_digit (hd r)"
  by (auto simp: ends_number_def)

lemma whole_number_nat_text: "whole_number (nat_text n)"
  using nat_text_digits nat_text_zero by (auto simp: whole_number_def)

lemma scan_number_int:
  assumes "length (nat_text (nat \<bar>i\<bar>)) \<le> 4300" and "ends_number r"
  shows "scan_number F (int_text i @ r) = Inr (JInt i, r)"
proof -
  note w = whole_number_nat_text [of "nat \<bar>i\<bar>"]
  note end_ = ends_number_parts [OF assms(2)] scan_whole_digits [OF w ends_number_not_digit [OF assms(2)]]
    digits_value_nat_text [of "nat \<bar>i\<bar>"]
  have "nat_text (nat \<bar>i\<bar>) \<noteq> []" using w by (simp add: whole_number_def)
  with assms(1) end_ scan_sign_digits [OF w, of r] show ?thesis
    by (cases "i < 0") (simp_all add: scan_number_def int_text_def scan_sign_minus)
qed

text \<open>The grammar of a float's text.\<close>

definition fraction_text :: "pystr \<Rightarrow> bool" where
  "fraction_text f \<longleftrightarrow> f = [] \<or> (\<exists>ds. f = 46 # ds \<and> ds \<noteq> [] \<and> list_all is_digit ds)"

definition exponent_text :: "pystr \<Rightarrow> bool" where
  "exponent_text x \<longleftrightarrow>
     x = [] \<or> (\<exists>sg ds. x = 101 # sg @ ds \<and> sg \<in> {[], [43], [45]} \<and> ds \<noteq> [] \<and> list_all is_digit ds)"

definition float_text :: "pystr \<Rightarrow> bool" where
  "float_text t \<longleftrightarrow>
     (\<exists>sg w f x. t = sg @ w @ f @ x \<and> sg \<in> {[], [45]} \<and> whole_number w \<and> fraction_text f \<and>
        exponent_text x \<and> f @ x \<noteq> [])"

text \<open>Documented of Python's floats: the text of a finite float is a decimal literal that reads back as the float.\<close>

definition float_spec :: "floats \<Rightarrow> bool" where
  "float_spec F \<longleftrightarrow>
     (\<forall>x. \<not> not_finite x \<longrightarrow> float_text (fl_repr F x) \<and> fl_of_text F (fl_repr F x) = Some x)"

lemma scan_fraction_text:
  assumes "fraction_text f" and "s = [] \<or> \<not> is_digit (hd s)" and "s = [] \<or> hd s \<noteq> 46"
  shows "scan_fraction (f @ s) = (f, s)"
proof (cases "f = []")
  case True
  with assms(3) show ?thesis by (auto simp: scan_fraction_def next_is_def)
next
  case False
  with assms(1) obtain ds where f: "f = 46 # ds" "ds \<noteq> []" "list_all is_digit ds"
    by (auto simp: fraction_text_def)
  with takeWhile_digits [OF f(3) assms(2)] show ?thesis by (simp add: scan_fraction_def next_is_def)
qed

lemma scan_exponent_text:
  assumes "exponent_text x" and "ends_number r"
  shows "scan_exponent (x @ r) = (x, r)"
proof (cases "x = []")
  case True
  with ends_number_parts [OF assms(2)] show ?thesis by simp
next
  case False
  with assms(1) obtain sg ds where x: "x = 101 # sg @ ds" "sg \<in> {[], [43], [45]}" "ds \<noteq> []" "list_all is_digit ds"
    by (auto simp: exponent_text_def)
  have "\<not> next_is 43 (ds @ r)" "\<not> next_is 45 (ds @ r)"
    using x(3,4) by (cases ds; auto simp: next_is_def is_digit_def)+
  with x takeWhile_digits [OF x(4) ends_number_not_digit [OF assms(2)]] show ?thesis
    by (auto simp: scan_exponent_def next_is_def Let_def)
qed

lemma exponent_no_digit:
  "exponent_text x \<Longrightarrow> ends_number r \<Longrightarrow> x @ r = [] \<or> \<not> is_digit (hd (x @ r)) \<and> hd (x @ r) \<noteq> 46"
  by (auto simp: exponent_text_def ends_number_def is_digit_def)

lemma scan_number_float:
  assumes "float_text t" and "fl_of_text F t = Some x" and "ends_number r"
  shows "scan_number F (t @ r) = Inr (JFloat x, r)"
proof -
  obtain sg w f e where t: "t = sg @ w @ f @ e" and sg: "sg \<in> {[], [45]}" and w: "whole_number w"
    and f: "fraction_text f" and e: "exponent_text e" and ne: "f @ e \<noteq> []"
    using assms(1) by (auto simp: float_text_def)
  have no_digit: "f @ e @ r = [] \<or> \<not> is_digit (hd (f @ e @ r))"
    using f exponent_no_digit [OF e assms(3)] by (auto simp: fraction_text_def is_digit_def)
  have "scan_sign (t @ r) = (sg, w @ f @ e @ r)"
    using sg scan_sign_digits [OF w] by (auto simp: t scan_sign_minus)
  moreover have "scan_whole (w @ f @ e @ r) = (w, f @ e @ r)" by (rule scan_whole_digits [OF w no_digit])
  moreover have "scan_fraction (f @ e @ r) = (f, e @ r)"
    by (rule scan_fraction_text [OF f]) (use exponent_no_digit [OF e assms(3)] in auto)
  moreover have "scan_exponent (e @ r) = (e, r)" by (rule scan_exponent_text [OF e assms(3)])
  moreover have "w \<noteq> []" using w by (simp add: whole_number_def)
  ultimately show ?thesis using ne assms(2) by (auto simp: scan_number_def t)
qed

subsection \<open>Strings\<close>

text \<open>The code points of a text, in which no two surrogates stand for one character.\<close>

fun text_ok :: "pystr \<Rightarrow> bool" where
  "text_ok [] = True"
| "text_ok (c # s) =
     (c < 1114112 \<and> \<not> (high_surrogate c \<and> s \<noteq> [] \<and> low_surrogate (hd s)) \<and> text_ok s)"

lemma hex_val_hex_digits: "n < 16 \<Longrightarrow> hex_val (if n < 10 then 48 + n else 87 + n) = Some n"
  by (auto simp: hex_val_def)


lemma hex4_hex_digits:
  assumes "c < 65536"
  shows "hex4 (hex_digits 4 c @ r) = Some (c, r)"
proof -
  define x1 where "x1 = c div 16"
  define x2 where "x2 = x1 div 16"
  define x3 where "x3 = x2 div 16"
  have "x3 < 16" using assms by (simp add: x1_def x2_def x3_def less_mult_imp_div_less)
  then have x3: "x3 div 16 = 0" "x3 mod 16 = x3" by simp_all
  have digits: "hex_digits 4 c = map (\<lambda>n. if n < 10 then 48 + n else 87 + n) [x3 mod 16, x2 mod 16, x1 mod 16, c mod 16]"
  proof -
    have "(4 :: nat) = Suc (Suc (Suc (Suc 0)))" by simp
    then show ?thesis unfolding x3_def x2_def x1_def by (simp only: hex_digits.simps) simp
  qed
  have "x2 = x3 * 16 + x2 mod 16" "x1 = x2 * 16 + x1 mod 16" "c = x1 * 16 + c mod 16"
    by (simp_all add: x1_def x2_def x3_def)
  then show ?thesis
    unfolding digits using x3(2) by (simp add: hex_val_hex_digits)
qed

lemma after_escape: "after [92, 117] (u_escape c @ r) = Some (hex_digits 4 c @ r)"
  by (simp add: u_escape_def)

lemma scan_unicode_single:
  assumes "c < 65536"
    and "\<And>r' l r''. high_surrogate c \<Longrightarrow> after [92, 117] r = Some r' \<Longrightarrow> hex4 r' = Some (l, r'') \<Longrightarrow> \<not> low_surrogate l"
  shows "scan_unicode (hex_digits 4 c @ r) = Some (c, r)"
  using assms by (auto simp: scan_unicode_def hex4_hex_digits simp del: after.simps split: option.splits bind_splits)

lemma scan_unicode_pair:
  assumes "65536 \<le> c" and "c < 1114112"
  shows "scan_unicode (hex_digits 4 (55296 + (c - 65536) div 1024) @ u_escape (56320 + (c - 65536) mod 1024) @ r) =
    Some (c, r)"
proof -
  have "(c - 65536) div 1024 < 1024" using assms by auto
  then have hi: "55296 + (c - 65536) div 1024 < 65536" "high_surrogate (55296 + (c - 65536) div 1024)"
    by (auto simp: high_surrogate_def)
  have lo: "56320 + (c - 65536) mod 1024 < 65536" "low_surrogate (56320 + (c - 65536) mod 1024)"
    by (auto simp: low_surrogate_def intro: less_trans [of _ "56320 + 1024"])
  have "65536 + (c - 65536) div 1024 * 1024 + (c - 65536) mod 1024 = c" using assms by presburger
  with hi lo show ?thesis
    by (simp add: scan_unicode_def hex4_hex_digits after_escape del: after.simps)
qed

text \<open>What an escape of a printed character is read as.\<close>

lemma printed_escape:
  assumes "after [92, 117] (json_char c @ r) = Some r'" and "c < 1114112" and "hex4 r' = Some (l, r'')"
    and "\<not> low_surrogate c"
  shows "\<not> low_surrogate l"
proof (cases "c < 65536")
  case True
  with assms(1) have "json_char c = u_escape c"
    by (auto simp: json_char_def split: if_splits)
  with assms(1) have "r' = hex_digits 4 c @ r" by (simp add: after_escape del: after.simps)
  with True assms(3) have "l = c" by (simp add: hex4_hex_digits)
  with assms(4) show ?thesis by simp
next
  case False
  let ?h = "55296 + (c - 65536) div 1024"
  have h: "?h < 56320" using assms(2) False by auto
  have "json_char c = u_escape ?h @ u_escape (56320 + (c - 65536) mod 1024)"
    using False by (simp add: json_char_def)
  with assms(1) have "r' = hex_digits 4 ?h @ u_escape (56320 + (c - 65536) mod 1024) @ r"
    by (simp add: after_escape del: after.simps)
  with h assms(3) have "l = ?h" by (simp add: hex4_hex_digits)
  with h show ?thesis by (simp add: low_surrogate_def)
qed

lemma scan_string_simple:
  "simple_escape e = Some u \<Longrightarrow> e \<noteq> 117 \<Longrightarrow>
     scan_string (92 # e # r) = map_option (apfst (Cons u)) (scan_string r)"
  by (simp add: scan_string.simps(2))

lemma scan_string_unicode:
  "scan_unicode r = Some (u, r') \<Longrightarrow>
     scan_string (92 # 117 # r) = map_option (apfst (Cons u)) (scan_string r')"
  by (simp add: scan_string.simps(2))

lemma json_char_escape:
  "c < 65536 \<Longrightarrow> c \<notin> {34, 92, 10, 13, 9, 12, 8} \<Longrightarrow> \<not> (32 \<le> c \<and> c \<le> 126) \<Longrightarrow> json_char c = u_escape c"
  by (auto simp: json_char_def)

lemma scan_string_char:
  assumes "c < 1114112"
    and "\<And>r' l r''. high_surrogate c \<Longrightarrow> after [92, 117] r = Some r' \<Longrightarrow> hex4 r' = Some (l, r'') \<Longrightarrow> \<not> low_surrogate l"
  shows "scan_string (json_char c @ r) = map_option (apfst (Cons c)) (scan_string r)"
proof -
  consider "c = 34 \<or> c = 92" | "32 \<le> c" "c \<le> 126" "c \<noteq> 34" "c \<noteq> 92"
    | "c \<in> {10, 13, 9, 12, 8}" | "json_char c = u_escape c" "c < 65536" | "65536 \<le> c"
    using json_char_escape [of c] by (cases "c < 65536") (auto simp: not_less)
  then show ?thesis
  proof cases
    case 1
    then show ?thesis by (auto simp: json_char_def scan_string_simple simple_escape_def)
  next
    case 2
    then show ?thesis by (simp add: json_char_def scan_string.simps(2))
  next
    case 3
    then show ?thesis by (auto simp: json_char_def scan_string_simple simple_escape_def)
  next
    case 4
    from scan_unicode_single [OF 4(2) assms(2)] 4(1) show ?thesis
      by (simp add: u_escape_def scan_string_unicode)
  next
    case 5
    from scan_unicode_pair [OF 5 assms(1), of r] 5 show ?thesis
      by (simp add: json_char_def u_escape_def [of "55296 + _"] scan_string_unicode)
  qed
qed

lemma scan_string_printed:
  "text_ok s \<Longrightarrow> scan_string (concat (map json_char s) @ 34 # r) = Some (s, r)"
proof (induction s)
  case Nil
  then show ?case by (simp add: scan_string.simps(2))
next
  case (Cons c s)
  let ?rest = "concat (map json_char s) @ 34 # r"
  have "\<not> low_surrogate l"
    if "high_surrogate c" "after [92, 117] ?rest = Some r'" "hex4 r' = Some (l, r'')" for r' l r''
  proof (cases s)
    case Nil
    with that(2) show ?thesis by simp
  next
    case (Cons d s')
    with \<open>text_ok (c # s)\<close> that(1) have "\<not> low_surrogate d" "d < 1114112" by auto
    with printed_escape [of d "concat (map json_char s') @ 34 # r" r' l r''] that Cons show ?thesis
      by simp
  qed
  from scan_string_char [of c ?rest, OF _ this] Cons show ?case by simp
qed

subsection \<open>Values\<close>

text \<open>
  The values that survive printing and reading: keys distinct, integers of at most 4300 digits, NaN and the
  infinities as the reader makes them.
\<close>

fun json_ok :: "json \<Rightarrow> bool" where
  "json_ok (JInt i) = (length (nat_text (nat \<bar>i\<bar>)) \<le> 4300)"
| "json_ok (JFloat x) = (not_finite x \<longrightarrow> x \<in> {nan_bits, inf_bits, neg_inf_bits})"
| "json_ok (JStr s) = text_ok s"
| "json_ok (JList xs) = list_all json_ok xs"
| "json_ok (JObj d) = (distinct (map fst d) \<and> list_all (\<lambda>(k, v). text_ok k \<and> json_ok v) d)"
| "json_ok _ = True"

lemma skip_simps [simp]:
  "skip [] = []" "skip (32 # s) = skip s" "\<not> json_space c \<Longrightarrow> skip (c # s) = c # s"
  by (simp_all add: skip_def json_space_def)

lemma next_is_Cons [simp]: "next_is c (d # s) \<longleftrightarrow> d = c"
  by (auto simp: next_is_def)

lemma ends_number_simps [simp]:
  "ends_number []" "ends_number (44 # s)" "ends_number (93 # s)" "ends_number (125 # s)"
  by (simp_all add: ends_number_def is_digit_def)

lemma no_constant:
  assumes "c \<notin> {110, 116, 102, 78, 73, 45}"
  shows "scan_constant constants (c # s) = None"
  using assms by (simp add: constants_def)

lemma number_start:
  "whole_number w \<Longrightarrow> \<exists>c t. w = c # t \<and> is_digit c"
  by (cases w) (auto simp: whole_number_def)

lemma scan_constant_number:
  assumes "whole_number w" and "sg \<in> {[], [45]}"
  shows "scan_constant constants (sg @ w @ r) = None" and "\<not> next_is 34 (sg @ w @ r)"
    and "\<not> next_is 123 (sg @ w @ r)" and "\<not> next_is 91 (sg @ w @ r)"
proof -
  obtain c t where w: "w = c # t" "is_digit c" using number_start [OF assms(1)] by blast
  then have c: "48 \<le> c" "c \<le> 57" by (simp_all add: is_digit_def)
  with assms(2) show "scan_constant constants (sg @ w @ r) = None"
    by (auto simp: w(1) constants_def)
  show "\<not> next_is 34 (sg @ w @ r)" "\<not> next_is 123 (sg @ w @ r)" "\<not> next_is 91 (sg @ w @ r)"
    using c assms(2) by (auto simp: w(1))
qed

lemma scan_value_number:
  assumes "whole_number w" and "sg \<in> {[], [45]}" and "t = sg @ w @ u"
    and "scan_number F (t @ r) = Inr (v, r)" and "0 < n"
  shows "scan_value F n (t @ r) = Inr (v, r)"
  using scan_constant_number [OF assms(1,2), of "u @ r"] assms(3-5) by (cases n) simp_all

lemma not_finite_bits:
  "not_finite nan_bits" "not_finite inf_bits" "not_finite neg_inf_bits"
  by (simp_all add: not_finite_def nan_bits_def inf_bits_def neg_inf_bits_def)

lemma float_json_special:
  "float_json F nan_bits = str ''NaN''" "float_json F inf_bits = str ''Infinity''"
  "float_json F neg_inf_bits = str ''-Infinity''"
  using not_finite_bits
  by (simp_all add: float_json_def del: str_Cons) (simp_all add: nan_bits_def inf_bits_def neg_inf_bits_def)

text \<open>A printed value never starts with a blank.\<close>

definition prints :: "floats \<Rightarrow> json \<Rightarrow> bool" where
  "prints F v \<longleftrightarrow>
     (\<forall>n r. 2 * length (json_dumps F v) < n \<longrightarrow> ends_number r \<longrightarrow> scan_value F n (json_dumps F v @ r) = Inr (v, r)) \<and>
     (\<exists>c t. json_dumps F v = c # t \<and> \<not> json_space c \<and> c \<noteq> 93 \<and> c \<noteq> 125 \<and> c \<noteq> 65279)"

lemma printsD:
  assumes "prints F v"
  shows "2 * length (json_dumps F v) < n \<Longrightarrow> ends_number r \<Longrightarrow> scan_value F n (json_dumps F v @ r) = Inr (v, r)"
    and "skip (json_dumps F v @ r) = json_dumps F v @ r" and "\<not> next_is 93 (json_dumps F v @ r)"
    and "\<not> next_is 65279 (json_dumps F v @ r)"
  using assms by (auto simp: prints_def)

lemma scan_items_printed:
  assumes "\<And>v. v \<in> set xs \<Longrightarrow> prints F v" and "xs \<noteq> []"
    and "2 * length (join (str '', '') (map (json_dumps F) xs)) + 1 < n"
  shows "scan_items F n (join (str '', '') (map (json_dumps F) xs) @ 93 # r) = Inr (xs, r)"
  using assms
proof (induction xs arbitrary: n rule: induct_list012)
  case (2 v)
  then obtain m where n: "n = Suc m" by (cases n) auto
  have "scan_value F m (json_dumps F v @ 93 # r) = Inr (v, 93 # r)"
    by (rule printsD(1)) (use 2 n in auto)
  then show ?case by (simp add: n json_space_def)
next
  case (3 v w xs)
  then obtain m where n: "n = Suc m" by (cases n) auto
  let ?rest = "join (str '', '') (map (json_dumps F) (w # xs))"
  have "scan_value F m (json_dumps F v @ 44 # 32 # ?rest @ 93 # r) = Inr (v, 44 # 32 # ?rest @ 93 # r)"
    by (rule printsD(1)) (use 3 n in auto)
  moreover have "scan_items F m (?rest @ 93 # r) = Inr (w # xs, r)"
    by (rule 3(2)) (use 3 n in auto)
  moreover have "skip (?rest @ 93 # r) = ?rest @ 93 # r"
    using printsD(2) [of F w] 3(3) by (cases xs) simp_all
  ultimately show ?case by (simp add: n json_space_def)
qed simp

lemma scan_string_quote:
  "text_ok k \<Longrightarrow> scan_string (tl (json_quote k @ r)) = Some (k, r)"
  by (simp add: json_quote_def scan_string_printed)

definition print_member :: "floats \<Rightarrow> pystr \<times> json \<Rightarrow> pystr" where
  "print_member F kv = json_quote (fst kv) @ str '': '' @ json_dumps F (snd kv)"

lemma json_dumps_obj:
  "json_dumps F (JObj d) = [123] @ join (str '', '') (map (print_member F) d) @ [125]"
proof -
  have "(\<lambda>(k, v). json_quote k @ str '': '' @ json_dumps F v) = print_member F"
    by (simp add: fun_eq_iff print_member_def)
  then show ?thesis by simp
qed

lemma scan_member_printed:
  assumes "prints F v" and "text_ok k" and "2 * length (json_dumps F v) < n" and "ends_number r"
  shows "scan_members F (Suc n) (print_member F (k, v) @ r) =
    (if next_is 125 (skip r) then Inr ([(k, v)], tl (skip r))
     else if next_is 44 (skip r)
     then and_then (scan_members F n (skip (tl (skip r)))) (\<lambda>(ms, r2). Inr ((k, v) # ms, r2))
     else Inl JSONDecodeError)"
proof -
  have "next_is 34 (print_member F (k, v) @ r)" by (simp add: print_member_def json_quote_def)
  moreover have "scan_string (tl (print_member F (k, v) @ r)) = Some (k, 58 # 32 # json_dumps F v @ r)"
    using scan_string_quote [OF assms(2), of "58 # 32 # json_dumps F v @ r"] by (simp add: print_member_def)
  ultimately show ?thesis
    using printsD(1,2) [OF assms(1)] assms(3,4) by (simp add: json_space_def)
qed

lemma scan_members_printed:
  assumes "\<And>k v. (k, v) \<in> set d \<Longrightarrow> text_ok k \<and> prints F v" and "d \<noteq> []"
    and "2 * length (join (str '', '') (map (print_member F) d)) + 1 < n"
  shows "scan_members F n (join (str '', '') (map (print_member F) d) @ 125 # r) = Inr (d, r)"
  using assms
proof (induction d arbitrary: n rule: induct_list012)
  case (2 kv)
  obtain k v where kv: "kv = (k, v)" by (cases kv)
  obtain m where n: "n = Suc m" using 2(3) by (cases n) auto
  have "2 * length (json_dumps F v) < m" using 2(3) by (simp add: n kv print_member_def)
  with scan_member_printed [of F v k m "125 # r"] 2(1) show ?case by (simp add: n kv json_space_def)
next
  case (3 kv kw d)
  obtain k v where kv: "kv = (k, v)" by (cases kv)
  obtain m where n: "n = Suc m" using 3(5) by (cases n) auto
  let ?rest = "join (str '', '') (map (print_member F) (kw # d))"
  have "2 * length (json_dumps F v) < m" using 3(5) by (simp add: n kv print_member_def)
  moreover have "scan_members F m (?rest @ 125 # r) = Inr (kw # d, r)"
    by (rule 3(2)) (use 3 n in auto)
  moreover have "skip (?rest @ 125 # r) = ?rest @ 125 # r"
    by (cases d) (simp_all add: print_member_def json_quote_def json_space_def)
  moreover have "prints F v" "text_ok k" using 3(3) kv by auto
  ultimately show ?case
    by (simp add: n kv json_space_def scan_member_printed del: scan_members.simps)
qed simp

lemma printsI:
  assumes "\<And>n r. 2 * length (json_dumps F v) < Suc n \<Longrightarrow> ends_number r \<Longrightarrow>
      scan_value F (Suc n) (json_dumps F v @ r) = Inr (v, r)"
    and "json_dumps F v = c # t" and "\<not> json_space c" and "c \<noteq> 93" and "c \<noteq> 125" and "c \<noteq> 65279"
  shows "prints F v"
  unfolding prints_def
proof (intro conjI allI impI)
  fix n r
  assume n: "2 * length (json_dumps F v) < n" and "ends_number r"
  then obtain m where "n = Suc m" by (cases n) auto
  with assms(1) n \<open>ends_number r\<close> show "scan_value F n (json_dumps F v @ r) = Inr (v, r)" by blast
qed (use assms(2-6) in auto)

lemma prints_number:
  assumes "whole_number w" and "sg \<in> {[], [45]}" and "json_dumps F v = sg @ w @ u"
    and "\<And>r. ends_number r \<Longrightarrow> scan_number F (json_dumps F v @ r) = Inr (v, r)"
  shows "prints F v"
proof -
  obtain c t where w: "w = c # t" "is_digit c" using number_start [OF assms(1)] by blast
  obtain c' t' where "json_dumps F v = c' # t'" "c' = 45 \<or> is_digit c'"
    using assms(2,3) w by auto
  then show ?thesis
    by (intro printsI [where c = c' and t = t'] scan_value_number [OF assms(1-3)] assms(4))
      (auto simp: json_space_def is_digit_def)
qed

lemma prints_float:
  assumes "float_spec F" and "json_ok (JFloat x)"
  shows "prints F (JFloat x)"
proof (cases "not_finite x")
  case True
  with assms(2) have x: "x \<in> {nan_bits, inf_bits, neg_inf_bits}" by simp
  show ?thesis
    by (rule printsI [where c = "hd (float_json F x)" and t = "tl (float_json F x)"])
      (use x float_json_special in \<open>auto simp: constants_def json_space_def\<close>)
next
  case False
  with assms(1) have t: "float_text (fl_repr F x)" "fl_of_text F (fl_repr F x) = Some x"
    by (simp_all add: float_spec_def)
  from False have dump: "json_dumps F (JFloat x) = fl_repr F x" by (simp add: float_json_def)
  obtain sg w f e where shape: "fl_repr F x = sg @ w @ f @ e" "sg \<in> {[], [45]}" "whole_number w"
    using t(1) by (auto simp: float_text_def)
  have eq: "json_dumps F (JFloat x) = sg @ w @ (f @ e)" unfolding dump shape(1) by simp
  show ?thesis
    by (rule prints_number [OF shape(3,2) eq]) (simp only: dump scan_number_float [OF t])
qed

lemma dict_set_fresh: "k \<notin> fst ` set d \<Longrightarrow> dict_set k v d = d @ [(k, v)]"
  unfolding dict_set_def by (induction d) auto

lemma dict_of_distinct: "distinct (map fst d) \<Longrightarrow> dict_of d = d"
proof -
  have "foldl (\<lambda>d (k, v). dict_set k v d) a d = a @ d"
    if "distinct (map fst (a @ d))" for a
    using that
  proof (induction d arbitrary: a)
    case (Cons kv d)
    then show ?case by (cases kv) (simp add: dict_set_fresh)
  qed simp
  from this [of "[]"] show "distinct (map fst d) \<Longrightarrow> dict_of d = d" by (simp add: dict_of_def)
qed

lemma json_prints:
  assumes "float_spec F"
  shows "json_ok v \<Longrightarrow> prints F v"
proof (induction v)
  case JNull
  show ?case by (rule printsI) (auto simp: constants_def json_space_def)
next
  case (JBool b)
  show ?case
    by (rule printsI [where c = "if b then 116 else 102" and t = "if b then str ''rue'' else str ''alse''"])
      (auto simp: constants_def json_space_def)
next
  case (JInt i)
  show ?case
  proof (rule prints_number [OF whole_number_nat_text])
    show "(if i < 0 then [45] else []) \<in> {[], [45]}" by simp
    show "json_dumps F (JInt i) = (if i < 0 then [45] else []) @ nat_text (nat \<bar>i\<bar>) @ []"
      by (simp add: int_text_def)
    show "scan_number F (json_dumps F (JInt i) @ r) = Inr (JInt i, r)" if "ends_number r" for r
      using scan_number_int [OF _ that] JInt by simp
  qed
next
  case (JFloat x)
  then show ?case by (rule prints_float [OF assms])
next
  case (JStr s)
  then have "scan_string (tl (json_quote s @ r)) = Some (s, r)" for r by (intro scan_string_quote) simp
  then show ?case
    by (intro printsI [where c = 34 and t = "tl (json_quote s)"]) (auto simp: json_quote_def json_space_def)
next
  case (JList xs)
  then have xs: "\<And>v. v \<in> set xs \<Longrightarrow> prints F v" by (auto simp: list_all_iff)
  show ?case
  proof (rule printsI [where c = 91 and t = "tl (json_dumps F (JList xs))"])
    fix n r
    assume n: "2 * length (json_dumps F (JList xs)) < Suc n"
    show "scan_value F (Suc n) (json_dumps F (JList xs) @ r) = Inr (JList xs, r)"
    proof (cases xs)
      case Nil
      then show ?thesis by (simp add: json_space_def)
    next
      case (Cons v vs)
      let ?body = "join (str '', '') (map (json_dumps F) xs)"
      have start: "skip (?body @ 93 # r) = ?body @ 93 # r" "\<not> next_is 93 (?body @ 93 # r)"
        using printsD(2,3) [OF xs, of v] Cons by (cases vs; simp)+
      have "scan_items F n (?body @ 93 # r) = Inr (xs, r)"
        by (rule scan_items_printed [OF xs]) (use n Cons in auto)
      with start show ?thesis by simp
    qed
  qed (simp_all add: json_space_def)
next
  case (JObj d)
  have d: "text_ok k \<and> prints F v" if "(k, v) \<in> set d" for k v
    using JObj.IH [of "(k, v)" v] JObj.prems that by (auto simp: list_all_iff)
  have distinct: "dict_of d = d" using JObj.prems by (simp add: dict_of_distinct)
  show ?case
  proof (rule printsI [where c = 123 and t = "tl (json_dumps F (JObj d))"])
    fix n r
    assume n: "2 * length (json_dumps F (JObj d)) < Suc n"
    show "scan_value F (Suc n) (json_dumps F (JObj d) @ r) = Inr (JObj d, r)"
    proof (cases d)
      case Nil
      then show ?thesis by (simp add: json_space_def)
    next
      case (Cons kv ms)
      let ?body = "join (str '', '') (map (print_member F) d)"
      have start: "skip (?body @ 125 # r) = ?body @ 125 # r" "\<not> next_is 125 (?body @ 125 # r)"
        using Cons by (cases ms; simp add: print_member_def json_quote_def json_space_def)+
      have "scan_members F n (?body @ 125 # r) = Inr (d, r)"
        by (rule scan_members_printed [OF d]) (use n Cons in \<open>auto simp: json_dumps_obj simp del: json_dumps.simps\<close>)
      with start distinct show ?thesis by (simp add: json_dumps_obj del: json_dumps.simps)
    qed
  qed (simp_all add: json_space_def)
qed

lemma json_loads_dumps:
  assumes "float_spec F" and "json_ok v"
  shows "json_loads F (json_dumps F v) = Inr v"
proof -
  note p = json_prints [OF assms]
  have "scan_value F (Suc (2 * length (json_dumps F v))) (json_dumps F v @ []) = Inr (v, [])"
    by (rule printsD(1) [OF p]) simp_all
  then show ?thesis using printsD(2,4) [OF p, of "[]"] by (simp add: json_loads_def)
qed

subsection \<open>Bytes\<close>

lemma utf8_ascii: "list_all (\<lambda>c. c < 128) s \<Longrightarrow> utf8 s = Some s"
  by (induction s) auto

lemma decode_encode_ascii:
  assumes "list_all (\<lambda>c. c < 128) s"
  shows "decode_utf8 (encode_ascii s) = Inr s"
proof -
  have "map unat (encode_ascii s) = s"
    using assms by (induction s) (auto simp: encode_ascii_def unat_of_nat)
  with assms show ?thesis by (simp add: decode_utf8_def utf8_ascii)
qed

named_theorems ascii_intros \<open>texts of ASCII characters\<close>

abbreviation all_ascii :: "pystr \<Rightarrow> bool" where
  "all_ascii \<equiv> list_all (\<lambda>c. c < 128)"

lemma all_ascii_join: "list_all all_ascii ws \<Longrightarrow> all_ascii sep \<Longrightarrow> all_ascii (join sep ws)"
  by (induction sep ws rule: join.induct) auto

lemma all_ascii_hex_digits: "all_ascii (hex_digits k n)"
  by (induction k arbitrary: n) (auto intro: less_trans [of _ "87 + 16"])

lemma all_ascii_char: "all_ascii (json_char c)"
  by (auto simp: json_char_def u_escape_def all_ascii_hex_digits simp del: hex_digits.simps)

lemma all_ascii_quote: "all_ascii (json_quote s)"
  using all_ascii_char by (auto simp: json_quote_def list_all_iff)

lemma all_ascii_digits: "list_all is_digit ds \<Longrightarrow> all_ascii ds"
  by (auto simp: list_all_iff is_digit_def)

lemma all_ascii_float: "float_text t \<Longrightarrow> all_ascii t"
  by (auto simp: float_text_def whole_number_def fraction_text_def exponent_text_def all_ascii_digits)

lemma all_ascii_int: "all_ascii (int_text i)"
  using nat_text_digits all_ascii_digits by (simp add: int_text_def)

lemma json_ascii:
  assumes "float_spec F"
  shows "all_ascii (json_dumps F v)"
proof (induction v)
  case (JFloat x)
  then show ?case
    using assms all_ascii_float by (auto simp: float_json_def float_spec_def)
next
  case (JList xs)
  then have "list_all all_ascii (map (json_dumps F) xs)" by (auto simp: list_all_iff)
  from all_ascii_join [OF this, of "[44, 32]"] show ?case by simp
next
  case (JObj d)
  have "all_ascii (print_member F kv)" if "kv \<in> set d" for kv
    using JObj.IH [OF that, of "snd kv"] by (simp add: print_member_def all_ascii_quote snds.intros)
  then have "list_all all_ascii (map (print_member F) d)" by (auto simp: list_all_iff)
  from all_ascii_join [OF this, of "[44, 32]"] show ?case by (simp add: json_dumps_obj del: json_dumps.simps)
qed (simp_all add: all_ascii_int all_ascii_quote)

lemma json_bytes_roundtrip:
  "float_spec F \<Longrightarrow> json_ok v \<Longrightarrow>
     and_then (decode_utf8 (encode_ascii (json_dumps F v))) (json_loads F) = Inr v"
  by (simp add: decode_encode_ascii json_ascii json_loads_dumps)

end
