(* ===== verification/Base64.thy ===== *)
theory Base64
  imports Prelude
begin

text \<open>
  Python's \<open>base64.b64encode\<close> and \<open>base64.b64decode\<close> with its default arguments: characters outside the
  alphabet are skipped, decoding ends at the first complete padding, and decoding what was encoded gives the
  bytes back (\<open>b64decode_encode\<close>).
\<close>

section \<open>Definitions\<close>

definition b64_char :: "nat \<Rightarrow> nat" where
  "b64_char n =
     (if n < 26 then 65 + n else if n < 52 then 71 + n else if n < 62 then n - 4
      else if n = 62 then 43 else 47)"

definition b64_val :: "nat \<Rightarrow> nat option" where
  "b64_val c =
     (if 65 \<le> c \<and> c \<le> 90 then Some (c - 65) else if 97 \<le> c \<and> c \<le> 122 then Some (c - 71)
      else if 48 \<le> c \<and> c \<le> 57 then Some (c + 4) else if c = 43 then Some 62
      else if c = 47 then Some 63 else None)"

fun b64_sextets :: "nat list \<Rightarrow> pystr" where
  "b64_sextets [] = []"
| "b64_sextets [a] = [b64_char (a div 4), b64_char (a mod 4 * 16), 61, 61]"
| "b64_sextets [a, b] = [b64_char (a div 4), b64_char (a mod 4 * 16 + b div 16), b64_char (b mod 16 * 4), 61]"
| "b64_sextets (a # b # c # r) =
     [b64_char (a div 4), b64_char (a mod 4 * 16 + b div 16), b64_char (b mod 16 * 4 + c div 64),
      b64_char (c mod 64)] @ b64_sextets r"

definition b64encode :: "bytes \<Rightarrow> pystr" where
  "b64encode bs = b64_sextets (map unat bs)"

text \<open>
  The loop of \<open>binascii.a2b_base64\<close>: the position in the group of four, the bits left over from the last
  character and the number of padding characters seen. The accumulated bytes are given in order.
\<close>

fun a2b_loop :: "nat \<Rightarrow> nat \<Rightarrow> nat \<Rightarrow> nat list \<Rightarrow> pystr \<Rightarrow> nat list res" where
  "a2b_loop quad_pos leftchar pads out [] = (if quad_pos = 0 then Inr out else Inl ValueError)"
| "a2b_loop quad_pos leftchar pads out (c # s) =
     (if c = 61 then
        (if 2 \<le> quad_pos then
           (if 4 \<le> quad_pos + (pads + 1) then Inr out else a2b_loop quad_pos leftchar (pads + 1) out s)
         else a2b_loop quad_pos leftchar pads out s)
      else
        (case b64_val c of
           None \<Rightarrow> a2b_loop quad_pos leftchar pads out s
         | Some v \<Rightarrow>
             if quad_pos = 0 then a2b_loop 1 v 0 out s
             else if quad_pos = 1 then a2b_loop 2 (v mod 16) 0 (out @ [leftchar * 4 + v div 16]) s
             else if quad_pos = 2 then a2b_loop 3 (v mod 4) 0 (out @ [leftchar * 16 + v div 4]) s
             else a2b_loop 0 0 0 (out @ [leftchar * 64 + v]) s))"

text \<open>A string argument has to be ASCII.\<close>

definition b64decode :: "pystr \<Rightarrow> bytes res" where
  "b64decode s =
     (if list_ex (\<lambda>c. 128 \<le> c) s then Inl ValueError
      else and_then (a2b_loop 0 0 0 [] s) (\<lambda>out. Inr (map of_nat out)))"

section \<open>Decoding what was encoded\<close>

lemma b64_val_char: "n < 64 \<Longrightarrow> b64_val (b64_char n) = Some n \<and> b64_char n \<noteq> 61 \<and> b64_char n < 128"
  by (auto simp: b64_val_def b64_char_def)

lemma a2b_char:
  "n < 64 \<Longrightarrow> a2b_loop q l p out (b64_char n # s) =
     (if q = 0 then a2b_loop 1 n 0 out s
      else if q = 1 then a2b_loop 2 (n mod 16) 0 (out @ [l * 4 + n div 16]) s
      else if q = 2 then a2b_loop 3 (n mod 4) 0 (out @ [l * 16 + n div 4]) s
      else a2b_loop 0 0 0 (out @ [l * 64 + n]) s)"
  using b64_val_char [of n] by simp

declare a2b_loop.simps(2) [simp del]

lemma sextet_bounds:
  "a < 256 \<Longrightarrow> a div 4 < (64 :: nat)" "(a :: nat) mod 4 * 16 < 64" "b < 256 \<Longrightarrow> a mod 4 * 16 + b div 16 < (64 :: nat)"
  "(b :: nat) mod 16 * 4 < 64" "c < 256 \<Longrightarrow> b mod 16 * 4 + c div 64 < (64 :: nat)" "(c :: nat) mod 64 < 64"
proof -
  have m: "a mod 4 \<le> 3" "b mod 16 \<le> 15" using mod_less_divisor [of 4 a] mod_less_divisor [of 16 b] by linarith+
  show "a < 256 \<Longrightarrow> a div 4 < 64" by (simp add: less_mult_imp_div_less)
  show "a mod 4 * 16 < 64" using m(1) by simp
  have "b div 16 < 16" if "b < 256" using that by (simp add: less_mult_imp_div_less)
  with m(1) show "b < 256 \<Longrightarrow> a mod 4 * 16 + b div 16 < 64" by fastforce
  show "b mod 16 * 4 < 64" using m(2) by simp
  have "c div 64 < 4" if "c < 256" using that by (simp add: less_mult_imp_div_less)
  with m(2) show "c < 256 \<Longrightarrow> b mod 16 * 4 + c div 64 < 64" by fastforce
qed simp

lemma a2b_pad:
  "a2b_loop 3 l p out (61 # s) = Inr out" "a2b_loop 2 l 0 out (61 # 61 # s) = Inr out"
  by (simp_all add: a2b_loop.simps(2))

lemma a2b_sextets: "list_all (\<lambda>a. a < 256) as \<Longrightarrow> a2b_loop 0 0 p out (b64_sextets as) = Inr (out @ as)"
proof (induction "as" arbitrary: p out rule: b64_sextets.induct)
  case (2 a)
  have "a div 4 * 4 + a mod 4 * 16 div 16 = a" by simp
  with 2 show ?case by (simp add: a2b_char sextet_bounds a2b_pad)
next
  case (3 a b)
  have "(a mod 4 * 16 + b div 16) div 16 = a mod 4" "(a mod 4 * 16 + b div 16) mod 16 = b div 16"
    using 3 by (simp_all add: less_mult_imp_div_less)
  then have "a div 4 * 4 + (a mod 4 * 16 + b div 16) div 16 = a"
    "(a mod 4 * 16 + b div 16) mod 16 * 16 + b mod 16 * 4 div 4 = b" by simp_all
  with 3 show ?case by (simp add: a2b_char sextet_bounds a2b_pad)
next
  case (4 a b c r)
  have "(a mod 4 * 16 + b div 16) div 16 = a mod 4" "(a mod 4 * 16 + b div 16) mod 16 = b div 16"
    "(b mod 16 * 4 + c div 64) div 4 = b mod 16" "(b mod 16 * 4 + c div 64) mod 4 = c div 64"
    using 4 by (simp_all add: less_mult_imp_div_less)
  then have "a div 4 * 4 + (a mod 4 * 16 + b div 16) div 16 = a"
    "(a mod 4 * 16 + b div 16) mod 16 * 16 + (b mod 16 * 4 + c div 64) div 4 = b"
    "(b mod 16 * 4 + c div 64) mod 4 * 64 + c mod 64 = c" by simp_all
  with 4 show ?case by (simp add: a2b_char sextet_bounds)
qed simp

lemma b64_sextets_ascii: "list_all (\<lambda>a. a < 256) as \<Longrightarrow> list_all (\<lambda>c. c < 128) (b64_sextets as)"
proof (induction "as" rule: b64_sextets.induct)
qed (simp_all add: b64_val_char sextet_bounds)

lemma bytes_bound: "list_all (\<lambda>a. a < 256) (map unat (bs :: bytes))"
proof -
  have "unat (b :: byte) < 256" for b using unsigned_less [of b, where ?'a = nat] by simp
  then show ?thesis by (simp add: list_all_iff)
qed

lemma b64encode_ascii: "list_all (\<lambda>c. c < 128) (b64encode bs)"
  using b64_sextets_ascii [OF bytes_bound] by (simp add: b64encode_def)

lemma b64decode_encode: "b64decode (b64encode bs) = Inr bs"
proof -
  have "\<not> list_ex (\<lambda>c. 128 \<le> c) (b64encode bs)"
    using b64encode_ascii [of bs] by (simp add: list_ex_iff list_all_iff not_le)
  moreover have "a2b_loop 0 0 0 [] (b64encode bs) = Inr (map unat bs)"
    using a2b_sextets [OF bytes_bound, of 0 "[]"] by (simp add: b64encode_def)
  ultimately show ?thesis by (simp add: b64decode_def comp_def)
qed

lemma b64encode_Nil_iff: "b64encode bs = [] \<longleftrightarrow> bs = []"
  by (cases "map unat bs" rule: b64_sextets.cases) (auto simp: b64encode_def)

end
