(* ===== verification/Api.thy ===== *)
theory Api
  imports End_To_End Attestation Json Base64
begin

text \<open>
  \<^verbatim>\<open>api/server.py\<close>: the JSON HTTP API over a storage. The endpoints that only read take a \<open>reader\<close>, so they
  are the same for every backend; \<open>commit\<close> works on the in-process storage. \<open>handle\<close> is the handler of one
  request, from its method, path and body to the response it sends.

  Where a body carries a value of another type than the field of the record it becomes (a domain or a rule
  that is not a string), or a timeout that is not finite, \<open>commit\<close> is outside the model: its outcome is
  \<open>Outside\<close>, and the handler has no result. The code checks neither type and goes on with what it got.
\<close>

section \<open>Errors\<close>

text \<open>
  An \<open>ApiError\<close> with its status and message; any other exception with its text, which is empty where the
  model has none; and the inputs the model does not follow.
\<close>

datatype api_error = ApiError nat pystr | Raised py_error pystr | Outside

type_synonym 'a api = "api_error + 'a"

definition bind_api :: "'a api \<Rightarrow> ('a \<Rightarrow> 'b api) \<Rightarrow> 'b api" where
  "bind_api r f = (case r of Inl e \<Rightarrow> Inl e | Inr a \<Rightarrow> f a)"

fun map_api :: "('a \<Rightarrow> 'b api) \<Rightarrow> 'a list \<Rightarrow> 'b list api" where
  "map_api f [] = Inr []"
| "map_api f (x # xs) = bind_api (f x) (\<lambda>y. bind_api (map_api f xs) (\<lambda>ys. Inr (y # ys)))"

definition of_res :: "'a res \<Rightarrow> 'a api" where
  "of_res r = (case r of Inl e \<Rightarrow> Inl (Raised e []) | Inr a \<Rightarrow> Inr a)"

lemma bind_api_simps [simp]: "bind_api (Inl e) f = Inl e" "bind_api (Inr a) f = f a"
  by (simp_all add: bind_api_def)

lemma of_res_simps [simp]: "of_res (Inl e) = Inl (Raised e [])" "of_res (Inr a) = Inr a"
  by (simp_all add: of_res_def)

section \<open>The world of the server\<close>

text \<open>
  The libraries, the provers, the texts of floats, and \<open>str\<close> of the exceptions whose text the model does not
  have.
\<close>

record ('e, 'f, 'o, 'm) api_world =
  aw_env :: env
  aw_provers :: "('e, 'f, 'o, 'm) provers"
  aw_floats :: floats
  aw_text :: "py_error \<Rightarrow> pystr"

definition aw_unicode :: "('e, 'f, 'o, 'm) api_world \<Rightarrow> unicode" where
  "aw_unicode W = pl_unicode (pv_platform (aw_provers W))"

section \<open>JSON helpers\<close>

definition jstr :: "string \<Rightarrow> json" where
  "jstr s = JStr (str s)"

text \<open>\<open>repr\<close> of a value read from JSON.\<close>

function json_repr :: "unicode \<Rightarrow> floats \<Rightarrow> json \<Rightarrow> pystr" where
  "json_repr U F JNull = str ''None''"
| "json_repr U F (JBool b) = (if b then str ''True'' else str ''False'')"
| "json_repr U F (JInt i) = int_text i"
| "json_repr U F (JFloat x) =
     (if not_finite x
      then (if unat x mod 2 ^ 52 \<noteq> 0 then str ''nan''
            else if unat x div 2 ^ 63 = 1 then str ''-inf'' else str ''inf'')
      else fl_repr F x)"
| "json_repr U F (JStr s) = py_repr U s"
| "json_repr U F (JList xs) = [91] @ join (str '', '') (map (json_repr U F) xs) @ [93]"
| "json_repr U F (JObj d) =
     [123] @ join (str '', '') (map (\<lambda>(k, v). py_repr U k @ str '': '' @ json_repr U F v) d) @ [125]"
  by pat_completeness auto
termination
  by (relation "measure (\<lambda>(U, F, v). size v)")
    (auto simp: less_Suc_eq_le size_list_estimation' dest: size_member less_imp_le)

text \<open>\<open>bool\<close> of a value, iteration over it, and \<open>float\<close> of it.\<close>

fun json_truthy :: "json \<Rightarrow> bool" where
  "json_truthy JNull = False"
| "json_truthy (JBool b) = b"
| "json_truthy (JInt i) = (i \<noteq> 0)"
| "json_truthy (JFloat x) = (x \<noteq> 0 \<and> x \<noteq> 0x8000000000000000)"
| "json_truthy (JStr s) = (s \<noteq> [])"
| "json_truthy (JList xs) = (xs \<noteq> [])"
| "json_truthy (JObj d) = (d \<noteq> [])"

fun json_iter :: "json \<Rightarrow> json list api" where
  "json_iter (JList xs) = Inr xs"
| "json_iter (JStr s) = Inr (map (\<lambda>c. JStr [c]) s)"
| "json_iter (JObj d) = Inr (map (\<lambda>(k, v). JStr k) d)"
| "json_iter _ = Inl (Raised TypeError [])"

definition OverflowError :: py_error where
  "OverflowError = OtherError (str ''OverflowError'')"

fun json_float :: "floats \<Rightarrow> json \<Rightarrow> 64 word api" where
  "json_float F (JFloat x) = Inr x"
| "json_float F (JInt i) =
     (case fl_of_int F i of None \<Rightarrow> Inl (Raised OverflowError []) | Some x \<Rightarrow> Inr x)"
| "json_float F (JBool b) =
     (case fl_of_int F (if b then 1 else 0) of None \<Rightarrow> Inl (Raised OverflowError []) | Some x \<Rightarrow> Inr x)"
| "json_float F (JStr s) =
     (case fl_of_text F s of None \<Rightarrow> Inl (Raised ValueError []) | Some x \<Rightarrow> Inr x)"
| "json_float F _ = Inl (Raised TypeError [])"

text \<open>\<open>body[key]\<close> and \<open>body.get(key, dflt)\<close>.\<close>

definition json_item :: "unicode \<Rightarrow> json \<Rightarrow> string \<Rightarrow> json api" where
  "json_item U body key =
     (case body of
        JObj d \<Rightarrow>
          (case map_of d (str key) of
             None \<Rightarrow> Inl (Raised KeyError (py_repr U (str key))) | Some v \<Rightarrow> Inr v)
      | _ \<Rightarrow> Inl (Raised TypeError []))"

definition json_get :: "json \<Rightarrow> string \<Rightarrow> json \<Rightarrow> json api" where
  "json_get body key dflt =
     (case body of
        JObj d \<Rightarrow> Inr (case map_of d (str key) of None \<Rightarrow> dflt | Some v \<Rightarrow> v)
      | _ \<Rightarrow> Inl (Raised AttributeError []))"

definition h_json :: "hash \<Rightarrow> json" where
  "h_json h = JStr (hex h)"

definition opt_json :: "('a \<Rightarrow> json) \<Rightarrow> 'a option \<Rightarrow> json" where
  "opt_json f v = (case v of None \<Rightarrow> JNull | Some a \<Rightarrow> f a)"

definition hex_to_hash :: "unicode \<Rightarrow> json \<Rightarrow> hash api" where
  "hex_to_hash U s =
     (case s of
        JStr t \<Rightarrow>
          (case from_hex t of
             Inl e \<Rightarrow> Inl (ApiError 400 (str ''invalid hex hash: '' @ py_repr U t))
           | Inr h \<Rightarrow> Inr h)
      | _ \<Rightarrow> Inl (Raised TypeError []))"

definition parse_pubkey :: "unicode \<Rightarrow> json \<Rightarrow> bytes api" where
  "parse_pubkey U s =
     (case s of
        JStr t \<Rightarrow>
          (case fromhex t of
             Inl e \<Rightarrow> Inl (ApiError 400 (str ''invalid hex pubkey: '' @ py_repr U t))
           | Inr raw \<Rightarrow>
               if length raw \<noteq> 32
               then Inl (ApiError 400 (str ''pubkey must be 32 bytes, got '' @ nat_text (length raw)))
               else Inr raw)
      | _ \<Rightarrow> Inl (Raised TypeError []))"

section \<open>Nodes and edges\<close>

text \<open>A node as a body gives it: the domain may be any value.\<close>

record raw_node =
  rn_claim :: pystr
  rn_domain :: json
  rn_polarity :: bool

fun py_of_json :: "json \<Rightarrow> pyval" where
  "py_of_json JNull = PNone"
| "py_of_json (JBool b) = PBool b"
| "py_of_json (JInt i) = PInt i"
| "py_of_json (JFloat x) = PFloat x"
| "py_of_json (JStr s) = PStr s"
| "py_of_json (JList xs) = PList (map py_of_json xs)"
| "py_of_json (JObj d) = PDict (map (map_prod PStr py_of_json) d)"

definition raw_id :: "env \<Rightarrow> raw_node \<Rightarrow> hash res" where
  "raw_id E n =
     and_then (canonical_encode E
       (PDict [(PStr (str ''claim''), PStr (rn_claim n)),
               (PStr (str ''domain''), py_of_json (rn_domain n)),
               (PStr (str ''polarity''), PBool (rn_polarity n))]))
       (\<lambda>bs. Inr (hash_bytes E bs))"

definition raw_of :: "node \<Rightarrow> raw_node" where
  "raw_of n = \<lparr> rn_claim = n_claim n, rn_domain = JStr (n_domain n), rn_polarity = n_polarity n \<rparr>"

definition typed_node :: "raw_node \<Rightarrow> node api" where
  "typed_node n =
     (case rn_domain n of
        JStr d \<Rightarrow> Inr \<lparr> n_claim = rn_claim n, n_domain = d, n_polarity = rn_polarity n \<rparr>
      | _ \<Rightarrow> Inl Outside)"

definition node_to_dict :: "env \<Rightarrow> raw_node \<Rightarrow> json api" where
  "node_to_dict E n =
     bind_api (of_res (raw_id E n)) (\<lambda>h.
       Inr (JObj [(str ''claim'', JStr (rn_claim n)), (str ''domain'', rn_domain n),
                  (str ''polarity'', JBool (rn_polarity n)), (str ''node_id'', h_json h)]))"

definition edge_to_dict :: "env \<Rightarrow> edge \<Rightarrow> json api" where
  "edge_to_dict E e =
     bind_api (of_res (edge_hash E e)) (\<lambda>eh.
       Inr (JObj [(str ''type'', JStr (edge_type_value (e_type e))),
                  (str ''premises'', JList (map h_json (e_premises e))),
                  (str ''conclusion'', h_json (e_conclusion e)),
                  (str ''rule'', JStr (e_rule e)),
                  (str ''proof_hash'', opt_json h_json (e_proof_hash e)),
                  (str ''verdict'', JStr (verdict_value (e_verdict e))),
                  (str ''kappa'', JStr (kappa_value (e_kappa e))),
                  (str ''signer_pubkey'', JStr (hex (e_signer_pubkey e))),
                  (str ''edge_hash'', h_json eh)]))"

definition verification_to_dict :: "verification_result \<Rightarrow> json" where
  "verification_to_dict v =
     JObj [(str ''verdict'', JStr (verdict_value (vr_verdict v))),
           (str ''kappa'', JStr (kappa_value (vr_kappa v))),
           (str ''rejected'', JBool (rejected v))]"

definition parse_kappa :: "unicode \<Rightarrow> floats \<Rightarrow> json \<Rightarrow> Kappa api" where
  "parse_kappa U F s =
     (if s = JNull then Inr K0
      else (case kappa_of (py_of_json s) of
              Inl e \<Rightarrow> Inl (ApiError 400 (str ''invalid min_kappa: '' @ json_repr U F s))
            | Inr k \<Rightarrow> Inr k))"

definition parse_node :: "json \<Rightarrow> raw_node api" where
  "parse_node d =
     (case d of
        JObj m \<Rightarrow>
          (case map_of m (str ''claim'') of
             Some (JStr claim) \<Rightarrow>
               if claim = [] then Inl (ApiError 400 (str ''node.claim must be a non-empty string''))
               else Inr \<lparr> rn_claim = claim,
                 rn_domain = (case map_of m (str ''domain'') of None \<Rightarrow> jstr ''math'' | Some v \<Rightarrow> v),
                 rn_polarity =
                   (case map_of m (str ''polarity'') of None \<Rightarrow> True | Some v \<Rightarrow> json_truthy v) \<rparr>
           | _ \<Rightarrow> Inl (ApiError 400 (str ''node.claim must be a non-empty string'')))
      | _ \<Rightarrow> Inl (ApiError 400 (str ''node must be an object'')))"

definition parse_edge_type :: "unicode \<Rightarrow> floats \<Rightarrow> json \<Rightarrow> EdgeType api" where
  "parse_edge_type U F s =
     (case edge_type_of (py_of_json s) of
        Inl e \<Rightarrow> Inl (ApiError 400 (str ''invalid edge_type: '' @ json_repr U F s))
      | Inr t \<Rightarrow> Inr t)"

section \<open>Queries\<close>

definition query_reachable :: "('e, 'f, 'o, 'm) api_world \<Rightarrow> reader \<Rightarrow> json \<Rightarrow> json api" where
  "query_reachable W storage body =
     (let E = aw_env W in
      bind_api (parse_node body) (\<lambda>node.
      bind_api (bind_api (json_get body ''min_kappa'' JNull) (parse_kappa (aw_unicode W) (aw_floats W))) (\<lambda>m.
      bind_api (of_res (raw_id E node)) (\<lambda>target.
      bind_api (of_res (reachable E storage target m [] None)) (\<lambda>r.
      bind_api (node_to_dict E node) (\<lambda>t.
        Inr (JObj [(str ''target'', t),
                   (str ''min_kappa'', JStr (kappa_value m)),
                   (str ''established'', JBool (rr_established r)),
                   (str ''kappa'', opt_json (\<lambda>k. JStr (kappa_value k)) (rr_kappa r)),
                   (str ''depth'', opt_json (\<lambda>d. JInt (int d)) (rr_depth r)),
                   (str ''proof_tree_edges'', JList (map h_json (rr_proof_tree_edges r)))])))))))"

definition missing_to_dict :: "missing_edge \<Rightarrow> json" where
  "missing_to_dict m =
     JObj [(str ''conclusion'', h_json (me_conclusion m)),
           (str ''premises'', JList (map h_json (me_premises m))),
           (str ''blocking_nodes'', JList (map h_json (me_blocking_nodes m))),
           (str ''rule'', JStr (me_rule m))]"

definition query_path :: "('e, 'f, 'o, 'm) api_world \<Rightarrow> reader \<Rightarrow> json \<Rightarrow> json api" where
  "query_path W storage body =
     (let E = aw_env W in
      bind_api (parse_node body) (\<lambda>node.
      bind_api (bind_api (json_get body ''min_kappa'' JNull) (parse_kappa (aw_unicode W) (aw_floats W))) (\<lambda>m.
      bind_api (of_res (raw_id E node)) (\<lambda>target.
      bind_api (of_res (path_discovery E storage target m)) (\<lambda>r.
      bind_api (node_to_dict E node) (\<lambda>t.
        Inr (JObj [(str ''target'', t),
                   (str ''min_kappa'', JStr (kappa_value m)),
                   (str ''reachable'', JBool (pr_reachable r)),
                   (str ''depth'', opt_json (\<lambda>d. JInt (int d)) (pr_depth r)),
                   (str ''kappa'', opt_json (\<lambda>k. JStr (kappa_value k)) (pr_kappa r)),
                   (str ''missing_edges'', JList (map missing_to_dict (pr_missing_edges r)))])))))))"

text \<open>The records of a list of addresses; an address that does not resolve is left out.\<close>

fun resolved_dicts :: "(hash \<Rightarrow> 'a option res) \<Rightarrow> ('a \<Rightarrow> json api) \<Rightarrow> hash list \<Rightarrow> json list api" where
  "resolved_dicts get_record to_dict [] = Inr []"
| "resolved_dicts get_record to_dict (h # hs) =
     bind_api (of_res (get_record h)) (\<lambda>r.
       case r of
         None \<Rightarrow> resolved_dicts get_record to_dict hs
       | Some a \<Rightarrow>
           bind_api (to_dict a) (\<lambda>d.
           bind_api (resolved_dicts get_record to_dict hs) (\<lambda>ds. Inr (d # ds))))"

definition query_graph :: "('e, 'f, 'o, 'm) api_world \<Rightarrow> reader \<Rightarrow> json api" where
  "query_graph W storage =
     (let E = aw_env W in
      bind_api (of_res (rd_all_nodes storage)) (\<lambda>ns.
      bind_api (resolved_dicts (resolve_node E storage) (\<lambda>n. node_to_dict E (raw_of n)) ns) (\<lambda>nodes.
      bind_api (of_res (rd_all_edges storage)) (\<lambda>es.
      bind_api (resolved_dicts (resolve_edge E storage) (edge_to_dict E) es) (\<lambda>edges.
        Inr (JObj [(str ''nodes'', JList nodes), (str ''edges'', JList edges)]))))))"

section \<open>Reproduction and attestation\<close>

text \<open>A computation that may call a checker, which may never return.\<close>

type_synonym 'a answer = "'a api option"

definition bind_answer :: "'a answer \<Rightarrow> ('a \<Rightarrow> 'b answer) \<Rightarrow> 'b answer" where
  "bind_answer r f = (case r of None \<Rightarrow> None | Some (Inl e) \<Rightarrow> Some (Inl e) | Some (Inr a) \<Rightarrow> f a)"

definition of_run :: "'a run \<Rightarrow> 'a answer" where
  "of_run r =
     (case r of None \<Rightarrow> None | Some (Inl (e, t)) \<Rightarrow> Some (Inl (Raised e t)) | Some (Inr a) \<Rightarrow> Some (Inr a))"

lemma bind_answer_simps [simp]:
  "bind_answer None f = None" "bind_answer (Some (Inl e)) f = Some (Inl e)" "bind_answer (Some (Inr a)) f = f a"
  by (simp_all add: bind_answer_def)

lemma of_run_simps [simp]:
  "of_run None = None" "of_run (Some (Inl (e, t))) = Some (Inl (Raised e t))" "of_run (Some (Inr a)) = Some (Inr a)"
  by (simp_all add: of_run_def)

definition found_edge :: "('e, 'f, 'o, 'm) api_world \<Rightarrow> reader \<Rightarrow> hash \<Rightarrow> edge api" where
  "found_edge W storage eh =
     bind_api (of_res (resolve_edge (aw_env W) storage eh)) (\<lambda>e.
       case e of None \<Rightarrow> Inl (ApiError 404 (str ''edge not found'')) | Some e \<Rightarrow> Inr e)"

definition found_node :: "('e, 'f, 'o, 'm) api_world \<Rightarrow> reader \<Rightarrow> string \<Rightarrow> hash \<Rightarrow> node api" where
  "found_node W storage role h =
     bind_api (of_res (resolve_node (aw_env W) storage h)) (\<lambda>n.
       case n of
         None \<Rightarrow> Inl (ApiError 500 (str role @ str '' node '' @ hex h @ str '' not resolvable''))
       | Some n \<Rightarrow> Inr n)"

text \<open>The report of \<open>reproduce\<close> once everything it shows is there.\<close>

definition reproduction ::
    "env \<Rightarrow> edge \<Rightarrow> node list \<Rightarrow> node \<Rightarrow> bytes option \<Rightarrow> verification_result \<Rightarrow> attestation_result \<Rightarrow> json api" where
  "reproduction E edge premises conclusion proof_bytes re_verify attestation =
     (let verdict_match = (vr_verdict re_verify = e_verdict edge);
          kappa_match = (vr_kappa re_verify = e_kappa edge) in
      bind_api (edge_to_dict E edge) (\<lambda>e.
      bind_api (map_api (\<lambda>n. node_to_dict E (raw_of n)) premises) (\<lambda>ps.
      bind_api (node_to_dict E (raw_of conclusion)) (\<lambda>c.
        Inr (JObj
          [(str ''edge'', e),
           (str ''premises'', JList ps),
           (str ''conclusion'', c),
           (str ''rule'', JStr (e_rule edge)),
           (str ''proof'', opt_json (\<lambda>b. JStr (b64encode b)) proof_bytes),
           (str ''embedded'', JObj [(str ''verdict'', JStr (verdict_value (e_verdict edge))),
                                    (str ''kappa'', JStr (kappa_value (e_kappa edge)))]),
           (str ''re_verified'', verification_to_dict re_verify),
           (str ''verdict_match'', JBool verdict_match),
           (str ''kappa_match'', JBool kappa_match),
           (str ''attestation'', JObj
             [(str ''signer_agent_id'', opt_json JStr (at_signer_agent_id attestation)),
              (str ''signature_valid'', JBool (at_signature_valid attestation)),
              (str ''proof_bound'', JBool (at_proof_bound attestation)),
              (str ''proof_intact'', JBool (at_proof_intact attestation)),
              (str ''ok'', JBool (attestation_ok attestation))]),
           (str ''reproduced'', JBool (verdict_match \<and> kappa_match \<and> attestation_ok attestation))])))))"

definition reproduce :: "('e, 'f, 'o, 'm) api_world \<Rightarrow> reader \<Rightarrow> roster \<Rightarrow> json \<Rightarrow> json answer" where
  "reproduce W storage R body =
     (let E = aw_env W; U = aw_unicode W in
      bind_answer (Some (
        bind_api (bind_api (json_item U body ''edge_hash'') (hex_to_hash U)) (\<lambda>eh.
        bind_api (found_edge W storage eh) (\<lambda>edge.
        bind_api (map_api (found_node W storage ''premise'') (e_premises edge)) (\<lambda>premises.
        bind_api (found_node W storage ''conclusion'' (e_conclusion edge)) (\<lambda>conclusion.
        bind_api (case e_proof_hash edge of None \<Rightarrow> Inr None | Some ph \<Rightarrow> of_res (rd_get storage ph)) (\<lambda>pf.
          Inr (edge, premises, conclusion, pf))))))))
        (\<lambda>(edge, premises, conclusion, pf).
      bind_answer (of_run (verify (aw_provers W) premises conclusion (e_rule edge) (e_type edge) pf five_seconds))
        (\<lambda>re_verify.
      Some (bind_api (of_res (verify_edge_attestation E edge storage R)) (\<lambda>attestation.
        reproduction E edge premises conclusion pf re_verify attestation)))))"

definition attest :: "('e, 'f, 'o, 'm) api_world \<Rightarrow> reader \<Rightarrow> roster \<Rightarrow> json \<Rightarrow> json api" where
  "attest W storage R body =
     (let U = aw_unicode W in
      bind_api (bind_api (json_item U body ''edge_hash'') (hex_to_hash U)) (\<lambda>eh.
      bind_api (found_edge W storage eh) (\<lambda>edge.
      bind_api (of_res (verify_edge_attestation (aw_env W) edge storage R)) (\<lambda>a.
        Inr (JObj
          [(str ''edge_hash'', h_json eh),
           (str ''signer_agent_id'', opt_json JStr (at_signer_agent_id a)),
           (str ''signature_valid'', JBool (at_signature_valid a)),
           (str ''proof_bound'', JBool (at_proof_bound a)),
           (str ''proof_intact'', JBool (at_proof_intact a)),
           (str ''ok'', JBool (attestation_ok a))])))))"

definition anchor_record_endpoint ::
    "('e, 'f, 'o, 'm) api_world \<Rightarrow> int \<Rightarrow> reader \<Rightarrow> roster \<Rightarrow> json api" where
  "anchor_record_endpoint W now storage R =
     bind_api (of_res (anchor (aw_env W) now storage R)) (\<lambda>a.
       Inr (JObj
         [(str ''root_hash'', h_json (an_root_hash a)),
          (str ''entry_count'', JInt (an_entry_count a)),
          (str ''timestamp_ns'', JInt (an_timestamp_ns a)),
          (str ''roster_hash'', h_json (an_roster_hash a))]))"

definition verify_history_endpoint :: "('e, 'f, 'o, 'm) api_world \<Rightarrow> reader \<Rightarrow> json \<Rightarrow> json api" where
  "verify_history_endpoint W storage body =
     (let U = aw_unicode W in
      bind_api (bind_api (json_item U body ''root_hash'') (hex_to_hash U)) (\<lambda>root.
      bind_api (of_res (verify_history (aw_env W) storage root)) (\<lambda>ok.
        Inr (JObj [(str ''root_hash'', h_json root), (str ''valid'', JBool ok)]))))"

section \<open>Authoring\<close>

record commit_request =
  cq_premises :: "node list"
  cq_conclusion :: node
  cq_rule :: pystr
  cq_edge_type :: EdgeType
  cq_proof :: "bytes option"
  cq_signer :: bytes
  cq_timeout :: timeout

definition parse_proof :: "json \<Rightarrow> bytes option api" where
  "parse_proof v =
     (if \<not> json_truthy v then Inr None
      else (case v of
              JStr s \<Rightarrow> bind_api (of_res (b64decode s)) (\<lambda>b. Inr (Some b))
            | _ \<Rightarrow> Inl (Raised TypeError [])))"

definition parse_timeout :: "floats \<Rightarrow> json option \<Rightarrow> timeout api" where
  "parse_timeout F v =
     (case v of
        None \<Rightarrow> Inr five_seconds
      | Some j \<Rightarrow>
          bind_api (json_float F j) (\<lambda>x. case fl_budget F x of None \<Rightarrow> Inl Outside | Some t \<Rightarrow> Inr t))"

text \<open>
  The arguments in the order the code reads them; their types are looked at last, when nothing else is wrong
  with the body.
\<close>

definition parse_commit :: "('e, 'f, 'o, 'm) api_world \<Rightarrow> bytes \<Rightarrow> json \<Rightarrow> commit_request api" where
  "parse_commit W default_signer body =
     (let U = aw_unicode W; F = aw_floats W in
      bind_api (bind_api (bind_api (json_get body ''premises'' (JList [])) json_iter) (map_api parse_node)) (\<lambda>premises.
      bind_api (bind_api (json_item U body ''conclusion'') parse_node) (\<lambda>conclusion.
      bind_api (json_get body ''rule'' (JStr [])) (\<lambda>rule.
      bind_api (bind_api (json_item U body ''edge_type'') (parse_edge_type U F)) (\<lambda>edge_type.
      bind_api (bind_api (json_get body ''proof'' JNull) parse_proof) (\<lambda>pf.
      bind_api (bind_api (json_get body ''signer_pubkey'' JNull)
          (\<lambda>v. if json_truthy v then parse_pubkey U v else Inr default_signer)) (\<lambda>signer.
      bind_api (parse_timeout F (case body of JObj d \<Rightarrow> map_of d (str ''timeout_seconds'') | _ \<Rightarrow> None)) (\<lambda>timeout.
      bind_api (map_api typed_node premises) (\<lambda>ps.
      bind_api (typed_node conclusion) (\<lambda>c.
      bind_api (case rule of JStr r \<Rightarrow> Inr r | _ \<Rightarrow> Inl Outside) (\<lambda>r.
        Inr \<lparr> cq_premises = ps, cq_conclusion = c, cq_rule = r, cq_edge_type = edge_type, cq_proof = pf,
              cq_signer = signer, cq_timeout = timeout \<rparr>)))))))))))"

definition commit_report :: "env \<Rightarrow> commit_result \<Rightarrow> json api" where
  "commit_report E cr =
     bind_api (case cm_edge cr of None \<Rightarrow> Inr JNull | Some e \<Rightarrow> edge_to_dict E e) (\<lambda>e.
       Inr (JObj [(str ''rejected'', JBool (cm_rejected cr)),
                  (str ''verification'', verification_to_dict (cm_verification cr)),
                  (str ''edge'', e),
                  (str ''edge_hash'', opt_json h_json (cm_edge_hash cr))]))"

definition commit ::
    "('e, 'f, 'o, 'm) api_world \<Rightarrow> int \<Rightarrow> bytes \<Rightarrow> json \<Rightarrow> storage \<Rightarrow> (storage \<times> json api) option" where
  "commit W now default_signer body s =
     (case parse_commit W default_signer body of
        Inl e \<Rightarrow> Some (s, Inl e)
      | Inr q \<Rightarrow>
          (case verify_and_commit (aw_env W) (aw_provers W) now (cq_signer q) (cq_premises q) (cq_conclusion q)
                  (cq_rule q) (cq_edge_type q) (cq_proof q) (cq_timeout q) s of
             None \<Rightarrow> None
           | Some (s', Inl (e, t)) \<Rightarrow> Some (s', Inl (Raised e t))
           | Some (s', Inr cr) \<Rightarrow> Some (s', commit_report (aw_env W) cr)))"

section \<open>Transport\<close>

datatype http_method = GET | POST

text \<open>
  A request: its path with the query string, the text of its \<open>Content-Length\<close> header, and what the client
  sends behind the headers before it closes its side.
\<close>

record http_request =
  hq_method :: http_method
  hq_path :: pystr
  hq_length :: "pystr option"
  hq_stream :: bytes

record http_response =
  hr_status :: nat
  hr_headers :: "(pystr \<times> pystr) list"
  hr_body :: bytes

record app =
  ap_storage :: storage
  ap_roster :: roster
  ap_signer :: bytes

definition send_json :: "floats \<Rightarrow> nat \<Rightarrow> json \<Rightarrow> http_response" where
  "send_json F status payload =
     (let data = encode_ascii (json_dumps F payload) in
      \<lparr> hr_status = status,
        hr_headers = [(str ''Content-Type'', str ''application/json''),
                      (str ''Content-Length'', nat_text (length data))],
        hr_body = data \<rparr>)"

definition read_body :: "unicode \<Rightarrow> floats \<Rightarrow> http_request \<Rightarrow> json api" where
  "read_body U F rq =
     (case (case hq_length rq of None \<Rightarrow> Some 0 | Some t \<Rightarrow> py_int U t) of
        None \<Rightarrow> Inl (Raised ValueError [])
      | Some n \<Rightarrow>
          let raw = (if n = 0 then [123, 125]
                     else if n < 0 then hq_stream rq else take (nat n) (hq_stream rq))
          in if raw = [] then Inr (JObj [])
             else (case and_then (decode_utf8 raw) (json_loads F) of
                     Inl e \<Rightarrow>
                       if e = JSONDecodeError then Inl (ApiError 400 (str ''request body is not valid JSON''))
                       else Inl (Raised e [])
                   | Inr v \<Rightarrow> Inr v))"

definition version :: pystr where
  "version = str ''0.1.0''"

definition method_text :: "http_method \<Rightarrow> pystr" where
  "method_text m = (case m of GET \<Rightarrow> str ''GET'' | POST \<Rightarrow> str ''POST'')"

text \<open>The status and payload of a request, or the exception its handling raises, with the storage it leaves.\<close>

definition ok200 :: "json api \<Rightarrow> (nat \<times> json) api" where
  "ok200 r = bind_api r (\<lambda>v. Inr (200, v))"

definition dispatch ::
    "('e, 'f, 'o, 'm) api_world \<Rightarrow> int \<Rightarrow> app \<Rightarrow> http_request \<Rightarrow> (storage \<times> (nat \<times> json) api) option" where
  "dispatch W now ap rq =
     (let E = aw_env W; s = ap_storage ap; rd = sqlite_reader E s;
          path = takeWhile (\<lambda>c. c \<noteq> 63) (hq_path rq); get = (hq_method rq = GET) in
      if get \<and> path = str ''/health''
      then Some (s, ok200 (Inr (JObj [(str ''status'', jstr ''ok''), (str ''version'', JStr version)])))
      else if get \<and> path = str ''/anchor''
      then Some (s, ok200 (anchor_record_endpoint W now rd (ap_roster ap)))
      else if get \<and> path = str ''/query/graph'' then Some (s, ok200 (query_graph W rd))
      else (case read_body (aw_unicode W) (aw_floats W) rq of
        Inl e \<Rightarrow> Some (s, Inl e)
      | Inr body \<Rightarrow>
          if \<not> get \<and> path = str ''/query/reachable'' then Some (s, ok200 (query_reachable W rd body))
          else if \<not> get \<and> path = str ''/query/path'' then Some (s, ok200 (query_path W rd body))
          else if \<not> get \<and> path = str ''/reproduce''
          then map_option (\<lambda>r. (s, ok200 r)) (reproduce W rd (ap_roster ap) body)
          else if \<not> get \<and> path = str ''/attest'' then Some (s, ok200 (attest W rd (ap_roster ap) body))
          else if \<not> get \<and> path = str ''/verify_history''
          then Some (s, ok200 (verify_history_endpoint W rd body))
          else if \<not> get \<and> path = str ''/commit''
          then map_option (\<lambda>(s', r). (s', ok200 r)) (commit W now (ap_signer ap) body s)
          else Some (s, Inr (404, JObj [(str ''error'',
            JStr (str ''no route for '' @ method_text (hq_method rq) @ [32] @ path))]))))"

definition error_payload :: "pystr \<Rightarrow> json" where
  "error_payload msg = JObj [(str ''error'', JStr msg)]"

definition exn_text :: "('e, 'f, 'o, 'm) api_world \<Rightarrow> py_error \<Rightarrow> pystr \<Rightarrow> pystr" where
  "exn_text W e t = (if t = [] then aw_text W e else t)"

text \<open>The \<open>except\<close> clauses; \<open>None\<close> for what is outside the model.\<close>

definition settle :: "('e, 'f, 'o, 'm) api_world \<Rightarrow> (nat \<times> json) api \<Rightarrow> (nat \<times> json) option" where
  "settle W r =
     (case r of
        Inr answer \<Rightarrow> Some answer
      | Inl (ApiError status msg) \<Rightarrow> Some (status, error_payload msg)
      | Inl (Raised e t) \<Rightarrow>
          if e = KeyError then Some (400, error_payload (str ''missing field: '' @ exn_text W e t))
          else Some (500, error_payload (str ''internal error: '' @ exn_text W e t))
      | Inl Outside \<Rightarrow> None)"

text \<open>
  A request whose handling the model follows: whatever it is, unless it is a commit in which nothing else is
  wrong, but the rule or a domain is no text, or the time limit is not finite.
\<close>

definition is_commit :: "http_request \<Rightarrow> bool" where
  "is_commit rq \<longleftrightarrow> hq_method rq = POST \<and> takeWhile (\<lambda>c. c \<noteq> 63) (hq_path rq) = str ''/commit''"

definition well_typed :: "('e, 'f, 'o, 'm) api_world \<Rightarrow> app \<Rightarrow> http_request \<Rightarrow> bool" where
  "well_typed W ap rq \<longleftrightarrow>
     (is_commit rq \<longrightarrow>
       (case read_body (aw_unicode W) (aw_floats W) rq of
          Inl e \<Rightarrow> True
        | Inr body \<Rightarrow> parse_commit W (ap_signer ap) body \<noteq> Inl Outside))"

text \<open>
  One request: the application afterwards and the response. No result: a checker does not return, or the
  request is not \<open>well_typed\<close> and the model says nothing about it.
\<close>

definition handle ::
    "('e, 'f, 'o, 'm) api_world \<Rightarrow> int \<Rightarrow> app \<Rightarrow> http_request \<Rightarrow> (app \<times> http_response) option" where
  "handle W now ap rq =
     (case dispatch W now ap rq of
        None \<Rightarrow> None
      | Some (s, r) \<Rightarrow>
          map_option (\<lambda>(status, payload). (ap\<lparr>ap_storage := s\<rparr>, send_json (aw_floats W) status payload))
            (settle W r))"

end
