(* ===== verification/Api_Correct.thy ===== *)
theory Api_Correct
  imports Api
begin

text \<open>
  What the HTTP API does, seen from a client that posts JSON as \<^verbatim>\<open>examples/08-public-api/client.py\<close> does:
  the body the handler reads is the value posted; a posted commit is the in-process
  \<open>verify_and_commit\<close>; every other request leaves the storage alone; the queries report what the query
  layer computes; and what was committed is reproduced.
\<close>

section \<open>The client\<close>

definition client_post :: "floats \<Rightarrow> pystr \<Rightarrow> json \<Rightarrow> http_request" where
  "client_post F path body =
     (let data = encode_ascii (json_dumps F body) in
      \<lparr> hq_method = POST, hq_path = path, hq_length = Some (nat_text (length data)), hq_stream = data \<rparr>)"

definition client_get :: "pystr \<Rightarrow> http_request" where
  "client_get path = \<lparr> hq_method = GET, hq_path = path, hq_length = None, hq_stream = [] \<rparr>"

text \<open>What the client makes of a response: \<open>urlopen\<close> raises on a status that is not a success.\<close>

definition client_read :: "floats \<Rightarrow> http_response \<Rightarrow> json res" where
  "client_read F rs =
     (if 200 \<le> hr_status rs \<and> hr_status rs < 300
      then and_then (decode_utf8 (hr_body rs)) (json_loads F)
      else Inl (OtherError (str ''HTTPError'')))"

text \<open>A body that survives the wire; the bound on its length is that of \<open>int\<close> on the header.\<close>

definition sendable :: "floats \<Rightarrow> json \<Rightarrow> bool" where
  "sendable F v \<longleftrightarrow> json_ok v \<and> length (nat_text (length (json_dumps F v))) \<le> 4300"

section \<open>Reading the body\<close>

lemma digit_val_digit: "is_digit c \<Longrightarrow> digit_val U c = Some (c - 48)"
  by (simp add: digit_val_def is_digit_def)

lemma int_digits_value:
  "list_all is_digit ds \<Longrightarrow> ok \<or> ds \<noteq> [] \<Longrightarrow>
     int_digits U (int n) ok ds = Some (int (foldl (\<lambda>n d. 10 * n + (d - 48)) n ds))"
proof (induction ds arbitrary: n ok)
  case (Cons d ds)
  then have d: "is_digit d" by simp
  then have "d \<noteq> 95" "digit_val U d = Some (d - 48)" by (auto simp: digit_val_digit is_digit_def)
  moreover have "int_digits U (int (10 * n + (d - 48))) True ds =
      Some (int (foldl (\<lambda>n d. 10 * n + (d - 48)) (10 * n + (d - 48)) ds))"
    using Cons.IH [of True "10 * n + (d - 48)"] Cons.prems by simp
  ultimately show ?case by simp
qed simp

lemma strip_digits: "list_all is_digit ds \<Longrightarrow> strip ds = ds"
proof -
  assume ds: "list_all is_digit ds"
  then have "dropWhile is_space ds = ds"
    by (cases ds) (auto simp: is_space_def is_digit_def)
  moreover have "dropWhile is_space (rev ds) = rev ds"
    using ds by (cases ds rule: rev_cases) (auto simp: is_space_def is_digit_def)
  ultimately show ?thesis by (simp add: strip_def)
qed

lemma py_int_nat_text:
  assumes "length (nat_text n) \<le> 4300"
  shows "py_int U (nat_text n) = Some (int n)"
proof -
  have ds: "nat_text n \<noteq> []" "list_all is_digit (nat_text n)" using nat_text_digits by blast+
  obtain c r where c: "nat_text n = c # r" using ds(1) by (cases "nat_text n") auto
  with ds(2) have "c \<noteq> 45" "c \<noteq> 43" by (auto simp: is_digit_def)
  moreover have "length (filter (\<lambda>c. digit_val U c \<noteq> None) (nat_text n)) \<le> 4300"
    using assms length_filter_le le_trans by blast
  moreover have "int_digits U 0 False (nat_text n) = Some (int n)"
    using int_digits_value [OF ds(2), of False U 0] ds(1) digits_value_nat_text [of n]
    by (simp add: digits_value_def)
  ultimately show ?thesis using strip_digits [OF ds(2)] by (auto simp: py_int_def c split: if_splits)
qed

lemma json_dumps_nonempty:
  assumes "float_spec F" and "json_ok v"
  shows "json_dumps F v \<noteq> []"
  using json_prints [OF assms] by (auto simp: prints_def)

lemma length_encode_ascii [simp]: "length (encode_ascii s) = length s"
  by (simp add: encode_ascii_def)

lemma read_body_post:
  assumes "float_spec F" and "sendable F v"
  shows "read_body U F (client_post F path v) = Inr v"
proof -
  let ?data = "encode_ascii (json_dumps F v)"
  have ok: "json_ok v" and len: "length (nat_text (length ?data)) \<le> 4300"
    using assms(2) by (simp_all add: sendable_def)
  have "0 < length ?data" using json_dumps_nonempty [OF assms(1) ok] by simp
  then have "?data \<noteq> []" by (metis length_greater_0_conv)
  moreover have "py_int U (nat_text (length ?data)) = Some (int (length ?data))"
    by (rule py_int_nat_text [OF len])
  ultimately show ?thesis
    using json_bytes_roundtrip [OF assms(1) ok]
    by (simp add: read_body_def client_post_def Let_def del: length_encode_ascii)
qed

lemma read_body_delimited:
  assumes "float_spec F" and "sendable F v" and "rq = client_post F path v"
  shows "read_body U F (rq\<lparr>hq_stream := hq_stream rq @ rest\<rparr>) = read_body U F rq"
proof -
  let ?data = "encode_ascii (json_dumps F v)"
  have ok: "json_ok v" and len: "length (nat_text (length ?data)) \<le> 4300"
    using assms(2) by (simp_all add: sendable_def)
  have "?data \<noteq> []" using json_dumps_nonempty [OF assms(1) ok] by (metis length_0_conv length_encode_ascii)
  moreover have "py_int U (nat_text (length ?data)) = Some (int (length ?data))"
    by (rule py_int_nat_text [OF len])
  ultimately show ?thesis
    by (simp add: read_body_def assms(3) client_post_def Let_def del: length_encode_ascii)
qed

lemma read_body_no_fuel: "read_body U F rq \<noteq> Inl (Raised Out_Of_Fuel [])"
proof -
  have "decode_utf8 raw \<noteq> Inl Out_Of_Fuel" for raw
    by (auto simp: decode_utf8_def Out_Of_Fuel_def split: option.splits)
  then have "and_then (decode_utf8 raw) (json_loads F) \<noteq> Inl Out_Of_Fuel" for raw
    using json_loads_no_fuel [of F] by (cases "decode_utf8 raw") auto
  moreover have "ValueError \<noteq> Out_Of_Fuel" by (simp add: Out_Of_Fuel_def)
  ultimately show ?thesis
    by (auto simp: read_body_def Let_def split: option.splits sum.splits)
qed

lemma read_body_get: "read_body U F (client_get path) = Inr (JObj [])"
proof -
  have "utf8 (map unat ([123, 125] :: bytes)) = Some [123, 125]" by simp
  moreover have "json_loads F [123, 125] = Inr (JObj [])"
    using scan_value.simps(2) [of F 4 "[123, 125]"] by (simp add: json_loads_def json_space_def)
  ultimately show ?thesis
    by (simp add: read_body_def client_get_def Let_def decode_utf8_def)
qed

text \<open>The client reads the payload that was sent.\<close>

lemma client_read_send:
  assumes "float_spec F" and "json_ok v" and "200 \<le> status" and "status < 300"
  shows "client_read F (send_json F status v) = Inr v"
  using json_bytes_roundtrip [OF assms(1,2)] assms(3,4) by (simp add: client_read_def send_json_def Let_def)

section \<open>Endpoints\<close>

text \<open>A posted body reaches its endpoint.\<close>

lemma dispatch_post:
  assumes "read_body (aw_unicode W) (aw_floats W) rq = Inr body" and "hq_method rq = POST"
  shows
    "hq_path rq = str ''/query/reachable'' \<Longrightarrow> dispatch W now ap rq =
       Some (ap_storage ap, ok200 (query_reachable W (sqlite_reader (aw_env W) (ap_storage ap)) body))"
    "hq_path rq = str ''/query/path'' \<Longrightarrow> dispatch W now ap rq =
       Some (ap_storage ap, ok200 (query_path W (sqlite_reader (aw_env W) (ap_storage ap)) body))"
    "hq_path rq = str ''/reproduce'' \<Longrightarrow> dispatch W now ap rq =
       map_option (\<lambda>r. (ap_storage ap, ok200 r))
         (reproduce W (sqlite_reader (aw_env W) (ap_storage ap)) (ap_roster ap) body)"
    "hq_path rq = str ''/attest'' \<Longrightarrow> dispatch W now ap rq =
       Some (ap_storage ap, ok200 (attest W (sqlite_reader (aw_env W) (ap_storage ap)) (ap_roster ap) body))"
    "hq_path rq = str ''/verify_history'' \<Longrightarrow> dispatch W now ap rq =
       Some (ap_storage ap, ok200 (verify_history_endpoint W (sqlite_reader (aw_env W) (ap_storage ap)) body))"
    "hq_path rq = str ''/commit'' \<Longrightarrow> dispatch W now ap rq =
       map_option (\<lambda>(s', r). (s', ok200 r)) (commit W now (ap_signer ap) body (ap_storage ap))"
  using assms by (simp_all add: dispatch_def Let_def)

lemma dispatch_get:
  "hq_method rq = GET \<Longrightarrow> hq_path rq = str ''/anchor'' \<Longrightarrow> dispatch W now ap rq =
     Some (ap_storage ap, ok200 (anchor_record_endpoint W now (sqlite_reader (aw_env W) (ap_storage ap)) (ap_roster ap)))"
  "hq_method rq = GET \<Longrightarrow> hq_path rq = str ''/query/graph'' \<Longrightarrow> dispatch W now ap rq =
     Some (ap_storage ap, ok200 (query_graph W (sqlite_reader (aw_env W) (ap_storage ap))))"
  by (simp_all add: dispatch_def Let_def)

lemma client_post_simps [simp]: "hq_method (client_post F path v) = POST" "hq_path (client_post F path v) = path"
  by (simp_all add: client_post_def Let_def)

lemma client_get_simps [simp]: "hq_method (client_get path) = GET" "hq_path (client_get path) = path"
  by (simp_all add: client_get_def)

lemma handle_ok:
  "dispatch W now ap rq = Some (s, ok200 (Inr v)) \<Longrightarrow>
     handle W now ap rq = Some (ap\<lparr>ap_storage := s\<rparr>, send_json (aw_floats W) 200 v)"
  by (simp add: handle_def ok200_def settle_def)

lemma same_app [simp]: "ap\<lparr>ap_storage := ap_storage ap\<rparr> = ap"
  by simp

section \<open>Only a commit changes the storage\<close>

lemma commit_runs:
  assumes "commit W now signer body s = Some (s', r)"
  shows "s' = s \<or> (\<exists>q out. parse_commit W signer body = Inr q \<and>
    verify_and_commit (aw_env W) (aw_provers W) now (cq_signer q) (cq_premises q)
      (cq_conclusion q) (cq_rule q) (cq_edge_type q) (cq_proof q) (cq_timeout q) s = Some (s', out))"
proof (cases "parse_commit W signer body")
  case (Inr q)
  obtain out where "verify_and_commit (aw_env W) (aw_provers W) now (cq_signer q) (cq_premises q)
      (cq_conclusion q) (cq_rule q) (cq_edge_type q) (cq_proof q) (cq_timeout q) s = Some (s', out)"
    using assms Inr by (auto simp: commit_def split: option.splits sum.splits)
  with Inr show ?thesis by blast
qed (use assms in \<open>simp add: commit_def\<close>)

lemma dispatch_storage:
  assumes "dispatch W now ap rq = Some (s, r)"
  shows "s = ap_storage ap \<or>
    (is_commit rq \<and> (\<exists>body q out. read_body (aw_unicode W) (aw_floats W) rq = Inr body \<and>
       parse_commit W (ap_signer ap) body = Inr q \<and>
       verify_and_commit (aw_env W) (aw_provers W) now (cq_signer q) (cq_premises q)
       (cq_conclusion q) (cq_rule q) (cq_edge_type q) (cq_proof q) (cq_timeout q) (ap_storage ap) = Some (s, out)))"
proof (cases "read_body (aw_unicode W) (aw_floats W) rq")
  case (Inl e)
  with assms show ?thesis by (auto simp: dispatch_def Let_def split: if_splits)
next
  case (Inr body)
  show ?thesis
  proof (cases "is_commit rq")
    case True
    then have "dispatch W now ap rq =
        map_option (\<lambda>(s', r). (s', ok200 r)) (commit W now (ap_signer ap) body (ap_storage ap))"
      using Inr by (simp add: dispatch_def Let_def is_commit_def)
    with assms obtain r' where "commit W now (ap_signer ap) body (ap_storage ap) = Some (s, r')" by auto
    from commit_runs [OF this] True Inr show ?thesis by blast
  next
    case False
    with assms Inr show ?thesis
      by (cases "hq_method rq") (auto simp: dispatch_def Let_def is_commit_def split: if_splits)
  qed
qed

section \<open>A posted commit\<close>

definition node_body :: "node \<Rightarrow> json" where
  "node_body n =
     JObj [(str ''claim'', JStr (n_claim n)), (str ''domain'', JStr (n_domain n)),
           (str ''polarity'', JBool (n_polarity n))]"

definition commit_body ::
    "node list \<Rightarrow> node \<Rightarrow> pystr \<Rightarrow> EdgeType \<Rightarrow> bytes option \<Rightarrow> bytes \<Rightarrow> json" where
  "commit_body prems c rule et p signer =
     JObj [(str ''premises'', JList (map node_body prems)), (str ''conclusion'', node_body c),
           (str ''rule'', JStr rule), (str ''edge_type'', JStr (edge_type_value et)),
           (str ''proof'', opt_json (\<lambda>b. JStr (b64encode b)) p),
           (str ''signer_pubkey'', JStr (hex signer))]"

text \<open>What the endpoint refuses: a claim without text, a key of another length; and it drops an empty proof.\<close>

definition postable :: "node list \<Rightarrow> node \<Rightarrow> bytes option \<Rightarrow> bytes \<Rightarrow> bool" where
  "postable prems c p signer \<longleftrightarrow>
     (\<forall>n \<in> set (c # prems). n_claim n \<noteq> []) \<and> p \<noteq> Some [] \<and> length signer = 32"

lemma parse_node_body: "n_claim n \<noteq> [] \<Longrightarrow> parse_node (node_body n) = Inr (raw_of n)"
  by (simp add: parse_node_def node_body_def raw_of_def)

lemma typed_raw: "typed_node (raw_of n) = Inr n"
  by (simp add: typed_node_def raw_of_def)

lemma map_api_Inr: "(\<And>x. x \<in> set xs \<Longrightarrow> f x = Inr (g x)) \<Longrightarrow> map_api f xs = Inr (map g xs)"
  by (induction xs) auto

lemma map_api_parse:
  "\<forall>n \<in> set ns. n_claim n \<noteq> [] \<Longrightarrow> map_api parse_node (map node_body ns) = Inr (map raw_of ns)"
  by (induction ns) (auto simp: parse_node_body)

lemma map_api_typed: "map_api typed_node (map raw_of ns) = Inr ns"
  by (induction ns) (auto simp: typed_raw)

lemma parse_proof_body: "p \<noteq> Some [] \<Longrightarrow> parse_proof (opt_json (\<lambda>b. JStr (b64encode b)) p) = Inr p"
  by (cases p) (auto simp: parse_proof_def opt_json_def b64encode_Nil_iff b64decode_encode)

lemma parse_pubkey_hex: "length signer = 32 \<Longrightarrow> parse_pubkey U (JStr (hex signer)) = Inr signer"
  by (simp add: parse_pubkey_def fromhex_hex)

lemma parse_commit_body:
  assumes "postable prems c p signer"
  shows "parse_commit W dflt (commit_body prems c rule et p signer) =
    Inr \<lparr> cq_premises = prems, cq_conclusion = c, cq_rule = rule, cq_edge_type = et, cq_proof = p,
          cq_signer = signer, cq_timeout = five_seconds \<rparr>"
proof -
  have "hex signer \<noteq> []" using assms length_hex [of signer] by (auto simp: postable_def)
  with assms show ?thesis
    by (simp add: parse_commit_def commit_body_def json_get_def json_item_def postable_def map_api_parse
        map_api_typed typed_raw parse_node_body parse_edge_type_def parse_proof_body parse_pubkey_hex
        parse_timeout_def)
qed

text \<open>The report, with the edge's dictionary written out.\<close>

definition edge_json :: "env \<Rightarrow> edge \<Rightarrow> json" where
  "edge_json E e =
     JObj [(str ''type'', JStr (edge_type_value (e_type e))),
           (str ''premises'', JList (map h_json (e_premises e))),
           (str ''conclusion'', h_json (e_conclusion e)),
           (str ''rule'', JStr (e_rule e)),
           (str ''proof_hash'', opt_json h_json (e_proof_hash e)),
           (str ''verdict'', JStr (verdict_value (e_verdict e))),
           (str ''kappa'', JStr (kappa_value (e_kappa e))),
           (str ''signer_pubkey'', JStr (hex (e_signer_pubkey e))),
           (str ''edge_hash'', h_json (hash_bytes E (edge_blob E e)))]"

definition node_json :: "env \<Rightarrow> node \<Rightarrow> json" where
  "node_json E n =
     JObj [(str ''claim'', JStr (n_claim n)), (str ''domain'', JStr (n_domain n)),
           (str ''polarity'', JBool (n_polarity n)), (str ''node_id'', h_json (hash_bytes E (node_blob E n)))]"

definition commit_json :: "env \<Rightarrow> commit_result \<Rightarrow> json" where
  "commit_json E cr =
     JObj [(str ''rejected'', JBool (cm_rejected cr)),
           (str ''verification'', verification_to_dict (cm_verification cr)),
           (str ''edge'', opt_json (edge_json E) (cm_edge cr)),
           (str ''edge_hash'', opt_json h_json (cm_edge_hash cr))]"

lemma edge_to_dict_eq: "edge_to_dict E e = Inr (edge_json E e)"
  by (simp add: edge_to_dict_def edge_hash_eq edge_json_def)

lemma raw_id_of: "raw_id E (raw_of n) = Inr (hash_bytes E (node_blob E n))"
  using node_id_eq [of E n]
  by (simp add: raw_id_def raw_of_def node_id_def node_bytes_def node_to_canonical_def)

lemma node_to_dict_eq: "node_to_dict E (raw_of n) = Inr (node_json E n)"
  by (simp add: node_to_dict_def raw_id_of node_json_def) (simp add: raw_of_def)

lemma commit_report_eq: "commit_report E cr = Inr (commit_json E cr)"
  by (simp add: commit_report_def commit_json_def edge_to_dict_eq opt_json_def split: option.splits)

text \<open>The response to what \<open>verify_and_commit\<close> gave.\<close>

definition commit_response :: "('e, 'f, 'o, 'm) api_world \<Rightarrow> exn + commit_result \<Rightarrow> nat \<times> json" where
  "commit_response W out =
     (case out of
        Inl (e, t) \<Rightarrow>
          if e = KeyError then (400, error_payload (str ''missing field: '' @ exn_text W e t))
          else (500, error_payload (str ''internal error: '' @ exn_text W e t))
      | Inr cr \<Rightarrow> (200, commit_json (aw_env W) cr))"

lemma handle_commit:
  assumes "read_body (aw_unicode W) (aw_floats W) rq = Inr body" and "hq_method rq = POST"
    and "hq_path rq = str ''/commit''" and "parse_commit W (ap_signer ap) body = Inr q"
  shows "handle W now ap rq =
    map_option (\<lambda>(s', out). (ap\<lparr>ap_storage := s'\<rparr>,
        case commit_response W out of (status, v) \<Rightarrow> send_json (aw_floats W) status v))
      (verify_and_commit (aw_env W) (aw_provers W) now (cq_signer q) (cq_premises q) (cq_conclusion q)
         (cq_rule q) (cq_edge_type q) (cq_proof q) (cq_timeout q) (ap_storage ap))"
  using assms(4)
  by (auto simp: handle_def dispatch_post(6) [OF assms(1-3)] commit_def ok200_def settle_def commit_response_def
      commit_report_eq split: option.splits sum.splits)

text \<open>C8: posting a proposal as JSON is the in-process \<open>verify_and_commit\<close> on the same arguments: the storage
  afterwards is the one it leaves, and the response is its report with status 200, or, where it raises, status
  500, and 400 if what it raises is a \<open>KeyError\<close>. The arguments survive the JSON, base64 and hexadecimal
  encodings of the body.\<close>

theorem http_commit_is_commit:
  assumes "float_spec (aw_floats W)" and "sendable (aw_floats W) (commit_body prems c rule et p signer)"
    and "postable prems c p signer"
  shows "handle W now ap (client_post (aw_floats W) (str ''/commit'') (commit_body prems c rule et p signer)) =
    map_option (\<lambda>(s', out). (ap\<lparr>ap_storage := s'\<rparr>,
        case commit_response W out of (status, v) \<Rightarrow> send_json (aw_floats W) status v))
      (verify_and_commit (aw_env W) (aw_provers W) now signer prems c rule et p five_seconds (ap_storage ap))"
  using handle_commit [OF read_body_post [OF assms(1,2)] _ _ parse_commit_body [OF assms(3)]]
  by simp

section \<open>Every request is answered\<close>

text \<open>
  \<open>answers P free r\<close>: an \<open>ApiError\<close> has one of the documented statuses, a value satisfies \<open>P\<close>, and
  nothing but what \<open>free\<close> allows is outside the model.
\<close>

definition answers :: "('a \<Rightarrow> bool) \<Rightarrow> bool \<Rightarrow> 'a api \<Rightarrow> bool" where
  "answers P free r \<longleftrightarrow>
     (case r of
        Inr a \<Rightarrow> P a
      | Inl (ApiError status m) \<Rightarrow> status \<in> {400, 404, 500}
      | Inl (Raised e t) \<Rightarrow> True
      | Inl Outside \<Rightarrow> free)"

named_theorems answers_intros \<open>the answers of the parts of an endpoint\<close>

lemma answers_simps [simp]:
  "answers P free (Inr a) = P a" "answers P free (Inl (ApiError st m)) = (st \<in> {400, 404, 500})"
  "answers P free (Inl (Raised e t))" "answers P free (Inl Outside) = free"
  by (simp_all add: answers_def)

lemma answers_bind [answers_intros]:
  "answers (\<lambda>a. answers P free (f a)) free r \<Longrightarrow> answers P free (bind_api r f)"
  by (cases r) (auto simp: answers_def split: api_error.splits)

lemma answers_of_res [answers_intros]: "(\<And>a. P a) \<Longrightarrow> answers P free (of_res r)"
  by (cases r) simp_all

lemma answers_map_api:
  assumes "\<And>x. answers (\<lambda>_. True) free (f x)" and "\<And>a. P a"
  shows "answers P free (map_api f xs)"
proof -
  have "answers (\<lambda>_. True) free (map_api f xs)"
  proof (induction xs)
    case (Cons x xs)
    show ?case
      using assms(1) [of x] Cons
      by (cases "f x"; cases "map_api f xs") (auto simp: answers_def split: api_error.splits)
  qed simp
  with assms(2) show ?thesis by (auto simp: answers_def split: sum.splits)
qed

lemma answers_any: "answers (\<lambda>_. True) free r \<Longrightarrow> (\<And>a. P a) \<Longrightarrow> answers P free r"
  by (auto simp: answers_def split: sum.splits)

lemma answers_parts0:
  "answers (\<lambda>_. True) free (json_item U body key)"
  "answers (\<lambda>_. True) free (json_get body key dflt)"
  "answers (\<lambda>_. True) free (hex_to_hash U s)"
  "answers (\<lambda>_. True) free (parse_pubkey U s)"
  "answers (\<lambda>_. True) free (parse_node d)"
  "answers (\<lambda>_. True) free (parse_kappa U F s)"
  "answers (\<lambda>_. True) free (parse_edge_type U F s)"
  "answers (\<lambda>_. True) free (json_iter s)"
  "answers (\<lambda>_. True) free (parse_proof s)"
  "answers (\<lambda>_. True) free (found_edge W rd eh)"
  "answers (\<lambda>_. True) free (found_node W rd role eh)"
  "answers (\<lambda>_. True) free (node_to_dict E n)"
  "answers (\<lambda>_. True) free (edge_to_dict E e)"
  by (auto simp: json_item_def json_get_def hex_to_hash_def parse_pubkey_def parse_node_def parse_kappa_def
      parse_edge_type_def parse_proof_def found_edge_def found_node_def node_to_dict_def edge_to_dict_eq of_res_def
      bind_api_def split: json.splits option.splits sum.splits)
    (cases s; auto)+

lemmas answers_parts = answers_parts0 [THEN answers_any]

lemma answers_resolved:
  assumes "\<And>x. answers (\<lambda>_. True) free (d x)" and "\<And>a. P a"
  shows "answers P free (resolved_dicts g d hs)"
proof -
  have "answers (\<lambda>_. True) free (resolved_dicts g d hs)"
  proof (induction hs)
    case (Cons h hs)
    show ?case
    proof (cases "g h")
      case (Inr r)
      show ?thesis
      proof (cases r)
        case None
        with Inr Cons show ?thesis by simp
      next
        case (Some a)
        with Inr Cons assms(1) [of a] show ?thesis
          by (cases "d a"; cases "resolved_dicts g d hs") (auto simp: answers_def split: api_error.splits)
      qed
    qed simp
  qed simp
  with assms(2) show ?thesis by (auto simp: answers_def split: sum.splits)
qed

abbreviation is_object :: "json \<Rightarrow> bool" where
  "is_object v \<equiv> \<exists>d. v = JObj d"

lemma answers_queries:
  "answers is_object free (query_reachable W rd body)"
  "answers is_object free (query_path W rd body)"
  "answers is_object free (query_graph W rd)"
  "answers is_object free (attest W rd R body)"
  "answers is_object free (anchor_record_endpoint W now rd R)"
  "answers is_object free (verify_history_endpoint W rd body)"
  unfolding query_reachable_def query_path_def query_graph_def attest_def anchor_record_endpoint_def
    verify_history_endpoint_def Let_def
  by (intro answers_bind answers_of_res answers_parts answers_resolved; simp)+

lemma answers_read_body: "answers (\<lambda>_. True) free (read_body U F rq)"
  by (auto simp: read_body_def Let_def split: option.splits sum.splits)

text \<open>An answer of the dispatcher: an object with status 200, or the refusal of an unknown route.\<close>

definition reply_ok :: "nat \<times> json \<Rightarrow> bool" where
  "reply_ok a \<longleftrightarrow> (fst a = 200 \<and> is_object (snd a)) \<or> (fst a = 404 \<and> (\<exists>msg. snd a = error_payload msg))"

lemma answers_ok200: "answers is_object free r \<Longrightarrow> answers reply_ok free (ok200 r)"
  by (cases r) (auto simp: ok200_def answers_def reply_ok_def split: api_error.splits)

lemma reproduction_object: "answers is_object free (reproduction E e prems c p v a)"
  unfolding reproduction_def Let_def
  by (intro answers_bind answers_parts answers_map_api; simp add: answers_parts)

lemma answers_reproduce:
  assumes "reproduce W rd R body = Some r"
  shows "answers is_object free r"
proof -
  let ?U = "aw_unicode W"
  let ?found = "bind_api (bind_api (json_item ?U body ''edge_hash'') (hex_to_hash ?U)) (\<lambda>eh.
        bind_api (found_edge W rd eh) (\<lambda>edge.
        bind_api (map_api (found_node W rd ''premise'') (e_premises edge)) (\<lambda>premises.
        bind_api (found_node W rd ''conclusion'' (e_conclusion edge)) (\<lambda>conclusion.
        bind_api (case e_proof_hash edge of None \<Rightarrow> Inr None | Some ph \<Rightarrow> of_res (rd_get rd ph)) (\<lambda>pf.
          Inr (edge, premises, conclusion, pf))))))"
  have proof_answers: "answers (\<lambda>_. True) free
      (case ph of None \<Rightarrow> Inr None | Some ph \<Rightarrow> of_res (rd_get rd ph))" for ph :: "hash option"
    by (cases ph) (simp_all add: answers_of_res)
  have found: "answers (\<lambda>_. True) free ?found"
    by (intro answers_bind answers_parts answers_map_api answers_any [OF proof_answers]; simp add: answers_parts)
  show ?thesis
  proof (cases ?found)
    case (Inl e)
    with assms found show ?thesis by (auto simp: reproduce_def Let_def answers_def split: api_error.splits)
  next
    case (Inr x)
    obtain edge ps c pf where x: "x = (edge, ps, c, pf)" by (cases x)
    let ?run = "verify (aw_provers W) ps c (e_rule edge) (e_type edge) pf five_seconds"
    show ?thesis
    proof (cases ?run)
      case None
      with assms Inr x show ?thesis by (simp add: reproduce_def Let_def)
    next
      case (Some v)
      show ?thesis
      proof (cases v)
        case (Inl et)
        with assms Inr x Some show ?thesis by (cases et) (auto simp: reproduce_def Let_def)
      next
        case (Inr v')
        with assms \<open>?found = Inr x\<close> x Some
        have "r = bind_api (of_res (verify_edge_attestation (aw_env W) edge rd R)) (\<lambda>attestation.
            reproduction (aw_env W) edge ps c pf v' attestation)"
          by (simp add: reproduce_def Let_def)
        then show ?thesis by (simp add: answers_bind answers_of_res reproduction_object)
      qed
    qed
  qed
qed

lemma reproduce_ends:
  assumes "\<And>ps c rule et pf. verify (aw_provers W) ps c rule et pf five_seconds \<noteq> None"
  shows "reproduce W rd R body \<noteq> None"
proof -
  have "bind_answer (of_run (verify (aw_provers W) ps c rule et pf five_seconds)) f \<noteq> None"
    if "\<And>v. f v \<noteq> None" for ps c rule et pf and f :: "verification_result \<Rightarrow> json answer"
    using assms [of ps c rule et pf] that
    by (auto simp: of_run_def bind_answer_def split: option.splits sum.splits)
  then show ?thesis
    by (auto simp: reproduce_def Let_def bind_answer_def [of "Some _"] split: sum.splits)
qed

lemma verify_and_commit_ends:
  "verify P prems c rule et p t \<noteq> None \<Longrightarrow> verify_and_commit E P now signer prems c rule et p t s \<noteq> None"
  by (auto simp: verify_and_commit_def store_edge_def failed_def
      split: option.splits sum.splits prod.splits)

lemma answers_commit_parts:
  "answers (\<lambda>_. True) True (parse_timeout F v)"
  "answers (\<lambda>_. True) True (typed_node n)"
  "answers (\<lambda>_. True) True (if json_truthy j then parse_pubkey U j else Inr dflt)"
  "answers (\<lambda>_. True) True (case j of JStr r \<Rightarrow> Inr r | _ \<Rightarrow> Inl Outside)"
proof -
  have float: "answers (\<lambda>_. True) True (json_float F j)" for j by (cases j) (auto split: option.splits)
  have "answers (\<lambda>_. True) True (case fl_budget F x of None \<Rightarrow> Inl Outside | Some t \<Rightarrow> Inr t)" for x
    by (simp split: option.splits)
  then have "answers (\<lambda>_. True) True
      (bind_api (json_float F j) (\<lambda>x. case fl_budget F x of None \<Rightarrow> Inl Outside | Some t \<Rightarrow> Inr t))" for j
    by (intro answers_bind answers_any [OF float]) blast
  then show "answers (\<lambda>_. True) True (parse_timeout F v)" by (simp add: parse_timeout_def split: option.splits)
qed (auto simp: typed_node_def answers_parts split: json.splits)

lemma answers_parse_commit: "answers (\<lambda>_. True) True (parse_commit W signer body)"
  unfolding parse_commit_def Let_def
  by (intro answers_bind answers_any [OF answers_commit_parts(1)] answers_any [OF answers_commit_parts(2)]
      answers_any [OF answers_commit_parts(3)] answers_any [OF answers_commit_parts(4)] answers_parts
      answers_map_api; simp add: answers_parts answers_commit_parts)

lemma commit_ends:
  assumes "\<And>q. parse_commit W signer body = Inr q \<Longrightarrow>
    verify (aw_provers W) (cq_premises q) (cq_conclusion q) (cq_rule q) (cq_edge_type q) (cq_proof q) (cq_timeout q) \<noteq> None"
  shows "commit W now signer body s \<noteq> None"
proof (cases "parse_commit W signer body")
  case (Inr q)
  from verify_and_commit_ends [OF assms [OF Inr]] Inr show ?thesis
    by (auto simp: commit_def split: option.splits sum.splits)
qed (simp add: commit_def)

lemma answers_commit:
  assumes "commit W now signer body s = Some (s', r)"
    and "free \<or> parse_commit W signer body \<noteq> Inl Outside"
  shows "answers is_object free r"
proof (cases "parse_commit W signer body")
  case (Inl e)
  with assms answers_parse_commit [of W signer body] show ?thesis
    by (auto simp: commit_def answers_def split: api_error.splits)
next
  case (Inr q)
  have "answers is_object free (commit_report (aw_env W) cr)" for cr
    by (simp add: commit_report_eq commit_json_def)
  with assms Inr show ?thesis by (auto simp: commit_def split: option.splits sum.splits)
qed

text \<open>The checkers that a request may call return.\<close>

definition is_reproduce :: "http_request \<Rightarrow> bool" where
  "is_reproduce rq \<longleftrightarrow> hq_method rq = POST \<and> takeWhile (\<lambda>c. c \<noteq> 63) (hq_path rq) = str ''/reproduce''"

definition checkers_end :: "('e, 'f, 'o, 'm) api_world \<Rightarrow> app \<Rightarrow> http_request \<Rightarrow> bool" where
  "checkers_end W ap rq \<longleftrightarrow>
     (is_reproduce rq \<longrightarrow> (\<forall>ps c rule et pf. verify (aw_provers W) ps c rule et pf five_seconds \<noteq> None)) \<and>
     (is_commit rq \<longrightarrow> (\<forall>body q. read_body (aw_unicode W) (aw_floats W) rq = Inr body \<longrightarrow>
        parse_commit W (ap_signer ap) body = Inr q \<longrightarrow>
        verify (aw_provers W) (cq_premises q) (cq_conclusion q) (cq_rule q) (cq_edge_type q) (cq_proof q)
          (cq_timeout q) \<noteq> None))"

lemma dispatch_answers:
  assumes "checkers_end W ap rq" and "well_typed W ap rq"
  shows "\<exists>s r. dispatch W now ap rq = Some (s, r) \<and> answers reply_ok False r"
proof -
  let ?rd = "sqlite_reader (aw_env W) (ap_storage ap)"
  let ?path = "takeWhile (\<lambda>c. c \<noteq> 63) (hq_path rq)"
  note ok = answers_queries [THEN answers_ok200]
  show ?thesis
  proof (cases "hq_method rq = GET \<and> ?path \<in> {str ''/health'', str ''/anchor'', str ''/query/graph''}")
    case True
    have "answers reply_ok False (ok200 (Inr (JObj d)))" for d by (simp add: ok200_def reply_ok_def)
    with True ok show ?thesis by (auto simp: dispatch_def Let_def simp del: str_Cons)
  next
    case False
    show ?thesis
    proof (cases "read_body (aw_unicode W) (aw_floats W) rq")
      case (Inl e)
      with False answers_read_body [of False "aw_unicode W" "aw_floats W" rq] show ?thesis
        by (auto simp: dispatch_def Let_def answers_def split: api_error.splits simp del: str_Cons)
    next
      case (Inr body)
      note body = this
      consider "hq_method rq = POST" "?path = str ''/reproduce''" | "is_commit rq"
        | "\<not> is_commit rq" "\<not> (hq_method rq = POST \<and> ?path = str ''/reproduce'')" by blast
      then show ?thesis
      proof cases
        case 1
        have "reproduce W ?rd (ap_roster ap) body \<noteq> None"
          by (rule reproduce_ends) (use assms(1) 1 in \<open>simp add: checkers_end_def is_reproduce_def\<close>)
        then obtain r where r: "reproduce W ?rd (ap_roster ap) body = Some r" by blast
        have "dispatch W now ap rq = Some (ap_storage ap, ok200 r)"
          using 1 body r by (simp add: dispatch_def Let_def)
        with answers_ok200 [OF answers_reproduce [OF r]] show ?thesis by blast
      next
        case 2
        then have typed: "parse_commit W (ap_signer ap) body \<noteq> Inl Outside"
          using assms(2) body by (simp add: well_typed_def)
        have "commit W now (ap_signer ap) body (ap_storage ap) \<noteq> None"
          by (rule commit_ends) (use assms(1) 2 body in \<open>auto simp: checkers_end_def\<close>)
        then obtain s r where r: "commit W now (ap_signer ap) body (ap_storage ap) = Some (s, r)" by auto
        have "dispatch W now ap rq = Some (s, ok200 r)"
          using 2 body r by (simp add: dispatch_def Let_def is_commit_def)
        moreover have "answers is_object False r"
          using answers_commit [OF r] typed by blast
        ultimately show ?thesis using answers_ok200 by blast
      next
        case 3
        have "reply_ok (404, JObj [(str ''error'', JStr m)])" for m
          by (simp add: reply_ok_def error_payload_def)
        with 3 body False ok show ?thesis
          by (cases "hq_method rq") (auto simp: dispatch_def Let_def is_commit_def simp del: str_Cons)
      qed
    qed
  qed
qed

definition framed :: "nat \<times> json \<Rightarrow> bool" where
  "framed a \<longleftrightarrow> (\<exists>payload. snd a = JObj payload \<and> fst a \<in> {200, 400, 404, 500} \<and>
     (fst a \<noteq> 200 \<longrightarrow> (\<exists>msg. payload = [(str ''error'', JStr msg)])))"

lemma settle_framed:
  assumes "answers reply_ok False r"
  shows "\<exists>a. settle W r = Some a \<and> framed a"
proof (cases r)
  case (Inl e)
  then show ?thesis
    using assms by (cases e) (auto simp: settle_def framed_def error_payload_def simp del: str_Cons)
next
  case (Inr a)
  with assms have "reply_ok a" by simp
  then have "framed a" by (auto simp: framed_def reply_ok_def error_payload_def)
  with Inr show ?thesis by (simp add: settle_def)
qed

lemma content_length:
  "map_of (hr_headers (send_json F st v)) (str ''Content-Length'') =
     Some (nat_text (length (hr_body (send_json F st v))))"
  by (simp add: send_json_def Let_def)

lemma handle_answers:
  assumes "well_typed W ap rq" and "checkers_end W ap rq"
  obtains s status payload where
    "handle W now ap rq = Some (ap\<lparr>ap_storage := s\<rparr>, send_json (aw_floats W) status (JObj payload))"
    "status \<in> {200, 400, 404, 500}" "status \<noteq> 200 \<longrightarrow> (\<exists>msg. payload = [(str ''error'', JStr msg)])"
proof -
  obtain s r where r: "dispatch W now ap rq = Some (s, r)" "answers reply_ok False r"
    using dispatch_answers [OF assms(2,1)] by blast
  obtain a where a: "settle W r = Some a" "framed a" using settle_framed [OF r(2)] by blast
  obtain status v where "a = (status, v)" by (cases a)
  with a obtain payload where p: "settle W r = Some (status, JObj payload)" "status \<in> {200, 400, 404, 500}"
    "status \<noteq> 200 \<longrightarrow> (\<exists>msg. payload = [(str ''error'', JStr msg)])"
    by (auto simp: framed_def)
  have "handle W now ap rq = Some (ap\<lparr>ap_storage := s\<rparr>, send_json (aw_floats W) status (JObj payload))"
    using r(1) p(1) by (simp add: handle_def)
  from that [OF this p(2,3)] show ?thesis .
qed

lemma http_answered:
  assumes "well_typed W ap rq" and "checkers_end W ap rq"
  shows "\<exists>ap' resp. handle W now ap rq = Some (ap', resp)"
  by (rule handle_answers [OF assms, of now]) blast

text \<open>C22: every request whose checkers return is answered, unless it is a commit that goes through although its rule
  or a domain is no text or its time limit is not finite (\<open>well_typed\<close>), whatever the client sends and whatever the
  storage does: the handler sends a JSON object with status 200, 400, 404 or 500, its length in bytes in the
  header, and an \<open>error\<close> message alone unless the status is 200. It keeps the roster and the signer.\<close>

theorem http_replies:
  assumes "well_typed W ap rq" and "checkers_end W ap rq"
  shows "\<exists>ap' status payload rs. handle W now ap rq = Some (ap', rs) \<and>
    rs = send_json (aw_floats W) status (JObj payload) \<and> status \<in> {200, 400, 404, 500} \<and>
    (status \<noteq> 200 \<longrightarrow> (\<exists>msg. payload = [(str ''error'', JStr msg)])) \<and>
    map_of (hr_headers rs) (str ''Content-Length'') = Some (nat_text (length (hr_body rs))) \<and>
    ap_roster ap' = ap_roster ap \<and> ap_signer ap' = ap_signer ap"
  by (rule handle_answers [OF assms, of now]) (use content_length in \<open>fastforce simp del: str_Cons\<close>)

text \<open>The checkers return when the prover libraries leave the interpreter in control, the platform has an alarm
  signal, and the client did not switch the timer off.\<close>

lemma checkers_end_budgeted:
  assumes "provers_regain (aw_provers W)" and "pl_sigalrm (pv_platform (aw_provers W))"
    and "\<And>body q. is_commit rq \<Longrightarrow> read_body (aw_unicode W) (aw_floats W) rq = Inr body \<Longrightarrow>
      parse_commit W (ap_signer ap) body = Inr q \<Longrightarrow> budgeted (pv_platform (aw_provers W)) (cq_timeout q)"
  shows "checkers_end W ap rq"
proof -
  have "budgeted (pv_platform (aw_provers W)) five_seconds"
    using assms(2) by (simp add: budgeted_def five_seconds_def)
  then show ?thesis
    unfolding checkers_end_def using verify_ends [OF _ assms(1)] assms(3) by blast
qed

section \<open>Bodies that survive the wire\<close>

lemma text_ok_ascii: "list_all (\<lambda>c. c < 55296) s \<Longrightarrow> text_ok s"
  by (induction s) (auto simp: high_surrogate_def)

lemma text_ok_hex [simp]: "text_ok (hex bs)"
proof (rule text_ok_ascii)
  have "hex_digit n < 55296" if "n < 16" for n using that by (simp add: hex_digit_def)
  then show "list_all (\<lambda>c. c < 55296) (hex bs)"
    using byte_parts by (induction bs) (auto simp: hex_byte_def)
qed

lemma length_nat_text: "length (nat_text n) \<le> Suc n"
proof (induction n rule: nat_text.induct)
  case (1 n)
  show ?case
  proof (cases "n < 10")
    case False
    then have "Suc (Suc (n div 10)) \<le> Suc n" by linarith
    with 1 False show ?thesis by (simp add: nat_text.simps [of n])
  qed (simp add: nat_text.simps [of n])
qed

lemma sendableI: "json_ok v \<Longrightarrow> length (json_dumps F v) < 4300 \<Longrightarrow> sendable F v"
  using length_nat_text [of "length (json_dumps F v)"] by (simp add: sendable_def)

lemma json_quote_hex: "json_quote (hex bs) = [34] @ hex bs @ [34]"
proof -
  have "json_char (hex_digit n) = [hex_digit n]" if "n < 16" for n
    using that by (auto simp: json_char_def hex_digit_def)
  then have "concat (map json_char (hex bs)) = hex bs"
    using byte_parts by (induction bs) (simp_all add: hex_byte_def)
  then show ?thesis by (simp add: json_quote_def)
qed

section \<open>A world for the witnesses\<close>

text \<open>Floats written as the number of their bit pattern.\<close>

definition sample_floats :: floats where
  "sample_floats =
     \<lparr> fl_repr = (\<lambda>x. nat_text (unat x) @ [46, 48]),
       fl_of_text = (\<lambda>t. Some (of_nat (digits_value (take (length t - 2) t)))),
       fl_of_int = (\<lambda>i. Some (of_int i)), fl_budget = (\<lambda>x. Some (Some (int (unat x), nat_text (unat x)))) \<rparr>"

lemma sample_float_spec: "float_spec sample_floats"
  unfolding float_spec_def
proof (intro allI impI conjI)
  fix x :: "64 word"
  have "fraction_text [46, 48]" by (simp add: fraction_text_def is_digit_def)
  moreover have "exponent_text []" by (simp add: exponent_text_def)
  moreover have "fl_repr sample_floats x = [] @ nat_text (unat x) @ [46, 48] @ []" by (simp add: sample_floats_def)
  ultimately show "float_text (fl_repr sample_floats x)"
    using whole_number_nat_text [of "unat x"] unfolding float_text_def by blast
  show "fl_of_text sample_floats (fl_repr sample_floats x) = Some x"
    by (simp add: sample_floats_def digits_value_nat_text)
qed

definition sample_api :: "(pystr, bool \<times> bool, unit, unit) api_world" where
  "sample_api = \<lparr> aw_env = ref_env, aw_provers = sample_provers, aw_floats = sample_floats, aw_text = (\<lambda>e. []) \<rparr>"

definition sample_app :: app where
  "sample_app = \<lparr> ap_storage = sample_storage, ap_roster = alice_roster, ap_signer = sample_key \<rparr>"

lemma sample_api_simps [simp]:
  "aw_env sample_api = ref_env" "aw_provers sample_api = sample_provers" "aw_floats sample_api = sample_floats"
  "ap_storage sample_app = sample_storage" "ap_roster sample_app = alice_roster" "ap_signer sample_app = sample_key"
  by (simp_all add: sample_api_def sample_app_def)

abbreviation roster_body :: json where
  "roster_body \<equiv> commit_body [] roster_node [] DEFINITION None sample_key"

lemma roster_postable: "postable [] roster_node None sample_key"
  by (simp add: postable_def roster_node_def sample_node_def sample_key_def)

lemma roster_sendable: "sendable sample_floats roster_body"
proof (rule sendableI)
  show "json_ok roster_body"
    by (simp add: commit_body_def node_body_def roster_node_def sample_node_def opt_json_def high_surrogate_def)
  show "length (json_dumps sample_floats roster_body) < 4300"
    by (simp add: commit_body_def node_body_def roster_node_def sample_node_def opt_json_def json_quote_hex
        length_hex sample_key_def json_quote_def [of "_ # _"] json_quote_def [of "[]"] json_char_def)
qed

lemma sample_alarm: "pl_sigalrm (pv_platform (aw_provers sample_api))"
  by (simp add: sample_provers_def sample_platform_def)

theorem http_commit_is_commit_witness:
  "handle sample_api 5 sample_app (client_post sample_floats (str ''/commit'') roster_body) =
    map_option (\<lambda>(s', out). (sample_app\<lparr>ap_storage := s'\<rparr>,
        case commit_response sample_api out of (status, v) \<Rightarrow> send_json sample_floats status v))
      (verify_and_commit ref_env sample_provers 5 sample_key [] roster_node [] DEFINITION None five_seconds sample_storage)"
  using http_commit_is_commit [of sample_api, simplified, OF sample_float_spec roster_sendable roster_postable,
      of 5 sample_app]
  by simp

lemma sample_regains: "provers_regain (aw_provers sample_api)"
  by (simp add: sample_prover_defs provers_regain_def cas_regains_def z3_regains_def spectral_regains_def regains_def)

lemma roster_request_typed:
  "well_typed sample_api sample_app (client_post sample_floats (str ''/commit'') roster_body)"
  using parse_commit_body [OF roster_postable, of sample_api sample_key "[]" DEFINITION]
    read_body_post [OF sample_float_spec roster_sendable, of "aw_unicode sample_api" "str ''/commit''"]
  by (simp add: well_typed_def del: str_Cons)

theorem http_replies_witness:
  "\<exists>ap' status payload rs. handle sample_api 5 sample_app (client_post sample_floats (str ''/commit'') roster_body) =
      Some (ap', rs) \<and>
    rs = send_json sample_floats status (JObj payload) \<and> status \<in> {200, 400, 404, 500}"
proof -
  have "checkers_end sample_api sample_app (client_post sample_floats (str ''/commit'') roster_body)"
  proof (rule checkers_end_budgeted [OF sample_regains sample_alarm])
    fix body q
    assume "read_body (aw_unicode sample_api) (aw_floats sample_api) (client_post sample_floats (str ''/commit'') roster_body) = Inr body"
      and q: "parse_commit sample_api (ap_signer sample_app) body = Inr q"
    then have "body = roster_body"
      using read_body_post [OF sample_float_spec roster_sendable, of "aw_unicode sample_api" "str ''/commit''"] by simp
    with q show "budgeted (pv_platform (aw_provers sample_api)) (cq_timeout q)"
      using parse_commit_body [OF roster_postable, of sample_api sample_key "[]" DEFINITION] sample_alarm
      by (auto simp: budgeted_def five_seconds_def)
  qed
  from http_replies [OF roster_request_typed this, of 5] show ?thesis by auto
qed

text \<open>C36: the two ends of a connection understand each other. The server reads from a request the value the client
  posted, also when more bytes follow the body on the connection, because the header delimits it, and the empty
  object from a request without a body. The client reads from a response the value the server sent when the
  status is a success, and raises otherwise; the header carries the length of the body in bytes. The parser's fuel never runs out.\<close>

theorem wire_roundtrip:
  assumes "float_spec F" and "sendable F v" and "json_ok w" and "rq = client_post F path v"
    and "rs = send_json F status w"
  shows "read_body U F rq = Inr v \<and> read_body U F (rq\<lparr>hq_stream := hq_stream rq @ rest\<rparr>) = Inr v \<and>
    read_body U F (client_get path) = Inr (JObj []) \<and>
    read_body U F any \<noteq> Inl (Raised Out_Of_Fuel []) \<and>
    client_read F rs =
      (if 200 \<le> status \<and> status < 300 then Inr w else Inl (OtherError (str ''HTTPError''))) \<and>
    map_of (hr_headers rs) (str ''Content-Length'') = Some (nat_text (length (hr_body rs)))"
proof (intro conjI)
  show "read_body U F rq = Inr v" using read_body_post [OF assms(1,2)] assms(4) by simp
  then show "read_body U F (rq\<lparr>hq_stream := hq_stream rq @ rest\<rparr>) = Inr v"
    using read_body_delimited [OF assms(1,2)] assms(4) by simp
  show "read_body U F any \<noteq> Inl (Raised Out_Of_Fuel [])" by (rule read_body_no_fuel)
  show "client_read F rs =
      (if 200 \<le> status \<and> status < 300 then Inr w else Inl (OtherError (str ''HTTPError'')))"
    using json_bytes_roundtrip [OF assms(1,3)] assms(5) by (simp add: client_read_def send_json_def Let_def)
qed (simp_all add: read_body_get assms(5) content_length del: str_Cons)

theorem wire_roundtrip_witness:
  "read_body ascii sample_floats
      ((client_post sample_floats (str ''/commit'') roster_body)\<lparr>hq_stream :=
         hq_stream (client_post sample_floats (str ''/commit'') roster_body) @ [71, 69, 84]\<rparr>) = Inr roster_body \<and>
    client_read sample_floats (send_json sample_floats 200 (JList [JFloat 7, JStr [8364, 128512], JInt (- 12)])) =
      Inr (JList [JFloat 7, JStr [8364, 128512], JInt (- 12)])"
proof -
  have "length (nat_text 12) \<le> 4300" using length_nat_text [of 12] by simp
  then have "json_ok (JList [JFloat 7, JStr [8364, 128512], JInt (- 12)])"
    by (simp add: not_finite_def high_surrogate_def)
  from wire_roundtrip [OF sample_float_spec roster_sendable this refl refl,
      where U = ascii and path = "str ''/commit''" and rest = "[71, 69, 84]" and status = 200]
  show ?thesis by (simp del: str_Cons)
qed

end
