(* ===== verification/Api_Stories.thy ===== *)
theory Api_Stories
  imports Api_Correct
begin

text \<open>
  What a client gets from the HTTP API over a consistent storage: the strongest derivation of a claim, the
  reproduction of what it committed, the whole graph, and the errors; and what any number of requests
  leaves of the storage.
\<close>

section \<open>Bodies of the other requests\<close>

definition hash_body :: "string \<Rightarrow> hash \<Rightarrow> json" where
  "hash_body key h = JObj [(str key, h_json h)]"

lemma sendable_hash_body:
  assumes "length h = 34" and "key \<in> {''edge_hash'', ''root_hash''}"
  shows "sendable F (hash_body key h)"
proof (rule sendableI)
  show "json_ok (hash_body key h)"
    using assms(2) by (auto simp: hash_body_def h_json_def high_surrogate_def)
  show "length (json_dumps F (hash_body key h)) < 4300"
    using assms
    by (auto simp: hash_body_def h_json_def json_quote_hex length_hex json_quote_def [of "_ # _"] json_char_def)
qed

definition query_body :: "node \<Rightarrow> Kappa \<Rightarrow> json" where
  "query_body n m =
     JObj [(str ''claim'', JStr (n_claim n)), (str ''domain'', JStr (n_domain n)),
           (str ''polarity'', JBool (n_polarity n)), (str ''min_kappa'', JStr (kappa_value m))]"

lemma parse_query_body: "n_claim n \<noteq> [] \<Longrightarrow> parse_node (query_body n m) = Inr (raw_of n)"
  by (simp add: parse_node_def query_body_def raw_of_def)

lemma parse_query_kappa:
  "bind_api (json_get (query_body n m) ''min_kappa'' JNull) (parse_kappa U F) = Inr m"
  by (simp add: json_get_def query_body_def parse_kappa_def)

section \<open>The queries\<close>

lemma handle_read:
  "dispatch W now ap rq = Some (ap_storage ap, ok200 x) \<Longrightarrow> x = Inr v \<Longrightarrow>
     handle W now ap rq = Some (ap, send_json (aw_floats W) 200 v)"
  by (simp add: handle_def ok200_def settle_def)

lemma keep_derivations_distinct:
  "keep_derivations E rd active hs = Inr des \<Longrightarrow>
     fst ` set des \<subseteq> set hs \<and> (distinct hs \<longrightarrow> distinct (map fst des))"
proof (induction hs arbitrary: des)
  case (Cons h hs)
  show ?case
  proof (cases "keep_derivations E rd active hs = Inr des")
    case True
    from Cons.IH [OF True] show ?thesis by auto
  next
    case False
    with Cons.prems obtain e out where "des = (h, e) # out" "keep_derivations E rd active hs = Inr out"
      by (auto simp: and_then_def split: if_splits sum.splits option.splits)
    with Cons.IH [OF this(2)] show ?thesis by auto
  qed
qed simp

lemma storage_derivations_distinct:
  assumes "storage_ok E s" and "derivation_edges E (sqlite_reader E s) None = Inr des"
  shows "distinct (map fst des)"
proof -
  have "graph_ok (view (st_conn s))" using assms(1) by (simp add: storage_ok_view) (simp add: storage_ok_def)
  then obtain es where "all_edges (st_conn s) = Inr es" "distinct es" using all_edges_eq by blast
  with keep_derivations_distinct [of E "sqlite_reader E s" None es des] assms(2) show ?thesis
    by (simp add: derivation_edges_def)
qed

lemma proof_tree_loop_distinct: "distinct edges \<Longrightarrow> distinct (proof_tree_loop best em edges stack)"
  by (induction best em edges stack rule: proof_tree_loop.induct) (simp_all split: option.splits)

lemma reachable_report:
  assumes des: "derivation_edges E rd None = Inr des" and dist: "distinct (map fst des)"
  obtains best least tree where
    "reachable E rd n m [] None = Inr \<lparr> rr_target = n,
       rr_established = (\<exists>k. best = Some k \<and> rank m \<le> rank k), rr_kappa = best, rr_depth = least,
       rr_proof_tree_edges = tree \<rparr>"
    "\<forall>k. best = Some k \<longleftrightarrow> derives des [] n k \<and> (\<forall>k'. derives des [] n k' \<longrightarrow> k' \<le> k)"
    "\<forall>d. least = Some d \<longleftrightarrow> derives_at des [] n d \<and> (\<forall>d'. derives_at des [] n d' \<longrightarrow> d \<le> d')"
    "sorted (map hex tree)" "distinct tree" "set tree \<subseteq> fst ` set des" "best = None \<longrightarrow> tree = []"
    "\<forall>k. best = Some k \<longrightarrow> (\<exists>k'. derives (sub_derivations tree des) [] n k' \<and> k' \<le> k \<and>
       (unique_axioms des [] \<longrightarrow> k' = k))"
proof (cases "map_of (fs_kappa (fixpoint des [])) n")
  case None
  then have no: "\<nexists>k. derives des [] n k" "\<nexists>d. derives_at des [] n d"
    using kappa_fixpoint_None_iff derives_iff_derives_at by blast+
  show thesis
    by (rule that [of None None "[]"])
      (use no in \<open>simp_all add: reachable_eq [OF des] reachable_from_None [OF None]\<close>)
next
  case (Some k)
  let ?tree = "collect_proof_tree n (fs_best (fixpoint des [])) (dict_of des)"
  from reachable_from_Some [OF Some] obtain d where d: "map_of (fs_depth (fixpoint des [])) n = Some d"
    and r: "reachable_from des n m [] = Inr \<lparr> rr_target = n, rr_established = (rank m \<le> rank k),
      rr_kappa = Some k, rr_depth = Some d, rr_proof_tree_edges = ?tree \<rparr>" by blast
  note tree = collected_tree_derives [OF dist Some]
  show thesis
  proof (rule that [of "Some k" "Some d" ?tree])
    show "\<forall>k'. Some k = Some k' \<longleftrightarrow> derives des [] n k' \<and> (\<forall>k''. derives des [] n k'' \<longrightarrow> k'' \<le> k')"
      unfolding kappa_fixpoint_iff [symmetric] by (simp add: Some)
    show "\<forall>d'. Some d = Some d' \<longleftrightarrow> derives_at des [] n d' \<and> (\<forall>d''. derives_at des [] n d'' \<longrightarrow> d' \<le> d'')"
      unfolding depth_fixpoint_iff [symmetric] by (simp add: d)
    show "sorted (map hex ?tree)" "distinct ?tree"
      by (simp_all add: collect_proof_tree_def proof_tree_loop_distinct del: proof_tree_loop.simps)
  qed (use r tree in \<open>simp_all add: reachable_eq [OF des]\<close>)
qed

text \<open>C18: what the reachability endpoint reports, in a consistent storage, for a posted claim and threshold. Over
  the registered edges that derive claims: the strength is that of the strongest derivation of the claim and the
  depth that of the shallowest, both \<open>null\<close> if there is none; the claim is called established exactly when that
  strength reaches the threshold; and the edges of the proof tree, each once and in the order of their
  hexadecimal forms, derive the claim on their own, with the reported strength where no claim has two axioms of
  different strength. Without a derivation the tree is empty. The storage is not touched.\<close>

theorem http_reachable_is_best:
  assumes "float_spec (aw_floats W)" and "sendable (aw_floats W) (query_body n m)" and "n_claim n \<noteq> []"
    and "storage_ok (aw_env W) (ap_storage ap)" and "target = hash_bytes (aw_env W) (node_blob (aw_env W) n)"
  shows "\<exists>des d best least tree.
    set des = {(h, e). h \<in> dom (connectivity (committed (st_conn (ap_storage ap)))) \<and>
      edge_at (aw_env W) (ap_storage ap) h = Some e \<and> derives_claims e} \<and>
    handle W now ap (client_post (aw_floats W) (str ''/query/reachable'') (query_body n m)) =
      Some (ap, send_json (aw_floats W) 200 (JObj d)) \<and>
    map_of d (str ''target'') = Some (node_json (aw_env W) n) \<and>
    map_of d (str ''min_kappa'') = Some (JStr (kappa_value m)) \<and>
    map_of d (str ''kappa'') = Some (opt_json (\<lambda>k. JStr (kappa_value k)) best) \<and>
    map_of d (str ''established'') = Some (JBool (\<exists>k. best = Some k \<and> rank m \<le> rank k)) \<and>
    map_of d (str ''depth'') = Some (opt_json (\<lambda>l. JInt (int l)) least) \<and>
    map_of d (str ''proof_tree_edges'') = Some (JList (map h_json tree)) \<and>
    (\<forall>k. best = Some k \<longleftrightarrow> derives des [] target k \<and> (\<forall>k'. derives des [] target k' \<longrightarrow> k' \<le> k)) \<and>
    (\<forall>l. least = Some l \<longleftrightarrow>
       derives_at des [] target l \<and> (\<forall>l'. derives_at des [] target l' \<longrightarrow> l \<le> l')) \<and>
    sorted (map hex tree) \<and> distinct tree \<and> set tree \<subseteq> fst ` set des \<and> (best = None \<longrightarrow> tree = []) \<and>
    (\<forall>k. best = Some k \<longrightarrow> (\<exists>k'. derives (sub_derivations tree des) [] target k' \<and> k' \<le> k \<and>
       (unique_axioms des [] \<longrightarrow> k' = k)))"
proof -
  let ?E = "aw_env W" and ?rd = "sqlite_reader (aw_env W) (ap_storage ap)"
  obtain des where des: "derivation_edges ?E ?rd None = Inr des"
    "set des = {(h, e). h \<in> dom (connectivity (committed (st_conn (ap_storage ap)))) \<and>
      edge_at ?E (ap_storage ap) h = Some e \<and> derives_claims e}"
    using storage_derivations [OF assms(4)] by blast
  obtain best least tree where r: "reachable ?E ?rd target m [] None = Inr \<lparr> rr_target = target,
       rr_established = (\<exists>k. best = Some k \<and> rank m \<le> rank k), rr_kappa = best, rr_depth = least,
       rr_proof_tree_edges = tree \<rparr>"
    and what: "\<forall>k. best = Some k \<longleftrightarrow> derives des [] target k \<and> (\<forall>k'. derives des [] target k' \<longrightarrow> k' \<le> k)"
    "\<forall>d. least = Some d \<longleftrightarrow> derives_at des [] target d \<and> (\<forall>d'. derives_at des [] target d' \<longrightarrow> d \<le> d')"
    "sorted (map hex tree)" "distinct tree" "set tree \<subseteq> fst ` set des" "best = None \<longrightarrow> tree = []"
    "\<forall>k. best = Some k \<longrightarrow> (\<exists>k'. derives (sub_derivations tree des) [] target k' \<and> k' \<le> k \<and>
       (unique_axioms des [] \<longrightarrow> k' = k))"
    by (rule reachable_report [OF des(1) storage_derivations_distinct [OF assms(4) des(1)]])
  let ?d = "[(str ''target'', node_json ?E n), (str ''min_kappa'', JStr (kappa_value m)),
      (str ''established'', JBool (\<exists>k. best = Some k \<and> rank m \<le> rank k)),
      (str ''kappa'', opt_json (\<lambda>k. JStr (kappa_value k)) best),
      (str ''depth'', opt_json (\<lambda>d. JInt (int d)) least),
      (str ''proof_tree_edges'', JList (map h_json tree))]"
  have "query_reachable W ?rd (query_body n m) = Inr (JObj ?d)"
    unfolding query_reachable_def Let_def parse_query_body [OF assms(3)] parse_query_kappa
    by (simp add: raw_id_of assms(5) [symmetric] r node_to_dict_eq)
  then have "handle W now ap (client_post (aw_floats W) (str ''/query/reachable'') (query_body n m)) =
      Some (ap, send_json (aw_floats W) 200 (JObj ?d))"
    by (rule handle_read [OF dispatch_post(1) [OF read_body_post [OF assms(1,2)] client_post_simps]])
  then show ?thesis
    by (intro exI [of _ des] exI [of _ ?d] exI [of _ best] exI [of _ least] exI [of _ tree] conjI des(2) what)
      simp_all
qed

section \<open>Reproducing what was committed\<close>

lemma map_api_found:
  "(\<And>n. n \<in> set ns \<Longrightarrow> found_node W rd role (f n) = Inr n) \<Longrightarrow> map_api (found_node W rd role) (map f ns) = Inr ns"
  by (induction ns) auto

lemma parse_hash_body:
  assumes "length h = 34"
  shows "bind_api (json_item U (hash_body key h) key) (hex_to_hash U) = Inr h"
  using assms by (simp add: json_item_def hash_body_def h_json_def hex_to_hash_def from_hex_hex Hash_eq_Inr [THEN iffD2])

lemma found_stored:
  "resolve_edge (aw_env W) rd h = Inr (Some e) \<Longrightarrow> found_edge W rd h = Inr e"
  "resolve_node (aw_env W) rd h = Inr (Some n) \<Longrightarrow> found_node W rd role h = Inr n"
  by (simp_all add: found_edge_def found_node_def)

text \<open>What the report says when the edge, its nodes and its proof are there and verification gives what it gave.\<close>

definition reproduced_json ::
    "env \<Rightarrow> edge \<Rightarrow> node list \<Rightarrow> node \<Rightarrow> bytes option \<Rightarrow> verification_result \<Rightarrow> attestation_result \<Rightarrow>
      (pystr \<times> json) list" where
  "reproduced_json E e ps c p v a =
     [(str ''edge'', edge_json E e), (str ''premises'', JList (map (node_json E) ps)),
      (str ''conclusion'', node_json E c), (str ''rule'', JStr (e_rule e)),
      (str ''proof'', opt_json (\<lambda>b. JStr (b64encode b)) p),
      (str ''embedded'', JObj [(str ''verdict'', JStr (verdict_value (e_verdict e))),
                               (str ''kappa'', JStr (kappa_value (e_kappa e)))]),
      (str ''re_verified'', verification_to_dict v),
      (str ''verdict_match'', JBool (vr_verdict v = e_verdict e)),
      (str ''kappa_match'', JBool (vr_kappa v = e_kappa e)),
      (str ''attestation'', JObj
        [(str ''signer_agent_id'', opt_json JStr (at_signer_agent_id a)),
         (str ''signature_valid'', JBool (at_signature_valid a)),
         (str ''proof_bound'', JBool (at_proof_bound a)),
         (str ''proof_intact'', JBool (at_proof_intact a)),
         (str ''ok'', JBool (attestation_ok a))]),
      (str ''reproduced'', JBool (vr_verdict v = e_verdict e \<and> vr_kappa v = e_kappa e \<and> attestation_ok a))]"

lemma map_api_pure: "map_api (\<lambda>n. Inr (g n)) ns = Inr (map g ns)"
  by (induction ns) simp_all

lemma reproduction_eq: "reproduction E e ps c p v a = Inr (JObj (reproduced_json E e ps c p v a))"
  unfolding reproduction_def Let_def edge_to_dict_eq node_to_dict_eq map_api_pure reproduced_json_def
  by simp

lemma reproduce_stored:
  assumes "length eh = 34" and "resolve_edge (aw_env W) rd eh = Inr (Some e)"
    and "\<And>n. n \<in> set (c # ps) \<Longrightarrow> resolve_node (aw_env W) rd (f n) = Inr (Some n)"
    and "e_premises e = map f ps" and "e_conclusion e = f c"
    and "\<And>ph. e_proof_hash e = Some ph \<Longrightarrow> rd_get rd ph = Inr p" and "e_proof_hash e = None \<Longrightarrow> p = None"
    and "verify (aw_provers W) ps c (e_rule e) (e_type e) p five_seconds = Some (Inr v)"
    and "verify_edge_attestation (aw_env W) e rd R = Inr a"
  shows "reproduce W rd R (hash_body ''edge_hash'' eh) = Some (Inr (JObj (reproduced_json (aw_env W) e ps c p v a)))"
proof -
  have "map_api (found_node W rd ''premise'') (map f ps) = Inr ps"
    by (rule map_api_found, rule found_stored(2), rule assms(3)) simp
  moreover have "found_node W rd ''conclusion'' (f c) = Inr c" by (rule found_stored(2), rule assms(3)) simp
  moreover have "(case e_proof_hash e of None \<Rightarrow> Inr None | Some ph \<Rightarrow> of_res (rd_get rd ph)) = Inr p"
    using assms(6,7) by (cases "e_proof_hash e") simp_all
  ultimately show ?thesis
    unfolding reproduce_def Let_def parse_hash_body [OF assms(1)]
    by (simp add: found_stored(1) [OF assms(2)] assms(4,5,8,9) reproduction_eq)
qed

lemma reproduce_committed:
  assumes W: "E = aw_env W" and cbor: "cbor_spec E" and ok: "proposal_ok E s prems c p e" and as: "stored_as E s prems c p e s'"
    and e: "e = built_edge E signer prems c rule et p r"
    and verified: "verify (aw_provers W) prems c rule et p five_seconds = Some (Inr r)"
    and att: "verify_edge_attestation E e (sqlite_reader E s') ro = Inr a"
  shows "reproduce W (sqlite_reader E s') ro (hash_body ''edge_hash'' (hash_bytes E (edge_blob E e))) =
    Some (Inr (JObj (reproduced_json E e prems c p r a)))"
  unfolding W
proof (rule reproduce_stored [where f = "\<lambda>n. hash_bytes (aw_env W) (node_blob (aw_env W) n)"])
  note got = stored_as_blobs [OF ok as]
  note res = resolve_stored [OF cbor proposal_okD(6) [OF ok]]
  show "length (hash_bytes (aw_env W) (edge_blob (aw_env W) e)) = 34"
    using length_hash_bytes [OF proposal_okD(1) [OF ok]] by (simp add: W)
  show "resolve_edge (aw_env W) (sqlite_reader (aw_env W) s') (hash_bytes (aw_env W) (edge_blob (aw_env W) e)) =
      Inr (Some e)"
    using res(1) [OF got(1)] by (simp add: W)
  show "resolve_node (aw_env W) (sqlite_reader (aw_env W) s') (hash_bytes (aw_env W) (node_blob (aw_env W) n)) =
      Inr (Some n)" if "n \<in> set (c # prems)" for n
    using res(2) [OF got(2), of n] that by (auto simp: W)
  show "rd_get (sqlite_reader (aw_env W) s') ph = Inr p" if "e_proof_hash e = Some ph" for ph
    using that got(4) by (auto simp: e W)
  show "p = None" if "e_proof_hash e = None" using that by (simp add: e)
  show "verify (aw_provers W) prems c (e_rule e) (e_type e) p five_seconds = Some (Inr r)" using verified by (simp add: e)
  show "verify_edge_attestation (aw_env W) e (sqlite_reader (aw_env W) s') ro = Inr a" using att by (simp add: W)
qed (simp_all add: e W)

text \<open>C2: the proof of a committed edge is reproduced over the wire: after a posted proposal was accepted, whose
  signer the roster names, the commit is answered with the edge's address, and posting that address to
  \<open>/reproduce\<close> re-runs the verification on the stored records and reports the edge, its premises and its
  proof as they were posted, matching verdict and strength, an attestation in order, and \<open>reproduced\<close> true.
  Nothing in the reproduction depends on the time or changes the storage.\<close>

theorem http_commit_reproduced:
  assumes "float_spec (aw_floats W)" and "sendable (aw_floats W) (commit_body prems c rule et p signer)"
    and "postable prems c p signer" and "E = aw_env W" and "s = ap_storage ap"
    and "blake3_spec E" and "ed25519_spec E" and "cbor_spec E" and "storage_ok E s" and "graph_typed E s"
    and "verify (aw_provers W) prems c rule et p five_seconds = Some (Inr r)" and "\<not> rejected r"
    and "e = built_edge E signer prems c rule et p r"
    and "collision_free E (new_blobs E prems c p e \<union> blobs_of s)"
    and "identify (ap_roster ap) signer = Some name"
  shows "\<exists>ap' cr eh d.
    handle W now ap (client_post (aw_floats W) (str ''/commit'') (commit_body prems c rule et p signer)) =
      Some (ap', send_json (aw_floats W) 200 (commit_json E cr)) \<and>
    cm_edge cr = Some e \<and> cm_edge_hash cr = Some eh \<and>
    handle W now' ap' (client_post (aw_floats W) (str ''/reproduce'') (hash_body ''edge_hash'' eh)) =
      Some (ap', send_json (aw_floats W) 200 (JObj d)) \<and>
    map_of d (str ''reproduced'') = Some (JBool True) \<and>
    map_of d (str ''edge'') = Some (edge_json E e) \<and>
    map_of d (str ''premises'') = Some (JList (map (node_json E) prems)) \<and>
    map_of d (str ''conclusion'') = Some (node_json E c) \<and>
    map_of d (str ''proof'') = Some (opt_json (\<lambda>b. JStr (b64encode b)) p)"
proof -
  let ?eh = "hash_bytes E (edge_blob E e)"
  have ok: "proposal_ok E s prems c p e"
    unfolding assms(13) by (rule proposal_okI [OF assms(6-10) assms(14) [unfolded assms(13)]])
  obtain s' entry where run: "store_edge E now prems c p r e s =
      Some (s', Inr \<lparr> cm_verification = r, cm_edge = Some e,
        cm_edge_hash = Some ?eh, cm_log_entry = Some entry \<rparr>)"
    and as: "stored_as E s prems c p e s'"
    using store_edge_effect [OF ok, of now r] by blast
  let ?cr = "\<lparr> cm_verification = r, cm_edge = Some e, cm_edge_hash = Some ?eh, cm_log_entry = Some entry \<rparr>"
  have committed: "verify_and_commit E (aw_provers W) now signer prems c rule et p five_seconds s = Some (s', Inr ?cr)"
    using run verify_and_commit_accepted [OF assms(11,12)] by (simp add: assms(13))
  obtain s2 res a where "verify_and_commit E (aw_provers W) now signer prems c rule et p five_seconds s = Some (s2, Inr res)"
    "verify_edge_attestation E e (sqlite_reader E s2) (ap_roster ap) = Inr a" "attestation_ok a"
    using attested_commit [OF assms(6-15), of now] by blast
  with committed have att: "verify_edge_attestation E e (sqlite_reader E s') (ap_roster ap) = Inr a" "attestation_ok a"
    by simp_all
  define ap' where "ap' = ap\<lparr>ap_storage := s'\<rparr>"
  have post: "handle W now ap (client_post (aw_floats W) (str ''/commit'') (commit_body prems c rule et p signer)) =
      Some (ap', send_json (aw_floats W) 200 (commit_json E ?cr))"
    using handle_commit [OF read_body_post [OF assms(1,2)] _ _ parse_commit_body [OF assms(3)], where now = now and ap = ap]
      committed
    by (simp add: assms(4,5) commit_response_def ap'_def)
  let ?d = "reproduced_json E e prems c p r a"
  have len: "length ?eh = 34" by (rule length_hash_bytes [OF assms(6)])
  from reproduce_committed [OF assms(4,8) ok as assms(13,11) att(1)]
  have "dispatch W now' ap' (client_post (aw_floats W) (str ''/reproduce'') (hash_body ''edge_hash'' ?eh)) =
      Some (ap_storage ap', ok200 (Inr (JObj ?d)))"
    using dispatch_post(3) [OF read_body_post [OF assms(1) sendable_hash_body [OF len]] client_post_simps, where now = now' and ap = ap']
    by (simp add: ap'_def assms(4))
  from handle_read [OF this refl]
  have reproduced: "handle W now' ap' (client_post (aw_floats W) (str ''/reproduce'') (hash_body ''edge_hash'' ?eh)) =
      Some (ap', send_json (aw_floats W) 200 (JObj ?d))" .
  have "map_of ?d (str ''reproduced'') = Some (JBool True)" "map_of ?d (str ''edge'') = Some (edge_json E e)"
    "map_of ?d (str ''premises'') = Some (JList (map (node_json E) prems))"
    "map_of ?d (str ''conclusion'') = Some (node_json E c)"
    "map_of ?d (str ''proof'') = Some (opt_json (\<lambda>b. JStr (b64encode b)) p)"
    using att(2) by (simp_all add: reproduced_json_def assms(13))
  with post reproduced show ?thesis
    by (metis commit_result.select_convs(2) commit_result.select_convs(3))
qed

section \<open>A session\<close>

text \<open>The blobs that a request may bring do not collide with each other or with what is stored.\<close>

definition fresh_blobs :: "('e, 'f, 'o, 'm) api_world \<Rightarrow> app \<Rightarrow> http_request \<Rightarrow> bool" where
  "fresh_blobs W ap rq \<longleftrightarrow>
     (\<forall>body q r. read_body (aw_unicode W) (aw_floats W) rq = Inr body \<longrightarrow>
        parse_commit W (ap_signer ap) body = Inr q \<longrightarrow>
        verify (aw_provers W) (cq_premises q) (cq_conclusion q) (cq_rule q) (cq_edge_type q) (cq_proof q)
          (cq_timeout q) = Some (Inr r) \<longrightarrow>
        collision_free (aw_env W) (new_blobs (aw_env W) (cq_premises q) (cq_conclusion q) (cq_proof q)
            (built_edge (aw_env W) (cq_signer q) (cq_premises q) (cq_conclusion q) (cq_rule q)
               (cq_edge_type q) (cq_proof q) r) \<union> blobs_of (ap_storage ap)))"

text \<open>The single-threaded server handles one request after the other, each of them \<open>well_typed\<close>.\<close>

inductive session :: "('e, 'f, 'o, 'm) api_world \<Rightarrow> app \<Rightarrow> app \<Rightarrow> bool" for W ap where
  start: "session W ap ap"
| request: "session W ap ap' \<Longrightarrow> well_typed W ap' rq \<Longrightarrow> fresh_blobs W ap' rq \<Longrightarrow>
    handle W now ap' rq = Some (ap'', resp) \<Longrightarrow> session W ap ap''"

inductive_cases sessionE: "session W ap ap'"

definition app_ok :: "('e, 'f, 'o, 'm) api_world \<Rightarrow> app \<Rightarrow> bool" where
  "app_ok W ap \<longleftrightarrow> storage_ok (aw_env W) (ap_storage ap) \<and> graph_typed (aw_env W) (ap_storage ap)"

text \<open>What a later state keeps of an earlier one.\<close>

definition app_extends :: "app \<Rightarrow> app \<Rightarrow> bool" where
  "app_extends ap ap' \<longleftrightarrow>
     ap_roster ap' = ap_roster ap \<and> ap_signer ap' = ap_signer ap \<and>
     (\<forall>h b. get (st_objects (ap_storage ap)) h = Some b \<longrightarrow> get (st_objects (ap_storage ap')) h = Some b) \<and>
     (\<exists>rs. t_log (committed (st_conn (ap_storage ap'))) = t_log (committed (st_conn (ap_storage ap))) @ rs)"

lemma app_extends_refl: "app_extends ap ap"
  by (simp add: app_extends_def)

lemma app_extends_trans: "app_extends a b \<Longrightarrow> app_extends b c \<Longrightarrow> app_extends a c"
  by (auto simp: app_extends_def)

lemma handle_app:
  assumes "handle W now ap rq = Some (ap', resp)"
  shows "ap_roster ap' = ap_roster ap" and "ap_signer ap' = ap_signer ap"
    and "ap_storage ap' = ap_storage ap \<or>
      (is_commit rq \<and> (\<exists>body q out. read_body (aw_unicode W) (aw_floats W) rq = Inr body \<and>
       parse_commit W (ap_signer ap) body = Inr q \<and>
       verify_and_commit (aw_env W) (aw_provers W) now (cq_signer q) (cq_premises q)
       (cq_conclusion q) (cq_rule q) (cq_edge_type q) (cq_proof q) (cq_timeout q) (ap_storage ap) =
         Some (ap_storage ap', out)))"
proof -
  obtain s r where d: "dispatch W now ap rq = Some (s, r)" and ap': "ap' = ap\<lparr>ap_storage := s\<rparr>"
    using assms by (auto simp: handle_def split: option.splits)
  then show "ap_roster ap' = ap_roster ap" "ap_signer ap' = ap_signer ap" by simp_all
  have "ap_storage ap' = s" by (simp add: ap')
  with dispatch_storage [OF d] show "ap_storage ap' = ap_storage ap \<or>
      (is_commit rq \<and> (\<exists>body q out. read_body (aw_unicode W) (aw_floats W) rq = Inr body \<and>
       parse_commit W (ap_signer ap) body = Inr q \<and>
       verify_and_commit (aw_env W) (aw_provers W) now (cq_signer q) (cq_premises q)
       (cq_conclusion q) (cq_rule q) (cq_edge_type q) (cq_proof q) (cq_timeout q) (ap_storage ap) =
         Some (ap_storage ap', out)))" by simp
qed

lemma handle_preserves:
  assumes "blake3_spec (aw_env W)" and "ed25519_spec (aw_env W)" and "cbor_spec (aw_env W)"
    and "app_ok W ap" and "fresh_blobs W ap rq" and "handle W now ap rq = Some (ap', resp)"
  shows "app_ok W ap' \<and> app_extends ap ap'"
proof -
  note keep = handle_app [OF assms(6)]
  from keep(3) show ?thesis
  proof
    assume "ap_storage ap' = ap_storage ap"
    with keep(1,2) assms(4) show ?thesis by (simp add: app_ok_def app_extends_def)
  next
    assume "is_commit rq \<and> (\<exists>body q out. read_body (aw_unicode W) (aw_floats W) rq = Inr body \<and>
       parse_commit W (ap_signer ap) body = Inr q \<and>
       verify_and_commit (aw_env W) (aw_provers W) now (cq_signer q) (cq_premises q)
       (cq_conclusion q) (cq_rule q) (cq_edge_type q) (cq_proof q) (cq_timeout q) (ap_storage ap) =
         Some (ap_storage ap', out))"
    then obtain body q out where body: "read_body (aw_unicode W) (aw_floats W) rq = Inr body"
      and q: "parse_commit W (ap_signer ap) body = Inr q"
      and run: "verify_and_commit (aw_env W) (aw_provers W) now (cq_signer q) (cq_premises q)
       (cq_conclusion q) (cq_rule q) (cq_edge_type q) (cq_proof q) (cq_timeout q) (ap_storage ap) =
         Some (ap_storage ap', out)" by blast
    have ok: "storage_ok (aw_env W) (ap_storage ap)" "graph_typed (aw_env W) (ap_storage ap)"
      using assms(4) by (simp_all add: app_ok_def)
    have "storage_ok (aw_env W) (ap_storage ap') \<and> graph_typed (aw_env W) (ap_storage ap')"
      by (rule vc_invariant [OF assms(1-3) ok _ run]) (use assms(5) body q in \<open>auto simp: fresh_blobs_def\<close>)
    moreover have "pending (st_conn (ap_storage ap)) = None" using ok(1) by (simp add: storage_ok_def)
    from vc_append_only [OF this run]
    have "(get (st_objects (ap_storage ap)) h = Some b \<longrightarrow> get (st_objects (ap_storage ap')) h = Some b) \<and>
        (\<exists>rs. t_log (committed (st_conn (ap_storage ap'))) = t_log (committed (st_conn (ap_storage ap))) @ rs)" for h b
      by blast
    ultimately show ?thesis using keep(1,2) unfolding app_ok_def app_extends_def by blast
  qed
qed

text \<open>C11: over any number of requests, in any order and at any times, the server's storage stays consistent and
  its graph typed, the roster and the default signer stay what they were, no blob is lost or changed and the log
  only grows, provided that no two blobs brought in collide and that every commit which would otherwise be
  carried out has a text as its rule and as the domain of each node, and a finite time limit. The proviso is
  needed: the server checks none of these, and a commit whose rule is a number can leave an untyped record.\<close>

theorem http_session_invariant:
  assumes "session W ap ap'" and "blake3_spec (aw_env W)" and "ed25519_spec (aw_env W)" and "cbor_spec (aw_env W)"
    and "app_ok W ap"
  shows "app_ok W ap' \<and> app_extends ap ap'"
  using assms(1)
proof induction
  case start
  show ?case using assms(5) app_extends_refl by blast
next
  case (request ap' rq now ap'' resp)
  from handle_preserves [OF assms(2-4) conjunct1 [OF request.IH] request.hyps(3,4)] request.IH
  show ?case using app_extends_trans by blast
qed

text \<open>Only a commit writes: a request other than \<open>POST /commit\<close>, and a commit whose body is refused, whose
  proposal is rejected or whose verification raises, leaves the application exactly as it was.\<close>

theorem http_reads_do_not_write:
  assumes "handle W now ap rq = Some (ap', resp)" and "pending (st_conn (ap_storage ap)) = None"
    and "\<And>body q r. is_commit rq \<Longrightarrow> read_body (aw_unicode W) (aw_floats W) rq = Inr body \<Longrightarrow>
      parse_commit W (ap_signer ap) body = Inr q \<Longrightarrow>
      verify (aw_provers W) (cq_premises q) (cq_conclusion q) (cq_rule q) (cq_edge_type q) (cq_proof q)
        (cq_timeout q) = Some (Inr r) \<Longrightarrow> rejected r"
  shows "ap' = ap"
proof -
  note keep = handle_app [OF assms(1)]
  have "ap_storage ap' = ap_storage ap"
    using keep(3)
  proof
    assume "is_commit rq \<and> (\<exists>body q out. read_body (aw_unicode W) (aw_floats W) rq = Inr body \<and>
       parse_commit W (ap_signer ap) body = Inr q \<and>
       verify_and_commit (aw_env W) (aw_provers W) now (cq_signer q) (cq_premises q)
       (cq_conclusion q) (cq_rule q) (cq_edge_type q) (cq_proof q) (cq_timeout q) (ap_storage ap) =
         Some (ap_storage ap', out))"
    then obtain body q out where commit: "is_commit rq" and body: "read_body (aw_unicode W) (aw_floats W) rq = Inr body"
      and q: "parse_commit W (ap_signer ap) body = Inr q"
      and run: "verify_and_commit (aw_env W) (aw_provers W) now (cq_signer q) (cq_premises q)
       (cq_conclusion q) (cq_rule q) (cq_edge_type q) (cq_proof q) (cq_timeout q) (ap_storage ap) =
         Some (ap_storage ap', out)" by blast
    show ?thesis
    proof (cases "\<exists>r. verify (aw_provers W) (cq_premises q) (cq_conclusion q) (cq_rule q) (cq_edge_type q)
        (cq_proof q) (cq_timeout q) = Some (Inr r)")
      case True
      then obtain r where r: "verify (aw_provers W) (cq_premises q) (cq_conclusion q) (cq_rule q) (cq_edge_type q)
        (cq_proof q) (cq_timeout q) = Some (Inr r)" by blast
      from assms(3) [OF commit body q r] r run show ?thesis by (simp add: verify_and_commit_def)
    next
      case False
      with run show ?thesis by (auto simp: verify_and_commit_def split: option.splits sum.splits)
    qed
  qed
  with keep(1,2) show ?thesis by (cases ap; cases ap') simp
qed

lemma endpoints_are_nodes:
  assumes "graph_ok d" and "connectivity d h = Some (ps, c)" and "p \<in> set (c # ps)"
  shows "p \<in> set (t_nodes d)"
proof (cases "p = c")
  case True
  from assms(2) have "map_of (t_edges d) h = Some c" by (auto simp: connectivity_def)
  then have "(h, c) \<in> set (t_edges d)" by (rule map_of_SomeD)
  with assms(1) True show ?thesis by (auto simp: graph_ok_def list_all_iff)
next
  case False
  with assms(2,3) have "p \<in> (fst \<circ> snd) ` set (rows_of d h)" by (auto simp: connectivity_def)
  moreover have "set (rows_of d h) \<subseteq> set (t_premises d)" by (auto simp: rows_of_def)
  ultimately show ?thesis using assms(1) by (auto simp: graph_ok_def list_all_iff)
qed

section \<open>The whole graph\<close>

lemma resolved_dicts_eq:
  "(\<And>h. g h = Inr (f h)) \<Longrightarrow> (\<And>a. d a = Inr (j a)) \<Longrightarrow>
     resolved_dicts g d hs = Inr (List.map_filter (\<lambda>h. map_option j (f h)) hs)"
  by (induction hs) (auto simp: map_filter_simps split: option.splits)

lemma map_filter_resolved:
  "List.map_filter (\<lambda>h. map_option j (f h)) hs = map (\<lambda>h. j (the (f h))) (filter (\<lambda>h. f h \<noteq> None) hs)"
  by (induction hs) (auto simp: map_filter_simps)

definition node_at :: "env \<Rightarrow> storage \<Rightarrow> hash \<Rightarrow> node option" where
  "node_at E s h = Option.bind (get (st_objects s) h) (\<lambda>d. option_of_res (node_from_bytes E d))"

lemma typed_edge_at:
  assumes "cbor_spec E" and "storage_ok E s" and "graph_typed E s"
    and "connectivity (committed (st_conn s)) h = Some (ps, c)"
  shows "\<exists>e. edge_at E s h = Some e \<and> hash_bytes E (edge_blob E e) = h \<and> e_premises e = ps \<and> e_conclusion e = c"
proof -
  obtain e where e: "get (st_objects s) h = Some (edge_blob E e)" "edge_hashes_ok e" "e_premises e = ps"
    "e_conclusion e = c" using assms(3,4) unfolding graph_typed_def by blast
  have "hash_bytes E (edge_blob E e) = h"
    using assms(2) e(1) by (auto simp: storage_ok_def addressed_def)
  moreover have "edge_at E s h = Some e"
    using resolve_stored(1) [OF assms(1) e(2,1)] by (simp add: resolve_edge_at)
  ultimately show ?thesis using e(3,4) by blast
qed

lemma stored_node_at:
  assumes "cbor_spec E" and "storage_ok E s" and "stores_node E s h"
  shows "\<exists>n. node_at E s h = Some n \<and> hash_bytes E (node_blob E n) = h"
proof -
  obtain n where n: "get (st_objects s) h = Some (node_blob E n)" using assms(3) by (auto simp: stores_node_def)
  then have "hash_bytes E (node_blob E n) = h" using assms(2) by (auto simp: storage_ok_def addressed_def)
  moreover have "node_at E s h = Some n"
    using n node_decode_encode [OF assms(1)] by (simp add: node_at_def)
  ultimately show ?thesis by blast
qed

lemma graph_listing:
  assumes "storage_ok (aw_env W) s"
  shows "\<exists>hs. query_graph W (sqlite_reader (aw_env W) s) =
      Inr (JObj [(str ''nodes'', JList (List.map_filter (\<lambda>h. map_option (node_json (aw_env W)) (node_at (aw_env W) s h))
                    (sort (t_nodes (committed (st_conn s)))))),
                 (str ''edges'', JList (List.map_filter (\<lambda>h. map_option (edge_json (aw_env W)) (edge_at (aw_env W) s h)) hs))]) \<and>
    sorted hs \<and> distinct hs \<and> set hs = dom (connectivity (committed (st_conn s)))"
proof -
  let ?E = "aw_env W"
  have ok: "graph_ok (view (st_conn s))" using assms by (simp add: storage_ok_view) (simp add: storage_ok_def)
  obtain hs where hs: "all_edges (st_conn s) = Inr hs" "sorted hs" "distinct hs"
    "set hs = dom (connectivity (committed (st_conn s)))"
    using all_edges_eq [OF ok] by (auto simp: storage_ok_view [OF assms])
  have nodes: "all_nodes (st_conn s) = Inr (sort (t_nodes (committed (st_conn s))))"
    using all_nodes_eq [OF ok] by (simp add: storage_ok_view [OF assms])
  have n: "resolved_dicts (resolve_node ?E (sqlite_reader ?E s)) (\<lambda>n. node_to_dict ?E (raw_of n)) xs =
      Inr (List.map_filter (\<lambda>h. map_option (node_json ?E) (node_at ?E s h)) xs)" for xs
    by (rule resolved_dicts_eq) (simp_all add: resolve_sqlite node_at_def node_to_dict_eq)
  have e: "resolved_dicts (resolve_edge ?E (sqlite_reader ?E s)) (edge_to_dict ?E) xs =
      Inr (List.map_filter (\<lambda>h. map_option (edge_json ?E) (edge_at ?E s h)) xs)" for xs
    by (rule resolved_dicts_eq) (simp_all add: resolve_edge_at edge_to_dict_eq)
  show ?thesis
    using hs by (auto simp: query_graph_def Let_def nodes n e intro!: exI [of _ hs] simp del: str_Cons)
qed

lemma typed_edge_listed:
  assumes "cbor_spec E" and "storage_ok E s" and "graph_typed E s" and "h \<in> dom (connectivity (committed (st_conn s)))"
  shows "\<exists>e. edge_at E s h = Some e \<and> hash_bytes E (edge_blob E e) = h \<and>
    connectivity (committed (st_conn s)) h = Some (e_premises e, e_conclusion e)"
proof -
  obtain psc where "connectivity (committed (st_conn s)) h = Some psc" using assms(4) by blast
  then have c: "connectivity (committed (st_conn s)) h = Some (fst psc, snd psc)" by simp
  obtain e where "edge_at E s h = Some e" "hash_bytes E (edge_blob E e) = h" "e_premises e = fst psc" "e_conclusion e = snd psc"
    using typed_edge_at [OF assms(1-3) c] by blast
  with c show ?thesis by auto
qed

lemma endpoint_listed:
  assumes "cbor_spec E" and s: "storage_ok E s" and typed: "graph_typed E s"
    and c: "connectivity (committed (st_conn s)) h = Some (ps, k)" and p: "p \<in> set (k # ps)"
  shows "p \<in> set (t_nodes (committed (st_conn s)))"
    and "\<exists>n. node_at E s p = Some n \<and> hash_bytes E (node_blob E n) = p"
proof -
  have "stores_node E s k" "list_all (stores_node E s) ps" using typed c unfolding graph_typed_def by blast+
  with p have "stores_node E s p" by (auto simp: list_all_iff)
  then show "\<exists>n. node_at E s p = Some n \<and> hash_bytes E (node_blob E n) = p"
    using stored_node_at [OF assms(1) s] by blast
  show "p \<in> set (t_nodes (committed (st_conn s)))" using endpoints_are_nodes [OF _ c p] s by (simp add: storage_ok_def)
qed

text \<open>C32: the graph endpoint lists the graph. The nodes are the records of exactly the indexed addresses that
  resolve to a node, isolated ones included, each once and in the order of the addresses. The edges are the
  records of exactly the registered addresses, each once and in that order, an edge under the address of its own
  encoding and with the connectivity the index has. And the listing is closed: every premise and conclusion of a
  listed edge is the address of a listed node, the one its record encodes to. The storage is not touched.\<close>

theorem http_graph_is_complete:
  assumes "app_ok W ap" and "cbor_spec (aw_env W)"
    and "E = aw_env W" and "s = ap_storage ap" and "db = committed (st_conn s)"
  shows "\<exists>ks nodes hs recs.
    handle W now ap (client_get (str ''/query/graph'')) =
      Some (ap, send_json (aw_floats W) 200
        (JObj [(str ''nodes'', JList (map (\<lambda>k. node_json E (nodes k)) ks)),
               (str ''edges'', JList (map (\<lambda>h. edge_json E (recs h)) hs))])) \<and>
    sorted ks \<and> distinct ks \<and> set ks = {k \<in> set (t_nodes db). node_at E s k \<noteq> None} \<and>
    (\<forall>k \<in> set ks. node_at E s k = Some (nodes k)) \<and>
    sorted hs \<and> distinct hs \<and> set hs = dom (connectivity db) \<and>
    (\<forall>h \<in> set hs. edge_at E s h = Some (recs h) \<and> hash_bytes E (edge_blob E (recs h)) = h \<and>
       connectivity db h = Some (e_premises (recs h), e_conclusion (recs h)) \<and>
       (\<forall>p \<in> set (e_conclusion (recs h) # e_premises (recs h)).
          p \<in> set ks \<and> hash_bytes E (node_blob E (nodes p)) = p))"
proof -
  have s: "storage_ok E s" and typed: "graph_typed E s" using assms(1,3,4) by (simp_all add: app_ok_def)
  define nodes where "nodes k = the (node_at E s k)" for k
  define recs where "recs h = the (edge_at E s h)" for h
  define ks where "ks = filter (\<lambda>k. node_at E s k \<noteq> None) (sort (t_nodes db))"
  obtain hs where hs: "query_graph W (sqlite_reader E s) =
      Inr (JObj [(str ''nodes'', JList (map (\<lambda>k. node_json E (nodes k)) ks)),
        (str ''edges'', JList (map (\<lambda>h. edge_json E (recs h)) (filter (\<lambda>h. edge_at E s h \<noteq> None) hs)))])"
    "sorted hs" "distinct hs" "set hs = dom (connectivity db)"
    using graph_listing [of W s] s
    by (auto simp: assms(3,5) map_filter_resolved nodes_def recs_def ks_def simp del: str_Cons)
  have rec: "\<exists>e. edge_at E s h = Some e \<and> hash_bytes E (edge_blob E e) = h \<and>
      connectivity db h = Some (e_premises e, e_conclusion e)" if "h \<in> set hs" for h
    using typed_edge_listed [OF _ s typed] assms(2,3,5) that hs(4) by simp
  then have "filter (\<lambda>h. edge_at E s h \<noteq> None) hs = hs" by (intro filter_True) fastforce
  with hs(1) assms(3,4) have "query_graph W (sqlite_reader (aw_env W) (ap_storage ap)) =
      Inr (JObj [(str ''nodes'', JList (map (\<lambda>k. node_json E (nodes k)) ks)),
        (str ''edges'', JList (map (\<lambda>h. edge_json E (recs h)) hs))])" by simp
  note run = handle_read [OF dispatch_get(2) [OF client_get_simps] this, of now]
  have ks: "sorted ks" "distinct ks" "set ks = {k \<in> set (t_nodes db). node_at E s k \<noteq> None}"
    using s by (auto simp: ks_def storage_ok_def graph_ok_def assms(5) sorted_wrt_filter)
  have "edge_at E s h = Some (recs h) \<and> hash_bytes E (edge_blob E (recs h)) = h \<and>
       connectivity db h = Some (e_premises (recs h), e_conclusion (recs h)) \<and>
       (\<forall>p \<in> set (e_conclusion (recs h) # e_premises (recs h)).
          p \<in> set ks \<and> hash_bytes E (node_blob E (nodes p)) = p)" if h: "h \<in> set hs" for h
  proof -
    obtain e where e: "edge_at E s h = Some e" "hash_bytes E (edge_blob E e) = h"
      "connectivity db h = Some (e_premises e, e_conclusion e)" using rec [OF h] by blast
    have "p \<in> set ks \<and> hash_bytes E (node_blob E (nodes p)) = p" if "p \<in> set (e_conclusion e # e_premises e)" for p
      using endpoint_listed [OF _ s typed _ that, of h] assms(2,3,5) e(3) by (auto simp: ks(3) nodes_def)
    moreover have "recs h = e" by (simp add: recs_def e(1))
    ultimately show ?thesis using e by blast
  qed
  moreover have "\<forall>k \<in> set ks. node_at E s k = Some (nodes k)" by (auto simp: ks(3) nodes_def)
  ultimately show ?thesis using run ks hs(2-4) by blast
qed

section \<open>Refusals\<close>

text \<open>A node that a body may contain, and what the server says of anything else.\<close>

definition is_node :: "json \<Rightarrow> bool" where
  "is_node j \<longleftrightarrow> (\<exists>m t. j = JObj m \<and> map_of m (str ''claim'') = Some (JStr t) \<and> t \<noteq> [])"

definition node_complaint :: "json \<Rightarrow> pystr" where
  "node_complaint j =
     (if \<exists>m. j = JObj m then str ''node.claim must be a non-empty string'' else str ''node must be an object'')"

definition quoted :: "string \<Rightarrow> pystr" where
  "quoted key = [39] @ str key @ [39]"

definition missing_field :: "string \<Rightarrow> pystr" where
  "missing_field key = str ''missing field: '' @ quoted key"

definition posts :: "pystr set" where
  "posts = {str ''/query/reachable'', str ''/query/path'', str ''/reproduce'', str ''/attest'',
     str ''/verify_history'', str ''/commit''}"

definition takes_address :: "(pystr \<times> string) set" where
  "takes_address = {(str ''/reproduce'', ''edge_hash''), (str ''/attest'', ''edge_hash''),
     (str ''/verify_history'', ''root_hash'')}"

text \<open>The nodes of the premises, which may be left out, and a proof the server can read, which may be left out too.\<close>

definition premises_of :: "(pystr \<times> json) list \<Rightarrow> json list \<Rightarrow> bool" where
  "premises_of d js \<longleftrightarrow>
     map_of d (str ''premises'') = Some (JList js) \<or> (map_of d (str ''premises'') = None \<and> js = [])"

definition has_nodes :: "(pystr \<times> json) list \<Rightarrow> bool" where
  "has_nodes d \<longleftrightarrow> (\<exists>js c. premises_of d js \<and> (\<forall>j \<in> set js. is_node j) \<and>
     map_of d (str ''conclusion'') = Some c \<and> is_node c)"

definition readable_proof :: "(pystr \<times> json) list \<Rightarrow> bool" where
  "readable_proof d \<longleftrightarrow>
     map_of d (str ''proof'') \<in> insert None (range (\<lambda>p. Some (opt_json (\<lambda>b. JStr (b64encode b)) p)))"

text \<open>The refusals: a posted object, the path, and the status and message of the answer.\<close>

inductive refused ::
    "('e, 'f, 'o, 'm) api_world \<Rightarrow> app \<Rightarrow> (pystr \<times> json) list \<Rightarrow> pystr \<Rightarrow> nat \<Rightarrow> pystr \<Rightarrow> bool"
  for W ap d where
  no_route: "takeWhile (\<lambda>c. c \<noteq> 63) path \<notin> posts \<Longrightarrow>
    refused W ap d path 404 (str ''no route for POST '' @ takeWhile (\<lambda>c. c \<noteq> 63) path)"
| no_address: "(path, key) \<in> takes_address \<Longrightarrow> map_of d (str key) = None \<Longrightarrow>
    refused W ap d path 400 (missing_field key)"
| bad_address: "(path, key) \<in> takes_address \<Longrightarrow> map_of d (str key) = Some (JStr t) \<Longrightarrow> from_hex t = Inl x \<Longrightarrow>
    refused W ap d path 400 (str ''invalid hex hash: '' @ py_repr (aw_unicode W) t)"
| untyped_address: "(path, key) \<in> takes_address \<Longrightarrow> map_of d (str key) = Some j \<Longrightarrow> \<forall>t. j \<noteq> JStr t \<Longrightarrow>
    refused W ap d path 500 (str ''internal error: '' @ aw_text W TypeError)"
| no_edge: "path \<in> {str ''/reproduce'', str ''/attest''} \<Longrightarrow> map_of d (str ''edge_hash'') = Some (JStr t) \<Longrightarrow>
    from_hex t = Inr h \<Longrightarrow> edge_at (aw_env W) (ap_storage ap) h = None \<Longrightarrow>
    refused W ap d path 404 (str ''edge not found'')"
| bad_claim: "path \<in> {str ''/query/reachable'', str ''/query/path''} \<Longrightarrow> \<not> is_node (JObj d) \<Longrightarrow>
    refused W ap d path 400 (str ''node.claim must be a non-empty string'')"
| bad_kappa: "path \<in> {str ''/query/reachable'', str ''/query/path''} \<Longrightarrow> is_node (JObj d) \<Longrightarrow>
    map_of d (str ''min_kappa'') = Some j \<Longrightarrow> j \<noteq> JNull \<Longrightarrow> \<forall>k. j \<noteq> JStr (kappa_value k) \<Longrightarrow>
    refused W ap d path 400 (str ''invalid min_kappa: '' @ json_repr (aw_unicode W) (aw_floats W) j)"
| bad_premise: "premises_of d (good @ bad # rest) \<Longrightarrow> \<forall>j \<in> set good. is_node j \<Longrightarrow> \<not> is_node bad \<Longrightarrow>
    refused W ap d (str ''/commit'') 400 (node_complaint bad)"
| no_conclusion: "premises_of d js \<Longrightarrow> \<forall>j \<in> set js. is_node j \<Longrightarrow> map_of d (str ''conclusion'') = None \<Longrightarrow>
    refused W ap d (str ''/commit'') 400 (missing_field ''conclusion'')"
| bad_conclusion: "premises_of d js \<Longrightarrow> \<forall>j \<in> set js. is_node j \<Longrightarrow> map_of d (str ''conclusion'') = Some c \<Longrightarrow>
    \<not> is_node c \<Longrightarrow> refused W ap d (str ''/commit'') 400 (node_complaint c)"
| no_type: "has_nodes d \<Longrightarrow> map_of d (str ''edge_type'') = None \<Longrightarrow>
    refused W ap d (str ''/commit'') 400 (missing_field ''edge_type'')"
| bad_type: "has_nodes d \<Longrightarrow> map_of d (str ''edge_type'') = Some j \<Longrightarrow> \<forall>et. j \<noteq> JStr (edge_type_value et) \<Longrightarrow>
    refused W ap d (str ''/commit'') 400 (str ''invalid edge_type: '' @ json_repr (aw_unicode W) (aw_floats W) j)"
| bad_key: "has_nodes d \<Longrightarrow> map_of d (str ''edge_type'') = Some (JStr (edge_type_value et)) \<Longrightarrow> readable_proof d \<Longrightarrow>
    map_of d (str ''signer_pubkey'') = Some (JStr t) \<Longrightarrow> t \<noteq> [] \<Longrightarrow> fromhex t = Inl x \<Longrightarrow>
    refused W ap d (str ''/commit'') 400 (str ''invalid hex pubkey: '' @ py_repr (aw_unicode W) t)"
| key_length: "has_nodes d \<Longrightarrow> map_of d (str ''edge_type'') = Some (JStr (edge_type_value et)) \<Longrightarrow> readable_proof d \<Longrightarrow>
    map_of d (str ''signer_pubkey'') = Some (JStr t) \<Longrightarrow> t \<noteq> [] \<Longrightarrow> fromhex t = Inr raw \<Longrightarrow> length raw \<noteq> 32 \<Longrightarrow>
    refused W ap d (str ''/commit'') 400 (str ''pubkey must be 32 bytes, got '' @ nat_text (length raw))"

lemma key_text:
  "key \<in> {''edge_hash'', ''root_hash'', ''conclusion'', ''edge_type''} \<Longrightarrow>
     py_repr U (str key) = quoted key"
  by (auto simp: py_repr_def repr_char_def quoted_def)

lemma complaint_text:
  assumes "key \<in> {''edge_hash'', ''root_hash'', ''conclusion'', ''edge_type''}"
  shows "json_item U (JObj d) key =
    (case map_of d (str key) of
       None \<Rightarrow> Inl (Raised KeyError (quoted key)) | Some v \<Rightarrow> Inr v)"
  unfolding json_item_def key_text [OF assms] by (simp del: str_Cons)

lemma settle_errors:
  "settle W (ok200 (Inl (ApiError status msg))) = Some (status, error_payload msg)"
  "settle W (ok200 (Inl (Raised KeyError (quoted key)))) = Some (400, error_payload (missing_field key))"
  "settle W (ok200 (Inl (Raised TypeError []))) = Some (500, error_payload (str ''internal error: '' @ aw_text W TypeError))"
  by (simp_all add: settle_def ok200_def missing_field_def exn_text_def quoted_def)

lemma parse_node_is: "is_node j \<Longrightarrow> \<exists>n. parse_node j = Inr n"
  by (auto simp: is_node_def parse_node_def simp del: str_Cons)

lemma parse_node_complains: "\<not> is_node j \<Longrightarrow> parse_node j = Inl (ApiError 400 (node_complaint j))"
  by (cases j) (auto simp: is_node_def parse_node_def node_complaint_def simp del: str_Cons split: option.splits json.splits)

lemma map_api_nodes: "\<forall>j \<in> set js. is_node j \<Longrightarrow> \<exists>ns. map_api parse_node js = Inr ns"
  by (induction js) (use parse_node_is in fastforce)+

lemma map_api_complains:
  "\<forall>j \<in> set good. is_node j \<Longrightarrow> \<not> is_node bad \<Longrightarrow>
     map_api parse_node (good @ bad # rest) = Inl (ApiError 400 (node_complaint bad))"
  by (induction good) (use parse_node_is in \<open>fastforce simp: parse_node_complains\<close>)+

lemma premises_read:
  "premises_of d js \<Longrightarrow> bind_api (json_get (JObj d) ''premises'' (JList [])) json_iter = Inr js"
  by (auto simp: premises_of_def json_get_def simp del: str_Cons)

lemma enum_complains: "\<forall>m. j \<noteq> JStr (val m) \<Longrightarrow> enum_of ms val (py_of_json j) = Inl ValueError"
  by (cases j) (auto simp: enum_of_def find_Some_iff split: option.splits)

lemma parse_kappa_complains:
  "\<forall>k. j \<noteq> JStr (kappa_value k) \<Longrightarrow> j \<noteq> JNull \<Longrightarrow>
     parse_kappa U F j = Inl (ApiError 400 (str ''invalid min_kappa: '' @ json_repr U F j))"
  by (simp add: parse_kappa_def kappa_of_def enum_complains)

lemma parse_edge_type_complains:
  "\<forall>t. j \<noteq> JStr (edge_type_value t) \<Longrightarrow>
     parse_edge_type U F j = Inl (ApiError 400 (str ''invalid edge_type: '' @ json_repr U F j))"
  by (simp add: parse_edge_type_def edge_type_of_def enum_complains)

lemma commit_complains:
  assumes "premises_of d js"
  shows
    "js = good @ bad # rest \<Longrightarrow> \<forall>j \<in> set good. is_node j \<Longrightarrow> \<not> is_node bad \<Longrightarrow>
       parse_commit W dflt (JObj d) = Inl (ApiError 400 (node_complaint bad))"
    "\<forall>j \<in> set js. is_node j \<Longrightarrow> map_of d (str ''conclusion'') = None \<Longrightarrow>
       parse_commit W dflt (JObj d) = Inl (Raised KeyError (quoted ''conclusion''))"
    "\<forall>j \<in> set js. is_node j \<Longrightarrow> map_of d (str ''conclusion'') = Some c \<Longrightarrow> \<not> is_node c \<Longrightarrow>
       parse_commit W dflt (JObj d) = Inl (ApiError 400 (node_complaint c))"
proof -
  note read = premises_read [OF assms]
  show "parse_commit W dflt (JObj d) = Inl (ApiError 400 (node_complaint bad))"
    if "js = good @ bad # rest" "\<forall>j \<in> set good. is_node j" "\<not> is_node bad"
    using read that(1) map_api_complains [OF that(2,3)] by (simp add: parse_commit_def Let_def del: str_Cons)
  assume "\<forall>j \<in> set js. is_node j"
  from map_api_nodes [OF this] obtain ns where ns: "map_api parse_node js = Inr ns" ..
  show "parse_commit W dflt (JObj d) = Inl (Raised KeyError (quoted ''conclusion''))"
    if "map_of d (str ''conclusion'') = None"
    using read ns that by (simp add: parse_commit_def Let_def complaint_text del: str_Cons)
  show "parse_commit W dflt (JObj d) = Inl (ApiError 400 (node_complaint c))"
    if "map_of d (str ''conclusion'') = Some c" "\<not> is_node c"
    using read ns that by (simp add: parse_commit_def Let_def complaint_text parse_node_complains del: str_Cons)
qed

text \<open>Once the nodes are there, the edge type is next, then the proof and the key.\<close>

lemma commit_after_nodes:
  assumes "has_nodes d"
  obtains rule ns n where "json_get (JObj d) ''rule'' (JStr []) = Inr rule"
    "bind_api (bind_api (json_get (JObj d) ''premises'' (JList [])) json_iter) (map_api parse_node) = Inr ns"
    "bind_api (json_item U (JObj d) ''conclusion'') parse_node = Inr n"
proof -
  obtain js c where js: "premises_of d js" "\<forall>j \<in> set js. is_node j" "map_of d (str ''conclusion'') = Some c" "is_node c"
    using assms by (auto simp: has_nodes_def)
  obtain ns n where "map_api parse_node js = Inr ns" "parse_node c = Inr n"
    using map_api_nodes [OF js(2)] parse_node_is [OF js(4)] by blast
  with that premises_read [OF js(1)] js(3) show thesis
    by (simp add: complaint_text json_get_def del: str_Cons)
qed

lemma commit_complains_type:
  assumes "has_nodes d"
  shows
    "map_of d (str ''edge_type'') = None \<Longrightarrow>
       parse_commit W dflt (JObj d) = Inl (Raised KeyError (quoted ''edge_type''))"
    "map_of d (str ''edge_type'') = Some j \<Longrightarrow> \<forall>et. j \<noteq> JStr (edge_type_value et) \<Longrightarrow>
       parse_commit W dflt (JObj d) =
         Inl (ApiError 400 (str ''invalid edge_type: '' @ json_repr (aw_unicode W) (aw_floats W) j))"
proof -
  obtain rule ns n where "json_get (JObj d) ''rule'' (JStr []) = Inr rule"
    "bind_api (bind_api (json_get (JObj d) ''premises'' (JList [])) json_iter) (map_api parse_node) = Inr ns"
    "bind_api (json_item (aw_unicode W) (JObj d) ''conclusion'') parse_node = Inr n"
    by (rule commit_after_nodes [OF assms])
  note nodes = this
  show "map_of d (str ''edge_type'') = None \<Longrightarrow>
       parse_commit W dflt (JObj d) = Inl (Raised KeyError (quoted ''edge_type''))"
    unfolding parse_commit_def Let_def nodes by (simp add: complaint_text nodes del: str_Cons)
  show "map_of d (str ''edge_type'') = Some j \<Longrightarrow> \<forall>et. j \<noteq> JStr (edge_type_value et) \<Longrightarrow>
       parse_commit W dflt (JObj d) =
         Inl (ApiError 400 (str ''invalid edge_type: '' @ json_repr (aw_unicode W) (aw_floats W) j))"
    unfolding parse_commit_def Let_def nodes
    by (simp add: complaint_text nodes parse_edge_type_complains del: str_Cons)
qed

lemma proof_read:
  assumes "readable_proof d"
  shows "\<exists>p. bind_api (json_get (JObj d) ''proof'' JNull) parse_proof = Inr p"
proof -
  have sent: "\<exists>q. parse_proof (opt_json (\<lambda>b. JStr (b64encode b)) p) = Inr q" for p
    by (cases p) (auto simp: parse_proof_def opt_json_def b64decode_encode)
  moreover have "parse_proof JNull = Inr None" by (simp add: parse_proof_def)
  ultimately show ?thesis
    using assms by (fastforce simp: readable_proof_def json_get_def simp del: str_Cons split: option.splits)
qed

lemma commit_complains_key:
  assumes "has_nodes d" and "map_of d (str ''edge_type'') = Some (JStr (edge_type_value et))" and "readable_proof d"
    and "map_of d (str ''signer_pubkey'') = Some (JStr t)" and "t \<noteq> []"
    and "parse_pubkey (aw_unicode W) (JStr t) = Inl e"
  shows "parse_commit W dflt (JObj d) = Inl e"
proof -
  obtain rule ns n where nodes: "json_get (JObj d) ''rule'' (JStr []) = Inr rule"
    "bind_api (bind_api (json_get (JObj d) ''premises'' (JList [])) json_iter) (map_api parse_node) = Inr ns"
    "bind_api (json_item (aw_unicode W) (JObj d) ''conclusion'') parse_node = Inr n"
    by (rule commit_after_nodes [OF assms(1)])
  obtain p where p: "bind_api (json_get (JObj d) ''proof'' JNull) parse_proof = Inr p"
    using proof_read [OF assms(3)] by blast
  have key: "bind_api (json_get (JObj d) ''signer_pubkey'' JNull)
      (\<lambda>v. if json_truthy v then parse_pubkey (aw_unicode W) v else Inr dflt) = Inl e"
    using assms(4-6) by (simp add: json_get_def del: str_Cons)
  have type: "bind_api (json_item (aw_unicode W) (JObj d) ''edge_type'') (parse_edge_type (aw_unicode W) (aw_floats W)) = Inr et"
    using assms(2) by (simp add: complaint_text parse_edge_type_def del: str_Cons)
  show ?thesis unfolding parse_commit_def Let_def nodes by (simp add: nodes p key type del: str_Cons)
qed

lemma post_refused:
  assumes "dispatch W now ap rq = Some (ap_storage ap, x)" and "settle W x = Some (status, error_payload msg)"
  shows "handle W now ap rq = Some (ap, send_json (aw_floats W) status (error_payload msg))"
  using assms by (simp add: handle_def)

lemma address_refused:
  assumes "read_body (aw_unicode W) (aw_floats W) rq = Inr body" and "hq_method rq = POST"
    and "(hq_path rq, key) \<in> takes_address"
    and "bind_api (json_item (aw_unicode W) body key) (hex_to_hash (aw_unicode W)) = Inl e"
  shows "dispatch W now ap rq = Some (ap_storage ap, ok200 (Inl e))"
proof -
  consider "hq_path rq = str ''/reproduce''" "key = ''edge_hash''" | "hq_path rq = str ''/attest''" "key = ''edge_hash''"
    | "hq_path rq = str ''/verify_history''" "key = ''root_hash''"
    using assms(3) by (auto simp: takes_address_def simp del: str_Cons)
  then show ?thesis
  proof cases
    case 1
    with assms(4) show ?thesis
      by (simp add: dispatch_post(3) [OF assms(1,2)] reproduce_def Let_def del: str_Cons)
  next
    case 2
    with assms(4) show ?thesis by (simp add: dispatch_post(4) [OF assms(1,2)] attest_def Let_def del: str_Cons)
  next
    case 3
    with assms(4) show ?thesis
      by (simp add: dispatch_post(5) [OF assms(1,2)] verify_history_endpoint_def Let_def del: str_Cons)
  qed
qed

lemma edge_refused:
  assumes "read_body (aw_unicode W) (aw_floats W) rq = Inr body" and "hq_method rq = POST"
    and "hq_path rq \<in> {str ''/reproduce'', str ''/attest''}"
    and "bind_api (json_item (aw_unicode W) body ''edge_hash'') (hex_to_hash (aw_unicode W)) = Inr h"
    and "edge_at (aw_env W) (ap_storage ap) h = None"
  shows "dispatch W now ap rq = Some (ap_storage ap, ok200 (Inl (ApiError 404 (str ''edge not found''))))"
proof -
  have found: "found_edge W (sqlite_reader (aw_env W) (ap_storage ap)) h = Inl (ApiError 404 (str ''edge not found''))"
    using assms(5) by (simp add: found_edge_def resolve_edge_at)
  from assms(3) consider "hq_path rq = str ''/reproduce''" | "hq_path rq = str ''/attest''" by blast
  then show ?thesis
  proof cases
    case 1
    with assms(4) found show ?thesis
      by (simp add: dispatch_post(3) [OF assms(1,2)] reproduce_def Let_def del: str_Cons)
  next
    case 2
    with assms(4) found show ?thesis
      by (simp add: dispatch_post(4) [OF assms(1,2)] attest_def Let_def del: str_Cons)
  qed
qed

lemma query_refused:
  assumes "read_body (aw_unicode W) (aw_floats W) rq = Inr body" and "hq_method rq = POST"
    and "hq_path rq \<in> {str ''/query/reachable'', str ''/query/path''}"
    and "parse_node body = Inl e \<or> (\<exists>n. parse_node body = Inr n) \<and>
      bind_api (json_get body ''min_kappa'' JNull) (parse_kappa (aw_unicode W) (aw_floats W)) = Inl e"
  shows "dispatch W now ap rq = Some (ap_storage ap, ok200 (Inl e))"
proof -
  from assms(3) consider "hq_path rq = str ''/query/reachable''" | "hq_path rq = str ''/query/path''" by blast
  then show ?thesis
  proof cases
    case 1
    with assms(4) show ?thesis
      by (auto simp: dispatch_post(1) [OF assms(1,2)] query_reachable_def Let_def simp del: str_Cons)
  next
    case 2
    with assms(4) show ?thesis
      by (auto simp: dispatch_post(2) [OF assms(1,2)] query_path_def Let_def simp del: str_Cons)
  qed
qed

lemma commit_refused:
  assumes "read_body (aw_unicode W) (aw_floats W) rq = Inr body" and "hq_method rq = POST"
    and "hq_path rq = str ''/commit''" and "parse_commit W (ap_signer ap) body = Inl e"
  shows "dispatch W now ap rq = Some (ap_storage ap, ok200 (Inl e))"
  using assms(4) by (simp add: dispatch_post(6) [OF assms(1-3)] commit_def)

lemma route_refused:
  assumes "read_body (aw_unicode W) (aw_floats W) rq = Inr body" and "hq_method rq = POST"
    and "takeWhile (\<lambda>c. c \<noteq> 63) (hq_path rq) \<notin> posts"
  shows "dispatch W now ap rq = Some (ap_storage ap,
    Inr (404, error_payload (str ''no route for POST '' @ takeWhile (\<lambda>c. c \<noteq> 63) (hq_path rq))))"
proof -
  have "str ''no route for '' @ method_text POST @ [32] @ path = str ''no route for POST '' @ path" for path
    by (simp add: method_text_def)
  with assms show ?thesis by (simp add: dispatch_def Let_def posts_def error_payload_def del: str_Cons)
qed

text \<open>C33: what the API refuses, it refuses with the documented status and message, and it leaves the storage
  alone: an unknown route, a missing, malformed, untyped or unknown address, a query without a claim or with an
  unknown strength, and a commit with a premise or conclusion that is no node, without a conclusion or an edge
  type, with an unknown edge type, or with a signer's key that is not hexadecimal or not 32 bytes long. The
  table \<open>refused\<close> lists them, each with what must be in order before it is looked at.\<close>

theorem http_refusals:
  assumes "float_spec (aw_floats W)" and "sendable (aw_floats W) (JObj d)" and "refused W ap d path status msg"
  shows "handle W now ap (client_post (aw_floats W) path (JObj d)) =
    Some (ap, send_json (aw_floats W) status (error_payload msg))"
proof -
  note posted = read_body_post [OF assms(1,2)] client_post_simps(1)
  note shown = client_post_simps(2) settle_errors
  let ?U = "aw_unicode W"
  show ?thesis
    using assms(3)
  proof cases
    case no_route
    then show ?thesis
      by (intro post_refused [OF route_refused [OF posted]]) (simp_all add: settle_def)
  next
    case (no_address key)
    then have "json_item ?U (JObj d) key = Inl (Raised KeyError (quoted key))"
      by (subst complaint_text) (auto simp: takes_address_def simp del: str_Cons)
    with post_refused [OF address_refused [OF posted]] no_address show ?thesis by (simp add: shown del: str_Cons)
  next
    case (bad_address key t x)
    then have "json_item ?U (JObj d) key = Inr (JStr t)"
      by (subst complaint_text) (auto simp: takes_address_def simp del: str_Cons)
    with post_refused [OF address_refused [OF posted]] bad_address show ?thesis
      by (simp add: shown hex_to_hash_def del: str_Cons)
  next
    case (untyped_address key j)
    then have "json_item ?U (JObj d) key = Inr j"
      by (subst complaint_text) (auto simp: takes_address_def simp del: str_Cons)
    moreover have "hex_to_hash ?U j = Inl (Raised TypeError [])"
      using untyped_address(5) by (simp add: hex_to_hash_def split: json.split)
    ultimately show ?thesis
      using post_refused [OF address_refused [OF posted]] untyped_address by (simp add: shown del: str_Cons)
  next
    case (no_edge t h)
    then have "bind_api (json_item ?U (JObj d) ''edge_hash'') (hex_to_hash ?U) = Inr h"
      by (simp add: complaint_text hex_to_hash_def del: str_Cons)
    from post_refused [OF edge_refused [OF posted _ this]] no_edge show ?thesis by (simp add: shown del: str_Cons)
  next
    case bad_claim
    with post_refused [OF query_refused [OF posted]] parse_node_complains [OF bad_claim(4)] show ?thesis
      by (simp add: shown node_complaint_def del: str_Cons)
  next
    case (bad_kappa j)
    then have "\<exists>n. parse_node (JObj d) = Inr n" using parse_node_is by blast
    moreover have "bind_api (json_get (JObj d) ''min_kappa'' JNull) (parse_kappa ?U (aw_floats W)) =
        Inl (ApiError 400 (str ''invalid min_kappa: '' @ json_repr ?U (aw_floats W) j))"
      using bad_kappa parse_kappa_complains [OF bad_kappa(7,6)] by (simp add: json_get_def del: str_Cons)
    ultimately show ?thesis
      using post_refused [OF query_refused [OF posted _ disjI2 [OF conjI]]] bad_kappa(1-3)
      by (simp add: shown del: str_Cons)
  next
    case (bad_premise good bad rest)
    with post_refused [OF commit_refused [OF posted _ commit_complains(1) [OF bad_premise(4) refl]]]
    show ?thesis by (simp add: shown del: str_Cons)
  next
    case (no_conclusion js)
    with post_refused [OF commit_refused [OF posted _ commit_complains(2)]] show ?thesis by (simp add: shown del: str_Cons)
  next
    case (bad_conclusion js c)
    with post_refused [OF commit_refused [OF posted _ commit_complains(3)]] show ?thesis by (simp add: shown del: str_Cons)
  next
    case no_type
    with post_refused [OF commit_refused [OF posted _ commit_complains_type(1)]] show ?thesis
      by (simp add: shown del: str_Cons)
  next
    case (bad_type j)
    with post_refused [OF commit_refused [OF posted _ commit_complains_type(2)]] show ?thesis
      by (simp add: shown del: str_Cons)
  next
    case (bad_key et t x)
    then have "parse_pubkey ?U (JStr t) = Inl (ApiError 400 (str ''invalid hex pubkey: '' @ py_repr ?U t))"
      by (simp add: parse_pubkey_def)
    from post_refused [OF commit_refused [OF posted _ commit_complains_key [OF bad_key(4-8) this]]] bad_key(1-3)
    show ?thesis by (simp add: shown del: str_Cons)
  next
    case (key_length et t raw)
    then have "parse_pubkey ?U (JStr t) =
        Inl (ApiError 400 (str ''pubkey must be 32 bytes, got '' @ nat_text (length raw)))"
      by (simp add: parse_pubkey_def)
    from post_refused [OF commit_refused [OF posted _ commit_complains_key [OF key_length(4-8) this]]] key_length(1-3)
    show ?thesis by (simp add: shown del: str_Cons)
  qed
qed

text \<open>A body that is not JSON is refused with status 400 on every route that reads one, the unknown ones
  included; bytes that are not UTF-8 are an internal error, 500, although they are the client's.\<close>

theorem http_malformed_body:
  assumes "hq_method rq = POST" and "hq_length rq = Some (nat_text (length (hq_stream rq)))"
    and "length (nat_text (length (hq_stream rq))) \<le> 4300" and "hq_stream rq \<noteq> []"
  shows "(\<forall>t. decode_utf8 (hq_stream rq) = Inr t \<and> json_loads (aw_floats W) t = Inl JSONDecodeError \<longrightarrow>
      handle W now ap rq = Some (ap, send_json (aw_floats W) 400
        (error_payload (str ''request body is not valid JSON'')))) \<and>
    (\<forall>x. decode_utf8 (hq_stream rq) = Inl x \<longrightarrow>
      handle W now ap rq = Some (ap, send_json (aw_floats W) 500
        (error_payload (str ''internal error: '' @ aw_text W ValueError))))"
proof -
  note n = py_int_nat_text [OF assms(3)]
  have body: "read_body (aw_unicode W) (aw_floats W) rq =
      (case and_then (decode_utf8 (hq_stream rq)) (json_loads (aw_floats W)) of
         Inl e \<Rightarrow> if e = JSONDecodeError then Inl (ApiError 400 (str ''request body is not valid JSON''))
                  else Inl (Raised e [])
       | Inr v \<Rightarrow> Inr v)"
    using assms(4) by (simp add: read_body_def assms(2) n)
  have refuse: "handle W now ap rq =
      map_option (\<lambda>(status, v). (ap, send_json (aw_floats W) status v)) (settle W (Inl e))"
    if "read_body (aw_unicode W) (aw_floats W) rq = Inl e" for e
    using that assms(1) by (simp add: handle_def dispatch_def Let_def)
  have "x = ValueError" if "decode_utf8 (hq_stream rq) = Inl x" for x
    using that by (auto simp: decode_utf8_def split: option.splits)
  moreover have "JSONDecodeError \<noteq> ValueError" "ValueError \<noteq> JSONDecodeError"
    by (simp_all add: JSONDecodeError_def)
  ultimately show ?thesis
    using refuse body by (auto simp: settle_def exn_text_def simp del: str_Cons)
qed

section \<open>Witnesses\<close>

lemma sample_idle: "pending (st_conn (ap_storage sample_app)) = None"
  using storage_ok_sample by (simp add: storage_ok_def)

lemma sample_app_ok: "app_ok sample_api sample_app"
  using storage_ok_sample sample_empty(2) by (simp add: app_ok_def)

lemma sample_wire: "float_spec (aw_floats sample_api)" "sendable (aw_floats sample_api) roster_body"
  using sample_float_spec roster_sendable by simp_all

lemma query_sendable: "sendable sample_floats (query_body roster_node K1)"
proof (rule sendableI)
  show "json_ok (query_body roster_node K1)"
    by (simp add: query_body_def roster_node_def sample_node_def high_surrogate_def)
  show "length (json_dumps sample_floats (query_body roster_node K1)) < 4300"
    by (simp add: query_body_def roster_node_def sample_node_def json_quote_def json_char_def)
qed

lemma roster_named: "n_claim roster_node \<noteq> []"
  by (simp add: roster_node_def sample_node_def)

text \<open>The roster's definition, once it is stored, derives its claim.\<close>

lemma roster_ok: "proposal_ok ref_env sample_storage [] roster_node None roster_edge"
  unfolding roster_edge_def
  by (rule proposal_okI [OF ref_env_blake3 ref_env_ed25519 ref_env_cbor storage_ok_sample sample_empty(2)
        roster_distinct [unfolded roster_edge_def]])

lemma roster_stored:
  obtains s' where "storage_ok ref_env s'"
    "hash_bytes ref_env (edge_blob ref_env roster_edge) \<in> dom (connectivity (committed (st_conn s')))"
    "edge_at ref_env s' (hash_bytes ref_env (edge_blob ref_env roster_edge)) = Some roster_edge"
proof -
  obtain s' where as: "stored_as ref_env sample_storage [] roster_node None roster_edge s'"
    using store_edge_effect [OF roster_ok, of 5 roster_result] by blast
  have "edge_at ref_env s' (hash_bytes ref_env (edge_blob ref_env roster_edge)) = Some roster_edge"
    using stored_as_blobs(1) [OF roster_ok as] edge_decode_ok [OF proposal_okD(3,6) [OF roster_ok]] by (simp add: edge_at_def)
  with as show thesis by (intro that [of s']) (simp_all add: stored_as_def)
qed

theorem http_reachable_is_best_witness:
  "\<exists>s' d. handle sample_api 5 (sample_app\<lparr>ap_storage := s'\<rparr>)
      (client_post sample_floats (str ''/query/reachable'') (query_body roster_node K1)) =
        Some (sample_app\<lparr>ap_storage := s'\<rparr>, send_json sample_floats 200 (JObj d)) \<and>
    map_of d (str ''established'') = Some (JBool True) \<and> map_of d (str ''depth'') = Some (JInt 0)"
proof -
  let ?h = "hash_bytes ref_env (edge_blob ref_env roster_edge)"
  let ?target = "hash_bytes ref_env (node_blob ref_env roster_node)"
  obtain s' where s': "storage_ok ref_env s'" "?h \<in> dom (connectivity (committed (st_conn s')))"
    "edge_at ref_env s' ?h = Some roster_edge" by (rule roster_stored)
  let ?ap = "sample_app\<lparr>ap_storage := s'\<rparr>"
  have ok: "storage_ok (aw_env sample_api) (ap_storage ?ap)" using s'(1) by simp
  have sendable: "sendable (aw_floats sample_api) (query_body roster_node K1)" using query_sendable by simp
  from http_reachable_is_best [OF sample_wire(1) sendable roster_named ok refl, of 5]
  obtain des d best least where
    run: "handle sample_api 5 ?ap (client_post (aw_floats sample_api) (str ''/query/reachable'') (query_body roster_node K1)) =
        Some (?ap, send_json (aw_floats sample_api) 200 (JObj d))"
      "map_of d (str ''established'') = Some (JBool (\<exists>k. best = Some k \<and> rank K1 \<le> rank k))"
      "map_of d (str ''depth'') = Some (opt_json (\<lambda>l. JInt (int l)) least)"
    and des: "set des = {(h, e). h \<in> dom (connectivity (committed (st_conn (ap_storage ?ap)))) \<and>
      edge_at (aw_env sample_api) (ap_storage ?ap) h = Some e \<and> derives_claims e}"
    and best: "\<forall>k. best = Some k \<longleftrightarrow> derives des [] ?target k \<and> (\<forall>k'. derives des [] ?target k' \<longrightarrow> k' \<le> k)"
    and least: "\<forall>l. least = Some l \<longleftrightarrow> derives_at des [] ?target l \<and> (\<forall>l'. derives_at des [] ?target l' \<longrightarrow> l \<le> l')"
    unfolding sample_api_simps(1) by blast
  have ap: "ap_storage ?ap = s'" by simp
  have e: "e_premises roster_edge = []" "e_conclusion roster_edge = ?target" "e_kappa roster_edge = K_INF"
    "derives_claims roster_edge"
    by (simp_all add: roster_edge_def derives_claims_def roster_result_def)
  then have mem: "(?h, roster_edge) \<in> set des" using s'(2,3) unfolding des ap by simp
  have "derives des [] ?target K_INF" using derives.axiom [OF mem e(1), of "[]"] by (simp add: e)
  moreover have "k \<le> K_INF" for k by (cases k) (simp_all add: less_eq_Kappa_def)
  ultimately have "best = Some K_INF" using best by blast
  moreover have "derives_at des [] ?target 0" using derives_at.axiom [OF mem e(1), of "[]"] by (simp add: e)
  then have "least = Some 0" using least by blast
  ultimately show ?thesis using run by (intro exI [of _ s'] exI [of _ d]) (simp add: opt_json_def del: str_Cons)
qed

theorem http_commit_reproduced_witness:
  "\<exists>ap' cr eh d.
    handle sample_api 5 sample_app (client_post sample_floats (str ''/commit'') roster_body) =
      Some (ap', send_json sample_floats 200 (commit_json ref_env cr)) \<and>
    cm_edge cr = Some roster_edge \<and> cm_edge_hash cr = Some eh \<and>
    handle sample_api 6 ap' (client_post sample_floats (str ''/reproduce'') (hash_body ''edge_hash'' eh)) =
      Some (ap', send_json sample_floats 200 (JObj d)) \<and>
    map_of d (str ''reproduced'') = Some (JBool True)"
proof -
  have world: "ref_env = aw_env sample_api" "sample_storage = ap_storage sample_app" by simp_all
  have "verify (aw_provers sample_api) [] roster_node [] DEFINITION None five_seconds = Some (Inr roster_result)"
    "identify (ap_roster sample_app) sample_key = Some (str ''alice'')"
    using verify_roster(1) alice_signs by simp_all
  from http_commit_reproduced [OF sample_wire roster_postable world ref_env_blake3 ref_env_ed25519 ref_env_cbor
      storage_ok_sample sample_empty(2) this(1) verify_roster(2) roster_edge_def roster_distinct this(2), of 5 6]
  show ?thesis by (auto simp del: str_Cons)
qed

text \<open>A session in which the roster's definition is committed.\<close>

lemma roster_request_fresh:
  "fresh_blobs sample_api sample_app (client_post sample_floats (str ''/commit'') roster_body)"
  using parse_commit_body [OF roster_postable, of sample_api sample_key "[]" DEFINITION]
    read_body_post [OF sample_float_spec roster_sendable, of "aw_unicode sample_api"] verify_roster(1) roster_distinct
  by (auto simp: fresh_blobs_def roster_edge_def simp del: str_Cons)

theorem http_session_invariant_witness:
  "\<exists>ap'. session sample_api sample_app ap' \<and>
    handle sample_api 5 sample_app (client_post sample_floats (str ''/commit'') roster_body) =
      Some (ap', send_json sample_floats 200 (commit_json ref_env
        \<lparr> cm_verification = roster_result, cm_edge = Some roster_edge,
          cm_edge_hash = Some (hash_bytes ref_env (edge_blob ref_env roster_edge)), cm_log_entry = None \<rparr>)) \<and>
    app_ok sample_api ap' \<and> app_extends sample_app ap'"
proof -
  obtain s' entry where run: "store_edge ref_env 5 [] roster_node None roster_result roster_edge sample_storage =
      Some (s', Inr \<lparr> cm_verification = roster_result, cm_edge = Some roster_edge,
        cm_edge_hash = Some (hash_bytes ref_env (edge_blob ref_env roster_edge)), cm_log_entry = Some entry \<rparr>)"
    using store_edge_effect [OF roster_ok, of 5 roster_result] by blast
  have committed: "verify_and_commit ref_env sample_provers 5 sample_key [] roster_node [] DEFINITION None five_seconds
      sample_storage = Some (s', Inr \<lparr> cm_verification = roster_result, cm_edge = Some roster_edge,
        cm_edge_hash = Some (hash_bytes ref_env (edge_blob ref_env roster_edge)), cm_log_entry = Some entry \<rparr>)"
    using run verify_and_commit_accepted [OF verify_roster] by (simp add: roster_edge_def)
  let ?rq = "client_post sample_floats (str ''/commit'') roster_body"
  have post: "handle sample_api 5 sample_app ?rq =
      Some (sample_app\<lparr>ap_storage := s'\<rparr>, send_json sample_floats 200 (commit_json ref_env
        \<lparr> cm_verification = roster_result, cm_edge = Some roster_edge,
          cm_edge_hash = Some (hash_bytes ref_env (edge_blob ref_env roster_edge)), cm_log_entry = None \<rparr>))"
    using handle_commit [OF read_body_post [OF sample_wire] client_post_simps(1) client_post_simps(2)
        parse_commit_body [OF roster_postable], of 5 sample_app] committed
    by (simp add: commit_response_def commit_json_def cm_rejected_def del: str_Cons)
  have "session sample_api sample_app (sample_app\<lparr>ap_storage := s'\<rparr>)"
    by (rule session.request [OF session.start roster_request_typed roster_request_fresh post])
  note reached = this
  have "blake3_spec (aw_env sample_api)" "ed25519_spec (aw_env sample_api)" "cbor_spec (aw_env sample_api)"
    using ref_env_blake3 ref_env_ed25519 ref_env_cbor by simp_all
  from http_session_invariant [OF reached this sample_app_ok] reached post show ?thesis by blast
qed

theorem http_reads_do_not_write_witness:
  "\<exists>resp. handle sample_api 5 sample_app (client_get (str ''/health'')) = Some (sample_app, resp)"
proof -
  have "\<not> is_commit (client_get (str ''/health''))" "\<not> is_reproduce (client_get (str ''/health''))"
    by (simp_all add: is_commit_def is_reproduce_def)
  then have "well_typed sample_api sample_app (client_get (str ''/health''))"
    "checkers_end sample_api sample_app (client_get (str ''/health''))"
    by (simp_all add: well_typed_def checkers_end_def)
  from http_answered [OF this, of 5]
  obtain ap' resp where run: "handle sample_api 5 sample_app (client_get (str ''/health'')) = Some (ap', resp)"
    by blast
  have "ap' = sample_app"
    by (rule http_reads_do_not_write [OF run sample_idle]) (simp add: is_commit_def)
  with run show ?thesis by blast
qed

theorem http_graph_is_complete_witness:
  "\<exists>ks nodes hs recs. handle sample_api 5 sample_app (client_get (str ''/query/graph'')) =
      Some (sample_app, send_json sample_floats 200
        (JObj [(str ''nodes'', JList (map (\<lambda>k. node_json ref_env (nodes k)) ks)),
               (str ''edges'', JList (map (\<lambda>h. edge_json ref_env (recs h)) hs))])) \<and>
    set ks = {k \<in> set (t_nodes (committed (st_conn sample_storage))). node_at ref_env sample_storage k \<noteq> None} \<and>
    set hs = dom (connectivity (committed (st_conn sample_storage)))"
  using http_graph_is_complete [OF sample_app_ok _ refl refl refl, of 5] ref_env_cbor
  by (simp del: str_Cons) blast

lemma empty_body_sendable: "sendable sample_floats (JObj [])"
  by (rule sendableI) simp_all

theorem http_refusals_witness:
  "handle sample_api 5 sample_app (client_post sample_floats (str ''/verify_history'') (JObj [])) =
      Some (sample_app, send_json sample_floats 400 (error_payload (missing_field ''root_hash''))) \<and>
    handle sample_api 5 sample_app (client_post sample_floats (str ''/query/path'') (JObj [])) =
      Some (sample_app, send_json sample_floats 400 (error_payload (str ''node.claim must be a non-empty string'')))"
proof -
  have "refused sample_api sample_app [] (str ''/verify_history'') 400 (missing_field ''root_hash'')"
    "refused sample_api sample_app [] (str ''/query/path'') 400 (str ''node.claim must be a non-empty string'')"
    by (rule refused.no_address; simp add: takes_address_def) (rule refused.bad_claim; simp add: is_node_def)
  from this [THEN http_refusals [OF sample_wire(1) _, rotated], of 5] empty_body_sendable show ?thesis
    by (simp del: str_Cons)
qed

theorem http_malformed_body_witness:
  "handle sample_api 5 sample_app
      \<lparr> hq_method = POST, hq_path = str ''/x'', hq_length = Some (nat_text 1), hq_stream = [255] \<rparr> =
    Some (sample_app, send_json sample_floats 500 (error_payload (str ''internal error: '')))"
proof -
  let ?rq = "\<lparr> hq_method = POST, hq_path = str ''/x'', hq_length = Some (nat_text 1), hq_stream = [255] \<rparr> :: http_request"
  have "length (nat_text 1) \<le> 4300" using length_nat_text [of 1] by simp
  moreover have "decode_utf8 (hq_stream ?rq) = Inl ValueError" by (simp add: decode_utf8_def)
  ultimately show ?thesis
    using http_malformed_body [of ?rq sample_api 5 sample_app] by (simp add: sample_api_def del: str_Cons)
qed

end
