(* ===== verification/Serve.thy ===== *)
theory Serve
  imports Api_Stories Seed
begin

text \<open>
  \<^verbatim>\<open>scripts/arxdb_serve.py\<close>: how the server starts. It loads its key pair and the shared roster from the root
  directory, or creates them, binds its own name in the roster if the name is not bound, and opens the
  in-process storage with its keys. The argument parser is left out; \<open>main\<close> ends in the loop that answers
  requests, the relation \<open>session\<close>.
\<close>

section \<open>Definitions\<close>

definition server_keypair :: "env \<Rightarrow> bytes \<Rightarrow> bytes option \<Rightarrow> (bytes \<times> bytes) \<times> bytes" where
  "server_keypair E rnd file =
     (let fresh = (let (priv, pub) = generate_keypair E rnd in ((priv, pub), priv @ pub)) in
      case file of
        None \<Rightarrow> fresh
      | Some data \<Rightarrow> if length data = 64 then ((take 32 data, drop 32 data), data) else fresh)"

text \<open>The file afterwards and the roster.\<close>

definition load_or_create_roster :: "env \<Rightarrow> bytes \<Rightarrow> bytes option \<Rightarrow> bytes option \<times> roster res" where
  "load_or_create_roster E pub file =
     (case (case file of Some data \<Rightarrow> roster_from_bytes E data | None \<Rightarrow> make_roster []) of
        Inl e \<Rightarrow> (file, Inl e)
      | Inr R \<Rightarrow>
          if SERVER_AGENT \<notin> fst ` set (ro_entries R)
          then (case make_roster (binding_values (ro_entries R @ [(SERVER_AGENT, pub)])) of
                  Inl e \<Rightarrow> (file, Inl e)
                | Inr R' \<Rightarrow>
                    (case roster_bytes E R' of Inl e \<Rightarrow> (file, Inl e) | Inr bs \<Rightarrow> (Some bs, Inr R')))
          else (file, Inr R))"

definition serve_main ::
    "env \<Rightarrow> bytes \<Rightarrow> root_files \<Rightarrow> object_store \<Rightarrow> db option \<Rightarrow> root_files \<times> app res" where
  "serve_main E rnd files objects index_db =
     (let ((priv, pub), keypair) = server_keypair E rnd (rf_server_keypair files);
          files = files\<lparr>rf_server_keypair := Some keypair\<rparr>
      in case load_or_create_roster E pub (rf_roster files) of
           (file, Inl e) \<Rightarrow> (files\<lparr>rf_roster := file\<rparr>, Inl e)
         | (file, Inr R) \<Rightarrow>
             (files\<lparr>rf_roster := file\<rparr>,
              Inr \<lparr> ap_storage = open_storage objects index_db priv pub, ap_roster = R, ap_signer = pub \<rparr>))"

section \<open>A clean start\<close>

text \<open>
  Files as the scripts leave them: the key pair, if there is one, is a private key and its public key; the
  roster, if there is one, is the encoding of a well-formed roster that binds the server's name to that key
  or not at all.
\<close>

definition files_ok :: "env \<Rightarrow> root_files \<Rightarrow> bool" where
  "files_ok E files \<longleftrightarrow>
     (\<forall>data. rf_server_keypair files = Some data \<longrightarrow>
        (\<exists>priv. length priv = 32 \<and> data = priv @ ed_public E priv)) \<and>
     (\<forall>data. rf_roster files = Some data \<longrightarrow>
        (\<exists>R. roster_ok R \<and> roster_bytes E R = Inr data \<and>
           (\<forall>pk. resolve R SERVER_AGENT = Some pk \<longrightarrow>
              (\<exists>priv. rf_server_keypair files = Some (priv @ pk) \<and> length priv = 32))))"

definition old_bindings :: "env \<Rightarrow> root_files \<Rightarrow> (pystr \<times> bytes) list" where
  "old_bindings E files =
     (case rf_roster files of
        None \<Rightarrow> []
      | Some data \<Rightarrow> (case roster_from_bytes E data of Inl e \<Rightarrow> [] | Inr R \<Rightarrow> ro_entries R))"

lemma SERVER_AGENT_nonempty: "SERVER_AGENT \<noteq> []"
  by (simp add: SERVER_AGENT_def)

lemma extend_roster:
  assumes "roster_ok R" and "length pub = 32" and "SERVER_AGENT \<notin> fst ` set (ro_entries R)"
  shows "make_roster (binding_values (ro_entries R @ [(SERVER_AGENT, pub)])) =
      Inr \<lparr> ro_entries = ro_entries R @ [(SERVER_AGENT, pub)] \<rparr>"
    and "roster_ok \<lparr> ro_entries = ro_entries R @ [(SERVER_AGENT, pub)] \<rparr>"
  using assms SERVER_AGENT_nonempty by (auto simp: make_roster_Inr roster_ok_def)

text \<open>What loading the roster gives, from the roster the file holds.\<close>

lemma load_roster:
  assumes "cbor_spec E" and "length pub = 32" and "roster_ok R"
    and "(case content of Some data \<Rightarrow> roster_from_bytes E data | None \<Rightarrow> make_roster []) = Inr R"
    and "resolve R SERVER_AGENT \<in> {None, Some pub}"
    and "content = None \<longrightarrow> R = \<lparr> ro_entries = [] \<rparr>"
  shows "\<exists>R' file'. load_or_create_roster E pub content = (Some file', Inr R') \<and> roster_ok R' \<and>
    resolve R' SERVER_AGENT = Some pub \<and> roster_from_bytes E file' = Inr R' \<and>
    (\<exists>new. ro_entries R' = ro_entries R @ new)"
proof (cases "SERVER_AGENT \<in> fst ` set (ro_entries R)")
  case True
  then have "resolve R SERVER_AGENT \<noteq> None" by (simp add: resolve_def map_of_eq_None_iff)
  with assms(5) have pub: "resolve R SERVER_AGENT = Some pub" by auto
  from True assms(6) obtain data where "content = Some data" by (cases content) auto
  with assms(3,4) pub True show ?thesis by (auto simp: load_or_create_roster_def)
next
  case False
  let ?R = "\<lparr> ro_entries = ro_entries R @ [(SERVER_AGENT, pub)] \<rparr>"
  note ext = extend_roster [OF assms(3,2) False]
  have "load_or_create_roster E pub content = (Some (cbor_dumps E (roster_to_canonical ?R)), Inr ?R)"
    using assms(4) False ext(1) by (simp add: load_or_create_roster_def roster_bytes_eq)
  moreover have "roster_from_bytes E (cbor_dumps E (roster_to_canonical ?R)) = Inr ?R"
    by (rule decode_roster [OF assms(1) ext(2)])
  moreover have "resolve ?R SERVER_AGENT = Some pub"
    using False by (simp add: resolve_def map_add_def map_of_eq_None_iff [THEN iffD2])
  ultimately show ?thesis using ext(2) by auto
qed

text \<open>The same files under another key pair.\<close>

lemma reopened:
  assumes "storage_ok E (open_storage objects index_db k (ed_public E k))"
    and "graph_typed E (open_storage objects index_db k (ed_public E k))" and "length priv = 32"
  shows "storage_ok E (open_storage objects index_db priv (ed_public E priv))"
    and "graph_typed E (open_storage objects index_db priv (ed_public E priv))"
proof -
  let ?s = "open_storage objects index_db k (ed_public E k)" and ?s' = "open_storage objects index_db priv (ed_public E priv)"
  have same: "st_objects ?s' = st_objects ?s" "st_conn ?s' = st_conn ?s" by (simp_all add: open_storage_def)
  have "edge_backed ?s' = edge_backed ?s" by (simp add: fun_eq_iff edge_backed_def same)
  then show "storage_ok E ?s'"
    using assms(1,3) by (simp add: storage_ok_def same) (simp add: open_storage_def)
  show "graph_typed E ?s'"
    by (rule graph_typed_mono [OF assms(2)]) (simp_all add: same)
qed

text \<open>The roster file that the server finds can be read and does not bind its name to another key.\<close>

lemma roster_found:
  assumes "ed25519_spec E" and "cbor_spec E" and "files_ok E files"
    and keys: "server_keypair E rnd (rf_server_keypair files) = ((priv, pub), kp)"
  shows "\<exists>R. roster_ok R \<and> (case rf_roster files of Some data \<Rightarrow> roster_from_bytes E data | None \<Rightarrow> make_roster []) = Inr R \<and>
      resolve R SERVER_AGENT \<in> {None, Some pub} \<and> (rf_roster files = None \<longrightarrow> R = \<lparr> ro_entries = [] \<rparr>) \<and>
      ro_entries R = old_bindings E files"
proof (cases "rf_roster files")
  case None
  then show ?thesis by (simp add: make_roster_def roster_ok_def resolve_def old_bindings_def)
next
  case (Some data)
  with assms(3) obtain R where R: "roster_ok R" "roster_bytes E R = Inr data"
    "\<And>pk. resolve R SERVER_AGENT = Some pk \<Longrightarrow> \<exists>priv. rf_server_keypair files = Some (priv @ pk) \<and> length priv = 32"
    by (auto simp: files_ok_def)
  have dec: "roster_from_bytes E data = Inr R"
    using decode_roster [OF assms(2) R(1)] R(2) by (simp add: roster_bytes_eq)
  have "pk = pub" if bound: "resolve R SERVER_AGENT = Some pk" for pk
  proof -
    obtain priv' where file': "rf_server_keypair files = Some (priv' @ pk)" "length priv' = 32" using R(3) [OF bound] by blast
    with assms(3) obtain q where "length q = 32" "priv' @ pk = q @ ed_public E q" by (auto simp: files_ok_def)
    with file' have "server_keypair E rnd (rf_server_keypair files) = ((priv', pk), priv' @ pk)"
      using ed25519_specD(1) [OF assms(1)] by (simp add: server_keypair_def)
    with keys show ?thesis by simp
  qed
  then have "resolve R SERVER_AGENT \<in> {None, Some pub}" by (cases "resolve R SERVER_AGENT") auto
  with R(1) dec Some show ?thesis by (simp add: old_bindings_def)
qed

text \<open>C35: the server starts ready: on files as the scripts leave them, and over a consistent database, it comes up
  with a consistent storage, a roster that keeps every binding it had and binds the server's name to the key
  it signs with, and files from which the next start gives the same application, whatever it draws.\<close>

theorem server_starts_ready:
  assumes "ed25519_spec E" and "cbor_spec E" and "files_ok E files" and "length rnd = 32"
    and "storage_ok E (open_storage objects index_db k (ed_public E k))"
    and "graph_typed E (open_storage objects index_db k (ed_public E k))"
  shows "\<exists>files' ap. serve_main E rnd files objects index_db = (files', Inr ap) \<and>
    storage_ok E (ap_storage ap) \<and> graph_typed E (ap_storage ap) \<and> roster_ok (ap_roster ap) \<and>
    resolve (ap_roster ap) SERVER_AGENT = Some (ap_signer ap) \<and>
    identify (ap_roster ap) (ap_signer ap) \<noteq> None \<and>
    (\<exists>new. ro_entries (ap_roster ap) = old_bindings E files @ new) \<and>
    (\<forall>rnd'. serve_main E rnd' files' objects index_db = (files', Inr ap))"
proof -
  obtain priv where priv: "length priv = 32"
    and keys: "server_keypair E rnd (rf_server_keypair files) = ((priv, ed_public E priv), priv @ ed_public E priv)"
    using assms(3,4) ed25519_specD(1) [OF assms(1)]
    by (cases "rf_server_keypair files") (auto simp: server_keypair_def generate_keypair_def files_ok_def)
  define pub where "pub = ed_public E priv"
  have pub: "length pub = 32" using ed25519_specD(1) [OF assms(1) priv] by (simp add: pub_def)
  have again: "server_keypair E rnd' (Some (priv @ pub)) = ((priv, pub), priv @ pub)" for rnd'
    using priv pub by (simp add: server_keypair_def)
  from roster_found [OF assms(1-3) keys, folded pub_def]
  obtain R where RR: "roster_ok R \<and>
      (case rf_roster files of Some data \<Rightarrow> roster_from_bytes E data | None \<Rightarrow> make_roster []) = Inr R \<and>
      resolve R SERVER_AGENT \<in> {None, Some pub} \<and> (rf_roster files = None \<longrightarrow> R = \<lparr> ro_entries = [] \<rparr>) \<and>
      ro_entries R = old_bindings E files" ..
  note R = RR [THEN conjunct1] RR [THEN conjunct2, THEN conjunct1] RR [THEN conjunct2, THEN conjunct2, THEN conjunct1]
    RR [THEN conjunct2, THEN conjunct2, THEN conjunct2, THEN conjunct1]
    RR [THEN conjunct2, THEN conjunct2, THEN conjunct2, THEN conjunct2]
  obtain R' bs where loaded: "load_or_create_roster E pub (rf_roster files) = (Some bs, Inr R') \<and> roster_ok R' \<and>
      resolve R' SERVER_AGENT = Some pub \<and> roster_from_bytes E bs = Inr R' \<and>
      (\<exists>new. ro_entries R' = ro_entries R @ new)"
    using load_roster [OF assms(2) pub R(1-4)] by iprover
  then obtain new where R': "load_or_create_roster E pub (rf_roster files) = (Some bs, Inr R')" "roster_ok R'"
      "resolve R' SERVER_AGENT = Some pub" "roster_from_bytes E bs = Inr R'" "ro_entries R' = ro_entries R @ new"
    by iprover
  have "SERVER_AGENT \<in> fst ` set (ro_entries R')"
    using R'(3) by (auto simp: resolve_def dest!: map_of_SomeD intro: rev_image_eqI)
  then have reload: "load_or_create_roster E pub (Some bs) = (Some bs, Inr R')"
    using R'(4) by (simp add: load_or_create_roster_def)
  let ?ap = "\<lparr> ap_storage = open_storage objects index_db priv pub, ap_roster = R', ap_signer = pub \<rparr>"
  let ?files = "files\<lparr>rf_server_keypair := Some (priv @ pub), rf_roster := Some bs\<rparr>"
  have "serve_main E rnd files objects index_db = (?files, Inr ?ap)"
    using keys R'(1) by (simp add: serve_main_def pub_def)
  moreover have "serve_main E rnd' ?files objects index_db = (?files, Inr ?ap)" for rnd'
    using reload by (simp add: serve_main_def again)
  moreover have "storage_ok E (ap_storage ?ap)" "graph_typed E (ap_storage ?ap)"
    using reopened [OF assms(5,6) priv] by (simp_all add: pub_def)
  moreover have "identify R' pub \<noteq> None" using identify_resolve(2) [OF R'(2)] R'(3) by blast
  ultimately show ?thesis using R'(2,3,5) R(5) by auto
qed

section \<open>A lost key\<close>

text \<open>The roster is not looked at beyond the server's name: when the key pair was lost, or its file has
  another length, while the roster still binds the name to the old key, the server draws a new key, starts
  without complaint, leaves the roster as it is, and signs with a key the roster does not name, so that no
  edge it signs is ever attested.\<close>

theorem server_with_lost_key:
  assumes "rf_roster files = Some data" and "roster_from_bytes E data = Inr R"
    and "SERVER_AGENT \<in> fst ` set (ro_entries R)"
    and "\<forall>kp. rf_server_keypair files = Some kp \<longrightarrow> length kp \<noteq> 64"
    and "ed_public E rnd \<notin> snd ` set (ro_entries R)"
  shows "\<exists>files' ap. serve_main E rnd files objects index_db = (files', Inr ap) \<and>
    rf_roster files' = rf_roster files \<and> ap_roster ap = R \<and> identify R (ap_signer ap) = None \<and>
    (\<forall>e rd a. e_signer_pubkey e = ap_signer ap \<and> verify_edge_attestation E e rd R = Inr a \<longrightarrow> \<not> attestation_ok a)"
proof -
  have keys: "server_keypair E rnd (rf_server_keypair files) = ((rnd, ed_public E rnd), rnd @ ed_public E rnd)"
    using assms(4) by (simp add: server_keypair_def generate_keypair_def Let_def split: option.splits)
  have load: "load_or_create_roster E pub (rf_roster files) = (Some data, Inr R)" for pub
    using assms(1-3) by (simp add: load_or_create_roster_def)
  have none: "identify R (ed_public E rnd) = None"
    using assms(5) by (force simp: identify_def find_None_iff)
  have "\<not> attestation_ok a"
    if "e_signer_pubkey e = ed_public E rnd" "verify_edge_attestation E e rd R = Inr a" for e rd a
    using that none by (auto simp: verify_edge_attestation_def attestation_ok_def and_then_eq_Inr split: prod.splits)
  with keys load none assms(1) show ?thesis by (auto simp: serve_main_def)
qed

section \<open>Witnesses\<close>

definition fresh_root :: root_files where
  "fresh_root = \<lparr> rf_keypair = None, rf_server_keypair = None, rf_roster = None, rf_anchor = None \<rparr>"

theorem server_starts_ready_witness:
  "\<exists>files' ap. serve_main ref_env sample_key fresh_root empty_store None = (files', Inr ap) \<and>
    storage_ok ref_env (ap_storage ap) \<and> graph_typed ref_env (ap_storage ap) \<and>
    resolve (ap_roster ap) SERVER_AGENT = Some (ap_signer ap) \<and>
    (\<forall>rnd'. serve_main ref_env rnd' files' empty_store None = (files', Inr ap))"
proof -
  have "files_ok ref_env fresh_root" "length sample_key = 32"
    by (simp_all add: files_ok_def fresh_root_def sample_key_def)
  moreover have "open_storage empty_store None sample_key (ed_public ref_env sample_key) = sample_storage"
    by (simp add: sample_storage_def)
  then have "storage_ok ref_env (open_storage empty_store None sample_key (ed_public ref_env sample_key))"
    "graph_typed ref_env (open_storage empty_store None sample_key (ed_public ref_env sample_key))"
    using storage_ok_sample sample_empty(2) by (simp_all only:)
  ultimately show ?thesis
    using server_starts_ready [OF ref_env_ed25519 ref_env_cbor, of fresh_root sample_key empty_store None sample_key]
    by blast
qed

definition old_roster :: roster where
  "old_roster = \<lparr> ro_entries = [(SERVER_AGENT, replicate 32 9)] \<rparr>"

definition old_root :: root_files where
  "old_root = fresh_root\<lparr>rf_roster := Some (cbor_dumps ref_env (roster_to_canonical old_roster))\<rparr>"

theorem server_with_lost_key_witness:
  "\<exists>files' ap. serve_main ref_env sample_key old_root empty_store None = (files', Inr ap) \<and>
    ap_roster ap = old_roster \<and> identify old_roster (ap_signer ap) = None"
proof -
  have "roster_ok old_roster" using SERVER_AGENT_nonempty by (simp add: roster_ok_def old_roster_def)
  from decode_roster [OF ref_env_cbor this]
  have "roster_from_bytes ref_env (cbor_dumps ref_env (roster_to_canonical old_roster)) = Inr old_roster" .
  moreover have "ed_public ref_env sample_key \<notin> snd ` set (ro_entries old_roster)"
    by (simp add: old_roster_def sample_key_def)
  moreover have "rf_roster old_root = Some (cbor_dumps ref_env (roster_to_canonical old_roster))"
    "rf_server_keypair old_root = None" "SERVER_AGENT \<in> fst ` set (ro_entries old_roster)"
    by (simp_all add: old_root_def fresh_root_def old_roster_def)
  ultimately show ?thesis
    using server_with_lost_key [of old_root "cbor_dumps ref_env (roster_to_canonical old_roster)" ref_env old_roster
        sample_key empty_store None] by auto
qed

end
