(* ===== verification/Pebble.thy ===== *)
theory Pebble
  imports Storage
begin

text \<open>
  What the Go daemon (\<^verbatim>\<open>go/pkg/storage\<close>) rests on: Pebble, an ordered map from keys to values, both byte
  strings. Pebble is a library; it is the record \<open>pebble\<close> of the calls the daemon makes, over an opaque type
  of databases, with their documented behaviour as \<open>pebble_spec\<close>. Then the two encodings of keys the daemon
  relies on, and what they mean for the byte-wise key order: big-endian numbers (\<open>binary.BigEndian\<close>) and the
  key ranges of a prefix (\<open>prefixUpperBound\<close>).
\<close>

section \<open>The key-value store\<close>

text \<open>
  \<open>pb_batch_get\<close> is \<open>Get\<close> on an indexed batch, \<open>pb_commit\<close> applies the writes of a batch in order,
  \<open>pb_scan\<close> runs an iterator from a lower bound (inclusive) to an upper bound (exclusive), if there is one.
\<close>

type_synonym batch = "(bytes \<times> bytes) list"

record 'd pebble =
  pb_new :: 'd
  pb_get :: "'d \<Rightarrow> bytes \<Rightarrow> bytes option"
  pb_batch_get :: "'d \<Rightarrow> batch \<Rightarrow> bytes \<Rightarrow> bytes option"
  pb_commit :: "batch \<Rightarrow> 'd \<Rightarrow> 'd"
  pb_scan :: "'d \<Rightarrow> bytes \<Rightarrow> bytes option \<Rightarrow> (bytes \<times> bytes) list"

definition below :: "bytes \<Rightarrow> bytes option \<Rightarrow> bool" where
  "below k hi = (case hi of None \<Rightarrow> True | Some h \<Rightarrow> k < h)"

definition pebble_spec :: "'d pebble \<Rightarrow> bool" where
  "pebble_spec P \<longleftrightarrow>
     (\<forall>k. pb_get P (pb_new P) k = None) \<and>
     (\<forall>d ws k. pb_batch_get P d ws k = (case map_of (rev ws) k of None \<Rightarrow> pb_get P d k | Some v \<Rightarrow> Some v)) \<and>
     (\<forall>d ws k. pb_get P (pb_commit P ws d) k = pb_batch_get P d ws k) \<and>
     (\<forall>d lo hi. sorted_wrt (<) (map fst (pb_scan P d lo hi)) \<and>
        (\<forall>k v. (k, v) \<in> set (pb_scan P d lo hi) \<longleftrightarrow> pb_get P d k = Some v \<and> lo \<le> k \<and> below k hi))"

lemma pebble_specD:
  assumes "pebble_spec P"
  shows "pb_get P (pb_new P) k = None"
    and "pb_batch_get P d ws k = (case map_of (rev ws) k of None \<Rightarrow> pb_get P d k | Some v \<Rightarrow> Some v)"
    and "pb_get P (pb_commit P ws d) k = pb_batch_get P d ws k"
    and "sorted_wrt (<) (map fst (pb_scan P d lo hi))"
    and "(k, v) \<in> set (pb_scan P d lo hi) \<longleftrightarrow> pb_get P d k = Some v \<and> lo \<le> k \<and> below k hi"
  using assms unfolding pebble_spec_def by simp_all

text \<open>A batch in which no key is written twice with different values.\<close>

definition functional :: "(bytes \<times> bytes) set \<Rightarrow> bool" where
  "functional R \<longleftrightarrow> (\<forall>k v v'. (k, v) \<in> R \<longrightarrow> (k, v') \<in> R \<longrightarrow> v = v')"

lemma map_of_functional:
  "functional (set ws) \<Longrightarrow> map_of ws k = Some v \<longleftrightarrow> (k, v) \<in> set ws"
  unfolding functional_def by (metis map_of_SomeD weak_map_of_SomeI)

text \<open>What a database holds, as a relation, and what it holds after a batch.\<close>

definition holds :: "'d pebble \<Rightarrow> 'd \<Rightarrow> (bytes \<times> bytes) set \<Rightarrow> bool" where
  "holds P d R \<longleftrightarrow> (\<forall>k v. pb_get P d k = Some v \<longleftrightarrow> (k, v) \<in> R)"

lemma holds_functional: "holds P d R \<Longrightarrow> functional R"
  by (simp add: holds_def functional_def) (metis option.inject)

lemma pebble_holds_get: "holds P d R \<Longrightarrow> (k, v) \<in> R \<Longrightarrow> pb_get P d k = Some v"
  by (simp add: holds_def)

lemma pebble_holds_get_None: "holds P d R \<Longrightarrow> k \<notin> fst ` R \<Longrightarrow> pb_get P d k = None"
  unfolding holds_def by (metis fst_conv image_eqI not_None_eq)

lemma holds_commit:
  assumes "pebble_spec P" and "holds P d R" and "functional (set ws)"
    and "R' = set ws \<union> {b \<in> R. fst b \<notin> fst ` set ws}"
  shows "holds P (pb_commit P ws d) R'"
  unfolding holds_def
proof (intro allI)
  fix k v
  have f: "functional (set (rev ws))" using assms(3) by simp
  show "pb_get P (pb_commit P ws d) k = Some v \<longleftrightarrow> (k, v) \<in> R'"
  proof (cases "map_of (rev ws) k")
    case None
    then have "k \<notin> fst ` set ws" by (simp add: map_of_eq_None_iff)
    moreover from this have "(k, v) \<notin> set ws" by force
    ultimately show ?thesis
      using assms(2) None by (simp add: pebble_specD(2,3) [OF assms(1)] holds_def assms(4))
  next
    case (Some w)
    then have w: "(k, w) \<in> set ws" using map_of_functional [OF f] by simp
    then have "k \<in> fst ` set ws" by force
    with w assms(3) show ?thesis
      by (auto simp: pebble_specD(2,3) [OF assms(1)] Some assms(4) functional_def)
  qed
qed

section \<open>Numbers in keys\<close>

fun be_bytes :: "nat \<Rightarrow> nat \<Rightarrow> bytes" where
  "be_bytes 0 x = []"
| "be_bytes (Suc n) x = of_nat (x div 256 ^ n mod 256) # be_bytes n x"

definition be64 :: "64 word \<Rightarrow> bytes" where
  "be64 w = be_bytes 8 (unat w)"

definition be_value :: "bytes \<Rightarrow> nat" where
  "be_value bs = foldl (\<lambda>a b. a * 256 + unat b) 0 bs"

text \<open>\<open>BigEndian.Uint64\<close> reads the first eight bytes.\<close>

definition uint64_of :: "bytes \<Rightarrow> 64 word" where
  "uint64_of bs = of_nat (be_value (take 8 bs))"

lemma length_be_bytes [simp]: "length (be_bytes n x) = n"
  by (induction n) auto

lemma length_be64 [simp]: "length (be64 w) = 8"
  by (simp add: be64_def)

lemma mod_power_Suc:
  "x mod 256 ^ Suc n = 256 ^ n * (x div 256 ^ n mod 256) + x mod (256::nat) ^ n"
  by (simp add: mod_mult2_eq mult.commute [of 256])

lemma be_bytes_mod: "be_bytes n (x mod 256 ^ n) = be_bytes n x"
proof (induction n arbitrary: x)
  case (Suc n)
  have "x mod 256 ^ Suc n div 256 ^ n = x div 256 ^ n mod 256"
    by (simp only: mod_power_Suc) simp
  moreover have "be_bytes n (x mod 256 ^ Suc n) = be_bytes n x"
    using Suc.IH [of "x mod 256 ^ Suc n"] Suc.IH [of x] by (simp add: mod_mod_cancel)
  ultimately show ?case by simp
qed simp

lemma byte_less: "x < 256 \<Longrightarrow> y < 256 \<Longrightarrow> (of_nat x :: byte) < of_nat y \<longleftrightarrow> x < y"
  by (simp add: word_less_nat_alt unat_of_nat)

lemma byte_eq: "x < 256 \<Longrightarrow> y < 256 \<Longrightarrow> (of_nat x :: byte) = of_nat y \<longleftrightarrow> x = y"
  using byte_less [of x y] byte_less [of y x] by (cases x y rule: linorder_cases) auto

lemma less_div_mod:
  "(x::nat) < y \<longleftrightarrow> x div b < y div b \<or> x div b = y div b \<and> x mod b < y mod b"
proof (cases "x div b" "y div b" rule: linorder_cases)
  case less
  then show ?thesis using div_le_mono [of y x b] by linarith
next
  case equal
  have "x = x div b * b + x mod b" "y = y div b * b + y mod b" by simp_all
  with equal show ?thesis by (metis less_irrefl nat_add_left_cancel_less)
next
  case greater
  then show ?thesis using div_le_mono [of x y b] by linarith
qed

text \<open>The byte order of encoded numbers is their order.\<close>

lemma be_bytes_less:
  "x < 256 ^ n \<Longrightarrow> y < 256 ^ n \<Longrightarrow> be_bytes n x < be_bytes n y \<longleftrightarrow> x < y"
proof (induction n arbitrary: x y)
  case (Suc n)
  let ?b = "(256::nat) ^ n"
  have q: "x div ?b < 256" "y div ?b < 256"
    using Suc.prems by (simp_all add: less_mult_imp_div_less mult.commute)
  have r: "be_bytes n x < be_bytes n y \<longleftrightarrow> x mod ?b < y mod ?b"
    using Suc.IH [of "x mod ?b" "y mod ?b"] by (simp add: be_bytes_mod)
  have "x < y \<longleftrightarrow> x div ?b < y div ?b \<or> x div ?b = y div ?b \<and> x mod ?b < y mod ?b"
    by (rule less_div_mod)
  then show ?case using q by (simp add: r byte_less byte_eq mod_less)
qed simp

lemma be_bytes_eq: "x < 256 ^ n \<Longrightarrow> y < 256 ^ n \<Longrightarrow> be_bytes n x = be_bytes n y \<longleftrightarrow> x = y"
  by (metis be_bytes_less less_irrefl linorder_less_linear)

lemma unat_64: "unat (w :: 64 word) < 256 ^ 8"
  using unsigned_less [of w] by simp

lemma be64_less [simp]: "be64 v < be64 w \<longleftrightarrow> v < w"
  by (simp only: be64_def be_bytes_less [OF unat_64 unat_64] word_less_nat_alt)

lemma be64_eq [simp]: "be64 v = be64 w \<longleftrightarrow> v = w"
  by (metis be64_less less_irrefl linorder_less_linear)

lemma foldl_be: "foldl (\<lambda>a b. a * 256 + unat (b :: byte)) c (be_bytes n x) = c * 256 ^ n + x mod 256 ^ n"
proof (induction n arbitrary: c)
  case (Suc n)
  have "unat (of_nat (x div 256 ^ n mod 256) :: byte) = x div 256 ^ n mod 256"
    by (simp add: unat_of_nat)
  then show ?case unfolding mod_power_Suc by (simp add: Suc.IH) (simp add: algebra_simps)
qed simp

lemma uint64_of_be64 [simp]: "uint64_of (be64 w) = w"
  using unat_64 [of w] by (simp add: uint64_of_def be_value_def be64_def foldl_be)

section \<open>The keys of a prefix\<close>

text \<open>The last byte that is not \<open>0xff\<close> is incremented and the bytes behind it are dropped.\<close>

fun bump_from_end :: "bytes \<Rightarrow> bytes option" where
  "bump_from_end [] = None"
| "bump_from_end (b # bs) = (if b < 0xff then Some (rev ((b + 1) # bs)) else bump_from_end bs)"

definition prefix_upper_bound :: "bytes \<Rightarrow> bytes option" where
  "prefix_upper_bound p = bump_from_end (rev p)"

lemma bump_append:
  "bump_from_end (bs @ [b]) =
     (case bump_from_end bs of
        None \<Rightarrow> if b < 0xff then Some [b + 1] else None
      | Some u \<Rightarrow> Some (b # u))"
  by (induction bs) auto

lemma upper_bound_Cons:
  "prefix_upper_bound (b # p) =
     (case prefix_upper_bound p of
        None \<Rightarrow> if b < 0xff then Some [b + 1] else None
      | Some u \<Rightarrow> Some (b # u))"
  by (simp add: prefix_upper_bound_def bump_append)

lemma byte_not_less: "\<not> (b :: byte) < 0xff \<Longrightarrow> b = 0xff"
proof -
  assume "\<not> b < 0xff"
  moreover have "unat b < 2 ^ LENGTH(8)" by (rule unsigned_less)
  ultimately show "b = 0xff" by (simp add: word_less_nat_alt word_unat_eq_iff)
qed

lemma byte_bump: "(b :: byte) < 0xff \<Longrightarrow> (c < b + 1 \<longleftrightarrow> c \<le> b)"
  by (auto simp: word_less_nat_alt word_le_nat_alt unat_word_ariths)

text \<open>The keys between a prefix and its upper bound are those with the prefix.\<close>

lemma prefix_range: "p \<le> k \<and> below k (prefix_upper_bound p) \<longleftrightarrow> take (length p) k = p"
proof (induction p arbitrary: k)
  case Nil
  show ?case by (simp add: prefix_upper_bound_def below_def)
next
  case (Cons b p)
  show ?case
  proof (cases k)
    case Nil
    then show ?thesis by simp
  next
    case k: (Cons c ks)
    have IH: "p \<le> ks \<and> below ks (prefix_upper_bound p) \<longleftrightarrow> take (length p) ks = p" by (rule Cons.IH)
    show ?thesis
    proof (cases "prefix_upper_bound p")
      case None
      with IH have "p \<le> ks \<longleftrightarrow> take (length p) ks = p" by (simp add: below_def)
      moreover have "c = 255" if "\<not> b < 255" "b \<le> c" using that byte_not_less [of c] byte_not_less [of b] by auto
      ultimately show ?thesis
        using None byte_not_less [of b]
        by (auto simp: upper_bound_Cons k below_def byte_bump)
    next
      case (Some u)
      with IH show ?thesis by (auto simp: upper_bound_Cons k below_def)
    qed
  qed
qed

text \<open>Scanning a prefix gives what is held under it, in key order.\<close>

definition scan_prefix :: "'d pebble \<Rightarrow> 'd \<Rightarrow> bytes \<Rightarrow> (bytes \<times> bytes) list" where
  "scan_prefix P d p = pb_scan P d p (prefix_upper_bound p)"

lemma scan_prefix_holds:
  assumes "pebble_spec P" and "holds P d R"
  shows "sorted_wrt (<) (map fst (scan_prefix P d p))"
    and "set (scan_prefix P d p) = {(k, v) \<in> R. take (length p) k = p}"
  using assms(2)
  by (auto simp: scan_prefix_def pebble_specD(4,5) [OF assms(1)] holds_def prefix_range)

section \<open>A concrete store\<close>

definition list_pebble :: "batch pebble" where
  "list_pebble =
     \<lparr> pb_new = [], pb_get = map_of, pb_batch_get = (\<lambda>d ws. map_of (rev ws @ d)),
       pb_commit = (\<lambda>ws d. rev ws @ d),
       pb_scan = (\<lambda>d lo hi. map (\<lambda>k. (k, the (map_of d k)))
         (filter (\<lambda>k. lo \<le> k \<and> below k hi) (sort (remdups (map fst d))))) \<rparr>"

lemma list_pebble_spec: "pebble_spec list_pebble"
proof -
  have keys: "map_of d k = Some v \<longleftrightarrow> k \<in> fst ` set d \<and> v = the (map_of d k)" for d :: batch and k v
    by (cases "map_of d k") (auto simp: map_of_eq_None_iff dest: map_of_SomeD intro: rev_image_eqI)
  have "sorted_wrt (<) (map fst (pb_scan list_pebble d lo hi))" for d lo hi
    by (simp add: list_pebble_def comp_def sorted_wrt_filter strict_sorted_iff)
  moreover have "(k, v) \<in> set (pb_scan list_pebble d lo hi) \<longleftrightarrow> map_of d k = Some v \<and> lo \<le> k \<and> below k hi"
    for d lo hi k v
    unfolding keys [of d k v] by (auto simp: list_pebble_def map_of_eq_None_iff)
  ultimately show ?thesis
    by (auto simp: pebble_spec_def list_pebble_def map_add_def split: option.splits)
qed

end
