(* ===== verification/Go_Graph.thy ===== *)
theory Go_Graph
  imports Pebble
begin

text \<open>
  \<^verbatim>\<open>go/pkg/storage/graph_index.go\<close>: the daemon's adjacency index, five families of keys in Pebble. The
  operations take the batch they write to, the queries scan a family. The lemmas relate the keys to the
  tables of the in-process index (\<open>graph_bindings\<close>): registering an edge keeps the relation, and every query
  answers what the in-process query answers.
\<close>

section \<open>Keys\<close>

text \<open>A Go \<open>Hash\<close> is an array of 34 bytes; \<open>copy\<close> into one fills what is missing with zeros.\<close>

definition hash_copy :: "bytes \<Rightarrow> hash" where
  "hash_copy bs = take 34 (bs @ replicate 34 0)"

definition nodeKey :: "hash \<Rightarrow> bytes" where
  "nodeKey node = 110 # node"

definition edgeKey :: "hash \<Rightarrow> bytes" where
  "edgeKey edge = 101 # edge"

definition premiseKey :: "hash \<Rightarrow> nat \<Rightarrow> bytes" where
  "premiseKey edge pos = 112 # edge @ be64 (of_nat pos)"

definition premisePrefix :: "hash \<Rightarrow> bytes" where
  "premisePrefix edge = 112 # edge"

definition incomingKey :: "hash \<Rightarrow> hash \<Rightarrow> bytes" where
  "incomingKey conclusion edge = 99 # conclusion @ edge"

definition incomingPrefix :: "hash \<Rightarrow> bytes" where
  "incomingPrefix node = 99 # node"

definition outgoingKey :: "hash \<Rightarrow> hash \<Rightarrow> bytes" where
  "outgoingKey premise edge = 111 # premise @ edge"

definition outgoingPrefix :: "hash \<Rightarrow> bytes" where
  "outgoingPrefix node = 111 # node"

lemmas key_defs = nodeKey_def edgeKey_def premiseKey_def premisePrefix_def incomingKey_def
  incomingPrefix_def outgoingKey_def outgoingPrefix_def

section \<open>Operations\<close>

definition RegisterNode :: "hash \<Rightarrow> batch \<Rightarrow> batch" where
  "RegisterNode node b = b @ [(nodeKey node, [])]"

definition RegisterEdge :: "hash \<Rightarrow> hash list \<Rightarrow> hash \<Rightarrow> batch \<Rightarrow> batch" where
  "RegisterEdge edge premises conclusion b =
     b @ [(nodeKey conclusion, [])] @ map (\<lambda>p. (nodeKey p, [])) premises @
     [(edgeKey edge, conclusion)] @
     map (\<lambda>(pos, p). (premiseKey edge pos, p)) (List.enumerate 0 premises) @
     [(incomingKey conclusion edge, [])] @ map (\<lambda>p. (outgoingKey p edge, [])) premises"

definition IncomingEdges :: "'d pebble \<Rightarrow> 'd \<Rightarrow> hash \<Rightarrow> hash list" where
  "IncomingEdges P d node = map (\<lambda>(k, v). hash_copy (drop 35 k)) (scan_prefix P d (incomingPrefix node))"

definition OutgoingEdges :: "'d pebble \<Rightarrow> 'd \<Rightarrow> hash \<Rightarrow> hash list" where
  "OutgoingEdges P d node = map (\<lambda>(k, v). hash_copy (drop 35 k)) (scan_prefix P d (outgoingPrefix node))"

text \<open>Premises, conclusion and whether the edge was found.\<close>

definition GetConnectivity :: "'d pebble \<Rightarrow> 'd \<Rightarrow> hash \<Rightarrow> hash list \<times> hash \<times> bool" where
  "GetConnectivity P d edge =
     (case pb_get P d (edgeKey edge) of
        None \<Rightarrow> ([], hash_copy [], False)
      | Some val \<Rightarrow>
          (map (\<lambda>(k, v). hash_copy v) (scan_prefix P d (premisePrefix edge)), hash_copy val, True))"

definition AllNodes :: "'d pebble \<Rightarrow> 'd \<Rightarrow> hash list" where
  "AllNodes P d = map (\<lambda>(k, v). hash_copy (drop 1 k)) (scan_prefix P d [110])"

definition AllEdges :: "'d pebble \<Rightarrow> 'd \<Rightarrow> hash list" where
  "AllEdges P d = map (\<lambda>(k, v). hash_copy (drop 1 k)) (scan_prefix P d [101])"

definition RegisterNodeTx :: "'d pebble \<Rightarrow> hash \<Rightarrow> 'd \<Rightarrow> 'd" where
  "RegisterNodeTx P node d = pb_commit P (RegisterNode node []) d"

definition RegisterEdgeTx :: "'d pebble \<Rightarrow> hash \<Rightarrow> hash list \<Rightarrow> hash \<Rightarrow> 'd \<Rightarrow> 'd" where
  "RegisterEdgeTx P edge premises conclusion d = pb_commit P (RegisterEdge edge premises conclusion []) d"

lemma hash_copy_34 [simp]: "length h = 34 \<Longrightarrow> hash_copy h = h"
  by (simp add: hash_copy_def)

section \<open>The keys of the in-process tables\<close>

definition graph_bindings :: "db \<Rightarrow> (bytes \<times> bytes) set" where
  "graph_bindings D =
     {(nodeKey n, []) |n. n \<in> set (t_nodes D)} \<union>
     {(edgeKey e, c) |e c. (e, c) \<in> set (t_edges D)} \<union>
     {(premiseKey e i, p) |e p i. (e, p, i) \<in> set (t_premises D)} \<union>
     {(incomingKey c e, []) |e c. (e, c) \<in> set (t_edges D)} \<union>
     {(outgoingKey p e, []) |e p i. (e, p, i) \<in> set (t_premises D)}"

text \<open>Positions fit into the eight bytes of a key.\<close>

definition positions_fit :: "db \<Rightarrow> bool" where
  "positions_fit D \<longleftrightarrow> (\<forall>r \<in> set (t_premises D). snd (snd r) < 2 ^ 63)"

text \<open>Bindings of keys of another family, those of the log.\<close>

definition off_graph :: "(bytes \<times> bytes) set \<Rightarrow> bool" where
  "off_graph L \<longleftrightarrow> (\<forall>b \<in> L. take 1 (fst b) \<notin> {[110], [101], [112], [99], [111]})"

definition graph_held :: "'d pebble \<Rightarrow> 'd \<Rightarrow> db \<Rightarrow> (bytes \<times> bytes) set \<Rightarrow> bool" where
  "graph_held P d D L \<longleftrightarrow>
     pebble_spec P \<and> graph_ok D \<and> positions_fit D \<and> off_graph L \<and> holds P d (graph_bindings D \<union> L)"

lemma graph_heldD:
  assumes "graph_held P d D L"
  shows "pebble_spec P" and "graph_ok D" and "positions_fit D" and "off_graph L"
    and "holds P d (graph_bindings D \<union> L)"
  using assms by (simp_all add: graph_held_def)

section \<open>Scans\<close>

lemma list_less_append [simp]: "(p @ x < p @ y) \<longleftrightarrow> x < (y :: bytes)"
  by (induction p) auto

lemma scan_prefix_eq:
  assumes "pebble_spec P" and "holds P d R" and "sorted_wrt (<) (map fst xs)"
    and "set xs = {(k, v) \<in> R. take (length p) k = p}"
  shows "scan_prefix P d p = xs"
proof (rule map_sorted_distinct_set_unique)
  note s = scan_prefix_holds [OF assms(1,2), of p]
  have sorted: "sorted (map fst ys)" "distinct (map fst ys)" if "sorted_wrt (<) (map fst ys)" for ys :: "(bytes \<times> bytes) list"
    using that by (simp_all add: strict_sorted_iff)
  show "sorted (map fst (scan_prefix P d p))" "distinct (map fst (scan_prefix P d p))"
    "sorted (map fst xs)" "distinct (map fst xs)"
    using sorted [OF s(1)] sorted [OF assms(3)] by simp_all
  show "set (scan_prefix P d p) = set xs" by (simp add: s(2) assms(4))
  then show "inj_on fst (set (scan_prefix P d p) \<union> set xs)"
    using sorted(2) [OF assms(3)] by (simp add: distinct_map)
qed

lemma off_graph_scan:
  assumes "off_graph L" and "b \<in> {110, 101, 112, 99, 111}"
  shows "{(k, v) \<in> G \<union> L. take (length (b # p)) k = b # p} = {(k, v) \<in> G. take (length (b # p)) k = b # p}"
proof -
  have "take (length (b # p)) (fst x) \<noteq> b # p" if "x \<in> L" for x
    using assms that unfolding off_graph_def by (cases "fst x") auto
  then show ?thesis by auto
qed

text \<open>A list of keys under one prefix, with the table that determines it.\<close>

lemma sorted_keys:
  assumes "sorted hs" and "distinct hs"
  shows "sorted_wrt (<) (map fst (map (\<lambda>h. (p @ h, v)) (hs :: bytes list)))"
  using assms by (simp add: sorted_wrt_map comp_def strict_sorted_iff)

lemma graph_ok_hash34:
  assumes "graph_ok D"
  shows "n \<in> set (t_nodes D) \<Longrightarrow> length n = 34"
    and "(e, c) \<in> set (t_edges D) \<Longrightarrow> length e = 34 \<and> length c = 34"
    and "(e, p, i) \<in> set (t_premises D) \<Longrightarrow> length e = 34 \<and> length p = 34"
  using assms by (fastforce simp: graph_ok_def list_all_iff hash34_def)+

text \<open>Scanning one family of the graph keys.\<close>

lemma scan_family:
  assumes "graph_held P d D L" and "b \<in> {110, 101, 112, 99, 111}" and "sorted_wrt (<) (map fst xs)"
    and "set xs = {(k, v) \<in> graph_bindings D. take (length (b # p)) k = b # p}"
  shows "scan_prefix P d (b # p) = xs"
proof (rule scan_prefix_eq [OF graph_heldD(1) [OF assms(1)] graph_heldD(5) [OF assms(1)] assms(3)])
  show "set xs = {(k, v) \<in> graph_bindings D \<union> L. take (length (b # p)) k = b # p}"
    unfolding off_graph_scan [OF graph_heldD(4) [OF assms(1)] assms(2)] by (rule assms(4))
qed

lemma AllNodes_eq:
  assumes "graph_held P d (view c) L"
  shows "all_nodes c = Inr (AllNodes P d)"
proof -
  note held = graph_heldD [OF assms]
  let ?ns = "sort (t_nodes (view c))"
  have "distinct ?ns" using held(2) by (simp add: graph_ok_def)
  note s = sorted_keys [OF sorted_sort this, of "[110]" "[]"]
  have "scan_prefix P d [110] = map (\<lambda>h. ([110] @ h, [])) ?ns"
    by (rule scan_family [OF assms _ s]) (auto simp: graph_bindings_def key_defs)
  moreover have "map (\<lambda>h. hash_copy h) ?ns = ?ns"
    by (rule map_idI) (simp add: graph_ok_hash34(1) [OF held(2)])
  ultimately show ?thesis
    using all_nodes_eq [OF held(2)] by (simp add: AllNodes_def comp_def)
qed

text \<open>The edges of a table, in the order of the in-process queries.\<close>

lemma all_edges_sort:
  assumes "graph_ok (view c)"
  shows "all_edges c = Inr (sort (map fst (t_edges (view c))))"
    and "incoming_edges c n = Inr (sort (map fst (filter (\<lambda>r. snd r = n) (t_edges (view c)))))"
    and "outgoing_edges c n = Inr (sort (map fst (filter (\<lambda>r. fst (snd r) = n) (t_premises (view c)))))"
  unfolding all_edges_def incoming_edges_def outgoing_edges_def
  by (rule map_res_Hash; use graph_ok_hash34(2,3) [OF assms] in \<open>auto simp: list_all_iff hash34_def\<close>)+

lemma sorted_edge_keys:
  assumes "graph_ok D" and "sorted hs" and "distinct hs" and "set hs = fst ` set (t_edges D)"
  shows "sorted_wrt (<) (map fst (map (\<lambda>e. (101 # e, the (map_of (t_edges D) e))) hs))"
  using assms(2,3) by (simp add: sorted_wrt_map comp_def strict_sorted_iff)

lemma AllEdges_eq:
  assumes "graph_held P d (view c) L"
  shows "all_edges c = Inr (AllEdges P d)"
proof -
  note held = graph_heldD [OF assms]
  let ?t = "t_edges (view c)" and ?hs = "sort (map fst (t_edges (view c)))"
  have "distinct ?hs" using held(2) by (simp add: graph_ok_def)
  from sorted_edge_keys [OF held(2) sorted_sort this]
  have s: "sorted_wrt (<) (map fst (map (\<lambda>e. (101 # e, the (map_of ?t e))) ?hs))" by simp
  have "scan_prefix P d [101] = map (\<lambda>e. (101 # e, the (map_of ?t e))) ?hs"
  proof (rule scan_family [OF assms _ s])
    have "map_of ?t e = Some x" if "(e, x) \<in> set ?t" for e x
      using that held(2) by (simp add: map_of_edges_iff)
    then have "(\<lambda>r. (101 # fst r, the (map_of ?t (fst r)))) ` set ?t = (\<lambda>(e, c). (edgeKey e, c)) ` set ?t"
      by (intro image_cong refl) (auto simp: edgeKey_def)
    then have "set (map (\<lambda>e. (101 # e, the (map_of ?t e))) ?hs) = {(edgeKey e, c) |e c. (e, c) \<in> set ?t}"
      by (auto simp: image_image)
    then show "set (map (\<lambda>e. (101 # e, the (map_of ?t e))) ?hs) =
        {(k, v) \<in> graph_bindings (view c). take (length [101]) k = [101]}"
      by (auto simp: graph_bindings_def key_defs)
  qed simp
  moreover have "map (\<lambda>h. hash_copy h) ?hs = ?hs"
    by (rule map_idI) (use graph_ok_hash34(2) [OF held(2)] in auto)
  ultimately show ?thesis
    using all_edges_sort(1) [OF held(2)] by (simp add: AllEdges_def comp_def)
qed

lemma adjacency_scan:
  assumes "graph_held P d D L" and "b \<in> {99, 111}" and "length n = 34" and "sorted hs" and "distinct hs"
    and "set hs = {e. (b # n @ e, []) \<in> graph_bindings D}"
    and "\<And>e. e \<in> set hs \<Longrightarrow> length e = 34"
  shows "map (\<lambda>(k, v). hash_copy (drop 35 k)) (scan_prefix P d (b # n)) = hs"
proof -
  have s: "sorted_wrt (<) (map fst (map (\<lambda>e. ((b # n) @ e, [])) hs))" by (rule sorted_keys [OF assms(4,5)])
  have "scan_prefix P d (b # n) = map (\<lambda>e. ((b # n) @ e, [])) hs"
  proof (rule scan_family [OF assms(1) _ s])
    have "(k, v) \<in> graph_bindings D \<and> take (length (b # n)) k = b # n \<longleftrightarrow>
        (\<exists>e. k = b # n @ e \<and> v = [] \<and> (b # n @ e, []) \<in> graph_bindings D)" for k v
    proof
      assume kv: "(k, v) \<in> graph_bindings D \<and> take (length (b # n)) k = b # n"
      then have "k = b # n @ drop (length (b # n)) k" by (metis append_Cons append_take_drop_id)
      moreover have "v = []" using kv assms(2) by (auto simp: graph_bindings_def key_defs)
      ultimately show "\<exists>e. k = b # n @ e \<and> v = [] \<and> (b # n @ e, []) \<in> graph_bindings D" using kv by metis
    qed auto
    then show "set (map (\<lambda>e. ((b # n) @ e, [])) hs) =
        {(k, v) \<in> graph_bindings D. take (length (b # n)) k = b # n}"
      using assms(6) by auto
  qed (use assms(2) in auto)
  moreover have "map (\<lambda>h. hash_copy h) hs = hs" by (rule map_idI) (simp add: assms(7))
  ultimately show ?thesis by (simp add: comp_def assms(3))
qed

lemma IncomingEdges_eq:
  assumes "graph_held P d (view c) L" and "length n = 34"
  shows "incoming_edges c n = Inr (IncomingEdges P d n)"
proof -
  note held = graph_heldD [OF assms(1)]
  let ?hs = "sort (map fst (filter (\<lambda>r. snd r = n) (t_edges (view c))))"
  have "distinct ?hs"
    using held(2) by (auto simp: graph_ok_def intro: sorted_distinct_map_filter [unfolded distinct_sort])
  moreover have "set ?hs = {e. (99 # n @ e, []) \<in> graph_bindings (view c)}"
    using graph_ok_hash34(2) [OF held(2)] assms(2)
    by (force simp: graph_bindings_def key_defs)
  moreover have "length e = 34" if "e \<in> set ?hs" for e
    using that graph_ok_hash34(2) [OF held(2)] by auto
  ultimately have "map (\<lambda>(k, v). hash_copy (drop 35 k)) (scan_prefix P d (99 # n)) = ?hs"
    by (intro adjacency_scan [OF assms(1) _ assms(2) sorted_sort]) auto
  then show ?thesis
    using all_edges_sort(2) [OF held(2)] by (simp add: IncomingEdges_def incomingPrefix_def)
qed

text \<open>The daemon lists an edge once, however often the node is its premise.\<close>

lemma OutgoingEdges_eq:
  assumes "graph_held P d (view c) L" and "length n = 34"
  shows "\<exists>es. outgoing_edges c n = Inr es \<and> OutgoingEdges P d n = remdups es"
proof -
  note held = graph_heldD [OF assms(1)]
  let ?hs = "sort (map fst (filter (\<lambda>r. fst (snd r) = n) (t_premises (view c))))"
  have "set (remdups ?hs) = {e. (111 # n @ e, []) \<in> graph_bindings (view c)}"
    using graph_ok_hash34(3) [OF held(2)] assms(2)
    by (force simp: graph_bindings_def key_defs)
  moreover have "length e = 34" if "e \<in> set (remdups ?hs)" for e
    using that graph_ok_hash34(3) [OF held(2)] by auto
  ultimately have "map (\<lambda>(k, v). hash_copy (drop 35 k)) (scan_prefix P d (111 # n)) = remdups ?hs"
    by (intro adjacency_scan [OF assms(1) _ assms(2)]) auto
  then show ?thesis
    using all_edges_sort(3) [OF held(2)] by (simp add: OutgoingEdges_def outgoingPrefix_def)
qed

section \<open>Connectivity\<close>

lemma set_rows_of: "set (rows_of D e) = {r \<in> set (t_premises D). fst r = e}"
  by (simp add: rows_of_def)

lemma rows_positions:
  assumes "graph_ok D"
  shows "map (\<lambda>r. snd (snd r)) (rows_of D e) = [0..<length (rows_of D e)]"
proof (cases "e \<in> fst ` set (t_edges D)")
  case True
  with assms show ?thesis unfolding graph_ok_def by blast
next
  case False
  from graph_ok_rows_of_absent [OF assms this] show ?thesis by (simp add: rows_of_def)
qed

lemma position_word:
  assumes "i < 2 ^ 63" and "j < 2 ^ 63"
  shows "(of_nat i :: 64 word) < of_nat j \<longleftrightarrow> i < j" and "(of_nat i :: 64 word) = of_nat j \<longleftrightarrow> i = j"
proof -
  have "unat (of_nat i :: 64 word) = i" "unat (of_nat j :: 64 word) = j"
    using assms by (simp_all add: unat_of_nat)
  then show "(of_nat i :: 64 word) < of_nat j \<longleftrightarrow> i < j" "(of_nat i :: 64 word) = of_nat j \<longleftrightarrow> i = j"
    by (simp_all add: word_less_nat_alt word_unat_eq_iff)
qed

lemma sorted_premise_keys:
  assumes "graph_ok D" and "positions_fit D"
  shows "sorted_wrt (<) (map fst (map (\<lambda>r. (premiseKey e (snd (snd r)), fst (snd r))) (rows_of D e)))"
proof -
  have "sorted_wrt (\<lambda>r s. snd (snd r) < snd (snd s)) (rows_of D e)"
    using rows_positions [OF assms(1), of e] sorted_wrt_map [of "(<)" "\<lambda>r. snd (snd r)" "rows_of D e"] by simp
  then have "sorted_wrt (\<lambda>r s. premiseKey e (snd (snd r)) < premiseKey e (snd (snd s))) (rows_of D e)"
  proof (rule sorted_wrt_mono_rel [rotated])
    fix r s
    assume rs: "r \<in> set (rows_of D e)" "s \<in> set (rows_of D e)" and less: "snd (snd r) < snd (snd s)"
    then have "snd (snd r) < 2 ^ 63" "snd (snd s) < 2 ^ 63"
      using assms(2) by (simp_all add: positions_fit_def set_rows_of)
    with less show "premiseKey e (snd (snd r)) < premiseKey e (snd (snd s))"
      by (simp add: premiseKey_def position_word(1))
  qed
  then show ?thesis by (simp add: sorted_wrt_map)
qed

lemma edge_bound:
  assumes "graph_held P d D L"
  shows "pb_get P d (edgeKey e) = map_of (t_edges D) e"
proof -
  note held = graph_heldD [OF assms]
  have "pb_get P d (edgeKey e) = Some v \<longleftrightarrow> map_of (t_edges D) e = Some v" for v
  proof -
    have "(edgeKey e, v) \<notin> L" using held(4) by (auto simp: off_graph_def edgeKey_def)
    then have "pb_get P d (edgeKey e) = Some v \<longleftrightarrow> (edgeKey e, v) \<in> graph_bindings D"
      using held(5) by (simp add: holds_def)
    also have "\<dots> \<longleftrightarrow> (e, v) \<in> set (t_edges D)" by (auto simp: graph_bindings_def key_defs)
    also have "\<dots> \<longleftrightarrow> map_of (t_edges D) e = Some v" by (simp add: map_of_edges_iff [OF held(2)])
    finally show ?thesis .
  qed
  then show ?thesis by (metis not_None_eq)
qed

lemma premise_scan:
  assumes "graph_held P d D L" and "length e = 34"
  shows "scan_prefix P d (premisePrefix e) =
    map (\<lambda>r. (premiseKey e (snd (snd r)), fst (snd r))) (rows_of D e)"
  unfolding premisePrefix_def
proof (rule scan_family [OF assms(1) _ sorted_premise_keys [OF graph_heldD(2,3) [OF assms(1)]]])
  have key: "take 34 (e' @ x) = e'" if "(e', p, i) \<in> set (t_premises D)" for e' p i and x :: bytes
    using graph_ok_hash34(3) [OF graph_heldD(2) [OF assms(1)] that] by simp
  have "(k, v) \<in> graph_bindings D \<and> take (length (112 # e)) k = 112 # e \<longleftrightarrow>
      (\<exists>i. (e, v, i) \<in> set (t_premises D) \<and> k = premiseKey e i)" for k v
    unfolding graph_bindings_def key_defs by (auto simp: assms(2) key simp del: take_append)
  then show "set (map (\<lambda>r. (premiseKey e (snd (snd r)), fst (snd r))) (rows_of D e)) =
      {(k, v) \<in> graph_bindings D. take (length (112 # e)) k = 112 # e}"
    by (auto simp: set_rows_of image_iff)
qed simp

lemma GetConnectivity_eq:
  assumes "graph_held P d (view c) L" and "length e = 34"
  shows "get_connectivity c e =
    Inr (case GetConnectivity P d e of (ps, concl, found) \<Rightarrow> if found then Some (ps, concl) else None)"
proof -
  note held = graph_heldD [OF assms(1)]
  have "map (\<lambda>r. hash_copy (fst (snd r))) (rows_of (view c) e) = map (\<lambda>r. fst (snd r)) (rows_of (view c) e)"
    using graph_ok_hash34(3) [OF held(2)] by (auto simp: set_rows_of)
  moreover have "hash_copy x = x" if "map_of (t_edges (view c)) e = Some x" for x
    using graph_ok_hash34(2) [OF held(2) map_of_SomeD [OF that]] by simp
  ultimately show ?thesis
    by (simp add: get_connectivity_eq [OF held(2)] connectivity_def GetConnectivity_def edge_bound [OF assms(1)]
        premise_scan [OF assms] comp_def split: option.splits)
qed

section \<open>Registering\<close>

lemma new_rows_enumerate: "new_rows eh n ps = map (\<lambda>(i, p). (eh, p, i)) (List.enumerate n ps)"
  by (induction ps arbitrary: n) auto

lemma premise_key_other: "b \<noteq> 112 \<Longrightarrow> premiseKey e i \<noteq> b # x" "b \<noteq> 112 \<Longrightarrow> b # x \<noteq> premiseKey e i"
  by (simp_all add: key_defs)

lemma premise_determined:
  assumes "graph_ok D" and "positions_fit D" and "(e, p, i) \<in> set (t_premises D)"
    and "(e', p', i') \<in> set (t_premises D)" and "premiseKey e i = premiseKey e' i'"
  shows "p = p'"
proof -
  have "length e = 34" "length e' = 34" using graph_ok_hash34(3) [OF assms(1)] assms(3,4) by blast+
  then have e: "e = e'" and w: "(of_nat i :: 64 word) = of_nat i'" using assms(5) by (simp_all add: premiseKey_def)
  moreover have "i < 2 ^ 63" "i' < 2 ^ 63" using assms(2-4) by (auto simp: positions_fit_def)
  ultimately have i: "i = i'" using position_word(2) by blast
  have "distinct (map (\<lambda>r. snd (snd r)) (rows_of D e))" by (simp add: rows_positions [OF assms(1)])
  then have "inj_on (\<lambda>r. snd (snd r)) (set (rows_of D e))" by (simp add: distinct_map)
  then have "(e, p, i) = (e, p', i)" by (rule inj_onD) (use assms(3,4) e i in \<open>simp_all add: set_rows_of\<close>)
  then show ?thesis by simp
qed

lemma graph_functional:
  assumes "graph_ok D" and "positions_fit D"
  shows "functional (graph_bindings D)"
proof -
  have "x = x'" if "(e, x) \<in> set (t_edges D)" "(e, x') \<in> set (t_edges D)" for e x x'
    using that map_of_edges_iff [OF assms(1)] by (metis option.inject)
  moreover note premise_determined [OF assms]
  ultimately show ?thesis
    unfolding functional_def graph_bindings_def
    by (auto simp: premise_key_other edgeKey_def nodeKey_def incomingKey_def
        outgoingKey_def)
qed

lemma set_RegisterEdge:
  "set (RegisterEdge e ps c b) = set b \<union>
     ({(nodeKey n, []) |n. n = c \<or> n \<in> set ps} \<union> {(edgeKey e, c)} \<union>
      {(premiseKey e i, p) |i p. (i, p) \<in> set (List.enumerate 0 ps)} \<union>
      {(incomingKey c e, [])} \<union> {(outgoingKey p e, []) |p. p \<in> set ps})"
  by (auto simp: RegisterEdge_def)

lemma positions_register:
  assumes "graph_ok D" and "consistent_with D e ps c" and "positions_fit D" and "length ps < 2 ^ 63"
  shows "positions_fit (register_edge_db e ps c D)"
proof -
  consider "connectivity D e = None" | "connectivity D e = Some (ps, c)"
    using assms(2) by (auto simp: consistent_with_def)
  then show ?thesis
  proof cases
    case 1
    have "i < length ps" if "(i, p) \<in> set (List.enumerate 0 ps)" for i p
      using that by (auto simp: in_set_enumerate_eq)
    with assms(3,4) show ?thesis
      by (fastforce simp: positions_fit_def register_fresh [OF assms(1) 1] new_rows_enumerate)
  next
    case 2
    with assms(3) show ?thesis by (simp add: positions_fit_def register_present [OF assms(1) 2])
  qed
qed

lemma graph_bindingsI:
  "n \<in> set (t_nodes D) \<Longrightarrow> (nodeKey n, []) \<in> graph_bindings D"
  "(x, y) \<in> set (t_edges D) \<Longrightarrow> (edgeKey x, y) \<in> graph_bindings D"
  "(x, y) \<in> set (t_edges D) \<Longrightarrow> (incomingKey y x, []) \<in> graph_bindings D"
  "(x, p, i) \<in> set (t_premises D) \<Longrightarrow> (premiseKey x i, p) \<in> graph_bindings D"
  "(x, p, i) \<in> set (t_premises D) \<Longrightarrow> (outgoingKey p x, []) \<in> graph_bindings D"
  by (auto simp: graph_bindings_def)

lemma five_unions:
  "\<lbrakk>A' = A \<union> a; B' = B \<union> b; C' = C \<union> c; F' = F \<union> f; G' = G \<union> g\<rbrakk> \<Longrightarrow>
   A' \<union> B' \<union> C' \<union> F' \<union> G' = A \<union> B \<union> C \<union> F \<union> G \<union> (set [] \<union> (a \<union> b \<union> c \<union> f \<union> g))"
  by auto

lemma graph_bindings_register:
  assumes "graph_ok D" and "consistent_with D e ps c"
  shows "graph_bindings (register_edge_db e ps c D) = graph_bindings D \<union> set (RegisterEdge e ps c [])"
proof -
  consider "connectivity D e = None" | "connectivity D e = Some (ps, c)"
    using assms(2) by (auto simp: consistent_with_def)
  then show ?thesis
  proof cases
    case 1
    have out: "(\<exists>i. (i, p) \<in> set (List.enumerate 0 ps)) \<longleftrightarrow> p \<in> set ps" for p
    proof -
      have "p \<in> set ps \<longleftrightarrow> p \<in> snd ` set (List.enumerate 0 ps)" by (simp flip: set_map)
      then show ?thesis by force
    qed
    let ?D = "register_edge_db e ps c D"
    have prem: "(x, p, i) \<in> set (t_premises ?D) \<longleftrightarrow>
        (x, p, i) \<in> set (t_premises D) \<or> x = e \<and> (i, p) \<in> set (List.enumerate 0 ps)" for x p i
      by (auto simp: register_fresh [OF assms(1) 1] new_rows_enumerate)
    show ?thesis
      unfolding graph_bindings_def set_RegisterEdge prem
    proof (rule five_unions)
      show "{(nodeKey n, []) |n. n \<in> set (t_nodes ?D)} =
          {(nodeKey n, []) |n. n \<in> set (t_nodes D)} \<union> {(nodeKey n, []) |n. n = c \<or> n \<in> set ps}"
        by (auto simp: set_nodes_register)
      show "{(outgoingKey p x, []) |x p i. (x, p, i) \<in> set (t_premises D) \<or> x = e \<and> (i, p) \<in> set (List.enumerate 0 ps)} =
          {(outgoingKey p x, []) |x p i. (x, p, i) \<in> set (t_premises D)} \<union> {(outgoingKey p e, []) |p. p \<in> set ps}"
        unfolding out [symmetric] by blast
    qed (auto simp: register_fresh(1) [OF assms(1) 1])
  next
    case 2
    then have edge: "(e, c) \<in> set (t_edges D)" and ps: "ps = map (\<lambda>r. fst (snd r)) (rows_of D e)"
      by (auto simp: connectivity_def dest: map_of_SomeD)
    have row: "(e, p, i) \<in> set (t_premises D)" if "(i, p) \<in> set (List.enumerate 0 ps)" for i p
    proof -
      from that have i: "i < length (rows_of D e)" and p: "p = fst (snd (rows_of D e ! i))"
        by (auto simp: in_set_enumerate_eq ps)
      have "snd (snd (rows_of D e ! i)) = i"
        using i arg_cong [OF rows_positions [OF assms(1), of e], of "\<lambda>xs. xs ! i"] by simp
      with i p nth_mem [OF i] show ?thesis by (auto simp: set_rows_of) (metis prod.collapse)
    qed
    have "p \<in> set ps \<Longrightarrow> \<exists>i. (e, p, i) \<in> set (t_premises D)" for p
      by (auto simp: ps set_rows_of)
    moreover have "c \<in> set (t_nodes D)" "set ps \<subseteq> set (t_nodes D)"
      using assms(1) edge by (auto simp: graph_ok_def list_all_iff ps set_rows_of)
    ultimately have "set (RegisterEdge e ps c []) \<subseteq> graph_bindings D"
      unfolding set_RegisterEdge list.set Un_empty_left using edge row by (blast intro: graph_bindingsI)
    moreover have "graph_bindings (register_edge_db e ps c D) = graph_bindings D"
      by (simp add: graph_bindings_def register_present [OF assms(1) 2])
    ultimately show ?thesis by auto
  qed
qed
lemma graph_keys: "b \<in> graph_bindings D \<Longrightarrow> take 1 (fst b) \<in> {[110], [101], [112], [99], [111]}"
  by (auto simp: graph_bindings_def key_defs)

lemma functional_Un:
  assumes "functional A" and "functional B" and "fst ` A \<inter> fst ` B = {}"
  shows "functional (A \<union> B)"
proof -
  have "fst a \<noteq> fst b" if "a \<in> A" "b \<in> B" for a b using assms(3) that by blast
  then have "\<not> ((k, v) \<in> A \<and> (k, v') \<in> B)" for k v v' by fastforce
  with assms(1,2) show ?thesis unfolding functional_def by blast
qed

lemma functional_subset: "functional B \<Longrightarrow> A \<subseteq> B \<Longrightarrow> functional A"
  unfolding functional_def by blast

lemma functional_restrict:
  assumes "functional (G \<union> g)"
  shows "g \<union> {b \<in> G. fst b \<notin> fst ` g} = G \<union> g"
proof -
  have "b \<in> g" if b: "b \<in> G" and k: "fst b \<in> fst ` g" for b
  proof -
    from k obtain v where "(fst b, v) \<in> g" by auto
    moreover from this b assms have "v = snd b" unfolding functional_def by (metis UnCI prod.collapse)
    ultimately show ?thesis by simp
  qed
  then show ?thesis by blast
qed

text \<open>One committed batch: writes of graph keys, then writes of other keys.\<close>

lemma graph_held_commit:
  assumes "graph_held P d D L" and "graph_ok D'" and "positions_fit D'"
    and g: "graph_bindings D' = graph_bindings D \<union> set gw" and l: "functional (set lw)" "off_graph (set lw)"
  shows "graph_held P (pb_commit P (gw @ lw) d) D' (set lw \<union> {b \<in> L. fst b \<notin> fst ` set lw})"
proof -
  note held = graph_heldD [OF assms(1)]
  have f: "functional (graph_bindings D \<union> set gw)" using graph_functional [OF assms(2,3)] by (simp add: g)
  have on: "take 1 (fst b) \<in> {[110], [101], [112], [99], [111]}" if "b \<in> graph_bindings D \<union> set gw" for b
    using graph_keys [of b D'] that unfolding g by blast
  have apart: "fst b \<noteq> fst b'" if "b \<in> graph_bindings D \<union> set gw" "b' \<in> L \<union> set lw" for b b'
    using on [OF that(1)] that(2) held(4) l(2) unfolding off_graph_def by fastforce
  have "functional (set gw \<union> set lw)"
    by (rule functional_Un [OF functional_subset [OF f] l(1)]) (use apart in blast)+
  then have "holds P (pb_commit P (gw @ lw) d)
      (set (gw @ lw) \<union> {b \<in> graph_bindings D \<union> L. fst b \<notin> fst ` set (gw @ lw)})"
    by (intro holds_commit [OF held(1,5)]) simp_all
  moreover have "set (gw @ lw) \<union> {b \<in> graph_bindings D \<union> L. fst b \<notin> fst ` set (gw @ lw)} =
      (set gw \<union> {b \<in> graph_bindings D. fst b \<notin> fst ` set gw}) \<union> (set lw \<union> {b \<in> L. fst b \<notin> fst ` set lw})"
    using apart by (fastforce simp: image_iff)
  moreover have "off_graph (set lw \<union> {b \<in> L. fst b \<notin> fst ` set lw})"
    using held(4) l(2) by (auto simp: off_graph_def)
  ultimately show ?thesis
    unfolding functional_restrict [OF f] graph_held_def g [symmetric] using held(1) assms(2,3) by simp
qed

lemma graph_held_register:
  assumes "graph_held P d D L" and "consistent_with D e ps c" and "hash34 e" "hash34 c" "list_all hash34 ps"
    and "length ps < 2 ^ 63" and "functional (set lw)" "off_graph (set lw)"
  shows "graph_held P (pb_commit P (RegisterEdge e ps c [] @ lw) d) (register_edge_db e ps c D)
    (set lw \<union> {b \<in> L. fst b \<notin> fst ` set lw})"
  using graph_heldD [OF assms(1)] assms
  by (intro graph_held_commit) (simp_all add: graph_ok_register positions_register graph_bindings_register)

lemma graph_held_log:
  assumes "graph_held P d D L" and "functional (set lw)" "off_graph (set lw)"
  shows "graph_held P (pb_commit P lw d) D (set lw \<union> {b \<in> L. fst b \<notin> fst ` set lw})"
  using graph_held_commit [OF assms(1) graph_heldD(2,3) [OF assms(1)] _ assms(2,3), of "[]"] by simp

lemma graph_held_node:
  assumes "graph_held P d D L" and "hash34 n"
  shows "graph_held P (RegisterNodeTx P n d) (ins_node n D) L"
proof -
  note held = graph_heldD [OF assms(1)]
  have ok: "graph_ok (ins_node n D)"
    using held(2) assms(2) unfolding graph_ok_def
    by (auto simp: ins_node_def list_all_iff insert_or_ignore_id distinct_insert_or_ignore_id rows_of_def)
  have fit: "positions_fit (ins_node n D)" using held(3) by (simp add: positions_fit_def ins_node_def)
  have "graph_bindings (ins_node n D) = graph_bindings D \<union> set (RegisterNode n [])"
    by (auto simp: graph_bindings_def RegisterNode_def ins_node_def insert_or_ignore_id)
  from graph_held_commit [OF assms(1) ok fit this, of "[]"]
  show ?thesis by (simp add: RegisterNodeTx_def functional_def off_graph_def)
qed

lemma graph_held_new:
  assumes "pebble_spec P"
  shows "graph_held P (pb_new P) empty_db {}"
  using pebble_specD(1) [OF assms] assms
  by (simp add: graph_held_def positions_fit_def off_graph_def holds_def graph_bindings_def empty_db_def)
    (simp flip: empty_db_def)
end
