(* ===== verification/Go_Log.thy ===== *)
theory Go_Log
  imports Go_Graph
begin

text \<open>
  \<^verbatim>\<open>go/pkg/storage/append_log.go\<close>: the daemon's signed log in Pebble, one key for each entry and each entry
  hash and one for the length. Go's \<open>int64\<close> is a signed 64-bit word; a byte slice may be \<open>nil\<close>, which is
  \<open>None\<close>. The environment \<open>G\<close> holds the Go libraries (\<open>zeebo/blake3\<close>, \<open>fxamacker/cbor\<close>, \<open>crypto/ed25519\<close>),
  and \<open>libraries_agree\<close> says that they compute what the Python ones do, which the parity test of the
  repository checks. An error of the Go code is \<open>None\<close>; its text is not modelled. \<^verbatim>\<open>go/pkg/merkle\<close> computes as
  \<^verbatim>\<open>merkle.py\<close> does, step by step, so \<open>Merkle\<close> serves for both.
\<close>

section \<open>Definitions\<close>

type_synonym int64 = "64 word"

record go_entry =
  ge_seq :: int64
  ge_timestamp :: int64
  ge_signer :: bytes
  ge_entry_hash :: hash
  ge_prev_hash :: hash
  ge_signature :: bytes
  ge_payload :: "bytes option"

definition GenesisPrevHash :: hash where
  "GenesisPrevHash = replicate 34 0"

definition entryKey :: "int64 \<Rightarrow> bytes" where
  "entryKey seq = 108 # be64 seq"

definition entryHashKey :: "int64 \<Rightarrow> bytes" where
  "entryHashKey seq = 104 # be64 seq"

definition logLenKey :: bytes where
  "logLenKey = [109, 108, 111, 103, 95, 108, 101, 110]"

definition signatureMessage :: "env \<Rightarrow> int64 \<Rightarrow> int64 \<Rightarrow> bytes \<Rightarrow> hash \<Rightarrow> hash \<Rightarrow> bytes" where
  "signatureMessage G seq ts pubKey entryHash prevHash =
     cbor_dumps G (PList [PInt (sint seq), PInt (sint ts), PBytes pubKey, PBytes entryHash, PBytes prevHash])"

text \<open>The codec writes a nil slice as \<open>null\<close>.\<close>

definition go_slice :: "bytes option \<Rightarrow> pyval" where
  "go_slice b = (case b of None \<Rightarrow> PNone | Some b \<Rightarrow> PBytes b)"

definition encodeEntry :: "env \<Rightarrow> go_entry \<Rightarrow> bytes" where
  "encodeEntry G e =
     cbor_dumps G (PList [PInt (sint (ge_seq e)), PInt (sint (ge_timestamp e)), PBytes (ge_signer e),
       PBytes (ge_entry_hash e), PBytes (ge_prev_hash e), PBytes (ge_signature e), go_slice (ge_payload e)])"

definition toInt64 :: "pyval \<Rightarrow> int64 option" where
  "toInt64 v = (case v of PInt i \<Rightarrow> if - (2 ^ 63) \<le> i \<and> i < 2 ^ 63 then Some (of_int i) else None | _ \<Rightarrow> None)"

definition as_bytes :: "pyval \<Rightarrow> bytes option" where
  "as_bytes v = (case v of PBytes b \<Rightarrow> Some b | _ \<Rightarrow> None)"

definition toHash :: "pyval \<Rightarrow> hash option" where
  "toHash v = Option.bind (as_bytes v) (\<lambda>b. if length b \<noteq> 34 then None else Some b)"

definition decodeEntry :: "env \<Rightarrow> bytes \<Rightarrow> go_entry option" where
  "decodeEntry G data =
     (case cbor_loads G data of
        Inr (PList [a0, a1, a2, a3, a4, a5, a6]) \<Rightarrow>
          Option.bind (toInt64 a0) (\<lambda>seq.
          Option.bind (toInt64 a1) (\<lambda>ts.
          Option.bind (as_bytes a2) (\<lambda>pub.
          Option.bind (toHash a3) (\<lambda>eh.
          Option.bind (toHash a4) (\<lambda>ph.
          Option.bind (as_bytes a5) (\<lambda>sig.
          Option.bind (as_bytes a6) (\<lambda>payload.
            Some \<lparr> ge_seq = seq, ge_timestamp = ts, ge_signer = pub, ge_entry_hash = eh, ge_prev_hash = ph,
                   ge_signature = sig, ge_payload = Some payload \<rparr>)))))))
      | _ \<Rightarrow> None)"

definition lenInBatch :: "'d pebble \<Rightarrow> 'd \<Rightarrow> batch \<Rightarrow> int64" where
  "lenInBatch P d b = (case pb_batch_get P d b logLenKey of None \<Rightarrow> 0 | Some val \<Rightarrow> uint64_of val)"

definition prevHashInBatch :: "'d pebble \<Rightarrow> 'd \<Rightarrow> batch \<Rightarrow> int64 \<Rightarrow> hash option" where
  "prevHashInBatch P d b seq =
     (if seq = 0 then Some GenesisPrevHash
      else map_option hash_copy (pb_batch_get P d b (entryHashKey (seq - 1))))"

text \<open>The batch with the new entry in it, and the entry.\<close>

definition appendInBatch ::
    "'d pebble \<Rightarrow> env \<Rightarrow> bytes \<Rightarrow> bytes \<Rightarrow> int64 \<Rightarrow> bytes option \<Rightarrow> 'd \<Rightarrow> batch \<Rightarrow> (batch \<times> go_entry) option" where
  "appendInBatch P G privKey pubKey ts entry d b =
     (let seq = lenInBatch P d b;
          entryHash = hash_bytes G (case entry of None \<Rightarrow> [] | Some x \<Rightarrow> x) in
      Option.bind (prevHashInBatch P d b seq) (\<lambda>prevHash.
      Option.bind (option_of_res (sign G privKey (signatureMessage G seq ts pubKey entryHash prevHash))) (\<lambda>sig.
        let le = \<lparr> ge_seq = seq, ge_timestamp = ts, ge_signer = pubKey, ge_entry_hash = entryHash,
                   ge_prev_hash = prevHash, ge_signature = sig, ge_payload = entry \<rparr> in
        Some (b @ [(entryKey seq, encodeEntry G le), (entryHashKey seq, entryHash),
                   (logLenKey, be64 (seq + 1))], le))))"

definition Append ::
    "'d pebble \<Rightarrow> env \<Rightarrow> bytes \<Rightarrow> bytes \<Rightarrow> int64 \<Rightarrow> bytes option \<Rightarrow> 'd \<Rightarrow> 'd \<times> go_entry option" where
  "Append P G privKey pubKey ts entry d =
     (case appendInBatch P G privKey pubKey ts entry d [] of
        None \<Rightarrow> (d, None)
      | Some (b, le) \<Rightarrow> (pb_commit P b d, Some le))"

text \<open>No result: an error. \<open>Some None\<close>: no such entry.\<close>

definition Get :: "'d pebble \<Rightarrow> env \<Rightarrow> 'd \<Rightarrow> int64 \<Rightarrow> go_entry option option" where
  "Get P G d seq =
     (case pb_get P d (entryKey seq) of
        None \<Rightarrow> Some None
      | Some val \<Rightarrow> map_option Some (decodeEntry G val))"

definition Len :: "'d pebble \<Rightarrow> 'd \<Rightarrow> int64" where
  "Len P d = (case pb_get P d logLenKey of None \<Rightarrow> 0 | Some val \<Rightarrow> uint64_of val)"

definition entryHashes :: "'d pebble \<Rightarrow> 'd \<Rightarrow> hash list option" where
  "entryHashes P d =
     those (map (\<lambda>i. map_option hash_copy (pb_get P d (entryHashKey (of_nat i)))) [0..<nat (sint (Len P d))])"

definition RootHash :: "'d pebble \<Rightarrow> env \<Rightarrow> 'd \<Rightarrow> hash option" where
  "RootHash P G d = map_option (root_hash G) (entryHashes P d)"

definition GetInclusionProof :: "'d pebble \<Rightarrow> env \<Rightarrow> 'd \<Rightarrow> int64 \<Rightarrow> inclusion option" where
  "GetInclusionProof P G d seq =
     Option.bind (entryHashes P d) (\<lambda>hashes.
       if sint seq < 0 \<or> int (length hashes) \<le> sint seq then None
       else option_of_res (inclusion_proof G hashes (sint seq)))"

section \<open>The two sets of libraries\<close>

definition libraries_agree :: "env \<Rightarrow> env \<Rightarrow> bool" where
  "libraries_agree E G \<longleftrightarrow>
     blake3 G = blake3 E \<and> (\<forall>v. encodable v \<longrightarrow> cbor_dumps G v = cbor_dumps E v) \<and> cbor_spec G \<and>
     (\<forall>priv msg. length priv = 32 \<longrightarrow> ed_sign G priv msg = ed_sign E priv msg)"

lemma hash_bytes_env: "blake3 G = blake3 E \<Longrightarrow> hash_bytes G = hash_bytes E"
  by (simp add: fun_eq_iff hash_bytes_def)

lemma merkle_env:
  assumes "blake3 G = blake3 E"
  shows "root_hash G hs = root_hash E hs" and "inclusion_proof G hs i = inclusion_proof E hs i"
proof -
  note h = hash_bytes_env [OF assms]
  have l: "leaf_node G = leaf_node E" "internal_node G = internal_node E" "empty_root G = empty_root E"
    by (simp_all add: fun_eq_iff leaf_node_def internal_node_def empty_root_def h)
  have n: "next_level G xs = next_level E xs" for xs
    by (rule next_level.induct [where P = "\<lambda>_ xs. next_level G xs = next_level E xs"]) (simp_all add: l)
  have shorter: "length (next_level E xs) < length xs" if "1 < length xs" for xs
    using that by (simp add: length_next_level)
  have r: "root_of_level G xs = root_of_level E xs" for xs
  proof (induction xs rule: length_induct)
    case (1 xs)
    with shorter [of xs] show ?case by (subst (1 2) root_of_level.simps) (auto simp: n)
  qed
  have p: "proof_path G xs k = proof_path E xs k" for xs k
  proof (induction xs arbitrary: k rule: length_induct)
    case (1 xs)
    with shorter [of xs] show ?case by (subst (1 2) proof_path.simps) (auto simp: n)
  qed
  show "root_hash G hs = root_hash E hs" "inclusion_proof G hs i = inclusion_proof E hs i"
    by (simp_all add: root_hash_def inclusion_proof_def l r p)
qed

lemma agreeD:
  assumes "libraries_agree E G"
  shows "hash_bytes G d = hash_bytes E d" and "root_hash G hs = root_hash E hs"
    and "inclusion_proof G hs i = inclusion_proof E hs i"
    and "encodable v \<Longrightarrow> cbor_dumps G v = cbor_dumps E v" and "cbor_spec G"
    and "sign G priv msg = sign E priv msg"
  using assms merkle_env [of G E] hash_bytes_env [of G E]
  by (auto simp: libraries_agree_def sign_def key_sizes)

section \<open>The keys of the in-process log\<close>

text \<open>The entry of a row. The daemon never holds a nil payload for a payload that is not empty.\<close>

definition go_of :: "log_entry \<Rightarrow> go_entry" where
  "go_of r =
     \<lparr> ge_seq = of_int (le_seq r), ge_timestamp = of_int (le_timestamp_ns r), ge_signer = le_signer_pubkey r,
       ge_entry_hash = le_entry_hash r, ge_prev_hash = le_prev_log_hash r, ge_signature = le_signature r,
       ge_payload = Some (le_payload r) \<rparr>"

definition log_bindings :: "env \<Rightarrow> log_entry list \<Rightarrow> (bytes \<times> bytes) set" where
  "log_bindings G rs =
     {(entryKey (of_nat i), encodeEntry G (go_of (rs ! i))) |i. i < length rs} \<union>
     {(entryHashKey (of_nat i), le_entry_hash (rs ! i)) |i. i < length rs} \<union>
     (if rs = [] then {} else {(logLenKey, be64 (of_nat (length rs)))})"

text \<open>What the signed 64-bit fields of an entry can hold.\<close>

definition int64_range :: "int \<Rightarrow> bool" where
  "int64_range i \<longleftrightarrow> - (2 ^ 63) \<le> i \<and> i < 2 ^ 63"

definition log_fits :: "log_entry list \<Rightarrow> bool" where
  "log_fits rs \<longleftrightarrow> length rs < 2 ^ 63 \<and> (\<forall>r \<in> set rs. int64_range (le_timestamp_ns r))"

section \<open>Reading entries back\<close>

lemma sint_in_range: "int64_range i \<Longrightarrow> sint (of_int i :: int64) = i"
  unfolding sint_sbintrunc' by (simp add: int64_range_def signed_take_bit_int_eq_self)

lemma toInt64_ok: "int64_range i \<Longrightarrow> toInt64 (PInt i) = Some (of_int i)"
  by (simp add: toInt64_def int64_range_def)

definition entry_ok :: "log_entry \<Rightarrow> bool" where
  "entry_ok r \<longleftrightarrow> int64_range (le_seq r) \<and> int64_range (le_timestamp_ns r) \<and>
     length (le_entry_hash r) = 34 \<and> length (le_prev_log_hash r) = 34"

lemma decode_encode_entry:
  assumes "cbor_spec G" and "entry_ok r"
  shows "decodeEntry G (encodeEntry G (go_of r)) = Some (go_of r)"
proof -
  let ?xs = "[PInt (le_seq r), PInt (le_timestamp_ns r), PBytes (le_signer_pubkey r), PBytes (le_entry_hash r),
    PBytes (le_prev_log_hash r), PBytes (le_signature r), PBytes (le_payload r)]"
  have enc: "encodeEntry G (go_of r) = cbor_dumps G (PList ?xs)"
    using assms(2) by (simp add: encodeEntry_def go_of_def go_slice_def sint_in_range entry_ok_def)
  obtain w where w: "cbor_loads G (cbor_dumps G (PList ?xs)) = Inr w" "py_eq (PList ?xs) w"
    using cbor_specD [OF assms(1), of "PList ?xs"] by auto
  from w(2) py_eq_scalars [of ?xs w] have "w = PList ?xs" by simp
  with w(1) assms(2) show ?thesis
    unfolding decodeEntry_def enc by (simp add: entry_ok_def toInt64_ok as_bytes_def toHash_def go_of_def)
qed

section \<open>What the daemon's log holds\<close>

lemma sint_index:
  fixes w :: int64
  assumes "n \<le> 2 ^ 63"
  shows "0 \<le> sint w \<and> sint w < int n \<longleftrightarrow> unat w < n" and "unat w < n \<Longrightarrow> nat (sint w) = unat w"
proof -
  have range: "- (2 ^ 63) \<le> sint w" "sint w < 2 ^ 63"
    using sint_greater_eq [of w] sint_less [of w] by simp_all
  have u: "uint w = sint w mod 2 ^ 64" by (simp add: uint_sint take_bit_eq_mod)
  have "int n \<le> int (2 ^ 63)" using assms by (simp only: of_nat_le_iff)
  then have n: "int n \<le> 2 ^ 63" by simp
  have "uint w = (if 0 \<le> sint w then sint w else sint w + 2 ^ 64)"
  proof (cases "0 \<le> sint w")
    case False
    then have "(sint w + 2 ^ 64) mod 2 ^ 64 = sint w + 2 ^ 64" using range by (intro mod_pos_pos_trivial) simp_all
    moreover have "(sint w + 2 ^ 64) mod 2 ^ 64 = sint w mod 2 ^ 64" by (rule mod_add_self2)
    ultimately show ?thesis using False u by simp
  next
    case True
    then have "sint w mod 2 ^ 64 = sint w" using range by (intro mod_pos_pos_trivial) simp_all
    with True u show ?thesis by simp
  qed
  moreover have "unat w < n \<longleftrightarrow> uint w < int n" using nat_less_iff [of "uint w" n] by simp
  ultimately show "0 \<le> sint w \<and> sint w < int n \<longleftrightarrow> unat w < n" using range n by auto
  assume "unat w < n"
  then have "0 \<le> sint w" using \<open>0 \<le> sint w \<and> sint w < int n \<longleftrightarrow> unat w < n\<close> by simp
  with \<open>uint w = (if 0 \<le> sint w then sint w else sint w + 2 ^ 64)\<close> have "uint w = sint w" by simp
  from arg_cong [OF this, of nat] show "nat (sint w) = unat w" by simp
qed

lemma word_index: "i < 2 ^ 63 \<Longrightarrow> (w :: int64) = of_nat i \<longleftrightarrow> unat w = i"
  by (auto simp: word_unat_eq_iff unat_of_nat)

definition log_held :: "'d pebble \<Rightarrow> env \<Rightarrow> 'd \<Rightarrow> db \<Rightarrow> bool" where
  "log_held P G d D \<longleftrightarrow> graph_held P d D (log_bindings G (t_log D)) \<and> log_fits (t_log D)"

lemma log_heldD:
  assumes "log_held P G d D"
  shows "graph_held P d D (log_bindings G (t_log D))" and "length (t_log D) < 2 ^ 63"
    and "r \<in> set (t_log D) \<Longrightarrow> int64_range (le_timestamp_ns r)"
  using assms by (simp_all add: log_held_def log_fits_def)

text \<open>Keys of the log are not keys of the graph.\<close>

lemma off_graph_log: "off_graph (log_bindings G rs)"
  by (auto simp: off_graph_def log_bindings_def entryKey_def entryHashKey_def logLenKey_def)

lemma log_get:
  assumes "log_held P G d D" and "take 1 k \<notin> {[110], [101], [112], [99], [111]}"
  shows "pb_get P d k = Some v \<longleftrightarrow> (k, v) \<in> log_bindings G (t_log D)"
proof -
  have "(k, v) \<notin> graph_bindings D" using graph_keys [of "(k, v)" D] assms(2) by auto
  then show ?thesis using graph_heldD(5) [OF log_heldD(1) [OF assms(1)]] by (simp add: holds_def)
qed

lemma get_log_keys:
  assumes "log_held P G d D"
  shows "pb_get P d (entryKey w) =
           (if unat w < length (t_log D) then Some (encodeEntry G (go_of (t_log D ! unat w))) else None)"
    and "pb_get P d (entryHashKey w) =
           (if unat w < length (t_log D) then Some (le_entry_hash (t_log D ! unat w)) else None)"
    and "pb_get P d logLenKey =
           (if t_log D = [] then None else Some (be64 (of_nat (length (t_log D)))))"
proof -
  note small = less_trans [OF _ log_heldD(2) [OF assms]]
  have "pb_get P d (entryKey w) = Some v \<longleftrightarrow>
      unat w < length (t_log D) \<and> v = encodeEntry G (go_of (t_log D ! unat w))" for v
    by (subst log_get [OF assms])
      (auto simp: log_bindings_def entryKey_def entryHashKey_def logLenKey_def word_index [OF small]
        intro!: exI [of _ "unat w"])
  then show "pb_get P d (entryKey w) =
           (if unat w < length (t_log D) then Some (encodeEntry G (go_of (t_log D ! unat w))) else None)"
    by (metis not_None_eq)
  have "pb_get P d (entryHashKey w) = Some v \<longleftrightarrow>
      unat w < length (t_log D) \<and> v = le_entry_hash (t_log D ! unat w)" for v
    by (subst log_get [OF assms])
      (auto simp: log_bindings_def entryKey_def entryHashKey_def logLenKey_def word_index [OF small]
        intro!: exI [of _ "unat w"])
  then show "pb_get P d (entryHashKey w) =
           (if unat w < length (t_log D) then Some (le_entry_hash (t_log D ! unat w)) else None)"
    by (metis not_None_eq)
  have "pb_get P d logLenKey = Some v \<longleftrightarrow> t_log D \<noteq> [] \<and> v = be64 (of_nat (length (t_log D)))" for v
    by (subst log_get [OF assms])
      (auto simp: log_bindings_def entryKey_def entryHashKey_def logLenKey_def)
  then show "pb_get P d logLenKey =
           (if t_log D = [] then None else Some (be64 (of_nat (length (t_log D)))))"
    by (metis not_None_eq)
qed

lemma Len_eq:
  assumes "log_held P G d D"
  shows "Len P d = of_nat (length (t_log D))" and "sint (Len P d) = int (length (t_log D))"
proof -
  show "Len P d = of_nat (length (t_log D))" by (simp add: Len_def get_log_keys(3) [OF assms])
  then show "sint (Len P d) = int (length (t_log D))"
    using sint_in_range [of "int (length (t_log D))"] log_heldD(2) [OF assms]
    by (simp add: int64_range_def)
qed

lemma entryHashes_eq:
  assumes "log_held P G d D" and "blake3_spec E" and "log_ok E D"
  shows "entryHashes P d = Some (map le_entry_hash (t_log D))"
proof -
  let ?rs = "t_log D"
  have "map_option hash_copy (pb_get P d (entryHashKey (of_nat i))) = Some (le_entry_hash (?rs ! i))"
    if "i < length ?rs" for i
  proof -
    have "unat (of_nat i :: int64) = i" using that log_heldD(2) [OF assms(1)] by (simp add: unat_of_nat)
    with that log_ok_hash34(1) [OF assms(2,3) that] show ?thesis by (simp add: get_log_keys(2) [OF assms(1)])
  qed
  then have "map (\<lambda>i. map_option hash_copy (pb_get P d (entryHashKey (of_nat i)))) [0..<length ?rs] =
      map Some (map le_entry_hash ?rs)"
    by (intro nth_equalityI) simp_all
  moreover have "those (map Some xs) = Some xs" for xs :: "hash list" by (induction xs) simp_all
  from this [of "map le_entry_hash ?rs"] have "those (map Some (map le_entry_hash ?rs)) = Some (map le_entry_hash ?rs)" .
  ultimately show ?thesis by (simp only: entryHashes_def Len_eq(2) [OF assms(1)] nat_int)
qed

lemma log_entries_ok:
  assumes "log_held P G d D" and "blake3_spec E" and "log_ok E D" and "i < length (t_log D)"
  shows "entry_ok (t_log D ! i)"
  using log_ok_hash34 [OF assms(2-4)] log_ok_seq [OF assms(3,4)] log_heldD(2) [OF assms(1)]
    log_heldD(3) [OF assms(1) nth_mem [OF assms(4)]] assms(4)
  by (simp add: entry_ok_def int64_range_def)

lemma Get_eq:
  assumes "log_held P G d D" and "blake3_spec E" and "log_ok E D" and "cbor_spec G"
  shows "Get P G d w =
    Some (if 0 \<le> sint w \<and> sint w < int (length (t_log D)) then Some (go_of (t_log D ! nat (sint w))) else None)"
proof -
  note i = sint_index [OF less_imp_le [OF log_heldD(2) [OF assms(1)]], of w]
  show ?thesis
    using decode_encode_entry [OF assms(4) log_entries_ok [OF assms(1-3), of "unat w"]] i(2)
    unfolding i(1) Get_def get_log_keys(1) [OF assms(1)] by simp
qed

section \<open>Appending\<close>

definition log_writes :: "env \<Rightarrow> log_entry \<Rightarrow> batch" where
  "log_writes G r =
     [(entryKey (of_int (le_seq r)), encodeEntry G (go_of r)),
      (entryHashKey (of_int (le_seq r)), le_entry_hash r), (logLenKey, be64 (of_int (le_seq r) + 1))]"

lemma log_writes_ok: "functional (set (log_writes G r))" "off_graph (set (log_writes G r))"
  by (auto simp: log_writes_def functional_def off_graph_def entryKey_def entryHashKey_def logLenKey_def)

lemma log_bindings_append:
  assumes "length rs < 2 ^ 63" and "le_seq r = int (length rs)"
  shows "log_bindings G (rs @ [r]) =
    set (log_writes G r) \<union> {b \<in> log_bindings G rs. fst b \<notin> fst ` set (log_writes G r)}"
proof -
  let ?n = "length rs"
  have new: "(of_nat i :: int64) \<noteq> of_nat ?n" if "i < ?n" for i
    using that position_word(2) [of i ?n] assms(1) by simp
  have old: "(rs @ [r]) ! i = rs ! i" if "i < ?n" for i using that by (simp add: nth_append)
  have split: "{f i ((rs @ [r]) ! i) |i. i < length (rs @ [r])} = insert (f ?n r) {f i (rs ! i) |i. i < ?n}"
    for f :: "nat \<Rightarrow> log_entry \<Rightarrow> bytes \<times> bytes"
  proof (intro set_eqI iffI)
    fix x
    assume "x \<in> {f i ((rs @ [r]) ! i) |i. i < length (rs @ [r])}"
    then obtain i where i: "i < Suc ?n" "x = f i ((rs @ [r]) ! i)" by auto
    then show "x \<in> insert (f ?n r) {f i (rs ! i) |i. i < ?n}" by (cases "i = ?n") (auto simp: old)
  next
    fix x
    assume "x \<in> insert (f ?n r) {f i (rs ! i) |i. i < ?n}"
    then consider "x = f ?n r" | i where "i < ?n" "x = f i (rs ! i)" by auto
    then show "x \<in> {f i ((rs @ [r]) ! i) |i. i < length (rs @ [r])}"
    proof cases
      case 1
      then show ?thesis by (intro CollectI exI [of _ ?n]) simp
    next
      case 2
      then show ?thesis by (intro CollectI exI [of _ i]) (simp add: old)
    qed
  qed
  have b: "log_bindings G (rs @ [r]) =
      insert (entryKey (of_nat ?n), encodeEntry G (go_of r)) {(entryKey (of_nat i), encodeEntry G (go_of (rs ! i))) |i. i < ?n} \<union>
      insert (entryHashKey (of_nat ?n), le_entry_hash r) {(entryHashKey (of_nat i), le_entry_hash (rs ! i)) |i. i < ?n} \<union>
      {(logLenKey, be64 (of_nat (Suc ?n)))}"
    unfolding log_bindings_def split [of "\<lambda>i x. (entryKey (of_nat i), encodeEntry G (go_of x))"]
      split [of "\<lambda>i x. (entryHashKey (of_nat i), le_entry_hash x)"] by simp
  have keys: "fst ` set (log_writes G r) = {entryKey (of_nat ?n), entryHashKey (of_nat ?n), logLenKey}"
    by (simp add: log_writes_def assms(2))
  have writes: "set (log_writes G r) = {(entryKey (of_nat ?n), encodeEntry G (go_of r)),
      (entryHashKey (of_nat ?n), le_entry_hash r), (logLenKey, be64 (of_nat (Suc ?n)))}"
    by (simp add: log_writes_def assms(2) add.commute)
  have kept: "{x \<in> log_bindings G rs. fst x \<notin> fst ` set (log_writes G r)} =
      {(entryKey (of_nat i), encodeEntry G (go_of (rs ! i))) |i. i < ?n} \<union>
      {(entryHashKey (of_nat i), le_entry_hash (rs ! i)) |i. i < ?n}"
    unfolding keys log_bindings_def using new
    by (auto simp: entryKey_def entryHashKey_def logLenKey_def split: if_splits)
  show ?thesis unfolding b kept unfolding writes by blast
qed
lemma new_entry_shape:
  assumes "blake3_spec E" and "log_ok E D" and "new_entry E priv pub now entry D = Inr r"
  obtains sig where "r = \<lparr> le_seq = int (length (t_log D)), le_timestamp_ns = now, le_signer_pubkey = pub,
      le_entry_hash = hash_bytes E entry, le_prev_log_hash = last_hash (t_log D), le_signature = sig,
      le_payload = entry \<rparr>"
    and "sign E priv (cbor_dumps E (PList [PInt (int (length (t_log D))), PInt now, PBytes pub,
      PBytes (hash_bytes E entry), PBytes (last_hash (t_log D))])) = Inr sig"
  using assms by (auto simp: new_entry_def Let_def prev_hash_eq signature_message_ok and_then_eq_Inr)

definition graph_writes :: "batch \<Rightarrow> bool" where
  "graph_writes b \<longleftrightarrow> (\<forall>w \<in> set b. take 1 (fst w) \<in> {[110], [101], [112], [99], [111]})"

lemma batch_get_log:
  assumes "pebble_spec P" and "graph_writes b" and "take 1 k \<notin> {[110], [101], [112], [99], [111]}"
  shows "pb_batch_get P d b k = pb_get P d k"
proof -
  have "k \<notin> fst ` set b" using assms(2,3) unfolding graph_writes_def by blast
  then have "map_of (rev b) k = None" by (simp add: map_of_eq_None_iff)
  then show ?thesis by (simp add: pebble_specD(2) [OF assms(1)])
qed

lemma log_keys_apart:
  "take 1 (entryKey w) \<notin> {[110], [101], [112], [99], [111]}"
  "take 1 (entryHashKey w) \<notin> {[110], [101], [112], [99], [111]}"
  "take 1 logLenKey \<notin> {[110], [101], [112], [99], [111]}"
  by (simp_all add: entryKey_def entryHashKey_def logLenKey_def)

lemma appendInBatch_eq:
  assumes held: "log_held P G d D" and "libraries_agree E G" and "blake3_spec E" and "log_ok E D"
    and "graph_writes b" and "int64_range now" and new: "new_entry E priv pub now entry D = Inr r"
  shows "appendInBatch P G priv pub (of_int now) (Some entry) d b = Some (b @ log_writes G r, go_of r)"
proof -
  let ?n = "length (t_log D)"
  note P = graph_heldD(1) [OF log_heldD(1) [OF held]]
  note get = batch_get_log [OF P assms(5)]
  have small: "?n < 2 ^ 63" by (rule log_heldD(2) [OF held])
  have len: "lenInBatch P d b = of_nat ?n"
    by (simp add: lenInBatch_def get [OF log_keys_apart(3)] get_log_keys(3) [OF held])
  have prev: "prevHashInBatch P d b (of_nat ?n) = Some (last_hash (t_log D))"
  proof (cases "t_log D = []")
    case True
    then show ?thesis by (simp add: prevHashInBatch_def last_hash_def GenesisPrevHash_def GENESIS_PREV_HASH_def)
  next
    case False
    then have w: "(of_nat ?n :: int64) - 1 = of_nat (?n - 1)" by (cases ?n) simp_all
    have "unat (of_nat (?n - 1) :: int64) = ?n - 1" using small by (simp add: unat_of_nat)
    then have "pb_get P d (entryHashKey (of_nat (?n - 1))) = Some (le_entry_hash (t_log D ! (?n - 1)))"
      using False by (simp add: get_log_keys(2) [OF held])
    moreover have "(of_nat ?n :: int64) \<noteq> 0" using False small position_word(2) [of ?n 0] by simp
    ultimately show ?thesis
      using False log_ok_hash34(1) [OF assms(3,4), of "?n - 1"]
      by (simp add: prevHashInBatch_def w get [OF log_keys_apart(2)] last_hash_def last_conv_nth)
  qed
  have sint: "sint (of_nat ?n :: int64) = int ?n" "sint (of_int now :: int64) = now"
    using sint_in_range [of "int ?n"] sint_in_range [OF assms(6)] small by (simp_all add: int64_range_def)
  obtain sig where r: "r = \<lparr> le_seq = int ?n, le_timestamp_ns = now, le_signer_pubkey = pub,
      le_entry_hash = hash_bytes E entry, le_prev_log_hash = last_hash (t_log D), le_signature = sig,
      le_payload = entry \<rparr>"
    and sig: "sign E priv (cbor_dumps E (PList [PInt (int ?n), PInt now, PBytes pub,
      PBytes (hash_bytes E entry), PBytes (last_hash (t_log D))])) = Inr sig"
    using new_entry_shape [OF assms(3,4) new] by blast
  have "go_of r = \<lparr> ge_seq = of_nat ?n, ge_timestamp = of_int now, ge_signer = pub,
      ge_entry_hash = hash_bytes E entry, ge_prev_hash = last_hash (t_log D), ge_signature = sig,
      ge_payload = Some entry \<rparr>"
    by (simp add: r go_of_def)
  moreover have "sign G priv (signatureMessage G (of_nat ?n) (of_int now) pub (hash_bytes E entry) (last_hash (t_log D))) = Inr sig"
    using sig agreeD(4) [OF assms(2)] by (simp add: signatureMessage_def sint agreeD(6) [OF assms(2)])
  ultimately show ?thesis
    by (simp add: appendInBatch_def Let_def len prev agreeD(1) [OF assms(2)] log_writes_def r)
qed

lemma graph_held_ins_log: "graph_held P d D L \<Longrightarrow> graph_held P d (ins_log r D) L"
  by (simp add: graph_held_def positions_fit_def graph_bindings_def)

text \<open>Committing an entry, alone or with an edge.\<close>

lemma log_fits_append:
  assumes "log_held P G d D" and "length (t_log D) + 1 < 2 ^ 63" and "int64_range (le_timestamp_ns r)"
  shows "log_fits (t_log D @ [r])"
  using assms(2,3) log_heldD(3) [OF assms(1)] by (auto simp: log_fits_def)

lemma log_held_append:
  assumes "log_held P G d D" and "length (t_log D) + 1 < 2 ^ 63" and "int64_range (le_timestamp_ns r)"
    and "le_seq r = int (length (t_log D))"
  shows "log_held P G (pb_commit P (log_writes G r) d) (ins_log r D)"
  using graph_held_ins_log [OF graph_held_log [OF log_heldD(1) [OF assms(1)] log_writes_ok(1,2) [of G r]], of r]
    log_fits_append [OF assms(1-3)] log_bindings_append [OF log_heldD(2) [OF assms(1)] assms(4), of G]
  by (simp add: log_held_def)

lemma log_held_edge:
  assumes "log_held P G d D" and "length (t_log D) + 1 < 2 ^ 63" and "int64_range (le_timestamp_ns r)"
    and "le_seq r = int (length (t_log D))" and "consistent_with D e ps c"
    and "hash34 e" "hash34 c" "list_all hash34 ps" and "length ps < 2 ^ 63"
  shows "log_held P G (pb_commit P (RegisterEdge e ps c [] @ log_writes G r) d) (ins_log r (register_edge_db e ps c D))"
  using graph_held_ins_log [OF graph_held_register [OF log_heldD(1) [OF assms(1)] assms(5-9) log_writes_ok(1,2) [of G r]], of r]
    log_fits_append [OF assms(1-3)] log_bindings_append [OF log_heldD(2) [OF assms(1)] assms(4), of G]
  by (simp add: log_held_def)

lemma graph_writes_edge: "graph_writes (RegisterEdge e ps c [])"
  by (auto simp: graph_writes_def set_RegisterEdge key_defs)
end
