(* ===== verification/Go_Service.thy ===== *)
theory Go_Service
  imports Go_Log
begin

text \<open>
  \<^verbatim>\<open>go/pkg/storage/object_store.go\<close>, \<^verbatim>\<open>storage.go\<close> and \<^verbatim>\<open>go/pkg/service/service.go\<close>: the daemon's facade over its
  blobs and its Pebble database, and the remote calls, which check their arguments and translate. A call
  answers or gives a status code; its text is not modelled. A \<open>bytes\<close> field that a message leaves out is a
  nil slice, and an empty \<open>bytes\<close> field is left out, except the \<open>optional\<close> one.
\<close>

section \<open>The object store\<close>

definition shardPath :: "hash \<Rightarrow> obj_path" where
  "shardPath h = (take 2 (hex h), hex h)"

definition objects_Put :: "env \<Rightarrow> bytes \<Rightarrow> object_store \<Rightarrow> object_store \<times> hash" where
  "objects_Put G data s =
     (let h = hash_bytes G data; path = shardPath h in
      if exists_file s path then (s, h) else (s\<lparr>os_files := (os_files s)(path \<mapsto> data)\<rparr>, h))"

definition objects_Get :: "object_store \<Rightarrow> hash \<Rightarrow> bytes option" where
  "objects_Get s h = os_files s (shardPath h)"

definition objects_Has :: "object_store \<Rightarrow> hash \<Rightarrow> bool" where
  "objects_Has s h = exists_file s (shardPath h)"

section \<open>The facade\<close>

record 'd daemon =
  dm_objects :: object_store
  dm_db :: 'd
  dm_priv :: bytes
  dm_pub :: bytes

definition Open :: "'d pebble \<Rightarrow> object_store \<Rightarrow> 'd option \<Rightarrow> bytes \<Rightarrow> bytes \<Rightarrow> 'd daemon" where
  "Open P files db privKey pubKey =
     \<lparr> dm_objects = files, dm_db = (case db of None \<Rightarrow> pb_new P | Some d \<Rightarrow> d), dm_priv = privKey, dm_pub = pubKey \<rparr>"

definition slice :: "bytes option \<Rightarrow> bytes" where
  "slice b = (case b of None \<Rightarrow> [] | Some x \<Rightarrow> x)"

definition put_object :: "env \<Rightarrow> bytes \<Rightarrow> 'd daemon \<Rightarrow> 'd daemon" where
  "put_object G data s = s\<lparr>dm_objects := fst (objects_Put G data (dm_objects s))\<rparr>"

definition CommitEdgeTx ::
    "'d pebble \<Rightarrow> env \<Rightarrow> int64 \<Rightarrow> hash list \<Rightarrow> hash \<Rightarrow> bytes option \<Rightarrow> bytes option \<Rightarrow> 'd daemon \<Rightarrow>
      'd daemon \<times> (hash \<times> go_entry) option" where
  "CommitEdgeTx P G ts premises conclusion edgeData proof_blob s =
     (let edgeHash = hash_bytes G (slice edgeData);
          s1 = put_object G (slice edgeData) s;
          s2 = (case proof_blob of None \<Rightarrow> s1 | Some p \<Rightarrow> put_object G p s1) in
      case appendInBatch P G (dm_priv s2) (dm_pub s2) ts edgeData (dm_db s2)
             (RegisterEdge edgeHash premises conclusion []) of
        None \<Rightarrow> (s2, None)
      | Some (b, entry) \<Rightarrow> (s2\<lparr>dm_db := pb_commit P b (dm_db s2)\<rparr>, Some (edgeHash, entry)))"

section \<open>The service\<close>

datatype rpc_code = InvalidArgument | Internal

type_synonym 'a rpc = "rpc_code + 'a"

definition bind_rpc :: "'a rpc \<Rightarrow> ('a \<Rightarrow> 'b rpc) \<Rightarrow> 'b rpc" where
  "bind_rpc r f = (case r of Inl e \<Rightarrow> Inl e | Inr a \<Rightarrow> f a)"

definition internal :: "'a option \<Rightarrow> 'a rpc" where
  "internal r = (case r of None \<Rightarrow> Inl Internal | Some a \<Rightarrow> Inr a)"

definition service_toHash :: "bytes \<Rightarrow> hash rpc" where
  "service_toHash b = (if length b \<noteq> 34 then Inl InvalidArgument else Inr b)"

fun each_toHash :: "bytes list \<Rightarrow> hash list rpc" where
  "each_toHash [] = Inr []"
| "each_toHash (b # bs) = bind_rpc (service_toHash b) (\<lambda>h. bind_rpc (each_toHash bs) (\<lambda>hs. Inr (h # hs)))"

text \<open>A field without presence: empty bytes arrive as a nil slice.\<close>

definition received :: "bytes \<Rightarrow> bytes option" where
  "received b = (if b = [] then None else Some b)"

fun PutObject :: "env \<Rightarrow> bytes list \<Rightarrow> 'd daemon \<Rightarrow> 'd daemon \<times> hash list" where
  "PutObject G [] s = (s, [])"
| "PutObject G (data # ds) s =
     (let (s', hs) = PutObject G ds (put_object G data s) in (s', hash_bytes G data # hs))"

text \<open>Blobs, empty where nothing was found, and which were found.\<close>

definition GetObject :: "bytes list \<Rightarrow> 'd daemon \<Rightarrow> (bytes list \<times> bool list) rpc" where
  "GetObject hashes s =
     bind_rpc (each_toHash hashes) (\<lambda>hs.
       Inr (map (\<lambda>h. slice (objects_Get (dm_objects s) h)) hs,
            map (\<lambda>h. objects_Get (dm_objects s) h \<noteq> None) hs))"

definition HasObject :: "bytes list \<Rightarrow> 'd daemon \<Rightarrow> bool list rpc" where
  "HasObject hashes s = bind_rpc (each_toHash hashes) (\<lambda>hs. Inr (map (objects_Has (dm_objects s)) hs))"

definition svc_RegisterNode :: "'d pebble \<Rightarrow> bytes \<Rightarrow> 'd daemon \<Rightarrow> 'd daemon \<times> unit rpc" where
  "svc_RegisterNode P nodeHash s =
     (case service_toHash nodeHash of
        Inl e \<Rightarrow> (s, Inl e)
      | Inr node \<Rightarrow> (s\<lparr>dm_db := RegisterNodeTx P node (dm_db s)\<rparr>, Inr ()))"

definition svc_RegisterEdge ::
    "'d pebble \<Rightarrow> bytes \<Rightarrow> bytes list \<Rightarrow> bytes \<Rightarrow> 'd daemon \<Rightarrow> 'd daemon \<times> unit rpc" where
  "svc_RegisterEdge P edgeHash premises conclusion s =
     (case bind_rpc (service_toHash edgeHash) (\<lambda>edge.
           bind_rpc (service_toHash conclusion) (\<lambda>c.
           bind_rpc (each_toHash premises) (\<lambda>ps. Inr (edge, ps, c)))) of
        Inl e \<Rightarrow> (s, Inl e)
      | Inr (edge, ps, c) \<Rightarrow> (s\<lparr>dm_db := RegisterEdgeTx P edge ps c (dm_db s)\<rparr>, Inr ()))"

definition svc_GetConnectivity :: "'d pebble \<Rightarrow> bytes \<Rightarrow> 'd daemon \<Rightarrow> (hash list \<times> bytes \<times> bool) rpc" where
  "svc_GetConnectivity P edgeHash s =
     bind_rpc (service_toHash edgeHash) (\<lambda>edge.
       case GetConnectivity P (dm_db s) edge of
         (premises, conclusion, found) \<Rightarrow> Inr (if found then (premises, conclusion, True) else ([], [], False)))"

definition svc_IncomingEdges :: "'d pebble \<Rightarrow> bytes \<Rightarrow> 'd daemon \<Rightarrow> hash list rpc" where
  "svc_IncomingEdges P nodeHash s =
     bind_rpc (service_toHash nodeHash) (\<lambda>node. Inr (IncomingEdges P (dm_db s) node))"

definition svc_OutgoingEdges :: "'d pebble \<Rightarrow> bytes \<Rightarrow> 'd daemon \<Rightarrow> hash list rpc" where
  "svc_OutgoingEdges P nodeHash s =
     bind_rpc (service_toHash nodeHash) (\<lambda>node. Inr (OutgoingEdges P (dm_db s) node))"

definition svc_AllNodes :: "'d pebble \<Rightarrow> 'd daemon \<Rightarrow> hash list" where
  "svc_AllNodes P s = AllNodes P (dm_db s)"

definition svc_AllEdges :: "'d pebble \<Rightarrow> 'd daemon \<Rightarrow> hash list" where
  "svc_AllEdges P s = AllEdges P (dm_db s)"

definition svc_Append :: "'d pebble \<Rightarrow> env \<Rightarrow> int64 \<Rightarrow> bytes \<Rightarrow> 'd daemon \<Rightarrow> 'd daemon \<times> go_entry rpc" where
  "svc_Append P G ts entry s =
     (case Append P G (dm_priv s) (dm_pub s) ts (received entry) (dm_db s) of
        (d, r) \<Rightarrow> (s\<lparr>dm_db := d\<rparr>, internal r))"

definition svc_GetEntry :: "'d pebble \<Rightarrow> env \<Rightarrow> int64 \<Rightarrow> 'd daemon \<Rightarrow> go_entry option rpc" where
  "svc_GetEntry P G seq s = internal (Get P G (dm_db s) seq)"

definition svc_RootHash :: "'d pebble \<Rightarrow> env \<Rightarrow> 'd daemon \<Rightarrow> hash rpc" where
  "svc_RootHash P G s = internal (RootHash P G (dm_db s))"

definition svc_InclusionProof :: "'d pebble \<Rightarrow> env \<Rightarrow> int64 \<Rightarrow> 'd daemon \<Rightarrow> inclusion option rpc" where
  "svc_InclusionProof P G seq s =
     (if sint seq < 0 \<or> sint (Len P (dm_db s)) \<le> sint seq then Inr None
      else bind_rpc (internal (GetInclusionProof P G (dm_db s) seq)) (\<lambda>p. Inr (Some p)))"

definition svc_Len :: "'d pebble \<Rightarrow> 'd daemon \<Rightarrow> int64" where
  "svc_Len P s = Len P (dm_db s)"

definition svc_CommitEdge ::
    "'d pebble \<Rightarrow> env \<Rightarrow> int64 \<Rightarrow> bytes list \<Rightarrow> bytes \<Rightarrow> bytes \<Rightarrow> bytes option \<Rightarrow> 'd daemon \<Rightarrow>
      'd daemon \<times> (hash \<times> go_entry) rpc" where
  "svc_CommitEdge P G ts premises conclusion edge_data proof_blob s =
     (case bind_rpc (service_toHash conclusion) (\<lambda>c. bind_rpc (each_toHash premises) (\<lambda>ps. Inr (ps, c))) of
        Inl e \<Rightarrow> (s, Inl e)
      | Inr (ps, c) \<Rightarrow>
          (case CommitEdgeTx P G ts ps c (received edge_data) proof_blob s of (s', r) \<Rightarrow> (s', internal r)))"

section \<open>Facts\<close>

lemma rpc_simps [simp]:
  "bind_rpc (Inl e) f = Inl e" "bind_rpc (Inr a) f = f a"
  "internal None = Inl Internal" "internal (Some a) = Inr a"
  "slice None = []" "slice (Some b) = b"
  by (simp_all add: bind_rpc_def internal_def slice_def)

lemma service_toHash_ok [simp]: "length b = 34 \<Longrightarrow> service_toHash b = Inr b"
  by (simp add: service_toHash_def)

lemma each_toHash_ok: "list_all hash34 bs \<Longrightarrow> each_toHash bs = Inr bs"
  by (induction bs) (simp_all add: hash34_def)

lemma shardPath_inject [simp]: "shardPath h = shardPath h' \<longleftrightarrow> h = h'"
  by (auto simp: shardPath_def hex_inject)

lemma objects_Get_Put:
  "objects_Get (fst (objects_Put G data s)) h =
     (if h = hash_bytes G data \<and> objects_Get s h = None then Some data else objects_Get s h)"
  by (auto simp: objects_Get_def objects_Put_def Let_def exists_file_def)

lemma objects_Has_Get: "objects_Has s h \<longleftrightarrow> objects_Get s h \<noteq> None"
  by (simp add: objects_Has_def exists_file_def objects_Get_def)

lemma objects_Put_hash [simp]: "snd (objects_Put G data s) = hash_bytes G data"
  by (simp add: objects_Put_def Let_def)

lemma put_object_simps [simp]:
  "dm_db (put_object G data s) = dm_db s" "dm_priv (put_object G data s) = dm_priv s"
  "dm_pub (put_object G data s) = dm_pub s"
  by (simp_all add: put_object_def)

text \<open>The daemon's blobs satisfy the contract of a content-addressed store.\<close>

definition objects_addressed :: "env \<Rightarrow> object_store \<Rightarrow> bool" where
  "objects_addressed G s \<longleftrightarrow> (\<forall>h d. objects_Get s h = Some d \<longrightarrow> h = hash_bytes G d)"

interpretation go_blobs: content_store "hash_bytes G" "objects_Put G" objects_Get objects_Has "objects_addressed G"
  for G
  by unfold_locales (simp_all add: objects_Get_Put objects_Has_Get objects_addressed_def)

lemma files_put:
  "os_files (fst (put E d s)) p = Some x \<Longrightarrow> os_files s p = Some x \<or> p = path_of (hash_bytes E d)"
  "os_files (dm_objects (put_object E d dm)) p = Some x \<Longrightarrow>
     os_files (dm_objects dm) p = Some x \<or> p = shardPath (hash_bytes E d)"
  by (auto simp: put_def put_object_def objects_Put_def Let_def split: if_splits)

lemma python_paths:
  assumes "blake3_spec E"
  shows "os_files (fst (put_batch E ds s)) p = Some x \<Longrightarrow> os_files s p = Some x \<or> length (snd p) = 66"
proof (induction ds arbitrary: s)
  case (Cons d ds)
  have "fst (put_batch E (d # ds) s) = fst (put_batch E ds (fst (put E d s)))"
    by (simp add: Let_def split: prod.splits)
  with Cons.prems have "os_files (fst (put_batch E ds (fst (put E d s)))) p = Some x" by simp
  from Cons.IH [OF this] files_put(1) [of E d s p x] show ?case
    by (auto simp: path_of_def length_hex length_hash_bytes [OF assms])
qed simp

lemma go_paths:
  assumes "blake3_spec G"
  shows "os_files (dm_objects (fst (PutObject G ds s))) p = Some x \<Longrightarrow>
    os_files (dm_objects s) p = Some x \<or> length (snd p) = 68"
proof (induction ds arbitrary: s)
  case (Cons d ds)
  then have "os_files (dm_objects (fst (PutObject G ds (put_object G d s)))) p = Some x"
    by (simp add: split_beta)
  from Cons.IH [OF this] files_put(2) [of G d s p x] show ?case
    by (auto simp: shardPath_def length_hex length_hash_bytes [OF assms])
qed simp

text \<open>No backend reads the blobs of the other: whatever the Python store has written into an empty directory,
  the Go store finds no address in it, and the other way round, because the Go file name repeats the two
  shard digits that the Python file name leaves out; the Go package says its layout is the Python one.\<close>

theorem backends_do_not_share_blobs:
  assumes "blake3_spec E" and "blake3_spec G" and "length h = 34"
  shows "objects_Get (fst (put_batch E ds empty_store)) h = None \<and>
    get (dm_objects (fst (PutObject G ds (Open P empty_store db priv pub)))) h = None"
proof
  have len: "length (snd (shardPath h)) = 68" "length (snd (path_of h)) = 66"
    using assms(3) by (simp_all add: shardPath_def path_of_def length_hex)
  show "objects_Get (fst (put_batch E ds empty_store)) h = None"
    using python_paths [OF assms(1), of ds empty_store "shardPath h"] len
    by (cases "objects_Get (fst (put_batch E ds empty_store)) h") (simp_all add: objects_Get_def empty_store_def)
  let ?os = "dm_objects (fst (PutObject G ds (Open P empty_store db priv pub)))"
  show "get ?os h = None"
    using go_paths [OF assms(2), of ds "Open P empty_store db priv pub" "path_of h"] len
    by (cases "get ?os h") (simp_all add: get_eq empty_store_def Open_def)
qed

theorem backends_do_not_share_blobs_witness:
  "objects_Get (fst (put_batch ref_env [[1, 2, 3]] empty_store)) (hash_bytes ref_env [1, 2, 3]) = None \<and>
   get (dm_objects (fst (PutObject ref_env [[1, 2, 3]] (Open list_pebble empty_store None sample_key sample_key))))
     (hash_bytes ref_env [1, 2, 3]) = None"
  by (rule backends_do_not_share_blobs [OF ref_env_blake3 ref_env_blake3 length_hash_bytes [OF ref_env_blake3]])

end
