(* ===== verification/Grpc_Client.thy ===== *)
theory Grpc_Client
  imports Go_Service
begin

text \<open>
  \<^verbatim>\<open>storage/grpc_client.py\<close>: the storage interface of the in-process backend, every operation a remote call to
  the daemon. A call passes the state of the daemon and returns it; a status code is the exception
  \<open>RpcError\<close>. Hashes in an answer go through the \<open>Hash\<close> constructor, and a number that is no \<open>int64\<close> is
  refused by the message before the call. The channel itself does not fail in the model.
\<close>

section \<open>Messages\<close>

definition RpcError :: py_error where
  "RpcError = OtherError (str ''RpcError'')"

definition rpc :: "'a rpc \<Rightarrow> 'a res" where
  "rpc r = (case r of Inl e \<Rightarrow> Inl RpcError | Inr a \<Rightarrow> Inr a)"

definition int64_field :: "int \<Rightarrow> int64 res" where
  "int64_field i = (if int64_range i then Inr (of_int i) else Inl ValueError)"

definition grpc_signature_message :: "env \<Rightarrow> int \<Rightarrow> int \<Rightarrow> bytes \<Rightarrow> hash \<Rightarrow> hash \<Rightarrow> bytes res" where
  "grpc_signature_message E seq timestamp_ns signer_pubkey entry_hash prev_log_hash =
     canonical_encode E
       (PList [PInt seq, PInt timestamp_ns, PBytes signer_pubkey, PBytes entry_hash, PBytes prev_log_hash])"

definition log_entry_from_proto :: "go_entry \<Rightarrow> log_entry res" where
  "log_entry_from_proto e =
     and_then (Hash (ge_entry_hash e)) (\<lambda>eh.
     and_then (Hash (ge_prev_hash e)) (\<lambda>ph.
       Inr \<lparr> le_seq = sint (ge_seq e), le_timestamp_ns = sint (ge_timestamp e), le_signer_pubkey = ge_signer e,
             le_entry_hash = eh, le_prev_log_hash = ph, le_signature = ge_signature e,
             le_payload = slice (ge_payload e) \<rparr>))"

section \<open>Objects\<close>

definition grpc_put :: "env \<Rightarrow> bytes \<Rightarrow> 'd daemon \<Rightarrow> 'd daemon \<times> hash res" where
  "grpc_put G data s = (case PutObject G [data] s of (s', hashes) \<Rightarrow> (s', Hash (hashes ! 0)))"

definition grpc_put_batch :: "env \<Rightarrow> bytes list \<Rightarrow> 'd daemon \<Rightarrow> 'd daemon \<times> hash list res" where
  "grpc_put_batch G items s = (case PutObject G items s of (s', hashes) \<Rightarrow> (s', map_res Hash hashes))"

definition grpc_get :: "'d daemon \<Rightarrow> hash \<Rightarrow> bytes option res" where
  "grpc_get s h =
     and_then (rpc (GetObject [h] s)) (\<lambda>(data, found). Inr (if found ! 0 then Some (data ! 0) else None))"

definition grpc_get_batch :: "'d daemon \<Rightarrow> hash list \<Rightarrow> bytes option list res" where
  "grpc_get_batch s hashes =
     and_then (rpc (GetObject hashes s)) (\<lambda>(data, found).
       Inr (map (\<lambda>(d, f). if f then Some d else None) (zip data found)))"

definition grpc_has :: "'d daemon \<Rightarrow> hash \<Rightarrow> bool res" where
  "grpc_has s h = and_then (rpc (HasObject [h] s)) (\<lambda>found. Inr (found ! 0))"

definition grpc_has_batch :: "'d daemon \<Rightarrow> hash list \<Rightarrow> bool list res" where
  "grpc_has_batch s hashes = rpc (HasObject hashes s)"

section \<open>Graph\<close>

definition grpc_register_node :: "'d pebble \<Rightarrow> hash \<Rightarrow> 'd daemon \<Rightarrow> 'd daemon \<times> unit res" where
  "grpc_register_node P node_hash s = (case svc_RegisterNode P node_hash s of (s', r) \<Rightarrow> (s', rpc r))"

definition grpc_register_edge ::
    "'d pebble \<Rightarrow> hash \<Rightarrow> hash list \<Rightarrow> hash \<Rightarrow> 'd daemon \<Rightarrow> 'd daemon \<times> unit res" where
  "grpc_register_edge P eh premises conclusion s =
     (case svc_RegisterEdge P eh premises conclusion s of (s', r) \<Rightarrow> (s', rpc r))"

definition grpc_incoming_edges :: "'d pebble \<Rightarrow> 'd daemon \<Rightarrow> hash \<Rightarrow> hash list res" where
  "grpc_incoming_edges P s node_hash = and_then (rpc (svc_IncomingEdges P node_hash s)) (map_res Hash)"

definition grpc_outgoing_edges :: "'d pebble \<Rightarrow> 'd daemon \<Rightarrow> hash \<Rightarrow> hash list res" where
  "grpc_outgoing_edges P s node_hash = and_then (rpc (svc_OutgoingEdges P node_hash s)) (map_res Hash)"

definition grpc_get_connectivity :: "'d pebble \<Rightarrow> 'd daemon \<Rightarrow> hash \<Rightarrow> (hash list \<times> hash) option res" where
  "grpc_get_connectivity P s eh =
     and_then (rpc (svc_GetConnectivity P eh s)) (\<lambda>(premises, conclusion, found).
       if \<not> found then Inr None
       else and_then (map_res Hash premises) (\<lambda>ps. and_then (Hash conclusion) (\<lambda>c. Inr (Some (ps, c)))))"

definition grpc_all_nodes :: "'d pebble \<Rightarrow> 'd daemon \<Rightarrow> hash list res" where
  "grpc_all_nodes P s = map_res Hash (svc_AllNodes P s)"

definition grpc_all_edges :: "'d pebble \<Rightarrow> 'd daemon \<Rightarrow> hash list res" where
  "grpc_all_edges P s = map_res Hash (svc_AllEdges P s)"

section \<open>Log\<close>

text \<open>The daemon stamps the entry with its own clock.\<close>

definition grpc_log_append ::
    "'d pebble \<Rightarrow> env \<Rightarrow> int64 \<Rightarrow> bytes \<Rightarrow> 'd daemon \<Rightarrow> 'd daemon \<times> log_entry res" where
  "grpc_log_append P G ts entry s =
     (case svc_Append P G ts entry s of (s', r) \<Rightarrow> (s', and_then (rpc r) log_entry_from_proto))"

definition grpc_log_get :: "'d pebble \<Rightarrow> env \<Rightarrow> 'd daemon \<Rightarrow> int \<Rightarrow> log_entry option res" where
  "grpc_log_get P G s seq =
     and_then (int64_field seq) (\<lambda>i.
     and_then (rpc (svc_GetEntry P G i s)) (\<lambda>entry.
       case entry of
         None \<Rightarrow> Inr None
       | Some e \<Rightarrow> and_then (log_entry_from_proto e) (\<lambda>r. Inr (Some r))))"

definition grpc_log_len :: "'d pebble \<Rightarrow> 'd daemon \<Rightarrow> int" where
  "grpc_log_len P s = sint (svc_Len P s)"

definition grpc_log_root_hash :: "'d pebble \<Rightarrow> env \<Rightarrow> 'd daemon \<Rightarrow> hash res" where
  "grpc_log_root_hash P G s = and_then (rpc (svc_RootHash P G s)) Hash"

definition grpc_get_inclusion_proof :: "'d pebble \<Rightarrow> env \<Rightarrow> 'd daemon \<Rightarrow> int \<Rightarrow> inclusion res" where
  "grpc_get_inclusion_proof P G s seq =
     and_then (int64_field seq) (\<lambda>i.
     and_then (rpc (svc_InclusionProof P G i s)) (\<lambda>resp.
       case resp of
         None \<Rightarrow> Inl IndexError
       | Some p \<Rightarrow>
           and_then (Hash (ip_leaf_hash p)) (\<lambda>leaf.
           and_then (map_res Hash (ip_path p)) (\<lambda>path.
             Inr \<lparr> ip_leaf_hash = leaf, ip_index = ip_index p, ip_path = path \<rparr>))))"

definition grpc_verify_entry :: "env \<Rightarrow> log_entry \<Rightarrow> bool res" where
  "grpc_verify_entry E entry =
     (if hash_bytes E (le_payload entry) \<noteq> le_entry_hash entry then Inr False
      else
        and_then
          (grpc_signature_message E (le_seq entry) (le_timestamp_ns entry) (le_signer_pubkey entry)
             (le_entry_hash entry) (le_prev_log_hash entry))
          (\<lambda>message. verify_sig E (le_signer_pubkey entry) message (le_signature entry)))"

lemma grpc_verify_entry_eq: "grpc_verify_entry E r = verify_entry E r"
  by (simp add: grpc_verify_entry_def verify_entry_def grpc_signature_message_def signature_message_def)

section \<open>The facade\<close>

definition grpc_commit_edge_tx ::
    "'d pebble \<Rightarrow> env \<Rightarrow> int64 \<Rightarrow> hash list \<Rightarrow> hash \<Rightarrow> bytes \<Rightarrow> bytes option \<Rightarrow> 'd daemon \<Rightarrow>
      'd daemon \<times> (hash \<times> log_entry) res" where
  "grpc_commit_edge_tx P G ts premises conclusion edge_data proof_blob s =
     (case svc_CommitEdge P G ts premises conclusion edge_data proof_blob s of
        (s', r) \<Rightarrow>
          (s', and_then (rpc r) (\<lambda>(eh, entry).
                 and_then (Hash eh) (\<lambda>h. and_then (log_entry_from_proto entry) (\<lambda>e. Inr (h, e))))))"

definition grpc_reader :: "'d pebble \<Rightarrow> env \<Rightarrow> 'd daemon \<Rightarrow> reader" where
  "grpc_reader P G s =
     \<lparr> rd_get = grpc_get s,
       rd_all_nodes = grpc_all_nodes P s,
       rd_all_edges = grpc_all_edges P s,
       rd_incoming = grpc_incoming_edges P s,
       rd_log_len = Inr (grpc_log_len P s),
       rd_log_get = grpc_log_get P G s,
       rd_log_root = grpc_log_root_hash P G s \<rparr>"

lemma grpc_reader_simps [simp]:
  "rd_get (grpc_reader P G s) h = grpc_get s h"
  "rd_all_nodes (grpc_reader P G s) = grpc_all_nodes P s"
  "rd_all_edges (grpc_reader P G s) = grpc_all_edges P s"
  "rd_incoming (grpc_reader P G s) h = grpc_incoming_edges P s h"
  "rd_log_len (grpc_reader P G s) = Inr (grpc_log_len P s)"
  "rd_log_get (grpc_reader P G s) i = grpc_log_get P G s i"
  "rd_log_root (grpc_reader P G s) = grpc_log_root_hash P G s"
  by (simp_all add: grpc_reader_def)

end
