(* ===== verification/Backend_Parity.thy ===== *)
theory Backend_Parity
  imports Grpc_Client
begin

text \<open>
  The two backends side by side. A storage client makes calls; \<open>sqlite_call\<close> and \<open>grpc_call\<close> answer one call
  on the in-process storage and through the daemon. \<open>mirrors\<close> relates a storage to a daemon that holds the
  same blobs, tables and log; the locale \<open>lockstep\<close> says once what follows for any program of calls, and its
  interpretation on the two backends is the refinement.
\<close>

section \<open>Programs of calls\<close>

datatype ('c, 'a, 'r) prog = Return 'r | Call 'c "'a \<Rightarrow> ('c, 'a, 'r) prog"

primrec exec :: "('c \<Rightarrow> 's \<Rightarrow> 's \<times> 'a) \<Rightarrow> ('c, 'a, 'r) prog \<Rightarrow> 's \<Rightarrow> 's \<times> 'r" where
  "exec step (Return r) s = (s, r)"
| "exec step (Call c k) s = (case step c s of (s', a) \<Rightarrow> exec step (k a) s')"

text \<open>Every call of a run is one that \<open>ok\<close> allows in the state it is made in.\<close>

primrec safe :: "('c \<Rightarrow> 's \<Rightarrow> 's \<times> 'a) \<Rightarrow> ('s \<Rightarrow> 'c \<Rightarrow> bool) \<Rightarrow> ('c, 'a, 'r) prog \<Rightarrow> 's \<Rightarrow> bool" where
  "safe step ok (Return r) s = True"
| "safe step ok (Call c k) s = (ok s c \<and> safe step ok (k (snd (step c s))) (fst (step c s)))"

locale lockstep =
  fixes step1 :: "'c \<Rightarrow> 's \<Rightarrow> 's \<times> 'a"
    and step2 :: "'c \<Rightarrow> 't \<Rightarrow> 't \<times> 'a"
    and rel :: "'s \<Rightarrow> 't \<Rightarrow> bool"
    and ok :: "'s \<Rightarrow> 'c \<Rightarrow> bool"
  assumes step: "rel s t \<Longrightarrow> ok s c \<Longrightarrow>
      snd (step2 c t) = snd (step1 c s) \<and> rel (fst (step1 c s)) (fst (step2 c t))"
begin

lemma exec_agrees:
  "rel s t \<Longrightarrow> safe step1 ok p s \<Longrightarrow>
     snd (exec step2 p t) = snd (exec step1 p s) \<and> rel (fst (exec step1 p s)) (fst (exec step2 p t))"
proof (induction p arbitrary: s t)
  case (Call c k)
  from step [OF Call.prems(1), of c] Call.prems(2)
  have "snd (step2 c t) = snd (step1 c s)" "rel (fst (step1 c s)) (fst (step2 c t))" by simp_all
  moreover have "snd (exec step2 (k (snd (step1 c s))) (fst (step2 c t))) = snd (exec step1 (k (snd (step1 c s))) (fst (step1 c s))) \<and>
      rel (fst (exec step1 (k (snd (step1 c s))) (fst (step1 c s)))) (fst (exec step2 (k (snd (step1 c s))) (fst (step2 c t))))"
    using Call.prems(2) by (intro Call.IH [OF rangeI] calculation) simp
  ultimately show ?case by (simp add: split_beta)
qed simp

end

section \<open>The calls of a storage client\<close>

datatype storage_call =
    C_put bytes | C_put_batch "bytes list" | C_get hash | C_get_batch "hash list" | C_has hash
  | C_has_batch "hash list" | C_register_node hash | C_register_edge hash "hash list" hash
  | C_incoming hash | C_connectivity hash | C_all_nodes | C_all_edges
  | C_append int bytes | C_log_get int | C_log_len | C_log_root | C_inclusion int
  | C_commit int "hash list" hash bytes "bytes option"

datatype storage_answer =
    A_done | A_hash hash | A_hashes "hash list" | A_blob "bytes option" | A_blobs "bytes option list"
  | A_bool bool | A_bools "bool list" | A_connectivity "(hash list \<times> hash) option" | A_entry log_entry
  | A_found "log_entry option" | A_int int | A_proof inclusion | A_commit "hash \<times> log_entry"

definition reply :: "('a \<Rightarrow> storage_answer) \<Rightarrow> 'a res \<Rightarrow> storage_answer res" where
  "reply f r = and_then r (\<lambda>a. Inr (f a))"

fun sqlite_call :: "env \<Rightarrow> storage_call \<Rightarrow> storage \<Rightarrow> storage \<times> storage_answer res" where
  "sqlite_call E (C_put d) s = (put_blob E d s, Inr (A_hash (snd (put E d (st_objects s)))))"
| "sqlite_call E (C_put_batch ds) s =
     (case put_batch E ds (st_objects s) of (os, hs) \<Rightarrow> (s\<lparr>st_objects := os\<rparr>, Inr (A_hashes hs)))"
| "sqlite_call E (C_get h) s = (s, Inr (A_blob (get (st_objects s) h)))"
| "sqlite_call E (C_get_batch hs) s = (s, Inr (A_blobs (get_batch (st_objects s) hs)))"
| "sqlite_call E (C_has h) s = (s, Inr (A_bool (has (st_objects s) h)))"
| "sqlite_call E (C_has_batch hs) s = (s, Inr (A_bools (has_batch (st_objects s) hs)))"
| "sqlite_call E (C_register_node n) s = (s\<lparr>st_conn := register_node False n (st_conn s)\<rparr>, Inr A_done)"
| "sqlite_call E (C_register_edge e ps c) s =
     (s\<lparr>st_conn := register_edge False e ps c (st_conn s)\<rparr>, Inr A_done)"
| "sqlite_call E (C_incoming n) s = (s, reply A_hashes (incoming_edges (st_conn s) n))"
| "sqlite_call E (C_connectivity e) s = (s, reply A_connectivity (get_connectivity (st_conn s) e))"
| "sqlite_call E C_all_nodes s = (s, reply A_hashes (all_nodes (st_conn s)))"
| "sqlite_call E C_all_edges s = (s, reply A_hashes (all_edges (st_conn s)))"
| "sqlite_call E (C_append now x) s =
     (case log_append False E (st_priv s) (st_pub s) now x (st_conn s) of
        (c, r) \<Rightarrow> (s\<lparr>st_conn := c\<rparr>, reply A_entry r))"
| "sqlite_call E (C_log_get i) s = (s, reply A_found (log_get (st_conn s) i))"
| "sqlite_call E C_log_len s = (s, Inr (A_int (log_len (st_conn s))))"
| "sqlite_call E C_log_root s = (s, reply A_hash (log_root_hash E (st_conn s)))"
| "sqlite_call E (C_inclusion i) s = (s, reply A_proof (get_inclusion_proof E (st_conn s) i))"
| "sqlite_call E (C_commit now ps c data p) s =
     (case commit_edge_tx E now ps c data p s of (s', r) \<Rightarrow> (s', reply A_commit r))"

fun grpc_call :: "'d pebble \<Rightarrow> env \<Rightarrow> storage_call \<Rightarrow> 'd daemon \<Rightarrow> 'd daemon \<times> storage_answer res" where
  "grpc_call P G (C_put d) s = (case grpc_put G d s of (s', r) \<Rightarrow> (s', reply A_hash r))"
| "grpc_call P G (C_put_batch ds) s = (case grpc_put_batch G ds s of (s', r) \<Rightarrow> (s', reply A_hashes r))"
| "grpc_call P G (C_get h) s = (s, reply A_blob (grpc_get s h))"
| "grpc_call P G (C_get_batch hs) s = (s, reply A_blobs (grpc_get_batch s hs))"
| "grpc_call P G (C_has h) s = (s, reply A_bool (grpc_has s h))"
| "grpc_call P G (C_has_batch hs) s = (s, reply A_bools (grpc_has_batch s hs))"
| "grpc_call P G (C_register_node n) s =
     (case grpc_register_node P n s of (s', r) \<Rightarrow> (s', reply (\<lambda>_. A_done) r))"
| "grpc_call P G (C_register_edge e ps c) s =
     (case grpc_register_edge P e ps c s of (s', r) \<Rightarrow> (s', reply (\<lambda>_. A_done) r))"
| "grpc_call P G (C_incoming n) s = (s, reply A_hashes (grpc_incoming_edges P s n))"
| "grpc_call P G (C_connectivity e) s = (s, reply A_connectivity (grpc_get_connectivity P s e))"
| "grpc_call P G C_all_nodes s = (s, reply A_hashes (grpc_all_nodes P s))"
| "grpc_call P G C_all_edges s = (s, reply A_hashes (grpc_all_edges P s))"
| "grpc_call P G (C_append now x) s =
     (case grpc_log_append P G (of_int now) x s of (s', r) \<Rightarrow> (s', reply A_entry r))"
| "grpc_call P G (C_log_get i) s = (s, reply A_found (grpc_log_get P G s i))"
| "grpc_call P G C_log_len s = (s, Inr (A_int (grpc_log_len P s)))"
| "grpc_call P G C_log_root s = (s, reply A_hash (grpc_log_root_hash P G s))"
| "grpc_call P G (C_inclusion i) s = (s, reply A_proof (grpc_get_inclusion_proof P G s i))"
| "grpc_call P G (C_commit now ps c data p) s =
     (case grpc_commit_edge_tx P G (of_int now) ps c data p s of (s', r) \<Rightarrow> (s', reply A_commit r))"

section \<open>Mirrored states\<close>

definition mirrors :: "'d pebble \<Rightarrow> env \<Rightarrow> env \<Rightarrow> storage \<Rightarrow> 'd daemon \<Rightarrow> bool" where
  "mirrors P E G s d \<longleftrightarrow>
     libraries_agree E G \<and> blake3_spec E \<and> ed25519_spec E \<and>
     pending (st_conn s) = None \<and> autocommit (st_conn s) \<and>
     log_held P G (dm_db d) (committed (st_conn s)) \<and> log_ok E (committed (st_conn s)) \<and>
     (\<forall>h. length h = 34 \<longrightarrow> objects_Get (dm_objects d) h = get (st_objects s) h) \<and>
     length (st_priv s) = 32 \<and> st_pub s = ed_public E (st_priv s) \<and>
     dm_priv d = st_priv s \<and> dm_pub d = st_pub s"

lemma mirrorsD:
  assumes "mirrors P E G s d"
  shows "libraries_agree E G" and "blake3_spec E" and "ed25519_spec E"
    and "pending (st_conn s) = None" and "autocommit (st_conn s)"
    and "log_held P G (dm_db d) (committed (st_conn s))" and "log_ok E (committed (st_conn s))"
    and "length h = 34 \<Longrightarrow> objects_Get (dm_objects d) h = get (st_objects s) h"
    and "length (st_priv s) = 32" and "st_pub s = ed_public E (st_priv s)"
    and "dm_priv d = st_priv s" and "dm_pub d = st_pub s" and "view (st_conn s) = committed (st_conn s)"
  using assms by (simp_all add: mirrors_def view_def)

text \<open>
  The calls on which the backends are meant to agree: hashes are hashes, an edge is registered with one
  connectivity, an entry is not empty, and numbers fit into the fields of the messages.
\<close>

definition log_has_room :: "db \<Rightarrow> bool" where
  "log_has_room D \<longleftrightarrow> length (t_log D) + 1 < 2 ^ 63"

definition edge_fits :: "db \<Rightarrow> hash \<Rightarrow> hash list \<Rightarrow> hash \<Rightarrow> bool" where
  "edge_fits D e ps c \<longleftrightarrow> hash34 e \<and> list_all hash34 ps \<and> hash34 c \<and> length ps < 2 ^ 63 \<and> consistent_with D e ps c"

fun admissible :: "env \<Rightarrow> db \<Rightarrow> storage_call \<Rightarrow> bool" where
  "admissible E D (C_get h) = hash34 h"
| "admissible E D (C_get_batch hs) = list_all hash34 hs"
| "admissible E D (C_has h) = hash34 h"
| "admissible E D (C_has_batch hs) = list_all hash34 hs"
| "admissible E D (C_register_node n) = hash34 n"
| "admissible E D (C_register_edge e ps c) = edge_fits D e ps c"
| "admissible E D (C_incoming n) = hash34 n"
| "admissible E D (C_connectivity e) = hash34 e"
| "admissible E D (C_append now x) = (int64_range now \<and> x \<noteq> [] \<and> log_has_room D)"
| "admissible E D (C_log_get i) = int64_range i"
| "admissible E D (C_inclusion i) = int64_range i"
| "admissible E D (C_commit now ps c data p) =
     (int64_range now \<and> data \<noteq> [] \<and> log_has_room D \<and> edge_fits D (hash_bytes E data) ps c)"
| "admissible E D c = True"

section \<open>Objects\<close>

lemma mirrors_objects:
  assumes "mirrors P E G s d"
  shows "mirrors P E G (put_blob E x s) (put_object G x d)"
  using assms agreeD(1) [of E G x] unfolding mirrors_def
  by (auto simp: get_put_blob put_object_def objects_Get_Put length_hash_bytes)

lemma PutObject_eq:
  "PutObject G ds d = (fold (put_object G) ds d, map (hash_bytes G) ds)"
  by (induction ds arbitrary: d) simp_all

lemma mirrors_batch:
  "mirrors P E G s d \<Longrightarrow> mirrors P E G (s\<lparr>st_objects := fst (put_batch E ds (st_objects s))\<rparr>) (fold (put_object G) ds d)"
proof (induction ds arbitrary: s d)
  case (Cons x ds)
  have "put_blob E x s\<lparr>st_objects := os\<rparr> = s\<lparr>st_objects := os\<rparr>" for os by (simp add: put_blob_def)
  with Cons.IH [OF mirrors_objects [OF Cons.prems, of x]] show ?case
    by (simp add: put_batch_eq put_blob_def)
qed simp

lemma map_res_Hash_bytes: "blake3_spec E \<Longrightarrow> map_res Hash (map (hash_bytes E) ds) = Inr (map (hash_bytes E) ds)"
  by (rule map_res_Hash) (simp add: list_all_iff hash34_def length_hash_bytes)

lemma sim_objects:
  assumes m: "mirrors P E G s d" and "admissible E (committed (st_conn s)) c"
    and "c \<in> {C_put x, C_put_batch ds, C_get h, C_get_batch hs, C_has h, C_has_batch hs}"
  shows "snd (grpc_call P G c d) = snd (sqlite_call E c s) \<and> mirrors P E G (fst (sqlite_call E c s)) (fst (grpc_call P G c d))"
proof -
  note h = agreeD(1) [OF mirrorsD(1) [OF m]] and b = mirrorsD(2) [OF m]
  have got: "objects_Get (dm_objects d) h = get (st_objects s) h" if "hash34 h" for h
    using mirrorsD(8) [OF m] that by (simp add: hash34_def)
  have had: "objects_Has (dm_objects d) h = has (st_objects s) h" if "hash34 h" for h
    by (simp add: objects_Has_Get got [OF that] blobs.present_iff)
  have zip: "map (\<lambda>(d, f). if f then Some d else None)
      (zip (map (\<lambda>h. slice (objects_Get (dm_objects d) h)) hs) (map (\<lambda>h. objects_Get (dm_objects d) h \<noteq> None) hs)) =
      get_batch (st_objects s) hs" if "list_all hash34 hs"
    using that by (induction hs) (auto simp: get_batch_def got split: option.splits)
  from assms(3) consider "c = C_put x" | "c = C_put_batch ds" | "c = C_get h" | "c = C_get_batch hs"
    | "c = C_has h" | "c = C_has_batch hs" by auto
  then show ?thesis
  proof cases
    case 1
    then show ?thesis
      using mirrors_objects [OF m, of x]
      by (simp add: grpc_put_def reply_def h Hash_hash_bytes [OF b] blobs.store_addr)
  next
    case 2
    then show ?thesis
      using mirrors_batch [OF m, of ds] map_res_Hash_bytes [OF b, of ds]
      by (simp add: grpc_put_batch_def PutObject_eq reply_def put_batch_eq h cong: map_cong)
  next
    case 3
    then show ?thesis
      using m assms(2) got [of h] by (auto simp: grpc_get_def GetObject_def rpc_def reply_def hash34_def split: option.splits)
  next
    case 4
    then show ?thesis
      using m assms(2) zip by (simp add: grpc_get_batch_def GetObject_def rpc_def reply_def each_toHash_ok)
  next
    case 5
    then show ?thesis
      using m assms(2) had [of h] by (simp add: grpc_has_def HasObject_def rpc_def reply_def hash34_def)
  next
    case 6
    then have "map (objects_Has (dm_objects d)) hs = has_batch (st_objects s) hs"
      using assms(2) had by (simp add: has_batch_def list_all_iff)
    with 6 show ?thesis
      using m assms(2) by (simp add: grpc_has_batch_def HasObject_def rpc_def reply_def each_toHash_ok)
  qed
qed

section \<open>Graph and log\<close>

lemma mirrors_graph:
  assumes "mirrors P E G s d"
  shows "graph_held P (dm_db d) (view (st_conn s)) (log_bindings G (t_log (committed (st_conn s))))"
  using log_heldD(1) [OF mirrorsD(6) [OF assms]] by (simp add: mirrorsD(13) [OF assms])

lemma map_res_Hash_idem: "map_res Hash xs = Inr ys \<Longrightarrow> ys = xs \<and> list_all hash34 xs"
  by (induction xs arbitrary: ys) (auto simp: and_then_eq_Inr Hash_eq_Inr hash34_def)

lemma map_res_Hash_again: "map_res Hash xs = Inr ys \<Longrightarrow> map_res Hash ys = Inr ys"
  using map_res_Hash_idem map_res_Hash by metis

text \<open>The queries of the two backends give the same hashes.\<close>

lemma grpc_queries:
  assumes m: "mirrors P E G s d"
  shows "grpc_all_nodes P d = all_nodes (st_conn s)" and "grpc_all_edges P d = all_edges (st_conn s)"
    and "hash34 n \<Longrightarrow> grpc_incoming_edges P d n = incoming_edges (st_conn s) n"
    and "hash34 e \<Longrightarrow> grpc_get_connectivity P d e = get_connectivity (st_conn s) e"
proof -
  note g = mirrors_graph [OF m]
  note ok = graph_heldD(2) [OF g]
  show "grpc_all_nodes P d = all_nodes (st_conn s)"
    using AllNodes_eq [OF g] map_res_Hash_again unfolding grpc_all_nodes_def svc_AllNodes_def all_nodes_def by metis
  show "grpc_all_edges P d = all_edges (st_conn s)"
    using AllEdges_eq [OF g] map_res_Hash_again unfolding grpc_all_edges_def svc_AllEdges_def all_edges_def by metis
  show "grpc_incoming_edges P d n = incoming_edges (st_conn s) n" if "hash34 n"
  proof -
    have n: "length n = 34" using that by (simp add: hash34_def)
    have "map_res Hash (IncomingEdges P (dm_db d) n) = Inr (IncomingEdges P (dm_db d) n)"
      using IncomingEdges_eq [OF g n] map_res_Hash_again unfolding incoming_edges_def by metis
    with n show ?thesis by (simp add: grpc_incoming_edges_def svc_IncomingEdges_def rpc_def IncomingEdges_eq [OF g n])
  qed
  show "grpc_get_connectivity P d e = get_connectivity (st_conn s) e" if "hash34 e"
  proof -
    have e: "length e = 34" using that by (simp add: hash34_def)
    obtain ps c f where gc: "GetConnectivity P (dm_db d) e = (ps, c, f)" by (cases "GetConnectivity P (dm_db d) e")
    note eq = GetConnectivity_eq [OF g e] get_connectivity_eq [OF ok, of e]
    have "map_res Hash ps = Inr ps \<and> Hash c = Inr c" if f
    proof -
      have con: "connectivity (view (st_conn s)) e = Some (ps, c)" using eq gc that by simp
      then have "c \<in> set (t_nodes (view (st_conn s)))" "set ps \<subseteq> set (t_nodes (view (st_conn s)))"
        using ok by (auto simp: connectivity_def graph_ok_def list_all_iff set_rows_of dest!: map_of_SomeD)
      then have "length c = 34" "list_all hash34 ps"
        using graph_ok_hash34(1) [OF ok] by (auto simp: list_all_iff hash34_def)
      then show ?thesis by (simp add: map_res_Hash Hash_eq_Inr)
    qed
    then show ?thesis
      using e by (simp add: grpc_get_connectivity_def svc_GetConnectivity_def gc rpc_def eq(1))
  qed
qed

lemma from_proto_go_of:
  assumes "entry_ok r"
  shows "log_entry_from_proto (go_of r) = Inr r"
  using assms by (simp add: log_entry_from_proto_def go_of_def entry_ok_def sint_in_range Hash_def HASH_SIZE_def)

lemma mirrors_entry:
  assumes "mirrors P E G s d" and "i < length (t_log (committed (st_conn s)))"
  shows "entry_ok (t_log (committed (st_conn s)) ! i)"
  using log_entries_ok [OF mirrorsD(6,2,7) [OF assms(1)] assms(2)] .

lemma mirrors_hashes:
  assumes "mirrors P E G s d"
  shows "entryHashes P (dm_db d) = Some (map le_entry_hash (t_log (committed (st_conn s))))"
    and "entry_hashes (st_conn s) = Inr (map le_entry_hash (t_log (committed (st_conn s))))"
proof -
  let ?D = "committed (st_conn s)"
  show "entryHashes P (dm_db d) = Some (map le_entry_hash (t_log ?D))"
    by (rule entryHashes_eq [OF mirrorsD(6,2,7) [OF assms]])
  have "le_entry_hash r = hash_bytes E (le_payload r)" if "r \<in> set (t_log ?D)" for r
    using log_ok_entry [OF mirrorsD(7) [OF assms] that] by (rule verify_entry_hash)
  then show "entry_hashes (st_conn s) = Inr (map le_entry_hash (t_log ?D))"
    using entry_hashes_eq [OF mirrorsD(2) [OF assms], of "st_conn s"] mirrorsD(7,13) [OF assms]
    by (simp cong: map_cong)
qed

text \<open>Roots and proof paths are made of hashes, so they pass the constructor.\<close>

lemma length_next: "1 < length level \<Longrightarrow> length (next_level E level) < length level \<and> next_level E level \<noteq> []"
proof
  assume level: "1 < length level"
  then show "length (next_level E level) < length level" by (simp add: length_next_level)
  from level have "length (next_level E level) \<noteq> 0" by (simp add: length_next_level)
  then show "next_level E level \<noteq> []" by auto
qed

lemma root_of_level_34:
  assumes "blake3_spec E"
  shows "level \<noteq> [] \<Longrightarrow> \<forall>h \<in> set level. length h = 34 \<Longrightarrow> length (root_of_level E level) = 34"
proof (induction level rule: length_induct)
  case (1 level)
  show ?case
  proof (cases "1 < length level")
    case True
    with 1 length_next [of level E] next_level_length34 [OF assms] show ?thesis
      by (simp add: root_of_level_step)
  next
    case False
    with 1 show ?thesis by (simp add: root_of_level_single)
  qed
qed

lemma root_hash_34: "blake3_spec E \<Longrightarrow> length (root_hash E xs) = 34"
  by (auto simp: root_hash_def empty_root_def leaf_node_def length_hash_bytes intro!: root_of_level_34)

lemma proof_path_34:
  assumes "blake3_spec E"
  shows "idx < length level \<Longrightarrow> \<forall>h \<in> set level. length h = 34 \<Longrightarrow> list_all hash34 (proof_path E level idx)"
proof (induction level arbitrary: idx rule: length_induct)
  case (1 level)
  show ?case
  proof (cases "1 < length level")
    case True
    have "sibling_idx level idx < length level" using 1(2) by (auto simp: sibling_idx_def)
    then have "hash34 (level ! sibling_idx level idx)" using 1(3) by (simp add: hash34_def)
    moreover have "list_all hash34 (proof_path E (next_level E level) (idx div 2))"
      using 1 True length_next [of level E] next_level_length34 [OF assms] by (simp add: length_next_level)
    ultimately show ?thesis using True by (simp add: proof_path.simps [of E level])
  next
    case False
    then show ?thesis by (simp add: proof_path.simps [of E level])
  qed
qed

lemma inclusion_proof_34:
  assumes "blake3_spec E" and "list_all hash34 hs" and "inclusion_proof E hs i = Inr p"
  shows "Hash (ip_leaf_hash p) = Inr (ip_leaf_hash p)" and "map_res Hash (ip_path p) = Inr (ip_path p)"
proof -
  have i: "0 \<le> i" "nat i < length hs" using assms(3) by (auto simp: inclusion_proof_def split: if_splits)
  have p: "p = \<lparr> ip_leaf_hash = hs ! nat i, ip_index = i, ip_path = proof_path E (map (leaf_node E) hs) (nat i) \<rparr>"
    using assms(3) by (simp add: inclusion_proof_def split: if_splits)
  show "Hash (ip_leaf_hash p) = Inr (ip_leaf_hash p)"
    using assms(2) i by (simp add: p Hash_eq_Inr list_all_length hash34_def)
  have "list_all hash34 (proof_path E (map (leaf_node E) hs) (nat i))"
    by (rule proof_path_34 [OF assms(1)]) (use i in \<open>auto simp: leaf_node_def length_hash_bytes [OF assms(1)]\<close>)
  then show "map_res Hash (ip_path p) = Inr (ip_path p)" by (simp add: p map_res_Hash)
qed

lemma grpc_log_reads:
  assumes m: "mirrors P E G s d"
  shows "grpc_log_len P d = log_len (st_conn s)" and "grpc_log_root_hash P G d = log_root_hash E (st_conn s)"
    and "int64_range i \<Longrightarrow> grpc_log_get P G d i = log_get (st_conn s) i"
    and "int64_range i \<Longrightarrow> grpc_get_inclusion_proof P G d i = get_inclusion_proof E (st_conn s) i"
proof -
  let ?D = "committed (st_conn s)" and ?n = "length (t_log (committed (st_conn s)))"
  note held = mirrorsD(6) [OF m] and agree = mirrorsD(1) [OF m] and b = mirrorsD(2) [OF m] and view = mirrorsD(13) [OF m]
  note hs = mirrors_hashes [OF m]
  show "grpc_log_len P d = log_len (st_conn s)"
    by (simp add: grpc_log_len_def svc_Len_def Len_eq(2) [OF held] log_len_def view)
  show "grpc_log_root_hash P G d = log_root_hash E (st_conn s)"
    by (simp add: root_hash_34 [OF b] grpc_log_root_hash_def svc_RootHash_def RootHash_def hs rpc_def log_root_hash_def
        agreeD(2) [OF agree] Hash_def HASH_SIZE_def)
  have ok: "log_ok E (view (st_conn s))" using mirrorsD(7) [OF m] by (simp add: view)
  show "grpc_log_get P G d i = log_get (st_conn s) i" if i: "int64_range i"
  proof (cases "0 \<le> i \<and> i < int ?n")
    case True
    then have "entry_ok (t_log ?D ! nat i)" by (intro mirrors_entry [OF m]) auto
    with True show ?thesis
      by (simp add: grpc_log_get_def int64_field_def i svc_GetEntry_def Get_eq [OF held b mirrorsD(7) [OF m] agreeD(5) [OF agree]]
          sint_in_range rpc_def log_get_eq [OF b ok] view from_proto_go_of)
  next
    case False
    then show ?thesis
      by (auto simp: grpc_log_get_def int64_field_def i svc_GetEntry_def Get_eq [OF held b mirrorsD(7) [OF m] agreeD(5) [OF agree]]
          sint_in_range rpc_def log_get_eq [OF b ok] view)
  qed
  show "grpc_get_inclusion_proof P G d i = get_inclusion_proof E (st_conn s) i" if i: "int64_range i"
  proof (cases "0 \<le> i \<and> i < int ?n")
    case True
    let ?hs = "map le_entry_hash (t_log ?D)"
    obtain p where p: "inclusion_proof E ?hs i = Inr p" using inclusion_proof_correct [of i ?hs E] True by auto
    have "list_all hash34 ?hs"
      using mirrors_entry [OF m] by (auto simp: list_all_length entry_ok_def hash34_def)
    note h = inclusion_proof_34 [OF b this p]
    show ?thesis
      using True
      by (simp add: grpc_get_inclusion_proof_def int64_field_def i svc_InclusionProof_def sint_in_range
          Len_eq(2) [OF held] GetInclusionProof_def hs agreeD(3) [OF agree] p rpc_def h get_inclusion_proof_def)
  next
    case False
    then show ?thesis
      by (auto simp: grpc_get_inclusion_proof_def int64_field_def i svc_InclusionProof_def sint_in_range
          Len_eq(2) [OF held] hs rpc_def get_inclusion_proof_def)
  qed
qed

section \<open>Writes\<close>

lemma mirrors_new_entry:
  assumes m: "mirrors P E G s d"
  obtains r where "new_entry E (st_priv s) (st_pub s) now x (committed (st_conn s)) = Inr r"
    and "le_seq r = int (length (t_log (committed (st_conn s))))" and "le_timestamp_ns r = now"
    and "log_ok E (ins_log r (committed (st_conn s)))"
  using new_entry_ok [OF mirrorsD(2,3,9,7) [OF m], of now x] log_append_ok [OF mirrorsD(2,3,9) [OF m], of "st_conn s" True now x]
    mirrorsD(7,10,13) [OF m]
  by (metis sum.inject(2))

lemma entry_ok_new:
  assumes "mirrors P E G s d" and "new_entry E (st_priv s) (st_pub s) now x (committed (st_conn s)) = Inr r"
    and "int64_range now" and "log_has_room (committed (st_conn s))"
  shows "entry_ok r"
proof -
  let ?n = "length (t_log (committed (st_conn s)))"
  obtain sig where r: "r = \<lparr> le_seq = int ?n, le_timestamp_ns = now, le_signer_pubkey = st_pub s,
      le_entry_hash = hash_bytes E x, le_prev_log_hash = last_hash (t_log (committed (st_conn s))),
      le_signature = sig, le_payload = x \<rparr>"
    using new_entry_shape [OF mirrorsD(2,7) [OF assms(1)] assms(2)] by blast
  have "length (last_hash (t_log (committed (st_conn s)))) = 34"
    using mirrors_entry [OF assms(1), of "?n - 1"]
    by (auto simp: last_hash_def GENESIS_PREV_HASH_def entry_ok_def last_conv_nth)
  moreover have "int64_range (int ?n)" using assms(4) by (simp add: log_has_room_def int64_range_def)
  ultimately show ?thesis
    using assms(3) by (simp add: r entry_ok_def length_hash_bytes [OF mirrorsD(2) [OF assms(1)]])
qed

lemma sim_append:
  assumes m: "mirrors P E G s d" and "int64_range now" and "x \<noteq> []" and room: "log_has_room (committed (st_conn s))"
  shows "snd (grpc_call P G (C_append now x) d) = snd (sqlite_call E (C_append now x) s) \<and>
    mirrors P E G (fst (sqlite_call E (C_append now x) s)) (fst (grpc_call P G (C_append now x) d))"
proof -
  let ?D = "committed (st_conn s)"
  obtain r where r: "new_entry E (st_priv s) (st_pub s) now x ?D = Inr r" "le_seq r = int (length (t_log ?D))"
    "le_timestamp_ns r = now" "log_ok E (ins_log r ?D)"
    by (rule mirrors_new_entry [OF m, of now x])
  have fresh: "select_row ?D (le_seq r) = None" by (rule log_ok_select_fresh [OF mirrorsD(7) [OF m] r(2)])
  have py: "log_append False E (st_priv s) (st_pub s) now x (st_conn s) = ((st_conn s)\<lparr>committed := ins_log r ?D\<rparr>, Inr r)"
    using mirrorsD(4,5,13) [OF m] by (simp add: log_append_def r(1) fresh commit_if_owned_def exec_dml_def)
  have "appendInBatch P G (dm_priv d) (dm_pub d) (of_int now) (Some x) (dm_db d) [] = Some ([] @ log_writes G r, go_of r)"
    using appendInBatch_eq [OF mirrorsD(6,1,2,7) [OF m], of "[]" now "st_priv s" "st_pub s" x r] r(1) assms(2)
      mirrorsD(11,12) [OF m] by (simp add: graph_writes_def)
  then have go: "svc_Append P G (of_int now) x d = (d\<lparr>dm_db := pb_commit P (log_writes G r) (dm_db d)\<rparr>, Inr (go_of r))"
    using assms(3) by (simp add: svc_Append_def Append_def received_def)
  have "log_held P G (pb_commit P (log_writes G r) (dm_db d)) (ins_log r ?D)"
    by (rule log_held_append [OF mirrorsD(6) [OF m] _ _ r(2)]) (use room assms(2) r(3) in \<open>simp_all add: log_has_room_def\<close>)
  with m r(4) have "mirrors P E G (s\<lparr>st_conn := (st_conn s)\<lparr>committed := ins_log r ?D\<rparr>\<rparr>)
      (d\<lparr>dm_db := pb_commit P (log_writes G r) (dm_db d)\<rparr>)"
    by (simp add: mirrors_def)
  then show ?thesis
    using from_proto_go_of [OF entry_ok_new [OF m r(1) assms(2) room]]
    by (simp add: py grpc_log_append_def go rpc_def reply_def)
qed

lemma register_autocommit:
  "autocommit c \<Longrightarrow> pending c = None \<Longrightarrow>
     exec_all fs c = c\<lparr>committed := fold (\<lambda>f. f) fs (committed c)\<rparr>"
  by (induction fs arbitrary: c) (simp_all add: exec_dml_def)

lemma sim_register:
  assumes m: "mirrors P E G s d"
  shows "hash34 n \<Longrightarrow> snd (grpc_call P G (C_register_node n) d) = snd (sqlite_call E (C_register_node n) s) \<and>
      mirrors P E G (fst (sqlite_call E (C_register_node n) s)) (fst (grpc_call P G (C_register_node n) d))"
    and "edge_fits (committed (st_conn s)) e ps c \<Longrightarrow>
      snd (grpc_call P G (C_register_edge e ps c) d) = snd (sqlite_call E (C_register_edge e ps c) s) \<and>
      mirrors P E G (fst (sqlite_call E (C_register_edge e ps c) s)) (fst (grpc_call P G (C_register_edge e ps c) d))"
proof -
  let ?D = "committed (st_conn s)"
  note held = log_heldD(1) [OF mirrorsD(6) [OF m]]
  have fits: "log_fits (t_log ?D)" using mirrorsD(6) [OF m] by (simp add: log_held_def)
  {
    assume n: "hash34 n"
    have "register_node False n (st_conn s) = (st_conn s)\<lparr>committed := ins_node n ?D\<rparr>"
      using mirrorsD(4,5) [OF m] by (simp add: register_node_def commit_if_owned_def exec_dml_def)
    moreover have "log_held P G (RegisterNodeTx P n (dm_db d)) (ins_node n ?D)"
      using graph_held_node [OF held n] fits by (simp add: log_held_def ins_node_def)
    moreover have "log_ok E (ins_node n ?D)" using mirrorsD(7) [OF m] by (simp add: log_ok_def ins_node_def)
    ultimately show "snd (grpc_call P G (C_register_node n) d) = snd (sqlite_call E (C_register_node n) s) \<and>
      mirrors P E G (fst (sqlite_call E (C_register_node n) s)) (fst (grpc_call P G (C_register_node n) d))"
      using m n by (simp add: mirrors_def grpc_register_node_def svc_RegisterNode_def rpc_def reply_def hash34_def)
  }
  assume f: "edge_fits ?D e ps c"
  then have len: "hash34 e" "hash34 c" "list_all hash34 ps" "length ps < 2 ^ 63" "consistent_with ?D e ps c"
    by (simp_all add: edge_fits_def)
  have "register_edge False e ps c (st_conn s) = (st_conn s)\<lparr>committed := register_edge_db e ps c ?D\<rparr>"
    using mirrorsD(4,5) [OF m]
    by (simp add: register_edge_def commit_if_owned_def register_autocommit register_edge_db_def)
  moreover have "log_held P G (RegisterEdgeTx P e ps c (dm_db d)) (register_edge_db e ps c ?D)"
    using graph_held_register [OF held len(5,1-4), of "[]"] fits
    by (simp add: log_held_def RegisterEdgeTx_def functional_def off_graph_def)
  moreover have "log_ok E (register_edge_db e ps c ?D)" using mirrorsD(7) [OF m] by simp
  moreover have svc: "svc_RegisterEdge P e ps c d = (d\<lparr>dm_db := RegisterEdgeTx P e ps c (dm_db d)\<rparr>, Inr ())"
    using len by (simp add: svc_RegisterEdge_def each_toHash_ok hash34_def [of e] hash34_def [of c])
  ultimately show "snd (grpc_call P G (C_register_edge e ps c) d) = snd (sqlite_call E (C_register_edge e ps c) s) \<and>
      mirrors P E G (fst (sqlite_call E (C_register_edge e ps c) s)) (fst (grpc_call P G (C_register_edge e ps c) d))"
    using m svc by (simp add: mirrors_def grpc_register_edge_def rpc_def reply_def)
qed

lemma mirrors_optional:
  assumes "mirrors P E G s d"
  shows "mirrors P E G (put_optional E p s) (case p of None \<Rightarrow> d | Some x \<Rightarrow> put_object G x d)"
  using assms mirrors_objects [OF assms] by (simp add: put_optional_def split: option.splits)

lemma sim_commit:
  assumes m: "mirrors P E G s d" and now: "int64_range now" and x: "x \<noteq> []"
    and room: "log_has_room (committed (st_conn s))" and f: "edge_fits (committed (st_conn s)) (hash_bytes E x) ps c"
  shows "snd (grpc_call P G (C_commit now ps c x p) d) = snd (sqlite_call E (C_commit now ps c x p) s) \<and>
    mirrors P E G (fst (sqlite_call E (C_commit now ps c x p) s)) (fst (grpc_call P G (C_commit now ps c x p) d))"
proof -
  let ?D = "committed (st_conn s)" and ?e = "hash_bytes E x"
  let ?s1 = "put_optional E p (put_blob E x s)"
  define d1 where "d1 = (case p of None \<Rightarrow> put_object G x d | Some y \<Rightarrow> put_object G y (put_object G x d))"
  have m1: "mirrors P E G ?s1 d1"
    unfolding d1_def by (rule mirrors_optional [OF mirrors_objects [OF m]])
  have same: "dm_db d1 = dm_db d" "dm_priv d1 = dm_priv d" "dm_pub d1 = dm_pub d"
    by (simp_all add: d1_def split: option.splits)
  have len: "hash34 ?e" "hash34 c" "list_all hash34 ps" "length ps < 2 ^ 63" "consistent_with ?D ?e ps c"
    using f by (simp_all add: edge_fits_def)
  obtain r where r: "new_entry E (st_priv s) (st_pub s) now x ?D = Inr r" "le_seq r = int (length (t_log ?D))"
    "le_timestamp_ns r = now" "log_ok E (ins_log r ?D)"
    by (rule mirrors_new_entry [OF m, of now x])
  have py: "commit_edge_tx E now ps c x p s =
      (?s1\<lparr>st_conn := (st_conn s)\<lparr>committed := commit_db E ps c x r ?D\<rparr>\<rparr>, Inr (?e, r))"
    by (rule commit_succeeds [OF mirrorsD(4) [OF m] refl r(1) log_ok_select_fresh [OF mirrorsD(7) [OF m] r(2)]])
  let ?b = "RegisterEdge ?e ps c [] @ log_writes G r"
  have "appendInBatch P G (dm_priv d1) (dm_pub d1) (of_int now) (Some x) (dm_db d1) (RegisterEdge ?e ps c []) =
      Some (?b, go_of r)"
    using appendInBatch_eq [OF mirrorsD(6,1,2,7) [OF m] graph_writes_edge now r(1), of ?e ps c]
    by (simp add: same mirrorsD(11,12) [OF m])
  then have "CommitEdgeTx P G (of_int now) ps c (Some x) p d = (d1\<lparr>dm_db := pb_commit P ?b (dm_db d)\<rparr>, Some (?e, go_of r))"
    using same by (simp add: CommitEdgeTx_def Let_def agreeD(1) [OF mirrorsD(1) [OF m]] d1_def [symmetric])
  then have go: "svc_CommitEdge P G (of_int now) ps c x p d =
      (d1\<lparr>dm_db := pb_commit P ?b (dm_db d)\<rparr>, Inr (?e, go_of r))"
    using len x by (simp add: svc_CommitEdge_def each_toHash_ok hash34_def [of c] received_def)
  have "log_held P G (pb_commit P ?b (dm_db d)) (commit_db E ps c x r ?D)"
    unfolding commit_db_def
    by (rule log_held_edge [OF mirrorsD(6) [OF m] _ _ r(2) len(5,1-4)])
      (use room now r(3) in \<open>simp_all add: log_has_room_def\<close>)
  moreover have "log_ok E (commit_db E ps c x r ?D)"
    using r(4) by (simp add: commit_db_def log_ok_def)
  ultimately have "mirrors P E G (?s1\<lparr>st_conn := (st_conn s)\<lparr>committed := commit_db E ps c x r ?D\<rparr>\<rparr>)
      (d1\<lparr>dm_db := pb_commit P ?b (dm_db d)\<rparr>)"
    using m1 by (simp add: mirrors_def)
  then show ?thesis
    using from_proto_go_of [OF entry_ok_new [OF m r(1) now room]] Hash_hash_bytes [OF mirrorsD(2) [OF m], of x]
    by (simp add: py grpc_commit_edge_tx_def go rpc_def reply_def)
qed

section \<open>Lockstep\<close>

interpretation backends: lockstep "sqlite_call E" "grpc_call P G" "mirrors P E G"
  "\<lambda>s. admissible E (committed (st_conn s))" for P E G
proof
  fix s d c
  assume m: "mirrors P E G s d" and ok: "admissible E (committed (st_conn s)) c"
  note objects = sim_objects [OF m ok]
  show "snd (grpc_call P G c d) = snd (sqlite_call E c s) \<and>
      mirrors P E G (fst (sqlite_call E c s)) (fst (grpc_call P G c d))"
  proof (cases c)
    case (C_register_edge e ps k)
    with ok sim_register(2) [OF m, of e ps k] show ?thesis by simp
  next
    case (C_append now x)
    with ok sim_append [OF m, of now x] show ?thesis by simp
  next
    case (C_commit now ps k x p)
    with ok sim_commit [OF m, of now x ps k p] show ?thesis by simp
  qed (use objects ok m sim_register(1) [OF m] grpc_queries [OF m] grpc_log_reads [OF m] in \<open>simp_all\<close>)
qed

section \<open>The refinement\<close>

lemma mirrors_new:
  assumes "pebble_spec P" and "libraries_agree E G" and "blake3_spec E" and "ed25519_spec E" and "length priv = 32"
  shows "mirrors P E G (open_storage empty_store None priv (ed_public E priv)) (Open P empty_store None priv (ed_public E priv))"
proof -
  have "t_log empty_db = []" by (simp add: empty_db_def)
  then have "log_held P G (pb_new P) empty_db"
    using graph_held_new [OF assms(1)] by (simp add: log_held_def log_bindings_def log_fits_def)
  then show ?thesis
    using assms
    by (simp add: mirrors_def open_storage_def Open_def connect_def open_db_def objects_Get_def empty_store_def get_eq)
qed

text \<open>C9: the daemon refines the in-process storage: started on empty directories with the same key, the two
  backends give the same answers to any program of calls and end in states that mirror each other, whatever
  a call may depend on earlier answers, as long as the calls are ones both are meant for: hashes of 34
  bytes, an edge hash registered with one connectivity, entries that are not empty, and numbers that fit
  into 64 bits.\<close>

theorem daemon_refines_storage:
  assumes "pebble_spec P" and "libraries_agree E G" and "blake3_spec E" and "ed25519_spec E" and "length priv = 32"
    and "s = open_storage empty_store None priv (ed_public E priv)"
    and "safe (sqlite_call E) (\<lambda>s. admissible E (committed (st_conn s))) p s"
    and "d = Open P empty_store None priv (ed_public E priv)"
  shows "snd (exec (grpc_call P G) p d) = snd (exec (sqlite_call E) p s) \<and>
    mirrors P E G (fst (exec (sqlite_call E) p s)) (fst (exec (grpc_call P G) p d))"
  using backends.exec_agrees [OF mirrors_new [OF assms(1-5)]] assms(6-8) by blast

lemma libraries_agree_refl: "cbor_spec E \<Longrightarrow> libraries_agree E E"
  by (simp add: libraries_agree_def)

definition sample_program :: "(storage_call, storage_answer res, storage_answer res list) prog" where
  "sample_program =
     Call (C_append 4 [7]) (\<lambda>a. Call (C_commit 5 [sample_hash 1] (sample_hash 2) [1, 2, 3] (Some [9])) (\<lambda>b.
     Call (C_incoming (sample_hash 2)) (\<lambda>c. Call (C_log_get 1) (\<lambda>d. Return [a, b, c, d]))))"

section \<open>Where the backends part\<close>

text \<open>The batch of an entry whose payload arrived as a nil slice.\<close>

definition nil_entry :: "log_entry \<Rightarrow> go_entry" where
  "nil_entry r = (go_of r)\<lparr>ge_payload := None\<rparr>"

lemma append_nil:
  assumes "appendInBatch P G priv pub ts (Some []) d b = Some (b', go_of r)"
  shows "appendInBatch P G priv pub ts None d b = Some (b @
    [(entryKey (of_int (le_seq r)), encodeEntry G (nil_entry r)), (entryHashKey (of_int (le_seq r)), le_entry_hash r),
     (logLenKey, be64 (of_int (le_seq r) + 1))], nil_entry r)"
  using assms unfolding appendInBatch_def Let_def
  by (auto simp: go_of_def nil_entry_def bind_eq_Some_conv)

lemma decode_nil:
  assumes "cbor_spec G" and "entry_ok r"
  shows "decodeEntry G (encodeEntry G (nil_entry r)) = None"
proof -
  let ?xs = "[PInt (le_seq r), PInt (le_timestamp_ns r), PBytes (le_signer_pubkey r), PBytes (le_entry_hash r),
    PBytes (le_prev_log_hash r), PBytes (le_signature r), PNone]"
  have enc: "encodeEntry G (nil_entry r) = cbor_dumps G (PList ?xs)"
    using assms(2) by (simp add: encodeEntry_def nil_entry_def go_of_def go_slice_def sint_in_range entry_ok_def)
  obtain w where w: "cbor_loads G (cbor_dumps G (PList ?xs)) = Inr w" "py_eq (PList ?xs) w"
    using cbor_specD [OF assms(1), of "PList ?xs"] by auto
  from w(2) py_eq_scalars [of ?xs w] have "w = PList ?xs" by simp
  with w(1) assms(2) show ?thesis
    unfolding decodeEntry_def enc by (simp add: entry_ok_def toInt64_ok as_bytes_def toHash_def)
qed

text \<open>An empty entry is lost through the daemon: both backends accept it and count it, the in-process log gives
  it back, but the daemon has written a nil payload as null and from then on refuses to read the entry.\<close>

theorem empty_entry_unreadable:
  assumes m: "mirrors P E G s d" and now: "int64_range now" and room: "log_has_room (committed (st_conn s))"
    and a: "sqlite_call E (C_append now []) s = (s', a)" and b: "grpc_call P G (C_append now []) d = (d', b)"
  shows "a = b \<and> log_len (st_conn s') = grpc_log_len P d' \<and>
    (\<exists>r. log_get (st_conn s') (log_len (st_conn s)) = Inr (Some r) \<and> le_payload r = []) \<and>
    grpc_log_get P G d' (log_len (st_conn s)) = Inl RpcError"
proof -
  let ?D = "committed (st_conn s)" and ?n = "length (t_log (committed (st_conn s)))"
  obtain r where r: "new_entry E (st_priv s) (st_pub s) now [] ?D = Inr r" "le_seq r = int ?n"
    "le_timestamp_ns r = now" "log_ok E (ins_log r ?D)"
    by (rule mirrors_new_entry [OF m, of now "[]"])
  have fresh: "select_row ?D (le_seq r) = None" by (rule log_ok_select_fresh [OF mirrorsD(7) [OF m] r(2)])
  have "log_append False E (st_priv s) (st_pub s) now [] (st_conn s) = ((st_conn s)\<lparr>committed := ins_log r ?D\<rparr>, Inr r)"
    using mirrorsD(4,5,13) [OF m] by (simp add: log_append_def r(1) fresh commit_if_owned_def exec_dml_def)
  with a have py: "s' = s\<lparr>st_conn := (st_conn s)\<lparr>committed := ins_log r ?D\<rparr>\<rparr>" "a = Inr (A_entry r)"
    by (auto simp: reply_def)
  let ?w = "of_nat ?n :: int64"
  let ?b = "[(entryKey ?w, encodeEntry G (nil_entry r)), (entryHashKey ?w, le_entry_hash r), (logLenKey, be64 (?w + 1))]"
  have w: "of_int (le_seq r) = ?w" "sint ?w = int ?n" "sint (?w + 1) = int ?n + 1"
    using r(2) room sint_in_range [of "int ?n"] sint_in_range [of "int ?n + 1"]
    by (simp_all add: log_has_room_def int64_range_def)
  have "appendInBatch P G (dm_priv d) (dm_pub d) (of_int now) (Some []) (dm_db d) [] = Some ([] @ log_writes G r, go_of r)"
    using appendInBatch_eq [OF mirrorsD(6,1,2,7) [OF m], of "[]" now "st_priv s" "st_pub s" "[]" r] r(1) now
      mirrorsD(11,12) [OF m] by (simp add: graph_writes_def)
  from append_nil [OF this]
  have "svc_Append P G (of_int now) [] d = (d\<lparr>dm_db := pb_commit P ?b (dm_db d)\<rparr>, Inr (nil_entry r))"
    by (simp add: svc_Append_def Append_def received_def w(1))
  moreover have ok: "entry_ok r" by (rule entry_ok_new [OF m r(1) now room])
  moreover have "le_payload r = []" by (rule new_entry_shape [OF mirrorsD(2,7) [OF m] r(1)]) simp
  ultimately have go: "d' = d\<lparr>dm_db := pb_commit P ?b (dm_db d)\<rparr>" "b = Inr (A_entry r)"
    using b from_proto_go_of [OF ok]
    by (auto simp: grpc_log_append_def rpc_def reply_def log_entry_from_proto_def nil_entry_def go_of_def)
  note spec = pebble_specD(2,3) [OF graph_heldD(1) [OF mirrors_graph [OF m]]]
  have "pb_get P (dm_db d') (entryKey ?w) = Some (encodeEntry G (nil_entry r))" "pb_get P (dm_db d') logLenKey = Some (be64 (?w + 1))"
    by (simp_all add: go(1) spec entryKey_def entryHashKey_def logLenKey_def)
  then have "svc_GetEntry P G ?w d' = Inl Internal" "grpc_log_len P d' = int ?n + 1"
    using decode_nil [OF agreeD(5) [OF mirrorsD(1) [OF m]] ok] w(3)
    by (simp_all add: svc_GetEntry_def Get_def grpc_log_len_def svc_Len_def Len_def)
  moreover have "int64_range (int ?n)" using room by (simp add: log_has_room_def int64_range_def)
  moreover have "log_get (st_conn s') (int ?n) = Inr (Some r)"
    using log_get_eq [OF mirrorsD(2) [OF m], of "st_conn s'" "int ?n"] r(4) mirrorsD(4) [OF m] by (simp add: py(1) view_def)
  moreover have "log_len (st_conn s) = int ?n" "log_len (st_conn s') = int ?n + 1"
    using mirrorsD(4) [OF m] by (simp_all add: py(1) log_len_def view_def)
  ultimately show ?thesis
    using py(2) go(2) \<open>le_payload r = []\<close> by (simp add: grpc_log_get_def int64_field_def rpc_def)
qed

text \<open>An edge hash registered a second time with another conclusion: the in-process index keeps the first
  connectivity, the daemon answers with the second conclusion.\<close>

theorem reregistration_differs:
  assumes m: "mirrors P E G s d" and "edge_fits (committed (st_conn s)) e ps c" and "hash34 c'"
    and "s' = fst (exec (sqlite_call E) (Call (C_register_edge e ps c) (\<lambda>_. Call (C_register_edge e ps c') Return)) s)"
    and "d' = fst (exec (grpc_call P G) (Call (C_register_edge e ps c) (\<lambda>_. Call (C_register_edge e ps c') Return)) d)"
  shows "(\<exists>qs. get_connectivity (st_conn s') e = Inr (Some (qs, c))) \<and>
    (\<exists>qs. GetConnectivity P (dm_db d') e = (qs, c', True))"
proof -
  let ?D = "committed (st_conn s)" and ?s1 = "fst (sqlite_call E (C_register_edge e ps c) s)"
    and ?d1 = "fst (grpc_call P G (C_register_edge e ps c) d)"
  have len: "hash34 e" "hash34 c" "list_all hash34 ps" "length ps < 2 ^ 63" "consistent_with ?D e ps c"
    using assms(2) by (simp_all add: edge_fits_def)
  have m1: "mirrors P E G ?s1 ?d1" using sim_register(2) [OF m assms(2)] by simp
  let ?D1 = "view (st_conn ?s1)"
  have ok: "graph_ok ?D1" by (rule graph_heldD(2) [OF mirrors_graph [OF m1]])
  have D1: "?D1 = register_edge_db e ps c ?D" using mirrorsD(4) [OF m] by (simp add: view_register_edge) (simp add: view_def)
  have g: "graph_ok ?D" using graph_heldD(2) [OF log_heldD(1) [OF mirrorsD(6) [OF m]]] .
  have con: "connectivity ?D1 e = Some (ps, c)"
    using len(5) connectivity_register_fresh [OF g] connectivity_register_present [OF g]
    unfolding D1 by (auto simp: consistent_with_def)
  have old: "t_edges (register_edge_db e ps c' ?D1) = t_edges ?D1" "t_premises (register_edge_db e ps c' ?D1) = t_premises ?D1"
  proof -
    from con have "e \<in> fst ` set (t_edges ?D1)" by (force simp: connectivity_def dest: map_of_SomeD)
    then show "t_edges (register_edge_db e ps c' ?D1) = t_edges ?D1"
      by (simp add: register_edge_db_eq insert_or_ignore_present)
    show "t_premises (register_edge_db e ps c' ?D1) = t_premises ?D1"
      using register_present(2) [OF ok con] by (simp add: register_edge_db_eq)
  qed
  have s': "view (st_conn s') = register_edge_db e ps c' ?D1" by (simp add: assms(4) view_register_edge)
  have "get_connectivity (st_conn s') e = get_connectivity (st_conn ?s1) e"
    unfolding get_connectivity_def s' old ..
  then have py: "get_connectivity (st_conn s') e = Inr (Some (ps, c))"
    using get_connectivity_eq [OF ok, of e] con by (simp only: option.case sum.case)
  have "svc_RegisterEdge P e ps c' ?d1 = (?d1\<lparr>dm_db := RegisterEdgeTx P e ps c' (dm_db ?d1)\<rparr>, Inr ())"
    using len assms(3) by (simp add: svc_RegisterEdge_def each_toHash_ok hash34_def [of e] hash34_def [of c'])
  then have d': "dm_db d' = pb_commit P (RegisterEdge e ps c' []) (dm_db ?d1)"
    by (simp add: assms(5) split_beta grpc_register_edge_def RegisterEdgeTx_def)
  have "(edgeKey e, c') \<in> set (rev (RegisterEdge e ps c' []))" by (simp add: RegisterEdge_def)
  moreover have "v = c'" if "(edgeKey e, v) \<in> set (rev (RegisterEdge e ps c' []))" for v
    using that by (auto simp: RegisterEdge_def key_defs)
  ultimately have "map_of (rev (RegisterEdge e ps c' [])) (edgeKey e) = Some c'"
    by (metis map_of_SomeD weak_map_of_SomeI)
  then have "pb_get P (dm_db d') (edgeKey e) = Some c'"
    by (simp add: d' pebble_specD(2,3) [OF graph_heldD(1) [OF mirrors_graph [OF m]]])
  then have "GetConnectivity P (dm_db d') e = (map (\<lambda>(k, v). hash_copy v) (scan_prefix P (dm_db d') (premisePrefix e)), c', True)"
    using assms(3) by (simp add: GetConnectivity_def hash34_def)
  with py show ?thesis by blast
qed

section \<open>Witnesses\<close>

abbreviation fresh_storage :: storage where
  "fresh_storage \<equiv> open_storage empty_store None sample_key (ed_public ref_env sample_key)"

abbreviation fresh_daemon :: "batch daemon" where
  "fresh_daemon \<equiv> Open list_pebble empty_store None sample_key (ed_public ref_env sample_key)"

lemma fresh_mirrors: "mirrors list_pebble ref_env ref_env fresh_storage fresh_daemon"
  by (rule mirrors_new [OF list_pebble_spec libraries_agree_refl [OF ref_env_cbor] ref_env_blake3 ref_env_ed25519])
    (simp add: sample_key_def)

lemma fresh_committed: "committed (st_conn (open_storage os None k p)) = empty_db"
  by (simp add: open_storage_def connect_def open_db_def)

lemma fresh_admissible:
  "log_has_room empty_db" "hash34 e \<Longrightarrow> list_all hash34 ps \<Longrightarrow> hash34 c \<Longrightarrow> length ps < 2 ^ 63 \<Longrightarrow> edge_fits empty_db e ps c"
  by (simp_all add: log_has_room_def empty_db_def edge_fits_def consistent_with_def connectivity_def)

lemma append_committed:
  assumes m: "mirrors P E G s d"
  shows "\<exists>r. committed (st_conn (fst (sqlite_call E (C_append now x) s))) = ins_log r (committed (st_conn s))"
proof -
  let ?D = "committed (st_conn s)"
  obtain r where r: "new_entry E (st_priv s) (st_pub s) now x ?D = Inr r" "le_seq r = int (length (t_log ?D))"
    by (rule mirrors_new_entry [OF m, of now x])
  have fresh: "select_row ?D (le_seq r) = None" by (rule log_ok_select_fresh [OF mirrorsD(7) [OF m] r(2)])
  have "log_append False E (st_priv s) (st_pub s) now x (st_conn s) = ((st_conn s)\<lparr>committed := ins_log r ?D\<rparr>, Inr r)"
    using mirrorsD(4,5,13) [OF m] by (simp add: log_append_def r(1) fresh commit_if_owned_def exec_dml_def)
  then show ?thesis by auto
qed

theorem daemon_refines_storage_witness:
  "snd (exec (grpc_call list_pebble ref_env) sample_program fresh_daemon) =
     snd (exec (sqlite_call ref_env) sample_program fresh_storage) \<and>
   mirrors list_pebble ref_env ref_env (fst (exec (sqlite_call ref_env) sample_program fresh_storage))
     (fst (exec (grpc_call list_pebble ref_env) sample_program fresh_daemon))"
proof (rule daemon_refines_storage [OF list_pebble_spec libraries_agree_refl [OF ref_env_cbor] ref_env_blake3 ref_env_ed25519 _ refl _ refl])
  let ?s = "fst (sqlite_call ref_env (C_append 4 [7]) fresh_storage)"
  obtain r where r: "committed (st_conn ?s) = ins_log r empty_db"
    using append_committed [OF fresh_mirrors, of 4 "[7]"] unfolding fresh_committed by blast
  have "edge_fits (ins_log r empty_db) (hash_bytes ref_env [1, 2, 3]) [sample_hash 1] (sample_hash 2)"
    by (simp add: edge_fits_def consistent_with_def connectivity_def empty_db_def hash34_def length_hash_bytes [OF ref_env_blake3]
        sample_hash_def)
  moreover have "log_has_room (ins_log r empty_db)" by (simp add: log_has_room_def empty_db_def ins_log_def)
  ultimately show "safe (sqlite_call ref_env) (\<lambda>s. admissible ref_env (committed (st_conn s))) sample_program fresh_storage"
    unfolding sample_program_def safe.simps admissible.simps r fresh_committed
    by (simp add: int64_range_def fresh_admissible(1))
qed (simp add: sample_key_def)

theorem empty_entry_unreadable_witness:
  "let s' = fst (sqlite_call ref_env (C_append 5 []) fresh_storage);
       d' = fst (grpc_call list_pebble ref_env (C_append 5 []) fresh_daemon) in
     snd (sqlite_call ref_env (C_append 5 []) fresh_storage) = snd (grpc_call list_pebble ref_env (C_append 5 []) fresh_daemon) \<and>
     log_len (st_conn s') = grpc_log_len list_pebble d' \<and>
     (\<exists>r. log_get (st_conn s') (log_len (st_conn fresh_storage)) = Inr (Some r) \<and> le_payload r = []) \<and>
     grpc_log_get list_pebble ref_env d' (log_len (st_conn fresh_storage)) = Inl RpcError"
  unfolding Let_def
  by (rule empty_entry_unreadable [OF fresh_mirrors _ _ surjective_pairing surjective_pairing, of 5])
    (simp_all add: fresh_committed fresh_admissible(1) int64_range_def)

theorem reregistration_differs_witness:
  "(\<exists>qs. get_connectivity (st_conn (fst (exec (sqlite_call ref_env) (Call (C_register_edge (sample_hash 9) [] (sample_hash 1))
       (\<lambda>_. Call (C_register_edge (sample_hash 9) [] (sample_hash 2)) Return)) fresh_storage))) (sample_hash 9) =
       Inr (Some (qs, sample_hash 1))) \<and>
   (\<exists>qs. GetConnectivity list_pebble (dm_db (fst (exec (grpc_call list_pebble ref_env) (Call (C_register_edge (sample_hash 9) [] (sample_hash 1))
       (\<lambda>_. Call (C_register_edge (sample_hash 9) [] (sample_hash 2)) Return)) fresh_daemon))) (sample_hash 9) =
       (qs, sample_hash 2, True))"
  by (rule reregistration_differs [OF fresh_mirrors, where ps = "[]"])
    (simp_all add: fresh_committed fresh_admissible(2))
end
