(* ===== verification/Backend_Queries.thy ===== *)
theory Backend_Queries
  imports Backend_Parity Api_Stories
begin

text \<open>
  What the layers above storage make of the two backends. They see a storage through the interface \<open>reader\<close> and
  through the calls of \<^verbatim>\<open>verify_and_commit\<close>. Two readers with the \<open>same_answers\<close> give every query, every
  attestation and every read endpoint of the API the same result, and a commit through the daemon is the
  commit into the in-process storage.
\<close>

section \<open>Readers with the same answers\<close>

definition same_answers :: "reader \<Rightarrow> reader \<Rightarrow> bool" where
  "same_answers R R' \<longleftrightarrow>
     (\<forall>h. hash34 h \<longrightarrow> rd_get R' h = rd_get R h \<and> rd_incoming R' h = rd_incoming R h) \<and>
     rd_all_nodes R' = rd_all_nodes R \<and> rd_all_edges R' = rd_all_edges R \<and>
     rd_log_len R' = rd_log_len R \<and> rd_log_root R' = rd_log_root R \<and>
     (\<forall>i. int64_range i \<longrightarrow> rd_log_get R' i = rd_log_get R i) \<and>
     (\<forall>n. rd_log_len R = Inr n \<longrightarrow> n < 2 ^ 63) \<and>
     (\<forall>hs. rd_all_nodes R = Inr hs \<or> rd_all_edges R = Inr hs \<or> (\<exists>h. rd_incoming R h = Inr hs) \<longrightarrow>
        list_all hash34 hs)"

lemma same_answersD:
  assumes "same_answers R R'"
  shows "hash34 h \<Longrightarrow> rd_get R' h = rd_get R h" and "hash34 h \<Longrightarrow> rd_incoming R' h = rd_incoming R h"
    and "rd_all_nodes R' = rd_all_nodes R" and "rd_all_edges R' = rd_all_edges R"
    and "rd_log_len R' = rd_log_len R" and "rd_log_root R' = rd_log_root R"
    and "int64_range i \<Longrightarrow> rd_log_get R' i = rd_log_get R i"
    and "rd_log_len R = Inr n \<Longrightarrow> n < 2 ^ 63"
    and "rd_all_nodes R = Inr hs \<Longrightarrow> list_all hash34 hs" and "rd_all_edges R = Inr hs \<Longrightarrow> list_all hash34 hs"
    and "rd_incoming R h = Inr hs \<Longrightarrow> list_all hash34 hs"
  using assms unfolding same_answers_def by blast+

lemma mirrors_get:
  assumes "mirrors P E G s d" and "hash34 h"
  shows "grpc_get d h = Inr (get (st_objects s) h)"
  using mirrorsD(8) [OF assms(1), of h] assms(2)
  by (auto simp: grpc_get_def GetObject_def rpc_def hash34_def split: option.splits)

lemma mirrors_same_answers:
  assumes "mirrors P E G s d"
  shows "same_answers (sqlite_reader E s) (grpc_reader P G d)"
proof -
  note q = grpc_queries [OF assms] and l = grpc_log_reads [OF assms]
  have "length (t_log (committed (st_conn s))) < 2 ^ 63"
    using mirrorsD(6) [OF assms] by (simp add: log_held_def log_fits_def)
  then have "log_len (st_conn s) < 2 ^ 63"
    unfolding log_len_def mirrorsD(13) [OF assms] by simp
  moreover have "list_all hash34 hs"
    if "all_nodes (st_conn s) = Inr hs \<or> all_edges (st_conn s) = Inr hs \<or> incoming_edges (st_conn s) h = Inr hs" for h hs
    using that map_res_Hash_idem unfolding all_nodes_def all_edges_def incoming_edges_def by blast
  ultimately show ?thesis
    unfolding same_answers_def by (auto simp: q l mirrors_get [OF assms])
qed

section \<open>Resolution\<close>

lemma map_byte_of_item_length: "map_res byte_of_item xs = Inr ys \<Longrightarrow> length ys = length xs"
  by (rule map_res_eq_InrD)

lemma Hash_of_34: "Hash_of v = Inr h \<Longrightarrow> hash34 h"
  by (cases v) (auto simp: Hash_eq_Inr hash34_def HASH_SIZE_def split: if_splits dest!: map_res_eq_InrD)

lemma map_res_Hash_of_34: "map_res Hash_of vs = Inr hs \<Longrightarrow> list_all hash34 hs"
  by (induction vs arbitrary: hs) (auto simp: res_simps Hash_of_34)

text \<open>Whatever a blob decodes to as an edge, its addresses are hashes.\<close>

lemma edge_from_bytes_ok: "edge_from_bytes E b = Inr e \<Longrightarrow> edge_hashes_ok e"
  by (auto simp: edge_from_bytes_def res_simps edge_hashes_ok_def map_res_Hash_of_34 Hash_of_34 split: if_splits)

lemma option_of_res_Some: "option_of_res r = Some a \<Longrightarrow> r = Inr a"
  by (cases r) simp_all

lemma res_option_cases:
  obtains (fails) e where "r = Inl e" | (missing) "r = Inr None" | (found) a where "r = Inr (Some a)"
  by (cases r) (metis option.exhaust)+

lemma resolve_edge_ok: "resolve_edge E R h = Inr (Some e) \<Longrightarrow> edge_hashes_ok e"
  by (auto simp: resolve_edge_def res_simps split: option.splits dest!: option_of_res_Some edge_from_bytes_ok)

lemma resolve_edge_34:
  assumes "resolve_edge E R h = Inr (Some e)"
  shows "list_all hash34 (e_premises e)" and "hash34 (e_conclusion e)" and "e_proof_hash e = Some p \<Longrightarrow> hash34 p"
  using resolve_edge_ok [OF assms] by (auto simp: edge_hashes_ok_def)

lemma resolve_same:
  assumes "same_answers R R'" and "hash34 h"
  shows "resolve_edge E R' h = resolve_edge E R h" and "resolve_node E R' h = resolve_node E R h"
  by (simp_all add: resolve_edge_def resolve_node_def same_answersD(1) [OF assms])

section \<open>Reachability and path discovery\<close>

lemma keep_derivations_same:
  assumes "same_answers R R'"
  shows "list_all hash34 hs \<Longrightarrow> keep_derivations E R' act hs = keep_derivations E R act hs"
proof (induction hs)
  case (Cons h hs)
  then show ?case
    by (cases "resolve_edge E R h" rule: res_option_cases) (simp_all add: resolve_same [OF assms])
qed simp

lemma keep_derivations_34:
  "keep_derivations E R act hs = Inr des \<Longrightarrow> (h, e) \<in> set des \<Longrightarrow> list_all hash34 (e_premises e)"
proof (induction hs arbitrary: des)
  case (Cons k hs)
  then show ?case
    by (auto simp: res_simps dest!: resolve_edge_34(1) split: if_splits option.splits)
qed simp

lemma derivation_edges_same:
  assumes "same_answers R R'"
  shows "derivation_edges E R' act = derivation_edges E R act"
proof (cases "rd_all_edges R")
  case (Inr hs)
  then show ?thesis
    using keep_derivations_same [OF assms same_answersD(10) [OF assms Inr]]
    by (simp add: derivation_edges_def same_answersD(4) [OF assms])
qed (simp add: derivation_edges_def same_answersD(4) [OF assms])

lemma reachable_same: "same_answers R R' \<Longrightarrow> reachable E R' t m seeds act = reachable E R t m seeds act"
  by (simp add: reachable_def derivation_edges_same)

lemma frontier_loop_same:
  "same_answers R R' \<Longrightarrow> list_all hash34 stack \<Longrightarrow> (\<And>h. h \<in> all_premises em \<Longrightarrow> hash34 h) \<Longrightarrow>
    frontier_loop R' em est visited missing stack = frontier_loop R em est visited missing stack"
proof (induction R em est visited missing stack rule: frontier_loop.induct)
  case (2 storage em est visited missing node stack)
  have tail: "list_all hash34 stack" and node: "hash34 node" using "2.prems"(2) by simp_all
  note same = same_answersD(2) [OF "2.prems"(1) node]
  show ?case
  proof (cases "node \<in> set visited")
    case True
    then show ?thesis using "2.IH"(1) [OF True "2.prems"(1) tail "2.prems"(3)] by simp
  next
    case False
    show ?thesis
    proof (cases "rd_incoming storage node")
      case (Inr hs)
      have "set (pushed est (candidates em hs)) \<subseteq> all_premises em" by (rule pushed_subset)
      then have "list_all hash34 (rev (pushed est (candidates em hs)) @ stack)"
        using tail "2.prems"(3) by (auto simp: list_all_iff)
      from "2.IH"(2) [OF False Inr "2.prems"(1) this "2.prems"(3)] show ?thesis
        using False by (simp add: same Inr)
    qed (use False in \<open>simp add: same\<close>)
  qed
qed simp

lemma values_dict_of: "snd ` set (dict_of ps) \<subseteq> snd ` set ps"
proof -
  have "snd ` set (foldl (\<lambda>d (k, v). dict_set k v d) d ps) \<subseteq> snd ` set d \<union> snd ` set ps" for d
  proof (induction ps arbitrary: d)
    case (Cons p ps)
    from Cons.IH [of "dict_set (fst p) (snd p) d"] values_dict_set [of "fst p" "snd p" d]
    show ?case by (auto simp: split_beta)
  qed simp
  from this [of "[]"] show ?thesis by (simp add: dict_of_def)
qed

lemma derivation_edges_34:
  assumes "derivation_edges E R act = Inr des" and "h \<in> all_premises (dict_of des)"
  shows "hash34 h"
proof -
  obtain hs where "keep_derivations E R act hs = Inr des"
    using assms(1) by (auto simp: derivation_edges_def res_simps)
  from keep_derivations_34 [OF this] assms(2) show ?thesis
    using values_dict_of [of des] by (fastforce simp: all_premises_def list_all_iff)
qed

lemma path_discovery_same:
  assumes "same_answers R R'" and "hash34 t"
  shows "path_discovery E R' t m = path_discovery E R t m"
proof (cases "derivation_edges E R None")
  case (Inr des)
  have "frontier_loop R' (dict_of des) est [] [] [t] = frontier_loop R (dict_of des) est [] [] [t]" for est
    by (rule frontier_loop_same [OF assms(1)]) (use assms(2) derivation_edges_34 [OF Inr] in simp_all)
  then show ?thesis
    by (simp add: path_discovery_def derivation_edges_same [OF assms(1)] Inr Let_def del: frontier_loop.simps)
qed (simp add: path_discovery_def derivation_edges_same [OF assms(1)])

section \<open>Refutation\<close>

lemma load_edges_same:
  assumes "same_answers R R'"
  shows "list_all hash34 hs \<Longrightarrow> load_edges E R' hs edges = load_edges E R hs edges"
proof (induction hs arbitrary: edges)
  case (Cons h hs)
  then show ?case
    by (cases "resolve_edge E R h" rule: res_option_cases) (simp_all add: resolve_same [OF assms])
qed simp

lemma load_edges_34:
  "load_edges E R hs edges = Inr edges' \<Longrightarrow> (\<forall>e \<in> snd ` set edges. hash34 (e_conclusion e)) \<Longrightarrow>
     \<forall>e \<in> snd ` set edges'. hash34 (e_conclusion e)"
proof (induction hs arbitrary: edges)
  case (Cons h hs)
  show ?case
  proof (cases "resolve_edge E R h" rule: res_option_cases)
    case (found e)
    have "\<forall>e' \<in> snd ` set (dict_set h e edges). hash34 (e_conclusion e')"
      using values_dict_set [of h e edges] Cons.prems(2) resolve_edge_34(2) [OF found] by blast
    with Cons.IH Cons.prems(1) found show ?thesis by simp
  qed (use Cons in simp_all)
qed simp

lemma concluded_same:
  assumes "same_answers R R'"
  shows "(\<forall>e \<in> snd ` set edges. hash34 (e_conclusion e)) \<Longrightarrow> concluded E R' edges = concluded E R edges"
proof (induction edges)
  case (Cons he edges)
  obtain h e where "he = (h, e)" by (cases he)
  with Cons show ?case
    by (cases "resolve_node E R (e_conclusion e)" rule: res_option_cases) (simp_all add: resolve_same [OF assms])
qed simp

lemma active_subgraph_same:
  assumes "same_answers R R'"
  shows "compute_active_subgraph E R' = compute_active_subgraph E R"
proof -
  have "attack_graph E R' = attack_graph E R"
  proof (cases "rd_all_edges R")
    case (Inr hs)
    note load = load_edges_same [OF assms same_answersD(10) [OF assms Inr], of E "[]"]
    show ?thesis
    proof (cases "load_edges E R hs []")
      case edges: (Inr edges)
      from load_edges_34 [OF this] have "concluded E R' edges = concluded E R edges"
        by (intro concluded_same [OF assms]) simp
      then show ?thesis by (simp add: attack_graph_def same_answersD(4) [OF assms] Inr load edges)
    qed (simp add: attack_graph_def same_answersD(4) [OF assms] Inr load)
  qed (simp add: attack_graph_def same_answersD(4) [OF assms])
  then show ?thesis by (simp add: compute_active_subgraph_def)
qed

section \<open>Attestation\<close>

lemma find_from_same:
  assumes "same_answers R R'"
  shows "list_all int64_range is \<Longrightarrow> find_from R' h is = find_from R h is"
proof (induction "is")
  case (Cons i "is")
  then show ?case
    by (cases "rd_log_get R i" rule: res_option_cases) (simp_all add: same_answersD(7) [OF assms])
qed simp

lemma history_loop_same:
  assumes "same_answers R R'"
  shows "list_all int64_range is \<Longrightarrow> history_loop E R' is prev hs = history_loop E R is prev hs"
proof (induction "is" arbitrary: prev hs)
  case (Cons i "is")
  show ?case
  proof (cases "rd_log_get R i" rule: res_option_cases)
    case (found r)
    with Cons show ?thesis by (cases "verify_entry E r") (simp_all add: same_answersD(7) [OF assms])
  qed (use Cons.prems in \<open>simp_all add: same_answersD(7) [OF assms]\<close>)
qed simp

lemma log_indices:
  assumes "same_answers R R'" and "rd_log_len R = Inr n"
  shows "list_all int64_range (py_range n)"
  using same_answersD(8) [OF assms] by (auto simp: py_range_def list_all_iff int64_range_def)

lemma find_log_entry_same:
  assumes "same_answers R R'"
  shows "find_log_entry R' h = find_log_entry R h"
  using find_from_same [OF assms log_indices [OF assms]]
  by (cases "rd_log_len R") (simp_all add: find_log_entry_def same_answersD(5) [OF assms])

lemma verify_history_same:
  assumes "same_answers R R'"
  shows "verify_history E R' trusted = verify_history E R trusted"
  using history_loop_same [OF assms log_indices [OF assms]]
  by (cases "rd_log_len R") (simp_all add: verify_history_def same_answersD(5) [OF assms] cong: if_cong)

lemma attestation_same:
  assumes "same_answers R R'" and "edge_hashes_ok e"
  shows "verify_edge_attestation E e R' ro = verify_edge_attestation E e R ro"
  using assms(2) same_answersD(1) [OF assms(1)]
  by (simp add: verify_edge_attestation_def find_log_entry_same [OF assms(1)] edge_hashes_ok_def
      cong: option.case_cong split: option.splits)

lemma anchor_same: "same_answers R R' \<Longrightarrow> anchor E now R' ro = anchor E now R ro"
  by (simp add: anchor_def same_answersD)

section \<open>The read endpoints\<close>

lemma raw_id_34: "blake3_spec E \<Longrightarrow> raw_id E n = Inr h \<Longrightarrow> hash34 h"
  by (auto simp: raw_id_def res_simps hash34_def length_hash_bytes)

lemma hex_to_hash_34: "hex_to_hash U v = Inr h \<Longrightarrow> hash34 h"
  by (auto simp: hex_to_hash_def from_hex_def res_simps Hash_eq_Inr hash34_def split: json.splits sum.splits)

lemma bind_api_cong:
  "r = r' \<Longrightarrow> (\<And>a. r' = Inr a \<Longrightarrow> f a = f' a) \<Longrightarrow> bind_api r f = bind_api r' f'"
  by (cases r') (simp_all add: bind_api_def)

lemma bind_answer_cong:
  "r = r' \<Longrightarrow> (\<And>a. r' = Some (Inr a) \<Longrightarrow> f a = f' a) \<Longrightarrow> bind_answer r f = bind_answer r' f'"
  by (simp add: bind_answer_def split: option.splits sum.splits)

lemma bind_api_eq_Inr: "bind_api r f = Inr b \<longleftrightarrow> (\<exists>a. r = Inr a \<and> f a = Inr b)"
  by (cases r) simp_all

lemma query_reachable_same: "same_answers R R' \<Longrightarrow> query_reachable W R' body = query_reachable W R body"
  by (simp add: query_reachable_def reachable_same)

lemma of_res_Inr [simp]: "of_res r = Inr a \<longleftrightarrow> r = Inr a"
  by (cases r) (simp_all add: of_res_def)

lemma query_path_same:
  assumes "same_answers R R'" and "blake3_spec (aw_env W)"
  shows "query_path W R' body = query_path W R body"
  unfolding query_path_def Let_def
  by (intro bind_api_cong refl) (simp add: path_discovery_same [OF assms(1) raw_id_34 [OF assms(2)]])

lemma resolved_dicts_same:
  "(\<And>h. h \<in> set hs \<Longrightarrow> g' h = g h) \<Longrightarrow> resolved_dicts g' f hs = resolved_dicts g f hs"
  by (induction hs) (auto intro!: bind_api_cong split: option.splits)

lemma query_graph_same:
  assumes "same_answers R R'"
  shows "query_graph W R' = query_graph W R"
  unfolding query_graph_def Let_def same_answersD(3,4) [OF assms]
  by (intro bind_api_cong refl resolved_dicts_same resolve_same [OF assms])
    (use same_answersD(9,10) [OF assms] in \<open>auto simp: list_all_iff\<close>)

lemma found_same:
  assumes "same_answers R R'" and "hash34 h"
  shows "found_edge W R' h = found_edge W R h" and "found_node W R' role h = found_node W R role h"
  by (simp_all add: found_edge_def found_node_def resolve_same [OF assms])

lemma found_edge_ok: "found_edge W R h = Inr e \<Longrightarrow> edge_hashes_ok e"
  by (cases "resolve_edge (aw_env W) R h" rule: res_option_cases)
    (auto simp: found_edge_def of_res_def bind_api_def dest: resolve_edge_ok)

lemma edge_hash_item_34:
  "bind_api (json_item U body ''edge_hash'') (hex_to_hash U) = Inr h \<Longrightarrow> hash34 h"
  by (auto simp: bind_api_eq_Inr dest: hex_to_hash_34)

lemma attest_same:
  assumes "same_answers R R'"
  shows "attest W R' ro body = attest W R ro body"
  unfolding attest_def Let_def
  by (intro bind_api_cong refl found_same(1) [OF assms] arg_cong [of _ _ of_res] attestation_same [OF assms])
    (erule edge_hash_item_34 found_edge_ok)+

lemma map_api_cong: "(\<And>x. x \<in> set xs \<Longrightarrow> f x = g x) \<Longrightarrow> map_api f xs = map_api g xs"
  by (induction xs) simp_all

lemma reproduce_same:
  assumes "same_answers R R'"
  shows "reproduce W R' ro body = reproduce W R ro body"
proof -
  have proof_same: "(case e_proof_hash e of None \<Rightarrow> Inr None | Some ph \<Rightarrow> of_res (rd_get R' ph)) =
      (case e_proof_hash e of None \<Rightarrow> Inr None | Some ph \<Rightarrow> of_res (rd_get R ph))" if "edge_hashes_ok e" for e
    using that same_answersD(1) [OF assms] by (simp add: edge_hashes_ok_def split: option.splits)
  have nodes: "map_api (found_node W R' ''premise'') (e_premises e) = map_api (found_node W R ''premise'') (e_premises e)"
    "found_node W R' ''conclusion'' (e_conclusion e) = found_node W R ''conclusion'' (e_conclusion e)"
    if "edge_hashes_ok e" for e
    using that by (auto simp: edge_hashes_ok_def list_all_iff intro!: map_api_cong found_same(2) [OF assms])
  have gather: "bind_api (bind_api (json_item U body ''edge_hash'') (hex_to_hash U)) (\<lambda>eh.
        bind_api (found_edge W R' eh) (\<lambda>edge.
        bind_api (map_api (found_node W R' ''premise'') (e_premises edge)) (\<lambda>premises.
        bind_api (found_node W R' ''conclusion'' (e_conclusion edge)) (\<lambda>conclusion.
        bind_api (case e_proof_hash edge of None \<Rightarrow> Inr None | Some ph \<Rightarrow> of_res (rd_get R' ph)) (\<lambda>pf.
          Inr (edge, premises, conclusion, pf)))))) =
      bind_api (bind_api (json_item U body ''edge_hash'') (hex_to_hash U)) (\<lambda>eh.
        bind_api (found_edge W R eh) (\<lambda>edge.
        bind_api (map_api (found_node W R ''premise'') (e_premises edge)) (\<lambda>premises.
        bind_api (found_node W R ''conclusion'' (e_conclusion edge)) (\<lambda>conclusion.
        bind_api (case e_proof_hash edge of None \<Rightarrow> Inr None | Some ph \<Rightarrow> of_res (rd_get R ph)) (\<lambda>pf.
          Inr (edge, premises, conclusion, pf))))))" for U
    by (intro bind_api_cong refl found_same(1) [OF assms] nodes proof_same)
      (erule edge_hash_item_34 found_edge_ok)+
  show ?thesis
    unfolding reproduce_def Let_def gather
    by (intro bind_answer_cong refl)
      (auto simp: bind_api_eq_Inr attestation_same [OF assms found_edge_ok] intro!: bind_answer_cong)
qed

lemma anchor_endpoint_same: "same_answers R R' \<Longrightarrow> anchor_record_endpoint W now R' ro = anchor_record_endpoint W now R ro"
  by (simp add: anchor_record_endpoint_def anchor_same)

lemma history_endpoint_same: "same_answers R R' \<Longrightarrow> verify_history_endpoint W R' body = verify_history_endpoint W R body"
  by (simp add: verify_history_endpoint_def verify_history_same)

section \<open>Committing through a backend\<close>

text \<open>
  \<^verbatim>\<open>verify_and_commit\<close> as a program of storage calls: the nodes of the proposal, then the transaction. On the
  in-process storage it is the function \<open>verify_and_commit\<close>.
\<close>

type_synonym 'r client = "(storage_call, storage_answer res, 'r) prog"

fun put_nodes_calls :: "env \<Rightarrow> node list \<Rightarrow> (unit res \<Rightarrow> 'r client) \<Rightarrow> 'r client" where
  "put_nodes_calls E [] k = k (Inr ())"
| "put_nodes_calls E (n # ns) k =
     (case node_bytes E n of
        Inl e \<Rightarrow> k (Inl e)
      | Inr b \<Rightarrow> Call (C_put b) (\<lambda>a. case a of Inl e \<Rightarrow> k (Inl e) | Inr _ \<Rightarrow> put_nodes_calls E ns k))"

definition stored_result :: "verification_result \<Rightarrow> edge \<Rightarrow> storage_answer res \<Rightarrow> exn + commit_result" where
  "stored_result result edge a =
     (case a of
        Inl e \<Rightarrow> Inl (e, [])
      | Inr (A_commit (eh, entry)) \<Rightarrow>
          Inr \<lparr> cm_verification = result, cm_edge = Some edge, cm_edge_hash = Some eh, cm_log_entry = Some entry \<rparr>
      | Inr _ \<Rightarrow> Inl (TypeError, []))"

definition store_edge_calls ::
    "env \<Rightarrow> int \<Rightarrow> node list \<Rightarrow> node \<Rightarrow> bytes option \<Rightarrow> verification_result \<Rightarrow> edge \<Rightarrow>
      (exn + commit_result) client" where
  "store_edge_calls E now premises conclusion proof_bytes result edge =
     put_nodes_calls E (premises @ [conclusion]) (\<lambda>r.
       case r of
         Inl e \<Rightarrow> Return (Inl (e, []))
       | Inr _ \<Rightarrow>
           (case edge_bytes E edge of
              Inl e \<Rightarrow> Return (Inl (e, []))
            | Inr data \<Rightarrow>
                Call (C_commit now (e_premises edge) (e_conclusion edge) data proof_bytes) (\<lambda>a.
                  Return (stored_result result edge a))))"

definition verify_and_commit_calls ::
    "env \<Rightarrow> ('e, 'f, 'o, 'm) provers \<Rightarrow> int \<Rightarrow> bytes \<Rightarrow> node list \<Rightarrow> node \<Rightarrow> pystr \<Rightarrow> EdgeType \<Rightarrow>
      bytes option \<Rightarrow> timeout \<Rightarrow> (exn + commit_result) client option" where
  "verify_and_commit_calls E PV now signer_pubkey premises conclusion rule edge_type proof_bytes timeout =
     (case verify PV premises conclusion rule edge_type proof_bytes timeout of
        None \<Rightarrow> None
      | Some (Inl e) \<Rightarrow> Some (Return (Inl e))
      | Some (Inr result) \<Rightarrow>
          if rejected result
          then Some (Return (Inr \<lparr> cm_verification = result, cm_edge = None, cm_edge_hash = None,
                 cm_log_entry = None \<rparr>))
          else
            (case build_edge E signer_pubkey premises conclusion rule edge_type proof_bytes result of
               Inl e \<Rightarrow> Some (Return (Inl (e, [])))
             | Inr edge \<Rightarrow> Some (store_edge_calls E now premises conclusion proof_bytes result edge)))"

definition run_on :: "(storage_call \<Rightarrow> 's \<Rightarrow> 's \<times> storage_answer res) \<Rightarrow> 'r client option \<Rightarrow> 's \<Rightarrow> ('s \<times> 'r) option" where
  "run_on step p s = map_option (\<lambda>p. exec step p s) p"

lemma exec_put_nodes:
  "exec (sqlite_call E) (put_nodes_calls E ns k) s = (case put_nodes E ns s of (s', r) \<Rightarrow> exec (sqlite_call E) (k r) s')"
  by (induction ns arbitrary: s) (simp_all add: node_bytes_eq)

lemma exec_store_edge:
  "store_edge E now ps c p r e s = Some (exec (sqlite_call E) (store_edge_calls E now ps c p r e) s)"
  by (simp add: store_edge_def store_edge_calls_def exec_put_nodes put_nodes_eq edge_bytes_eq failed_def reply_def
      stored_result_def split: prod.split sum.split)

lemma run_verify_and_commit:
  "run_on (sqlite_call E) (verify_and_commit_calls E PV now signer ps c rule et p t) s =
     verify_and_commit E PV now signer ps c rule et p t s"
  by (simp add: run_on_def verify_and_commit_calls_def verify_and_commit_def build_edge_eq exec_store_edge
      split: option.split sum.split)

lemma safe_put_nodes:
  "(\<And>r. safe (sqlite_call E) (\<lambda>s. admissible E (committed (st_conn s))) (k r) (put_all E ns s)) \<Longrightarrow>
     safe (sqlite_call E) (\<lambda>s. admissible E (committed (st_conn s))) (put_nodes_calls E ns k) s"
  by (induction ns arbitrary: s) (simp_all add: node_bytes_eq)

lemma proposal_fits:
  assumes ok: "proposal_ok E s prems c p e" and "length prems < 2 ^ 63"
  shows "edge_fits (committed (st_conn s)) (hash_bytes E (edge_blob E e)) (e_premises e) (e_conclusion e)"
proof -
  note d = proposal_okD [OF ok]
  have "addressed E (st_objects s)" using d(4) by (simp add: storage_ok_def)
  moreover have "collision_free E (insert (edge_blob E e) (blobs_of s))"
    by (rule collision_free_subset [OF d(9)]) (auto simp: new_blobs_def)
  ultimately have "consistent_with (committed (st_conn s)) (hash_bytes E (edge_blob E e)) (e_premises e) (e_conclusion e)"
    by (rule typed_consistent [OF d(3) _ d(5,6)])
  then show ?thesis
    using d(6,7) assms(2) by (simp add: edge_fits_def edge_hashes_ok_def hash34_def length_hash_bytes [OF d(1)])
qed

lemma store_edge_calls_safe:
  assumes "proposal_ok E s prems c p e" and "length prems < 2 ^ 63" and "edge_blob E e \<noteq> []" and "int64_range now"
    and "log_has_room (committed (st_conn s))"
  shows "safe (sqlite_call E) (\<lambda>s. admissible E (committed (st_conn s))) (store_edge_calls E now prems c p r e) s"
  unfolding store_edge_calls_def
  by (rule safe_put_nodes) (use assms proposal_fits [OF assms(1,2)] in \<open>simp add: edge_bytes_eq split: sum.split\<close>)

lemma commit_agrees:
  assumes "mirrors P E G s d" and "verify PV prems c rule et p t = Some (Inr r)"
    and "proposal_ok E s prems c p (built_edge E signer prems c rule et p r)"
    and "edge_blob E (built_edge E signer prems c rule et p r) \<noteq> []"
    and "length prems < 2 ^ 63" and "int64_range now" and "log_has_room (committed (st_conn s))"
  shows "\<exists>s' d' result. verify_and_commit E PV now signer prems c rule et p t s = Some (s', result) \<and>
    run_on (grpc_call P G) (verify_and_commit_calls E PV now signer prems c rule et p t) d = Some (d', result) \<and>
    mirrors P E G s' d'"
proof (cases "rejected r")
  case True
  with assms(1,2) show ?thesis by (simp add: verify_and_commit_def verify_and_commit_calls_def run_on_def)
next
  case False
  let ?e = "built_edge E signer prems c rule et p r"
  let ?q = "store_edge_calls E now prems c p r ?e"
  have q: "verify_and_commit_calls E PV now signer prems c rule et p t = Some ?q"
    using assms(2) False by (simp add: verify_and_commit_calls_def build_edge_eq)
  have "snd (exec (grpc_call P G) ?q d) = snd (exec (sqlite_call E) ?q s) \<and>
      mirrors P E G (fst (exec (sqlite_call E) ?q s)) (fst (exec (grpc_call P G) ?q d))"
    by (rule backends.exec_agrees [OF assms(1) store_edge_calls_safe [OF assms(3,5,4,6,7)]])
  then show ?thesis
    unfolding run_verify_and_commit [symmetric] q run_on_def by (auto simp: prod_eq_iff)
qed

lemma commit_unverified_agrees:
  assumes "\<And>r. verify PV prems c rule et p t \<noteq> Some (Inr r)"
  shows "(verify_and_commit E PV now signer prems c rule et p t s = None \<and>
      run_on (grpc_call P G) (verify_and_commit_calls E PV now signer prems c rule et p t) d = None) \<or>
    (\<exists>e. verify_and_commit E PV now signer prems c rule et p t s = Some (s, Inl e) \<and>
      run_on (grpc_call P G) (verify_and_commit_calls E PV now signer prems c rule et p t) d = Some (d, Inl e))"
  using assms
  by (auto simp: verify_and_commit_def verify_and_commit_calls_def run_on_def split: option.splits sum.splits)

text \<open>C10: \<open>verify_and_commit\<close> through the daemon is the \<open>verify_and_commit\<close> of the in-process storage: on backends that
  mirror each other a verified proposal gets the same result (the same edge, address and signed log entry, or
  the same rejection) and the backends mirror each other afterwards, so the daemon is a drop-in swap for the
  whole write path.\<close>

theorem commit_over_grpc:
  assumes "mirrors P E G s d" and "verify PV prems c rule et p t = Some (Inr r)"
    and "proposal_ok E s prems c p (built_edge E signer prems c rule et p r)"
    and "edge_blob E (built_edge E signer prems c rule et p r) \<noteq> []"
    and "length prems < 2 ^ 63" and "int64_range now" and "log_has_room (committed (st_conn s))"
  shows "\<exists>s' d' result. verify_and_commit E PV now signer prems c rule et p t s = Some (s', result) \<and>
    run_on (grpc_call P G) (verify_and_commit_calls E PV now signer prems c rule et p t) d = Some (d', result) \<and>
    mirrors P E G s' d'"
  by (rule commit_agrees [OF assms])

text \<open>Every read is independent of the backend: on backends that mirror each other the five query and attestation
  endpoints, the anchor, the history check and the active subgraph give the same answers, error answers
  included, for every request body, because every address they look up is a hash and every log index fits.\<close>

theorem reads_over_grpc:
  assumes "mirrors P (aw_env W) G s d"
  shows "query_reachable W (grpc_reader P G d) body = query_reachable W (sqlite_reader (aw_env W) s) body \<and>
    query_path W (grpc_reader P G d) body = query_path W (sqlite_reader (aw_env W) s) body \<and>
    query_graph W (grpc_reader P G d) = query_graph W (sqlite_reader (aw_env W) s) \<and>
    attest W (grpc_reader P G d) ro body = attest W (sqlite_reader (aw_env W) s) ro body \<and>
    reproduce W (grpc_reader P G d) ro body = reproduce W (sqlite_reader (aw_env W) s) ro body \<and>
    anchor_record_endpoint W now (grpc_reader P G d) ro = anchor_record_endpoint W now (sqlite_reader (aw_env W) s) ro \<and>
    verify_history_endpoint W (grpc_reader P G d) body = verify_history_endpoint W (sqlite_reader (aw_env W) s) body \<and>
    compute_active_subgraph E' (grpc_reader P G d) = compute_active_subgraph E' (sqlite_reader (aw_env W) s)"
  using mirrors_same_answers [OF assms] mirrorsD(2) [OF assms]
  by (simp add: query_reachable_same query_path_same query_graph_same attest_same reproduce_same
      anchor_endpoint_same history_endpoint_same active_subgraph_same)
section \<open>Witnesses\<close>

lemma sample_mirrors: "mirrors list_pebble ref_env ref_env sample_storage fresh_daemon"
  using fresh_mirrors by (simp add: sample_storage_def)

lemma sample_room: "log_has_room (committed (connect b None))"
  using fresh_admissible(1) by (simp add: connect_def open_db_def)

theorem commit_over_grpc_witness:
  "\<exists>s' d' result. verify_and_commit ref_env sample_provers 5 sample_key [] roster_node [] DEFINITION None five_seconds
       sample_storage = Some (s', result) \<and>
     run_on (grpc_call list_pebble ref_env)
       (verify_and_commit_calls ref_env sample_provers 5 sample_key [] roster_node [] DEFINITION None five_seconds)
       fresh_daemon = Some (d', result) \<and>
     mirrors list_pebble ref_env ref_env s' d'"
proof (rule commit_over_grpc [OF sample_mirrors verify_roster(1)])
  show "proposal_ok ref_env sample_storage [] roster_node None (built_edge ref_env sample_key [] roster_node [] DEFINITION None roster_result)"
    using roster_distinct unfolding roster_edge_def
    by (intro proposal_okI ref_env_blake3 ref_env_ed25519 ref_env_cbor storage_ok_sample sample_empty(2))
  show "edge_blob ref_env (built_edge ref_env sample_key [] roster_node [] DEFINITION None roster_result) \<noteq> []"
    by (simp add: edge_to_canonical_def)
qed (simp_all add: sample_room int64_range_def)

theorem reads_over_grpc_witness:
  "query_reachable sample_api (grpc_reader list_pebble ref_env fresh_daemon) (query_body roster_node K0) =
     query_reachable sample_api (sqlite_reader ref_env sample_storage) (query_body roster_node K0)"
  using reads_over_grpc [of list_pebble sample_api ref_env sample_storage fresh_daemon "query_body roster_node K0"] sample_mirrors
  by (simp add: sample_api_def)
end
