(* ===== verification/Grpc_Api.thy ===== *)
theory Grpc_Api
  imports Backend_Queries
begin

text \<open>
  The HTTP server on the gRPC backend (\<^verbatim>\<open>scripts/arxdb_serve.py --backend grpc\<close>): the same routes over the readers and
  the writes of the daemon. The routing of \<^verbatim>\<open>api/server.py\<close> is written once more with the backend as a parameter
  (\<open>route\<close>); on the in-process storage it is \<open>dispatch\<close>. The result: a client cannot tell the backends apart.
\<close>

section \<open>Definitions\<close>

definition commit_via ::
    "('e, 'f, 'o, 'm) api_world \<Rightarrow> bytes \<Rightarrow> json \<Rightarrow> (commit_request \<Rightarrow> ('s \<times> (exn + commit_result)) option) \<Rightarrow> 's \<Rightarrow>
      ('s \<times> json api) option" where
  "commit_via W default_signer body vc s =
     (case parse_commit W default_signer body of
        Inl e \<Rightarrow> Some (s, Inl e)
      | Inr q \<Rightarrow>
          (case vc q of
             None \<Rightarrow> None
           | Some (s', Inl (e, t)) \<Rightarrow> Some (s', Inl (Raised e t))
           | Some (s', Inr cr) \<Rightarrow> Some (s', commit_report (aw_env W) cr)))"

definition route ::
    "('e, 'f, 'o, 'm) api_world \<Rightarrow> int \<Rightarrow> reader \<Rightarrow> roster \<Rightarrow> (json \<Rightarrow> ('s \<times> json api) option) \<Rightarrow> 's \<Rightarrow> http_request \<Rightarrow>
      ('s \<times> (nat \<times> json) api) option" where
  "route W now rd ro commit_to s rq =
     (let path = takeWhile (\<lambda>c. c \<noteq> 63) (hq_path rq); get = (hq_method rq = GET) in
      if get \<and> path = str ''/health''
      then Some (s, ok200 (Inr (JObj [(str ''status'', jstr ''ok''), (str ''version'', JStr version)])))
      else if get \<and> path = str ''/anchor''
      then Some (s, ok200 (anchor_record_endpoint W now rd ro))
      else if get \<and> path = str ''/query/graph'' then Some (s, ok200 (query_graph W rd))
      else (case read_body (aw_unicode W) (aw_floats W) rq of
        Inl e \<Rightarrow> Some (s, Inl e)
      | Inr body \<Rightarrow>
          if \<not> get \<and> path = str ''/query/reachable'' then Some (s, ok200 (query_reachable W rd body))
          else if \<not> get \<and> path = str ''/query/path'' then Some (s, ok200 (query_path W rd body))
          else if \<not> get \<and> path = str ''/reproduce''
          then map_option (\<lambda>r. (s, ok200 r)) (reproduce W rd ro body)
          else if \<not> get \<and> path = str ''/attest'' then Some (s, ok200 (attest W rd ro body))
          else if \<not> get \<and> path = str ''/verify_history''
          then Some (s, ok200 (verify_history_endpoint W rd body))
          else if \<not> get \<and> path = str ''/commit''
          then map_option (\<lambda>(s', r). (s', ok200 r)) (commit_to body)
          else Some (s, Inr (404, JObj [(str ''error'',
            JStr (str ''no route for '' @ method_text (hq_method rq) @ [32] @ path))]))))"

text \<open>The application over a daemon.\<close>

record 'd grpc_app =
  ga_daemon :: "'d daemon"
  ga_roster :: roster
  ga_signer :: bytes

definition grpc_verify_and_commit ::
    "'d pebble \<Rightarrow> env \<Rightarrow> ('e, 'f, 'o, 'm) api_world \<Rightarrow> int \<Rightarrow> 'd daemon \<Rightarrow> commit_request \<Rightarrow>
      ('d daemon \<times> (exn + commit_result)) option" where
  "grpc_verify_and_commit P G W now d q =
     run_on (grpc_call P G)
       (verify_and_commit_calls (aw_env W) (aw_provers W) now (cq_signer q) (cq_premises q) (cq_conclusion q)
          (cq_rule q) (cq_edge_type q) (cq_proof q) (cq_timeout q)) d"

definition grpc_handle ::
    "'d pebble \<Rightarrow> env \<Rightarrow> ('e, 'f, 'o, 'm) api_world \<Rightarrow> int \<Rightarrow> 'd grpc_app \<Rightarrow> http_request \<Rightarrow>
      ('d grpc_app \<times> http_response) option" where
  "grpc_handle P G W now ga rq =
     (let d = ga_daemon ga in
      case route W now (grpc_reader P G d) (ga_roster ga)
             (\<lambda>body. commit_via W (ga_signer ga) body (grpc_verify_and_commit P G W now d) d) d rq of
        None \<Rightarrow> None
      | Some (d', r) \<Rightarrow>
          map_option (\<lambda>(status, payload). (ga\<lparr>ga_daemon := d'\<rparr>, send_json (aw_floats W) status payload))
            (settle W r))"

lemma commit_via_sqlite:
  "commit W now signer body s =
     commit_via W signer body (\<lambda>q. verify_and_commit (aw_env W) (aw_provers W) now (cq_signer q) (cq_premises q)
       (cq_conclusion q) (cq_rule q) (cq_edge_type q) (cq_proof q) (cq_timeout q) s) s"
  by (simp add: commit_def commit_via_def)

lemma dispatch_route:
  "dispatch W now ap rq =
     route W now (sqlite_reader (aw_env W) (ap_storage ap)) (ap_roster ap)
       (\<lambda>body. commit W now (ap_signer ap) body (ap_storage ap)) (ap_storage ap) rq"
  by (simp add: dispatch_def route_def Let_def)

section \<open>One request\<close>

definition apps_mirror :: "'d pebble \<Rightarrow> env \<Rightarrow> ('e, 'f, 'o, 'm) api_world \<Rightarrow> app \<Rightarrow> 'd grpc_app \<Rightarrow> bool" where
  "apps_mirror P G W ap ga \<longleftrightarrow>
     mirrors P (aw_env W) G (ap_storage ap) (ga_daemon ga) \<and> ga_roster ga = ap_roster ap \<and> ga_signer ga = ap_signer ap"

text \<open>A request that both backends can serve: its blobs do not collide, and its numbers fit into 64 bits.\<close>

definition request_fits :: "('e, 'f, 'o, 'm) api_world \<Rightarrow> int \<Rightarrow> app \<Rightarrow> http_request \<Rightarrow> bool" where
  "request_fits W now ap rq \<longleftrightarrow>
     fresh_blobs W ap rq \<and> int64_range now \<and> log_has_room (committed (st_conn (ap_storage ap))) \<and>
     (\<forall>body q. read_body (aw_unicode W) (aw_floats W) rq = Inr body \<longrightarrow>
        parse_commit W (ap_signer ap) body = Inr q \<longrightarrow> length (cq_premises q) < 2 ^ 63)"

definition outcomes_agree :: "('s \<Rightarrow> 't \<Rightarrow> bool) \<Rightarrow> ('s \<times> 'a) option \<Rightarrow> ('t \<times> 'a) option \<Rightarrow> bool" where
  "outcomes_agree R x y \<longleftrightarrow> rel_option (\<lambda>(s, a) (t, b). R s t \<and> a = b) x y"

lemma outcomes_agree_simps [simp]:
  "outcomes_agree R None None" "outcomes_agree R (Some (s, a)) (Some (t, b)) \<longleftrightarrow> R s t \<and> a = b"
  by (simp_all add: outcomes_agree_def)

lemma outcomes_agree_cases:
  assumes "outcomes_agree R x y"
  obtains "x = None" "y = None" | s t a where "x = Some (s, a)" "y = Some (t, a)" "R s t"
  using assms by (auto simp: outcomes_agree_def elim!: option.rel_cases)

lemma outcomes_agree_map:
  "outcomes_agree R x y \<Longrightarrow>
     outcomes_agree R (map_option (\<lambda>(s, a). (s, f a)) x) (map_option (\<lambda>(s, a). (s, f a)) y)"
  by (erule outcomes_agree_cases) simp_all

lemma route_agrees:
  assumes rd: "same_answers rd rd'" and "blake3_spec (aw_env W)" and st: "R s t"
    and "\<And>body. read_body (aw_unicode W) (aw_floats W) rq = Inr body \<Longrightarrow> outcomes_agree R (k body) (k' body)"
  shows "outcomes_agree R (route W now rd ro k s rq) (route W now rd' ro k' t rq)"
proof -
  note same = query_reachable_same [OF rd] query_path_same [OF rd assms(2)] query_graph_same [OF rd]
    attest_same [OF rd] reproduce_same [OF rd] anchor_endpoint_same [OF rd] history_endpoint_same [OF rd]
  have "outcomes_agree R (map_option (\<lambda>r. (s, ok200 r)) x) (map_option (\<lambda>r. (t, ok200 r)) x)" for x
    using st by (cases x) simp_all
  then show ?thesis
    using st assms(4) by (simp add: route_def Let_def same outcomes_agree_map split: sum.split)
qed

lemma grpc_commit_agrees:
  assumes m: "mirrors P (aw_env W) G (ap_storage ap) d" and specs: "cbor_spec (aw_env W)" "\<And>v. cbor_dumps (aw_env W) v \<noteq> []"
    and ok: "app_ok W ap" and fits: "request_fits W now ap rq" and body: "read_body (aw_unicode W) (aw_floats W) rq = Inr body"
  shows "outcomes_agree (\<lambda>s d. mirrors P (aw_env W) G s d) (commit W now (ap_signer ap) body (ap_storage ap))
    (commit_via W (ap_signer ap) body (grpc_verify_and_commit P G W now d) d)"
proof (cases "parse_commit W (ap_signer ap) body")
  case (Inl e)
  with m show ?thesis by (simp add: commit_def commit_via_def)
next
  case q: (Inr q)
  let ?E = "aw_env W"
  let ?v = "verify (aw_provers W) (cq_premises q) (cq_conclusion q) (cq_rule q) (cq_edge_type q) (cq_proof q) (cq_timeout q)"
  have "outcomes_agree (\<lambda>s d. mirrors P ?E G s d)
      (verify_and_commit ?E (aw_provers W) now (cq_signer q) (cq_premises q) (cq_conclusion q) (cq_rule q)
         (cq_edge_type q) (cq_proof q) (cq_timeout q) (ap_storage ap))
      (grpc_verify_and_commit P G W now d q)"
  proof (cases "\<exists>r. ?v = Some (Inr r)")
    case True
    then obtain r where r: "?v = Some (Inr r)" ..
    note b = mirrorsD(2,3) [OF m]
    have "proposal_ok ?E (ap_storage ap) (cq_premises q) (cq_conclusion q) (cq_proof q)
        (built_edge ?E (cq_signer q) (cq_premises q) (cq_conclusion q) (cq_rule q) (cq_edge_type q) (cq_proof q) r)"
      by (rule proposal_okI [OF b specs(1)])
        (use ok fits body q r in \<open>auto simp: app_ok_def request_fits_def fresh_blobs_def\<close>)
    from commit_agrees [OF m r this specs(2)] fits body q show ?thesis
      by (fastforce simp: request_fits_def grpc_verify_and_commit_def)
  next
    case False
    then show ?thesis
      using commit_unverified_agrees [of "aw_provers W" "cq_premises q" "cq_conclusion q" "cq_rule q" "cq_edge_type q"
          "cq_proof q" "cq_timeout q" ?E now "cq_signer q" "ap_storage ap" P G d] m
      by (auto simp: grpc_verify_and_commit_def)
  qed
  then show ?thesis
    by (rule outcomes_agree_cases) (auto simp: commit_def commit_via_def q split: sum.splits)
qed

lemma handle_agrees:
  assumes m: "apps_mirror P G W ap ga" and specs: "cbor_spec (aw_env W)" "\<And>v. cbor_dumps (aw_env W) v \<noteq> []"
    and ok: "app_ok W ap" and fits: "request_fits W now ap rq"
  shows "outcomes_agree (apps_mirror P G W) (handle W now ap rq) (grpc_handle P G W now ga rq)"
proof -
  let ?d = "ga_daemon ga"
  have st: "mirrors P (aw_env W) G (ap_storage ap) ?d" "ga_roster ga = ap_roster ap" "ga_signer ga = ap_signer ap"
    using m by (simp_all add: apps_mirror_def)
  have "outcomes_agree (\<lambda>s d. mirrors P (aw_env W) G s d) (dispatch W now ap rq)
      (route W now (grpc_reader P G ?d) (ga_roster ga)
         (\<lambda>body. commit_via W (ga_signer ga) body (grpc_verify_and_commit P G W now ?d) ?d) ?d rq)"
    unfolding dispatch_route st(2,3)
    by (rule route_agrees [where R = "\<lambda>s d. mirrors P (aw_env W) G s d", OF mirrors_same_answers [OF st(1)] mirrorsD(2) [OF st(1)] st(1)])
      (rule grpc_commit_agrees [OF st(1) specs ok fits])
  then show ?thesis
    by (rule outcomes_agree_cases)
      (auto simp: handle_def grpc_handle_def Let_def apps_mirror_def st(2,3) outcomes_agree_def option.rel_map
         intro!: option.rel_refl)
qed

section \<open>Any number of requests\<close>

text \<open>
  The answers to a list of requests, each with the time it is served at; no result if a checker does not return
  or a request is not \<open>well_typed\<close>.
\<close>

fun serve_requests :: "(int \<Rightarrow> 's \<Rightarrow> 'r \<Rightarrow> ('s \<times> 'o) option) \<Rightarrow> (int \<times> 'r) list \<Rightarrow> 's \<Rightarrow> ('s \<times> 'o list) option" where
  "serve_requests step [] s = Some (s, [])"
| "serve_requests step ((now, rq) # rs) s =
     (case step now s rq of
        None \<Rightarrow> None
      | Some (s', out) \<Rightarrow> map_option (\<lambda>(s'', outs). (s'', out # outs)) (serve_requests step rs s'))"

text \<open>Every request fits in the state it finds.\<close>

fun all_fit :: "('e, 'f, 'o, 'm) api_world \<Rightarrow> (int \<times> http_request) list \<Rightarrow> app \<Rightarrow> bool" where
  "all_fit W [] ap = True"
| "all_fit W ((now, rq) # rs) ap =
     (request_fits W now ap rq \<and> (case handle W now ap rq of None \<Rightarrow> True | Some (ap', out) \<Rightarrow> all_fit W rs ap'))"

lemma serve_requests_agree:
  assumes specs: "blake3_spec (aw_env W)" "ed25519_spec (aw_env W)" "cbor_spec (aw_env W)"
    "\<And>v. cbor_dumps (aw_env W) v \<noteq> []"
  shows "apps_mirror P G W ap ga \<Longrightarrow> app_ok W ap \<Longrightarrow> all_fit W rqs ap \<Longrightarrow>
    outcomes_agree (apps_mirror P G W) (serve_requests (handle W) rqs ap) (serve_requests (grpc_handle P G W) rqs ga)"
proof (induction rqs arbitrary: ap ga)
  case (Cons nrq rqs)
  obtain now rq where nrq: "nrq = (now, rq)" by (cases nrq)
  have fits: "request_fits W now ap rq" using Cons.prems(3) by (simp add: nrq)
  from handle_agrees [OF Cons.prems(1) specs(3,4) Cons.prems(2) fits]
  show ?case
  proof (cases rule: outcomes_agree_cases)
    case (2 ap' ga' out)
    have "app_ok W ap'"
      using handle_preserves [OF specs(1-3) Cons.prems(2) _ 2(1)] fits by (simp add: request_fits_def)
    moreover have "all_fit W rqs ap'" using Cons.prems(3) 2(1) by (simp add: nrq)
    ultimately have "outcomes_agree (apps_mirror P G W) (serve_requests (handle W) rqs ap')
        (serve_requests (grpc_handle P G W) rqs ga')"
      by (rule Cons.IH [OF 2(3)])
    from outcomes_agree_map [OF this, of "Cons out"] 2(1,2) show ?thesis by (simp add: nrq)
  qed (simp add: nrq)
qed simp

text \<open>C16: a client of the HTTP API cannot tell the backends apart: whatever requests it sends, in any number and order,
  the server over the daemon gives the responses of the server over the in-process storage, byte for byte,
  refusals and errors included, and does not return exactly when that one does not; and the two storages go on
  mirroring each other. (A list with a commit that is not \<open>well_typed\<close> has no result on either side.)\<close>

theorem http_over_grpc:
  assumes "blake3_spec (aw_env W)" and "ed25519_spec (aw_env W)" and "cbor_spec (aw_env W)"
    and "\<forall>v. cbor_dumps (aw_env W) v \<noteq> []"
    and "apps_mirror P G W ap ga" and "app_ok W ap" and "all_fit W rqs ap"
  shows "case serve_requests (handle W) rqs ap of
      None \<Rightarrow> serve_requests (grpc_handle P G W) rqs ga = None
    | Some (ap', responses) \<Rightarrow>
        \<exists>ga'. serve_requests (grpc_handle P G W) rqs ga = Some (ga', responses) \<and> apps_mirror P G W ap' ga'"
proof -
  have "outcomes_agree (apps_mirror P G W) (serve_requests (handle W) rqs ap) (serve_requests (grpc_handle P G W) rqs ga)"
    by (rule serve_requests_agree [OF assms(1-3) _ assms(5-7)]) (use assms(4) in blast)
  then show ?thesis by (rule outcomes_agree_cases) simp_all
qed

section \<open>A witness\<close>

text \<open>The roster's definition is posted, then the health of the server is asked.\<close>

abbreviation sample_requests :: "(int \<times> http_request) list" where
  "sample_requests \<equiv> [(5, client_post sample_floats (str ''/commit'') roster_body), (6, client_get (str ''/health''))]"

definition sample_grpc_app :: "batch grpc_app" where
  "sample_grpc_app = \<lparr> ga_daemon = fresh_daemon, ga_roster = alice_roster, ga_signer = sample_key \<rparr>"

lemma get_is_no_commit: "parse_commit W signer (JObj []) \<noteq> Inr q"
  by (simp add: parse_commit_def json_get_def json_item_def)

lemma posted_room:
  assumes "handle sample_api 5 sample_app (client_post sample_floats (str ''/commit'') roster_body) = Some (ap', resp)"
  shows "log_has_room (committed (st_conn (ap_storage ap')))"
proof -
  have "\<exists>out. verify_and_commit ref_env sample_provers 5 sample_key [] roster_node [] DEFINITION None five_seconds
      sample_storage = Some (ap_storage ap', out)"
    using handle_commit [OF read_body_post [OF sample_wire] client_post_simps(1) client_post_simps(2)
        parse_commit_body [OF roster_postable], of 5 sample_app] assms
    by (cases "verify_and_commit ref_env sample_provers 5 sample_key [] roster_node [] DEFINITION None five_seconds
      sample_storage") (auto simp del: str_Cons)
  then obtain out where "store_edge ref_env 5 [] roster_node None roster_result roster_edge sample_storage =
      Some (ap_storage ap', out)"
    using verify_and_commit_accepted [OF verify_roster] by (auto simp: roster_edge_def)
  with store_edge_effect [OF roster_ok, of 5 roster_result]
  have "\<exists>entry. t_log (committed (st_conn (ap_storage ap'))) = t_log (committed (st_conn sample_storage)) @ [entry]" by auto
  then show ?thesis by (auto simp: log_has_room_def connect_def open_db_def empty_db_def)
qed

theorem http_over_grpc_witness:
  "case serve_requests (handle sample_api) sample_requests sample_app of
      None \<Rightarrow> serve_requests (grpc_handle list_pebble ref_env sample_api) sample_requests sample_grpc_app = None
    | Some (ap', responses) \<Rightarrow>
        \<exists>ga'. serve_requests (grpc_handle list_pebble ref_env sample_api) sample_requests sample_grpc_app =
            Some (ga', responses) \<and> apps_mirror list_pebble ref_env sample_api ap' ga'"
proof (rule http_over_grpc)
  show "apps_mirror list_pebble ref_env sample_api sample_app sample_grpc_app"
    using sample_mirrors by (simp add: apps_mirror_def sample_grpc_app_def)
  have "request_fits sample_api 5 sample_app (client_post sample_floats (str ''/commit'') roster_body)"
    using roster_request_fresh parse_commit_body [OF roster_postable, of sample_api sample_key "[]" DEFINITION]
      read_body_post [OF sample_float_spec roster_sendable, of "aw_unicode sample_api"]
    by (auto simp: request_fits_def sample_room int64_range_def simp del: str_Cons)
  moreover have "request_fits sample_api 6 ap' (client_get (str ''/health''))"
    if "handle sample_api 5 sample_app (client_post sample_floats (str ''/commit'') roster_body) = Some (ap', out)" for ap' out
    using posted_room [OF that] get_is_no_commit [of sample_api]
    by (auto simp: request_fits_def fresh_blobs_def read_body_get int64_range_def simp del: str_Cons)
  ultimately show "all_fit sample_api sample_requests sample_app"
    by (auto simp del: str_Cons split: option.split)
  show "\<forall>v. cbor_dumps (aw_env sample_api) v \<noteq> []" using enc_nonempty by force
qed (simp_all add: ref_env_blake3 ref_env_ed25519 ref_env_cbor sample_app_ok)

end
