(* ===== verification/Parity_Vectors.thy ===== *)
theory Parity_Vectors
  imports Go_Log Json
begin

text \<open>
  The parity corpus: \<^verbatim>\<open>scripts/gen_parity_vectors.py\<close> records what the Python implementation computes on fixed
  inputs, \<^verbatim>\<open>go/pkg/parity/parity_test.go\<close> compares the Go implementation with it. Inputs of the CBOR vectors cross
  over as JSON in which bytes, integers and floats are tagged. \<open>parity_test_meaning\<close> says what a passing test
  says about the two sets of libraries: the part of \<open>libraries_agree\<close> that the repository checks.
\<close>

section \<open>Tagged values\<close>

definition tag :: "string \<Rightarrow> json \<Rightarrow> json" where
  "tag t v = JObj [(str t, v)]"

text \<open>A key of another type than text is outside the model.\<close>

fun key_text :: "pyval \<Rightarrow> pystr res" where
  "key_text (PStr s) = Inr s"
| "key_text _ = Inl (OtherError (str ''key''))"

function to_json_tagged :: "pyval \<Rightarrow> json res" where
  "to_json_tagged (PBytes b) = Inr (tag ''$b'' (JStr (hex b)))"
| "to_json_tagged (PBool b) = Inr (JBool b)"
| "to_json_tagged (PInt i) = Inr (tag ''$i'' (JStr (int_text i)))"
| "to_json_tagged (PFloat f) = Inr (tag ''$f'' (JFloat f))"
| "to_json_tagged (PStr s) = Inr (JStr s)"
| "to_json_tagged (PList xs) = and_then (map_res to_json_tagged xs) (\<lambda>ys. Inr (JList ys))"
| "to_json_tagged (PTuple xs) = and_then (map_res to_json_tagged xs) (\<lambda>ys. Inr (JList ys))"
| "to_json_tagged (PDict d) =
     and_then
       (map_res (\<lambda>(k, v). and_then (key_text k) (\<lambda>s. and_then (to_json_tagged v) (\<lambda>j. Inr (s, j)))) d)
       (\<lambda>items. Inr (JObj items))"
| "to_json_tagged PNone = Inr JNull"
| "to_json_tagged (PSet xs) = Inl TypeError"
  by pat_completeness auto
termination
proof (relation "measure size", goal_cases)
  case (4 d p k v s)
  then have "(k, v) \<in> set d" by simp
  from size_map_of_pair [OF this] show ?case by simp
qed (auto simp: less_Suc_eq_le size_list_estimation')

text \<open>\<open>hex.DecodeString\<close> and \<open>strconv.ParseInt\<close> with base 10 and 64 bits.\<close>

fun go_hex :: "pystr \<Rightarrow> bytes option" where
  "go_hex [] = Some []"
| "go_hex [c] = None"
| "go_hex (c # d # cs) =
     (case (hex_val c, hex_val d) of
        (Some x, Some y) \<Rightarrow> map_option (Cons (of_nat (16 * x + y))) (go_hex cs)
      | _ \<Rightarrow> None)"

definition go_digits :: "bool \<Rightarrow> pystr \<Rightarrow> int option" where
  "go_digits neg ds =
     (if ds = [] \<or> \<not> list_all is_digit ds then None
      else let i = (if neg then - int (digits_value ds) else int (digits_value ds)) in
        if int64_range i then Some i else None)"

fun go_ParseInt :: "pystr \<Rightarrow> int option" where
  "go_ParseInt [] = None"
| "go_ParseInt (c # cs) =
     (if c = 45 then go_digits True cs else if c = 43 then go_digits False cs else go_digits False (c # cs))"

text \<open>
  A Go value is written as the Python value it is encoded like; a map keeps the order of the text, which the
  canonical encoder does not look at. A number that is not tagged arrives as a \<open>float64\<close>. An array or object
  behind \<open>$f\<close> is outside the model.
\<close>

fun go_scalar :: "floats \<Rightarrow> json \<Rightarrow> pyval option" where
  "go_scalar F JNull = Some PNone"
| "go_scalar F (JBool b) = Some (PBool b)"
| "go_scalar F (JStr s) = Some (PStr s)"
| "go_scalar F (JFloat x) = Some (PFloat x)"
| "go_scalar F (JInt i) = map_option PFloat (fl_of_int F i)"
| "go_scalar F _ = None"

definition go_text :: "json \<Rightarrow> pystr" where
  "go_text v = (case v of JStr s \<Rightarrow> s | _ \<Rightarrow> [])"

function fromTagged :: "floats \<Rightarrow> json \<Rightarrow> pyval option" where
  "fromTagged F (JObj d) =
     (case map_of d (str ''$b'') of
        Some b \<Rightarrow> map_option PBytes (go_hex (go_text b))
      | None \<Rightarrow>
          (case map_of d (str ''$i'') of
             Some i \<Rightarrow> map_option PInt (go_ParseInt (go_text i))
           | None \<Rightarrow>
               (case map_of d (str ''$f'') of
                  Some f \<Rightarrow> go_scalar F f
                | None \<Rightarrow>
                    map_option PDict
                      (those (map (\<lambda>(k, v). map_option (Pair (PStr k)) (fromTagged F v)) d)))))"
| "fromTagged F (JList xs) = map_option PList (those (map (fromTagged F) xs))"
| "fromTagged F JNull = Some PNone"
| "fromTagged F (JBool b) = Some (PBool b)"
| "fromTagged F (JStr s) = Some (PStr s)"
| "fromTagged F (JFloat x) = Some (PFloat x)"
| "fromTagged F (JInt i) = map_option PFloat (fl_of_int F i)"
  by pat_completeness auto
termination
  by (relation "measure (\<lambda>(F, v). size v)")
    (auto simp: less_Suc_eq_le size_list_estimation' dest: size_member less_imp_le)

section \<open>What a tagged value stands for\<close>

text \<open>No set, integers of 64 bits, keys that are text and no tag.\<close>

fun plain_key :: "pyval \<Rightarrow> bool" where
  "plain_key (PStr s) = (s \<notin> {str ''$b'', str ''$i'', str ''$f''})"
| "plain_key _ = False"

function taggable :: "pyval \<Rightarrow> bool" where
  "taggable (PList xs) = (\<forall>x \<in> set xs. taggable x)"
| "taggable (PTuple xs) = (\<forall>x \<in> set xs. taggable x)"
| "taggable (PDict d) = (distinct (map fst d) \<and> (\<forall>(k, v) \<in> set d. plain_key k \<and> taggable v))"
| "taggable (PInt i) = int64_range i"
| "taggable (PSet xs) = False"
| "taggable PNone = True" | "taggable (PBool b) = True" | "taggable (PFloat f) = True"
| "taggable (PStr s) = True" | "taggable (PBytes b) = True"
  by pat_completeness auto
termination
proof (relation "measure size", goal_cases)
  case (4 d p k v)
  then have "(k, v) \<in> set d" by simp
  from size_map_of_pair [OF this] show ?case by simp
qed (auto simp: less_Suc_eq_le size_list_estimation')

lemma go_hex_hex [simp]: "go_hex (hex bs) = Some bs"
proof (induction bs)
  case (Cons b bs)
  then show ?case
    using byte_parts [of b] byte_of_parts [of b] by (simp add: hex_byte_def hex_val_digit)
qed simp

lemma go_ParseInt_text: "int64_range i \<Longrightarrow> go_ParseInt (int_text i) = Some i"
proof -
  assume i: "int64_range i"
  have d: "nat_text n \<noteq> []" "list_all is_digit (nat_text n)" for n using nat_text_digits by simp_all
  show ?thesis
  proof (cases "i < 0")
    case True
    with i d [of "nat (- i)"] show ?thesis by (simp add: int_text_def go_digits_def digits_value_nat_text)
  next
    case False
    obtain c cs where t: "nat_text (nat i) = c # cs" using d(1) by (cases "nat_text (nat i)") auto
    then have "is_digit c" using d(2) [of "nat i"] by simp
    then have "c \<noteq> 45" "c \<noteq> 43" by (auto simp: is_digit_def)
    with False i d [of "nat i"] t digits_value_nat_text [of "nat i"] show ?thesis
      by (simp add: int_text_def go_digits_def)
  qed
qed

text \<open>The three sides of a value: its tagged form, what Go reads from it, and its canonical form.\<close>

definition crosses :: "env \<Rightarrow> floats \<Rightarrow> pyval \<Rightarrow> json \<Rightarrow> pyval \<Rightarrow> bool" where
  "crosses E F v j w \<longleftrightarrow> to_json_tagged v = Inr j \<and> fromTagged F j = Some w \<and> canonicalize E v = Inr w"

lemma crosses_list:
  assumes "\<And>x. x \<in> set xs \<Longrightarrow> \<exists>j w. crosses E F x j w"
  shows "\<exists>js ws. map_res to_json_tagged xs = Inr js \<and> those (map (fromTagged F) js) = Some ws \<and>
    map_res (canonicalize E) xs = Inr ws"
  using assms
proof (induction xs)
  case (Cons x xs)
  then obtain js ws where "map_res to_json_tagged xs = Inr js" "those (map (fromTagged F) js) = Some ws"
    "map_res (canonicalize E) xs = Inr ws" by auto
  moreover obtain j w where "crosses E F x j w" using Cons.prems [of x] by auto
  ultimately show ?case by (auto simp: crosses_def)
qed simp

lemma crosses_dict:
  assumes "\<And>k v. (k, v) \<in> set d \<Longrightarrow> plain_key k \<and> (\<exists>j w. crosses E F v j w)"
  shows "\<exists>js ws. map_res (\<lambda>(k, v). and_then (key_text k) (\<lambda>s. and_then (to_json_tagged v) (\<lambda>j. Inr (s, j)))) d = Inr js \<and>
    those (map (\<lambda>(k, v). map_option (Pair (PStr k)) (fromTagged F v)) js) = Some ws \<and>
    map_res (\<lambda>(k, v). and_then (canonicalize E k) (\<lambda>k'. and_then (canonicalize E v) (\<lambda>v'.
       if hashable k' then Inr (k', v') else Inl TypeError))) d = Inr ws \<and>
    map fst ws = map fst d \<and> (\<forall>t \<in> {''$b'', ''$i'', ''$f''}. map_of js (str t) = None)"
  using assms
proof (induction d)
  case (Cons kv d)
  obtain k v where kv: "kv = (k, v)" by (cases kv)
  from Cons.prems [of k v] obtain j w s where "crosses E F v j w" "k = PStr s" "s \<notin> {str ''$b'', str ''$i'', str ''$f''}"
    by (cases k) (auto simp: kv)
  with Cons show ?case by (fastforce simp: kv crosses_def)
qed simp

lemma taggable_crosses: "taggable v \<Longrightarrow> \<exists>j w. crosses E F v j w"
proof (induction v rule: taggable.induct)
  case (1 xs)
  with crosses_list [of xs E F] show ?case by (auto simp: crosses_def)
next
  case (2 xs)
  with crosses_list [of xs E F] show ?case by (auto simp: crosses_def)
next
  case (3 d)
  have "plain_key k \<and> (\<exists>j w. crosses E F v j w)" if "(k, v) \<in> set d" for k v
    using 3 that by fastforce
  from crosses_dict [OF this] obtain js ws where
    "map_res (\<lambda>(k, v). and_then (key_text k) (\<lambda>s. and_then (to_json_tagged v) (\<lambda>j. Inr (s, j)))) d = Inr js"
    "those (map (\<lambda>(k, v). map_option (Pair (PStr k)) (fromTagged F v)) js) = Some ws"
    "map_res (\<lambda>(k, v). and_then (canonicalize E k) (\<lambda>k'. and_then (canonicalize E v) (\<lambda>v'.
       if hashable k' then Inr (k', v') else Inl TypeError))) d = Inr ws"
    "map fst ws = map fst d" "\<forall>t \<in> {''$b'', ''$i'', ''$f''}. map_of js (str t) = None" by blast
  moreover have "distinct (map fst d)" using 3(2) by simp
  ultimately show ?case by (auto simp: crosses_def dict_of_items_distinct)
qed (auto simp: crosses_def [abs_def] tag_def go_text_def go_ParseInt_text)
section \<open>The corpus\<close>

definition seed_bytes :: bytes where
  "seed_bytes = map of_nat [0..<32]"

definition FIXED_TS_NS :: int where
  "FIXED_TS_NS = 1700000000000000000"

definition HASH_ZERO :: bytes where
  "HASH_ZERO = [0x1E, 0x20] @ replicate 32 0"

definition HASH_FF :: bytes where
  "HASH_FF = [0x1E, 0x20] @ replicate 32 0xff"

definition SIG_MSG :: "env \<Rightarrow> pyval" where
  "SIG_MSG E = PList [PInt 0, PInt FIXED_TS_NS, PBytes (ed_public E seed_bytes), PBytes HASH_ZERO, PBytes HASH_ZERO]"

definition EDGE_PAYLOAD :: pyval where
  "EDGE_PAYLOAD = PDict
     [(PStr (str ''type''), PStr (str ''citation'')),
      (PStr (str ''rule''), PStr (str ''Euler product + explicit formula'')),
      (PStr (str ''premises''), PList [PStr (hex HASH_ZERO), PStr (hex HASH_FF)]),
      (PStr (str ''conclusion''), PStr (hex HASH_ZERO)),
      (PStr (str ''kappa''), PStr (str ''K1'')),
      (PStr (str ''domain''), PStr (str ''number_theory''))]"

text \<open>\<open>"h\u00e9llo w\u00f6rld \u4f60\u597d"\<close> as code points and in UTF-8.\<close>

definition unicode_sample :: pystr where
  "unicode_sample = [104, 233, 108, 108, 111, 32, 119, 246, 114, 108, 100, 32, 20320, 22909]"

definition unicode_sample_bytes :: bytes where
  "unicode_sample_bytes =
     [104, 0xc3, 0xa9, 108, 108, 111, 32, 119, 0xc3, 0xb6, 114, 108, 100, 32, 0xe4, 0xbd, 0xa0, 0xe5, 0xa5, 0xbd]"

definition cbor_cases :: "env \<Rightarrow> (pystr \<times> pyval) list" where
  "cbor_cases E =
     [(str ''empty_bytes'', PBytes []),
      (str ''single_zero_byte'', PBytes [0]),
      (str ''hash_zeros'', PBytes HASH_ZERO),
      (str ''hash_ff'', PBytes HASH_FF),
      (str ''empty_string'', PStr []),
      (str ''ascii_string'', PStr (str ''hello world'')),
      (str ''unicode_string'', PStr unicode_sample),
      (str ''int_0'', PInt 0),
      (str ''int_23'', PInt 23),
      (str ''int_24'', PInt 24),
      (str ''int_255'', PInt 255),
      (str ''int_256'', PInt 256),
      (str ''int_65535'', PInt 65535),
      (str ''int_65536'', PInt 65536),
      (str ''int_2pow32'', PInt (2 ^ 32)),
      (str ''int_max_int64'', PInt (2 ^ 63 - 1)),
      (str ''int_neg1'', PInt (- 1)),
      (str ''int_neg24'', PInt (- 24)),
      (str ''int_neg25'', PInt (- 25)),
      (str ''int_min_int64'', PInt (- (2 ^ 63))),
      (str ''float_0'', PFloat 0),
      (str ''float_1'', PFloat 0x3FF0000000000000),
      (str ''float_half'', PFloat 0x3FE0000000000000),
      (str ''float_1p5'', PFloat 0x3FF8000000000000),
      (str ''float_pi'', PFloat 0x40091EB851EB851F),
      (str ''float_neg2p5'', PFloat 0xC004000000000000),
      (str ''float_1e300'', PFloat 0x7E37E43C8800759C),
      (str ''true'', PBool True),
      (str ''false'', PBool False),
      (str ''null'', PNone),
      (str ''empty_list'', PList []),
      (str ''list_ints'', PList [PInt 1, PInt 2, PInt 3]),
      (str ''nested_list'', PList [PList [PInt 1, PInt 2], PList [PInt 3, PList [PInt 4, PInt 5]]]),
      (str ''empty_map'', PDict []),
      (str ''map_str_keys'', PDict [(PStr (str ''b''), PInt 1), (PStr (str ''a''), PInt 2), (PStr (str ''aa''), PInt 3)]),
      (str ''nested_map'', PDict [(PStr (str ''a''), PList [PInt 1, PDict [(PStr (str ''b''), PInt 2)]]), (PStr (str ''c''), PNone)]),
      (str ''signature_message'', SIG_MSG E),
      (str ''edge_payload'', EDGE_PAYLOAD)]"

record cbor_vector =
  cv_name :: pystr
  cv_input :: json
  cv_expected :: pystr

record hex_vector =
  hv_name :: pystr
  hv_input_hex :: pystr
  hv_expected :: pystr

record merkle_vector =
  mv_name :: pystr
  mv_leaf_hexes :: "pystr list"
  mv_expected :: pystr

text \<open>Of the meta data only what the test reads.\<close>

record parity_corpus =
  pc_seed_hex :: pystr
  pc_public_key_hex :: pystr
  pc_cbor :: "cbor_vector list"
  pc_blake3 :: "hex_vector list"
  pc_ed25519 :: "hex_vector list"
  pc_merkle :: "merkle_vector list"

definition cbor_vectors :: "env \<Rightarrow> cbor_vector list res" where
  "cbor_vectors E =
     map_res (\<lambda>(name, value).
       and_then (to_json_tagged value) (\<lambda>input.
       and_then (canonical_encode E value) (\<lambda>data.
         Inr \<lparr> cv_name = name, cv_input = input, cv_expected = hex data \<rparr>))) (cbor_cases E)"

definition blake3_cases :: "env \<Rightarrow> (pystr \<times> bytes) list res" where
  "blake3_cases E =
     and_then (canonical_encode E EDGE_PAYLOAD) (\<lambda>payload.
       Inr [(str ''empty'', []), (str ''hello'', encode_ascii (str ''hello'')), (str ''zeros_32'', replicate 32 0),
            (str ''unicode'', unicode_sample_bytes), (str ''bytes_0_255'', map of_nat [0..<256]),
            (str ''edge_payload_cbor'', payload)])"

definition blake3_vectors :: "env \<Rightarrow> hex_vector list res" where
  "blake3_vectors E =
     and_then (blake3_cases E) (\<lambda>cases.
       Inr (map (\<lambda>(name, data). \<lparr> hv_name = name, hv_input_hex = hex data, hv_expected = hex (hash_bytes E data) \<rparr>) cases))"

definition ed25519_cases :: "env \<Rightarrow> (pystr \<times> bytes) list res" where
  "ed25519_cases E =
     and_then (canonical_encode E (SIG_MSG E)) (\<lambda>message.
       Inr [(str ''empty'', []), (str ''hello'', encode_ascii (str ''hello'')),
            (str ''quick_brown_fox'', encode_ascii (str ''the quick brown fox'')), (str ''signature_message'', message)])"

definition ed25519_vectors :: "env \<Rightarrow> hex_vector list res" where
  "ed25519_vectors E =
     and_then (ed25519_cases E) (\<lambda>cases.
       Inr (map (\<lambda>(name, msg). \<lparr> hv_name = name, hv_input_hex = hex msg, hv_expected = hex (ed_sign E seed_bytes msg) \<rparr>) cases))"

definition leaf :: "env \<Rightarrow> nat \<Rightarrow> hash" where
  "leaf E i = hash_bytes E (encode_ascii (str ''leaf-'' @ nat_text i))"

definition merkle_cases :: "env \<Rightarrow> (pystr \<times> hash list) list" where
  "merkle_cases E =
     [(str ''empty'', []), (str ''single'', [leaf E 0]), (str ''two'', [leaf E 0, leaf E 1]),
      (str ''three'', [leaf E 0, leaf E 1, leaf E 2]), (str ''five'', [leaf E 0, leaf E 1, leaf E 2, leaf E 3, leaf E 4])]"

definition merkle_vectors :: "env \<Rightarrow> merkle_vector list" where
  "merkle_vectors E =
     map (\<lambda>(name, leaves). \<lparr> mv_name = name, mv_leaf_hexes = map hex leaves, mv_expected = hex (root_hash E leaves) \<rparr>)
       (merkle_cases E)"

definition parity_vectors :: "env \<Rightarrow> parity_corpus res" where
  "parity_vectors E =
     and_then (cbor_vectors E) (\<lambda>cbor.
     and_then (blake3_vectors E) (\<lambda>blake.
     and_then (ed25519_vectors E) (\<lambda>ed.
       Inr \<lparr> pc_seed_hex = hex seed_bytes, pc_public_key_hex = hex (ed_public E seed_bytes),
             pc_cbor = cbor, pc_blake3 = blake, pc_ed25519 = ed, pc_merkle = merkle_vectors E \<rparr>)))"

section \<open>The test\<close>

text \<open>Whether \<open>TestParity\<close> reports nothing.\<close>

definition cbor_vector_passes :: "env \<Rightarrow> floats \<Rightarrow> cbor_vector \<Rightarrow> bool" where
  "cbor_vector_passes G F v =
     (case fromTagged F (cv_input v) of None \<Rightarrow> False | Some val \<Rightarrow> hex (cbor_dumps G val) = cv_expected v)"

definition blake3_vector_passes :: "env \<Rightarrow> hex_vector \<Rightarrow> bool" where
  "blake3_vector_passes G v =
     (case go_hex (hv_input_hex v) of None \<Rightarrow> False | Some data \<Rightarrow> hex (hash_bytes G data) = hv_expected v)"

definition ed25519_vector_passes :: "env \<Rightarrow> bytes \<Rightarrow> hex_vector \<Rightarrow> bool" where
  "ed25519_vector_passes G seed v =
     (case go_hex (hv_input_hex v) of
        None \<Rightarrow> False
      | Some msg \<Rightarrow> (case sign G seed msg of Inl e \<Rightarrow> False | Inr sig \<Rightarrow> hex sig = hv_expected v))"

definition go_leaf :: "pystr \<Rightarrow> hash option" where
  "go_leaf h = Option.bind (go_hex h) (\<lambda>raw. if length raw \<noteq> 34 then None else Some raw)"

definition merkle_vector_passes :: "env \<Rightarrow> merkle_vector \<Rightarrow> bool" where
  "merkle_vector_passes G v =
     (case those (map go_leaf (mv_leaf_hexes v)) of
        None \<Rightarrow> False
      | Some leaves \<Rightarrow> hex (root_hash G leaves) = mv_expected v)"

definition TestParity :: "env \<Rightarrow> floats \<Rightarrow> parity_corpus \<Rightarrow> bool" where
  "TestParity G F c =
     (case go_hex (pc_seed_hex c) of
        None \<Rightarrow> False
      | Some seed \<Rightarrow>
          length seed = 32 \<and> hex (ed_public G seed) = pc_public_key_hex c \<and>
          list_all (cbor_vector_passes G F) (pc_cbor c) \<and>
          list_all (blake3_vector_passes G) (pc_blake3 c) \<and>
          list_all (ed25519_vector_passes G seed) (pc_ed25519 c) \<and>
          list_all (merkle_vector_passes G) (pc_merkle c))"

section \<open>What the test means\<close>

lemma cases_taggable: "\<forall>(name, v) \<in> set (cbor_cases E). taggable v"
  by (simp add: cbor_cases_def SIG_MSG_def EDGE_PAYLOAD_def FIXED_TS_NS_def int64_range_def)

lemma cbor_case_vector:
  assumes "taggable v"
  shows "\<exists>j w. to_json_tagged v = Inr j \<and> canonicalize E v = Inr w \<and>
    (cbor_vector_passes G F \<lparr> cv_name = n, cv_input = j, cv_expected = hex (cbor_dumps E w) \<rparr> \<longleftrightarrow>
       cbor_dumps G w = cbor_dumps E w)"
  using taggable_crosses [OF assms, of E F] by (auto simp: crosses_def cbor_vector_passes_def hex_inject)

text \<open>What a list of cases becomes, and when all its vectors pass.\<close>

lemma cbor_vectors_pass:
  assumes "\<forall>(n, v) \<in> set cs. taggable v"
  shows "\<exists>vs. map_res (\<lambda>(name, value).
       and_then (to_json_tagged value) (\<lambda>input.
       and_then (canonical_encode E value) (\<lambda>data.
         Inr \<lparr> cv_name = name, cv_input = input, cv_expected = hex data \<rparr>))) cs = Inr vs \<and>
    (list_all (cbor_vector_passes G F) vs \<longleftrightarrow>
       (\<forall>(n, v) \<in> set cs. \<forall>w. canonicalize E v = Inr w \<longrightarrow> cbor_dumps G w = cbor_dumps E w))"
  using assms
proof (induction cs)
  case (Cons nv cs)
  obtain n v where nv: "nv = (n, v)" by (cases nv)
  with Cons.prems obtain j w where "to_json_tagged v = Inr j" "canonicalize E v = Inr w"
    "cbor_vector_passes G F \<lparr> cv_name = n, cv_input = j, cv_expected = hex (cbor_dumps E w) \<rparr> \<longleftrightarrow>
       cbor_dumps G w = cbor_dumps E w"
    using cbor_case_vector [of v E G F n] by auto
  moreover have "\<forall>(n, v) \<in> set cs. taggable v" using Cons.prems by simp
  from Cons.IH [OF this] obtain vs where "map_res (\<lambda>(name, value).
       and_then (to_json_tagged value) (\<lambda>input.
       and_then (canonical_encode E value) (\<lambda>data.
         Inr \<lparr> cv_name = name, cv_input = input, cv_expected = hex data \<rparr>))) cs = Inr vs"
    "list_all (cbor_vector_passes G F) vs \<longleftrightarrow>
       (\<forall>(n, v) \<in> set cs. \<forall>w. canonicalize E v = Inr w \<longrightarrow> cbor_dumps G w = cbor_dumps E w)" by blast
  ultimately show ?case by (simp add: nv canonical_encode_def)
qed simp

definition agree_on_corpus :: "env \<Rightarrow> env \<Rightarrow> bool" where
  "agree_on_corpus E G \<longleftrightarrow>
     ed_public G seed_bytes = ed_public E seed_bytes \<and>
     (\<forall>(name, v) \<in> set (cbor_cases E). \<forall>w. canonicalize E v = Inr w \<longrightarrow> cbor_dumps G w = cbor_dumps E w) \<and>
     (\<forall>cs. blake3_cases E = Inr cs \<longrightarrow> (\<forall>(name, d) \<in> set cs. blake3 G d = blake3 E d)) \<and>
     (\<forall>cs. ed25519_cases E = Inr cs \<longrightarrow> (\<forall>(name, m) \<in> set cs. ed_sign G seed_bytes m = ed_sign E seed_bytes m)) \<and>
     (\<forall>(name, hs) \<in> set (merkle_cases E). root_hash G hs = root_hash E hs)"

lemma hash_bytes_agree: "hash_bytes G d = hash_bytes E d \<longleftrightarrow> blake3 G d = blake3 E d"
  by (simp add: hash_bytes_def)

lemma those_leaves:
  "list_all (\<lambda>h. length h = 34) hs \<Longrightarrow> those (map go_leaf (map hex hs)) = Some hs"
  by (induction hs) (simp_all add: go_leaf_def)

lemma merkle_cases_34:
  "blake3_spec E \<Longrightarrow> (n, hs) \<in> set (merkle_cases E) \<Longrightarrow> list_all (\<lambda>h. length h = 34) hs"
  by (auto simp: merkle_cases_def leaf_def length_hash_bytes)

lemma merkle_vectors_pass:
  assumes "blake3_spec E"
  shows "list_all (merkle_vector_passes G) (merkle_vectors E) \<longleftrightarrow>
    (\<forall>(name, hs) \<in> set (merkle_cases E). root_hash G hs = root_hash E hs)"
proof -
  have "merkle_vector_passes G \<lparr> mv_name = n, mv_leaf_hexes = map hex hs, mv_expected = hex (root_hash E hs) \<rparr> \<longleftrightarrow>
      root_hash G hs = root_hash E hs" if "(n, hs) \<in> set (merkle_cases E)" for n hs
    using those_leaves [OF merkle_cases_34 [OF assms that]] by (simp add: merkle_vector_passes_def hex_inject)
  then show ?thesis by (fastforce simp: merkle_vectors_def list_all_iff)
qed

lemma hex_vectors_pass:
  shows "blake3_vectors E = Inr vs \<Longrightarrow> blake3_cases E = Inr bs \<Longrightarrow>
      list_all (blake3_vector_passes G) vs \<longleftrightarrow> (\<forall>(name, d) \<in> set bs. blake3 G d = blake3 E d)"
    and "ed25519_vectors E = Inr vs \<Longrightarrow> ed25519_cases E = Inr ms \<Longrightarrow>
      list_all (ed25519_vector_passes G seed_bytes) vs \<longleftrightarrow>
      (\<forall>(name, m) \<in> set ms. ed_sign G seed_bytes m = ed_sign E seed_bytes m)"
proof -
  have "length seed_bytes = 32" by (simp add: seed_bytes_def)
  then show "ed25519_vectors E = Inr vs \<Longrightarrow> ed25519_cases E = Inr ms \<Longrightarrow>
      list_all (ed25519_vector_passes G seed_bytes) vs \<longleftrightarrow>
      (\<forall>(name, m) \<in> set ms. ed_sign G seed_bytes m = ed_sign E seed_bytes m)"
    by (clarsimp simp: ed25519_vectors_def list_all_iff ed25519_vector_passes_def hex_inject sign_def key_sizes split_beta)
next
  show "blake3_vectors E = Inr vs \<Longrightarrow> blake3_cases E = Inr bs \<Longrightarrow>
      list_all (blake3_vector_passes G) vs \<longleftrightarrow> (\<forall>(name, d) \<in> set bs. blake3 G d = blake3 E d)"
    by (clarsimp simp: blake3_vectors_def list_all_iff blake3_vector_passes_def hex_inject hash_bytes_agree split_beta)
qed

lemma payloads_canonical:
  obtains w w' where "canonicalize E EDGE_PAYLOAD = Inr w" and "canonicalize E (SIG_MSG E) = Inr w'"
proof -
  have "(str ''signature_message'', SIG_MSG E) \<in> set (cbor_cases E)" "(str ''edge_payload'', EDGE_PAYLOAD) \<in> set (cbor_cases E)"
    by (simp_all add: cbor_cases_def del: str_Cons)
  with cases_taggable [of E] have "taggable (SIG_MSG E)" "taggable EDGE_PAYLOAD" by fastforce+
  then show thesis using that taggable_crosses [of _ E undefined] unfolding crosses_def by blast
qed

text \<open>C37: what the cross-language parity test establishes: generating the vectors from the Python implementation
  succeeds, and the Go test passes on them exactly if the Go libraries compute on the corpus what the Python
  ones do: the public key of the seed, the encoding of every CBOR case (each arrives in Go as the canonical
  form of the Python value, nothing is lost in the tagged JSON), the digests, the signatures and the Merkle
  roots. Go libraries that agree with the Python ones pass.\<close>

theorem parity_test_meaning:
  assumes "blake3_spec E"
  shows "\<exists>c. parity_vectors E = Inr c \<and> (TestParity G F c \<longleftrightarrow> agree_on_corpus E G) \<and>
    (libraries_agree E G \<and> ed_public G seed_bytes = ed_public E seed_bytes \<longrightarrow> TestParity G F c)"
proof -
  obtain vs where vs: "cbor_vectors E = Inr vs" "list_all (cbor_vector_passes G F) vs \<longleftrightarrow>
      (\<forall>(n, v) \<in> set (cbor_cases E). \<forall>w. canonicalize E v = Inr w \<longrightarrow> cbor_dumps G w = cbor_dumps E w)"
    using cbor_vectors_pass [where cs = "cbor_cases E" and E = E and G = G and F = F, OF cases_taggable] unfolding cbor_vectors_def by blast
  obtain bs ms where bs: "blake3_cases E = Inr bs" and ms: "ed25519_cases E = Inr ms"
    by (rule payloads_canonical [of E]) (simp add: blake3_cases_def ed25519_cases_def canonical_encode_def del: str_Cons)
  obtain c where run: "parity_vectors E = Inr c"
    by (simp add: parity_vectors_def vs(1) blake3_vectors_def ed25519_vectors_def bs ms)
  then have c: "pc_seed_hex c = hex seed_bytes" "pc_public_key_hex c = hex (ed_public E seed_bytes)" "pc_cbor c = vs"
    "pc_merkle c = merkle_vectors E" "blake3_vectors E = Inr (pc_blake3 c)" "ed25519_vectors E = Inr (pc_ed25519 c)"
    by (auto simp: parity_vectors_def vs(1) res_simps)
  note pass = hex_vectors_pass(1) [OF c(5) bs, of G] hex_vectors_pass(2) [OF c(6) ms, of G] merkle_vectors_pass [OF assms, of G]
  have "length seed_bytes = 32" by (simp add: seed_bytes_def)
  then have "TestParity G F c \<longleftrightarrow> agree_on_corpus E G"
    by (simp add: TestParity_def c(1-4) vs(2) pass agree_on_corpus_def bs ms hex_inject)
  moreover have "agree_on_corpus E G" if "libraries_agree E G" "ed_public G seed_bytes = ed_public E seed_bytes"
    using that agreeD(2,4) [OF that(1)] canonicalize_encodable
    by (auto simp: agree_on_corpus_def libraries_agree_def seed_bytes_def)
  ultimately show ?thesis using run by blast
qed

theorem parity_test_meaning_witness:
  "\<forall>F. \<exists>c. parity_vectors ref_env = Inr c \<and> TestParity ref_env F c"
proof
  fix F
  show "\<exists>c. parity_vectors ref_env = Inr c \<and> TestParity ref_env F c"
    using parity_test_meaning [OF ref_env_blake3, of ref_env F] ref_env_cbor by (auto simp: libraries_agree_def)
qed

text \<open>The tags are not escaped: a map whose key is a tag arrives as the tagged kind.\<close>

lemma tag_is_ambiguous:
  "to_json_tagged (PDict [(PStr (str ''$b''), PStr [])]) = to_json_tagged (PBytes []) \<and>
   fromTagged F (tag ''$b'' (JStr [])) = Some (PBytes [])"
  by (simp add: tag_def go_text_def)
end
