(* ===== verification/Go_Concurrency.thy ===== *)
theory Go_Concurrency
  imports Backend_Parity
begin

text \<open>
  \<^verbatim>\<open>go/cmd/arxdbd/main.go\<close> serves the calls of \<^verbatim>\<open>go/pkg/service\<close> with \<open>grpc.NewServer\<close>, which runs every call in a
  goroutine of its own, and neither the service nor the storage holds a lock. A writing call is therefore two
  steps: it fills a batch from what the database holds at that moment, and later commits it. The step
  relation lets other calls in between; the parameter \<open>ov\<close> says whether calls may overlap. Calls that only
  read or only put blobs do not touch the database and have no step.
\<close>

section \<open>Writing calls in two steps\<close>

datatype write_call =
  W_commit int64 "hash list" hash "bytes option" "bytes option"
| W_append int64 "bytes option"
| W_register_edge hash "hash list" hash
| W_register_node hash

text \<open>The daemon after the blobs are put, and the batch with the new log entry, if there is one.\<close>

fun prepare :: "'d pebble \<Rightarrow> env \<Rightarrow> write_call \<Rightarrow> 'd daemon \<Rightarrow> 'd daemon \<times> (batch \<times> go_entry option) option" where
  "prepare P G (W_commit ts premises conclusion edgeData proof_blob) s =
     (let s1 = put_object G (slice edgeData) s;
          s2 = (case proof_blob of None \<Rightarrow> s1 | Some p \<Rightarrow> put_object G p s1) in
      (s2, map_option (apsnd Some)
         (appendInBatch P G (dm_priv s2) (dm_pub s2) ts edgeData (dm_db s2)
            (RegisterEdge (hash_bytes G (slice edgeData)) premises conclusion []))))"
| "prepare P G (W_append ts entry) s =
     (s, map_option (apsnd Some) (appendInBatch P G (dm_priv s) (dm_pub s) ts entry (dm_db s) []))"
| "prepare P G (W_register_edge edge premises conclusion) s = (s, Some (RegisterEdge edge premises conclusion [], None))"
| "prepare P G (W_register_node node) s = (s, Some (RegisterNode node [], None))"

definition finish :: "'d pebble \<Rightarrow> batch \<Rightarrow> 'd daemon \<Rightarrow> 'd daemon" where
  "finish P b s = s\<lparr>dm_db := pb_commit P b (dm_db s)\<rparr>"

text \<open>The two steps, one right after the other, are the operations of \<open>Go_Service\<close>.\<close>

definition at_once :: "'d pebble \<Rightarrow> env \<Rightarrow> write_call \<Rightarrow> 'd daemon \<Rightarrow> 'd daemon \<times> go_entry option option" where
  "at_once P G w s =
     (case prepare P G w s of
        (s', None) \<Rightarrow> (s', None)
      | (s', Some (b, e)) \<Rightarrow> (finish P b s', Some e))"

text \<open>
  The daemon while calls are open: the batches filled and not committed, and the log entries that were
  answered, in the order of the answers.
\<close>

record 'd serving =
  sv_daemon :: "'d daemon"
  sv_open :: "(batch \<times> go_entry option) list"
  sv_answered :: "go_entry list"

definition serving :: "'d daemon \<Rightarrow> 'd serving" where
  "serving d = \<lparr> sv_daemon = d, sv_open = [], sv_answered = [] \<rparr>"

definition answer :: "go_entry option \<Rightarrow> go_entry list" where
  "answer e = (case e of None \<Rightarrow> [] | Some x \<Rightarrow> [x])"

inductive serve_step :: "'d pebble \<Rightarrow> env \<Rightarrow> bool \<Rightarrow> 'd serving \<Rightarrow> 'd serving \<Rightarrow> bool" for P G ov where
  fill: "ov \<or> sv_open s = [] \<Longrightarrow> prepare P G w (sv_daemon s) = (d, Some p) \<Longrightarrow>
    serve_step P G ov s (s\<lparr>sv_daemon := d, sv_open := sv_open s @ [p]\<rparr>)"
| refuse: "prepare P G w (sv_daemon s) = (d, None) \<Longrightarrow> serve_step P G ov s (s\<lparr>sv_daemon := d\<rparr>)"
| commit: "sv_open s = xs @ (b, e) # ys \<Longrightarrow>
    serve_step P G ov s (s\<lparr>sv_daemon := finish P b (sv_daemon s), sv_open := xs @ ys,
      sv_answered := sv_answered s @ answer e\<rparr>)"

inductive_cases serve_stepE: "serve_step P G ov s s'"

section \<open>One call at a time\<close>

lemma put_object_keeps [simp]:
  "dm_db (put_object G x s) = dm_db s" "dm_priv (put_object G x s) = dm_priv s" "dm_pub (put_object G x s) = dm_pub s"
  by (simp_all add: put_object_def)

lemma prepare_keeps:
  assumes "prepare P G w s = (s', r)"
  shows "dm_db s' = dm_db s" and "dm_priv s' = dm_priv s" and "dm_pub s' = dm_pub s"
proof -
  have "dm_db (fst (prepare P G w s)) = dm_db s \<and> dm_priv (fst (prepare P G w s)) = dm_priv s \<and>
      dm_pub (fst (prepare P G w s)) = dm_pub s"
    by (cases w) (simp_all add: Let_def split: option.split)
  with assms show "dm_db s' = dm_db s" "dm_priv s' = dm_priv s" "dm_pub s' = dm_pub s" by simp_all
qed

lemma at_once_register:
  "at_once P G (W_register_edge e ps c) s = (s\<lparr>dm_db := RegisterEdgeTx P e ps c (dm_db s)\<rparr>, Some None)"
  "at_once P G (W_register_node n) s = (s\<lparr>dm_db := RegisterNodeTx P n (dm_db s)\<rparr>, Some None)"
  by (simp_all add: at_once_def finish_def RegisterEdgeTx_def RegisterNodeTx_def)

lemma at_once_append:
  "at_once P G (W_append ts x) s =
     (let (d, r) = Append P G (dm_priv s) (dm_pub s) ts x (dm_db s) in (s\<lparr>dm_db := d\<rparr>, map_option Some r))"
  by (cases "appendInBatch P G (dm_priv s) (dm_pub s) ts x (dm_db s) []") (auto simp: at_once_def finish_def Append_def)

lemma at_once_commit:
  "at_once P G (W_commit ts ps c x p) s = apsnd (map_option (Some \<circ> snd)) (CommitEdgeTx P G ts ps c x p s)"
proof -
  define s2 where "s2 = (case p of None \<Rightarrow> put_object G (slice x) s | Some q \<Rightarrow> put_object G q (put_object G (slice x) s))"
  show ?thesis
    by (cases "appendInBatch P G (dm_priv s2) (dm_pub s2) ts x (dm_db s2) (RegisterEdge (hash_bytes G (slice x)) ps c [])")
      (auto simp: at_once_def finish_def CommitEdgeTx_def Let_def simp flip: s2_def)
qed

text \<open>The previous hash that entry \<open>i\<close> of a log carries, and a database that holds exactly the entries \<open>es\<close>.\<close>

definition link_before :: "go_entry list \<Rightarrow> nat \<Rightarrow> hash" where
  "link_before es i = (if i = 0 then GenesisPrevHash else ge_entry_hash (es ! (i - 1)))"

definition written :: "'d pebble \<Rightarrow> env \<Rightarrow> 'd \<Rightarrow> go_entry list \<Rightarrow> bool" where
  "written P G d es \<longleftrightarrow> Len P d = of_nat (length es) \<and>
     (\<forall>i < length es. pb_get P d (entryKey (of_nat i)) = Some (encodeEntry G (es ! i)) \<and>
        pb_get P d (entryHashKey (of_nat i)) = Some (ge_entry_hash (es ! i)) \<and>
        ge_seq (es ! i) = of_nat i \<and> length (ge_entry_hash (es ! i)) = 34 \<and>
        ge_prev_hash (es ! i) = link_before es i)"

lemma writtenD:
  assumes "written P G d es"
  shows "Len P d = of_nat (length es)"
    and "i < length es \<Longrightarrow> pb_get P d (entryKey (of_nat i)) = Some (encodeEntry G (es ! i))"
    and "i < length es \<Longrightarrow> pb_get P d (entryHashKey (of_nat i)) = Some (ge_entry_hash (es ! i))"
    and "i < length es \<Longrightarrow> ge_seq (es ! i) = of_nat i"
    and "i < length es \<Longrightarrow> length (ge_entry_hash (es ! i)) = 34"
    and "i < length es \<Longrightarrow> ge_prev_hash (es ! i) = link_before es i"
  using assms by (simp_all add: written_def)

lemma length_link: "written P G d es \<Longrightarrow> i \<le> length es \<Longrightarrow> length (link_before es i) = 34"
  by (simp add: link_before_def GenesisPrevHash_def writtenD(5))

lemma written_new: "pebble_spec P \<Longrightarrow> written P G (pb_new P) []"
  by (simp add: written_def Len_def pebble_specD(1))

lemma link_before_append: "i \<le> length es \<Longrightarrow> link_before (es @ [e]) i = link_before es i"
  by (auto simp: link_before_def nth_append)

text \<open>A batch of graph keys leaves the log alone.\<close>

lemma written_graph:
  assumes "pebble_spec P" and "graph_writes b" and "written P G d es"
  shows "written P G (pb_commit P b d) es"
  using assms(3) unfolding written_def Len_def pebble_specD(3) [OF assms(1)]
    batch_get_log [OF assms(1,2) log_keys_apart(1)] batch_get_log [OF assms(1,2) log_keys_apart(2)]
    batch_get_log [OF assms(1,2) log_keys_apart(3)] .

lemma word_of_index: "i < 2 ^ 63 \<Longrightarrow> j < 2 ^ 63 \<Longrightarrow> (of_nat i :: int64) = of_nat j \<longleftrightarrow> i = j"
  using word_index [of i "of_nat j"] by (auto simp: unat_of_nat)

text \<open>What \<open>appendInBatch\<close> reads over such a database, whatever the graph keys of the batch.\<close>

lemma log_seen:
  assumes "pebble_spec P" and "graph_writes b" and "written P G d es" and "length es < 2 ^ 63"
  shows "lenInBatch P d b = of_nat (length es)"
    and "prevHashInBatch P d b (of_nat (length es)) = Some (link_before es (length es))"
proof -
  let ?n = "length es"
  note get = batch_get_log [OF assms(1,2)]
  have "lenInBatch P d b = Len P d" by (simp add: lenInBatch_def Len_def get [OF log_keys_apart(3)])
  then show "lenInBatch P d b = of_nat ?n" by (simp add: writtenD(1) [OF assms(3)])
  show "prevHashInBatch P d b (of_nat ?n) = Some (link_before es ?n)"
  proof (cases "?n = 0")
    case False
    then have w: "(of_nat ?n :: int64) - 1 = of_nat (?n - 1)" "(of_nat ?n :: int64) \<noteq> 0"
      using word_of_index [of ?n 0] assms(4) by (cases ?n; simp)+
    have i: "?n - 1 < ?n" using False by simp
    have "pb_batch_get P d b (entryHashKey (of_nat ?n - 1)) = Some (ge_entry_hash (es ! (?n - 1)))"
      unfolding w(1) get [OF log_keys_apart(2)] by (rule writtenD(3) [OF assms(3) i])
    then show ?thesis
      using False w(2) writtenD(5) [OF assms(3) i] by (simp add: prevHashInBatch_def link_before_def)
  qed (simp add: prevHashInBatch_def link_before_def)
qed

text \<open>The entry it makes.\<close>

lemma appendInBatch_written:
  assumes "pebble_spec P" and "graph_writes b" and "written P G d es" and "length es < 2 ^ 63"
    and "appendInBatch P G priv pub ts x d b = Some (b', e)"
  shows "b' = b @ [(entryKey (of_nat (length es)), encodeEntry G e),
      (entryHashKey (of_nat (length es)), hash_bytes G (slice x)), (logLenKey, be64 (of_nat (length es) + 1))]"
    and "ge_seq e = of_nat (length es)" and "ge_entry_hash e = hash_bytes G (slice x)"
    and "ge_prev_hash e = link_before es (length es)" and "ge_payload e = x"
  using assms(5) by (auto simp: appendInBatch_def Let_def log_seen [OF assms(1-4)] slice_def bind_eq_Some_conv)

lemma committed_log_key:
  assumes "pebble_spec P" and "graph_writes b" and "take 1 k \<notin> {[110], [101], [112], [99], [111]}"
  shows "pb_get P (pb_commit P (b @ ws) d) k = (case map_of (rev ws) k of None \<Rightarrow> pb_get P d k | Some v \<Rightarrow> Some v)"
proof -
  have "k \<notin> fst ` set (rev b)" using assms(2,3) unfolding graph_writes_def by auto
  then have "map_of (rev b) k = None" by (simp add: map_of_eq_None_iff)
  then show ?thesis by (simp add: pebble_specD(2,3) [OF assms(1)] map_add_def split: option.split)
qed

lemma log_key_eqs [simp]:
  "entryKey v = entryKey w \<longleftrightarrow> v = w" "entryHashKey v = entryHashKey w \<longleftrightarrow> v = w"
  "entryKey v \<noteq> entryHashKey w" "entryHashKey w \<noteq> entryKey v" "entryKey v \<noteq> logLenKey" "logLenKey \<noteq> entryKey v"
  "entryHashKey v \<noteq> logLenKey" "logLenKey \<noteq> entryHashKey v"
  by (auto simp: entryKey_def entryHashKey_def logLenKey_def)

text \<open>Committing the batch of an entry, over a database with the same log as the one it was made over.\<close>

lemma written_append_over:
  assumes "pebble_spec P" and "blake3_spec G" and "graph_writes b" and "written P G d es" and "length es < 2 ^ 63"
    and app: "appendInBatch P G priv pub ts x d b = Some (b', e)"
    and same: "\<And>i. i < length es \<Longrightarrow> pb_get P d' (entryKey (of_nat i)) = Some (encodeEntry G (es ! i)) \<and>
      pb_get P d' (entryHashKey (of_nat i)) = Some (ge_entry_hash (es ! i))"
  shows "written P G (pb_commit P b' d') (es @ [e])"
proof -
  let ?n = "length es" and ?d = "pb_commit P b' d'"
  note e = appendInBatch_written [OF assms(1,3-6)]
  note get = committed_log_key [OF assms(1,3) log_keys_apart(1)]
    committed_log_key [OF assms(1,3) log_keys_apart(2)] committed_log_key [OF assms(1,3) log_keys_apart(3)]
  have len: "Len P ?d = of_nat (Suc ?n)" by (simp add: Len_def e(1) get add.commute)
  have old: "pb_get P ?d (entryKey (of_nat i)) = pb_get P d' (entryKey (of_nat i))"
    "pb_get P ?d (entryHashKey (of_nat i)) = pb_get P d' (entryHashKey (of_nat i))" if "i < ?n" for i
    using that assms(5) word_of_index [of i ?n] unfolding e(1) get by simp_all
  have new: "pb_get P ?d (entryKey (of_nat ?n)) = Some (encodeEntry G e)"
    "pb_get P ?d (entryHashKey (of_nat ?n)) = Some (ge_entry_hash e)"
    unfolding e(1) get by (simp_all add: e(3))
  show ?thesis
    unfolding written_def
  proof (intro conjI allI impI)
    show "Len P ?d = of_nat (length (es @ [e]))" using len by simp
  qed (use old new same e(2-4) writtenD(4-6) [OF assms(4)] length_hash_bytes [OF assms(2)] in
    \<open>auto simp: nth_append less_Suc_eq link_before_append\<close>)
qed

lemma written_append:
  assumes "pebble_spec P" and "blake3_spec G" and "graph_writes b" and "written P G d es" and "length es < 2 ^ 63"
    and "appendInBatch P G priv pub ts x d b = Some (b', e)"
  shows "written P G (pb_commit P b' d) (es @ [e])"
  by (rule written_append_over [OF assms]) (simp add: writtenD(2,3) [OF assms(4)])

text \<open>What a database that holds the entries answers.\<close>

lemma written_Get:
  assumes "cbor_spec G" and "written P G d es" and "i < length es" and "ge_payload (es ! i) = Some x"
  shows "Get P G d (of_nat i) = Some (Some (es ! i))"
proof -
  let ?e = "es ! i"
  define r where "r = \<lparr> le_seq = sint (ge_seq ?e), le_timestamp_ns = sint (ge_timestamp ?e),
    le_signer_pubkey = ge_signer ?e, le_entry_hash = ge_entry_hash ?e, le_prev_log_hash = ge_prev_hash ?e,
    le_signature = ge_signature ?e, le_payload = x \<rparr>"
  have range: "int64_range (sint w)" for w :: int64
    using sint_greater_eq [of w] sint_less [of w] by (simp add: int64_range_def)
  have "entry_ok r"
    using range writtenD(5,6) [OF assms(2,3)] length_link [OF assms(2), of i] assms(3)
    by (simp add: entry_ok_def r_def)
  moreover have "go_of r = ?e" using assms(4) by (simp add: go_of_def r_def)
  ultimately show ?thesis
    using decode_encode_entry [OF assms(1), of r] by (simp add: Get_def writtenD(2) [OF assms(2,3)])
qed

section \<open>Calls that do not overlap\<close>

text \<open>Nothing is open, or one batch, whose commit adds the entry it will answer.\<close>

definition settled :: "'d pebble \<Rightarrow> env \<Rightarrow> bytes \<Rightarrow> 'd serving \<Rightarrow> bool" where
  "settled P G priv s \<longleftrightarrow> dm_priv (sv_daemon s) = priv \<and> written P G (dm_db (sv_daemon s)) (sv_answered s) \<and>
     (sv_open s = [] \<or>
      (\<exists>b e. sv_open s = [(b, e)] \<and> written P G (pb_commit P b (dm_db (sv_daemon s))) (sv_answered s @ answer e)))"

lemma graph_writes_RegisterNode: "graph_writes (RegisterNode n [])"
  by (simp add: graph_writes_def RegisterNode_def nodeKey_def)

lemma graph_writes_Nil: "graph_writes []"
  by (simp add: graph_writes_def)

lemma prepared_batch:
  assumes "pebble_spec P" and "blake3_spec G" and "written P G (dm_db s) es" and "length es < 2 ^ 63"
    and "prepare P G w s = (s', Some (b, e))"
  shows "written P G (pb_commit P b (dm_db s')) (es @ answer e)"
proof -
  note db = prepare_keeps(1) [OF assms(5)]
  show ?thesis
  proof (cases w)
    case (W_commit ts ps c x p)
    then show ?thesis
      using assms(5) written_append [OF assms(1,2) graph_writes_edge assms(3,4)]
      by (auto simp: db answer_def Let_def split: option.splits)
  next
    case (W_append ts x)
    then show ?thesis
      using assms(5) written_append [OF assms(1,2) graph_writes_Nil assms(3,4)] by (auto simp: answer_def)
  qed (use assms(5) written_graph [OF assms(1) graph_writes_edge assms(3)]
      written_graph [OF assms(1) graph_writes_RegisterNode assms(3)] in \<open>auto simp: answer_def\<close>)
qed

lemma settled_step:
  assumes "pebble_spec P" and "blake3_spec G" and "settled P G priv s" and "length (sv_answered s) < 2 ^ 63"
    and "serve_step P G False s s'"
  shows "settled P G priv s'"
  using assms(5)
proof cases
  case (fill w d p)
  obtain b e where p: "p = (b, e)" by (cases p)
  from assms(3) have "written P G (dm_db (sv_daemon s)) (sv_answered s)" by (simp add: settled_def)
  from prepared_batch [OF assms(1,2) this assms(4) fill(3) [unfolded p]]
  show ?thesis using fill assms(3) p prepare_keeps [OF fill(3)] by (auto simp: settled_def)
next
  case (refuse w d)
  then show ?thesis using assms(3) prepare_keeps [OF refuse(2)] by (simp add: settled_def)
next
  case (commit xs b e ys)
  then show ?thesis using assms(3) by (auto simp: settled_def finish_def Cons_eq_append_conv append_eq_Cons_conv)
qed

lemma answered_grows: "serve_step P G ov s s' \<Longrightarrow> length (sv_answered s) \<le> length (sv_answered s')"
  by (erule serve_stepE) simp_all

lemma settled_run:
  assumes "pebble_spec P" and "blake3_spec G" and "settled P G priv s" and "(serve_step P G False)\<^sup>*\<^sup>* s s'"
    and "length (sv_answered s') < 2 ^ 63"
  shows "settled P G priv s'"
  using assms(4,5)
proof (induction rule: rtranclp_induct)
  case base
  show ?case by (rule assms(3))
next
  case (step t u)
  have "length (sv_answered t) < 2 ^ 63" using answered_grows [OF step.hyps(2)] step.prems by simp
  with step show ?case using settled_step [OF assms(1,2)] by blast
qed

lemma settled_new: "pebble_spec P \<Longrightarrow> settled P G priv (serving (Open P files None priv pub))"
  by (simp add: settled_def serving_def Open_def written_new)

text \<open>
  Calls that do not overlap are logged as they are answered: the daemon's log has as many entries as were
  answered, entry \<open>i\<close> is the \<open>i\<close>-th answered one and reads back so, and it is linked to the one before.
\<close>

theorem serial_calls_logged:
  assumes "pebble_spec P" and "blake3_spec G" and "cbor_spec G"
    and "(serve_step P G False)\<^sup>*\<^sup>* (serving (Open P files None priv pub)) s"
    and "length (sv_answered s) < 2 ^ 63"
  shows "Len P (dm_db (sv_daemon s)) = of_nat (length (sv_answered s)) \<and>
    (\<forall>i < length (sv_answered s).
       ge_seq (sv_answered s ! i) = of_nat i \<and>
       ge_prev_hash (sv_answered s ! i) = (if i = 0 then GenesisPrevHash else ge_entry_hash (sv_answered s ! (i - 1))) \<and>
       (ge_payload (sv_answered s ! i) \<noteq> None \<longrightarrow>
         Get P G (dm_db (sv_daemon s)) (of_nat i) = Some (Some (sv_answered s ! i))))"
proof -
  have "settled P G priv s"
    by (rule settled_run [OF assms(1,2) settled_new [OF assms(1)] assms(4,5)])
  then have w: "written P G (dm_db (sv_daemon s)) (sv_answered s)" by (simp add: settled_def)
  show ?thesis
  proof (intro conjI allI impI)
    fix i
    assume i: "i < length (sv_answered s)"
    show "ge_prev_hash (sv_answered s ! i) = (if i = 0 then GenesisPrevHash else ge_entry_hash (sv_answered s ! (i - 1)))"
      using writtenD(6) [OF w i] by (simp only: link_before_def)
    show "ge_seq (sv_answered s ! i) = of_nat i" by (rule writtenD(4) [OF w i])
    show "Get P G (dm_db (sv_daemon s)) (of_nat i) = Some (Some (sv_answered s ! i))"
      if payload: "ge_payload (sv_answered s ! i) \<noteq> None"
    proof -
      from payload obtain x where "ge_payload (sv_answered s ! i) = Some x" by (rule not_None_eq [THEN iffD1, THEN exE])
      then show ?thesis by (rule written_Get [OF assms(3) w i])
    qed
  qed (rule writtenD(1) [OF w])
qed

section \<open>Calls that overlap\<close>

lemma appendInBatch_total:
  assumes "pebble_spec P" and "graph_writes b" and "written P G d es" and "length es < 2 ^ 63" and "length priv = 32"
  obtains b' e where "appendInBatch P G priv pub ts x d b = Some (b', e)"
proof -
  let ?m = "signatureMessage G (of_nat (length es)) ts pub (hash_bytes G (slice x)) (link_before es (length es))"
  obtain sig where "sign G priv ?m = Inr sig" using assms(5) by (simp add: sign_def key_sizes)
  then show thesis using that by (simp add: appendInBatch_def Let_def log_seen [OF assms(1-4)] flip: slice_def)
qed

lemma edge_key_written:
  assumes "pebble_spec P"
  shows "pb_get P (pb_commit P (RegisterEdge e ps c [] @ ws) d) (edgeKey h) =
    (case map_of (rev ws) (edgeKey h) of
       None \<Rightarrow> if h = e then Some c else pb_get P d (edgeKey h)
     | Some v \<Rightarrow> Some v)"
proof -
  have none: "map_of (rev (map (\<lambda>p. (111 # p @ e, [])) ps)) (101 # h) = None"
    "map_of (rev (map (\<lambda>(pos, p). (112 # e @ be64 (of_nat pos), p)) (List.enumerate 0 ps))) (101 # h) = None"
    "map_of (rev (map (\<lambda>p. (110 # p, [])) ps)) (101 # h) = None"
    by (auto simp: map_of_eq_None_iff)
  have "map_of (rev (RegisterEdge e ps c [])) (edgeKey h) = (if h = e then Some c else None)"
    by (simp add: RegisterEdge_def key_defs map_add_def none)
  then show ?thesis by (auto simp: pebble_specD(2,3) [OF assms] map_add_def split: option.split)
qed

text \<open>The state after two overlapping commits, both filled before either is committed.\<close>

lemma overlap_run:
  assumes "sv_open s = []" and "prepare P G v (sv_daemon s) = (d1, Some (b1, e1))"
    and "prepare P G w d1 = (d2, Some (b2, e2))"
  shows "(serve_step P G True)\<^sup>*\<^sup>* s
    (s\<lparr>sv_daemon := finish P b2 (finish P b1 d2), sv_open := [],
       sv_answered := sv_answered s @ answer e1 @ answer e2\<rparr>)"
proof -
  let ?s1 = "s\<lparr>sv_daemon := d1, sv_open := [(b1, e1)]\<rparr>"
  let ?s2 = "?s1\<lparr>sv_daemon := d2, sv_open := [(b1, e1), (b2, e2)]\<rparr>"
  let ?s3 = "?s2\<lparr>sv_daemon := finish P b1 d2, sv_open := [(b2, e2)], sv_answered := sv_answered s @ answer e1\<rparr>"
  have "serve_step P G True s ?s1" using serve_step.fill [OF _ assms(2), of True] assms(1) by simp
  moreover have "serve_step P G True ?s1 ?s2" using serve_step.fill [of True ?s1 P G w d2] assms(3) by simp
  moreover have "serve_step P G True ?s2 ?s3"
    using serve_step.commit [of ?s2 "[]" b1 e1 "[(b2, e2)]" P G True] by simp
  moreover have "serve_step P G True ?s3
      (s\<lparr>sv_daemon := finish P b2 (finish P b1 d2), sv_open := [],
         sv_answered := sv_answered s @ answer e1 @ answer e2\<rparr>)"
    using serve_step.commit [of ?s3 "[]" b2 e2 "[]" P G True] by simp
  ultimately show ?thesis by (meson converse_rtranclp_into_rtranclp rtranclp.rtrancl_refl)
qed

text \<open>C40: Overlapping calls lose an entry. After any calls served one at a time by a new daemon, two commits of
  different edges can both be answered with the same sequence number; the log grows by one entry, the second
  one, while the edge of the first is in the graph with its conclusion.
\<close>

theorem overlapping_commits_lose_an_entry:
  assumes "pebble_spec P" and "blake3_spec G" and "cbor_spec G" and "length priv = 32"
    and "(serve_step P G False)\<^sup>*\<^sup>* (serving (Open P files None priv pub)) s"
    and "sv_open s = []" and "length (sv_answered s) < 2 ^ 63"
    and "hash_bytes G x \<noteq> hash_bytes G y"
  shows "\<exists>s' d1 d2 b1 b2 e f.
    prepare P G (W_commit t ps c (Some x) p) (sv_daemon s) = (d1, Some (b1, Some e)) \<and>
    prepare P G (W_commit u qs k (Some y) q) d1 = (d2, Some (b2, Some f)) \<and>
    (serve_step P G True)\<^sup>*\<^sup>* s s' \<and> sv_daemon s' = finish P b2 (finish P b1 d2) \<and>
    sv_answered s' = sv_answered s @ [e, f] \<and>
    ge_payload e = Some x \<and> ge_payload f = Some y \<and> ge_seq e = ge_seq f \<and>
    Len P (dm_db (sv_daemon s')) = Len P (dm_db (sv_daemon s)) + 1 \<and>
    Get P G (dm_db (sv_daemon s')) (ge_seq e) = Some (Some f) \<and>
    snd (GetConnectivity P (dm_db (sv_daemon s')) (hash_bytes G x)) = (hash_copy c, True)"
proof -
  let ?n = "length (sv_answered s)" and ?db = "dm_db (sv_daemon s)"
  let ?v = "W_commit t ps c (Some x) p" and ?w = "W_commit u qs k (Some y) q"
  let ?bv = "RegisterEdge (hash_bytes G x) ps c []" and ?bw = "RegisterEdge (hash_bytes G y) qs k []"
  have "settled P G priv s"
    by (rule settled_run [OF assms(1,2) settled_new [OF assms(1)] assms(5,7)])
  then have w: "written P G ?db (sv_answered s)" and priv: "dm_priv (sv_daemon s) = priv"
    by (simp_all add: settled_def)
  obtain b1 e where a1: "appendInBatch P G priv (dm_pub (sv_daemon s)) t (Some x) ?db ?bv = Some (b1, e)"
    using appendInBatch_total [OF assms(1) graph_writes_edge w assms(7,4)] by blast
  obtain b2 f where a2: "appendInBatch P G priv (dm_pub (sv_daemon s)) u (Some y) ?db ?bw = Some (b2, f)"
    using appendInBatch_total [OF assms(1) graph_writes_edge w assms(7,4)] by blast
  note e = appendInBatch_written [OF assms(1) graph_writes_edge w assms(7) a1]
    and f = appendInBatch_written [OF assms(1) graph_writes_edge w assms(7) a2]
  obtain d1 where d1: "prepare P G ?v (sv_daemon s) = (d1, Some (b1, Some e))"
    using a1 priv by (auto simp: slice_def Let_def split: option.split)
  note k1 = prepare_keeps [OF d1]
  obtain d2 where d2: "prepare P G ?w d1 = (d2, Some (b2, Some f))"
    using a2 priv k1 by (auto simp: slice_def Let_def split: option.split)
  note k2 = prepare_keeps [OF d2]
  let ?s' = "s\<lparr>sv_daemon := finish P b2 (finish P b1 d2), sv_open := [],
    sv_answered := sv_answered s @ answer (Some e) @ answer (Some f)\<rparr>"
  let ?db' = "pb_commit P b2 (pb_commit P b1 ?db)"
  have db': "dm_db (finish P b2 (finish P b1 d2)) = ?db'" by (simp add: finish_def k1 k2)
  have "written P G (pb_commit P b1 ?db) (sv_answered s @ [e])"
    by (rule written_append [OF assms(1,2) graph_writes_edge w assms(7) a1])
  then have "written P G ?db' (sv_answered s @ [f])"
    by (intro written_append_over [OF assms(1,2) graph_writes_edge w assms(7) a2])
      (use writtenD(2,3) [of P G "pb_commit P b1 ?db" "sv_answered s @ [e]"] in \<open>fastforce simp: nth_append\<close>)
  then have len: "Len P ?db' = of_nat ?n + 1" and got: "Get P G ?db' (of_nat ?n) = Some (Some f)"
    using writtenD(1) [of P G ?db' "sv_answered s @ [f]"] written_Get [OF assms(3), of P ?db' "sv_answered s @ [f]" ?n y] f(5)
    by (simp_all add: add.commute)
  have edge: "pb_get P ?db' (edgeKey (hash_bytes G x)) = Some c"
    unfolding e(1) f(1) edge_key_written [OF assms(1)]
    using assms(8) by (simp add: key_defs entryKey_def entryHashKey_def logLenKey_def)
  show ?thesis
  proof (intro exI conjI)
    show "prepare P G ?v (sv_daemon s) = (d1, Some (b1, Some e))" "prepare P G ?w d1 = (d2, Some (b2, Some f))"
      by (rule d1, rule d2)
    show "(serve_step P G True)\<^sup>*\<^sup>* s ?s'" by (rule overlap_run [OF assms(6) d1 d2])
  qed (use e(2,5) f(2,5) len got edge writtenD(1) [OF w] in \<open>simp_all add: db' answer_def GetConnectivity_def\<close>)
qed

section \<open>Witnesses\<close>

lemma one_call_run:
  assumes "sv_open s = []" and "at_once P G w (sv_daemon s) = (d, Some e)"
  shows "(serve_step P G ov)\<^sup>*\<^sup>* s (s\<lparr>sv_daemon := d, sv_open := [], sv_answered := sv_answered s @ answer e\<rparr>)"
proof -
  obtain d1 b where f: "prepare P G w (sv_daemon s) = (d1, Some (b, e))" and d: "d = finish P b d1"
    using assms(2) by (auto simp: at_once_def split: prod.splits option.splits)
  let ?s1 = "s\<lparr>sv_daemon := d1, sv_open := [(b, e)]\<rparr>"
  have "serve_step P G ov s ?s1" using serve_step.fill [OF _ f, of ov] assms(1) by simp
  moreover have "serve_step P G ov ?s1 (s\<lparr>sv_daemon := d, sv_open := [], sv_answered := sv_answered s @ answer e\<rparr>)"
    using serve_step.commit [of ?s1 "[]" b e "[]" P G ov] by (simp add: d)
  ultimately show ?thesis by (meson converse_rtranclp_into_rtranclp rtranclp.rtrancl_refl)
qed

theorem serial_calls_logged_witness:
  "\<exists>s. (serve_step list_pebble ref_env False)\<^sup>*\<^sup>* (serving fresh_daemon) s \<and> length (sv_answered s) = 1 \<and>
     Len list_pebble (dm_db (sv_daemon s)) = 1 \<and>
     Get list_pebble ref_env (dm_db (sv_daemon s)) 0 = Some (Some (sv_answered s ! 0))"
proof -
  let ?w = "W_append 5 (Some [7 :: byte])"
  have key: "length sample_key = 32" by (simp add: sample_key_def)
  obtain b e where "appendInBatch list_pebble ref_env sample_key (ed_public ref_env sample_key) 5 (Some [7])
      (pb_new list_pebble) [] = Some (b, e)"
    by (rule appendInBatch_total [OF list_pebble_spec graph_writes_Nil written_new [OF list_pebble_spec] _ key]) simp
  moreover from appendInBatch_written(5) [OF list_pebble_spec graph_writes_Nil written_new [OF list_pebble_spec] _ this]
  have "ge_payload e = Some [7]" by simp
  ultimately obtain d where "at_once list_pebble ref_env ?w fresh_daemon = (d, Some (Some e))" and payload: "ge_payload e = Some [7]"
    by (simp add: at_once_def Open_def)
  then have run: "(serve_step list_pebble ref_env False)\<^sup>*\<^sup>* (serving fresh_daemon)
      (serving fresh_daemon\<lparr>sv_daemon := d, sv_answered := [e]\<rparr>)"
    using one_call_run [of "serving fresh_daemon" list_pebble ref_env ?w d "Some e" False]
    by (simp add: serving_def answer_def)
  from serial_calls_logged [OF list_pebble_spec ref_env_blake3 ref_env_cbor run] run payload
  show ?thesis by (intro exI [of _ "serving fresh_daemon\<lparr>sv_daemon := d, sv_answered := [e]\<rparr>"]) simp
qed

theorem overlapping_commits_lose_an_entry_witness:
  "\<exists>s' e f. (serve_step list_pebble ref_env True)\<^sup>*\<^sup>* (serving fresh_daemon) s' \<and> sv_answered s' = [e, f] \<and>
     ge_payload e = Some [1] \<and> ge_payload f = Some [2] \<and> ge_seq e = ge_seq f \<and>
     Len list_pebble (dm_db (sv_daemon s')) = 1 \<and>
     Get list_pebble ref_env (dm_db (sv_daemon s')) (ge_seq e) = Some (Some f)"
proof -
  have new: "sv_answered (serving fresh_daemon) = []" "sv_open (serving fresh_daemon) = []"
    "Len list_pebble (dm_db (sv_daemon (serving fresh_daemon))) = 0"
    using writtenD(1) [OF written_new [OF list_pebble_spec, of ref_env]] by (simp_all add: serving_def Open_def)
  have differ: "hash_bytes ref_env [1] \<noteq> hash_bytes ref_env [2]" by code_simp
  from overlapping_commits_lose_an_entry [OF list_pebble_spec ref_env_blake3 ref_env_cbor _ rtranclp.rtrancl_refl new(2) _ differ,
      where t = 1 and ps = "[]" and c = "sample_hash 1" and p = None and u = 2 and qs = "[]" and k = "sample_hash 2" and q = None] new
  show ?thesis by (simp add: sample_key_def) blast
qed
end
