(* ===== verification/Spec2Isabelle.thy ===== *)
theory Spec2Isabelle
  imports Seed_Queries Serve Grpc_Api Parity_Vectors Go_Concurrency
begin

text \<open>
  A model of arxdb, a store for reasoning: claims are nodes, inferences are edges of a hypergraph, every edge
  is verified before it is stored, and everything is content-addressed, signed and logged. The model follows
  the Python package \<^verbatim>\<open>src/src/arxdb\<close> module by module; a definition has the name of the function it models
  where Isabelle allows it.

  \<^bold>\<open>The program.\<close> \<open>verification\<close> decides about a proposal: the ELENCHUS predicates veto or flag it, a checker for
  its edge type (sympy, z3, Lean, numpy, a roster of definitions) earns it a strength \<open>K0\<close> to \<open>K_INF\<close>, and
  \<open>verify_and_commit\<close> writes an accepted one. \<open>storage\<close> keeps blobs under their BLAKE3 multihash, the
  connectivity of the graph and a signed hash-chained log in one SQLite database, updated in one transaction.
  \<open>query\<close> reads: the strongest derivation of a claim, what is missing for one, which edges survive the attacks.
  \<open>attestation\<close> binds public keys to names and verifies edges and the whole log. \<open>seed\<close> is a corpus that a
  script brings in through the pipeline.

  \<^bold>\<open>Foundations.\<close> \<open>Prelude\<close>: results (\<open>py_error + 'a\<close>), strings as code points, bytes, the shared lemmas.
  \<open>World\<close>: Python values and the libraries as the record \<open>env\<close> (BLAKE3, cbor2, Ed25519) with what is relied on
  as \<open>blake3_spec\<close>, \<open>cbor_spec\<close>, \<open>ed25519_spec\<close>; \<open>Reference_World\<close> a concrete \<open>env\<close> for the witnesses.
  \<open>Dicts\<close>: insertion-ordered dicts. \<open>Strings\<close>: the string methods and regular expressions the code uses, over
  a parameter for the Unicode tables.

  \<^bold>\<open>Storage\<close> (\<^verbatim>\<open>storage/*.py\<close>). \<open>Hashing\<close>, \<open>Serialization\<close>, \<open>Keys\<close>, \<open>Merkle\<close>, \<open>Object_Store\<close>, \<open>Sqlite\<close> (one connection:
  committed state, pending transaction, autocommit), \<open>Graph_Index\<close>, \<open>Append_Log\<close>, \<open>Storage\<close> (the facade
  \<open>commit_edge_tx\<close>, the factory, the interface \<open>reader\<close> of the query layer). Their lemmas: encoders round-trip
  and bind, Merkle proofs are complete and sound, the index refines an abstract hypergraph, the log stays a
  verifying chain, the transaction is atomic, also when the process dies at any point.

  \<^bold>\<open>Verification\<close> (\<^verbatim>\<open>verification/*.py\<close>). \<open>Schema\<close>, \<open>Kappa_Algebra\<close>, \<open>Elenchus\<close>, \<open>Checkers\<close> and \<open>Spectral\<close> (the timer and
  the five checkers; an external call ends after some milliseconds with a value or an exception, or loops for ever
  in Python code, or is stuck for ever in a C function; the timer interrupts the first two, and no call that is
  stuck when it fires, because CPython runs signal handlers only between bytecodes), \<open>Checker_Contract\<close> (the locale every checker satisfies), \<open>Verifier\<close>, \<open>Commit\<close>. Their lemmas: when a
  proposal is vetoed, which strength it earns and why, what escapes as an exception, that verification ends
  if no library gets stuck and hangs if one does, and that an accepted proposal is stored faithfully and keeps every invariant.

  \<^bold>\<open>Queries\<close> (\<^verbatim>\<open>query/*.py\<close>). \<open>Resolve\<close>, \<open>Reachability\<close> with \<open>Reachability_Correct\<close> (the fixpoints compute the best
  derivation of the inductive relation \<open>derives\<close>) and \<open>Proof_Tree\<close>, \<open>Path_Discovery\<close> (the search reports exactly
  the \<open>frontier\<close>, which is said of the derivation edges alone: the gaps of the nodes \<open>needed\<close> for the target),
  \<open>Refutation\<close> (the labelling is
  the grounded extension). \<open>End_To_End\<close>: what the queries answer after a commit.

  \<^bold>\<open>Attestation and seed\<close> (\<^verbatim>\<open>attestation/*.py\<close>, \<^verbatim>\<open>seed/corpus.py\<close>, \<^verbatim>\<open>scripts/seed_phaser.py\<close>). \<open>Roster\<close>, \<open>Attestation\<close>,
  \<open>Corpus\<close> (the 36 nodes and 58 edges), \<open>Seed\<close> (the script), \<open>Corpus_Facts\<close> and \<open>Corpus_Records\<close> (evaluated facts and
  what the pipeline makes of each edge), \<open>Seed_World\<close> (an environment for the witnesses), \<open>Seeding\<close> (the run),
  \<open>Seed_Queries\<close> (what the seeded graph answers, its attestation and anchor).

  \<^bold>\<open>The HTTP API\<close> (\<^verbatim>\<open>api/server.py\<close>, \<^verbatim>\<open>scripts/arxdb_serve.py\<close>, the helpers of \<^verbatim>\<open>examples/08-public-api/client.py\<close>).
  \<open>Json\<close> and \<open>Base64\<close> write out the codecs of the standard library (\<open>json_dumps\<close>, \<open>json_loads\<close>, UTF-8, base64), the
  text of a float being a parameter with \<open>float_spec\<close>. \<open>Api\<close>: the parsers of the request body with their errors,
  one definition per endpoint over the interface \<open>reader\<close> of the backend, \<open>dispatch\<close> for the routes, \<open>settle\<close> for
  the \<open>except\<close> clauses, \<open>handle\<close> for a request. \<open>Api_Correct\<close>: that client and handler read what the other
  sent, that a posted commit is \<open>verify_and_commit\<close>, that every request is answered with a framed JSON object.
  \<open>Api_Stories\<close>: what a client learns from the answers, the invariant along a \<open>session\<close> (an inductive relation, one
  handled request per step), the refusals (the table \<open>refused\<close>). A commit that would go through but whose rule or
  a domain is no text, or whose time limit is not finite, is not \<open>well_typed\<close>: the server carries it out, while
  \<open>handle\<close> has no result for it, and no theorem speaks of it. \<open>Serve\<close>: how the server script finds or makes its key and roster.

  \<^bold>\<open>The gRPC backend\<close> (\<^verbatim>\<open>storage/grpc_client.py\<close>, \<^verbatim>\<open>go/pkg/storage\<close>, \<^verbatim>\<open>go/pkg/service\<close>). \<open>Pebble\<close>: the ordered key-value
  store as the record \<open>pebble\<close> of its calls with \<open>pebble_spec\<close>, big-endian keys and prefix ranges. \<open>Go_Graph\<close>, \<open>Go_Log\<close>,
  \<open>Go_Service\<close>: the daemon's index, log, blobs, its transaction and its remote calls, with 64-bit words where Go has
  \<open>int64\<close>, and what the keys in the database mean for the tables of the in-process backend. \<open>Grpc_Client\<close>: the Python
  side. \<open>Backend_Parity\<close>: the two backends answer every program of calls alike (the locale \<open>lockstep\<close>, interpreted on
  them), and the inputs on which they part. \<open>Backend_Queries\<close>: hence the commit, the queries, the attestation and the
  read endpoints do not depend on the backend. \<open>Grpc_Api\<close>: the HTTP server over the daemon gives the same responses.
  \<open>Go_Concurrency\<close> (\<^verbatim>\<open>go/cmd/arxdbd/main.go\<close>): the daemon takes no lock, so a writing call is two steps of the relation
  \<open>serve_step\<close>; calls that do not overlap are logged as they are answered, and overlapping commits can lose an entry.
  \<open>Parity_Vectors\<close> (\<^verbatim>\<open>scripts/gen_parity_vectors.py\<close>, \<^verbatim>\<open>go/pkg/parity\<close>): the test vectors, and what a passing test says about
  the libraries of the two sides.

  \<^bold>\<open>State and errors.\<close> An operation on a backend takes the state and returns it with a result; an exception is \<open>Inl\<close>
  and carries its class, in the verification layer also its text. Where a call may never return the result is
  an option and \<open>None\<close> is divergence. Loops that end are total functions with proved measures. The one fuel is that of
  the JSON reader, one more than twice the length of the text; \<open>json_loads_no_fuel\<close> shows that it is never used up.
  Time and randomness are arguments.

  \<^bold>\<open>Hypotheses.\<close> Besides the library specifications (\<open>blake3_spec\<close>, \<open>cbor_spec\<close>, \<open>ed25519_spec\<close>, \<open>pebble_spec\<close>): that the Go
  libraries compute what the Python ones do (\<open>libraries_agree\<close>, which the repository tests with parity vectors), that the digest does not collide on the blobs a
  theorem is about (\<open>collision_free\<close>), that solvers are sound where a theorem says what their answer means
  (\<open>z3_spec\<close>), that no library gets stuck in a C function where a theorem says that verification ends
  (\<open>provers_regain\<close>), that requests are \<open>well_typed\<close>, that the printed text of a
  float is read back (\<open>float_spec\<close>) and the texts sent hold no lone surrogates (\<open>sendable\<close>), and that the three spectral computations of the corpus succeed (\<open>spectral_holds\<close>).

  \<^bold>\<open>Not modelled.\<close> Lone surrogates in strings given to CBOR, a library that swallows the timeout exception,
  sub-millisecond timeouts, the matrix constructor \<open>bessel_kernel\<close> (it only computes with numpy and mpmath),
  the texts of storage exceptions, the printing of reports; what the server does with a commit whose rule or a
  domain is of another type than text (the outcome \<open>Outside\<close>, for which \<open>handle\<close> gives no result) or whose time limit
  is not finite, the recursion limit of the
  JSON reader, the parsing of the request line and headers by \<^verbatim>\<open>http.server\<close>; a gRPC channel that fails, interleavings finer than
  the two steps of a writing call, input and output errors of the
  daemon, the Go modules for hashing, CBOR, signatures and the Merkle tree (they repeat the Python ones) and the start
  of the daemon; the gRPC stubs (generated) and the visualizer.
\<close>

end
